(* ===== verification/Prelude.thy ===== *)
theory Prelude
  imports Main "HOL-Library.Word"
begin

text \<open>
  Shared vocabulary of the development: the machine types of the C++ sources, the result type of
  operations that may throw, and byte strings in the little-endian layout that
  \<^verbatim>\<open>src/src/crypto/common.h\<close> and the serializer of
  \<^verbatim>\<open>src/src/serialize.h\<close> use.  The collections \<open>result_iff\<close> (when
  does a chain of fallible steps succeed) and \<open>byte_simps\<close> (lengths and values of byte
  strings) carry the proofs of the components.
\<close>

unbundle bit_operations_syntax

type_synonym byte = "8 word"
type_synonym bytes = "8 word list"
type_synonym u32 = "32 word"
type_synonym u64 = "64 word"

named_theorems result_iff
named_theorems byte_simps

section \<open>Results of fallible operations\<close>

text \<open>An exception or an error return is \<open>Inl\<close>, a normal return is \<open>Inr\<close>.\<close>

definition rbind :: "'e + 'a \<Rightarrow> ('a \<Rightarrow> 'e + 'b) \<Rightarrow> 'e + 'b" where
  "rbind m f = (case m of Inl e \<Rightarrow> Inl e | Inr x \<Rightarrow> f x)"

definition ensure :: "bool \<Rightarrow> 'e \<Rightarrow> 'e + unit" where
  "ensure c e = (if c then Inr () else Inl e)"

lemma rbind_Inl [simp]: "rbind (Inl e) f = Inl e"
  by (simp add: rbind_def)

lemma rbind_Inr [simp]: "rbind (Inr x) f = f x"
  by (simp add: rbind_def)

lemma rbind_eq_Inr [result_iff]: "rbind m f = Inr y \<longleftrightarrow> (\<exists>x. m = Inr x \<and> f x = Inr y)"
  by (cases m) auto

lemma rbind_eq_Inl [result_iff]:
  "rbind m f = Inl e \<longleftrightarrow> m = Inl e \<or> (\<exists>x. m = Inr x \<and> f x = Inl e)"
  by (cases m) auto

lemma rbind_cong [fundef_cong]:
  "m = m' \<Longrightarrow> (\<And>x. m' = Inr x \<Longrightarrow> f x = g x) \<Longrightarrow> rbind m f = rbind m' g"
  by (cases m') auto

lemma ensure_eq_Inr [result_iff]: "ensure c e = Inr u \<longleftrightarrow> c"
  by (simp add: ensure_def)

lemma ensure_eq_Inl [result_iff]: "ensure c e = Inl e' \<longleftrightarrow> \<not> c \<and> e' = e"
  by (auto simp: ensure_def)

lemma ensure_True [simp]: "ensure True e = Inr ()"
  by (simp add: ensure_def)

lemma ensure_False [simp]: "ensure False e = Inl e"
  by (simp add: ensure_def)

section \<open>Little-endian byte strings\<close>

text \<open>The \<open>n\<close> bytes a little-endian machine stores for an unsigned value, and the value of a
  byte string.\<close>

fun le_bytes :: "nat \<Rightarrow> nat \<Rightarrow> bytes" where
  "le_bytes 0 x = []"
| "le_bytes (Suc n) x = of_nat x # le_bytes n (x div 256)"

fun le_value :: "bytes \<Rightarrow> nat" where
  "le_value [] = 0"
| "le_value (b # bs) = unat b + 256 * le_value bs"

lemma unat_byte_of_nat [byte_simps]: "unat (of_nat x :: byte) = x mod 256"
  by (simp add: unat_of_nat)

lemma unat_byte_less [simp]: "unat (b :: byte) < 256"
  by (rule order_less_le_trans [OF unsigned_less]) simp

lemma length_le_bytes [simp, byte_simps]: "length (le_bytes n x) = n"
  by (induction n arbitrary: x) auto

lemma le_value_le_bytes [byte_simps]: "le_value (le_bytes n x) = x mod 256 ^ n"
proof (induction n arbitrary: x)
  case 0
  then show ?case by simp
next
  case (Suc n)
  have "x mod 256 ^ Suc n = x mod 256 + 256 * (x div 256 mod 256 ^ n)"
    by (simp add: mod_mult2_eq)
  then show ?case by (simp add: Suc unat_byte_of_nat)
qed

lemma le_value_less: "le_value bs < 256 ^ length bs"
proof (induction bs)
  case Nil
  then show ?case by simp
next
  case (Cons b bs)
  have "unat b + 256 * le_value bs < 256 * (1 + le_value bs)"
    using unat_byte_less [of b] by simp
  also have "\<dots> \<le> 256 * 256 ^ length bs"
    using Cons.IH by (intro mult_le_mono2) simp
  finally show ?case by simp
qed

lemma le_bytes_le_value [byte_simps]: "length bs = n \<Longrightarrow> le_bytes n (le_value bs) = bs"
proof (induction bs arbitrary: n)
  case Nil
  then show ?case by simp
next
  case (Cons b bs)
  have "(of_nat (unat b + 256 * le_value bs) :: byte) = b"
    by (rule word_unat_eq_iff [THEN iffD2]) (simp only: unat_byte_of_nat mod_mult_self2, simp)
  moreover have "(unat b + 256 * le_value bs) div 256 = le_value bs"
    using unat_byte_less [of b] by simp
  ultimately show ?case using Cons by (cases n) auto
qed

lemma le_value_append [byte_simps]: "le_value (as @ bs) = le_value as + 256 ^ length as * le_value bs"
  by (induction as) (auto simp: algebra_simps)

lemma le_bytes_mod: "le_bytes n (x mod 256 ^ n) = le_bytes n x"
  by (metis le_bytes_le_value le_value_le_bytes length_le_bytes)

lemma le_bytes_inject:
  "x < 256 ^ n \<Longrightarrow> y < 256 ^ n \<Longrightarrow> le_bytes n x = le_bytes n y \<longleftrightarrow> x = y"
  by (metis le_value_le_bytes mod_less)

section \<open>Words and lists\<close>

lemma take_length_append [simp]: "length as = n \<Longrightarrow> take n (as @ bs) = as"
  by simp

lemma drop_length_append [simp]: "length as = n \<Longrightarrow> drop n (as @ bs) = bs"
  by simp

lemma pow256: "(256 :: nat) ^ n = 2 ^ (8 * n)"
  by (simp add: power_mult)

lemma unat_ucast_up:
  "LENGTH('a) \<le> LENGTH('b) \<Longrightarrow> unat (ucast (x :: 'a::len word) :: 'b::len word) = unat x"
  by (simp add: unsigned_ucast_eq take_bit_nat_eq_self_iff order_less_le_trans [OF unsigned_less])

lemma unat_add_no_overflow:
  "unat (a :: 'a::len word) + unat b < 2 ^ LENGTH('a) \<Longrightarrow> unat (a + b) = unat a + unat b"
  by (simp add: unat_word_ariths)

lemma unat_mult_no_overflow:
  "unat (a :: 'a::len word) * unat b < 2 ^ LENGTH('a) \<Longrightarrow> unat (a * b) = unat a * unat b"
  by (simp add: unat_word_ariths)

lemma mixed_radix_eq:
  assumes "(a :: nat) < m" and "b < m"
  shows "a + m * c = b + m * d \<longleftrightarrow> a = b \<and> c = d"
proof
  assume eq: "a + m * c = b + m * d"
  from arg_cong [OF eq, of "\<lambda>x. x mod m"] arg_cong [OF eq, of "\<lambda>x. x div m"] assms
  show "a = b \<and> c = d" by simp
qed simp

text \<open>One step of a carry chain: the low digit stays, the rest is added one digit up.\<close>

lemma carry_step:
  assumes "(lo :: nat) + M * hi = n" and "lo < M"
  shows "lo + M * ((hi + x) mod K) = (n + M * x) mod (M * K)"
proof -
  have "n + M * x = lo + M * (hi + x)"
    using assms(1) by (simp add: algebra_simps)
  then show ?thesis
    using assms(2) by (simp add: mod_mult2_eq)
qed

lemma unat_u64_less: "unat (x :: u64) < 2 ^ 64"
  by (rule order_less_le_trans [OF unsigned_less]) simp

end
