(* ===== verification/Uint256.thy ===== *)
theory Uint256
  imports Prelude
begin

text \<open>
  The multi-limb unsigned integers of \<^verbatim>\<open>src/src/uint256.h\<close> and
  \<^verbatim>\<open>src/src/uint256.cpp\<close>.  A \<open>base_uint<BITS>\<close> is the array \<open>pn\<close> of
  \<open>WIDTH = BITS / 32\<close> limbs, least significant first; here it is the list of those limbs, and
  \<open>WIDTH\<close> is its length.  The carries of the source are 64-bit and stay 64-bit here.
  \<open>uval\<close> reads the number off the limbs.  The lemmas of the section on values show that every
  operation computes its arithmetic counterpart modulo \<open>2 ^ BITS\<close>; they are collected as the
  interface \<open>fixed_uint\<close>, which the clients of the type use.
\<close>

type_synonym base_uint = "u32 list"

datatype uint_error = Division_by_zero | Wrong_vector_size

section \<open>Construction, tests and bitwise operations\<close>

definition base_uint_zero :: "nat \<Rightarrow> base_uint" where
  "base_uint_zero WIDTH = replicate WIDTH 0"

definition base_uint_u64 :: "nat \<Rightarrow> u64 \<Rightarrow> base_uint" where
  "base_uint_u64 WIDTH b = ucast b # ucast (drop_bit 32 b) # replicate (WIDTH - 2) 0"

definition IsNull :: "base_uint \<Rightarrow> bool" where
  "IsNull pn = list_all (\<lambda>w. w = 0) pn"

definition uint_not :: "base_uint \<Rightarrow> base_uint" where
  "uint_not pn = map NOT pn"

definition uint_xor :: "base_uint \<Rightarrow> base_uint \<Rightarrow> base_uint" where
  "uint_xor pn b = map2 (XOR) pn b"

definition uint_and :: "base_uint \<Rightarrow> base_uint \<Rightarrow> base_uint" where
  "uint_and pn b = map2 (AND) pn b"

definition uint_or :: "base_uint \<Rightarrow> base_uint \<Rightarrow> base_uint" where
  "uint_or pn b = map2 (OR) pn b"

definition Get64 :: "base_uint \<Rightarrow> nat \<Rightarrow> u64" where
  "Get64 pn n = ucast (pn ! (2 * n)) OR push_bit 32 (ucast (pn ! (2 * n + 1)))"

definition GetLow64 :: "base_uint \<Rightarrow> u64" where
  "GetLow64 pn = ucast (pn ! 0) OR push_bit 32 (ucast (pn ! 1))"

section \<open>Increment, addition, subtraction\<close>

text \<open>\<open>while (++pn[i] == 0 && i < WIDTH - 1) i++;\<close> and its counterpart for \<open>operator--\<close>.\<close>

fun uint_inc :: "base_uint \<Rightarrow> base_uint" where
  "uint_inc [] = []"
| "uint_inc (w # ws) = (if w + 1 = 0 \<and> ws \<noteq> [] then (w + 1) # uint_inc ws else (w + 1) # ws)"

fun uint_dec :: "base_uint \<Rightarrow> base_uint" where
  "uint_dec [] = []"
| "uint_dec (w # ws) = (if w - 1 = - 1 \<and> ws \<noteq> [] then (w - 1) # uint_dec ws else (w - 1) # ws)"

definition uint_neg :: "base_uint \<Rightarrow> base_uint" where
  "uint_neg pn = uint_inc (map NOT pn)"

fun uint_add_loop :: "u64 \<Rightarrow> base_uint \<Rightarrow> base_uint \<Rightarrow> base_uint" where
  "uint_add_loop carry (p # pn) (q # b) =
     (let n = carry + ucast p + ucast q
      in ucast (n AND 0xffffffff) # uint_add_loop (drop_bit 32 n) pn b)"
| "uint_add_loop carry _ _ = []"

definition uint_add :: "base_uint \<Rightarrow> base_uint \<Rightarrow> base_uint" where
  "uint_add pn b = uint_add_loop 0 pn b"

definition uint_sub :: "base_uint \<Rightarrow> base_uint \<Rightarrow> base_uint" where
  "uint_sub pn b = uint_add pn (uint_neg b)"

definition uint_add64 :: "base_uint \<Rightarrow> u64 \<Rightarrow> base_uint" where
  "uint_add64 pn b64 = uint_add pn (base_uint_u64 (length pn) b64)"

definition uint_sub64 :: "base_uint \<Rightarrow> u64 \<Rightarrow> base_uint" where
  "uint_sub64 pn b64 = uint_add pn (uint_neg (base_uint_u64 (length pn) b64))"

section \<open>Shifts\<close>

text \<open>One iteration of the loop over \<open>i\<close>: limb \<open>i\<close> of the copy \<open>a\<close> is or-ed into the two
  limbs it reaches.\<close>

definition shl_step :: "base_uint \<Rightarrow> nat \<Rightarrow> nat \<Rightarrow> nat \<Rightarrow> base_uint \<Rightarrow> base_uint" where
  "shl_step a k shift i pn =
     (let pn1 = (if i + k + 1 < length a \<and> shift \<noteq> 0
                 then pn[i + k + 1 := pn ! (i + k + 1) OR drop_bit (32 - shift) (a ! i)] else pn)
      in if i + k < length a
         then pn1[i + k := pn1 ! (i + k) OR push_bit shift (a ! i)] else pn1)"

definition uint_shl :: "base_uint \<Rightarrow> nat \<Rightarrow> base_uint" where
  "uint_shl a shift =
     fold (shl_step a (shift div 32) (shift mod 32)) [0..<length a] (replicate (length a) 0)"

definition shr_step :: "base_uint \<Rightarrow> nat \<Rightarrow> nat \<Rightarrow> nat \<Rightarrow> base_uint \<Rightarrow> base_uint" where
  "shr_step a k shift i pn =
     (let pn1 = (if k + 1 \<le> i \<and> shift \<noteq> 0
                 then pn[i - k - 1 := pn ! (i - k - 1) OR push_bit (32 - shift) (a ! i)] else pn)
      in if k \<le> i
         then pn1[i - k := pn1 ! (i - k) OR drop_bit shift (a ! i)] else pn1)"

definition uint_shr :: "base_uint \<Rightarrow> nat \<Rightarrow> base_uint" where
  "uint_shr a shift =
     fold (shr_step a (shift div 32) (shift mod 32)) [0..<length a] (replicate (length a) 0)"

section \<open>Comparison and bit length\<close>

fun CompareTo_loop :: "base_uint \<Rightarrow> base_uint \<Rightarrow> int" where
  "CompareTo_loop (p # pn) (q # b) =
     (if p < q then - 1 else if q < p then 1 else CompareTo_loop pn b)"
| "CompareTo_loop _ _ = 0"

text \<open>The loop runs from the top limb down.\<close>

definition CompareTo :: "base_uint \<Rightarrow> base_uint \<Rightarrow> int" where
  "CompareTo pn b = CompareTo_loop (rev pn) (rev b)"

definition EqualTo :: "base_uint \<Rightarrow> u64 \<Rightarrow> bool" where
  "EqualTo pn b =
     (list_all (\<lambda>w. w = 0) (drop 2 pn) \<and>
      ucast (pn ! 1) = drop_bit 32 b \<and> ucast (pn ! 0) = b AND 0xffffffff)"

text \<open>\<open>for (int bits = 31; bits > 0; bits--)\<close> over one limb; 0 when only bit 0 is left.\<close>

fun top_bit :: "nat \<Rightarrow> u32 \<Rightarrow> nat" where
  "top_bit 0 w = 0"
| "top_bit (Suc b) w = (if bit w (Suc b) then Suc b else top_bit b w)"

fun bits_loop :: "base_uint \<Rightarrow> nat" where
  "bits_loop [] = 0"
| "bits_loop (w # ws) = (if w \<noteq> 0 then 32 * length ws + top_bit 31 w + 1 else bits_loop ws)"

definition bits :: "base_uint \<Rightarrow> nat" where
  "bits pn = bits_loop (rev pn)"

section \<open>Multiplication and division\<close>

fun uint_mul32_loop :: "u64 \<Rightarrow> u32 \<Rightarrow> base_uint \<Rightarrow> base_uint" where
  "uint_mul32_loop carry b32 [] = []"
| "uint_mul32_loop carry b32 (p # pn) =
     (let n = carry + ucast b32 * ucast p
      in ucast (n AND 0xffffffff) # uint_mul32_loop (drop_bit 32 n) b32 pn)"

definition uint_mul32 :: "base_uint \<Rightarrow> u32 \<Rightarrow> base_uint" where
  "uint_mul32 pn b32 = uint_mul32_loop 0 b32 pn"

text \<open>The inner loop over \<open>i\<close> runs on the limbs \<open>pn[j ..]\<close> and stops at the top limb.\<close>

fun uint_mul_inner :: "u64 \<Rightarrow> u32 \<Rightarrow> base_uint \<Rightarrow> base_uint \<Rightarrow> base_uint" where
  "uint_mul_inner carry aj (p # pn) (q # b) =
     (let n = carry + ucast p + ucast aj * ucast q
      in ucast (n AND 0xffffffff) # uint_mul_inner (drop_bit 32 n) aj pn b)"
| "uint_mul_inner carry aj pn _ = pn"

definition uint_mul :: "base_uint \<Rightarrow> base_uint \<Rightarrow> base_uint" where
  "uint_mul a b =
     fold (\<lambda>j pn. take j pn @ uint_mul_inner 0 (a ! j) (drop j pn) b) [0..<length a]
       (replicate (length a) 0)"

text \<open>The loop \<open>while (shift >= 0)\<close>; its argument is \<open>shift + 1\<close>.\<close>

fun uint_div_loop :: "nat \<Rightarrow> base_uint \<Rightarrow> base_uint \<Rightarrow> base_uint \<Rightarrow> base_uint" where
  "uint_div_loop 0 num dv pn = pn"
| "uint_div_loop (Suc shift) num dv pn =
     (if 0 \<le> CompareTo num dv
      then uint_div_loop shift (uint_sub num dv) (uint_shr dv 1)
             (pn[shift div 32 := pn ! (shift div 32) OR push_bit (shift mod 32) 1])
      else uint_div_loop shift num (uint_shr dv 1) pn)"

definition uint_div :: "base_uint \<Rightarrow> base_uint \<Rightarrow> uint_error + base_uint" where
  "uint_div num b =
     (let num_bits = bits num; div_bits = bits b; quot = replicate (length num) 0
      in if div_bits = 0 then Inl Division_by_zero
         else if div_bits > num_bits then Inr quot
         else let shift = num_bits - div_bits
              in Inr (uint_div_loop (Suc shift) num (uint_shl b shift) quot))"

section \<open>The compact format of difficulty targets\<close>

text \<open>\<open>SetCompact\<close> assigns the value and the flags \<open>*pfNegative\<close> and \<open>*pfOverflow\<close>; the
  second component is the (shifted) mantissa \<open>nWord\<close> both flags are computed from.\<close>

definition SetCompact :: "u32 \<Rightarrow> base_uint \<times> bool \<times> bool" where
  "SetCompact nCompact =
     (let nSize = unat (drop_bit 24 nCompact);
          nWord0 = nCompact AND 0x007fffff;
          nWord = (if nSize \<le> 3 then drop_bit (8 * (3 - nSize)) nWord0 else nWord0);
          this = (if nSize \<le> 3 then base_uint_u64 8 (ucast nWord)
                  else uint_shl (base_uint_u64 8 (ucast nWord)) (8 * (nSize - 3)))
      in (this,
          nWord \<noteq> 0 \<and> nCompact AND 0x00800000 \<noteq> 0,
          nWord \<noteq> 0 \<and> (nSize > 34 \<or> (nWord > 0xff \<and> nSize > 33) \<or> (nWord > 0xffff \<and> nSize > 32))))"

text \<open>\<open>None\<close> stands for a failing \<open>assert\<close>.\<close>

definition GetCompact :: "bool \<Rightarrow> base_uint \<Rightarrow> u32 option" where
  "GetCompact fNegative pn =
     (let nSize0 = (bits pn + 7) div 8;
          nCompact0 = (if nSize0 \<le> 3 then ucast (push_bit (8 * (3 - nSize0)) (GetLow64 pn))
                       else ucast (GetLow64 (uint_shr pn (8 * (nSize0 - 3)))));
          sign = (nCompact0 AND 0x00800000 \<noteq> (0 :: u32));
          nCompact1 = (if sign then drop_bit 8 nCompact0 else nCompact0);
          nSize = (if sign then nSize0 + 1 else nSize0)
      in if nCompact1 AND NOT 0x007fffff \<noteq> 0 then None
         else if \<not> nSize < 256 then None
         else let nCompact2 = nCompact1 OR push_bit 24 (of_nat nSize)
              in Some (nCompact2 OR
                   (if fNegative \<and> nCompact2 AND 0x007fffff \<noteq> 0 then 0x00800000 else 0)))"

section \<open>Values\<close>

fun uval :: "base_uint \<Rightarrow> nat" where
  "uval [] = 0"
| "uval (w # ws) = unat w + 2 ^ 32 * uval ws"

named_theorems uval_simps

lemma unat_limb_less: "unat (w :: u32) < 2 ^ 32"
  by (rule order_less_le_trans [OF unsigned_less]) simp

lemma uval_less: "uval pn < 2 ^ (32 * length pn)"
proof (induction pn)
  case Nil
  then show ?case by simp
next
  case (Cons w ws)
  have "unat w + 2 ^ 32 * uval ws < 2 ^ 32 * (1 + uval ws)"
    using unat_limb_less [of w] by simp
  also have "\<dots> \<le> 2 ^ 32 * 2 ^ (32 * length ws)"
    using Cons.IH by (intro mult_le_mono2) simp
  finally show ?case by (simp add: power_add)
qed

lemma uval_append [uval_simps]: "uval (as @ bs) = uval as + 2 ^ (32 * length as) * uval bs"
  by (induction as) (auto simp: algebra_simps power_add)

lemma uval_replicate_0 [simp]: "uval (replicate n 0) = 0"
  by (induction n) auto

lemma uval_eq_0_iff: "uval pn = 0 \<longleftrightarrow> list_all (\<lambda>w. w = 0) pn"
  by (induction pn) (auto simp: unat_eq_0)

lemma uval_inject: "length a = length b \<Longrightarrow> uval a = uval b \<longleftrightarrow> a = b"
proof (induction a b rule: list_induct2)
  case Nil
  then show ?case by simp
next
  case (Cons x xs y ys)
  have "unat x + 2 ^ 32 * uval xs = unat y + 2 ^ 32 * uval ys \<longleftrightarrow>
      unat x = unat y \<and> uval xs = uval ys"
    by (rule mixed_radix_eq [OF unat_limb_less unat_limb_less])
  then show ?case using Cons by (simp add: word_unat_eq_iff)
qed

lemma uval_inc_aux: "pn \<noteq> [] \<Longrightarrow> uval (uint_inc pn) = (uval pn + 1) mod 2 ^ (32 * length pn)"
proof (induction pn)
  case Nil
  then show ?case by simp
next
  case (Cons w ws)
  let ?M = "2 ^ (32 * length ws) :: nat"
  have top: "2 ^ (32 * length (w # ws)) = 2 ^ 32 * ?M"
    by (simp add: power_add)
  show ?case
  proof (cases "w + 1 = 0")
    case True
    then have "w = - 1"
      by (simp add: eq_neg_iff_add_eq_0)
    then have w: "unat w = 2 ^ 32 - 1"
      by (simp add: unsigned_minus_1_eq_mask mask_eq_exp_minus_1)
    then have one: "0 + 2 ^ 32 * 1 = unat w + 1"
      by simp
    show ?thesis
    proof (cases "ws = []")
      case True
      with \<open>w + 1 = 0\<close> w show ?thesis by simp
    next
      case False
      with \<open>w + 1 = 0\<close> Cons.IH have "uval (uint_inc (w # ws)) = 2 ^ 32 * ((1 + uval ws) mod ?M)"
        by (simp add: add.commute)
      also have "\<dots> = (unat w + 1 + 2 ^ 32 * uval ws) mod (2 ^ 32 * ?M)"
        using carry_step [OF one, of "uval ws" ?M] by (simp only: add_0 zero_less_power zero_less_numeral)
      also have "unat w + 1 + 2 ^ 32 * uval ws = uval (w # ws) + 1"
        by simp
      finally show ?thesis unfolding top .
    qed
  next
    case False
    then have w: "unat (w + 1) = unat w + 1"
      using unatSuc [of w] by (simp add: add.commute)
    have lt: "unat w + 2 ^ 32 * uval ws + 1 < 2 ^ 32 * ?M"
      using uval_less [of "(w + 1) # ws"] by (simp add: w power_add)
    from False show ?thesis
      by (simp only: uint_inc.simps uval.simps top mod_less [OF lt]) (simp add: w)
  qed
qed


text \<open>Splitting a 64-bit intermediate result into a limb and the carry loses nothing.\<close>

lemma limb_carry: "unat (ucast (n AND 0xffffffff :: u64) :: u32) + 2 ^ 32 * unat (drop_bit 32 n) = unat n"
proof -
  have "n AND 0xffffffff = take_bit 32 n"
    by (simp add: take_bit_eq_mask mask_eq_exp_minus_1)
  then have "unat (ucast (n AND 0xffffffff) :: u32) = take_bit 32 (unat n)"
    by (simp add: unsigned_ucast_eq unsigned_take_bit_eq)
  moreover have "unat (drop_bit 32 n) = drop_bit 32 (unat n)"
    by (rule unat_drop_bit_eq)
  ultimately show ?thesis
    using bits_ident [of 32 "unat n"] by (simp add: push_bit_eq_mult mult.commute)
qed

lemma unat_limb_carry: "unat (drop_bit 32 (n :: u64)) = unat n div 2 ^ 32"
  by (rule trans [OF unat_drop_bit_eq drop_bit_eq_div])

lemma limb_mult_add_bound:
  assumes "unat (carry :: u64) < 2 ^ 32"
  shows "unat (carry + ucast (p :: u32) + ucast (a :: u32) * ucast (q :: u32)) =
      unat carry + unat p + unat a * unat q"
    and "unat (drop_bit 32 (carry + ucast p + ucast a * ucast q)) < 2 ^ 32"
proof -
  have cast: "unat (ucast x :: u64) = unat x" for x :: u32
    by (simp add: unat_ucast_up)
  have "unat a * unat q \<le> (2 ^ 32 - 1) * (2 ^ 32 - 1)"
    using unat_limb_less [of a] unat_limb_less [of q] by (intro mult_le_mono) simp_all
  then have bound: "unat carry + unat p + unat a * unat q < 2 ^ 64"
    using assms unat_limb_less [of p] by simp
  have m: "unat (ucast a * ucast q :: u64) = unat a * unat q"
    using bound by (subst unat_mult_no_overflow) (simp_all add: cast)
  have s: "unat (carry + ucast p) = unat carry + unat p"
    using bound by (subst unat_add_no_overflow) (simp_all add: cast)
  show sum: "unat (carry + ucast p + ucast a * ucast q) = unat carry + unat p + unat a * unat q"
    using bound by (subst unat_add_no_overflow) (simp_all add: s m)
  show "unat (drop_bit 32 (carry + ucast p + ucast a * ucast q)) < 2 ^ 32"
    using bound by (subst unat_limb_carry, subst sum) simp
qed

lemma uval_add_loop:
  "length pn = length b \<Longrightarrow> unat carry < 2 ^ 32 \<Longrightarrow>
   uval (uint_add_loop carry pn b) = (unat carry + uval pn + uval b) mod 2 ^ (32 * length pn)"
proof (induction pn b arbitrary: carry rule: list_induct2)
  case Nil
  then show ?case by simp
next
  case (Cons p pn q b)
  define n :: u64 where "n = carry + ucast p + ucast q"
  have p: "unat (ucast p :: u64) = unat p" and q: "unat (ucast q :: u64) = unat q"
    by (simp_all add: unat_ucast_up)
  have n: "unat n = unat carry + unat p + unat q"
    unfolding n_def using Cons.prems unat_limb_less [of p] unat_limb_less [of q]
    by (subst unat_add_no_overflow; (subst unat_add_no_overflow)?) (simp_all add: p q)
  have c: "unat (drop_bit 32 n) < 2 ^ 32"
    using Cons.prems unat_limb_less [of p] unat_limb_less [of q] by (simp add: unat_limb_carry n)
  have "uval (uint_add_loop carry (p # pn) (q # b)) =
      unat (ucast (n AND 0xffffffff) :: u32) +
      2 ^ 32 * ((unat (drop_bit 32 n) + uval pn + uval b) mod 2 ^ (32 * length pn))"
    using Cons.IH [OF c] by (simp add: n_def Let_def)
  also have "\<dots> = (unat n + 2 ^ 32 * (uval pn + uval b)) mod (2 ^ 32 * 2 ^ (32 * length pn))"
    using carry_step [OF limb_carry unat_limb_less, of n "uval pn + uval b" "2 ^ (32 * length pn)"]
    by (simp add: add.assoc)
  finally show ?case by (simp add: n power_add algebra_simps)
qed

lemma length_add_loop [simp]: "length pn = length b \<Longrightarrow> length (uint_add_loop c pn b) = length pn"
  by (induction pn b arbitrary: c rule: list_induct2) (auto simp: Let_def)

lemma length_inc [simp]: "length (uint_inc pn) = length pn"
  by (induction pn) auto

lemma length_dec [simp]: "length (uint_dec pn) = length pn"
  by (induction pn) auto

lemma length_arith [simp]:
  "length (uint_not a) = length a" "length (uint_neg a) = length a"
  "length a = length b \<Longrightarrow> length (uint_add a b) = length a"
  "length a = length b \<Longrightarrow> length (uint_sub a b) = length a"
  by (simp_all add: uint_not_def uint_neg_def uint_add_def uint_sub_def)

lemma uint_inc_dec: "uint_inc (uint_dec pn) = pn"
  by (induction pn) (auto simp: length_greater_0_conv [symmetric] simp del: length_greater_0_conv)

lemma unat_not: "unat (NOT (w :: u32)) = 2 ^ 32 - 1 - unat w"
proof -
  have "NOT w = - 1 - w"
    by (simp add: not_eq_complement)
  moreover have "unat (- 1 - w) = unat (- 1 :: u32) - unat w"
    by (rule unat_sub) simp
  ultimately show ?thesis
    by (simp add: unsigned_minus_1_eq_mask mask_eq_exp_minus_1)
qed

lemma uval_not [uval_simps]: "uval (uint_not pn) = 2 ^ (32 * length pn) - 1 - uval pn"
proof -
  have "uval (uint_not pn) + uval pn + 1 = 2 ^ (32 * length pn)"
  proof (induction pn)
    case Nil
    then show ?case by (simp add: uint_not_def)
  next
    case (Cons w ws)
    have "unat (NOT w) + unat w + 1 = 2 ^ 32"
      using unat_limb_less [of w] by (simp add: unat_not)
    moreover have "2 ^ 32 * uval (uint_not ws) + 2 ^ 32 * uval ws + 2 ^ 32 = 2 ^ 32 * 2 ^ (32 * length ws)"
      by (simp only: Cons.IH [symmetric] distrib_left mult_1_right)
    ultimately show ?case
      by (simp add: uint_not_def power_add)
  qed
  then show ?thesis by simp
qed

lemma uval_add [uval_simps]:
  "length a = length b \<Longrightarrow> uval (uint_add a b) = (uval a + uval b) mod 2 ^ (32 * length a)"
  by (simp add: uint_add_def uval_add_loop)

lemma uval_inc [uval_simps]: "uval (uint_inc pn) = (uval pn + 1) mod 2 ^ (32 * length pn)"
  by (cases "pn = []") (simp_all add: uval_inc_aux)

lemma uval_neg [uval_simps]: "uval (uint_neg pn) = (2 ^ (32 * length pn) - uval pn) mod 2 ^ (32 * length pn)"
  using uval_less [of pn] uval_not [of pn] by (simp add: uint_neg_def uval_inc uint_not_def Suc_diff_Suc)

lemma uval_sub:
  assumes "length a = length b"
  shows "uval (uint_sub a b) = (uval a + (2 ^ (32 * length a) - uval b)) mod 2 ^ (32 * length a)"
  using assms by (simp add: uint_sub_def uval_add uval_neg mod_add_right_eq)

lemma uval_sub_le [uval_simps]:
  assumes "length a = length b" and "uval b \<le> uval a"
  shows "uval (uint_sub a b) = uval a - uval b"
proof -
  have "uval a + (2 ^ (32 * length a) - uval b) = 2 ^ (32 * length a) + (uval a - uval b)"
    using assms uval_less [of b] by simp
  moreover have "uval a - uval b < 2 ^ (32 * length a)"
    using uval_less [of a] by simp
  ultimately show ?thesis
    by (simp add: uval_sub [OF assms(1)])
qed


lemma uval_mul32_loop:
  "unat carry < 2 ^ 32 \<Longrightarrow>
   uval (uint_mul32_loop carry b32 pn) = (unat carry + unat b32 * uval pn) mod 2 ^ (32 * length pn)"
proof (induction pn arbitrary: carry)
  case Nil
  then show ?case by simp
next
  case (Cons p pn)
  define n :: u64 where "n = carry + ucast b32 * ucast p"
  have n: "unat n = unat carry + unat b32 * unat p" and c: "unat (drop_bit 32 n) < 2 ^ 32"
    using limb_mult_add_bound [OF Cons.prems, of 0 b32 p] by (simp_all add: n_def)
  have "uval (uint_mul32_loop carry b32 (p # pn)) = unat (ucast (n AND 0xffffffff) :: u32) +
      2 ^ 32 * ((unat (drop_bit 32 n) + unat b32 * uval pn) mod 2 ^ (32 * length pn))"
    using Cons.IH [OF c] by (simp add: n_def Let_def)
  also have "\<dots> = (unat n + 2 ^ 32 * (unat b32 * uval pn)) mod (2 ^ 32 * 2 ^ (32 * length pn))"
    by (rule carry_step [OF limb_carry unat_limb_less])
  finally show ?case by (simp add: n power_add algebra_simps)
qed

lemma uval_mul_inner:
  "length pn \<le> length b \<Longrightarrow> unat carry < 2 ^ 32 \<Longrightarrow>
   uval (uint_mul_inner carry aj pn b) =
     (unat carry + uval pn + unat aj * uval b) mod 2 ^ (32 * length pn)"
proof (induction carry aj pn b rule: uint_mul_inner.induct)
  case (1 carry aj p pn q b)
  define n :: u64 where "n = carry + ucast p + ucast aj * ucast q"
  have n: "unat n = unat carry + unat p + unat aj * unat q" and c: "unat (drop_bit 32 n) < 2 ^ 32"
    using limb_mult_add_bound [OF "1.prems"(2), of p aj q] by (simp_all add: n_def)
  have "uval (uint_mul_inner carry aj (p # pn) (q # b)) = unat (ucast (n AND 0xffffffff) :: u32) +
      2 ^ 32 * ((unat (drop_bit 32 n) + (uval pn + unat aj * uval b)) mod 2 ^ (32 * length pn))"
    using "1.IH" [OF n_def] "1.prems"(1) c by (simp add: n_def Let_def add.assoc)
  also have "\<dots> = (unat n + 2 ^ 32 * (uval pn + unat aj * uval b)) mod (2 ^ 32 * 2 ^ (32 * length pn))"
    by (rule carry_step [OF limb_carry unat_limb_less])
  finally show ?case by (simp add: n power_add algebra_simps)
qed simp_all

lemma uval_mul32 [uval_simps]: "uval (uint_mul32 pn b) = (uval pn * unat b) mod 2 ^ (32 * length pn)"
  by (simp add: uint_mul32_def uval_mul32_loop mult.commute)

lemma length_mul32 [simp]: "length (uint_mul32 pn b) = length pn"
proof -
  have "length (uint_mul32_loop c b pn) = length pn" for c
    by (induction pn arbitrary: c) (simp_all add: Let_def)
  then show ?thesis by (simp add: uint_mul32_def)
qed

lemma length_mul_inner [simp]: "length (uint_mul_inner c aj pn b) = length pn"
  by (induction c aj pn b rule: uint_mul_inner.induct) (simp_all add: Let_def)

lemma uval_take_Suc:
  "j < length a \<Longrightarrow> uval (take (Suc j) a) = uval (take j a) + 2 ^ (32 * j) * unat (a ! j)"
  by (simp add: take_Suc_conv_app_nth uval_append min_def)

lemma uval_mul_prefix:
  assumes "length b = length a" and "m \<le> length a"
  shows "length (fold (\<lambda>j pn. take j pn @ uint_mul_inner 0 (a ! j) (drop j pn) b) [0..<m]
             (replicate (length a) 0)) = length a \<and>
         uval (fold (\<lambda>j pn. take j pn @ uint_mul_inner 0 (a ! j) (drop j pn) b) [0..<m]
             (replicate (length a) 0)) = (uval (take m a) * uval b) mod 2 ^ (32 * length a)"
  using assms(2)
proof (induction m)
  case 0
  then show ?case by simp
next
  case (Suc j)
  define pn where "pn = fold (\<lambda>j pn. take j pn @ uint_mul_inner 0 (a ! j) (drop j pn) b) [0..<j]
             (replicate (length a) 0)"
  let ?L = "take j pn" and ?R = "drop j pn" and ?K = "2 ^ (32 * (length a - j)) :: nat"
  from Suc have len: "length pn = length a" and val: "uval pn = (uval (take j a) * uval b) mod 2 ^ (32 * length a)"
    by (simp_all add: pn_def)
  from Suc.prems have j: "j < length a" by simp
  have top: "2 ^ (32 * j) * ?K = 2 ^ (32 * length a)"
    using j by (simp add: power_add [symmetric] diff_mult_distrib2)
  have split: "uval ?L + 2 ^ (32 * j) * uval ?R = uval pn"
    using uval_append [of ?L ?R] j len by (simp add: min_def)
  have L: "uval ?L < 2 ^ (32 * j)"
    using uval_less [of ?L] j len by (simp add: min_def)
  have "uval (?L @ uint_mul_inner 0 (a ! j) ?R b) =
      uval ?L + 2 ^ (32 * j) * ((uval ?R + unat (a ! j) * uval b) mod ?K)"
    using j len assms(1) by (simp add: uval_append uval_mul_inner min_def)
  also have "\<dots> = (uval pn + 2 ^ (32 * j) * (unat (a ! j) * uval b)) mod (2 ^ (32 * j) * ?K)"
    by (rule carry_step [OF split L])
  also have "\<dots> = (uval (take (Suc j) a) * uval b) mod 2 ^ (32 * length a)"
    by (simp only: top val uval_take_Suc [OF j] mod_add_left_eq) (simp add: algebra_simps)
  finally show ?case
    using len j by (simp add: pn_def [symmetric])
qed

lemma uval_mul [uval_simps]:
  "length b = length a \<Longrightarrow> uval (uint_mul a b) = (uval a * uval b) mod 2 ^ (32 * length a)"
  using uval_mul_prefix [of b a "length a"] by (simp add: uint_mul_def)

lemma CompareTo_loop_sgn:
  "length a = length b \<Longrightarrow>
   CompareTo_loop a b = sgn (int (uval (rev a)) - int (uval (rev b)))"
proof (induction a b rule: list_induct2)
  case Nil
  then show ?case by simp
next
  case (Cons p pn q b)
  let ?M = "2 ^ (32 * length b) :: nat"
  have a: "uval (rev pn) < ?M" and b: "uval (rev b) < ?M"
    using uval_less [of "rev pn"] uval_less [of "rev b"] Cons.hyps by simp_all
  have v: "uval (rev (p # pn)) = uval (rev pn) + ?M * unat p"
      "uval (rev (q # b)) = uval (rev b) + ?M * unat q"
    using Cons.hyps by (simp_all add: uval_append)
  consider "unat p < unat q" | "unat q < unat p" | "p = q"
    by (metis linorder_neqE_nat word_unat_eq_iff)
  then show ?case
  proof cases
    case 1
    then have "?M * Suc (unat p) \<le> ?M * unat q" by (intro mult_le_mono2) simp
    with a have "uval (rev (p # pn)) < uval (rev (q # b))" unfolding v by simp
    with 1 show ?thesis by (simp add: word_less_nat_alt)
  next
    case 2
    then have "?M * Suc (unat q) \<le> ?M * unat p" by (intro mult_le_mono2) simp
    with b have "uval (rev (q # b)) < uval (rev (p # pn))" unfolding v by simp
    with 2 show ?thesis by (simp add: word_less_nat_alt)
  next
    case 3
    with Cons.IH show ?thesis unfolding v by simp
  qed
qed

lemma CompareTo_sgn:
  "length a = length b \<Longrightarrow> CompareTo a b = sgn (int (uval a) - int (uval b))"
  using CompareTo_loop_sgn [of "rev a" "rev b"] by (simp add: CompareTo_def)

lemma CompareTo_iff [uval_simps]:
  assumes "length a = length b"
  shows "0 \<le> CompareTo a b \<longleftrightarrow> uval b \<le> uval a" "0 < CompareTo a b \<longleftrightarrow> uval b < uval a"
    "CompareTo a b < 0 \<longleftrightarrow> uval a < uval b" "CompareTo a b \<le> 0 \<longleftrightarrow> uval a \<le> uval b"
  by (auto simp: CompareTo_sgn [OF assms] sgn_if)

lemma bit_top_iff: "x < 2 ^ Suc n \<Longrightarrow> bit (x :: nat) n \<longleftrightarrow> 2 ^ n \<le> x"
proof -
  assume "x < 2 ^ Suc n"
  then have "x div 2 ^ n < 2" by (simp add: less_mult_imp_div_less)
  then have "odd (x div 2 ^ n) \<longleftrightarrow> 0 < x div 2 ^ n" by (auto simp: less_2_cases_iff)
  then show ?thesis by (simp add: bit_iff_odd div_greater_zero_iff)
qed

lemma top_bit_bounds:
  "w \<noteq> 0 \<Longrightarrow> unat w < 2 ^ Suc b \<Longrightarrow> 2 ^ top_bit b w \<le> unat w \<and> unat w < 2 ^ Suc (top_bit b w)"
proof (induction b)
  case 0
  then show ?case by (simp add: unat_gt_0 Suc_le_eq)
next
  case (Suc b)
  have "bit w (Suc b) \<longleftrightarrow> 2 ^ Suc b \<le> unat w"
    using bit_top_iff [OF Suc.prems(2)] Suc.prems(2) by (simp add: bit_unsigned_iff)
  with Suc show ?case by (auto simp: not_le)
qed

lemma bits_loop_bounds:
  "(uval (rev ws) = 0 \<longrightarrow> bits_loop ws = 0) \<and>
   (uval (rev ws) \<noteq> 0 \<longrightarrow> 0 < bits_loop ws \<and> 2 ^ (bits_loop ws - 1) \<le> uval (rev ws)) \<and>
   uval (rev ws) < 2 ^ bits_loop ws"
proof (induction ws)
  case Nil
  then show ?case by simp
next
  case (Cons w ws)
  let ?M = "2 ^ (32 * length ws) :: nat"
  have low: "uval (rev ws) < ?M" using uval_less [of "rev ws"] by simp
  define m where "m = ?M * unat w"
  have v: "uval (rev (w # ws)) = uval (rev ws) + m" by (simp add: uval_append m_def)
  show ?case
  proof (cases "w = 0")
    case True
    with Cons.IH v show ?thesis by (simp add: m_def)
  next
    case False
    have tb: "2 ^ top_bit 31 w \<le> unat w" "unat w < 2 ^ Suc (top_bit 31 w)"
      using top_bit_bounds [OF False, of 31] unat_limb_less [of w] by simp_all
    have lo: "?M * 2 ^ top_bit 31 w \<le> m"
      unfolding m_def using tb(1) by simp
    have "?M * Suc (unat w) \<le> ?M * 2 ^ Suc (top_bit 31 w)"
      using tb(2) by (intro mult_le_mono2) simp
    then have hi: "?M + m \<le> ?M * 2 ^ Suc (top_bit 31 w)"
      by (simp add: m_def)
    have b: "bits_loop (w # ws) = 32 * length ws + top_bit 31 w + 1"
      using False by simp
    have "0 < ?M * 2 ^ top_bit 31 w" by simp
    with lo hi low show ?thesis
      unfolding v b by (auto simp: power_add)
  qed
qed

lemma bits_eq_0 [uval_simps]: "bits pn = 0 \<longleftrightarrow> uval pn = 0"
  and uval_less_bits: "uval pn < 2 ^ bits pn"
  and bits_le_uval: "uval pn \<noteq> 0 \<Longrightarrow> 2 ^ (bits pn - 1) \<le> uval pn"
  using bits_loop_bounds [of "rev pn"] by (auto simp: bits_def)

lemma bits_le_width: "bits pn \<le> 32 * length pn"
proof (rule ccontr)
  assume "\<not> bits pn \<le> 32 * length pn"
  then have "uval pn \<noteq> 0" and "32 * length pn \<le> bits pn - 1" using bits_eq_0 [of pn] by auto
  then have "2 ^ (32 * length pn) \<le> uval pn"
    using bits_le_uval [of pn] by (meson le_trans one_le_numeral power_increasing)
  with uval_less [of pn] show False by simp
qed

lemma bit_digit_add:
  assumes "u < 2 ^ k"
  shows "bit (u + 2 ^ k * v :: nat) n \<longleftrightarrow> (if n < k then bit u n else bit v (n - k))"
proof (cases "n < k")
  case True
  have "bit (u + 2 ^ k * v) n \<longleftrightarrow> bit (take_bit k (u + 2 ^ k * v)) n"
    using True by (simp add: bit_take_bit_iff)
  also have "take_bit k (u + 2 ^ k * v) = u"
    using assms by (simp add: take_bit_eq_mod)
  finally show ?thesis using True by simp
next
  case False
  have "bit (u + 2 ^ k * v) n \<longleftrightarrow> bit (drop_bit k (u + 2 ^ k * v)) (n - k)"
    using False by (simp add: bit_drop_bit_eq)
  also have "drop_bit k (u + 2 ^ k * v) = v"
    using assms by (simp add: drop_bit_eq_div)
  finally show ?thesis using False by simp
qed

lemma bit_uval: "bit (uval a) n \<longleftrightarrow> n < 32 * length a \<and> bit (a ! (n div 32)) (n mod 32)"
proof (induction a arbitrary: n)
  case Nil
  then show ?case by simp
next
  case (Cons w ws)
  show ?case
  proof (cases "n < 32")
    case True
    then show ?thesis
      by (simp add: bit_digit_add [OF unat_limb_less, simplified] bit_unsigned_iff)
  next
    case False
    then have "n div 32 = Suc ((n - 32) div 32)" and "n mod 32 = (n - 32) mod 32"
      by (simp_all add: le_div_geq le_mod_geq)
    with False Cons.IH [of "n - 32"] show ?thesis
      by (auto simp: bit_digit_add [OF unat_limb_less, simplified])
  qed
qed

lemma bit_limb_split: "bit (uval a) (32 * j + b) \<longleftrightarrow> j < length a \<and> bit (a ! j) b" if "b < 32"
  using that by (auto simp: bit_uval)

lemma length_shl_step [simp]: "length (shl_step a k shift i pn) = length pn"
  by (simp add: shl_step_def Let_def)

lemma shl_step_nth:
  "length pn = length a \<Longrightarrow> j < length a \<Longrightarrow> shl_step a k shift i pn ! j =
     pn ! j OR (if j = i + k then push_bit shift (a ! i) else 0) OR
     (if j = i + k + 1 \<and> shift \<noteq> 0 then drop_bit (32 - shift) (a ! i) else 0)"
  by (simp add: shl_step_def Let_def nth_list_update)

lemma shl_fold:
  "m \<le> length a \<Longrightarrow> length (fold (shl_step a k shift) [0..<m] (replicate (length a) 0)) = length a \<and>
    (\<forall>j < length a. fold (shl_step a k shift) [0..<m] (replicate (length a) 0) ! j =
       (if k \<le> j \<and> j - k < m then push_bit shift (a ! (j - k)) else 0) OR
       (if shift \<noteq> 0 \<and> k < j \<and> j - k - 1 < m then drop_bit (32 - shift) (a ! (j - k - 1)) else 0))"
proof (induction m)
  case 0
  then show ?case by simp
next
  case (Suc m)
  define pn where "pn = fold (shl_step a k shift) [0..<m] (replicate (length a) 0)"
  from Suc have len: "length pn = length a" and val: "\<And>j. j < length a \<Longrightarrow> pn ! j =
       (if k \<le> j \<and> j - k < m then push_bit shift (a ! (j - k)) else 0) OR
       (if shift \<noteq> 0 \<and> k < j \<and> j - k - 1 < m then drop_bit (32 - shift) (a ! (j - k - 1)) else 0)"
    by (simp_all add: pn_def)
  have "shl_step a k shift m pn ! j =
       (if k \<le> j \<and> j - k < Suc m then push_bit shift (a ! (j - k)) else 0) OR
       (if shift \<noteq> 0 \<and> k < j \<and> j - k - 1 < Suc m then drop_bit (32 - shift) (a ! (j - k - 1)) else 0)"
    if j: "j < length a" for j
  proof -
    consider "j = m + k" | "j = m + k + 1" | "j < m + k" | "m + k + 1 < j" by linarith
    then show ?thesis
      unfolding shl_step_nth [OF len j] val [OF j] by cases (auto simp: or.commute)
  qed
  with len show ?case
    by (simp add: pn_def [symmetric])
qed

lemma length_shl [simp]: "length (uint_shl a shift) = length a"
  using shl_fold [of "length a" a] by (simp add: uint_shl_def)

lemma bit_shl_limb:
  assumes "j < length a" and "b < 32"
  shows "bit (uint_shl a shift ! j) b \<longleftrightarrow> shift \<le> 32 * j + b \<and> bit (uval a) (32 * j + b - shift)"
proof -
  define k sh where "k = shift div 32" and "sh = shift mod 32"
  have s: "shift = 32 * k + sh" "sh < 32" by (simp_all add: k_def sh_def)
  have limb: "uint_shl a shift ! j = (if k \<le> j then push_bit sh (a ! (j - k)) else 0) OR
      (if sh \<noteq> 0 \<and> k < j then drop_bit (32 - sh) (a ! (j - k - 1)) else 0)"
    using shl_fold [of "length a" a k sh] assms(1) by (auto simp: uint_shl_def k_def sh_def)
  show ?thesis
  proof (cases "b < sh")
    case True
    have "bit (uint_shl a shift ! j) b \<longleftrightarrow> k < j \<and> bit (a ! (j - k - 1)) (32 + b - sh)"
      using True assms(2) s(2) by (auto simp: limb bit_or_iff bit_push_bit_iff bit_drop_bit_eq)
    moreover have "32 * j + b - shift = 32 * (j - k - 1) + (32 + b - sh)" if "k < j"
      using that True s by (simp add: diff_mult_distrib2)
    moreover have "shift \<le> 32 * j + b \<longleftrightarrow> k < j"
      using True s by auto
    ultimately show ?thesis
      using bit_limb_split [of "32 + b - sh" a "j - k - 1"] True assms s by auto
  next
    case False
    have "bit (uint_shl a shift ! j) b \<longleftrightarrow> k \<le> j \<and> bit (a ! (j - k)) (b - sh)"
      using False assms(2) s(2)
      by (auto simp: limb bit_or_iff bit_push_bit_iff bit_drop_bit_eq dest: bit_imp_le_length)
    moreover have "32 * j + b - shift = 32 * (j - k) + (b - sh)" if "k \<le> j"
      using that False s by (simp add: diff_mult_distrib2)
    moreover have "shift \<le> 32 * j + b \<longleftrightarrow> k \<le> j"
      using False s assms(2) by auto
    ultimately show ?thesis
      using bit_limb_split [of "b - sh" a "j - k"] False assms by auto
  qed
qed

lemma uval_shl [uval_simps]: "uval (uint_shl a shift) = (uval a * 2 ^ shift) mod 2 ^ (32 * length a)"
proof -
  have "uval (uint_shl a shift) = take_bit (32 * length a) (push_bit shift (uval a))"
  proof (rule bit_eqI)
    fix n
    show "bit (uval (uint_shl a shift)) n \<longleftrightarrow> bit (take_bit (32 * length a) (push_bit shift (uval a))) n"
      using bit_shl_limb [of "n div 32" a "n mod 32" shift]
      by (auto simp: bit_uval [of "uint_shl a shift"] bit_take_bit_iff bit_push_bit_iff)
  qed
  then show ?thesis by (simp add: take_bit_eq_mod push_bit_eq_mult)
qed

lemma length_shr_step [simp]: "length (shr_step a k shift i pn) = length pn"
  by (simp add: shr_step_def Let_def)

lemma shr_step_nth:
  "length pn = length a \<Longrightarrow> i < length a \<Longrightarrow> j < length a \<Longrightarrow> shr_step a k shift i pn ! j =
     pn ! j OR (if i = j + k then drop_bit shift (a ! i) else 0) OR
     (if i = j + k + 1 \<and> shift \<noteq> 0 then push_bit (32 - shift) (a ! i) else 0)"
  by (simp add: shr_step_def Let_def nth_list_update) linarith

lemma shr_fold:
  "m \<le> length a \<Longrightarrow> length (fold (shr_step a k shift) [0..<m] (replicate (length a) 0)) = length a \<and>
    (\<forall>j < length a. fold (shr_step a k shift) [0..<m] (replicate (length a) 0) ! j =
       (if j + k < m then drop_bit shift (a ! (j + k)) else 0) OR
       (if shift \<noteq> 0 \<and> j + k + 1 < m then push_bit (32 - shift) (a ! (j + k + 1)) else 0))"
proof (induction m)
  case 0
  then show ?case by simp
next
  case (Suc m)
  define pn where "pn = fold (shr_step a k shift) [0..<m] (replicate (length a) 0)"
  from Suc have len: "length pn = length a" and val: "\<And>j. j < length a \<Longrightarrow> pn ! j =
       (if j + k < m then drop_bit shift (a ! (j + k)) else 0) OR
       (if shift \<noteq> 0 \<and> j + k + 1 < m then push_bit (32 - shift) (a ! (j + k + 1)) else 0)"
    by (simp_all add: pn_def)
  have "shr_step a k shift m pn ! j =
       (if j + k < Suc m then drop_bit shift (a ! (j + k)) else 0) OR
       (if shift \<noteq> 0 \<and> j + k + 1 < Suc m then push_bit (32 - shift) (a ! (j + k + 1)) else 0)"
    if j: "j < length a" for j
  proof -
    consider "m = j + k" | "m = j + k + 1" | "m < j + k" | "j + k + 1 < m" by linarith
    then show ?thesis
      using Suc.prems by cases (simp_all add: shr_step_nth [OF len _ j] val [OF j] or.commute)
  qed
  with len show ?case
    by (simp add: pn_def [symmetric])
qed

lemma length_shr [simp]: "length (uint_shr a shift) = length a"
  using shr_fold [of "length a" a] by (simp add: uint_shr_def)

lemma bit_shr_limb:
  assumes "j < length a" and "b < 32"
  shows "bit (uint_shr a shift ! j) b \<longleftrightarrow> bit (uval a) (32 * j + b + shift)"
proof -
  define k sh where "k = shift div 32" and "sh = shift mod 32"
  have s: "shift = 32 * k + sh" "sh < 32" by (simp_all add: k_def sh_def)
  have limb: "uint_shr a shift ! j = (if j + k < length a then drop_bit sh (a ! (j + k)) else 0) OR
      (if sh \<noteq> 0 \<and> j + k + 1 < length a then push_bit (32 - sh) (a ! (j + k + 1)) else 0)"
    using shr_fold [of "length a" a k sh] assms(1) by (simp add: uint_shr_def k_def sh_def)
  show ?thesis
  proof (cases "b + sh < 32")
    case True
    have "bit (uint_shr a shift ! j) b \<longleftrightarrow> j + k < length a \<and> bit (a ! (j + k)) (b + sh)"
      using True s(2) by (auto simp: limb bit_or_iff bit_push_bit_iff bit_drop_bit_eq add.commute)
    moreover have "32 * j + b + shift = 32 * (j + k) + (b + sh)"
      using s by simp
    ultimately show ?thesis
      using bit_limb_split [OF True, of a "j + k"] by (simp only:)
  next
    case False
    have "bit (uint_shr a shift ! j) b \<longleftrightarrow> j + k + 1 < length a \<and> bit (a ! (j + k + 1)) (b + sh - 32)"
      using False assms(2) s(2)
      by (auto simp: limb bit_or_iff bit_push_bit_iff bit_drop_bit_eq dest: bit_imp_le_length)
    moreover have "32 * j + b + shift = 32 * (j + k + 1) + (b + sh - 32)"
      using False assms(2) s by simp
    moreover have "b + sh - 32 < 32"
      using assms(2) s by simp
    ultimately show ?thesis
      using bit_limb_split [of "b + sh - 32" a "j + k + 1"] by (simp only:)
  qed
qed

lemma uval_shr [uval_simps]: "uval (uint_shr a shift) = uval a div 2 ^ shift"
proof -
  have "uval (uint_shr a shift) = drop_bit shift (uval a)"
  proof (rule bit_eqI)
    fix n
    show "bit (uval (uint_shr a shift)) n \<longleftrightarrow> bit (drop_bit shift (uval a)) n"
      using bit_shr_limb [of "n div 32" a "n mod 32" shift]
      by (auto simp: bit_uval [of "uint_shr a shift"] bit_uval [of a "n + shift"] bit_drop_bit_eq add.commute)
  qed
  then show ?thesis by (simp add: drop_bit_eq_div)
qed

text \<open>Setting one bit of the quotient that is still clear adds its weight.\<close>

lemma uval_set_bit:
  assumes "s < 32 * length pn" and "2 ^ Suc s dvd uval pn"
  shows "uval (pn[s div 32 := pn ! (s div 32) OR push_bit (s mod 32) 1]) = uval pn + 2 ^ s"
proof -
  have lt: "s div 32 < length pn" using assms(1) by simp
  have "uval (pn[s div 32 := pn ! (s div 32) OR push_bit (s mod 32) 1]) = set_bit s (uval pn)"
  proof (rule bit_eqI)
    fix n
    have "n = s \<longleftrightarrow> n div 32 = s div 32 \<and> n mod 32 = s mod 32"
      by (metis div_mult_mod_eq)
    moreover have "bit (push_bit (s mod 32) (1 :: u32)) (n mod 32) \<longleftrightarrow> n mod 32 = s mod 32"
      by (auto simp: push_bit_eq_mult bit_exp_iff)
    ultimately show "bit (uval (pn[s div 32 := pn ! (s div 32) OR push_bit (s mod 32) 1])) n \<longleftrightarrow>
        bit (set_bit s (uval pn)) n"
      using assms(1) lt by (auto simp: bit_uval bit_set_bit_iff bit_or_iff nth_list_update)
  qed
  moreover have "\<not> bit (uval pn) s"
    using assms(2) by (metis bit_take_bit_iff dvd_imp_mod_0 lessI take_bit_eq_mod bit_0_eq bot_apply bot_bool_def)
  ultimately show ?thesis by (simp add: set_bit_eq)
qed

lemma uval_div_loop:
  assumes "length num = length dv" "length pn = length num" "n \<le> 32 * length num"
    "n \<noteq> 0 \<longrightarrow> uval dv = D * 2 ^ (n - 1)" "uval num < D * 2 ^ n" "2 ^ n dvd uval pn"
    "uval pn * D + uval num = N"
  shows "uval (uint_div_loop n num dv pn) = N div D \<and> length (uint_div_loop n num dv pn) = length num"
  using assms
proof (induction n num dv pn rule: uint_div_loop.induct)
  case (1 num dv pn)
  then have "N div D = uval pn" by (intro div_nat_eqI) (auto simp: algebra_simps)
  with 1 show ?case by simp
next
  case (2 s num dv pn)
  have dv: "uval dv = D * 2 ^ s" using "2.prems"(4) by simp
  define dv' where "dv' = uint_shr dv 1"
  have dv': "length dv' = length dv" "s \<noteq> 0 \<longrightarrow> uval dv' = D * 2 ^ (s - 1)"
    by (simp add: dv'_def) (cases s, simp_all add: dv'_def uval_shr dv)
  have dvd: "2 ^ s dvd uval pn" using "2.prems"(6) by (metis dvd_trans le_imp_power_dvd le_add2 plus_1_eq_Suc)
  show ?case
  proof (cases "0 \<le> CompareTo num dv")
    case True
    then have ge: "D * 2 ^ s \<le> uval num" using "2.prems"(1) dv by (simp add: CompareTo_iff)
    have num': "uval (uint_sub num dv) = uval num - D * 2 ^ s"
      using "2.prems"(1) ge dv by (simp add: uval_sub_le)
    define q where "q = pn[s div 32 := pn ! (s div 32) OR push_bit (s mod 32) 1]"
    have q: "length q = length pn" "uval q = uval pn + 2 ^ s"
      using "2.prems"(2,3,6) uval_set_bit [of s pn] by (simp_all add: q_def)
    have "uval (uint_div_loop s (uint_sub num dv) dv' q) = N div D \<and>
        length (uint_div_loop s (uint_sub num dv) dv' q) = length (uint_sub num dv)"
      unfolding dv'_def q_def using True
      by (rule "2.IH"(1)) (use "2.prems" ge dvd in
        \<open>simp_all add: num' q dv' q_def [symmetric] dv'_def [symmetric] algebra_simps
           del: One_nat_def push_bit_of_1\<close>)
    with True "2.prems"(1) show ?thesis unfolding dv'_def q_def by simp
  next
    case False
    then have lt: "uval num < D * 2 ^ s" using "2.prems"(1) dv by (simp add: CompareTo_iff)
    have "uval (uint_div_loop s num dv' pn) = N div D \<and>
        length (uint_div_loop s num dv' pn) = length num"
      unfolding dv'_def using False
      by (rule "2.IH"(2)) (use "2.prems" lt dvd in \<open>simp_all add: dv' dv'_def [symmetric] del: One_nat_def\<close>)
    with False show ?thesis unfolding dv'_def by simp
  qed
qed


lemma uint_div_zero: "uint_div a b = Inl Division_by_zero \<longleftrightarrow> uval b = 0"
  by (auto simp: uint_div_def Let_def bits_eq_0)

lemma uint_div_correct:
  assumes "length a = length b" and "uval b \<noteq> 0"
  shows "\<exists>q. uint_div a b = Inr q \<and> length q = length a \<and> uval q = uval a div uval b"
proof (cases "bits a < bits b")
  case True
  have "uval a < 2 ^ bits a" by (rule uval_less_bits)
  also have "\<dots> \<le> 2 ^ (bits b - 1)" using True by (intro power_increasing) simp_all
  also have "\<dots> \<le> uval b" using assms(2) by (rule bits_le_uval)
  finally show ?thesis
    using True assms(2) by (simp add: uint_div_def Let_def bits_eq_0)
next
  case False
  define s where "s = bits a - bits b"
  have pos: "bits b \<noteq> 0" using assms(2) by (simp add: bits_eq_0)
  have exp: "bits a = bits b + s" using False by (simp add: s_def)
  have "uval b * 2 ^ s < 2 ^ bits a"
    unfolding exp using uval_less_bits [of b] by (simp add: power_add)
  also have "\<dots> \<le> 2 ^ (32 * length b)"
    using bits_le_width [of a] assms(1) by (intro power_increasing) simp_all
  finally have dv: "uval (uint_shl b s) = uval b * 2 ^ s" by (simp add: uval_shl)
  have "2 ^ bits a \<le> uval b * 2 ^ Suc s"
    using bits_le_uval [OF assms(2)] pos by (cases "bits b") (simp_all add: exp power_add)
  with uval_less_bits [of a] have num: "uval a < uval b * 2 ^ Suc s" by simp
  have width: "Suc s \<le> 32 * length a"
    using bits_le_width [of a] exp pos by simp
  have "uval (uint_div_loop (Suc s) a (uint_shl b s) (replicate (length a) 0)) = uval a div uval b \<and>
      length (uint_div_loop (Suc s) a (uint_shl b s) (replicate (length a) 0)) = length a"
    by (rule uval_div_loop) (use assms num width dv in simp_all)
  then show ?thesis
    using False pos by (simp add: uint_div_def Let_def s_def del: uint_div_loop.simps)
qed

lemma uval_u64 [uval_simps]: "uval (base_uint_u64 W b) = unat b"
proof -
  have "unat (ucast b :: u32) + 2 ^ 32 * unat (ucast (drop_bit 32 b) :: u32) =
      unat b mod 2 ^ 32 + 2 ^ 32 * (unat b div 2 ^ 32 mod 2 ^ 32)"
    by (simp add: unsigned_ucast_eq take_bit_eq_mod unat_div drop_bit_eq_div)
  moreover have "unat b div 2 ^ 32 < 2 ^ 32"
    using unat_u64_less [of b] by (simp add: less_mult_imp_div_less)
  ultimately show ?thesis by (simp add: base_uint_u64_def)
qed

lemma length_u64 [simp]: "2 \<le> W \<Longrightarrow> length (base_uint_u64 W b) = W"
  by (simp add: base_uint_u64_def)

lemma unat_low_bits: "unat (c AND 0x007fffff :: u32) = unat c mod 2 ^ 23"
proof -
  have "c AND 0x007fffff = take_bit 23 c"
    by (simp add: take_bit_eq_mask mask_eq_exp_minus_1)
  then show ?thesis by (simp add: take_bit_eq_mod unat_mod)
qed

lemma sign_bit_iff: "(c AND 0x00800000 :: u32) \<noteq> 0 \<longleftrightarrow> bit c 23"
proof -
  have "push_bit 23 (1 :: u32) = 0x00800000" by simp
  then show ?thesis using bit_iff_and_push_bit_not_eq_0 [of c 23] by (simp only:)
qed

text \<open>What a compact word denotes, written with its exponent byte and its 23-bit mantissa.\<close>

definition compact_value :: "u32 \<Rightarrow> nat" where
  "compact_value c =
     (let s = unat c div 2 ^ 24; m = unat c mod 2 ^ 23
      in if s \<le> 3 then m div 256 ^ (3 - s) else m * 256 ^ (s - 3))"

lemma compact_size: "unat (drop_bit 24 (c :: u32)) = unat c div 2 ^ 24"
  by (rule trans [OF unat_drop_bit_eq drop_bit_eq_div])

lemma uval_SetCompact:
  "length (fst (SetCompact c)) = 8 \<and> uval (fst (SetCompact c)) = compact_value c mod 2 ^ 256"
proof -
  define m where "m = (c AND 0x007fffff :: u32)"
  have m: "unat m = unat c mod 2 ^ 23"
    by (simp only: m_def unat_low_bits)
  have small: "unat (drop_bit k m) = unat c mod 2 ^ 23 div 2 ^ k" for k
    using trans [OF unat_drop_bit_eq drop_bit_eq_div, of k m] by (simp only: m)
  have cast: "unat (ucast w :: u64) = unat w" for w :: u32
    by (simp add: unat_ucast_up)
  have "unat c mod 2 ^ 23 div n < 2 ^ 256" for n
    using div_le_dividend [of "unat c mod 2 ^ 23" n] by (rule le_less_trans) (simp add: less_trans [OF mod_less_divisor])
  then show ?thesis
    by (simp add: SetCompact_def Let_def compact_value_def compact_size uval_u64 uval_shl cast small
        m m_def [symmetric] pow256)
qed

lemma nonzero_mult_ge: "(M :: nat) \<le> m * M \<longleftrightarrow> M = 0 \<or> m \<noteq> 0"
  by (cases m) auto

lemma overflow_bound_iff:
  assumes "(m :: nat) < 2 ^ 23"
  shows "2 ^ 256 \<le> m * 256 ^ (s - 3) \<longleftrightarrow>
     m \<noteq> 0 \<and> (34 < s \<or> (0xff < m \<and> 33 < s) \<or> (0xffff < m \<and> 32 < s))"
proof -
  consider "s \<le> 32" | "s = 33" | "s = 34" | "34 < s" by linarith
  then show ?thesis
  proof cases
    case 1
    have "m * 256 ^ (s - 3) \<le> m * 256 ^ 29" using 1 by (intro mult_le_mono2 power_increasing) simp_all
    also have "\<dots> < 2 ^ 256" using assms by simp
    finally show ?thesis using 1 by simp
  next
    case 4
    then have "m * 256 ^ (s - 3) = m * 256 ^ (s - 35) * 2 ^ 256"
      using power_add [of "256 :: nat" "s - 35" 32] by simp
    moreover have "2 ^ 256 \<le> m * 256 ^ (s - 35) * 2 ^ 256 \<longleftrightarrow> m \<noteq> 0"
      using nonzero_mult_ge [of "2 ^ 256" "m * 256 ^ (s - 35)"] by simp
    ultimately show ?thesis using 4 by (simp only:) simp
  qed auto
qed

definition compact_mantissa :: "u32 \<Rightarrow> nat" where
  "compact_mantissa c =
     (let s = unat c div 2 ^ 24; m = unat c mod 2 ^ 23
      in if s \<le> 3 then m div 256 ^ (3 - s) else m)"

lemma SetCompact_flags:
  "snd (SetCompact c) =
     (compact_mantissa c \<noteq> 0 \<and> bit c 23,
      compact_mantissa c \<noteq> 0 \<and>
        (34 < unat c div 2 ^ 24 \<or> (0xff < compact_mantissa c \<and> 33 < unat c div 2 ^ 24) \<or>
         (0xffff < compact_mantissa c \<and> 32 < unat c div 2 ^ 24)))"
proof -
  define m where "m = (c AND 0x007fffff :: u32)"
  define w where "w = (if unat c div 2 ^ 24 \<le> 3 then drop_bit (8 * (3 - unat c div 2 ^ 24)) m else m)"
  have m: "unat m = unat c mod 2 ^ 23"
    by (simp only: m_def unat_low_bits)
  have "unat (drop_bit k m) = unat c mod 2 ^ 23 div 2 ^ k" for k
    using trans [OF unat_drop_bit_eq drop_bit_eq_div, of k m] by (simp only: m)
  then have w: "unat w = compact_mantissa c"
    by (simp add: w_def compact_mantissa_def m pow256)
  have "snd (SetCompact c) = (w \<noteq> 0 \<and> bit c 23,
      w \<noteq> 0 \<and> (34 < unat c div 2 ^ 24 \<or> (0xff < w \<and> 33 < unat c div 2 ^ 24) \<or>
         (0xffff < w \<and> 32 < unat c div 2 ^ 24)))"
    by (simp only: SetCompact_def Let_def compact_size m_def [symmetric] w_def [symmetric] snd_conv sign_bit_iff)
  moreover have "w \<noteq> 0 \<longleftrightarrow> compact_mantissa c \<noteq> 0"
    using unat_gt_0 [of w] w by simp
  ultimately show ?thesis
    by (simp add: word_less_nat_alt w)
qed

lemma compact_value_small: "unat c div 2 ^ 24 \<le> 3 \<Longrightarrow> compact_value c < 2 ^ 256"
proof -
  assume "unat c div 2 ^ 24 \<le> 3"
  then have "compact_value c \<le> unat c mod 2 ^ 23"
    by (simp only: compact_value_def Let_def if_True div_le_dividend)
  also have "\<dots> < 2 ^ 23" by simp
  finally show ?thesis by simp
qed

lemma SetCompact_overflow: "snd (snd (SetCompact c)) \<longleftrightarrow> 2 ^ 256 \<le> compact_value c"
proof (cases "unat c div 2 ^ 24 \<le> 3")
  case True
  with compact_value_small [of c] show ?thesis
    by (simp add: SetCompact_flags)
next
  case False
  then show ?thesis
    using overflow_bound_iff [of "unat c mod 2 ^ 23" "unat c div 2 ^ 24"]
    by (simp add: SetCompact_flags compact_mantissa_def compact_value_def)
qed

lemma SetCompact_negative: "fst (snd (SetCompact c)) \<longleftrightarrow> bit c 23 \<and> compact_value c \<noteq> 0"
  by (auto simp: SetCompact_flags compact_mantissa_def compact_value_def Let_def)

lemma nat_or_digit: "u < 2 ^ k \<Longrightarrow> (u :: nat) OR 2 ^ k * v = u + 2 ^ k * v"
proof (rule bit_eqI)
  fix n
  assume u: "u < 2 ^ k"
  have "\<not> bit u n" if "k \<le> n"
  proof -
    have "u < 2 ^ n" using u that by (meson less_le_trans one_le_numeral power_increasing)
    then show ?thesis by (simp add: bit_iff_odd)
  qed
  then show "bit (u OR 2 ^ k * v) n \<longleftrightarrow> bit (u + 2 ^ k * v) n"
    using bit_digit_add [of 0 k v n] by (auto simp: bit_digit_add [OF u] bit_or_iff)
qed

lemma unat_or_disjoint:
  assumes "unat (x :: 'a::len word) < 2 ^ k" and "unat y * 2 ^ k < 2 ^ LENGTH('a)"
  shows "unat (x OR push_bit k y) = unat x + 2 ^ k * unat y"
proof -
  have "unat (push_bit k y) = take_bit LENGTH('a) (2 ^ k * unat y)"
    by (simp only: unsigned_push_bit_eq push_bit_eq_mult [of k "unat y"] mult.commute)
  also have "\<dots> = 2 ^ k * unat y"
    using assms(2) by (simp add: take_bit_nat_eq_self_iff mult.commute)
  finally show ?thesis
    using assms(1) by (simp only: unsigned_or_eq nat_or_digit)
qed

lemma unat_GetLow64: "2 \<le> length pn \<Longrightarrow> unat (GetLow64 pn) = uval pn mod 2 ^ 64"
proof -
  assume "2 \<le> length pn"
  then obtain p q r where pn: "pn = p # q # r"
    by (metis One_nat_def Suc_le_length_iff numeral_2_eq_2)
  have cast: "unat (ucast w :: u64) = unat w" for w :: u32
    by (simp add: unat_ucast_up)
  have "unat (GetLow64 pn) = unat p + 2 ^ 32 * unat q"
    using unat_or_disjoint [of "ucast p :: u64" 32 "ucast q"] unat_limb_less [of p] unat_limb_less [of q]
    by (simp add: GetLow64_def pn cast)
  moreover have "uval pn = (unat p + 2 ^ 32 * unat q) + 2 ^ 64 * uval r"
    by (simp add: pn)
  moreover have "unat p + 2 ^ 32 * unat q < 2 ^ 64"
    using unat_limb_less [of p] unat_limb_less [of q] by simp
  ultimately show ?thesis
    by (metis mod_less mod_mult_self2)
qed

text \<open>The number of bytes of a value, as \<open>GetCompact\<close> computes it.\<close>

lemma byte_size_bounds:
  fixes pn :: base_uint
  defines "s \<equiv> (bits pn + 7) div 8"
  shows "uval pn < 256 ^ s" and "uval pn \<noteq> 0 \<Longrightarrow> 0 < s \<and> 256 ^ (s - 1) \<le> uval pn"
    and "s \<le> 4 * length pn"
proof -
  have "bits pn \<le> 8 * s" by (simp add: s_def)
  then have "2 ^ bits pn \<le> (2 :: nat) ^ (8 * s)" by (intro power_increasing) simp_all
  with uval_less_bits [of pn] show "uval pn < 256 ^ s" unfolding pow256 by (rule less_le_trans)
next
  assume nz: "uval pn \<noteq> 0"
  then have "bits pn \<noteq> 0" by (simp add: bits_eq_0)
  then have s: "0 < s" "8 * (s - 1) \<le> bits pn - 1" by (simp_all add: s_def)
  then have "2 ^ (8 * (s - 1)) \<le> (2 :: nat) ^ (bits pn - 1)" by (intro power_increasing) simp_all
  then have "256 ^ (s - 1) \<le> uval pn" using bits_le_uval [OF nz] unfolding pow256 by (rule le_trans)
  with s show "0 < s \<and> 256 ^ (s - 1) \<le> uval pn" by simp
next
  show "s \<le> 4 * length pn" using bits_le_width [of pn] by (simp add: s_def)
qed

text \<open>The 24-bit number the first stage of \<open>GetCompact\<close> builds.\<close>

definition compact_head :: "nat \<Rightarrow> nat \<Rightarrow> nat" where
  "compact_head v s = (if s \<le> 3 then v * 256 ^ (3 - s) else v div 256 ^ (s - 3))"

lemma compact_head_bounds:
  assumes "v < 256 ^ s"
  shows "compact_head v s < 2 ^ 24"
    and "0 < s \<Longrightarrow> 256 ^ (s - 1) \<le> v \<Longrightarrow> 2 ^ 16 \<le> compact_head v s"
proof -
  show "compact_head v s < 2 ^ 24"
  proof (cases "s \<le> 3")
    case True
    have "v * 256 ^ (3 - s) < 256 ^ s * 256 ^ (3 - s)" using assms by simp
    also have "\<dots> = 2 ^ 24" using True by (simp flip: power_add)
    finally show ?thesis using True by (simp add: compact_head_def)
  next
    case False
    have "(256 :: nat) ^ s = 2 ^ 24 * 256 ^ (s - 3)"
      using False power_add [of "256 :: nat" 3 "s - 3"] by simp
    with assms False show ?thesis by (simp add: compact_head_def less_mult_imp_div_less)
  qed
next
  assume s: "0 < s" "256 ^ (s - 1) \<le> v"
  show "2 ^ 16 \<le> compact_head v s"
  proof (cases "s \<le> 3")
    case True
    have "2 ^ 16 = (256 :: nat) ^ (s - 1) * 256 ^ (3 - s)" using True s(1) by (simp flip: power_add)
    also have "\<dots> \<le> v * 256 ^ (3 - s)" using s(2) by (intro mult_le_mono1)
    finally show ?thesis using True by (simp add: compact_head_def)
  next
    case False
    have "s - 1 = 2 + (s - 3)" using False by simp
    then have "(256 :: nat) ^ (s - 1) = 2 ^ 16 * 256 ^ (s - 3)"
      by (simp only: power_add) simp
    then have "2 ^ 16 * 256 ^ (s - 3) \<le> v" using s(2) by simp
    then show ?thesis using False by (simp add: compact_head_def less_eq_div_iff_mult_less_eq)
  qed
qed

text \<open>Exponent and mantissa of the encoding, after the sign bit of the head has been cleared.\<close>

definition compact_encoding :: "nat \<Rightarrow> nat \<Rightarrow> nat \<times> nat" where
  "compact_encoding v s =
     (if 2 ^ 23 \<le> compact_head v s then (s + 1, compact_head v s div 256) else (s, compact_head v s))"

lemma GetCompact_word:
  assumes "length pn = 8" and "compact_encoding (uval pn) ((bits pn + 7) div 8) = (s, m)"
  shows "\<exists>c. GetCompact False pn = Some c \<and> unat c = m + 2 ^ 24 * s \<and> m < 2 ^ 23 \<and> s < 256"
proof -
  define s0 where "s0 = (bits pn + 7) div 8"
  define c0 :: u32 where "c0 = (if s0 \<le> 3 then ucast (push_bit (8 * (3 - s0)) (GetLow64 pn))
                       else ucast (GetLow64 (uint_shr pn (8 * (s0 - 3)))))"
  have lt: "uval pn < 256 ^ s0" and s0: "s0 \<le> 32"
    using byte_size_bounds [of pn] assms(1) by (simp_all add: s0_def)
  note head = compact_head_bounds(1) [OF lt]
  have low: "unat (GetLow64 a) = uval a mod 2 ^ 64" if "length a = 8" for a
    using that by (simp add: unat_GetLow64)
  have c0: "unat c0 = compact_head (uval pn) s0"
  proof (cases "s0 \<le> 3")
    case True
    then have "uval pn < 256 ^ 3"
      using lt by (meson less_le_trans one_le_numeral power_increasing)
    then have "unat (push_bit (8 * (3 - s0)) (GetLow64 pn)) =
        take_bit 64 (uval pn * 2 ^ (8 * (3 - s0)))"
      using assms(1) by (simp only: unsigned_push_bit_eq low) (simp add: push_bit_eq_mult)
    with True head show ?thesis
      by (simp add: c0_def compact_head_def unsigned_ucast_eq take_bit_nat_eq_self pow256)
  next
    case False
    then show ?thesis
      using head assms(1)
      by (simp add: c0_def compact_head_def unsigned_ucast_eq take_bit_nat_eq_self low uval_shr pow256)
  qed
  have sign: "bit c0 23 \<longleftrightarrow> 2 ^ 23 \<le> compact_head (uval pn) s0"
  proof -
    have "bit c0 23 \<longleftrightarrow> bit (unat c0) 23" by (simp add: bit_unsigned_iff)
    then show ?thesis using bit_top_iff [of "unat c0" 23] head by (simp add: c0)
  qed
  define c1 where "c1 = (if bit c0 23 then drop_bit 8 c0 else c0)"
  have c1: "unat c1 = m" and s: "s = (if bit c0 23 then s0 + 1 else s0)" and m: "m < 2 ^ 23"
    using assms(2) head trans [OF unat_drop_bit_eq drop_bit_eq_div, of 8 c0]
    by (auto simp: c1_def compact_encoding_def s0_def [symmetric] sign c0 split: if_splits)
  have "take_bit 23 c1 = c1"
    using m by (simp add: word_unat_eq_iff c1 take_bit_eq_mod unat_mod)
  then have "c1 = c1 AND 0x007fffff"
    by (simp add: take_bit_eq_mask mask_eq_exp_minus_1)
  then have ok: "c1 AND NOT 0x007fffff = 0"
    by (metis and.assoc bit.conj_cancel_right bit.conj_zero_right)
  have sz: "s < 256" using s s0 by (simp split: if_splits)
  have "GetCompact False pn = Some (c1 OR push_bit 24 (of_nat s))"
    using ok sz
    by (simp only: GetCompact_def Let_def s0_def [symmetric] c0_def [symmetric] sign_bit_iff
        c1_def [symmetric] s [symmetric]) simp
  moreover have "unat (c1 OR push_bit 24 (of_nat s)) = m + 2 ^ 24 * s"
    using unat_or_disjoint [of c1 24 "of_nat s"] m sz by (simp add: c1 unat_of_nat)
  ultimately show ?thesis using m sz by blast
qed

lemma compact_value_word:
  assumes "unat c = m + 2 ^ 24 * s" and "m < 2 ^ 23"
  shows "compact_value c = (if s \<le> 3 then m div 256 ^ (3 - s) else m * 256 ^ (s - 3))" and "\<not> bit c 23"
proof -
  have "unat c = m + 2 ^ 23 * (2 * s)" using assms(1) by simp
  then have "unat c mod 2 ^ 23 = m" and "unat c div 2 ^ 23 = 2 * s"
    using assms(2) by (simp_all only: mod_mult_self2 mod_less) simp
  moreover have "unat c div 2 ^ 24 = s" using assms by simp
  ultimately show "compact_value c = (if s \<le> 3 then m div 256 ^ (3 - s) else m * 256 ^ (s - 3))"
    by (simp add: compact_value_def)
  have "\<not> bit (unat c) 23"
    using \<open>unat c div 2 ^ 23 = 2 * s\<close> by (simp add: bit_iff_odd)
  then show "\<not> bit c 23" by (simp add: bit_unsigned_iff)
qed

text \<open>Decoding an encoded value cuts low-order bytes off, and only when 15 significant bits stay.\<close>

lemma truncation_error:
  assumes "2 ^ 15 \<le> v div M"
  shows "(v :: nat) div M * M \<le> v \<and> (v - v div M * M) * 2 ^ 15 \<le> v"
proof -
  have "0 < M" using assms by (cases M) auto
  then have "v - v div M * M < M" by (simp add: minus_div_mult_eq_mod)
  then have "(v - v div M * M) * 2 ^ 15 \<le> M * (v div M)"
    using assms by (intro mult_le_mono) simp_all
  also have "\<dots> \<le> v" by simp
  finally show ?thesis by simp
qed

lemma compact_encoding_value:
  assumes enc: "compact_encoding v s0 = (s, m)" and lt: "v < 256 ^ s0"
    and ge: "v \<noteq> 0 \<Longrightarrow> 0 < s0 \<and> 256 ^ (s0 - 1) \<le> v"
  defines "w \<equiv> (if s \<le> 3 then m div 256 ^ (3 - s) else m * 256 ^ (s - 3))"
  shows "w \<le> v \<and> (v - w) * 2 ^ 15 \<le> v"
proof (cases "v = 0")
  case True
  then show ?thesis using enc by (auto simp: w_def compact_encoding_def compact_head_def split: if_splits)
next
  case False
  note head = compact_head_bounds(2) [OF lt] ge [OF False]
  show ?thesis
  proof (cases "s \<le> 3")
    case True
    have "(256 :: nat) ^ (3 - s0) = 256 * 256 ^ (2 - s0)" if "s0 \<le> 2"
      using that power_Suc [of "256 :: nat" "2 - s0"] Suc_diff_le [OF that] by (simp only: Suc_numeral) simp
    then have "w = v"
      using True enc by (auto simp: w_def compact_encoding_def compact_head_def split: if_splits)
    then show ?thesis by simp
  next
    case False
    have "v div 256 ^ (s0 - 2) = v div 256 ^ (s0 - 3) div 256" if "3 \<le> s0"
    proof -
      have "s0 - 2 = Suc (s0 - 3)" using that by simp
      then show ?thesis by (simp only: power_Suc2 div_mult2_eq)
    qed
    then have "m = v div 256 ^ (s - 3) \<and> 2 ^ 15 \<le> m"
      using False enc head by (auto simp: compact_encoding_def compact_head_def split: if_splits)
    with False truncation_error [of v "256 ^ (s - 3)"] show ?thesis by (simp add: w_def)
  qed
qed

lemma GetCompact_decode:
  assumes "length pn = 8"
  shows "\<exists>c t. GetCompact False pn = Some c \<and> SetCompact c = (t, False, False) \<and>
    uval t \<le> uval pn \<and> (uval pn - uval t) * 2 ^ 15 \<le> uval pn"
proof -
  obtain s m where enc: "compact_encoding (uval pn) ((bits pn + 7) div 8) = (s, m)"
    by (cases "compact_encoding (uval pn) ((bits pn + 7) div 8)")
  from GetCompact_word [OF assms enc] obtain c where
    c: "GetCompact False pn = Some c" "unat c = m + 2 ^ 24 * s" "m < 2 ^ 23" by blast
  have val: "compact_value c \<le> uval pn \<and> (uval pn - compact_value c) * 2 ^ 15 \<le> uval pn"
    using compact_encoding_value [OF enc byte_size_bounds(1,2)] compact_value_word(1) [OF c(2,3)] by simp
  then have lt: "compact_value c < 2 ^ 256"
    using uval_less [of pn] assms by simp
  have "snd (SetCompact c) = (False, False)"
    using SetCompact_overflow [of c] SetCompact_negative [of c] compact_value_word(2) [OF c(2,3)] lt
    by (simp add: prod_eq_iff)
  moreover have "uval (fst (SetCompact c)) = compact_value c"
    using uval_SetCompact [of c] lt by simp
  ultimately show ?thesis
    using c(1) val by (metis prod.collapse)
qed

text \<open>Multi-limb integers as the interface their clients rely on: values below \<open>2 ^ width\<close> and
  arithmetic modulo that bound, with an error for a zero divisor.\<close>

locale fixed_uint =
  fixes width :: nat
    and valid :: "'a \<Rightarrow> bool"
    and val :: "'a \<Rightarrow> nat"
    and add sub :: "'a \<Rightarrow> 'a \<Rightarrow> 'a"
    and mul32 :: "'a \<Rightarrow> u32 \<Rightarrow> 'a"
    and quotient :: "'a \<Rightarrow> 'a \<Rightarrow> 'e + 'a"
    and complement :: "'a \<Rightarrow> 'a"
    and compare :: "'a \<Rightarrow> 'a \<Rightarrow> int"
    and of_u64 :: "u64 \<Rightarrow> 'a"
  assumes val_less: "valid x \<Longrightarrow> val x < 2 ^ width"
    and valid_ops: "valid x \<Longrightarrow> valid y \<Longrightarrow> valid (add x y) \<and> valid (sub x y)"
      "valid x \<Longrightarrow> valid (mul32 x n)" "valid x \<Longrightarrow> valid (complement x)" "valid (of_u64 k)"
    and val_add: "valid x \<Longrightarrow> valid y \<Longrightarrow> val (add x y) = (val x + val y) mod 2 ^ width"
    and val_mul32: "valid x \<Longrightarrow> val (mul32 x n) = (val x * unat n) mod 2 ^ width"
    and val_complement: "valid x \<Longrightarrow> val (complement x) = 2 ^ width - 1 - val x"
    and val_of_u64: "val (of_u64 k) = unat k"
    and quotient_Inr: "valid x \<Longrightarrow> valid y \<Longrightarrow> val y \<noteq> 0 \<Longrightarrow>
      \<exists>q. quotient x y = Inr q \<and> valid q \<and> val q = val x div val y"
    and compare_iff: "valid x \<Longrightarrow> valid y \<Longrightarrow> 0 < compare x y \<longleftrightarrow> val y < val x"
begin

text \<open>\<open>2 ^ width\<close> is not representable; the sources compute \<open>2 ^ width div (t + 1)\<close> as
  \<open>(complement t) div (t + 1) + 1\<close>.\<close>

lemma div_of_power:
  assumes "valid t" and "0 < val t" and "val t + 1 < 2 ^ width" and "valid d" and "val d = val t + 1"
  shows "\<exists>q. quotient (complement t) d = Inr q \<and> valid (add q (of_u64 1)) \<and>
    val (add q (of_u64 1)) = 2 ^ width div (val t + 1)"
proof -
  from quotient_Inr [OF valid_ops(3) [OF assms(1)] assms(4)] assms(5)
  obtain q where q: "quotient (complement t) d = Inr q" "valid q" "val q = (2 ^ width - 1 - val t) div (val t + 1)"
    by (auto simp: val_complement [OF assms(1)])
  have split: "2 ^ width = (2 ^ width - 1 - val t) + (val t + 1)"
    using assms(3) by simp
  have div: "2 ^ width div (val t + 1) = (2 ^ width - 1 - val t) div (val t + 1) + 1"
    by (subst split) (simp only: div_add_self2 add_gr_0 zero_less_one disj_comms)
  have "2 ^ width div (val t + 1) < 2 ^ width"
    using assms(2) by (intro div_less_dividend) simp_all
  then have "val (add q (of_u64 1)) = 2 ^ width div (val t + 1)"
    using q(2,3) div by (simp add: val_add valid_ops(4) val_of_u64)
  with q valid_ops show ?thesis by blast
qed

end

interpretation uint256: fixed_uint "256" "\<lambda>a. length a = 8" uval uint_add uint_sub uint_mul32
  uint_div uint_not CompareTo "base_uint_u64 8"
proof unfold_locales
  show "uval x < 2 ^ 256" if "length x = 8" for x
    using uval_less [of x] that by simp
  show "\<exists>q. uint_div x y = Inr q \<and> length q = 8 \<and> uval q = uval x div uval y"
    if "length x = 8" "length y = 8" "uval y \<noteq> 0" for x y
    using uint_div_correct [of x y] that by simp
qed (simp_all add: uval_add uval_mul32 uval_not uval_u64 CompareTo_iff)

section \<open>Properties\<close>

text \<open>
  C37: the limb loops compute.  On equally wide operands, addition, subtraction, multiplication by
  an integer and by a 32-bit factor, the shifts and the increment agree with arithmetic modulo
  \<open>2 ^ BITS\<close> on the values of the operands, and the comparison agrees with the order of the
  values.
\<close>

theorem base_uint_arithmetic:
  assumes "length a = length b"
  shows "uval (uint_add a b) = (uval a + uval b) mod 2 ^ (32 * length a) \<and>
    uval (uint_sub a b) = (uval a + (2 ^ (32 * length a) - uval b)) mod 2 ^ (32 * length a) \<and>
    uval (uint_mul a b) = (uval a * uval b) mod 2 ^ (32 * length a) \<and>
    uval (uint_mul32 a n) = (uval a * unat n) mod 2 ^ (32 * length a) \<and>
    uval (uint_shl a k) = (uval a * 2 ^ k) mod 2 ^ (32 * length a) \<and>
    uval (uint_shr a k) = uval a div 2 ^ k \<and>
    uval (uint_inc a) = (uval a + 1) mod 2 ^ (32 * length a) \<and> uint_inc (uint_dec a) = a \<and>
    CompareTo a b = sgn (int (uval a) - int (uval b))"
  using assms
  by (simp add: uval_add uval_sub uval_mul uval_mul32 uval_shl uval_shr uval_inc uint_inc_dec CompareTo_sgn)

theorem base_uint_arithmetic_witness:
  "uval (uint_mul [5, 1] [7, 2]) = (4294967301 * 8589934599) mod 2 ^ 64"
  using base_uint_arithmetic [of "[5, 1]" "[7, 2]" 0 0] by simp

text \<open>
  C38: long division is exact.  \<open>operator/=\<close> throws exactly when the divisor is zero, and otherwise
  its shift-and-subtract loop returns an integer of the same width whose value is the quotient of
  the values.
\<close>

theorem base_uint_division:
  assumes "length a = length b"
  shows "(uval b = 0 \<longrightarrow> uint_div a b = Inl Division_by_zero) \<and>
    (uval b \<noteq> 0 \<longrightarrow> (\<exists>q. uint_div a b = Inr q \<and> length q = length a \<and> uval q = uval a div uval b))"
  using uint_div_correct [OF assms] uint_div_zero [of a b] by blast

theorem base_uint_division_witness:
  "uint_div [0, 1] [7, 0] = Inr [613566756, 0] \<and> uval [613566756, 0] = 2 ^ 32 div 7"
proof -
  have "\<exists>q. uint_div [0, 1] [7, 0] = Inr q \<and> length q = Suc (Suc 0) \<and> uval q = 2 ^ 32 div 7"
    using base_uint_division [of "[0, 1]" "[7, 0]"] by simp
  then obtain q where q: "uint_div [0, 1] [7, 0] = Inr q" "length q = Suc (Suc 0)" "uval q = 2 ^ 32 div 7"
    by blast
  have "uval [613566756, 0] = 2 ^ 32 div 7" by simp
  with q(2,3) have "q = [613566756, 0]" using uval_inject [of q "[613566756, 0]"] by simp
  with q show ?thesis by simp
qed

text \<open>
  Decoding a compact target.  \<open>SetCompact\<close> yields the 256-bit truncation of
  mantissa times \<open>256 ^ (exponent - 3)\<close>, reports overflow exactly when that number does not fit
  in 256 bits, and reports a negative number exactly when the sign bit is set and the number is
  not zero.
\<close>

theorem SetCompact_decodes:
  "uval (fst (SetCompact c)) = compact_value c mod 2 ^ 256 \<and>
   (fst (snd (SetCompact c)) \<longleftrightarrow> bit c 23 \<and> compact_value c \<noteq> 0) \<and>
   (snd (snd (SetCompact c)) \<longleftrightarrow> 2 ^ 256 \<le> compact_value c)"
  by (simp only: uval_SetCompact SetCompact_negative SetCompact_overflow)

text \<open>
  C39: encoding a target.  For every 256-bit value the assertions in \<open>GetCompact\<close> hold; decoding
  the result raises neither flag and gives a target that is not above the original one and differs
  from it by at most one part in \<open>2 ^ 15\<close>.
\<close>

theorem GetCompact_SetCompact:
  assumes "length pn = 8"
  shows "\<exists>c t. GetCompact False pn = Some c \<and> SetCompact c = (t, False, False) \<and>
    uval t \<le> uval pn \<and> (uval pn - uval t) * 2 ^ 15 \<le> uval pn"
  by (rule GetCompact_decode [OF assms])

theorem GetCompact_SetCompact_witness:
  "\<exists>c t. GetCompact False [0xffffffff, 0xffffffff, 1, 0, 0, 0, 0, 0] = Some c \<and>
    SetCompact c = (t, False, False) \<and> uval t \<le> 2 ^ 65 - 1 \<and> (2 ^ 65 - 1 - uval t) * 2 ^ 15 \<le> 2 ^ 65 - 1"
  using GetCompact_SetCompact [of "[0xffffffff, 0xffffffff, 1, 0, 0, 0, 0, 0]"] by simp

end
