(* ===== verification/Serialize.thy ===== *)
theory Serialize
  imports Uint256
begin

text \<open>
  Serialization: \<^verbatim>\<open>src/src/serialize.h\<close>.  A writer is a function to byte strings; a reader takes the
  bytes left in the stream and returns a value with the bytes still unread, or the exception it
  throws.  Templates over an element type take the element's reader or writer as an argument.
\<close>

datatype ser_error = End_of_data | Non_canonical | Size_too_large | String_limit

type_synonym 'a reader = "bytes \<Rightarrow> ser_error + 'a \<times> bytes"

abbreviation MAX_SIZE :: u64 where "MAX_SIZE \<equiv> 0x02000000"

section \<open>Interfaces\<close>

text \<open>What a reader and a writer of a type promise each other: reading back what was written leaves
  the rest of the stream untouched.  In a canonical codec every byte string that is accepted is also
  the one that would be written.\<close>

locale codec =
  fixes valid :: "'a \<Rightarrow> bool"
    and enc :: "'a \<Rightarrow> bytes"
    and dec :: "'a reader"
  assumes dec_enc: "valid x \<Longrightarrow> dec (enc x @ rest) = Inr (x, rest)"
begin

lemma prefix_free: "valid x \<Longrightarrow> valid y \<Longrightarrow> enc x @ r = enc y @ s \<Longrightarrow> x = y \<and> r = s"
  by (metis dec_enc Pair_inject sum.inject(2))

lemma enc_inject: "valid x \<Longrightarrow> valid y \<Longrightarrow> enc x = enc y \<longleftrightarrow> x = y"
  using prefix_free [of x y "[]" "[]"] by auto

end

locale canonical_codec = codec +
  assumes enc_dec: "dec s = Inr (x, rest) \<Longrightarrow> valid x \<and> s = enc x @ rest"
begin

lemma dec_eq_iff: "dec s = Inr (x, rest) \<longleftrightarrow> valid x \<and> s = enc x @ rest"
  using dec_enc enc_dec by blast

lemma dec_valid: "dec s = Inr (x, rest) \<Longrightarrow> valid x"
  using enc_dec by blast

end

section \<open>Plain data\<close>

definition read_bytes :: "nat \<Rightarrow> bytes reader" where
  "read_bytes n s = (if length s < n then Inl End_of_data else Inr (take n s, drop n s))"

lemma read_bytes_append [simp]: "length a = n \<Longrightarrow> read_bytes n (a @ rest) = Inr (a, rest)"
  by (simp add: read_bytes_def)

lemma read_bytes_eq_Inr [result_iff]: "read_bytes n s = Inr (a, rest) \<longleftrightarrow> length a = n \<and> s = a @ rest"
  by (auto simp: read_bytes_def)

text \<open>\<open>WRITEDATA\<close> and \<open>READDATA\<close> for unsigned integers of \<open>n\<close> bytes.\<close>

definition read_le :: "nat \<Rightarrow> nat reader" where
  "read_le n s = rbind (read_bytes n s) (\<lambda>(a, rest). Inr (le_value a, rest))"

lemma read_le_append [simp]: "x < 256 ^ n \<Longrightarrow> read_le n (le_bytes n x @ rest) = Inr (x, rest)"
  by (simp add: read_le_def le_value_le_bytes)

lemma read_le_eq_Inr [result_iff]:
  "read_le n s = Inr (x, rest) \<longleftrightarrow> x < 256 ^ n \<and> s = le_bytes n x @ rest"
  by (auto simp: read_le_def result_iff le_bytes_le_value le_value_le_bytes le_value_less)

definition Serialize_u32 :: "u32 \<Rightarrow> bytes" where
  "Serialize_u32 a = le_bytes 4 (unat a)"

definition Unserialize_u32 :: "u32 reader" where
  "Unserialize_u32 s = rbind (read_le 4 s) (\<lambda>(x, rest). Inr (of_nat x, rest))"

definition Serialize_u64 :: "u64 \<Rightarrow> bytes" where
  "Serialize_u64 a = le_bytes 8 (unat a)"

definition Unserialize_u64 :: "u64 reader" where
  "Unserialize_u64 s = rbind (read_le 8 s) (\<lambda>(x, rest). Inr (of_nat x, rest))"

interpretation u32: canonical_codec "\<lambda>_. True" Serialize_u32 Unserialize_u32
proof unfold_locales
  fix x :: u32 and rest
  have "unat x < 256 ^ 4" by (rule order_less_le_trans [OF unsigned_less]) simp
  then show "Unserialize_u32 (Serialize_u32 x @ rest) = Inr (x, rest)"
    by (simp add: Unserialize_u32_def Serialize_u32_def)
next
  fix s and x :: u32 and rest
  assume "Unserialize_u32 s = Inr (x, rest)"
  then show "True \<and> s = Serialize_u32 x @ rest"
    by (auto simp: Unserialize_u32_def Serialize_u32_def result_iff unat_of_nat)
qed

interpretation u64: canonical_codec "\<lambda>_. True" Serialize_u64 Unserialize_u64
proof unfold_locales
  fix x :: u64 and rest
  have "unat x < 256 ^ 8" by (rule order_less_le_trans [OF unsigned_less]) simp
  then show "Unserialize_u64 (Serialize_u64 x @ rest) = Inr (x, rest)"
    by (simp add: Unserialize_u64_def Serialize_u64_def)
next
  fix s and x :: u64 and rest
  assume "Unserialize_u64 s = Inr (x, rest)"
  then show "True \<and> s = Serialize_u64 x @ rest"
    by (auto simp: Unserialize_u64_def Serialize_u64_def result_iff unat_of_nat)
qed

text \<open>Signed integers are stored as their two's complement.\<close>

definition Serialize_i64 :: "int \<Rightarrow> bytes" where
  "Serialize_i64 a = Serialize_u64 (of_int a)"

definition Unserialize_i64 :: "int reader" where
  "Unserialize_i64 s = rbind (Unserialize_u64 s) (\<lambda>(x, rest). Inr (sint x, rest))"

definition Serialize_i32 :: "int \<Rightarrow> bytes" where
  "Serialize_i32 a = Serialize_u32 (of_int a)"

definition Unserialize_i32 :: "int reader" where
  "Unserialize_i32 s = rbind (Unserialize_u32 s) (\<lambda>(x, rest). Inr (sint x, rest))"

definition is_int64 :: "int \<Rightarrow> bool" where
  "is_int64 a \<longleftrightarrow> - (2 ^ 63) \<le> a \<and> a < 2 ^ 63"

definition is_int32 :: "int \<Rightarrow> bool" where
  "is_int32 a \<longleftrightarrow> - (2 ^ 31) \<le> a \<and> a < 2 ^ 31"

interpretation i64: canonical_codec is_int64 Serialize_i64 Unserialize_i64
proof unfold_locales
  fix x rest assume "is_int64 x"
  then have "sint (of_int x :: u64) = x"
    by (simp add: is_int64_def signed_of_int signed_take_bit_int_eq_self)
  then show "Unserialize_i64 (Serialize_i64 x @ rest) = Inr (x, rest)"
    by (simp add: Unserialize_i64_def Serialize_i64_def u64.dec_enc)
next
  fix s x rest assume "Unserialize_i64 s = Inr (x, rest)"
  then show "is_int64 x \<and> s = Serialize_i64 x @ rest"
    using sint_range_size [where ?'a = 64]
    by (auto simp: Unserialize_i64_def Serialize_i64_def result_iff u64.dec_eq_iff is_int64_def size_word_def)
qed

interpretation i32: canonical_codec is_int32 Serialize_i32 Unserialize_i32
proof unfold_locales
  fix x rest assume "is_int32 x"
  then have "sint (of_int x :: u32) = x"
    by (simp add: is_int32_def signed_of_int signed_take_bit_int_eq_self)
  then show "Unserialize_i32 (Serialize_i32 x @ rest) = Inr (x, rest)"
    by (simp add: Unserialize_i32_def Serialize_i32_def u32.dec_enc)
next
  fix s x rest assume "Unserialize_i32 s = Inr (x, rest)"
  then show "is_int32 x \<and> s = Serialize_i32 x @ rest"
    using sint_range_size [where ?'a = 32]
    by (auto simp: Unserialize_i32_def Serialize_i32_def result_iff u32.dec_eq_iff is_int32_def size_word_def)
qed

section \<open>Compact sizes\<close>

definition GetSizeOfCompactSize :: "u64 \<Rightarrow> nat" where
  "GetSizeOfCompactSize nSize =
     (if nSize < 253 then 1 else if nSize \<le> 0xffff then 1 + 2
      else if nSize \<le> 0xffffffff then 1 + 4 else 1 + 8)"

definition WriteCompactSize :: "u64 \<Rightarrow> bytes" where
  "WriteCompactSize nSize =
     (if nSize < 253 then [ucast nSize]
      else if nSize \<le> 0xffff then 253 # le_bytes 2 (unat nSize)
      else if nSize \<le> 0xffffffff then 254 # le_bytes 4 (unat nSize)
      else 255 # le_bytes 8 (unat nSize))"

definition ReadCompactSize :: "u64 reader" where
  "ReadCompactSize s =
     rbind (read_bytes 1 s) (\<lambda>(c, rest).
       let chSize = hd c
       in rbind (if chSize < 253 then Inr (ucast chSize, rest)
                 else if chSize = 253 then
                   rbind (read_le 2 rest) (\<lambda>(x, rest).
                     let nSizeRet = of_nat x :: u64
                     in if nSizeRet < 253 then Inl Non_canonical else Inr (nSizeRet, rest))
                 else if chSize = 254 then
                   rbind (read_le 4 rest) (\<lambda>(x, rest).
                     let nSizeRet = of_nat x :: u64
                     in if nSizeRet < 0x10000 then Inl Non_canonical else Inr (nSizeRet, rest))
                 else
                   rbind (read_le 8 rest) (\<lambda>(x, rest).
                     let nSizeRet = of_nat x :: u64
                     in if nSizeRet < 0x100000000 then Inl Non_canonical else Inr (nSizeRet, rest)))
            (\<lambda>(nSizeRet, rest). if nSizeRet > MAX_SIZE then Inl Size_too_large else Inr (nSizeRet, rest)))"

lemma length_WriteCompactSize: "length (WriteCompactSize n) = GetSizeOfCompactSize n"
  by (simp add: WriteCompactSize_def GetSizeOfCompactSize_def)

lemma u64_of_nat_small: "x < 256 ^ k \<Longrightarrow> k \<le> 8 \<Longrightarrow> unat (of_nat x :: u64) = x"
proof -
  assume x: "x < 256 ^ k" and k: "k \<le> 8"
  have "(256 :: nat) ^ k \<le> 256 ^ 8" by (rule power_increasing) (use k in simp_all)
  with x have "x < 256 ^ 8" by simp
  then show ?thesis by (simp add: unat_of_nat)
qed

lemma ucast_u64_byte [simp]: "ucast (ucast (c :: byte) :: u64) = c"
  by (rule ucast_up_ucast_id) (simp add: is_up)

interpretation compact_size: canonical_codec "\<lambda>n. n \<le> MAX_SIZE" WriteCompactSize ReadCompactSize
proof unfold_locales
  fix n :: u64 and rest assume n: "n \<le> MAX_SIZE"
  then have lt: "unat n \<le> 0x2000000" by (simp add: word_le_nat_alt)
  consider "n < 253" | "\<not> n < 253" "n \<le> 0xffff" | "\<not> n < 253" "\<not> n \<le> 0xffff" by blast
  then show "ReadCompactSize (WriteCompactSize n @ rest) = Inr (n, rest)"
  proof cases
    case 1
    then have "unat n < 253" by (simp add: word_less_nat_alt)
    then have "unat (ucast n :: byte) = unat n" by (simp add: unsigned_ucast_eq take_bit_eq_mod)
    then have "(ucast n :: byte) < 253" "ucast (ucast n :: byte) = n"
      using \<open>unat n < 253\<close> by (simp_all add: word_less_nat_alt word_unat_eq_iff unat_ucast_up)
    then show ?thesis
      using 1 n by (simp add: ReadCompactSize_def WriteCompactSize_def read_bytes_def Let_def)
  next
    case 2
    then have "unat n < 256 ^ 2" by (simp add: word_le_nat_alt)
    with 2 n show ?thesis by (simp add: ReadCompactSize_def WriteCompactSize_def read_bytes_def Let_def)
  next
    case 3
    have "unat n < 256 ^ 4" using lt by simp
    moreover have "n \<le> 0xffffffff" using lt by (simp add: word_le_nat_alt)
    moreover have "\<not> n < 0x10000" using 3(2) by (simp add: word_le_nat_alt word_less_nat_alt)
    ultimately show ?thesis
      using 3 n by (simp add: ReadCompactSize_def WriteCompactSize_def read_bytes_def Let_def)
  qed
next
  fix s and n :: u64 and rest assume dec: "ReadCompactSize s = Inr (n, rest)"
  then obtain c r where s: "s = c # r" by (cases s) (auto simp: ReadCompactSize_def read_bytes_def)
  have read: "read_bytes 1 s = Inr ([c], r)" by (simp add: s read_bytes_def)
  note dec = dec [unfolded ReadCompactSize_def read rbind_Inr prod.case Let_def list.sel]
  have max: "n \<le> MAX_SIZE"
    using dec by (auto simp: result_iff linorder_not_less split: if_splits)
  consider "c < 253" | "c = 253" | "c = 254" | "\<not> c < 253" "c \<noteq> 253" "c \<noteq> 254" by blast
  then have "s = WriteCompactSize n @ rest"
  proof cases
    case 1
    then have "n = ucast c" "rest = r" using dec by (auto split: if_splits)
    with 1 s show ?thesis by (simp add: WriteCompactSize_def word_less_nat_alt unat_ucast_up)
  next
    case 2
    then obtain x where "n = of_nat x" "\<not> n < 253" "r = le_bytes 2 x @ rest" "x < 256 ^ 2"
      using dec by (auto simp: result_iff split: if_splits)
    with 2 s u64_of_nat_small [of x 2] show ?thesis by (simp add: WriteCompactSize_def word_le_nat_alt)
  next
    case 3
    then obtain x where "n = of_nat x" "\<not> n < 0x10000" "r = le_bytes 4 x @ rest" "x < 256 ^ 4"
      using dec by (auto simp: result_iff split: if_splits)
    with 3 s u64_of_nat_small [of x 4] show ?thesis
      by (simp add: WriteCompactSize_def word_le_nat_alt word_less_nat_alt)
  next
    case 4
    then have "\<not> n < 0x100000000"
      using dec by (auto simp: result_iff split: if_splits)
    with max show ?thesis by (simp add: word_le_nat_alt word_less_nat_alt)
  qed
  with max show "n \<le> MAX_SIZE \<and> s = WriteCompactSize n @ rest" by simp
qed

section \<open>Variable-length integers\<close>

text \<open>The template is used with 64-bit and 32-bit types; here it is instantiated at \<open>uint64_t\<close>.\<close>

function varint_tmp :: "nat \<Rightarrow> u64 \<Rightarrow> bytes" where
  "varint_tmp len n =
     (ucast (n AND 0x7F) OR (if len \<noteq> 0 then 0x80 else 0)) #
     (if n \<le> 0x7F then [] else varint_tmp (len + 1) (drop_bit 7 n - 1))"
  by pat_completeness auto

lemma varint_shrinks:
  assumes "\<not> n \<le> (0x7F :: u64)"
  shows "unat (drop_bit 7 n - 1) = unat n div 128 - 1" and "0 < unat n div 128"
proof -
  have n: "0x7F < unat n" using assms by (simp add: word_le_nat_alt)
  have d: "unat (drop_bit 7 n) = unat n div 128" using trans [OF unat_drop_bit_eq drop_bit_eq_div, of 7 n] by simp
  show pos: "0 < unat n div 128" using n by simp
  then have "1 \<le> drop_bit 7 n" using d by (simp add: word_le_nat_alt)
  then show "unat (drop_bit 7 n - 1) = unat n div 128 - 1" by (simp add: unat_sub d)
qed

termination varint_tmp
  by (relation "measure (\<lambda>(len, n). unat n)") (auto simp: varint_shrinks word_le_nat_alt)

declare varint_tmp.simps [simp del]

definition WriteVarInt :: "u64 \<Rightarrow> bytes" where
  "WriteVarInt n = rev (varint_tmp 0 n)"

fun ReadVarInt_loop :: "u64 \<Rightarrow> u64 reader" where
  "ReadVarInt_loop n [] = Inl End_of_data"
| "ReadVarInt_loop n (chData # s) =
     (let n1 = push_bit 7 n OR ucast (chData AND 0x7F)
      in if chData AND 0x80 \<noteq> 0 then ReadVarInt_loop (n1 + 1) s else Inr (n1, s))"

definition ReadVarInt :: "u64 reader" where
  "ReadVarInt s = ReadVarInt_loop 0 s"

function GetSizeOfVarInt :: "u64 \<Rightarrow> nat" where
  "GetSizeOfVarInt n = (if n \<le> 0x7F then 1 else 1 + GetSizeOfVarInt (drop_bit 7 n - 1))"
  by pat_completeness auto
termination
  by (relation "measure unat") (auto simp: varint_shrinks word_le_nat_alt)

declare GetSizeOfVarInt.simps [simp del]

lemma length_varint: "length (varint_tmp len n) = GetSizeOfVarInt n"
proof (induction len n rule: varint_tmp.induct)
  case (1 len n)
  then show ?case by (subst varint_tmp.simps, subst GetSizeOfVarInt.simps) simp
qed

lemma varint_size_bound: "unat n < 128 ^ k \<Longrightarrow> 0 < k \<Longrightarrow> GetSizeOfVarInt n \<le> k"
proof (induction k arbitrary: n)
  case (Suc k)
  show ?case
  proof (cases "n \<le> 0x7F")
    case False
    have "k \<noteq> 0" using Suc.prems(1) False by (cases k) (auto simp: word_le_nat_alt)
    have "unat n div 128 < 128 ^ k" using Suc.prems(1) by (simp add: less_mult_imp_div_less mult.commute)
    then have "unat (drop_bit 7 n - 1) < 128 ^ k" using varint_shrinks [OF False] by simp
    with Suc.IH \<open>k \<noteq> 0\<close> False show ?thesis by (subst GetSizeOfVarInt.simps) simp
  qed (subst GetSizeOfVarInt.simps, simp)
qed simp

lemma septet_mask: "(0x7F :: u64) = mask 7" "(0x7F :: byte) = mask 7" "(0x80 :: byte) = 2 ^ 7"
  by (simp_all add: mask_eq_exp_minus_1)

lemma bit_0x80: "bit (0x80 :: byte) k \<longleftrightarrow> k = 7" "bit (0x80 :: int) k \<longleftrightarrow> k = 7"
proof -
  show "bit (0x80 :: byte) k \<longleftrightarrow> k = 7" unfolding septet_mask(3) bit_exp_iff by auto
  have "(0x80 :: int) = 2 ^ 7" by simp
  then show "bit (0x80 :: int) k \<longleftrightarrow> k = 7" by (simp only: bit_exp_iff) auto
qed

lemma u64_septet_split: "push_bit 7 (drop_bit 7 n) OR (n AND 0x7F) = (n :: u64)"
  unfolding septet_mask by (rule bit_word_eqI) (auto simp: bit_simps bit_mask_iff)

lemma varint_byte:
  fixes n :: u64
  shows "ucast ((ucast (n AND 0x7F) OR 0x80 :: byte) AND 0x7F) = n AND 0x7F"
    and "(ucast (n AND 0x7F) OR 0x80 :: byte) AND 0x80 \<noteq> 0"
    and "ucast ((ucast (n AND 0x7F) :: byte) AND 0x7F) = n AND 0x7F"
    and "(ucast (n AND 0x7F) :: byte) AND 0x80 = 0"
proof -
  show "ucast ((ucast (n AND 0x7F) OR 0x80 :: byte) AND 0x7F) = n AND 0x7F"
    unfolding septet_mask(1,2) by (rule bit_word_eqI) (auto simp: bit_simps bit_mask_iff bit_0x80)
  have "bit ((ucast (n AND 0x7F) OR 0x80 :: byte) AND 0x80) 7"
    by (simp add: bit_simps bit_0x80)
  then show "(ucast (n AND 0x7F) OR 0x80 :: byte) AND 0x80 \<noteq> 0" by force
  show "ucast ((ucast (n AND 0x7F) :: byte) AND 0x7F) = n AND 0x7F"
    unfolding septet_mask by (rule bit_word_eqI) (auto simp: bit_simps bit_mask_iff)
  show "(ucast (n AND 0x7F) :: byte) AND 0x80 = 0"
    unfolding septet_mask(1,2) by (rule bit_word_eqI) (auto simp: bit_simps bit_mask_iff bit_0x80)
qed

lemma ReadVarInt_loop_tmp:
  "ReadVarInt_loop 0 (rev (varint_tmp len n) @ rest) =
     (if len = 0 then Inr (n, rest) else ReadVarInt_loop (n + 1) rest)"
proof (induction len n arbitrary: rest rule: varint_tmp.induct)
  case (1 len n)
  let ?c = "ucast (n AND 0x7F) OR (if len \<noteq> 0 then 0x80 else 0) :: byte"
  have last: "ReadVarInt_loop m (?c # rest) = (if len = 0 then Inr (n, rest) else ReadVarInt_loop (n + 1) rest)"
    if "push_bit 7 m OR (n AND 0x7F) = n" for m
    using that varint_byte [of n] by simp
  show ?case
  proof (cases "n \<le> 0x7F")
    case True
    then have "unat n < 128" by (simp add: word_le_nat_alt)
    then have "n AND 0x7F = n"
      unfolding septet_mask take_bit_eq_mask [symmetric]
      by (simp add: word_unat_eq_iff unsigned_take_bit_eq take_bit_nat_eq_self_iff)
    with last [of 0] True show ?thesis by (subst varint_tmp.simps) simp
  next
    case False
    have "ReadVarInt_loop 0 (rev (varint_tmp (len + 1) (drop_bit 7 n - 1)) @ ?c # rest) =
        ReadVarInt_loop (drop_bit 7 n) (?c # rest)"
      using 1 [OF False, of "?c # rest"] by simp
    with last [OF u64_septet_split] False show ?thesis by (subst varint_tmp.simps) simp
  qed
qed

interpretation varint: codec "\<lambda>_. True" WriteVarInt ReadVarInt
  by unfold_locales (simp add: WriteVarInt_def ReadVarInt_def ReadVarInt_loop_tmp)

section \<open>Containers\<close>

text \<open>\<open>std::vector<unsigned char>\<close>, \<open>std::string\<close> and \<open>CScript\<close>: a size and the bytes, read in
  blocks of at most 5000000 bytes.\<close>

definition Serialize_blob :: "bytes \<Rightarrow> bytes" where
  "Serialize_blob v = WriteCompactSize (of_nat (length v)) @ v"

definition GetSerializeSize_blob :: "bytes \<Rightarrow> nat" where
  "GetSerializeSize_blob v = GetSizeOfCompactSize (of_nat (length v)) + length v"

function blob_blocks :: "nat \<Rightarrow> nat \<Rightarrow> bytes reader" where
  "blob_blocks nSize i s =
     (if i < nSize then
        let blk = min (nSize - i) (1 + 4999999)
        in rbind (read_bytes blk s) (\<lambda>(v1, s1).
             rbind (blob_blocks nSize (i + blk) s1) (\<lambda>(v2, s2). Inr (v1 @ v2, s2)))
      else Inr ([], s))"
  by pat_completeness auto
termination
  by (relation "measure (\<lambda>(nSize, i, s). nSize - i)") auto

declare blob_blocks.simps [simp del]

definition Unserialize_blob :: "bytes reader" where
  "Unserialize_blob s = rbind (ReadCompactSize s) (\<lambda>(nSize, s1). blob_blocks (unat nSize) 0 s1)"

text \<open>\<open>LimitedString\<close>.\<close>

definition Unserialize_limited :: "nat \<Rightarrow> bytes reader" where
  "Unserialize_limited limit s =
     rbind (ReadCompactSize s) (\<lambda>(nSize, s1).
       if unat nSize > limit then Inl String_limit else read_bytes (unat nSize) s1)"

text \<open>\<open>std::vector<T>\<close> for other element types: the inner loop over \<open>n\<close> elements, and the outer loop
  that extends the vector by \<open>chunk = 5000000 / sizeof(T)\<close> elements at a time.  The outer loop makes
  no progress when \<open>chunk\<close> is 0; no element type of the sources is that large.\<close>

fun Unserialize_n :: "'a reader \<Rightarrow> nat \<Rightarrow> 'a list reader" where
  "Unserialize_n unser 0 s = Inr ([], s)"
| "Unserialize_n unser (Suc n) s =
     rbind (unser s) (\<lambda>(x, s1). rbind (Unserialize_n unser n s1) (\<lambda>(xs, s2). Inr (x # xs, s2)))"

function Unserialize_chunks :: "nat \<Rightarrow> 'a reader \<Rightarrow> nat \<Rightarrow> nat \<Rightarrow> 'a list reader" where
  "Unserialize_chunks chunk unser nSize i s =
     (if i < nSize \<and> 0 < chunk then
        let nMid = min (i + chunk) nSize
        in rbind (Unserialize_n unser (nMid - i) s) (\<lambda>(v1, s1).
             rbind (Unserialize_chunks chunk unser nSize nMid s1) (\<lambda>(v2, s2). Inr (v1 @ v2, s2)))
      else Inr ([], s))"
  by pat_completeness auto
termination
  by (relation "measure (\<lambda>(chunk, unser, nSize, i, s). nSize - i)") auto

declare Unserialize_chunks.simps [simp del]

definition Serialize_vector :: "('a \<Rightarrow> bytes) \<Rightarrow> 'a list \<Rightarrow> bytes" where
  "Serialize_vector ser v = WriteCompactSize (of_nat (length v)) @ concat (map ser v)"

definition GetSerializeSize_vector :: "('a \<Rightarrow> nat) \<Rightarrow> 'a list \<Rightarrow> nat" where
  "GetSerializeSize_vector sz v = fold (\<lambda>x nSize. nSize + sz x) v (GetSizeOfCompactSize (of_nat (length v)))"

definition Unserialize_vector :: "nat \<Rightarrow> 'a reader \<Rightarrow> 'a list reader" where
  "Unserialize_vector sizeofT unser s =
     rbind (ReadCompactSize s) (\<lambda>(nSize, s1). Unserialize_chunks (5000000 div sizeofT) unser (unat nSize) 0 s1)"

definition Serialize_pair :: "('a \<Rightarrow> bytes) \<Rightarrow> ('b \<Rightarrow> bytes) \<Rightarrow> 'a \<times> 'b \<Rightarrow> bytes" where
  "Serialize_pair ser1 ser2 item = ser1 (fst item) @ ser2 (snd item)"

definition Unserialize_pair :: "'a reader \<Rightarrow> 'b reader \<Rightarrow> ('a \<times> 'b) reader" where
  "Unserialize_pair unser1 unser2 s =
     rbind (unser1 s) (\<lambda>(x, s1). rbind (unser2 s1) (\<lambda>(y, s2). Inr ((x, y), s2)))"

text \<open>\<open>uint256\<close> and \<open>uint160\<close> are written as their limbs, least significant first.\<close>

definition Serialize_uint :: "base_uint \<Rightarrow> bytes" where
  "Serialize_uint pn = concat (map Serialize_u32 pn)"

definition Unserialize_uint :: "nat \<Rightarrow> base_uint reader" where
  "Unserialize_uint WIDTH s = Unserialize_n Unserialize_u32 WIDTH s"

subsection \<open>Reading in blocks is reading at once\<close>

lemma read_bytes_add:
  "read_bytes (m + n) s = rbind (read_bytes m s) (\<lambda>(a, r). rbind (read_bytes n r) (\<lambda>(b, r'). Inr (a @ b, r')))"
  by (auto simp: read_bytes_def take_add add.commute)

lemma blob_blocks_eq: "i \<le> nSize \<Longrightarrow> blob_blocks nSize i s = read_bytes (nSize - i) s"
proof (induction nSize i s rule: blob_blocks.induct)
  case (1 nSize i s)
  show ?case
  proof (cases "i < nSize")
    case False
    with 1(2) show ?thesis by (subst blob_blocks.simps) (simp add: read_bytes_def)
  next
    case True
    define blk where "blk = min (nSize - i) 5000000"
    have blk: "i + blk \<le> nSize" using True by (simp add: blk_def)
    have IH: "blob_blocks nSize (i + blk) r = read_bytes (nSize - i - blk) r" if "read_bytes blk s = Inr (v, r)" for v r
      using 1(1) [OF True _ that refl] blk by (simp add: blk_def)
    have "blob_blocks nSize i s = rbind (read_bytes blk s) (\<lambda>(v1, s1).
        rbind (blob_blocks nSize (i + blk) s1) (\<lambda>(v2, s2). Inr (v1 @ v2, s2)))"
      using True by (subst blob_blocks.simps) (simp add: blk_def Let_def)
    also have "\<dots> = rbind (read_bytes blk s) (\<lambda>(v1, s1).
        rbind (read_bytes (nSize - i - blk) s1) (\<lambda>(v2, s2). Inr (v1 @ v2, s2)))"
      by (rule rbind_cong [OF refl]) (auto simp: IH)
    also have "\<dots> = read_bytes (nSize - i) s"
      using read_bytes_add [of blk "nSize - i - blk" s] blk by simp
    finally show ?thesis .
  qed
qed

lemma Unserialize_n_add:
  "Unserialize_n unser (m + n) s =
     rbind (Unserialize_n unser m s) (\<lambda>(a, r). rbind (Unserialize_n unser n r) (\<lambda>(b, r'). Inr (a @ b, r')))"
  by (induction m arbitrary: s) (auto simp: rbind_def split: sum.splits prod.splits)

lemma Unserialize_chunks_eq:
  "0 < chunk \<Longrightarrow> i \<le> nSize \<Longrightarrow> Unserialize_chunks chunk unser nSize i s = Unserialize_n unser (nSize - i) s"
proof (induction chunk unser nSize i s rule: Unserialize_chunks.induct)
  case (1 chunk unser nSize i s)
  show ?case
  proof (cases "i < nSize")
    case False
    with 1 show ?thesis by (subst Unserialize_chunks.simps) simp
  next
    case True
    define nMid where "nMid = min (i + chunk) nSize"
    have nMid: "i \<le> nMid" "nMid \<le> nSize" using True by (simp_all add: nMid_def)
    have IH: "Unserialize_chunks chunk unser nSize nMid r = Unserialize_n unser (nSize - nMid) r"
      if "Unserialize_n unser (nMid - i) s = Inr (v, r)" for v r
      using 1(1) [of nMid] True 1(2) that nMid by (simp add: nMid_def)
    have "Unserialize_chunks chunk unser nSize i s = rbind (Unserialize_n unser (nMid - i) s) (\<lambda>(v1, s1).
        rbind (Unserialize_chunks chunk unser nSize nMid s1) (\<lambda>(v2, s2). Inr (v1 @ v2, s2)))"
      using True 1(2) by (subst Unserialize_chunks.simps) (simp add: nMid_def Let_def)
    also have "\<dots> = rbind (Unserialize_n unser (nMid - i) s) (\<lambda>(v1, s1).
        rbind (Unserialize_n unser (nSize - nMid) s1) (\<lambda>(v2, s2). Inr (v1 @ v2, s2)))"
      by (rule rbind_cong [OF refl]) (auto simp: IH)
    also have "\<dots> = Unserialize_n unser (nSize - i) s"
      using Unserialize_n_add [of unser "nMid - i" "nSize - nMid" s] nMid by simp
    finally show ?thesis .
  qed
qed

subsection \<open>Codecs of containers\<close>

context canonical_codec
begin

lemma Unserialize_n_iff:
  "Unserialize_n dec n s = Inr (xs, rest) \<longleftrightarrow>
     length xs = n \<and> list_all valid xs \<and> s = concat (map enc xs) @ rest"
proof (induction n arbitrary: s xs)
  case (Suc n)
  show ?case
    by (cases xs) (auto simp: result_iff Suc dec_eq_iff)
qed auto

lemma chunks_iff:
  assumes "0 < chunk"
  shows "Unserialize_chunks chunk dec n 0 s = Inr (xs, rest) \<longleftrightarrow>
     length xs = n \<and> list_all valid xs \<and> s = concat (map enc xs) @ rest"
  by (simp add: Unserialize_chunks_eq [OF assms] Unserialize_n_iff)

end

definition fits :: "'a list \<Rightarrow> bool" where
  "fits v \<longleftrightarrow> length v \<le> 0x2000000"

lemma fits_size: "fits v \<Longrightarrow> unat (of_nat (length v) :: u64) = length v \<and> (of_nat (length v) :: u64) \<le> MAX_SIZE"
  by (simp add: fits_def word_le_nat_alt unat_of_nat)

lemma size_fits: "n \<le> MAX_SIZE \<Longrightarrow> length v = unat n \<Longrightarrow> fits v \<and> (of_nat (length v) :: u64) = n"
  by (simp add: fits_def word_le_nat_alt)

lemma canonical_codecI:
  assumes "\<And>s x rest. dec s = Inr (x, rest) \<longleftrightarrow> valid x \<and> s = enc x @ rest"
  shows "canonical_codec valid enc dec"
  by unfold_locales (simp_all add: assms)

lemma canonical_vector:
  assumes "canonical_codec valid enc dec" and "0 < sizeofT" and "sizeofT \<le> 5000000"
  shows "canonical_codec (\<lambda>v. fits v \<and> list_all valid v) (Serialize_vector enc) (Unserialize_vector sizeofT dec)"
proof (rule canonical_codecI)
  fix s v rest
  have chunk: "0 < 5000000 div sizeofT" using assms(2,3) by (simp add: div_greater_zero_iff)
  show "Unserialize_vector sizeofT dec s = Inr (v, rest) \<longleftrightarrow>
      (fits v \<and> list_all valid v) \<and> s = Serialize_vector enc v @ rest"
    using fits_size [of v] size_fits [of _ v]
    by (auto simp: Unserialize_vector_def Serialize_vector_def result_iff compact_size.dec_eq_iff
        canonical_codec.chunks_iff [OF assms(1) chunk])
qed

lemma canonical_pair:
  assumes "canonical_codec valid1 enc1 dec1" and "canonical_codec valid2 enc2 dec2"
  shows "canonical_codec (\<lambda>(x, y). valid1 x \<and> valid2 y) (Serialize_pair enc1 enc2) (Unserialize_pair dec1 dec2)"
  by (rule canonical_codecI)
    (auto simp: Unserialize_pair_def Serialize_pair_def result_iff canonical_codec.dec_eq_iff [OF assms(1)]
      canonical_codec.dec_eq_iff [OF assms(2)])

interpretation blob: canonical_codec fits Serialize_blob Unserialize_blob
proof (rule canonical_codecI)
  fix s v rest
  show "Unserialize_blob s = Inr (v, rest) \<longleftrightarrow> fits v \<and> s = Serialize_blob v @ rest"
    using fits_size [of v] size_fits [of _ v]
    by (auto simp: Unserialize_blob_def Serialize_blob_def result_iff compact_size.dec_eq_iff blob_blocks_eq)
qed

interpretation limb256: canonical_codec "\<lambda>pn. length pn = 8" Serialize_uint "Unserialize_uint 8"
  by (rule canonical_codecI) (auto simp: Unserialize_uint_def Serialize_uint_def u32.Unserialize_n_iff list_all_iff)

interpretation limb160: canonical_codec "\<lambda>pn. length pn = 5" Serialize_uint "Unserialize_uint 5"
  by (rule canonical_codecI) (auto simp: Unserialize_uint_def Serialize_uint_def u32.Unserialize_n_iff list_all_iff)

lemma GetSerializeSize_vector_length:
  "GetSerializeSize_vector (\<lambda>x. length (ser x)) v = length (Serialize_vector ser v)"
proof -
  have "fold (\<lambda>x nSize. nSize + length (ser x)) v k = k + length (concat (map ser v))" for k
    by (induction v arbitrary: k) simp_all
  then show ?thesis by (simp add: GetSerializeSize_vector_def Serialize_vector_def length_WriteCompactSize)
qed

section \<open>Properties of the wire format\<close>

text \<open>
  Compact sizes.  \<open>ReadCompactSize\<close> accepts exactly the strings that \<open>WriteCompactSize\<close> produces
  for sizes up to \<open>MAX_SIZE\<close>, so no size has two encodings and no longer size is accepted, and
  \<open>GetSizeOfCompactSize\<close> is the number of bytes written for every 64-bit size.
\<close>

theorem compact_size_canonical:
  "(ReadCompactSize s = Inr (n, rest) \<longleftrightarrow> n \<le> MAX_SIZE \<and> s = WriteCompactSize n @ rest) \<and>
   length (WriteCompactSize k) = GetSizeOfCompactSize k"
  by (simp add: compact_size.dec_eq_iff length_WriteCompactSize)

text \<open>
  Variable-length integers.  \<open>ReadVarInt\<close> returns every 64-bit integer from the bytes
  \<open>WriteVarInt\<close> produced and leaves the rest of the stream, \<open>GetSizeOfVarInt\<close> is the number of
  bytes, and the loop never writes past the end of its buffer of 10 bytes.
\<close>

theorem varint_roundtrip:
  "ReadVarInt (WriteVarInt n @ rest) = Inr (n, rest) \<and> length (WriteVarInt n) = GetSizeOfVarInt n \<and>
   length (varint_tmp 0 n) \<le> (8 * 8 + 6) div 7"
proof -
  have "unat n < 2 ^ 64" by (rule order_less_le_trans [OF unsigned_less]) simp
  then have "unat n < 128 ^ 10" by simp
  then have "GetSizeOfVarInt n \<le> 10" by (rule varint_size_bound) simp
  then show ?thesis using varint.dec_enc [OF TrueI, of n rest] by (simp add: WriteVarInt_def length_varint)
qed

text \<open>
  Vectors.  For every canonical element format, reading a vector in chunks accepts exactly what
  writing a vector of at most \<open>MAX_SIZE\<close> elements produces; a blob of bytes behaves the same way.
\<close>

theorem vector_canonical:
  assumes "canonical_codec valid enc dec" and "0 < sizeofT" and "sizeofT \<le> 5000000"
  shows "(Unserialize_vector sizeofT dec s = Inr (v, rest) \<longleftrightarrow>
      length v \<le> 0x2000000 \<and> list_all valid v \<and> s = Serialize_vector enc v @ rest) \<and>
    (Unserialize_blob s = Inr (b, rest) \<longleftrightarrow> length b \<le> 0x2000000 \<and> s = Serialize_blob b @ rest)"
  using canonical_codec.dec_eq_iff [OF canonical_vector [OF assms]] blob.dec_eq_iff [of s b rest]
  by (simp add: fits_def)

theorem vector_canonical_witness:
  "Unserialize_vector 4 Unserialize_u32 (Serialize_vector Serialize_u32 [7, 8] @ [9]) = Inr ([7, 8], [9])"
  using vector_canonical [OF u32.canonical_codec_axioms, of 4
      "Serialize_vector Serialize_u32 [7, 8] @ [9]" "[7, 8]" "[9]"]
  by simp

end
