(* ===== verification/Transaction.thy ===== *)
theory Transaction
  imports Serialize
begin

text \<open>
  Transactions and amounts: \<^verbatim>\<open>src/src/primitives/transaction.h\<close>,
  \<^verbatim>\<open>src/src/primitives/transaction.cpp\<close> and \<^verbatim>\<open>src/src/amount.cpp\<close>.  \<open>CAmount\<close> is a signed 64-bit
  integer, kept as an \<open>int\<close> in that range with the wrap-around of the code written out.  The
  double SHA-256 of \<open>SerializeHash\<close> is a parameter \<open>H\<close> of the definitions that use it.
\<close>

type_synonym CAmount = int
type_synonym CScript = bytes

definition wrap64 :: "int \<Rightarrow> int" where
  "wrap64 x = sint (of_int x :: u64)"

abbreviation COIN :: CAmount where "COIN \<equiv> 100000000"
abbreviation CENT :: CAmount where "CENT \<equiv> 1000000"

section \<open>Fee rates\<close>

text \<open>\<open>size_t\<close> is unsigned, so the products and quotients below are computed in 64-bit unsigned
  arithmetic and converted back.\<close>

definition CFeeRate_of :: "CAmount \<Rightarrow> u64 \<Rightarrow> CAmount" where
  "CFeeRate_of nFeePaid nSize =
     (if nSize > 0 then sint (of_int (wrap64 (nFeePaid * 1000)) div nSize :: u64) else 0)"

definition GetFee :: "CAmount \<Rightarrow> u64 \<Rightarrow> CAmount" where
  "GetFee nSatoshisPerK nSize =
     (let nFee = sint (of_int nSatoshisPerK * nSize div 1000 :: u64)
      in if nFee = 0 \<and> nSatoshisPerK > 0 then nSatoshisPerK else nFee)"

definition GetFeePerK :: "CAmount \<Rightarrow> CAmount" where
  "GetFeePerK nSatoshisPerK = GetFee nSatoshisPerK 1000"

section \<open>Data\<close>

record COutPoint =
  op_hash :: base_uint
  op_n :: u32

record CTxIn =
  prevout :: COutPoint
  scriptSig :: CScript
  nSequence :: u32
  prevPubKey :: CScript

record CTxOut =
  nValue :: CAmount
  scriptPubKey :: CScript
  nRounds :: int

record CTransaction =
  tx_hash :: base_uint
  tx_nVersion :: int
  vin :: "CTxIn list"
  vout :: "CTxOut list"
  nLockTime :: u32

definition COutPoint_null :: COutPoint where
  "COutPoint_null = \<lparr>op_hash = base_uint_zero 8, op_n = - 1\<rparr>"

definition COutPoint_IsNull :: "COutPoint \<Rightarrow> bool" where
  "COutPoint_IsNull o' \<longleftrightarrow> IsNull (op_hash o') \<and> op_n o' = - 1"

definition COutPoint_less :: "COutPoint \<Rightarrow> COutPoint \<Rightarrow> bool" where
  "COutPoint_less a b \<longleftrightarrow>
     CompareTo (op_hash a) (op_hash b) < 0 \<or>
     (CompareTo (op_hash a) (op_hash b) = 0 \<and> op_n a < op_n b)"

definition CTxIn_IsFinal :: "CTxIn \<Rightarrow> bool" where
  "CTxIn_IsFinal txin \<longleftrightarrow> nSequence txin = 0xffffffff"

definition CTxIn_eq :: "CTxIn \<Rightarrow> CTxIn \<Rightarrow> bool" where
  "CTxIn_eq a b \<longleftrightarrow> prevout a = prevout b \<and> scriptSig a = scriptSig b \<and> nSequence a = nSequence b"

definition CTxOut_new :: "CAmount \<Rightarrow> CScript \<Rightarrow> CTxOut" where
  "CTxOut_new nValueIn scriptPubKeyIn = \<lparr>nValue = nValueIn, scriptPubKey = scriptPubKeyIn, nRounds = - 10\<rparr>"

definition CTxOut_null :: CTxOut where
  "CTxOut_null = \<lparr>nValue = - 1, scriptPubKey = [], nRounds = - 10\<rparr>"

definition CTxOut_IsNull :: "CTxOut \<Rightarrow> bool" where
  "CTxOut_IsNull txout \<longleftrightarrow> nValue txout = - 1"

definition CTxOut_SetEmpty :: "CTxOut \<Rightarrow> CTxOut" where
  "CTxOut_SetEmpty txout = txout\<lparr>nValue := 0, scriptPubKey := []\<rparr>"

definition CTxOut_IsEmpty :: "CTxOut \<Rightarrow> bool" where
  "CTxOut_IsEmpty txout \<longleftrightarrow> nValue txout = 0 \<and> scriptPubKey txout = []"

section \<open>Serialization\<close>

definition Serialize_COutPoint :: "COutPoint \<Rightarrow> bytes" where
  "Serialize_COutPoint o' = Serialize_uint (op_hash o') @ Serialize_u32 (op_n o')"

definition Unserialize_COutPoint :: "COutPoint reader" where
  "Unserialize_COutPoint s =
     rbind (Unserialize_uint 8 s) (\<lambda>(h, s). rbind (Unserialize_u32 s) (\<lambda>(k, s).
       Inr (\<lparr>op_hash = h, op_n = k\<rparr>, s)))"

definition Serialize_CTxIn :: "CTxIn \<Rightarrow> bytes" where
  "Serialize_CTxIn txin =
     Serialize_COutPoint (prevout txin) @ Serialize_blob (scriptSig txin) @ Serialize_u32 (nSequence txin)"

definition Unserialize_CTxIn :: "CTxIn reader" where
  "Unserialize_CTxIn s =
     rbind (Unserialize_COutPoint s) (\<lambda>(p, s). rbind (Unserialize_blob s) (\<lambda>(sig, s).
       rbind (Unserialize_u32 s) (\<lambda>(q, s).
         Inr (\<lparr>prevout = p, scriptSig = sig, nSequence = q, prevPubKey = []\<rparr>, s))))"

definition Serialize_CTxOut :: "CTxOut \<Rightarrow> bytes" where
  "Serialize_CTxOut txout = Serialize_i64 (nValue txout) @ Serialize_blob (scriptPubKey txout)"

definition Unserialize_CTxOut :: "CTxOut reader" where
  "Unserialize_CTxOut s =
     rbind (Unserialize_i64 s) (\<lambda>(v, s). rbind (Unserialize_blob s) (\<lambda>(pk, s).
       Inr (\<lparr>nValue = v, scriptPubKey = pk, nRounds = - 10\<rparr>, s)))"

definition Serialize_CTransaction :: "CTransaction \<Rightarrow> bytes" where
  "Serialize_CTransaction tx =
     Serialize_i32 (tx_nVersion tx) @ Serialize_vector Serialize_CTxIn (vin tx) @
     Serialize_vector Serialize_CTxOut (vout tx) @ Serialize_u32 (nLockTime tx)"

definition UpdateHash :: "(bytes \<Rightarrow> base_uint) \<Rightarrow> CTransaction \<Rightarrow> CTransaction" where
  "UpdateHash H tx = tx\<lparr>tx_hash := H (Serialize_CTransaction tx)\<rparr>"

text \<open>\<open>sizeof(CTxIn)\<close> is 96 and \<open>sizeof(CTxOut)\<close> is 40 on the 64-bit targets; only that both are
  at most 5000000 matters.\<close>

definition Unserialize_CTransaction :: "(bytes \<Rightarrow> base_uint) \<Rightarrow> CTransaction reader" where
  "Unserialize_CTransaction H s =
     rbind (Unserialize_i32 s) (\<lambda>(ver, s).
     rbind (Unserialize_vector 96 Unserialize_CTxIn s) (\<lambda>(i, s).
     rbind (Unserialize_vector 40 Unserialize_CTxOut s) (\<lambda>(o', s).
     rbind (Unserialize_u32 s) (\<lambda>(lock, s).
       Inr (UpdateHash H \<lparr>tx_hash = base_uint_zero 8, tx_nVersion = ver, vin = i, vout = o', nLockTime = lock\<rparr>, s)))))"

definition GetSerializeSize_CTransaction :: "CTransaction \<Rightarrow> nat" where
  "GetSerializeSize_CTransaction tx =
     4 + GetSerializeSize_vector (\<lambda>txin. 36 + GetSerializeSize_blob (scriptSig txin) + 4) (vin tx) +
     GetSerializeSize_vector (\<lambda>txout. 8 + GetSerializeSize_blob (scriptPubKey txout)) (vout tx) + 4"

section \<open>Operations\<close>

definition CTransaction_IsNull :: "CTransaction \<Rightarrow> bool" where
  "CTransaction_IsNull tx \<longleftrightarrow> vin tx = [] \<and> vout tx = []"

definition IsCoinBase :: "CTransaction \<Rightarrow> bool" where
  "IsCoinBase tx \<longleftrightarrow> length (vin tx) = 1 \<and> COutPoint_IsNull (prevout (vin tx ! 0))"

definition IsCoinStake :: "CTransaction \<Rightarrow> bool" where
  "IsCoinStake tx \<longleftrightarrow>
     length (vin tx) > 0 \<and> \<not> COutPoint_IsNull (prevout (vin tx ! 0)) \<and>
     length (vout tx) \<ge> 2 \<and> CTxOut_IsEmpty (vout tx ! 0)"

definition IsMasternodeReward :: "CTransaction \<Rightarrow> COutPoint \<Rightarrow> bool" where
  "IsMasternodeReward tx o' =
     (if \<not> IsCoinStake tx then False
      else unat (op_n o') = length (vout tx) - 1 \<and>
           scriptPubKey (vout tx ! 1) \<noteq> scriptPubKey (vout tx ! unat (op_n o')))"

datatype value_error = Value_negative | Value_wraps

fun GetValueOut_loop :: "CAmount \<Rightarrow> CTxOut list \<Rightarrow> value_error + CAmount" where
  "GetValueOut_loop nValueOut [] = Inr nValueOut"
| "GetValueOut_loop nValueOut (it # outs) =
     (if nValue it < 0 then Inl Value_negative
      else if wrap64 (nValueOut + nValue it) < nValueOut then Inl Value_wraps
      else GetValueOut_loop (wrap64 (nValueOut + nValue it)) outs)"

definition GetValueOut :: "CTransaction \<Rightarrow> value_error + CAmount" where
  "GetValueOut tx = GetValueOut_loop 0 (vout tx)"

text \<open>\<open>unsigned int\<close> arithmetic: the subtraction is guarded, so it never wraps.\<close>

fun modified_size_loop :: "u32 \<Rightarrow> CTxIn list \<Rightarrow> u32" where
  "modified_size_loop nTxSize [] = nTxSize"
| "modified_size_loop nTxSize (it # ins) =
     (let offset = 41 + min 110 (of_nat (length (scriptSig it)))
      in modified_size_loop (if nTxSize > offset then nTxSize - offset else nTxSize) ins)"

definition CalculateModifiedSize :: "CTransaction \<Rightarrow> u32 \<Rightarrow> u32" where
  "CalculateModifiedSize tx nTxSize =
     modified_size_loop (if nTxSize = 0 then of_nat (GetSerializeSize_CTransaction tx) else nTxSize) (vin tx)"

definition IsDust :: "CAmount \<Rightarrow> CTxOut \<Rightarrow> bool" where
  "IsDust minRelayTxFee txout \<longleftrightarrow>
     nValue txout < wrap64 (3 * GetFee minRelayTxFee (of_nat (8 + GetSerializeSize_blob (scriptPubKey txout) + 148)))"

section \<open>Codecs\<close>

definition valid_outpoint :: "COutPoint \<Rightarrow> bool" where
  "valid_outpoint o' \<longleftrightarrow> length (op_hash o') = 8"

definition valid_txin :: "CTxIn \<Rightarrow> bool" where
  "valid_txin txin \<longleftrightarrow> valid_outpoint (prevout txin) \<and> fits (scriptSig txin) \<and> prevPubKey txin = []"

definition valid_txout :: "CTxOut \<Rightarrow> bool" where
  "valid_txout txout \<longleftrightarrow> is_int64 (nValue txout) \<and> fits (scriptPubKey txout) \<and> nRounds txout = - 10"

definition valid_tx :: "(bytes \<Rightarrow> base_uint) \<Rightarrow> CTransaction \<Rightarrow> bool" where
  "valid_tx H tx \<longleftrightarrow> is_int32 (tx_nVersion tx) \<and> fits (vin tx) \<and> list_all valid_txin (vin tx) \<and>
     fits (vout tx) \<and> list_all valid_txout (vout tx) \<and> tx_hash tx = H (Serialize_CTransaction tx)"

interpretation outpoint: canonical_codec valid_outpoint Serialize_COutPoint Unserialize_COutPoint
proof unfold_locales
  fix x rest assume "valid_outpoint x"
  then show "Unserialize_COutPoint (Serialize_COutPoint x @ rest) = Inr (x, rest)"
    by (cases x) (simp add: Unserialize_COutPoint_def Serialize_COutPoint_def valid_outpoint_def limb256.dec_enc u32.dec_enc)
next
  fix s x rest assume "Unserialize_COutPoint s = Inr (x, rest)"
  then show "valid_outpoint x \<and> s = Serialize_COutPoint x @ rest"
    by (auto simp: Unserialize_COutPoint_def Serialize_COutPoint_def valid_outpoint_def result_iff limb256.dec_eq_iff u32.dec_eq_iff)
qed

interpretation txin: canonical_codec valid_txin Serialize_CTxIn Unserialize_CTxIn
proof unfold_locales
  fix x rest assume "valid_txin x"
  then show "Unserialize_CTxIn (Serialize_CTxIn x @ rest) = Inr (x, rest)"
    by (cases x) (simp add: Unserialize_CTxIn_def Serialize_CTxIn_def valid_txin_def outpoint.dec_enc blob.dec_enc u32.dec_enc)
next
  fix s x rest assume "Unserialize_CTxIn s = Inr (x, rest)"
  then show "valid_txin x \<and> s = Serialize_CTxIn x @ rest"
    by (auto simp: Unserialize_CTxIn_def Serialize_CTxIn_def valid_txin_def result_iff outpoint.dec_eq_iff blob.dec_eq_iff u32.dec_eq_iff)
qed

interpretation txout: canonical_codec valid_txout Serialize_CTxOut Unserialize_CTxOut
proof unfold_locales
  fix x rest assume "valid_txout x"
  then show "Unserialize_CTxOut (Serialize_CTxOut x @ rest) = Inr (x, rest)"
    by (cases x) (simp add: Unserialize_CTxOut_def Serialize_CTxOut_def valid_txout_def i64.dec_enc blob.dec_enc)
next
  fix s x rest assume "Unserialize_CTxOut s = Inr (x, rest)"
  then show "valid_txout x \<and> s = Serialize_CTxOut x @ rest"
    by (auto simp: Unserialize_CTxOut_def Serialize_CTxOut_def valid_txout_def result_iff i64.dec_eq_iff blob.dec_eq_iff)
qed

interpretation txins: canonical_codec "\<lambda>v. fits v \<and> list_all valid_txin v" "Serialize_vector Serialize_CTxIn"
    "Unserialize_vector 96 Unserialize_CTxIn"
  by (rule canonical_vector [OF txin.canonical_codec_axioms]) simp_all

interpretation txouts: canonical_codec "\<lambda>v. fits v \<and> list_all valid_txout v" "Serialize_vector Serialize_CTxOut"
    "Unserialize_vector 40 Unserialize_CTxOut"
  by (rule canonical_vector [OF txout.canonical_codec_axioms]) simp_all

lemma Serialize_UpdateHash [simp]: "Serialize_CTransaction (UpdateHash H tx) = Serialize_CTransaction tx"
  by (simp add: UpdateHash_def Serialize_CTransaction_def)

interpretation transaction: canonical_codec "valid_tx H" Serialize_CTransaction "Unserialize_CTransaction H" for H
proof unfold_locales
  fix x rest assume "valid_tx H x"
  moreover from this have "UpdateHash H \<lparr>tx_hash = base_uint_zero 8, tx_nVersion = tx_nVersion x, vin = vin x,
      vout = vout x, nLockTime = nLockTime x\<rparr> = x"
    by (cases x) (simp add: valid_tx_def UpdateHash_def Serialize_CTransaction_def)
  ultimately show "Unserialize_CTransaction H (Serialize_CTransaction x @ rest) = Inr (x, rest)"
    by (simp add: Unserialize_CTransaction_def Serialize_CTransaction_def valid_tx_def i32.dec_enc txins.dec_enc
        txouts.dec_enc u32.dec_enc)
next
  fix s x rest assume "Unserialize_CTransaction H s = Inr (x, rest)"
  then obtain ver i o' lock where x: "x = UpdateHash H \<lparr>tx_hash = base_uint_zero 8, tx_nVersion = ver, vin = i, vout = o', nLockTime = lock\<rparr>"
    and ok: "is_int32 ver" "fits i" "list_all valid_txin i" "fits o'" "list_all valid_txout o'"
    and s: "s = Serialize_i32 ver @ Serialize_vector Serialize_CTxIn i @ Serialize_vector Serialize_CTxOut o' @ Serialize_u32 lock @ rest"
    by (auto simp: Unserialize_CTransaction_def result_iff i32.dec_eq_iff txins.dec_eq_iff txouts.dec_eq_iff u32.dec_eq_iff)
  then show "valid_tx H x \<and> s = Serialize_CTransaction x @ rest"
    by (simp add: valid_tx_def UpdateHash_def Serialize_CTransaction_def)
qed

lemma length_Serialize_uint: "length (Serialize_uint pn) = 4 * length pn"
  by (induction pn) (simp_all add: Serialize_uint_def Serialize_u32_def)

lemma length_Serialize_blob: "length (Serialize_blob v) = GetSerializeSize_blob v"
  by (simp add: Serialize_blob_def GetSerializeSize_blob_def length_WriteCompactSize)

lemma GetSerializeSize_CTransaction_eq:
  assumes "list_all (\<lambda>txin. length (op_hash (prevout txin)) = 8) (vin tx)"
  shows "GetSerializeSize_CTransaction tx = length (Serialize_CTransaction tx)"
proof -
  have ins: "map (\<lambda>txin. 36 + GetSerializeSize_blob (scriptSig txin) + 4) (vin tx) =
      map (\<lambda>txin. length (Serialize_CTxIn txin)) (vin tx)"
    using assms by (auto simp: list_all_iff Serialize_CTxIn_def Serialize_COutPoint_def length_Serialize_uint
        length_Serialize_blob Serialize_u32_def)
  have "GetSerializeSize_vector f v = GetSerializeSize_vector g v" if "map f v = map g v" for f g :: "'x \<Rightarrow> nat" and v
    using that unfolding GetSerializeSize_vector_def by (intro fold_cong) auto
  from this [OF ins] show ?thesis
    using GetSerializeSize_vector_length [of Serialize_CTxIn "vin tx"] GetSerializeSize_vector_length [of Serialize_CTxOut "vout tx"]
    by (simp add: GetSerializeSize_CTransaction_def Serialize_CTransaction_def Serialize_i32_def Serialize_u32_def
        Serialize_CTxOut_def Serialize_i64_def Serialize_u64_def length_Serialize_blob)
qed

section \<open>Amounts\<close>

lemma wrap64_id: "is_int64 x \<Longrightarrow> wrap64 x = x"
  by (simp add: wrap64_def is_int64_def signed_of_int signed_take_bit_int_eq_self)

lemma wrap64_overflow:
  assumes "2 ^ 63 \<le> x" and "x < 2 ^ 64"
  shows "wrap64 x = x - 2 ^ 64"
proof -
  have "(of_int x :: u64) = of_int (x - 2 ^ 64)" by simp
  then have "wrap64 x = wrap64 (x - 2 ^ 64)" by (simp only: wrap64_def)
  then show ?thesis using assms wrap64_id [of "x - 2 ^ 64"] by (simp add: is_int64_def)
qed

lemma wrap64_less_iff:
  assumes "0 \<le> a" "a < 2 ^ 63" "0 \<le> b" "b < 2 ^ 63"
  shows "wrap64 (a + b) < a \<longleftrightarrow> 2 ^ 63 \<le> a + b"
  using assms wrap64_id [of "a + b"] wrap64_overflow [of "a + b"]
  by (cases "2 ^ 63 \<le> a + b") (simp_all add: is_int64_def)

lemma GetValueOut_loop_iff:
  assumes "0 \<le> acc" "acc < 2 ^ 63" "\<forall>o' \<in> set outs. nValue o' < 2 ^ 63"
  shows "GetValueOut_loop acc outs = Inr v \<longleftrightarrow>
    (\<forall>o' \<in> set outs. 0 \<le> nValue o') \<and> acc + sum_list (map nValue outs) < 2 ^ 63 \<and> v = acc + sum_list (map nValue outs)"
  using assms
proof (induction outs arbitrary: acc)
  case (Cons x outs)
  show ?case
  proof (cases "0 \<le> nValue x \<and> acc + nValue x < 2 ^ 63")
    case True
    then have "wrap64 (acc + nValue x) = acc + nValue x" using Cons.prems by (intro wrap64_id) (simp add: is_int64_def)
    with True Cons show ?thesis by (auto simp: add.assoc)
  next
    case False
    have "sum_list (map nValue outs) \<ge> 0" if "\<forall>o' \<in> set outs. 0 \<le> nValue o'"
      using that by (intro sum_list_nonneg) auto
    with False Cons.prems wrap64_less_iff [of acc "nValue x"] show ?thesis by auto
  qed
qed auto

lemma GetFee_value:
  assumes "0 \<le> r" and "r * int (unat nSize) < 2 ^ 63"
  shows "GetFee r nSize = (let fee = r * int (unat nSize) div 1000 in if fee = 0 then r else fee)"
proof (cases "r = 0")
  case False
  define p where "p = (of_int r * nSize :: u64)"
  have "uint p = r * int (unat nSize) mod 2 ^ 64"
    by (simp add: p_def uint_word_ariths unsigned_of_int take_bit_eq_mod mod_mult_left_eq)
  then have p: "uint p = r * int (unat nSize)" using assms by (simp add: mod_pos_pos_trivial)
  then have "uint (p div 1000) = r * int (unat nSize) div 1000" by (simp add: uint_div_distrib)
  moreover have "r * int (unat nSize) div 1000 < 2 ^ 63"
    using assms(2) by (simp add: div_less_iff_less_mult mult.commute)
  moreover have "0 \<le> r * int (unat nSize) div 1000"
    using assms(1) by (simp add: pos_imp_zdiv_nonneg_iff)
  ultimately have "sint (p div 1000) = r * int (unat nSize) div 1000"
    using signed_take_bit_int_eq_self [of 63 "r * int (unat nSize) div 1000"] by (simp add: sint_uint)
  with False assms(1) show ?thesis by (simp add: GetFee_def p_def [symmetric] Let_def)
qed (simp add: GetFee_def)

section \<open>Properties of transactions\<close>

text \<open>
  C32: transactions on the wire.  Reading accepts exactly the bytes that writing a well-formed
  transaction produces, whatever follows them, and recomputes the cached hash; two well-formed
  transactions with the same bytes are equal, so the hash commits to the whole transaction; and
  \<open>GetSerializeSize\<close> is the number of bytes written.
\<close>

theorem transaction_canonical:
  "(Unserialize_CTransaction H s = Inr (tx, rest) \<longleftrightarrow> valid_tx H tx \<and> s = Serialize_CTransaction tx @ rest) \<and>
   (valid_tx H tx \<longrightarrow> valid_tx H tx' \<longrightarrow> Serialize_CTransaction tx = Serialize_CTransaction tx' \<longrightarrow> tx = tx') \<and>
   (valid_tx H tx \<longrightarrow> GetSerializeSize_CTransaction tx = length (Serialize_CTransaction tx))"
  using transaction.dec_eq_iff transaction.enc_inject [of H tx tx']
    GetSerializeSize_CTransaction_eq [of tx]
  by (auto simp: valid_tx_def valid_txin_def valid_outpoint_def list_all_iff)

definition sample_tx :: CTransaction where
  "sample_tx = UpdateHash (\<lambda>s. base_uint_u64 8 (of_nat (length s)))
     \<lparr>tx_hash = base_uint_zero 8, tx_nVersion = 1,
      vin = [\<lparr>prevout = COutPoint_null, scriptSig = [1, 2], nSequence = 0, prevPubKey = []\<rparr>],
      vout = [CTxOut_new 50 [0x51]], nLockTime = 0\<rparr>"

lemma sample_tx_valid: "valid_tx (\<lambda>s. base_uint_u64 8 (of_nat (length s))) sample_tx"
  unfolding valid_tx_def
  by (simp add: sample_tx_def UpdateHash_def fits_def valid_txin_def valid_txout_def valid_outpoint_def COutPoint_null_def
      base_uint_zero_def CTxOut_new_def is_int64_def is_int32_def Serialize_CTransaction_def)

theorem transaction_canonical_witness:
  "Unserialize_CTransaction (\<lambda>s. base_uint_u64 8 (of_nat (length s))) (Serialize_CTransaction sample_tx @ [9]) =
     Inr (sample_tx, [9]) \<and>
   GetSerializeSize_CTransaction sample_tx = length (Serialize_CTransaction sample_tx)"
  using transaction_canonical [of "\<lambda>s. base_uint_u64 8 (of_nat (length s))"
      "Serialize_CTransaction sample_tx @ [9]" sample_tx "[9]" sample_tx] sample_tx_valid
  by simp

text \<open>
  The value of a transaction.  For outputs that hold 64-bit amounts, \<open>GetValueOut\<close> returns the
  exact sum when every amount is non-negative and the sum fits in 63 bits, and throws in every other
  case: the wrap-around test misses no overflow.
\<close>

theorem GetValueOut_exact:
  assumes "\<forall>o' \<in> set (vout tx). is_int64 (nValue o')"
  shows "GetValueOut tx = Inr v \<longleftrightarrow>
    (\<forall>o' \<in> set (vout tx). 0 \<le> nValue o') \<and> sum_list (map nValue (vout tx)) < 2 ^ 63 \<and>
    v = sum_list (map nValue (vout tx))"
  using GetValueOut_loop_iff [of 0 "vout tx" v] assms by (simp add: GetValueOut_def is_int64_def)

theorem GetValueOut_exact_witness: "GetValueOut sample_tx = Inr 50"
  using GetValueOut_exact [of sample_tx 50] by (simp add: sample_tx_def UpdateHash_def CTxOut_new_def is_int64_def)

end
