(* ===== verification/Chain.thy ===== *)
theory Chain
  imports Transaction
begin

text \<open>
  The block tree and the active chain: \<^verbatim>\<open>src/src/chain.h\<close>, \<^verbatim>\<open>src/src/chain.cpp\<close>
  and the skip-list part of \<^verbatim>\<open>src/src/main.cpp\<close>.  Index entries live in a store that maps
  pointers to \<open>CBlockIndex\<close> objects; \<open>pprev\<close> and \<open>pskip\<close> are pointers, \<open>None\<close> is
  \<open>NULL\<close>.  Following a pointer that is \<open>NULL\<close> or dangling is undefined in the sources; the loops
  here then return \<open>None\<close>, and the properties below show that in a well-formed store it does not
  happen.
\<close>

type_synonym ptr = nat

record CBlockIndex =
  phashBlock :: base_uint
  pprev :: "ptr option"
  pnext :: "ptr option"
  pskip :: "ptr option"
  bnChainTrust :: base_uint
  nHeight :: int
  nFile :: int
  nDataPos :: u32
  nUndoPos :: u32
  nChainWork :: base_uint
  nTx :: u32
  nChainTx :: u32
  nStatus :: u32
  nFlags :: u32
  nStakeModifier :: u64
  nStakeModifierChecksum :: u32
  prevoutStake :: COutPoint
  nStakeTime :: u32
  hashProofOfStake :: base_uint
  nMint :: int
  nMoneySupply :: int
  nVersion :: int
  hashMerkleRoot :: base_uint
  nTime :: u32
  nBits :: u32
  nNonce :: u32
  nSequenceId :: u32

type_synonym block_store = "ptr \<Rightarrow> CBlockIndex option"

abbreviation BLOCK_PROOF_OF_STAKE :: u32 where "BLOCK_PROOF_OF_STAKE \<equiv> 1"
abbreviation BLOCK_STAKE_ENTROPY :: u32 where "BLOCK_STAKE_ENTROPY \<equiv> 2"
abbreviation BLOCK_STAKE_MODIFIER :: u32 where "BLOCK_STAKE_MODIFIER \<equiv> 4"

section \<open>Index entries\<close>

text \<open>The object the default constructor makes (\<open>SetNull\<close>; the members it leaves out are
  default-constructed 256-bit zeros, and \<open>pnext\<close>, which it leaves unset, is \<open>NULL\<close> here).\<close>

definition CBlockIndex_SetNull :: CBlockIndex where
  "CBlockIndex_SetNull =
     \<lparr>phashBlock = base_uint_zero 8, pprev = None, pnext = None, pskip = None, bnChainTrust = base_uint_zero 8,
      nHeight = 0, nFile = 0, nDataPos = 0, nUndoPos = 0, nChainWork = base_uint_zero 8, nTx = 0, nChainTx = 0,
      nStatus = 0, nFlags = 0, nStakeModifier = 0, nStakeModifierChecksum = 0, prevoutStake = COutPoint_null,
      nStakeTime = 0, hashProofOfStake = base_uint_zero 8, nMint = 0, nMoneySupply = 0, nVersion = 0,
      hashMerkleRoot = base_uint_zero 8, nTime = 0, nBits = 0, nNonce = 0, nSequenceId = 0\<rparr>"

definition GetBlockTime :: "CBlockIndex \<Rightarrow> int" where
  "GetBlockTime b = int (unat (nTime b))"

definition IsProofOfStake :: "CBlockIndex \<Rightarrow> bool" where
  "IsProofOfStake b \<longleftrightarrow> nFlags b AND BLOCK_PROOF_OF_STAKE \<noteq> 0"

definition SetProofOfStake :: "CBlockIndex \<Rightarrow> CBlockIndex" where
  "SetProofOfStake b = b\<lparr>nFlags := nFlags b OR BLOCK_PROOF_OF_STAKE\<rparr>"

definition GetStakeEntropyBit :: "CBlockIndex \<Rightarrow> u32" where
  "GetStakeEntropyBit b = ucast (Get64 (phashBlock b) 0 AND 1)"

definition SetStakeEntropyBit :: "u32 \<Rightarrow> CBlockIndex \<Rightarrow> bool \<times> CBlockIndex" where
  "SetStakeEntropyBit nEntropyBit b =
     (if nEntropyBit > 1 then (False, b)
      else (True, b\<lparr>nFlags := nFlags b OR (if nEntropyBit \<noteq> 0 then BLOCK_STAKE_ENTROPY else 0)\<rparr>))"

definition GeneratedStakeModifier :: "CBlockIndex \<Rightarrow> bool" where
  "GeneratedStakeModifier b \<longleftrightarrow> nFlags b AND BLOCK_STAKE_MODIFIER \<noteq> 0"

definition SetStakeModifier :: "u64 \<Rightarrow> bool \<Rightarrow> CBlockIndex \<Rightarrow> CBlockIndex" where
  "SetStakeModifier nModifier fGenerated b =
     (let b1 = b\<lparr>nStakeModifier := nModifier\<rparr>
      in if fGenerated then b1\<lparr>nFlags := nFlags b1 OR BLOCK_STAKE_MODIFIER\<rparr> else b1)"

abbreviation BLOCK_VALID_MASK :: u32 where "BLOCK_VALID_MASK \<equiv> 7"
abbreviation BLOCK_FAILED_MASK :: u32 where "BLOCK_FAILED_MASK \<equiv> 96"

text \<open>\<open>None\<close> when the assertion on the requested level fails.\<close>

definition IsValid :: "u32 \<Rightarrow> CBlockIndex \<Rightarrow> bool option" where
  "IsValid nUpTo b =
     (if nUpTo AND NOT BLOCK_VALID_MASK \<noteq> 0 then None
      else if nStatus b AND BLOCK_FAILED_MASK \<noteq> 0 then Some False
      else Some (nUpTo \<le> nStatus b AND BLOCK_VALID_MASK))"

definition RaiseValidity :: "u32 \<Rightarrow> CBlockIndex \<Rightarrow> (bool \<times> CBlockIndex) option" where
  "RaiseValidity nUpTo b =
     (if nUpTo AND NOT BLOCK_VALID_MASK \<noteq> 0 then None
      else if nStatus b AND BLOCK_FAILED_MASK \<noteq> 0 then Some (False, b)
      else if nStatus b AND BLOCK_VALID_MASK < nUpTo
      then Some (True, b\<lparr>nStatus := (nStatus b AND NOT BLOCK_VALID_MASK) OR nUpTo\<rparr>)
      else Some (False, b))"

text \<open>The loop of \<open>GetMedianTimePast\<close> collects the times of at most \<open>nMedianTimeSpan\<close> blocks;
  then they are sorted and the middle one is returned.\<close>

fun past_times :: "block_store \<Rightarrow> nat \<Rightarrow> ptr option \<Rightarrow> int list" where
  "past_times st 0 pindex = []"
| "past_times st (Suc n) None = []"
| "past_times st (Suc n) (Some p) =
     (case st p of None \<Rightarrow> [] | Some b \<Rightarrow> GetBlockTime b # past_times st n (pprev b))"

definition nMedianTimeSpan :: nat where
  "nMedianTimeSpan = 11"

definition GetMedianTimePast :: "block_store \<Rightarrow> ptr \<Rightarrow> int" where
  "GetMedianTimePast st p =
     (let pmedian = sort (past_times st nMedianTimeSpan (Some p)) in pmedian ! (length pmedian div 2))"

text \<open>\<open>CBlockIndex::GetBlockTrust\<close>; the comparison \<open>bnTarget <= 0\<close> is \<open>CompareTo\<close> with 0.\<close>

definition GetBlockTrust :: "CBlockIndex \<Rightarrow> uint_error + base_uint" where
  "GetBlockTrust b =
     (let bnTarget = fst (SetCompact (nBits b))
      in if CompareTo bnTarget (base_uint_u64 8 0) \<le> 0 then Inr (base_uint_u64 8 0)
         else if IsProofOfStake b
         then uint_div (uint_shl (base_uint_u64 8 1) 256) (uint_add bnTarget (base_uint_u64 8 1))
         else rbind (uint_div (uint_shr (uint_not (base_uint_u64 8 0)) 20)
                       (uint_add bnTarget (base_uint_u64 8 1)))
                (\<lambda>bnPoWTrust. Inr (if CompareTo bnPoWTrust (base_uint_u64 8 1) > 0
                                   then bnPoWTrust else base_uint_u64 8 1)))"

section \<open>The skip list\<close>

definition InvertLowestOne :: "int \<Rightarrow> int" where
  "InvertLowestOne n = n AND (n - 1)"

definition GetSkipHeight :: "int \<Rightarrow> int" where
  "GetSkipHeight height =
     (if height < 2 then 0
      else if height AND 1 \<noteq> 0 then InvertLowestOne (InvertLowestOne (height - 1)) + 1
      else InvertLowestOne height)"

lemma InvertLowestOne_bounds: "0 < n \<Longrightarrow> 0 \<le> InvertLowestOne n \<and> InvertLowestOne n < n"
proof -
  assume n: "0 < n"
  have "n AND (n - 1) \<le> n - 1"
    using n by (simp add: AND_upper2)
  with n show ?thesis by (simp add: InvertLowestOne_def)
qed

lemma GetSkipHeight_bounds: "0 < height \<Longrightarrow> 0 \<le> GetSkipHeight height \<and> GetSkipHeight height < height"
proof -
  assume h: "0 < height"
  consider "height < 2" | "2 \<le> height" "height AND 1 \<noteq> 0" | "2 \<le> height" "height AND 1 = 0" by linarith
  then show ?thesis
  proof cases
    case 2
    define x where "x = InvertLowestOne (height - 1)"
    have x: "0 \<le> x" "x < height - 1"
      using 2(1) InvertLowestOne_bounds [of "height - 1"] by (simp_all add: x_def)
    have "0 \<le> InvertLowestOne x \<and> InvertLowestOne x \<le> x"
      using x(1) InvertLowestOne_bounds [of x] by (cases "x = 0") (auto simp: InvertLowestOne_def)
    with 2 x show ?thesis
      by (simp add: GetSkipHeight_def x_def [symmetric])
  qed (use h InvertLowestOne_bounds [of height] in \<open>simp_all add: GetSkipHeight_def\<close>)
qed

lemma GetSkipHeight_less: "0 \<le> h \<Longrightarrow> h < height \<Longrightarrow> GetSkipHeight height < height"
  using GetSkipHeight_bounds [of height] by simp

text \<open>The loop of \<open>GetAncestor\<close>; \<open>heightWalk\<close> decreases, so it ends in every store.  Its caller
  has excluded negative heights (the loop would never reach one), which the guard records.\<close>

function GetAncestor_loop :: "block_store \<Rightarrow> int \<Rightarrow> ptr option \<Rightarrow> int \<Rightarrow> ptr option" where
  "GetAncestor_loop st height pindexWalk heightWalk =
     (if heightWalk > height \<and> 0 \<le> height then
        (let heightSkip = GetSkipHeight heightWalk;
             heightSkipPrev = GetSkipHeight (heightWalk - 1);
             entry = Option.bind pindexWalk st
         in if heightSkip = height \<or>
               (heightSkip > height \<and> \<not> (heightSkipPrev < heightSkip - 2 \<and> heightSkipPrev \<ge> height))
            then GetAncestor_loop st height (Option.bind entry pskip) heightSkip
            else GetAncestor_loop st height (Option.bind entry pprev) (heightWalk - 1))
      else pindexWalk)"
  by pat_completeness auto
termination
  by (relation "measure (\<lambda>(st, height, p, heightWalk). nat heightWalk)")
    (auto intro: GetSkipHeight_less)

declare GetAncestor_loop.simps [simp del]

definition GetAncestor :: "block_store \<Rightarrow> ptr \<Rightarrow> int \<Rightarrow> ptr option" where
  "GetAncestor st this height =
     (case st this of
        None \<Rightarrow> None
      | Some b \<Rightarrow>
          if height > nHeight b \<or> height < 0 then None
          else GetAncestor_loop st height (Some this) (nHeight b))"

definition BuildSkip :: "block_store \<Rightarrow> CBlockIndex \<Rightarrow> CBlockIndex" where
  "BuildSkip st b =
     (case pprev b of
        None \<Rightarrow> b
      | Some q \<Rightarrow> b\<lparr>pskip := GetAncestor st q (GetSkipHeight (nHeight b))\<rparr>)"

subsection \<open>Ancestors, the reference\<close>

text \<open>The \<open>n\<close>th predecessor, by following \<open>pprev\<close> only.\<close>

fun nth_prev :: "block_store \<Rightarrow> nat \<Rightarrow> ptr \<Rightarrow> ptr option" where
  "nth_prev st 0 p = Some p"
| "nth_prev st (Suc n) p = Option.bind (Option.bind (st p) pprev) (nth_prev st n)"

definition ancestor_at :: "block_store \<Rightarrow> ptr \<Rightarrow> int \<Rightarrow> ptr option" where
  "ancestor_at st p h =
     (case st p of None \<Rightarrow> None | Some b \<Rightarrow> if h > nHeight b \<or> h < 0 then None
        else nth_prev st (nat (nHeight b - h)) p)"

definition wf_tree :: "block_store \<Rightarrow> bool" where
  "wf_tree st \<longleftrightarrow> (\<forall>p b. st p = Some b \<longrightarrow>
     (case pprev b of
        None \<Rightarrow> nHeight b = 0
      | Some q \<Rightarrow> 0 < nHeight b \<and> (\<exists>b'. st q = Some b' \<and> nHeight b = nHeight b' + 1)))"

definition wf_skip :: "block_store \<Rightarrow> bool" where
  "wf_skip st \<longleftrightarrow> (\<forall>p b. st p = Some b \<longrightarrow> pprev b \<noteq> None \<longrightarrow>
     pskip b = ancestor_at st p (GetSkipHeight (nHeight b)))"

lemma wf_treeD:
  assumes "wf_tree st" and "st p = Some b"
  shows "0 \<le> nHeight b" and "pprev b = None \<longleftrightarrow> nHeight b = 0"
    and "pprev b = Some q \<Longrightarrow> \<exists>b'. st q = Some b' \<and> nHeight b = nHeight b' + 1"
proof -
  from assms have wf: "case pprev b of None \<Rightarrow> nHeight b = 0
      | Some q \<Rightarrow> 0 < nHeight b \<and> (\<exists>b'. st q = Some b' \<and> nHeight b = nHeight b' + 1)"
    unfolding wf_tree_def by blast
  then show "0 \<le> nHeight b" and "pprev b = None \<longleftrightarrow> nHeight b = 0"
    by (auto split: option.splits)
  from wf show "\<exists>b'. st q = Some b' \<and> nHeight b = nHeight b' + 1" if "pprev b = Some q"
    using that by simp
qed

lemma nth_prev_add:
  "nth_prev st (m + n) p = Option.bind (nth_prev st m p) (nth_prev st n)"
proof (induction m arbitrary: p)
  case (Suc m)
  then show ?case by (cases "Option.bind (st p) pprev") simp_all
qed simp

lemma nth_prev_exists:
  assumes "wf_tree st"
  shows "st p = Some b \<Longrightarrow> int n \<le> nHeight b \<Longrightarrow>
    \<exists>q b'. nth_prev st n p = Some q \<and> st q = Some b' \<and> nHeight b' = nHeight b - int n"
proof (induction n arbitrary: p b)
  case 0
  then show ?case by simp
next
  case (Suc n)
  then have "pprev b \<noteq> None" using wf_treeD(2) [OF assms Suc.prems(1)] by auto
  then obtain q b' where "pprev b = Some q" "st q = Some b'" "nHeight b = nHeight b' + 1"
    using wf_treeD(3) [OF assms Suc.prems(1)] by blast
  with Suc.IH [of q b'] Suc.prems show ?case by simp
qed

lemma ancestor_at_exists:
  assumes "wf_tree st" and "st p = Some b" and "0 \<le> h" and "h \<le> nHeight b"
  shows "\<exists>q b'. ancestor_at st p h = Some q \<and> st q = Some b' \<and> nHeight b' = h"
  using nth_prev_exists [OF assms(1,2), of "nat (nHeight b - h)"] assms(2-4)
  by (auto simp: ancestor_at_def)

lemma ancestor_at_trans:
  assumes "wf_tree st" and "st p = Some b" and "ancestor_at st p h = Some q"
    and "0 \<le> k" and "k \<le> h"
  shows "ancestor_at st q k = ancestor_at st p k"
proof -
  have h: "0 \<le> h" "h \<le> nHeight b"
    using assms(2,3) by (auto simp: ancestor_at_def split: if_splits)
  obtain b' where q: "st q = Some b'" "nHeight b' = h"
    using ancestor_at_exists [OF assms(1,2) h] assms(3) by auto
  have "nat (nHeight b - k) = nat (nHeight b - h) + nat (h - k)"
    using h assms(4,5) by simp
  then show ?thesis
    using assms h q by (simp add: ancestor_at_def nth_prev_add)
qed

lemma ancestor_at_self: "st p = Some b \<Longrightarrow> 0 \<le> nHeight b \<Longrightarrow> ancestor_at st p (nHeight b) = Some p"
  by (simp add: ancestor_at_def)

lemma pprev_ancestor_at:
  assumes "wf_tree st" and "st p = Some b" and "0 < nHeight b"
  shows "pprev b = ancestor_at st p (nHeight b - 1)"
proof -
  have "pprev b \<noteq> None" using wf_treeD(2) [OF assms(1,2)] assms(3) by simp
  then show ?thesis using assms by (auto simp: ancestor_at_def)
qed

lemma GetAncestor_loop_correct:
  "wf_tree st \<Longrightarrow> wf_skip st \<Longrightarrow> 0 \<le> h \<Longrightarrow> p = Some q \<Longrightarrow> st q = Some b \<Longrightarrow> w = nHeight b \<Longrightarrow> h \<le> w \<Longrightarrow>
    GetAncestor_loop st h p w = ancestor_at st q h"
proof (induction st h p w arbitrary: q b rule: GetAncestor_loop.induct)
  case (1 st h p w)
  note prems = "1.prems"
  show ?case
  proof (cases "h < w")
    case False
    with prems have "h = w" by simp
    with prems False show ?thesis by (subst GetAncestor_loop.simps) (simp add: ancestor_at_self)
  next
    case True
    let ?jump = "GetSkipHeight w = h \<or>
      (GetSkipHeight w > h \<and> \<not> (GetSkipHeight (w - 1) < GetSkipHeight w - 2 \<and> GetSkipHeight (w - 1) \<ge> h))"
    have pos: "0 < w" using True prems(3) by simp
    have step: "GetAncestor_loop st h r k = ancestor_at st q h"
      if IH: "\<And>q b. wf_tree st \<Longrightarrow> wf_skip st \<Longrightarrow> 0 \<le> h \<Longrightarrow> r = Some q \<Longrightarrow>
          st q = Some b \<Longrightarrow> k = nHeight b \<Longrightarrow> h \<le> k \<Longrightarrow> GetAncestor_loop st h r k = ancestor_at st q h"
        and r: "r = ancestor_at st q k" and k: "h \<le> k" "k < w" for k r
    proof -
      obtain q' b' where q': "ancestor_at st q k = Some q'" "st q' = Some b'" "nHeight b' = k"
        using ancestor_at_exists [OF prems(1,5), of k] k prems by auto
      have "GetAncestor_loop st h r k = ancestor_at st q' h"
        using r q'(1) by (intro IH [OF prems(1-3) _ q'(2) q'(3) [symmetric] k(1)]) simp
      also have "\<dots> = ancestor_at st q h"
        using ancestor_at_trans [OF prems(1,5) q'(1) prems(3) k(1)] .
      finally show ?thesis .
    qed
    have entry: "Option.bind (Option.bind p st) f = f b" for f :: "CBlockIndex \<Rightarrow> ptr option"
      using prems by simp
    have skip: "pskip b = ancestor_at st q (GetSkipHeight w)" and prev: "pprev b = ancestor_at st q (w - 1)"
      using prems pos wf_treeD(2) [OF prems(1,5)] pprev_ancestor_at [OF prems(1,5)]
      by (auto simp: wf_skip_def)
    have guard: "w > h \<and> 0 \<le> h" using True prems(3) by simp
    show ?thesis
    proof (cases ?jump)
      case jump: True
      have "GetAncestor_loop st h p w =
          GetAncestor_loop st h (Option.bind (Option.bind p st) pskip) (GetSkipHeight w)"
        by (subst GetAncestor_loop.simps) (simp only: Let_def guard jump if_True simp_thms)
      also have "\<dots> = ancestor_at st q h"
        using jump GetSkipHeight_less [OF prems(3) True]
        by (intro step [OF "1.IH"(1) [OF guard refl refl refl jump] trans [OF entry [of pskip] skip]]) auto
      finally show ?thesis .
    next
      case step1: False
      have "GetAncestor_loop st h p w =
          GetAncestor_loop st h (Option.bind (Option.bind p st) pprev) (w - 1)"
        by (subst GetAncestor_loop.simps) (simp only: Let_def guard step1 if_True if_False simp_thms)
      also have "\<dots> = ancestor_at st q h"
        using True
        by (intro step [OF "1.IH"(2) [OF guard refl refl refl step1] trans [OF entry [of pprev] prev]]) simp_all
      finally show ?thesis .
    qed
  qed
qed

lemma GetAncestor_eq_ancestor_at:
  assumes "wf_tree st" and "wf_skip st"
  shows "GetAncestor st p h = ancestor_at st p h"
proof (cases "st p")
  case (Some b)
  show ?thesis
  proof (cases "h > nHeight b \<or> h < 0")
    case False
    then have "GetAncestor st p h = GetAncestor_loop st h (Some p) (nHeight b)"
      using Some by (simp add: GetAncestor_def)
    also have "\<dots> = ancestor_at st p h"
      using False by (intro GetAncestor_loop_correct [OF assms _ refl Some refl]) simp_all
    finally show ?thesis .
  qed (use Some in \<open>simp add: GetAncestor_def ancestor_at_def\<close>)
qed (simp add: GetAncestor_def ancestor_at_def)

text \<open>Adding an entry whose predecessor is already stored, as \<open>AddToBlockIndex\<close> does.\<close>

lemma nth_prev_add_entry:
  assumes "wf_tree st" and "st p = None" and "q \<noteq> p" and "st q = Some b"
  shows "int n \<le> nHeight b \<Longrightarrow> nth_prev (st(p \<mapsto> e)) n q = nth_prev st n q"
  using assms(3,4)
proof (induction n arbitrary: q b)
  case (Suc n)
  show ?case
  proof (cases "pprev b")
    case (Some r)
    then obtain b' where "st r = Some b'" "nHeight b = nHeight b' + 1"
      using wf_treeD(3) [OF assms(1) Suc.prems(3)] by blast
    with Suc Some assms(2) show ?thesis by (cases "r = p") auto
  qed (use Suc.prems in simp)
qed simp

lemma ancestor_at_add_entry:
  assumes "wf_tree st" and "st p = None" and "q \<noteq> p"
  shows "ancestor_at (st(p \<mapsto> e)) q h = ancestor_at st q h"
proof (cases "st q")
  case (Some b)
  then have "nth_prev (st(p \<mapsto> e)) (nat (nHeight b - h)) q = nth_prev st (nat (nHeight b - h)) q"
    if "0 \<le> h" "h \<le> nHeight b"
    using that nth_prev_add_entry [OF assms Some] by simp
  with Some assms(3) show ?thesis by (auto simp: ancestor_at_def)
qed (use assms in \<open>simp add: ancestor_at_def\<close>)

lemma wf_tree_add_entry:
  assumes "wf_tree st" and "st p = None" and "case pprev e of None \<Rightarrow> nHeight e = 0
      | Some q \<Rightarrow> \<exists>b. st q = Some b \<and> nHeight e = nHeight b + 1"
  shows "wf_tree (st(p \<mapsto> e))"
proof -
  have old: "r \<noteq> p" if "st r = Some b" for r b using that assms(2) by auto
  have "case pprev b of None \<Rightarrow> nHeight b = 0
      | Some q \<Rightarrow> 0 < nHeight b \<and> (\<exists>b'. (st(p \<mapsto> e)) q = Some b' \<and> nHeight b = nHeight b' + 1)"
    if "(st(p \<mapsto> e)) r = Some b" for r b
  proof (cases "r = p")
    case True
    with that assms(3) old wf_treeD(1) [OF assms(1)] show ?thesis
      by (fastforce split: option.splits)
  next
    case False
    with that have b: "st r = Some b" by simp
    show ?thesis
      using wf_treeD(1,2,3) [OF assms(1) b] old by (fastforce split: option.split)
  qed
  then show ?thesis unfolding wf_tree_def by blast
qed

lemma wf_skip_add_entry:
  assumes "wf_tree st" and "wf_skip st" and "st p = None" and "wf_tree (st(p \<mapsto> e))"
    and "\<And>q. pprev e = Some q \<Longrightarrow> pskip e = ancestor_at st q (GetSkipHeight (nHeight e))"
  shows "wf_skip (st(p \<mapsto> e))"
  unfolding wf_skip_def
proof (intro allI impI)
  fix r b assume r: "(st(p \<mapsto> e)) r = Some b" and prev: "pprev b \<noteq> None"
  show "pskip b = ancestor_at (st(p \<mapsto> e)) r (GetSkipHeight (nHeight b))"
  proof (cases "r = p")
    case False
    with r have "st r = Some b" by simp
    then have "pskip b = ancestor_at st r (GetSkipHeight (nHeight b))"
      using assms(2) prev unfolding wf_skip_def by blast
    then show ?thesis using ancestor_at_add_entry [OF assms(1,3) False] by simp
  next
    case True
    with r have b: "b = e" by simp
    with prev obtain q where q: "pprev e = Some q" by blast
    have e: "(st(p \<mapsto> e)) p = Some e" by simp
    obtain b' where b': "(st(p \<mapsto> e)) q = Some b'" "nHeight e = nHeight b' + 1"
      using wf_treeD(3) [OF assms(4) e q] by blast
    then have "q \<noteq> p" by auto
    have pos: "0 < nHeight e" using wf_treeD(1) [OF assms(4) b'(1)] b'(2) by simp
    then have "ancestor_at (st(p \<mapsto> e)) p (nHeight e - 1) = Some q"
      using pprev_ancestor_at [OF assms(4) e] q by metis
    from ancestor_at_trans [OF assms(4) e this, of "GetSkipHeight (nHeight e)"]
    have "ancestor_at (st(p \<mapsto> e)) p (GetSkipHeight (nHeight e)) = ancestor_at st q (GetSkipHeight (nHeight e))"
      using GetSkipHeight_bounds [OF pos] ancestor_at_add_entry [OF assms(1,3) \<open>q \<noteq> p\<close>] by simp
    then show ?thesis using True b assms(5) [OF q] by simp
  qed
qed

section \<open>The active chain\<close>

text \<open>\<open>vChain\<close> is the vector of the class; \<open>resize\<close> fills with \<open>NULL\<close>.\<close>

type_synonym CChain = "ptr option list"

definition Genesis :: "CChain \<Rightarrow> ptr option" where
  "Genesis vChain = (if length vChain > 0 then vChain ! 0 else None)"

text \<open>The walk of \<open>Tip(true)\<close> back to the last proof-of-stake block.\<close>

partial_function (option) Tip_loop :: "block_store \<Rightarrow> ptr option \<Rightarrow> ptr option option" where
  "Tip_loop st pindex =
     (case pindex of
        None \<Rightarrow> Some None
      | Some p \<Rightarrow>
          (case st p of
             None \<Rightarrow> None
           | Some b \<Rightarrow>
               if pprev b \<noteq> None \<and> \<not> IsProofOfStake b then Tip_loop st (pprev b) else Some (Some p)))"

definition Tip :: "CChain \<Rightarrow> ptr option" where
  "Tip vChain = (if length vChain < 1 then None else vChain ! (length vChain - 1))"

definition Tip_proof_of_stake :: "block_store \<Rightarrow> CChain \<Rightarrow> ptr option option" where
  "Tip_proof_of_stake st vChain = Tip_loop st (Tip vChain)"

definition chain_at :: "CChain \<Rightarrow> int \<Rightarrow> ptr option" where
  "chain_at vChain h = (if h < 0 \<or> h \<ge> int (length vChain) then None else vChain ! nat h)"

definition Contains :: "block_store \<Rightarrow> CChain \<Rightarrow> ptr \<Rightarrow> bool" where
  "Contains st vChain pindex =
     (case st pindex of None \<Rightarrow> False | Some b \<Rightarrow> chain_at vChain (nHeight b) = Some pindex)"

definition Next :: "block_store \<Rightarrow> CChain \<Rightarrow> ptr \<Rightarrow> ptr option" where
  "Next st vChain pindex =
     (case st pindex of
        None \<Rightarrow> None
      | Some b \<Rightarrow> if Contains st vChain pindex then chain_at vChain (nHeight b + 1) else None)"

definition Height :: "CChain \<Rightarrow> int" where
  "Height vChain = int (length vChain) - 1"

definition resize :: "nat \<Rightarrow> CChain \<Rightarrow> CChain" where
  "resize n vChain = take n vChain @ replicate (n - length vChain) None"

text \<open>\<open>None\<close> stands for a loop that does not end or an access outside the vector.\<close>

partial_function (option) SetTip_loop :: "block_store \<Rightarrow> CChain \<Rightarrow> ptr option \<Rightarrow> CChain option" where
  "SetTip_loop st vChain pindex =
     (case pindex of
        None \<Rightarrow> Some vChain
      | Some p \<Rightarrow>
          (case st p of
             None \<Rightarrow> None
           | Some b \<Rightarrow>
               if nHeight b < 0 \<or> nHeight b \<ge> int (length vChain) then None
               else if vChain ! nat (nHeight b) \<noteq> Some p
               then SetTip_loop st (vChain[nat (nHeight b) := Some p]) (pprev b)
               else Some vChain))"

definition SetTip :: "block_store \<Rightarrow> CChain \<Rightarrow> ptr option \<Rightarrow> CChain option" where
  "SetTip st vChain pindex =
     (case pindex of
        None \<Rightarrow> Some []
      | Some p \<Rightarrow>
          (case st p of
             None \<Rightarrow> None
           | Some b \<Rightarrow> SetTip_loop st (resize (nat (nHeight b + 1)) vChain) (Some p)))"

partial_function (option) GetLocator_loop ::
    "block_store \<Rightarrow> CChain \<Rightarrow> int \<Rightarrow> base_uint list \<Rightarrow> ptr option \<Rightarrow> base_uint list option" where
  "GetLocator_loop st vChain nStep vHave pindex =
     (case pindex of
        None \<Rightarrow> Some vHave
      | Some p \<Rightarrow>
          (case st p of
             None \<Rightarrow> None
           | Some b \<Rightarrow>
               if nHeight b = 0 then Some (vHave @ [phashBlock b])
               else GetLocator_loop st vChain
                      (if length (vHave @ [phashBlock b]) > 10 then nStep * 2 else nStep)
                      (vHave @ [phashBlock b])
                      (if Contains st vChain p then chain_at vChain (max (nHeight b - nStep) 0)
                       else GetAncestor st p (max (nHeight b - nStep) 0))))"

definition GetLocator :: "block_store \<Rightarrow> CChain \<Rightarrow> ptr option \<Rightarrow> base_uint list option" where
  "GetLocator st vChain pindex =
     GetLocator_loop st vChain 1 [] (if pindex = None then Tip vChain else pindex)"

partial_function (option) FindFork_loop :: "block_store \<Rightarrow> CChain \<Rightarrow> ptr option \<Rightarrow> ptr option option" where
  "FindFork_loop st vChain pindex =
     (case pindex of
        None \<Rightarrow> Some None
      | Some p \<Rightarrow>
          (case st p of
             None \<Rightarrow> None
           | Some b \<Rightarrow> if \<not> Contains st vChain p then FindFork_loop st vChain (pprev b) else Some (Some p)))"

definition FindFork :: "block_store \<Rightarrow> CChain \<Rightarrow> ptr \<Rightarrow> ptr option option" where
  "FindFork st vChain pindex =
     (case st pindex of
        None \<Rightarrow> None
      | Some b \<Rightarrow>
          FindFork_loop st vChain
            (if nHeight b > Height vChain then GetAncestor st pindex (Height vChain) else Some pindex))"

text \<open>\<open>LastCommonAncestor\<close>; the last \<open>None\<close> is the failing assertion \<open>pa == pb\<close>.\<close>

partial_function (option) LastCommonAncestor_loop ::
    "block_store \<Rightarrow> ptr option \<Rightarrow> ptr option \<Rightarrow> ptr option option" where
  "LastCommonAncestor_loop st pa pb =
     (if pa \<noteq> pb \<and> pa \<noteq> None \<and> pb \<noteq> None
      then (case (st (the pa), st (the pb)) of
              (Some a, Some b) \<Rightarrow> LastCommonAncestor_loop st (pprev a) (pprev b)
            | _ \<Rightarrow> None)
      else if pa = pb then Some pa else None)"

definition LastCommonAncestor :: "block_store \<Rightarrow> ptr \<Rightarrow> ptr \<Rightarrow> ptr option option" where
  "LastCommonAncestor st pa pb =
     (case (st pa, st pb) of
        (Some a, Some b) \<Rightarrow>
          if nHeight a > nHeight b then LastCommonAncestor_loop st (GetAncestor st pa (nHeight b)) (Some pb)
          else if nHeight b > nHeight a then LastCommonAncestor_loop st (Some pa) (GetAncestor st pb (nHeight a))
          else LastCommonAncestor_loop st (Some pa) (Some pb)
      | _ \<Rightarrow> None)"

fun FindForkInGlobalIndex ::
    "block_store \<Rightarrow> (base_uint \<rightharpoonup> ptr) \<Rightarrow> CChain \<Rightarrow> base_uint list \<Rightarrow> ptr option" where
  "FindForkInGlobalIndex st mapBlockIndex chain [] = Genesis chain"
| "FindForkInGlobalIndex st mapBlockIndex chain (hash # vHave) =
     (case mapBlockIndex hash of
        Some pindex \<Rightarrow>
          if Contains st chain pindex then Some pindex
          else FindForkInGlobalIndex st mapBlockIndex chain vHave
      | None \<Rightarrow> FindForkInGlobalIndex st mapBlockIndex chain vHave)"

subsection \<open>The vector is the branch of its tip\<close>

text \<open>Every entry that is set has the height of its position and the entry below it as its predecessor;
  in a chain (as opposed to a vector during \<open>SetTip\<close>) every entry is set.\<close>

definition linked_upto :: "block_store \<Rightarrow> CChain \<Rightarrow> nat \<Rightarrow> bool" where
  "linked_upto st v n \<longleftrightarrow> (\<forall>i < n. \<forall>p. v ! i = Some p \<longrightarrow>
     (\<exists>b. st p = Some b \<and> nHeight b = int i \<and> (0 < i \<longrightarrow> pprev b = v ! (i - 1))))"

definition is_chain :: "block_store \<Rightarrow> CChain \<Rightarrow> bool" where
  "is_chain st v \<longleftrightarrow> linked_upto st v (length v) \<and> None \<notin> set v"

lemma linked_ancestors:
  assumes "wf_tree st" and "linked_upto st v n" and "i < n" and "v ! i = Some p"
  shows "j \<le> i \<Longrightarrow> v ! j = ancestor_at st p (int j)"
proof -
  obtain b where b: "st p = Some b" "nHeight b = int i"
    using assms unfolding linked_upto_def by blast
  have "v ! (i - d) = nth_prev st d p" if "d \<le> i" for d
    using that assms(3,4)
  proof (induction d arbitrary: i p)
    case (Suc d)
    obtain b where b: "st p = Some b" "nHeight b = int i" "pprev b = v ! (i - 1)"
      using assms(2) Suc.prems unfolding linked_upto_def by fastforce
    then have "pprev b \<noteq> None" using wf_treeD(2) [OF assms(1) b(1)] Suc.prems(1) by simp
    then obtain q where q: "pprev b = Some q" by blast
    then have "v ! (i - 1 - d) = nth_prev st d q"
      using Suc.IH [of "i - 1" q] Suc.prems b(3) by simp
    with b(1) q show ?case by simp
  qed simp
  from this [of "i - j"] show ?thesis if "j \<le> i"
    using that b by (simp add: ancestor_at_def nat_diff_distrib)
qed

lemma linked_resize: "is_chain st v \<Longrightarrow> linked_upto st (resize n v) n"
  by (auto simp: is_chain_def linked_upto_def resize_def nth_append split: if_splits)

lemma length_resize [simp]: "length (resize n v) = n"
  by (simp add: resize_def)

lemma SetTip_loop_correct:
  assumes "wf_tree st" and "st tip = Some t" and "nHeight t < int (length v)"
    and "pindex = ancestor_at st tip (int k - 1)" and "int k \<le> nHeight t + 1"
    and "linked_upto st v k" and "\<And>i. k \<le> i \<Longrightarrow> int i \<le> nHeight t \<Longrightarrow> v ! i = ancestor_at st tip (int i)"
  shows "\<exists>v'. SetTip_loop st v pindex = Some v' \<and> length v' = length v \<and>
    (\<forall>i. int i \<le> nHeight t \<longrightarrow> v' ! i = ancestor_at st tip (int i))"
  using assms(3-)
proof (induction k arbitrary: v pindex)
  case 0
  then have "pindex = None" using assms(2) by (simp add: ancestor_at_def)
  with 0 show ?case by (subst SetTip_loop.simps) simp
next
  case (Suc k)
  obtain p b where p: "ancestor_at st tip (int k) = Some p" "st p = Some b" "nHeight b = int k"
    using ancestor_at_exists [OF assms(1,2), of "int k"] Suc.prems(3) by auto
  then have pindex: "pindex = Some p" using Suc.prems(2) by simp
  have len: "k < length v" using Suc.prems(1,3) by simp
  show ?case
  proof (cases "v ! k = Some p")
    case True
    have "v ! i = ancestor_at st tip (int i)" if "int i \<le> nHeight t" for i
    proof (cases "k < i")
      case False
      then show ?thesis
        using linked_ancestors [OF assms(1) Suc.prems(4) _ True, of i] 
          ancestor_at_trans [OF assms(1,2) p(1), of "int i"] by simp
    qed (use Suc.prems(5) that in simp)
    then show ?thesis
      using p True len by (subst SetTip_loop.simps) (simp add: pindex)
  next
    case False
    have prev: "pprev b = ancestor_at st tip (int k - 1)"
    proof (cases "k = 0")
      case True
      then show ?thesis using wf_treeD(2) [OF assms(1) p(2)] p assms(2) by (simp add: ancestor_at_def)
    next
      case False
      then show ?thesis
        using pprev_ancestor_at [OF assms(1) p(2)] p ancestor_at_trans [OF assms(1,2) p(1), of "int k - 1"]
        by simp
    qed
    have link: "linked_upto st (v[k := Some p]) k"
      using Suc.prems(4) by (auto simp: linked_upto_def)
    have above: "v[k := Some p] ! i = ancestor_at st tip (int i)" if "k \<le> i" "int i \<le> nHeight t" for i
      using that Suc.prems(5) [of i] p(1) len by (cases "i = k") auto
    have "\<exists>v'. SetTip_loop st (v[k := Some p]) (pprev b) = Some v' \<and> length v' = length (v[k := Some p]) \<and>
        (\<forall>i. int i \<le> nHeight t \<longrightarrow> v' ! i = ancestor_at st tip (int i))"
      using Suc.prems(1,3) by (intro Suc.IH [OF _ prev _ link above]) auto
    then show ?thesis
      using p False len by (subst SetTip_loop.simps) (simp add: pindex)
  qed
qed

lemma ancestor_at_None_iff:
  assumes "wf_tree st" and "st p = Some b"
  shows "ancestor_at st p h = None \<longleftrightarrow> h < 0 \<or> nHeight b < h"
  using ancestor_at_exists [OF assms, of h] assms(2) by (auto simp: ancestor_at_def)

lemma ancestor_at_SomeD:
  assumes "wf_tree st" and "ancestor_at st p h = Some q"
  shows "\<exists>b. st q = Some b \<and> nHeight b = h"
proof -
  obtain b where b: "st p = Some b" using assms(2) by (auto simp: ancestor_at_def split: option.splits)
  then have "0 \<le> h" "h \<le> nHeight b" using assms(2) by (auto simp: ancestor_at_def split: if_splits)
  from ancestor_at_exists [OF assms(1) b this] assms(2) show ?thesis by auto
qed

lemma pprev_ancestor_step:
  assumes "wf_tree st" and "st t = Some tb" and "ancestor_at st t h = Some p" and "st p = Some b"
  shows "pprev b = ancestor_at st t (h - 1)"
proof -
  have h: "nHeight b = h" "0 \<le> h" "h \<le> nHeight tb"
    using ancestor_at_SomeD [OF assms(1,3)] assms by (auto simp: ancestor_at_def split: if_splits)
  show ?thesis
  proof (cases "h = 0")
    case True
    then show ?thesis using wf_treeD(2) [OF assms(1,4)] h assms(2) by (simp add: ancestor_at_def)
  next
    case False
    then show ?thesis
      using h pprev_ancestor_at [OF assms(1,4)] ancestor_at_trans [OF assms(1-3), of "h - 1"] by simp
  qed
qed

lemma branch_is_chain:
  assumes "wf_tree st" and "st t = Some b" and "int (length v) = nHeight b + 1"
    and "\<And>i. int i \<le> nHeight b \<Longrightarrow> v ! i = ancestor_at st t (int i)"
  shows "is_chain st v"
proof -
  have "linked_upto st v (length v)"
    unfolding linked_upto_def
  proof (intro allI impI)
    fix i p assume i: "i < length v" "v ! i = Some p"
    then have p: "ancestor_at st t (int i) = Some p" using assms(3,4) by simp
    then obtain pb where pb: "st p = Some pb" "nHeight pb = int i"
      using ancestor_at_SomeD [OF assms(1)] by blast
    have "pprev pb = v ! (i - 1)" if "0 < i"
      using pprev_ancestor_step [OF assms(1,2) p pb(1)] assms(3) assms(4) [of "i - 1"] i that
      by (simp add: of_nat_diff)
    with pb show "\<exists>b. st p = Some b \<and> nHeight b = int i \<and> (0 < i \<longrightarrow> pprev b = v ! (i - 1))" by blast
  qed
  moreover have "v ! i \<noteq> None" if "i < length v" for i
    using that assms ancestor_at_None_iff [OF assms(1,2), of "int i"] by simp
  ultimately show ?thesis by (auto simp: is_chain_def in_set_conv_nth)
qed

lemma chain_at_tip:
  assumes "wf_tree st" and "is_chain st v" and "v \<noteq> []"
  shows "\<exists>t b. Tip v = Some t \<and> st t = Some b \<and> nHeight b = Height v \<and> chain_at v = ancestor_at st t"
proof -
  have "v ! (length v - 1) \<in> set v" using assms(3) by simp
  then obtain t where t: "v ! (length v - 1) = Some t"
    using assms(2) unfolding is_chain_def by (metis not_Some_eq)
  have link: "linked_upto st v (length v)" using assms(2) by (simp add: is_chain_def)
  then obtain b where b: "st t = Some b" "nHeight b = int (length v - 1)"
    using link t assms(3) unfolding linked_upto_def
    by (metis diff_less length_greater_0_conv zero_less_one)
  have "chain_at v h = ancestor_at st t h" for h
  proof (cases "0 \<le> h \<and> h < int (length v)")
    case True
    then show ?thesis
      using linked_ancestors [OF assms(1) link _ t, of "nat h"] by (auto simp: chain_at_def)
  next
    case False
    have "nHeight b = int (length v) - 1" using b(2) assms(3) by (cases v) simp_all
    with False b(1) show ?thesis by (auto simp: chain_at_def ancestor_at_def)
  qed
  with t b assms(3) show ?thesis by (auto simp: Tip_def Height_def Suc_le_eq)
qed

lemma Contains_iff:
  "wf_tree st \<Longrightarrow> st p = Some b \<Longrightarrow> Contains st v p \<longleftrightarrow> chain_at v (nHeight b) = ancestor_at st p (nHeight b)"
  using wf_treeD(1) [of st p b] by (simp add: Contains_def ancestor_at_self)

subsection \<open>Fork points\<close>

text \<open>\<open>r\<close> is the highest block that two branches, given as functions of the height, share; it is
  \<open>None\<close> when they share none.\<close>

definition last_common :: "(int \<Rightarrow> ptr option) \<Rightarrow> (int \<Rightarrow> ptr option) \<Rightarrow> ptr option \<Rightarrow> bool" where
  "last_common f g r \<longleftrightarrow>
     (case r of
        None \<Rightarrow> \<forall>h. f h = None \<or> f h \<noteq> g h
      | Some p \<Rightarrow> \<exists>h. f h = Some p \<and> g h = Some p \<and> (\<forall>k > h. f k = None \<or> f k \<noteq> g k))"

lemma last_common_SomeI:
  "f h = Some p \<Longrightarrow> g h = Some p \<Longrightarrow> \<forall>k \<ge> h + 1. f k = None \<or> f k \<noteq> g k \<Longrightarrow> last_common f g (Some p)"
  by (simp add: last_common_def) (metis zless_imp_add1_zle)

lemma FindFork_loop_correct:
  assumes "wf_tree st" and "st p = Some b"
  shows "int k \<le> nHeight b + 1 \<Longrightarrow> \<forall>h \<ge> int k. chain_at v h = None \<or> chain_at v h \<noteq> ancestor_at st p h \<Longrightarrow>
    \<exists>r. FindFork_loop st v (ancestor_at st p (int k - 1)) = Some r \<and>
      last_common (chain_at v) (ancestor_at st p) r"
proof (induction k)
  case 0
  have "ancestor_at st p (- 1) = None" using assms(2) by (simp add: ancestor_at_def)
  moreover have "chain_at v h = None \<or> chain_at v h \<noteq> ancestor_at st p h" for h
    using 0(2) by (cases "0 \<le> h") (auto simp: chain_at_def)
  ultimately show ?case by (subst FindFork_loop.simps) (simp add: last_common_def)
next
  case (Suc k)
  obtain q qb where q: "ancestor_at st p (int k) = Some q" "st q = Some qb" "nHeight qb = int k"
    using ancestor_at_exists [OF assms, of "int k"] Suc.prems(1) by auto
  show ?case
  proof (cases "Contains st v q")
    case True
    then have "chain_at v (int k) = Some q" using q by (simp add: Contains_def)
    with q(1) Suc.prems(2) have "last_common (chain_at v) (ancestor_at st p) (Some q)"
      by (intro last_common_SomeI [of _ "int k"]) (simp_all add: add.commute)
    with True q show ?thesis by (subst FindFork_loop.simps) simp
  next
    case False
    then have "chain_at v (int k) \<noteq> ancestor_at st p (int k)" using q by (simp add: Contains_def)
    with Suc.prems(2) have "\<forall>h \<ge> int k. chain_at v h = None \<or> chain_at v h \<noteq> ancestor_at st p h"
      by (metis of_nat_Suc order_le_less zless_imp_add1_zle add.commute)
    with Suc obtain r where "FindFork_loop st v (ancestor_at st p (int k - 1)) = Some r"
        "last_common (chain_at v) (ancestor_at st p) r" by auto
    with False q pprev_ancestor_step [OF assms q(1,2)] show ?thesis
      by (subst FindFork_loop.simps) simp
  qed
qed

lemma LastCommonAncestor_loop_correct:
  assumes "wf_tree st" and "st p = Some b" and "st q = Some c"
  shows "int k \<le> nHeight b + 1 \<Longrightarrow> int k \<le> nHeight c + 1 \<Longrightarrow>
    \<forall>h \<ge> int k. ancestor_at st p h = None \<or> ancestor_at st p h \<noteq> ancestor_at st q h \<Longrightarrow>
    \<exists>r. LastCommonAncestor_loop st (ancestor_at st p (int k - 1)) (ancestor_at st q (int k - 1)) = Some r \<and>
      last_common (ancestor_at st p) (ancestor_at st q) r"
proof (induction k)
  case 0
  have "ancestor_at st p (- 1) = None" "ancestor_at st q (- 1) = None"
    using assms(2,3) by (simp_all add: ancestor_at_def)
  moreover have "ancestor_at st p h = None \<or> ancestor_at st p h \<noteq> ancestor_at st q h" for h
    using 0(3) assms(2) by (cases "0 \<le> h") (auto simp: ancestor_at_def)
  ultimately show ?case by (subst LastCommonAncestor_loop.simps) (simp add: last_common_def)
next
  case (Suc k)
  obtain p' b' where p': "ancestor_at st p (int k) = Some p'" "st p' = Some b'"
    using ancestor_at_exists [OF assms(1,2), of "int k"] Suc.prems(1) by auto
  obtain q' c' where q': "ancestor_at st q (int k) = Some q'" "st q' = Some c'"
    using ancestor_at_exists [OF assms(1,3), of "int k"] Suc.prems(2) by auto
  show ?case
  proof (cases "p' = q'")
    case True
    with p'(1) q'(1) Suc.prems(3) have "last_common (ancestor_at st p) (ancestor_at st q) (Some q')"
      by (intro last_common_SomeI [of _ "int k"]) (simp_all add: add.commute)
    with True p' q' show ?thesis by (subst LastCommonAncestor_loop.simps) simp
  next
    case False
    with p' q' have "ancestor_at st p (int k) \<noteq> ancestor_at st q (int k)" by simp
    with Suc.prems(3) have "\<forall>h \<ge> int k. ancestor_at st p h = None \<or> ancestor_at st p h \<noteq> ancestor_at st q h"
      by (metis of_nat_Suc order_le_less zless_imp_add1_zle add.commute)
    with Suc have "\<exists>r. LastCommonAncestor_loop st (ancestor_at st p (int k - 1)) (ancestor_at st q (int k - 1)) = Some r \<and>
        last_common (ancestor_at st p) (ancestor_at st q) r" by auto
    with False p' q' pprev_ancestor_step [OF assms(1,2) p'] pprev_ancestor_step [OF assms(1,3) q']
    show ?thesis by (subst LastCommonAncestor_loop.simps) simp
  qed
qed

lemma no_common_above:
  assumes "wf_tree st" and "st p = Some b" and "nHeight b < h"
  shows "ancestor_at st p h = None"
  using ancestor_at_None_iff [OF assms(1,2)] assms(3) by simp

subsection \<open>Locators\<close>

text \<open>The heights a locator visits: ten single steps, then steps that double.\<close>

function locator_heights :: "nat \<Rightarrow> int \<Rightarrow> int \<Rightarrow> int list" where
  "locator_heights n step h =
     (if h \<le> 0 \<or> step \<le> 0 then [h]
      else h # locator_heights (Suc n) (if Suc n > 10 then step * 2 else step) (max (h - step) 0))"
  by pat_completeness auto
termination
  by (relation "measure (\<lambda>(n, step, h). nat h)") auto

declare locator_heights.simps [simp del]

definition block_hash :: "block_store \<Rightarrow> ptr option \<Rightarrow> base_uint" where
  "block_hash st p = (case Option.bind p st of None \<Rightarrow> [] | Some b \<Rightarrow> phashBlock b)"

lemma GetLocator_loop_correct:
  assumes "wf_tree st" and "wf_skip st" and "is_chain st v" and "st p = Some b"
  shows "0 \<le> h \<Longrightarrow> h \<le> nHeight b \<Longrightarrow> 0 < step \<Longrightarrow>
    GetLocator_loop st v step hs (ancestor_at st p h) =
      Some (hs @ map (\<lambda>k. block_hash st (ancestor_at st p k)) (locator_heights (length hs) step h))"
proof (induction "length hs" step h arbitrary: hs rule: locator_heights.induct)
  case (1 step h)
  obtain q c where q: "ancestor_at st p h = Some q" "st q = Some c" "nHeight c = h"
    using ancestor_at_exists [OF assms(1,4) 1(2,3)] by auto
  have hash: "block_hash st (ancestor_at st p h) = phashBlock c"
    using q by (simp add: block_hash_def)
  show ?case
  proof (cases "h = 0")
    case True
    with q hash show ?thesis
      by (subst GetLocator_loop.simps, subst locator_heights.simps) simp
  next
    case False
    let ?k = "max (h - step) 0"
    have k: "0 \<le> ?k" "?k \<le> h" using 1(2,4) by auto
    have anc: "ancestor_at st q ?k = ancestor_at st p ?k"
      using ancestor_at_trans [OF assms(1,4) q(1) k] .
    have "(if Contains st v q then chain_at v ?k else GetAncestor st q ?k) = ancestor_at st p ?k"
    proof (cases "Contains st v q")
      case True
      then have cq: "chain_at v h = Some q" using q by (simp add: Contains_def)
      then have "v \<noteq> []" by (auto simp: chain_at_def split: if_splits)
      then obtain t tb where t: "st t = Some tb" "chain_at v = ancestor_at st t"
        using chain_at_tip [OF assms(1,3)] by blast
      with ancestor_at_trans [OF assms(1) t(1) _ k] cq anc True show ?thesis by auto
    qed (use anc GetAncestor_eq_ancestor_at [OF assms(1,2)] in simp)
    note next_block = this
    have "GetLocator_loop st v step hs (ancestor_at st p h) =
        GetLocator_loop st v (if length (hs @ [phashBlock c]) > 10 then step * 2 else step)
          (hs @ [phashBlock c]) (ancestor_at st p ?k)"
      unfolding next_block [symmetric] using q False by (subst GetLocator_loop.simps) simp
    also have "\<dots> = Some ((hs @ [phashBlock c]) @ map (\<lambda>k. block_hash st (ancestor_at st p k))
        (locator_heights (length (hs @ [phashBlock c])) (if length (hs @ [phashBlock c]) > 10 then step * 2 else step) ?k))"
      using False 1(2-4) k
        1(1) [of "hs @ [phashBlock c]"] by simp
    also have "\<dots> = Some (hs @ map (\<lambda>k. block_hash st (ancestor_at st p k)) (locator_heights (length hs) step h))"
      using False 1(2,4) hash by (subst (2) locator_heights.simps) simp
    finally show ?thesis .
  qed
qed

lemma locator_heights_bounds:
  "0 \<le> h \<Longrightarrow> 0 < step \<Longrightarrow>
    hd (locator_heights n step h) = h \<and> last (locator_heights n step h) = 0 \<and>
    sorted_wrt (>) (locator_heights n step h) \<and> set (locator_heights n step h) \<subseteq> {0..h}"
proof (induction n step h rule: locator_heights.induct)
  case (1 n step h)
  show ?case
  proof (cases "h = 0")
    case False
    let ?r = "locator_heights (Suc n) (if Suc n > 10 then step * 2 else step) (max (h - step) 0)"
    have IH: "last ?r = 0" "sorted_wrt (>) ?r" "set ?r \<subseteq> {0..max (h - step) 0}"
      using 1 False by auto
    have "?r \<noteq> []" by (subst locator_heights.simps) simp
    moreover have "locator_heights n step h = h # ?r"
      using 1(2,3) False by (subst locator_heights.simps) simp
    ultimately show ?thesis using IH 1(2,3) False by fastforce
  qed (use 1 in \<open>simp add: locator_heights.simps [of n step 0]\<close>)
qed

lemma locator_heights_length_doubling:
  "10 \<le> n \<Longrightarrow> 0 < step \<Longrightarrow> 0 \<le> h \<Longrightarrow> h \<le> step * (2 ^ m - 1) \<Longrightarrow> length (locator_heights n step h) \<le> m + 1"
proof (induction m arbitrary: n step h)
  case 0
  then show ?case by (subst locator_heights.simps) simp
next
  case (Suc m)
  have "step * (2 ^ Suc m - 1) = step + step * 2 * (2 ^ m - 1)" by (simp add: algebra_simps)
  with Suc.prems have "max (h - step) 0 \<le> step * 2 * (2 ^ m - 1)" by simp
  with Suc.IH [of "Suc n" "step * 2" "max (h - step) 0"] Suc.prems show ?case
    by (subst locator_heights.simps) simp
qed

lemma locator_heights_length:
  "0 \<le> h \<Longrightarrow> h < 2 ^ m \<Longrightarrow> n \<le> 10 \<Longrightarrow> length (locator_heights n 1 h) \<le> (10 - n) + m + 1"
proof (induction "10 - n" arbitrary: n h)
  case 0
  then show ?case using locator_heights_length_doubling [of n 1 h m] by simp
next
  case (Suc d)
  then have "length (locator_heights (Suc n) 1 (max (h - 1) 0)) \<le> (10 - Suc n) + m + 1"
    using Suc.hyps(1) [of "Suc n" "max (h - 1) 0"] by simp
  then show ?case using Suc(2) by (subst locator_heights.simps) (auto split: if_splits)
qed

subsection \<open>Median time and block trust\<close>

lemma past_times_eq:
  assumes "wf_tree st" and "st p = Some b"
  shows "past_times st n (Some p) =
    map (\<lambda>h. GetBlockTime (the (st (the (ancestor_at st p h))))) (map (\<lambda>i. nHeight b - int i) [0..<min n (nat (nHeight b + 1))])"
  using assms(2)
proof (induction n arbitrary: p b)
  case (Suc n)
  have pos: "0 \<le> nHeight b" by (rule wf_treeD(1) [OF assms(1) Suc.prems])
  show ?case
  proof (cases "pprev b")
    case None
    then have "nHeight b = 0" using wf_treeD(2) [OF assms(1) Suc.prems] by simp
    with None Suc.prems show ?thesis by (cases n) (simp_all add: ancestor_at_def upt_rec)
  next
    case (Some q)
    then obtain c where c: "st q = Some c" "nHeight b = nHeight c + 1"
      using wf_treeD(3) [OF assms(1) Suc.prems] by blast
    have anc: "ancestor_at st p (nHeight c - int i) = ancestor_at st q (nHeight c - int i)"
      if "i < min n (nat (nHeight c + 1))" for i
      using that Some Suc.prems c by (simp add: ancestor_at_def nat_add_distrib)
    have "[0..<min (Suc n) (nat (nHeight b + 1))] = 0 # map Suc [0..<min n (nat (nHeight c + 1))]"
      using c pos wf_treeD(1) [OF assms(1) c(1)]
      by (simp add: map_Suc_upt upt_conv_Cons nat_add_distrib)
    moreover have "ancestor_at st p (nHeight c + 1) = Some p"
      using ancestor_at_self [of st p b] Suc.prems pos c(2) by simp
    ultimately show ?thesis
      using Suc.IH [OF c(1)] Suc.prems Some c pos anc by (simp add: comp_def)
  qed
qed simp

lemma sorted_count_less:
  assumes "sorted xs" and "i < length xs"
  shows "length (filter (\<lambda>x. x < xs ! i) xs) \<le> i" and "length (filter (\<lambda>x. xs ! i < x) xs) \<le> length xs - Suc i"
proof -
  have "filter (\<lambda>x. x < xs ! i) xs = filter (\<lambda>x. x < xs ! i) (take i xs @ drop i xs)" by simp
  also have "\<dots> = filter (\<lambda>x. x < xs ! i) (take i xs)"
    using assms by (simp only: filter_append) (auto simp: filter_empty_conv in_set_conv_nth sorted_iff_nth_mono leD)
  finally show "length (filter (\<lambda>x. x < xs ! i) xs) \<le> i"
    using length_filter_le [of _ "take i xs"] assms(2) by (metis length_take min.absorb2 order_less_imp_le)
  have "filter (\<lambda>x. xs ! i < x) xs = filter (\<lambda>x. xs ! i < x) (take (Suc i) xs @ drop (Suc i) xs)" by simp
  also have "\<dots> = filter (\<lambda>x. xs ! i < x) (drop (Suc i) xs)"
    using assms by (simp only: filter_append) (auto simp: filter_empty_conv in_set_conv_nth sorted_iff_nth_mono leD less_Suc_eq_le)
  finally show "length (filter (\<lambda>x. xs ! i < x) xs) \<le> length xs - Suc i"
    using length_filter_le [of _ "drop (Suc i) xs"] by (metis length_drop)
qed

lemma length_filter_sort: "length (filter P (sort xs)) = length (filter P xs)"
  by (simp add: filter_sort)

lemma compact_target_bound: "uval (fst (SetCompact c)) + 1 < 2 ^ 256"
proof (cases "unat c div 2 ^ 24 \<le> 3")
  case True
  have "unat c mod 2 ^ 23 div 256 ^ (3 - unat c div 2 ^ 24) \<le> unat c mod 2 ^ 23" by (rule div_le_dividend)
  also have "\<dots> < 2 ^ 23" by simp
  finally have "compact_value c < 2 ^ 23" using True by (simp add: compact_value_def Let_def)
  then show ?thesis by (simp add: uval_SetCompact mod_less)
next
  case False
  then have "256 dvd (256 :: nat) ^ (unat c div 2 ^ 24 - 3)" by (intro dvd_power) simp
  then have "256 dvd compact_value c" using False by (simp add: compact_value_def Let_def dvd_mult)
  then have "256 dvd compact_value c mod 2 ^ 256" by (simp add: dvd_mod)
  moreover have "compact_value c mod 2 ^ 256 < 2 ^ 256" by simp
  moreover have "\<not> 256 dvd (2 ^ 256 - 1 :: nat)" by simp
  ultimately have "compact_value c mod 2 ^ 256 \<noteq> 2 ^ 256 - 1" by (metis (no_types))
  with \<open>compact_value c mod 2 ^ 256 < 2 ^ 256\<close> show ?thesis by (simp only: uval_SetCompact)
qed

lemma length_SetCompact [simp]: "length (fst (SetCompact c)) = 8"
  using uval_SetCompact [of c] by simp

lemma uval_target_plus_one:
  "uval (uint_add (fst (SetCompact c)) (base_uint_u64 8 1)) = uval (fst (SetCompact c)) + 1"
  using compact_target_bound [of c] by (simp add: uval_simps)

section \<open>Properties of the block tree\<close>

text \<open>A tree of four blocks with a fork after block 1, for the witnesses.\<close>

definition sample_block :: "int \<Rightarrow> ptr option \<Rightarrow> ptr option \<Rightarrow> CBlockIndex" where
  "sample_block h prev skip =
     CBlockIndex_SetNull\<lparr>phashBlock := base_uint_u64 8 (of_int h), pprev := prev, pskip := skip, nHeight := h,
      nFlags := 1, nTime := of_int (1000 + h), nBits := 0x1e0ffff0\<rparr>"

definition sample_store :: block_store where
  "sample_store = [0 \<mapsto> sample_block 0 None None, 1 \<mapsto> sample_block 1 (Some 0) (Some 0),
     2 \<mapsto> sample_block 2 (Some 1) (Some 0), 3 \<mapsto> sample_block 2 (Some 1) (Some 0)]"

lemma sample_wf_tree: "wf_tree sample_store"
  by (simp add: wf_tree_def sample_store_def sample_block_def)

lemma sample_wf_skip: "wf_skip sample_store"
  by (simp add: wf_skip_def sample_store_def sample_block_def ancestor_at_def GetSkipHeight_def
      InvertLowestOne_def numeral_2_eq_2)

lemma sample_chain: "is_chain sample_store [Some 0, Some 1, Some 2]"
  by (simp add: is_chain_def linked_upto_def sample_store_def sample_block_def numeral_2_eq_2 less_Suc_eq)

text \<open>
  C27: the skip list.  In a well-formed tree whose skip pointers are those of \<open>BuildSkip\<close>,
  \<open>GetAncestor\<close> returns the block reached by following \<open>pprev\<close> only, for every height, and
  \<open>NULL\<close> exactly for heights that are negative or above the block.
\<close>

theorem GetAncestor_correct:
  assumes "wf_tree st" and "wf_skip st" and "st p = Some b"
  shows "GetAncestor st p h = (if h < 0 \<or> nHeight b < h then None else nth_prev st (nat (nHeight b - h)) p) \<and>
    (GetAncestor st p h = None \<longleftrightarrow> h < 0 \<or> nHeight b < h)"
  using GetAncestor_eq_ancestor_at [OF assms(1,2)] ancestor_at_None_iff [OF assms(1,3)] assms(3)
  by (auto simp: ancestor_at_def)

theorem GetAncestor_correct_witness:
  "GetAncestor sample_store 3 0 = Some 0 \<and> GetAncestor sample_store 3 5 = None"
  using GetAncestor_correct [OF sample_wf_tree sample_wf_skip, of 3 "sample_block 2 (Some 1) (Some 0)" 0]
    GetAncestor_correct [OF sample_wf_tree sample_wf_skip, of 3 "sample_block 2 (Some 1) (Some 0)" 5]
  by (simp add: sample_store_def sample_block_def numeral_2_eq_2)

text \<open>
  A new index entry that is linked to a stored predecessor and passed through \<open>BuildSkip\<close>
  keeps the tree and its skip pointers well-formed, so \<open>GetAncestor\<close> stays correct as blocks are
  accepted.
\<close>

theorem BuildSkip_keeps_tree:
  assumes "wf_tree st" and "wf_skip st" and "st p = None"
    and "case pprev e of None \<Rightarrow> nHeight e = 0 | Some q \<Rightarrow> \<exists>b. st q = Some b \<and> nHeight e = nHeight b + 1"
  shows "wf_tree (st(p \<mapsto> BuildSkip st e)) \<and> wf_skip (st(p \<mapsto> BuildSkip st e))"
proof
  have fields: "pprev (BuildSkip st e) = pprev e" "nHeight (BuildSkip st e) = nHeight e"
    by (simp_all add: BuildSkip_def split: option.split)
  show tree: "wf_tree (st(p \<mapsto> BuildSkip st e))"
    by (rule wf_tree_add_entry) (simp_all only: assms fields)
  show "wf_skip (st(p \<mapsto> BuildSkip st e))"
  proof (rule wf_skip_add_entry [OF assms(1-3) tree])
    fix q assume "pprev (BuildSkip st e) = Some q"
    then have "pprev e = Some q" by (simp only: fields)
    then show "pskip (BuildSkip st e) = ancestor_at st q (GetSkipHeight (nHeight (BuildSkip st e)))"
      using GetAncestor_eq_ancestor_at [OF assms(1,2)] by (simp add: BuildSkip_def)
  qed
qed

theorem BuildSkip_keeps_tree_witness:
  "wf_skip (sample_store(7 \<mapsto> BuildSkip sample_store (sample_block 3 (Some 3) None)))"
  using BuildSkip_keeps_tree [OF sample_wf_tree sample_wf_skip, of 7 "sample_block 3 (Some 3) None"]
  by (simp add: sample_store_def sample_block_def)

lemma SetTip_spec:
  assumes "wf_tree st" and "is_chain st v" and "st p = Some b"
  shows "\<exists>v'. SetTip st v (Some p) = Some v' \<and> is_chain st v' \<and> Tip v' = Some p \<and> Height v' = nHeight b \<and>
    (\<forall>h. chain_at v' h = ancestor_at st p h)"
proof -
  have pos: "0 \<le> nHeight b" by (rule wf_treeD(1) [OF assms(1,3)])
  define n where "n = nat (nHeight b + 1)"
  have n: "int n = nHeight b + 1" using pos by (simp add: n_def)
  have "\<exists>v'. SetTip_loop st (resize n v) (ancestor_at st p (int n - 1)) = Some v' \<and> length v' = length (resize n v) \<and>
      (\<forall>i. int i \<le> nHeight b \<longrightarrow> v' ! i = ancestor_at st p (int i))"
    by (rule SetTip_loop_correct [OF assms(1,3) _ refl]) (use n linked_resize [OF assms(2)] in auto)
  then obtain v' where v': "SetTip_loop st (resize n v) (ancestor_at st p (int n - 1)) = Some v'" "length v' = n"
      "\<And>i. int i \<le> nHeight b \<Longrightarrow> v' ! i = ancestor_at st p (int i)" by auto
  have self: "ancestor_at st p (int n - 1) = Some p" using ancestor_at_self [of st p b] assms(3) pos n by simp
  have run: "SetTip st v (Some p) = Some v'" using v'(1) self assms(3) by (simp add: SetTip_def n_def)
  have chain: "is_chain st v'" using branch_is_chain [OF assms(1,3)] v'(2,3) n by simp
  have at: "chain_at v' h = ancestor_at st p h" for h
    using v'(3) [of "nat h"] v'(2) n assms(3) by (auto simp: chain_at_def ancestor_at_def)
  have "Tip v' = Some p"
    using v'(2) v'(3) [of "n - 1"] n pos self by (simp add: Tip_def of_nat_diff)
  then show ?thesis using run chain at v'(2) n by (simp add: Height_def)
qed

text \<open>
  C28: moving the tip.  From any active chain, \<open>SetTip\<close> ends without leaving the vector; afterwards
  the vector is the branch of the new tip: position \<open>h\<close> holds its ancestor of height \<open>h\<close>, although
  the loop stops at the first entry it already finds in place.
\<close>

theorem SetTip_correct:
  assumes "wf_tree st" and "is_chain st v" and "st p = Some b"
  shows "\<exists>v'. SetTip st v (Some p) = Some v' \<and> is_chain st v' \<and> Tip v' = Some p \<and> Height v' = nHeight b \<and>
    (\<forall>h. chain_at v' h = ancestor_at st p h) \<and> (\<forall>q. Contains st v' q \<longleftrightarrow> (\<exists>h. ancestor_at st p h = Some q))"
proof -
  obtain v' where v': "SetTip st v (Some p) = Some v'" "is_chain st v'" "Tip v' = Some p" "Height v' = nHeight b"
      "\<And>h. chain_at v' h = ancestor_at st p h" using SetTip_spec [OF assms] by blast
  have "Contains st v' q \<longleftrightarrow> (\<exists>h. ancestor_at st p h = Some q)" for q
    using v'(5) ancestor_at_SomeD [OF assms(1)] by (fastforce simp: Contains_def split: option.splits)
  with v' show ?thesis by blast
qed

theorem SetTip_correct_witness:
  "\<exists>v'. SetTip sample_store [Some 0, Some 1, Some 2] (Some 3) = Some v' \<and> Tip v' = Some 3 \<and> chain_at v' 1 = Some 1"
proof -
  have "sample_store 3 = Some (sample_block 2 (Some 1) (Some 0))" by (simp add: sample_store_def)
  moreover have "ancestor_at sample_store 3 1 = Some 1"
    by (simp add: ancestor_at_def sample_store_def sample_block_def)
  ultimately show ?thesis using SetTip_correct [OF sample_wf_tree sample_chain] by metis
qed

text \<open>
  Fork points.  \<open>FindFork\<close> returns the highest block that the active chain and the branch of a
  block share, \<open>LastCommonAncestor\<close> the highest block two branches share; both end, and the
  assertion in \<open>LastCommonAncestor\<close> never fails.
\<close>

theorem fork_points_correct:
  assumes "wf_tree st" and "wf_skip st" and "st p = Some b" and "st q = Some c"
  shows "(\<exists>r. FindFork st v p = Some r \<and> last_common (chain_at v) (ancestor_at st p) r) \<and>
    (\<exists>r. LastCommonAncestor st p q = Some r \<and> last_common (ancestor_at st p) (ancestor_at st q) r)"
proof
  note anc = GetAncestor_eq_ancestor_at [OF assms(1,2)]
  have pos: "0 \<le> nHeight b" "0 \<le> nHeight c" using wf_treeD(1) [OF assms(1)] assms(3,4) by blast+
  have self: "ancestor_at st p (nHeight b) = Some p" "ancestor_at st q (nHeight c) = Some q"
    using ancestor_at_self pos assms(3,4) by blast+
  note above = no_common_above [OF assms(1,3)] no_common_above [OF assms(1,4)]
  let ?m = "min (nHeight b) (Height v)"
  have "\<exists>r. FindFork_loop st v (ancestor_at st p (int (nat (?m + 1)) - 1)) = Some r \<and>
      last_common (chain_at v) (ancestor_at st p) r"
    using pos above(1) by (intro FindFork_loop_correct [OF assms(1,3)]) (auto simp: chain_at_def Height_def)
  moreover have "int (nat (?m + 1)) - 1 = ?m" using pos by (simp add: Height_def)
  moreover have "FindFork st v p = FindFork_loop st v (ancestor_at st p ?m)"
    using assms(3) self anc by (simp add: FindFork_def min_def)
  ultimately show "\<exists>r. FindFork st v p = Some r \<and> last_common (chain_at v) (ancestor_at st p) r" by simp
  let ?k = "min (nHeight b) (nHeight c)"
  have "\<exists>r. LastCommonAncestor_loop st (ancestor_at st p (int (nat (?k + 1)) - 1)) (ancestor_at st q (int (nat (?k + 1)) - 1)) = Some r \<and>
      last_common (ancestor_at st p) (ancestor_at st q) r"
    using pos above by (intro LastCommonAncestor_loop_correct [OF assms(1,3,4)]) (auto simp: min_def split: if_splits)
  moreover have "int (nat (?k + 1)) - 1 = ?k" using pos by simp
  moreover have "LastCommonAncestor st p q = LastCommonAncestor_loop st (ancestor_at st p ?k) (ancestor_at st q ?k)"
    using assms(3,4) self anc
    by (cases "nHeight b" "nHeight c" rule: linorder_cases) (simp_all add: LastCommonAncestor_def min_def)
  ultimately show "\<exists>r. LastCommonAncestor st p q = Some r \<and> last_common (ancestor_at st p) (ancestor_at st q) r"
    by simp
qed

theorem fork_points_correct_witness:
  "\<exists>r. LastCommonAncestor sample_store 2 3 = Some r \<and>
     last_common (ancestor_at sample_store 2) (ancestor_at sample_store 3) r"
proof -
  have "sample_store 2 = Some (sample_block 2 (Some 1) (Some 0))"
    "sample_store 3 = Some (sample_block 2 (Some 1) (Some 0))" by (simp_all add: sample_store_def)
  from fork_points_correct [OF sample_wf_tree sample_wf_skip this] show ?thesis by blast
qed

text \<open>
  C29: block locators.  \<open>GetLocator\<close> ends and lists the hashes of ancestors of the block at strictly
  decreasing heights, from the block itself down to the genesis block, at most \<open>11 + m\<close> of them
  for a block below height \<open>2 ^ m\<close>; whether it walks through the active chain or through the skip
  list makes no difference.
\<close>

theorem GetLocator_correct:
  assumes "wf_tree st" and "wf_skip st" and "is_chain st v" and "st p = Some b" and "nHeight b < 2 ^ m"
  shows "\<exists>hs. GetLocator st v (Some p) = Some (map (\<lambda>h. block_hash st (ancestor_at st p h)) hs) \<and>
    hd hs = nHeight b \<and> last hs = 0 \<and> sorted_wrt (>) hs \<and> set hs \<subseteq> {0..nHeight b} \<and> length hs \<le> 11 + m"
proof -
  have pos: "0 \<le> nHeight b" by (rule wf_treeD(1) [OF assms(1,4)])
  have "GetLocator_loop st v 1 [] (ancestor_at st p (nHeight b)) =
      Some ([] @ map (\<lambda>k. block_hash st (ancestor_at st p k)) (locator_heights (length ([] :: base_uint list)) 1 (nHeight b)))"
    by (rule GetLocator_loop_correct [OF assms(1-4)]) (simp_all add: pos)
  moreover have "ancestor_at st p (nHeight b) = Some p" using ancestor_at_self pos assms(4) by blast
  ultimately have "GetLocator st v (Some p) =
      Some (map (\<lambda>h. block_hash st (ancestor_at st p h)) (locator_heights 0 1 (nHeight b)))"
    by (simp add: GetLocator_def)
  moreover have "length (locator_heights 0 1 (nHeight b)) \<le> 11 + m"
    using locator_heights_length [OF pos assms(5), of 0] by simp
  ultimately show ?thesis
    using locator_heights_bounds [OF pos, of 1 0] by auto
qed

theorem GetLocator_correct_witness:
  "\<exists>hs. GetLocator sample_store [Some 0, Some 1, Some 2] (Some 3) =
      Some (map (\<lambda>h. block_hash sample_store (ancestor_at sample_store 3 h)) hs) \<and> length hs \<le> 13"
proof -
  have "sample_store 3 = Some (sample_block 2 (Some 1) (Some 0))" by (simp add: sample_store_def)
  from GetLocator_correct [OF sample_wf_tree sample_wf_skip sample_chain this, of 2] show ?thesis
    by (auto simp: sample_block_def)
qed

text \<open>
  The median time.  \<open>GetMedianTimePast\<close> of a block is one of the times of its last
  \<open>min 11 (height + 1)\<close> blocks, and at most half of them lie below and at most half above it.
\<close>

theorem GetMedianTimePast_median:
  assumes "wf_tree st" and "st p = Some b"
  shows "let times = map (\<lambda>i. GetBlockTime (the (st (the (ancestor_at st p (nHeight b - int i))))))
                       [0..<min 11 (nat (nHeight b + 1))];
             t = GetMedianTimePast st p
         in t \<in> set times \<and> length (filter (\<lambda>x. x < t) times) \<le> length times div 2 \<and>
            length (filter (\<lambda>x. t < x) times) \<le> length times div 2"
proof -
  define times where "times = map (\<lambda>i. GetBlockTime (the (st (the (ancestor_at st p (nHeight b - int i))))))
                       [0..<min 11 (nat (nHeight b + 1))]"
  have past: "past_times st nMedianTimeSpan (Some p) = times"
    using past_times_eq [OF assms, of nMedianTimeSpan] by (simp add: times_def nMedianTimeSpan_def comp_def)
  define s where "s = sort times"
  have t: "GetMedianTimePast st p = s ! (length s div 2)"
    by (simp add: GetMedianTimePast_def past s_def Let_def)
  have s: "sorted s" "length s = length times" "set s = set times" by (simp_all add: s_def)
  have "times \<noteq> []" using wf_treeD(1) [OF assms] by (simp add: times_def)
  then have i: "length s div 2 < length s" using s(2) by (cases times) auto
  have "length (filter (\<lambda>x. x < s ! (length s div 2)) times) \<le> length times div 2"
    and "length (filter (\<lambda>x. s ! (length s div 2) < x) times) \<le> length times div 2"
    using sorted_count_less [OF s(1) i] s(2) by (simp_all add: s_def length_filter_sort)
  then show ?thesis
    using i nth_mem [OF i] s(3) by (simp add: Let_def times_def [symmetric] t)
qed

theorem GetMedianTimePast_median_witness:
  "GetMedianTimePast sample_store 3 \<in> set [1002, 1001, 1000]"
proof -
  let ?b = "sample_block 2 (Some 1) (Some 0)"
  have b: "sample_store 3 = Some ?b" by (simp add: sample_store_def)
  have span: "[0..<min 11 (nat (nHeight ?b + 1))] = [0, 1, 2]" by (simp add: sample_block_def upt_rec)
  have two: "nth_prev st 2 p = nth_prev st (Suc (Suc 0)) p" for st p by (simp only: numeral_2_eq_2)
  have "map (\<lambda>i. GetBlockTime (the (sample_store (the (ancestor_at sample_store 3 (nHeight ?b - int i))))))
      [0..<min 11 (nat (nHeight ?b + 1))] = [1002, 1001, 1000]"
    unfolding span by (simp add: two sample_store_def sample_block_def ancestor_at_def GetBlockTime_def)
  with GetMedianTimePast_median [OF sample_wf_tree b] show ?thesis by (simp only: Let_def)
qed

text \<open>
  The trust of a block.  \<open>GetBlockTrust\<close> never divides by zero.  For proof of work it is the
  scaled limit divided by the target plus one, and at least 1 for a non-zero target; for proof of
  stake the dividend \<open>uint256(1) << 256\<close> is already 0 in 256 bits, so every such block has
  trust 0.
\<close>

theorem GetBlockTrust_value:
  "\<exists>t. GetBlockTrust b = Inr t \<and> length t = 8 \<and>
     uval t = (let target = uval (fst (SetCompact (nBits b)))
               in if target = 0 \<or> IsProofOfStake b then 0 else max 1 ((2 ^ 236 - 1) div (target + 1)))"
proof -
  let ?t = "fst (SetCompact (nBits b))"
  let ?d = "uint_add ?t (base_uint_u64 8 1)"
  have d: "length ?d = 8" "uval ?d = uval ?t + 1" by (simp_all add: uval_target_plus_one)
  have zero: "CompareTo ?t (base_uint_u64 8 0) \<le> 0 \<longleftrightarrow> uval ?t = 0"
    using CompareTo_sgn [of ?t "base_uint_u64 8 0"] by (simp add: uval_simps sgn_if)
  obtain q where q: "uint_div (uint_shl (base_uint_u64 8 1) 256) ?d = Inr q" "length q = 8" "uval q = 0"
    using uint_div_correct [of "uint_shl (base_uint_u64 8 1) 256" ?d] d by (auto simp: uval_simps)
  have "uval (uint_shr (uint_not (base_uint_u64 8 0)) 20) = 2 ^ 236 - 1" by (simp add: uval_simps)
  then obtain w where w: "uint_div (uint_shr (uint_not (base_uint_u64 8 0)) 20) ?d = Inr w" "length w = 8"
      "uval w = (2 ^ 236 - 1) div (uval ?t + 1)"
    using uint_div_correct [of "uint_shr (uint_not (base_uint_u64 8 0)) 20" ?d] d by auto
  have cmp: "CompareTo w (base_uint_u64 8 1) > 0 \<longleftrightarrow> 1 < uval w"
    using CompareTo_iff [of w "base_uint_u64 8 1"] w(2) by (simp add: uval_simps)
  show ?thesis
    using q w cmp by (simp add: GetBlockTrust_def Let_def zero uval_simps max_def)
qed

end
