(* ===== verification/Pow.thy ===== *)
theory Pow
  imports Chain
begin

text \<open>
  Difficulty and proof of work: \<^verbatim>\<open>src/src/pow.cpp\<close>.  The chain parameters the file reads are
  a record.  \<open>int64_t\<close> quantities are integers (block times are 32-bit values and at most 24 of them
  are combined, so no operation leaves the 64-bit range); where such a value is passed to a
  256-bit operator it is converted as the selected overload does: \<open>*\<close> takes a \<open>uint32_t\<close>,
  \<open>/\<close> a 256-bit number built from a \<open>uint64_t\<close>.
\<close>

record CChainParams =
  bnProofOfWorkLimit :: base_uint
  nTargetSpacing :: int
  nTargetSpacingSlowLaunch :: int
  nLastPOWBlock :: int
  fSkipProofOfWorkCheck :: bool

definition CMainParams :: CChainParams where
  "CMainParams =
     \<lparr>bnProofOfWorkLimit = uint_shr (uint_not (base_uint_u64 8 0)) 20, nTargetSpacing = 2 * 60,
      nTargetSpacingSlowLaunch = 2 * 60, nLastPOWBlock = 26280000, fSkipProofOfWorkCheck = False\<rparr>"

datatype pow_error = Uint_error uint_error | Assert_failed | Null_pointer

definition from_uint :: "uint_error + 'a \<Rightarrow> pow_error + 'a" where
  "from_uint r = (case r of Inl e \<Rightarrow> Inl (Uint_error e) | Inr x \<Rightarrow> Inr x)"

definition from_assert :: "'a option \<Rightarrow> pow_error + 'a" where
  "from_assert r = (case r of None \<Rightarrow> Inl Assert_failed | Some x \<Rightarrow> Inr x)"

definition uint_gt :: "base_uint \<Rightarrow> base_uint \<Rightarrow> bool" where
  "uint_gt a b \<longleftrightarrow> CompareTo a b > 0"

definition uint_le :: "base_uint \<Rightarrow> base_uint \<Rightarrow> bool" where
  "uint_le a b \<longleftrightarrow> CompareTo a b \<le> 0"

section \<open>Retargeting\<close>

text \<open>The loop over the last 24 blocks, with its local variables.\<close>

record dgw_state =
  CountBlocks :: int
  PastDifficultyAverage :: base_uint
  PastDifficultyAveragePrev :: base_uint
  LastBlockTime :: int
  nActualTimespan :: int

definition dgw_init :: dgw_state where
  "dgw_init = \<lparr>CountBlocks = 0, PastDifficultyAverage = base_uint_zero 8,
     PastDifficultyAveragePrev = base_uint_zero 8, LastBlockTime = 0, nActualTimespan = 0\<rparr>"

definition PastBlocksMin :: int where "PastBlocksMin = 24"
definition PastBlocksMax :: nat where "PastBlocksMax = 24"

definition dgw_average :: "CBlockIndex \<Rightarrow> dgw_state \<Rightarrow> pow_error + dgw_state" where
  "dgw_average b s =
     (if CountBlocks s \<le> PastBlocksMin then
        rbind (if CountBlocks s = 1 then Inr (fst (SetCompact (nBits b)))
               else from_uint (uint_div (uint_add (uint_mul32 (PastDifficultyAveragePrev s) (of_int (CountBlocks s)))
                                                   (fst (SetCompact (nBits b))))
                                        (base_uint_u64 8 (of_int (CountBlocks s + 1)))))
          (\<lambda>avg. Inr (s\<lparr>PastDifficultyAverage := avg, PastDifficultyAveragePrev := avg\<rparr>))
      else Inr s)"

definition dgw_step :: "CBlockIndex \<Rightarrow> dgw_state \<Rightarrow> pow_error + dgw_state" where
  "dgw_step b s =
     rbind (dgw_average b (s\<lparr>CountBlocks := CountBlocks s + 1\<rparr>))
       (\<lambda>s. let s1 = (if LastBlockTime s > 0
                      then s\<lparr>nActualTimespan := nActualTimespan s + (LastBlockTime s - GetBlockTime b)\<rparr> else s)
            in Inr (s1\<lparr>LastBlockTime := GetBlockTime b\<rparr>))"

fun dgw_loop :: "block_store \<Rightarrow> nat \<Rightarrow> ptr option \<Rightarrow> dgw_state \<Rightarrow> pow_error + dgw_state" where
  "dgw_loop st 0 BlockReading s = Inr s"
| "dgw_loop st (Suc n) BlockReading s =
     (case BlockReading of
        None \<Rightarrow> Inr s
      | Some p \<Rightarrow>
          (case st p of
             None \<Rightarrow> Inl Null_pointer
           | Some b \<Rightarrow>
               if nHeight b > 0 then rbind (dgw_step b s) (dgw_loop st n (pprev b))
               else Inr s))"

text \<open>The branch for blocks after the last proof-of-work block.\<close>

definition dgw_pos :: "block_store \<Rightarrow> CBlockIndex \<Rightarrow> pow_error + u32" where
  "dgw_pos st b =
     (let bnTargetLimit = uint_shr (uint_not (base_uint_u64 8 0)) 24;
          nSpacing = 120 :: int;
          nTargetTimespan = 120 * 24;
          nInterval = nTargetTimespan div nSpacing
      in rbind (if nHeight b \<noteq> 0
                then (case Option.bind (pprev b) st of
                        None \<Rightarrow> Inl Null_pointer
                      | Some prev \<Rightarrow> Inr (GetBlockTime b - GetBlockTime prev))
                else Inr 0)
           (\<lambda>nActualSpacing0.
              let nActualSpacing = (if nActualSpacing0 < 0 then 1 else nActualSpacing0)
              in rbind (from_uint (uint_div
                          (uint_mul32 (fst (SetCompact (nBits b)))
                             (of_int ((nInterval - 1) * nSpacing + nActualSpacing + nActualSpacing)))
                          (base_uint_u64 8 (of_int ((nInterval + 1) * nSpacing)))))
                   (\<lambda>bnNew.
                      from_assert (GetCompact False
                        (if uint_le bnNew (base_uint_u64 8 0) \<or> uint_gt bnNew bnTargetLimit
                         then bnTargetLimit else bnNew)))))"

definition dgw_clamp :: "int \<Rightarrow> int \<Rightarrow> int" where
  "dgw_clamp timespan target =
     (let t1 = (if timespan < target div 3 then target div 3 else timespan)
      in if t1 > target * 3 then target * 3 else t1)"

definition dgw_pow :: "CChainParams \<Rightarrow> block_store \<Rightarrow> ptr \<Rightarrow> CBlockIndex \<Rightarrow> pow_error + u32" where
  "dgw_pow par st p b =
     rbind (dgw_loop st PastBlocksMax (Some p) dgw_init)
       (\<lambda>s. let nTargetTimespan =
                  CountBlocks s * (if nHeight b > 499 then nTargetSpacing par else nTargetSpacingSlowLaunch par);
                timespan = dgw_clamp (nActualTimespan s) nTargetTimespan
            in rbind (from_uint (uint_div (uint_mul32 (PastDifficultyAverage s) (of_int timespan))
                                          (base_uint_u64 8 (of_int nTargetTimespan))))
                 (\<lambda>bnNew. from_assert (GetCompact False
                    (if uint_gt bnNew (bnProofOfWorkLimit par) then bnProofOfWorkLimit par else bnNew))))"

definition DarkGravityWave :: "CChainParams \<Rightarrow> block_store \<Rightarrow> ptr option \<Rightarrow> pow_error + u32" where
  "DarkGravityWave par st pindexLast =
     (case pindexLast of
        None \<Rightarrow> from_assert (GetCompact False (bnProofOfWorkLimit par))
      | Some p \<Rightarrow>
          (case st p of
             None \<Rightarrow> Inl Null_pointer
           | Some b \<Rightarrow>
               if nHeight b = 0 \<or> nHeight b < PastBlocksMin
               then from_assert (GetCompact False (bnProofOfWorkLimit par))
               else if nHeight b > nLastPOWBlock par then dgw_pos st b
               else dgw_pow par st p b))"

definition GetNextWorkRequired :: "CChainParams \<Rightarrow> block_store \<Rightarrow> ptr option \<Rightarrow> pow_error + u32" where
  "GetNextWorkRequired par st pindexLast = DarkGravityWave par st pindexLast"

section \<open>Proof of work\<close>

definition CheckProofOfWork :: "CChainParams \<Rightarrow> base_uint \<Rightarrow> u32 \<Rightarrow> bool" where
  "CheckProofOfWork par hash nCompact =
     (if fSkipProofOfWorkCheck par then True
      else (let (bnTarget, fNegative, fOverflow) = SetCompact nCompact
            in if fNegative \<or> EqualTo bnTarget 0 \<or> fOverflow \<or> uint_gt bnTarget (bnProofOfWorkLimit par)
               then False
               else if uint_gt hash bnTarget then False
               else True))"

definition GetBlockProof :: "CBlockIndex \<Rightarrow> uint_error + base_uint" where
  "GetBlockProof b =
     (let (bnTarget, fNegative, fOverflow) = SetCompact (nBits b)
      in if fNegative \<or> fOverflow \<or> EqualTo bnTarget 0 then Inr (base_uint_u64 8 0)
         else rbind (uint_div (uint_not bnTarget) (uint_add bnTarget (base_uint_u64 8 1)))
                (\<lambda>q. Inr (uint_add q (base_uint_u64 8 1))))"

section \<open>Lemmas\<close>

lemma uint_gt_iff [uval_simps]: "length a = length b \<Longrightarrow> uint_gt a b \<longleftrightarrow> uval b < uval a"
  using CompareTo_sgn [of a b] by (simp add: uint_gt_def sgn_if)

lemma uint_le_iff [uval_simps]: "length a = length b \<Longrightarrow> uint_le a b \<longleftrightarrow> uval a \<le> uval b"
  using CompareTo_sgn [of a b] by (simp add: uint_le_def sgn_if)

lemma unat_of_int_u64: "0 \<le> x \<Longrightarrow> x < 2 ^ 64 \<Longrightarrow> unat (of_int x :: u64) = nat x"
  by (simp add: unat_eq_nat_uint unsigned_of_int take_bit_int_eq_self)

lemma ucast_u64_eq_0: "(ucast (w :: u32) :: u64) = 0 \<longleftrightarrow> w = 0"
  by (simp add: unat_eq_0 [symmetric] unat_ucast_up)

lemma EqualTo_zero:
  assumes "2 \<le> length a"
  shows "EqualTo a 0 \<longleftrightarrow> uval a = 0"
proof -
  have "EqualTo a 0 \<longleftrightarrow> (\<forall>w \<in> set a. w = 0)"
    using assms by (cases a; cases "tl a") (auto simp: EqualTo_def ucast_u64_eq_0 list_all_iff)
  also have "\<dots> \<longleftrightarrow> uval a = 0"
    by (induction a) (simp_all add: unat_eq_0)
  finally show ?thesis .
qed

lemma from_uint_div:
  assumes "length a = length d" and "uval d \<noteq> 0"
  shows "\<exists>q. from_uint (uint_div a d) = Inr q \<and> length q = length a \<and> uval q = uval a div uval d"
  using uint_div_correct [OF assms] by (auto simp: from_uint_def)

text \<open>A compact word that decodes without a flag to a target of at most \<open>limit\<close>.\<close>

definition target_within :: "nat \<Rightarrow> pow_error + u32 \<Rightarrow> bool" where
  "target_within limit r \<longleftrightarrow>
     (\<exists>c t. r = Inr c \<and> SetCompact c = (t, False, False) \<and> uval t \<le> limit)"

lemma target_within_GetCompact:
  "length pn = 8 \<Longrightarrow> uval pn \<le> limit \<Longrightarrow> target_within limit (from_assert (GetCompact False pn))"
  using GetCompact_decode [of pn] by (fastforce simp: target_within_def from_assert_def)

lemma target_within_mono: "target_within l r \<Longrightarrow> l \<le> m \<Longrightarrow> target_within m r"
  by (auto simp: target_within_def)

text \<open>The loop is a fold over the blocks it visits.\<close>

fun dgw_fold :: "CBlockIndex list \<Rightarrow> dgw_state \<Rightarrow> pow_error + dgw_state" where
  "dgw_fold [] s = Inr s"
| "dgw_fold (b # bs) s = rbind (dgw_step b s) (dgw_fold bs)"

definition last_blocks :: "block_store \<Rightarrow> nat \<Rightarrow> ptr \<Rightarrow> CBlockIndex list" where
  "last_blocks st n p = map (\<lambda>i. the (st (the (nth_prev st i p)))) [0..<n]"

lemma last_blocks_Suc:
  assumes "wf_tree st" and "st p = Some b" and "pprev b = Some q"
  shows "last_blocks st (Suc n) p = b # last_blocks st n q"
  using assms by (simp add: last_blocks_def upt_conv_Cons comp_def flip: map_Suc_upt del: upt_Suc)

lemma dgw_loop_fold:
  assumes "wf_tree st"
  shows "st p = Some b \<Longrightarrow> int n \<le> nHeight b \<Longrightarrow>
    dgw_loop st n (Some p) s = dgw_fold (last_blocks st n p) s"
proof (induction n arbitrary: p b s)
  case 0
  then show ?case by (simp add: last_blocks_def)
next
  case (Suc n)
  then have "pprev b \<noteq> None" using wf_treeD(2) [OF assms Suc.prems(1)] by auto
  then obtain q c where q: "pprev b = Some q" "st q = Some c" "nHeight b = nHeight c + 1"
    using wf_treeD(3) [OF assms Suc.prems(1)] by blast
  have "dgw_loop st n (Some q) = dgw_fold (last_blocks st n q)"
    using Suc.IH [OF q(2)] Suc.prems(2) q(3) by (intro ext) simp
  with Suc.prems q last_blocks_Suc [OF assms Suc.prems(1) q(1)] show ?case by simp
qed

lemma uval_count: "0 \<le> x \<Longrightarrow> x < 2 ^ 64 \<Longrightarrow> uval (base_uint_u64 8 (of_int x)) = nat x"
  by (rule trans [OF uval_u64 unat_of_int_u64])

lemma unat_of_int_u32: "0 \<le> x \<Longrightarrow> x < 2 ^ 32 \<Longrightarrow> unat (of_int x :: u32) = nat x"
  by (simp add: unat_eq_nat_uint unsigned_of_int take_bit_int_eq_self)

definition dgw_ok :: "nat \<Rightarrow> dgw_state \<Rightarrow> bool" where
  "dgw_ok c s \<longleftrightarrow> CountBlocks s = int c \<and> length (PastDifficultyAverage s) = 8 \<and>
     PastDifficultyAveragePrev s = PastDifficultyAverage s"

definition target_of :: "CBlockIndex \<Rightarrow> nat" where
  "target_of b = uval (fst (SetCompact (nBits b)))"

lemma dgw_average_ok:
  assumes "dgw_ok c s" and "0 < c" and "c \<le> 24"
  shows "\<exists>avg. dgw_average b s = Inr (s\<lparr>PastDifficultyAverage := avg, PastDifficultyAveragePrev := avg\<rparr>) \<and>
    length avg = 8 \<and>
    uval avg = (if c = 1 then target_of b
                else (uval (PastDifficultyAverage s) * c mod 2 ^ 256 + target_of b) mod 2 ^ 256 div (c + 1))"
proof (cases "c = 1")
  case True
  then show ?thesis
    using assms by (intro exI [of _ "fst (SetCompact (nBits b))"])
      (simp add: dgw_average_def dgw_ok_def target_of_def PastBlocksMin_def)
next
  case False
  let ?a = "uint_add (uint_mul32 (PastDifficultyAverage s) (of_int (int c))) (fst (SetCompact (nBits b)))"
  have len: "length ?a = 8" using assms(1) by (simp add: dgw_ok_def)
  have "unat (of_int (int c) :: u32) = nat (int c)" by (rule unat_of_int_u32) (use assms(3) in simp_all)
  then have val: "uval ?a = (uval (PastDifficultyAverage s) * c mod 2 ^ 256 + target_of b) mod 2 ^ 256"
    using assms(1) by (simp add: dgw_ok_def uval_simps target_of_def)
  have "uval (base_uint_u64 8 (of_int (int c + 1))) = nat (int c + 1)"
    by (rule uval_count) (use assms(3) in simp_all)
  then have d: "uval (base_uint_u64 8 (of_int (int c + 1))) = c + 1" by simp
  obtain q where q: "from_uint (uint_div ?a (base_uint_u64 8 (of_int (int c + 1)))) = Inr q"
      "length q = 8" "uval q = uval ?a div (c + 1)"
    using from_uint_div [of ?a "base_uint_u64 8 (of_int (int c + 1))", unfolded d] len by auto
  have "dgw_average b s = rbind (from_uint (uint_div ?a (base_uint_u64 8 (of_int (int c + 1)))))
      (\<lambda>avg. Inr (s\<lparr>PastDifficultyAverage := avg, PastDifficultyAveragePrev := avg\<rparr>))"
    using assms False by (simp add: dgw_average_def dgw_ok_def PastBlocksMin_def)
  with q val False show ?thesis by (intro exI [of _ q]) simp
qed

lemma dgw_step_ok:
  assumes "dgw_ok c s" and "c < 24"
  shows "\<exists>s'. dgw_step b s = Inr s' \<and> dgw_ok (Suc c) s' \<and>
    uval (PastDifficultyAverage s') = (if c = 0 then target_of b
      else (uval (PastDifficultyAverage s) * Suc c mod 2 ^ 256 + target_of b) mod 2 ^ 256 div (Suc c + 1)) \<and>
    LastBlockTime s' = GetBlockTime b \<and>
    nActualTimespan s' = nActualTimespan s + (if LastBlockTime s > 0 then LastBlockTime s - GetBlockTime b else 0)"
proof -
  let ?s = "s\<lparr>CountBlocks := CountBlocks s + 1\<rparr>"
  have "dgw_ok (Suc c) ?s" using assms(1) by (simp add: dgw_ok_def)
  from dgw_average_ok [OF this, of b] obtain avg where
    "dgw_average b ?s = Inr (?s\<lparr>PastDifficultyAverage := avg, PastDifficultyAveragePrev := avg\<rparr>)" "length avg = 8"
    "uval avg = (if Suc c = 1 then target_of b
                else (uval (PastDifficultyAverage s) * Suc c mod 2 ^ 256 + target_of b) mod 2 ^ 256 div (Suc c + 1))"
    using assms(2) by auto
  then show ?thesis
    using assms(1) by (simp add: dgw_step_def dgw_ok_def Let_def)
qed

lemma dgw_fold_ok: "dgw_ok c s \<Longrightarrow> c + length bs \<le> 24 \<Longrightarrow> \<exists>s'. dgw_fold bs s = Inr s' \<and> dgw_ok (c + length bs) s'"
proof (induction bs arbitrary: c s)
  case (Cons b bs)
  from dgw_step_ok [OF Cons.prems(1), of b] Cons.prems(2) obtain s1 where
    "dgw_step b s = Inr s1" "dgw_ok (Suc c) s1" by auto
  with Cons.IH [of "Suc c" s1] Cons.prems(2) show ?case by auto
qed auto

text \<open>The running average over natural numbers and the time between the first and the last block.\<close>

fun dgw_mean :: "nat \<Rightarrow> nat \<Rightarrow> nat list \<Rightarrow> nat" where
  "dgw_mean c avg [] = avg"
| "dgw_mean c avg (t # ts) = dgw_mean (Suc c) (if c = 0 then t else (avg * Suc c + t) div (Suc c + 1)) ts"

lemma mean_step_bound: "(avg :: nat) \<le> l \<Longrightarrow> t \<le> l \<Longrightarrow> (avg * Suc c + t) div (Suc c + 1) \<le> l"
proof -
  assume "avg \<le> l" "t \<le> l"
  then have "avg * Suc c + t \<le> l * (Suc c + 1)" by (simp add: add_mono mult_le_mono1 algebra_simps)
  then show ?thesis by (metis div_le_mono nonzero_mult_div_cancel_right add_is_0 one_neq_zero)
qed

lemma dgw_mean_bound: "avg \<le> l \<Longrightarrow> \<forall>t \<in> set ts. t \<le> l \<Longrightarrow> dgw_mean c avg ts \<le> l"
proof (induction ts arbitrary: c avg)
  case (Cons t ts)
  then show ?case using mean_step_bound [of avg l t c] by simp
qed simp

lemma dgw_fold_value:
  assumes "l * 25 < 2 ^ 256" and "dgw_ok c s" and "c + length bs \<le> 24" and "uval (PastDifficultyAverage s) \<le> l"
    and "\<forall>b \<in> set bs. target_of b \<le> l \<and> 0 < GetBlockTime b"
    and "dgw_fold bs s = Inr s'"
  shows "uval (PastDifficultyAverage s') = dgw_mean c (uval (PastDifficultyAverage s)) (map target_of bs) \<and>
    (bs \<noteq> [] \<longrightarrow> nActualTimespan s' = nActualTimespan s +
       ((if LastBlockTime s > 0 then LastBlockTime s else GetBlockTime (hd bs)) - GetBlockTime (last bs)))"
  using assms(2-)
proof (induction bs arbitrary: c s)
  case (Cons b bs)
  from dgw_step_ok [OF Cons.prems(1), of b] Cons.prems(2) obtain s1 where
    s1: "dgw_step b s = Inr s1" "dgw_ok (Suc c) s1" "LastBlockTime s1 = GetBlockTime b"
      "uval (PastDifficultyAverage s1) = (if c = 0 then target_of b
        else (uval (PastDifficultyAverage s) * Suc c mod 2 ^ 256 + target_of b) mod 2 ^ 256 div (Suc c + 1))"
      "nActualTimespan s1 = nActualTimespan s + (if LastBlockTime s > 0 then LastBlockTime s - GetBlockTime b else 0)"
    by auto
  let ?a = "uval (PastDifficultyAverage s)"
  have b: "target_of b \<le> l" "0 < GetBlockTime b" using Cons.prems(4) by simp_all
  have "?a * Suc c \<le> l * 24" using Cons.prems(2,3) by (intro mult_le_mono) simp_all
  then have "?a * Suc c + target_of b < 2 ^ 256" using b(1) assms(1) by simp
  then have avg: "uval (PastDifficultyAverage s1) =
      (if c = 0 then target_of b else (?a * Suc c + target_of b) div (Suc c + 1))"
    unfolding s1(4) by (simp del: mult_Suc_right)
  have "uval (PastDifficultyAverage s1) \<le> l"
    unfolding avg using b(1) Cons.prems(3) mean_step_bound [of ?a l "target_of b" c] by simp
  moreover have "dgw_fold bs s1 = Inr s'" using Cons.prems(5) s1(1) by simp
  ultimately have "uval (PastDifficultyAverage s') = dgw_mean (Suc c) (uval (PastDifficultyAverage s1)) (map target_of bs) \<and>
      (bs \<noteq> [] \<longrightarrow> nActualTimespan s' = nActualTimespan s1 +
         ((if LastBlockTime s1 > 0 then LastBlockTime s1 else GetBlockTime (hd bs)) - GetBlockTime (last bs)))"
    using Cons.IH [OF s1(2)] Cons.prems(2,4) by simp
  moreover have "s' = s1" if "bs = []" using that \<open>dgw_fold bs s1 = Inr s'\<close> by simp
  ultimately show ?case using avg s1(3,5) b(2) by (cases bs) simp_all
qed simp

lemma dgw_ok_init: "dgw_ok 0 dgw_init"
  by (simp add: dgw_ok_def dgw_init_def base_uint_zero_def)

lemma dgw_loop_ok:
  assumes "wf_tree st" and "st p = Some b" and "24 \<le> nHeight b"
  shows "\<exists>s. dgw_loop st PastBlocksMax (Some p) dgw_init = Inr s \<and> dgw_ok 24 s"
  using dgw_fold_ok [OF dgw_ok_init, of "last_blocks st 24 p"] assms
  by (simp add: dgw_loop_fold PastBlocksMax_def last_blocks_def)

lemma dgw_clamp_between: "0 \<le> target \<Longrightarrow> dgw_clamp t target = max (target div 3) (min t (target * 3))"
  by (auto simp: dgw_clamp_def Let_def max_def min_def)

lemma dgw_clamp_bounds:
  "0 < target \<Longrightarrow> target div 3 \<le> dgw_clamp t target \<and> dgw_clamp t target \<le> target * 3"
  by (auto simp: dgw_clamp_def Let_def)

lemma dgw_pos_within:
  assumes "wf_tree st" and "st p = Some b"
  shows "target_within (2 ^ 232 - 1) (dgw_pos st b)"
proof -
  let ?limit = "uint_shr (uint_not (base_uint_u64 8 0)) 24"
  have limit: "length ?limit = 8" "uval ?limit = 2 ^ 232 - 1" by (simp_all add: uval_simps)
  obtain x where x: "(if nHeight b \<noteq> 0
        then (case Option.bind (pprev b) st of None \<Rightarrow> Inl Null_pointer
              | Some prev \<Rightarrow> Inr (GetBlockTime b - GetBlockTime prev))
        else Inr 0) = (Inr x :: pow_error + int)"
    using wf_treeD(2,3) [OF assms] by (cases "pprev b") fastforce+
  let ?m = "uint_mul32 (fst (SetCompact (nBits b))) (of_int ((120 * 24 div 120 - 1) * 120 + (if x < 0 then 1 else x) + (if x < 0 then 1 else x)))"
  let ?d = "base_uint_u64 8 (of_int ((120 * 24 div 120 + 1) * 120))"
  have "uval ?d = 3000" by (simp add: uval_simps)
  then obtain q where q: "from_uint (uint_div ?m ?d) = Inr q" "length q = 8"
    using from_uint_div [of ?m ?d] by auto
  define r where "r = (if uint_le q (base_uint_u64 8 0) \<or> uint_gt q ?limit then ?limit else q)"
  have r: "length r = 8" "uval r \<le> 2 ^ 232 - 1"
    using q(2) limit by (auto simp: r_def uint_gt_iff)
  have "dgw_pos st b = from_assert (GetCompact False r)"
    unfolding dgw_pos_def Let_def x by (simp only: rbind_Inr q(1) r_def)
  then show ?thesis using target_within_GetCompact r by simp
qed

lemma dgw_pow_within:
  assumes "wf_tree st" and "st p = Some b" and "24 \<le> nHeight b"
    and "length (bnProofOfWorkLimit par) = 8"
    and "0 < nTargetSpacing par" "nTargetSpacing par < 2 ^ 32"
    and "0 < nTargetSpacingSlowLaunch par" "nTargetSpacingSlowLaunch par < 2 ^ 32"
  shows "target_within (uval (bnProofOfWorkLimit par)) (dgw_pow par st p b)"
proof -
  obtain s where s: "dgw_loop st PastBlocksMax (Some p) dgw_init = Inr s" "dgw_ok 24 s"
    using dgw_loop_ok [OF assms(1-3)] by blast
  define T where "T = CountBlocks s * (if nHeight b > 499 then nTargetSpacing par else nTargetSpacingSlowLaunch par)"
  have T: "0 < T" "T < 2 ^ 64" using s(2) assms(5-8) by (auto simp: T_def dgw_ok_def)
  have d: "uval (base_uint_u64 8 (of_int T)) = nat T" by (rule uval_count) (use T in simp_all)
  let ?m = "uint_mul32 (PastDifficultyAverage s) (of_int (dgw_clamp (nActualTimespan s) T))"
  obtain q where q: "from_uint (uint_div ?m (base_uint_u64 8 (of_int T))) = Inr q" "length q = 8"
    using from_uint_div [of ?m "base_uint_u64 8 (of_int T)", unfolded d] T(1) s(2) by (auto simp: dgw_ok_def)
  define r where "r = (if uint_gt q (bnProofOfWorkLimit par) then bnProofOfWorkLimit par else q)"
  have r: "length r = 8" "uval r \<le> uval (bnProofOfWorkLimit par)"
    using q(2) assms(4) by (auto simp: r_def uint_gt_iff)
  have "dgw_pow par st p b = from_assert (GetCompact False r)"
    unfolding dgw_pow_def Let_def s(1) by (simp only: rbind_Inr T_def [symmetric] q(1) r_def)
  then show ?thesis using target_within_GetCompact r by simp
qed

lemma last_blocks_ends:
  assumes "st p = Some b" and "0 < n"
  shows "last_blocks st n p \<noteq> []" and "hd (last_blocks st n p) = b"
    and "last (last_blocks st n p) = the (st (the (nth_prev st (n - 1) p)))"
  using assms by (simp_all add: last_blocks_def hd_map last_map)

lemma dgw_pow_value:
  assumes "wf_tree st" and "st p = Some b" and "24 \<le> nHeight b"
    and limit: "length (bnProofOfWorkLimit par) = 8" "uval (bnProofOfWorkLimit par) < 2 ^ 236"
    and spacing: "spacing = (if nHeight b > 499 then nTargetSpacing par else nTargetSpacingSlowLaunch par)"
      "0 < spacing" "spacing \<le> 3600"
    and blocks: "\<forall>c \<in> set (last_blocks st 24 p). target_of c \<le> uval (bnProofOfWorkLimit par) \<and> 0 < GetBlockTime c"
    and span: "span = dgw_clamp (GetBlockTime b - GetBlockTime (last (last_blocks st 24 p))) (24 * spacing)"
  shows "\<exists>pn. dgw_pow par st p b = from_assert (GetCompact False pn) \<and> length pn = 8 \<and>
    uval pn = min (uval (bnProofOfWorkLimit par))
                  (dgw_mean 0 0 (map target_of (last_blocks st 24 p)) * nat span div nat (24 * spacing))"
proof -
  let ?l = "uval (bnProofOfWorkLimit par)"
  obtain s where s: "dgw_fold (last_blocks st 24 p) dgw_init = Inr s" "dgw_ok 24 s"
    using dgw_fold_ok [OF dgw_ok_init, of "last_blocks st 24 p"] by (auto simp: last_blocks_def)
  have run: "dgw_loop st PastBlocksMax (Some p) dgw_init = Inr s"
    using s(1) assms(1-3) by (simp add: dgw_loop_fold PastBlocksMax_def)
  have ends: "last_blocks st 24 p \<noteq> []" "hd (last_blocks st 24 p) = b"
    using last_blocks_ends [of st p b 24] assms(2) by simp_all
  have init: "uval (PastDifficultyAverage dgw_init) = 0" "LastBlockTime dgw_init = 0" "nActualTimespan dgw_init = 0"
    by (simp_all add: dgw_init_def base_uint_zero_def uval_replicate_0)
  have len24: "0 + length (last_blocks st 24 p) \<le> 24" by (simp add: last_blocks_def)
  have l25: "?l * 25 < 2 ^ 256" using limit(2) by simp
  have val: "uval (PastDifficultyAverage s) = dgw_mean 0 0 (map target_of (last_blocks st 24 p))"
      "nActualTimespan s = GetBlockTime b - GetBlockTime (last (last_blocks st 24 p))"
    using dgw_fold_value [OF l25 dgw_ok_init len24 _ blocks s(1)] ends by (simp_all add: init)
  define T where "T = 24 * spacing"
  have T: "0 < T" "T \<le> 86400" using spacing by (simp_all add: T_def)
  have sp: "0 \<le> span" "span \<le> T * 3"
    using dgw_clamp_bounds [OF T(1)] T(1) unfolding span T_def [symmetric]
    by (auto intro: order_trans [of 0 "T div 3"])
  have "dgw_mean 0 0 (map target_of (last_blocks st 24 p)) \<le> ?l"
    using blocks by (intro dgw_mean_bound) auto
  then have "uval (PastDifficultyAverage s) * nat span \<le> ?l * 259200"
    using val sp T by (intro mult_le_mono) auto
  also have "\<dots> < 2 ^ 256" using limit(2) by simp
  finally have small: "uval (PastDifficultyAverage s) * nat span < 2 ^ 256" .
  let ?m = "uint_mul32 (PastDifficultyAverage s) (of_int span)"
  have "unat (of_int span :: u32) = nat span" by (rule unat_of_int_u32) (use sp T in simp_all)
  then have m: "uval ?m = uval (PastDifficultyAverage s) * nat span" "length ?m = 8"
    using small s(2) by (simp_all add: uval_mul32 dgw_ok_def)
  have d: "uval (base_uint_u64 8 (of_int T)) = nat T" by (rule uval_count) (use T in simp_all)
  obtain q where q: "from_uint (uint_div ?m (base_uint_u64 8 (of_int T))) = Inr q" "length q = 8"
      "uval q = uval ?m div nat T"
    using from_uint_div [of ?m "base_uint_u64 8 (of_int T)", unfolded d] T(1) m(2) by auto
  define r where "r = (if uint_gt q (bnProofOfWorkLimit par) then bnProofOfWorkLimit par else q)"
  have r: "length r = 8" "uval r = min ?l (uval ?m div nat T)"
    using q(2,3) limit(1) by (auto simp: r_def uint_gt_iff)
  have count: "CountBlocks s = 24" using s(2) by (simp add: dgw_ok_def)
  have "dgw_pow par st p b = from_assert (GetCompact False r)"
    unfolding dgw_pow_def Let_def run
    by (simp only: rbind_Inr count val(2) spacing(1) [symmetric] T_def [symmetric]
        span [folded T_def, symmetric] q(1) r_def)
  then show ?thesis using r m(1) val(1) by (auto simp: T_def)
qed

section \<open>Properties of difficulty and proof of work\<close>

text \<open>A chain without end, for the witnesses.\<close>

definition long_store :: block_store where
  "long_store = (\<lambda>n. Some ((sample_block 5 (if n = 0 then None else Some (n - 1)) None)\<lparr>nHeight := int n\<rparr>))"

lemma long_store_wf: "wf_tree long_store"
  by (auto simp: wf_tree_def long_store_def sample_block_def)

lemma CMainParams_limit: "length (bnProofOfWorkLimit CMainParams) = 8" "uval (bnProofOfWorkLimit CMainParams) = 2 ^ 236 - 1"
  by (simp_all add: CMainParams_def uval_simps)

text \<open>
  The next target always exists and is within the limits.  For every block of a well-formed tree
  (and for no block at all) \<open>GetNextWorkRequired\<close> divides by no zero, follows no null pointer and
  fails no assertion; its result decodes without a negative or overflow flag, to a target that does
  not exceed the proof-of-work limit of the chain, or \<open>2 ^ 232 - 1\<close> after the last proof-of-work
  block.
\<close>

theorem GetNextWorkRequired_within:
  assumes "wf_tree st" and "\<And>p. pindexLast = Some p \<Longrightarrow> st p \<noteq> None"
    and "length (bnProofOfWorkLimit par) = 8"
    and "0 < nTargetSpacing par" "nTargetSpacing par < 2 ^ 32"
    and "0 < nTargetSpacingSlowLaunch par" "nTargetSpacingSlowLaunch par < 2 ^ 32"
  shows "\<exists>c t. GetNextWorkRequired par st pindexLast = Inr c \<and> SetCompact c = (t, False, False) \<and>
    uval t \<le> (if (\<exists>p b. pindexLast = Some p \<and> st p = Some b \<and> 24 \<le> nHeight b \<and> nLastPOWBlock par < nHeight b)
               then 2 ^ 232 - 1 else uval (bnProofOfWorkLimit par))"
proof -
  note limit = target_within_GetCompact [OF assms(3) order_refl]
  have "target_within (if (\<exists>p b. pindexLast = Some p \<and> st p = Some b \<and> 24 \<le> nHeight b \<and> nLastPOWBlock par < nHeight b)
      then 2 ^ 232 - 1 else uval (bnProofOfWorkLimit par)) (GetNextWorkRequired par st pindexLast)"
  proof (cases pindexLast)
    case None
    then show ?thesis using limit by (simp add: GetNextWorkRequired_def DarkGravityWave_def)
  next
    case (Some p)
    then obtain b where b: "st p = Some b" using assms(2) by blast
    consider "nHeight b < 24" | "24 \<le> nHeight b" "nLastPOWBlock par < nHeight b"
      | "24 \<le> nHeight b" "\<not> nLastPOWBlock par < nHeight b" by linarith
    then show ?thesis
    proof cases
      case 1
      then show ?thesis
        using Some b limit by (simp add: GetNextWorkRequired_def DarkGravityWave_def PastBlocksMin_def)
    next
      case 2
      then show ?thesis
        using Some b dgw_pos_within [OF assms(1) b]
        by (simp add: GetNextWorkRequired_def DarkGravityWave_def PastBlocksMin_def)
    next
      case 3
      then show ?thesis
        using Some b dgw_pow_within [OF assms(1) b 3(1) assms(3-7)]
        by (simp add: GetNextWorkRequired_def DarkGravityWave_def PastBlocksMin_def)
    qed
  qed
  then show ?thesis by (simp only: target_within_def)
qed

theorem GetNextWorkRequired_within_witness:
  "\<exists>c t. GetNextWorkRequired CMainParams long_store (Some 30) = Inr c \<and> SetCompact c = (t, False, False) \<and>
     uval t \<le> 2 ^ 236 - 1"
  using GetNextWorkRequired_within [OF long_store_wf, of "Some 30" CMainParams] CMainParams_limit
  by (auto simp: CMainParams_def long_store_def sample_block_def split: if_splits)

text \<open>
  C30: the value of the next target.  When the last 24 targets are within a limit below
  \<open>2 ^ 236\<close> and the block times are positive, no 256-bit operation and no 32-bit conversion loses
  bits: the result encodes the running average of the last 24 targets, scaled by the time between
  the first and the last of these blocks clamped to a third and three times the intended time, and
  capped at the limit.
\<close>

theorem GetNextWorkRequired_value:
  assumes "wf_tree st" and "st p = Some b" and "24 \<le> nHeight b" and "nHeight b \<le> nLastPOWBlock par"
    and "length (bnProofOfWorkLimit par) = 8" "uval (bnProofOfWorkLimit par) < 2 ^ 236"
    and "spacing = (if nHeight b > 499 then nTargetSpacing par else nTargetSpacingSlowLaunch par)"
      "0 < spacing" "spacing \<le> 3600"
    and "\<forall>c \<in> set (last_blocks st 24 p). target_of c \<le> uval (bnProofOfWorkLimit par) \<and> 0 < GetBlockTime c"
    and "intended = 24 * spacing"
      "span = max (intended div 3) (min (GetBlockTime b - GetBlockTime (last (last_blocks st 24 p))) (intended * 3))"
  shows "\<exists>pn c. GetCompact False pn = Some c \<and> GetNextWorkRequired par st (Some p) = Inr c \<and> length pn = 8 \<and>
    uval pn = min (uval (bnProofOfWorkLimit par))
                  (dgw_mean 0 0 (map target_of (last_blocks st 24 p)) * nat span div nat intended)"
proof -
  have span: "span = dgw_clamp (GetBlockTime b - GetBlockTime (last (last_blocks st 24 p))) (24 * spacing)"
    using assms(8,11,12) by (simp add: dgw_clamp_between)
  obtain pn where pn: "dgw_pow par st p b = from_assert (GetCompact False pn)" "length pn = 8"
    "uval pn = min (uval (bnProofOfWorkLimit par))
                  (dgw_mean 0 0 (map target_of (last_blocks st 24 p)) * nat span div nat intended)"
    using dgw_pow_value [OF assms(1-3,5-10) span] unfolding assms(11) by blast
  obtain c where "GetCompact False pn = Some c" using GetCompact_decode [OF pn(2)] by blast
  moreover have "GetNextWorkRequired par st (Some p) = dgw_pow par st p b"
    using assms(2-4) by (simp add: GetNextWorkRequired_def DarkGravityWave_def PastBlocksMin_def)
  ultimately show ?thesis using pn by (auto simp: from_assert_def)
qed

theorem GetNextWorkRequired_value_witness:
  "\<exists>pn c. GetCompact False pn = Some c \<and> GetNextWorkRequired CMainParams long_store (Some 30) = Inr c \<and>
     uval pn = min (2 ^ 236 - 1) (dgw_mean 0 0 (map target_of (last_blocks long_store 24 30)) * 960 div 2880)"
proof -
  let ?b = "(sample_block 5 (Some 29) None)\<lparr>nHeight := 30\<rparr>"
  have b: "long_store 30 = Some ?b" by (simp add: long_store_def)
  have time: "GetBlockTime c = 1005" "nBits c = 0x1e0ffff0" if "c = the (long_store n)" for n c
    using that by (simp_all add: long_store_def sample_block_def GetBlockTime_def)
  have blocks: "GetBlockTime c = 1005 \<and> nBits c = 0x1e0ffff0" if "c \<in> set (last_blocks long_store 24 30)" for c
    using that time by (auto simp: last_blocks_def)
  have target: "target_of c \<le> 2 ^ 236 - 1 \<and> 0 < GetBlockTime c" if "c \<in> set (last_blocks long_store 24 30)" for c
    using blocks [OF that] by (simp add: target_of_def uval_SetCompact compact_value_def Let_def)
  have "GetBlockTime (last (last_blocks long_store 24 30)) = 1005"
    using blocks last_in_set [of "last_blocks long_store 24 30"] by (simp add: last_blocks_def)
  then have span: "2880 = 24 * (120 :: int)"
      "960 = max (2880 div 3) (min (GetBlockTime ?b - GetBlockTime (last (last_blocks long_store 24 30))) (2880 * 3))"
    by (simp_all add: sample_block_def GetBlockTime_def)
  have h: "24 \<le> nHeight ?b" "nHeight ?b \<le> nLastPOWBlock CMainParams"
      "120 = (if nHeight ?b > 499 then nTargetSpacing CMainParams else nTargetSpacingSlowLaunch CMainParams)"
      "0 < (120 :: int)" "(120 :: int) \<le> 3600" "uval (bnProofOfWorkLimit CMainParams) < 2 ^ 236"
    unfolding CMainParams_limit(2) by (simp_all add: CMainParams_def)
  have t: "\<forall>c \<in> set (last_blocks long_store 24 30).
      target_of c \<le> uval (bnProofOfWorkLimit CMainParams) \<and> 0 < GetBlockTime c"
    unfolding CMainParams_limit(2) using target by blast
  have n: "nat 960 = 960" "nat 2880 = 2880" by simp_all
  from GetNextWorkRequired_value [OF long_store_wf b h(1,2) CMainParams_limit(1) h(6,3,4,5) t span]
  show ?thesis unfolding CMainParams_limit(2) n by blast
qed

text \<open>
  C31: checking proof of work.  Unless the check is switched off, a hash passes exactly when the
  compact target is not negative, not zero, does not overflow, does not exceed the limit, and the
  hash, as a number, does not exceed the target.
\<close>

theorem CheckProofOfWork_iff:
  assumes "length hash = 8" and "length (bnProofOfWorkLimit par) = 8"
  shows "CheckProofOfWork par hash c \<longleftrightarrow>
    fSkipProofOfWorkCheck par \<or>
    (\<not> bit c 23 \<and> 0 < compact_value c \<and> compact_value c \<le> uval (bnProofOfWorkLimit par) \<and>
     uval hash \<le> compact_value c)"
proof -
  obtain t neg ov where sc: "SetCompact c = (t, neg, ov)" by (metis prod_cases3)
  have len: "length t = 8" and val: "uval t = compact_value c mod 2 ^ 256"
    and neg: "neg \<longleftrightarrow> bit c 23 \<and> compact_value c \<noteq> 0" and ov: "ov \<longleftrightarrow> 2 ^ 256 \<le> compact_value c"
    using uval_SetCompact [of c] SetCompact_negative [of c] SetCompact_overflow [of c] sc by simp_all
  have lt: "uval (bnProofOfWorkLimit par) < 2 ^ 256" using uval_less [of "bnProofOfWorkLimit par"] assms(2) by simp
  show ?thesis
  proof (cases ov)
    case True
    then show ?thesis using ov sc lt by (simp add: CheckProofOfWork_def)
  next
    case False
    then have "uval t = compact_value c" using val ov by simp
    with False sc len neg assms EqualTo_zero [of t] show ?thesis
      by (auto simp: CheckProofOfWork_def uint_gt_iff)
  qed
qed

theorem CheckProofOfWork_iff_witness:
  "CheckProofOfWork CMainParams (base_uint_u64 8 77) 0x1e0ffff0 \<and>
   \<not> CheckProofOfWork CMainParams (uint_not (base_uint_u64 8 0)) 0x1e0ffff0"
proof -
  have c: "compact_value 0x1e0ffff0 = 0x0ffff0 * 256 ^ 27" by (simp add: compact_value_def Let_def)
  have b: "\<not> bit (0x1e0ffff0 :: u32) 23" by (simp add: bit_iff_odd_drop_bit drop_bit_eq_div)
  show ?thesis
    using CheckProofOfWork_iff [OF _ CMainParams_limit(1), of "base_uint_u64 8 77" "0x1e0ffff0"]
      CheckProofOfWork_iff [OF _ CMainParams_limit(1), of "uint_not (base_uint_u64 8 0)" "0x1e0ffff0"]
    unfolding CMainParams_limit(2) c using b by (simp add: uval_simps CMainParams_def)
qed

text \<open>
  The work of a block.  \<open>GetBlockProof\<close> never divides by zero and is \<open>2 ^ 256\<close> divided by the
  target plus one, computed within 256 bits, and 0 for a negative, zero or overflowing target.
\<close>

theorem GetBlockProof_value:
  "\<exists>w. GetBlockProof b = Inr w \<and> length w = 8 \<and>
     uval w = (let t = compact_value (nBits b)
               in if bit (nBits b) 23 \<or> t = 0 \<or> 2 ^ 256 \<le> t then 0 else 2 ^ 256 div (t + 1))"
proof -
  obtain t neg ov where sc: "SetCompact (nBits b) = (t, neg, ov)" by (metis prod_cases3)
  have len: "length t = 8" and val: "uval t = compact_value (nBits b) mod 2 ^ 256"
    and neg: "neg \<longleftrightarrow> bit (nBits b) 23 \<and> compact_value (nBits b) \<noteq> 0"
    and ov: "ov \<longleftrightarrow> 2 ^ 256 \<le> compact_value (nBits b)"
    using uval_SetCompact [of "nBits b"] SetCompact_negative [of "nBits b"] SetCompact_overflow [of "nBits b"] sc
    by simp_all
  have zero: "EqualTo t 0 \<longleftrightarrow> uval t = 0" using EqualTo_zero [of t] len by simp
  show ?thesis
  proof (cases "neg \<or> ov \<or> uval t = 0")
    case True
    then have "GetBlockProof b = Inr (base_uint_u64 8 0)"
      using sc zero by (auto simp: GetBlockProof_def)
    moreover have "bit (nBits b) 23 \<or> compact_value (nBits b) = 0 \<or> 2 ^ 256 \<le> compact_value (nBits b)"
      using True val neg ov by (metis linorder_not_le mod_less)
    ultimately show ?thesis by (simp add: Let_def uval_simps)
  next
    case False
    then have t: "uval t = compact_value (nBits b)" using val ov by simp
    have plus: "uval (uint_add t (base_uint_u64 8 1)) = uval t + 1"
      using uval_target_plus_one [of "nBits b"] sc by simp
    have lt: "uval t + 1 < 2 ^ 256" using compact_target_bound [of "nBits b"] sc by simp
    obtain q where q: "uint_div (uint_not t) (uint_add t (base_uint_u64 8 1)) = Inr q"
        "length (uint_add q (base_uint_u64 8 1)) = 8"
        "uval (uint_add q (base_uint_u64 8 1)) = 2 ^ 256 div (uval t + 1)"
      using uint256.div_of_power [OF len _ lt _ plus] False len by auto
    then have "GetBlockProof b = Inr (uint_add q (base_uint_u64 8 1))"
      using False sc zero by (simp add: GetBlockProof_def)
    with q t False neg ov show ?thesis by (auto simp: Let_def)
  qed
qed

end
