(* ===== verification/Script.thy ===== *)
theory Script
  imports Transaction
begin

text \<open>
  Scripts: \<^verbatim>\<open>src/src/script/script.h\<close> and \<^verbatim>\<open>src/src/script/script.cpp\<close>.  A script is its bytes and an
  iterator into it is the list of bytes from that position to the end.  Opcodes are bytes; the
  value \<open>opcodetype\<close> of a failed read is \<open>OP_INVALIDOPCODE\<close>, as in the sources.
\<close>

section \<open>Opcodes\<close>

abbreviation (input) OP_0 :: byte where "OP_0 \<equiv> 0x00"
abbreviation (input) OP_FALSE :: byte where "OP_FALSE \<equiv> OP_0"
abbreviation (input) OP_PUSHDATA1 :: byte where "OP_PUSHDATA1 \<equiv> 0x4c"
abbreviation (input) OP_PUSHDATA2 :: byte where "OP_PUSHDATA2 \<equiv> 0x4d"
abbreviation (input) OP_PUSHDATA4 :: byte where "OP_PUSHDATA4 \<equiv> 0x4e"
abbreviation (input) OP_1NEGATE :: byte where "OP_1NEGATE \<equiv> 0x4f"
abbreviation (input) OP_RESERVED :: byte where "OP_RESERVED \<equiv> 0x50"
abbreviation (input) OP_1 :: byte where "OP_1 \<equiv> 0x51"
abbreviation (input) OP_TRUE :: byte where "OP_TRUE \<equiv> OP_1"
abbreviation (input) OP_2 :: byte where "OP_2 \<equiv> 0x52"
abbreviation (input) OP_3 :: byte where "OP_3 \<equiv> 0x53"
abbreviation (input) OP_4 :: byte where "OP_4 \<equiv> 0x54"
abbreviation (input) OP_5 :: byte where "OP_5 \<equiv> 0x55"
abbreviation (input) OP_6 :: byte where "OP_6 \<equiv> 0x56"
abbreviation (input) OP_7 :: byte where "OP_7 \<equiv> 0x57"
abbreviation (input) OP_8 :: byte where "OP_8 \<equiv> 0x58"
abbreviation (input) OP_9 :: byte where "OP_9 \<equiv> 0x59"
abbreviation (input) OP_10 :: byte where "OP_10 \<equiv> 0x5a"
abbreviation (input) OP_11 :: byte where "OP_11 \<equiv> 0x5b"
abbreviation (input) OP_12 :: byte where "OP_12 \<equiv> 0x5c"
abbreviation (input) OP_13 :: byte where "OP_13 \<equiv> 0x5d"
abbreviation (input) OP_14 :: byte where "OP_14 \<equiv> 0x5e"
abbreviation (input) OP_15 :: byte where "OP_15 \<equiv> 0x5f"
abbreviation (input) OP_16 :: byte where "OP_16 \<equiv> 0x60"
abbreviation (input) OP_NOP :: byte where "OP_NOP \<equiv> 0x61"
abbreviation (input) OP_VER :: byte where "OP_VER \<equiv> 0x62"
abbreviation (input) OP_IF :: byte where "OP_IF \<equiv> 0x63"
abbreviation (input) OP_NOTIF :: byte where "OP_NOTIF \<equiv> 0x64"
abbreviation (input) OP_VERIF :: byte where "OP_VERIF \<equiv> 0x65"
abbreviation (input) OP_VERNOTIF :: byte where "OP_VERNOTIF \<equiv> 0x66"
abbreviation (input) OP_ELSE :: byte where "OP_ELSE \<equiv> 0x67"
abbreviation (input) OP_ENDIF :: byte where "OP_ENDIF \<equiv> 0x68"
abbreviation (input) OP_VERIFY :: byte where "OP_VERIFY \<equiv> 0x69"
abbreviation (input) OP_RETURN :: byte where "OP_RETURN \<equiv> 0x6a"
abbreviation (input) OP_TOALTSTACK :: byte where "OP_TOALTSTACK \<equiv> 0x6b"
abbreviation (input) OP_FROMALTSTACK :: byte where "OP_FROMALTSTACK \<equiv> 0x6c"
abbreviation (input) OP_2DROP :: byte where "OP_2DROP \<equiv> 0x6d"
abbreviation (input) OP_2DUP :: byte where "OP_2DUP \<equiv> 0x6e"
abbreviation (input) OP_3DUP :: byte where "OP_3DUP \<equiv> 0x6f"
abbreviation (input) OP_2OVER :: byte where "OP_2OVER \<equiv> 0x70"
abbreviation (input) OP_2ROT :: byte where "OP_2ROT \<equiv> 0x71"
abbreviation (input) OP_2SWAP :: byte where "OP_2SWAP \<equiv> 0x72"
abbreviation (input) OP_IFDUP :: byte where "OP_IFDUP \<equiv> 0x73"
abbreviation (input) OP_DEPTH :: byte where "OP_DEPTH \<equiv> 0x74"
abbreviation (input) OP_DROP :: byte where "OP_DROP \<equiv> 0x75"
abbreviation (input) OP_DUP :: byte where "OP_DUP \<equiv> 0x76"
abbreviation (input) OP_NIP :: byte where "OP_NIP \<equiv> 0x77"
abbreviation (input) OP_OVER :: byte where "OP_OVER \<equiv> 0x78"
abbreviation (input) OP_PICK :: byte where "OP_PICK \<equiv> 0x79"
abbreviation (input) OP_ROLL :: byte where "OP_ROLL \<equiv> 0x7a"
abbreviation (input) OP_ROT :: byte where "OP_ROT \<equiv> 0x7b"
abbreviation (input) OP_SWAP :: byte where "OP_SWAP \<equiv> 0x7c"
abbreviation (input) OP_TUCK :: byte where "OP_TUCK \<equiv> 0x7d"
abbreviation (input) OP_CAT :: byte where "OP_CAT \<equiv> 0x7e"
abbreviation (input) OP_SUBSTR :: byte where "OP_SUBSTR \<equiv> 0x7f"
abbreviation (input) OP_LEFT :: byte where "OP_LEFT \<equiv> 0x80"
abbreviation (input) OP_RIGHT :: byte where "OP_RIGHT \<equiv> 0x81"
abbreviation (input) OP_SIZE :: byte where "OP_SIZE \<equiv> 0x82"
abbreviation (input) OP_INVERT :: byte where "OP_INVERT \<equiv> 0x83"
abbreviation (input) OP_AND :: byte where "OP_AND \<equiv> 0x84"
abbreviation (input) OP_OR :: byte where "OP_OR \<equiv> 0x85"
abbreviation (input) OP_XOR :: byte where "OP_XOR \<equiv> 0x86"
abbreviation (input) OP_EQUAL :: byte where "OP_EQUAL \<equiv> 0x87"
abbreviation (input) OP_EQUALVERIFY :: byte where "OP_EQUALVERIFY \<equiv> 0x88"
abbreviation (input) OP_RESERVED1 :: byte where "OP_RESERVED1 \<equiv> 0x89"
abbreviation (input) OP_RESERVED2 :: byte where "OP_RESERVED2 \<equiv> 0x8a"
abbreviation (input) OP_1ADD :: byte where "OP_1ADD \<equiv> 0x8b"
abbreviation (input) OP_1SUB :: byte where "OP_1SUB \<equiv> 0x8c"
abbreviation (input) OP_2MUL :: byte where "OP_2MUL \<equiv> 0x8d"
abbreviation (input) OP_2DIV :: byte where "OP_2DIV \<equiv> 0x8e"
abbreviation (input) OP_NEGATE :: byte where "OP_NEGATE \<equiv> 0x8f"
abbreviation (input) OP_ABS :: byte where "OP_ABS \<equiv> 0x90"
abbreviation (input) OP_NOT :: byte where "OP_NOT \<equiv> 0x91"
abbreviation (input) OP_0NOTEQUAL :: byte where "OP_0NOTEQUAL \<equiv> 0x92"
abbreviation (input) OP_ADD :: byte where "OP_ADD \<equiv> 0x93"
abbreviation (input) OP_SUB :: byte where "OP_SUB \<equiv> 0x94"
abbreviation (input) OP_MUL :: byte where "OP_MUL \<equiv> 0x95"
abbreviation (input) OP_DIV :: byte where "OP_DIV \<equiv> 0x96"
abbreviation (input) OP_MOD :: byte where "OP_MOD \<equiv> 0x97"
abbreviation (input) OP_LSHIFT :: byte where "OP_LSHIFT \<equiv> 0x98"
abbreviation (input) OP_RSHIFT :: byte where "OP_RSHIFT \<equiv> 0x99"
abbreviation (input) OP_BOOLAND :: byte where "OP_BOOLAND \<equiv> 0x9a"
abbreviation (input) OP_BOOLOR :: byte where "OP_BOOLOR \<equiv> 0x9b"
abbreviation (input) OP_NUMEQUAL :: byte where "OP_NUMEQUAL \<equiv> 0x9c"
abbreviation (input) OP_NUMEQUALVERIFY :: byte where "OP_NUMEQUALVERIFY \<equiv> 0x9d"
abbreviation (input) OP_NUMNOTEQUAL :: byte where "OP_NUMNOTEQUAL \<equiv> 0x9e"
abbreviation (input) OP_LESSTHAN :: byte where "OP_LESSTHAN \<equiv> 0x9f"
abbreviation (input) OP_GREATERTHAN :: byte where "OP_GREATERTHAN \<equiv> 0xa0"
abbreviation (input) OP_LESSTHANOREQUAL :: byte where "OP_LESSTHANOREQUAL \<equiv> 0xa1"
abbreviation (input) OP_GREATERTHANOREQUAL :: byte where "OP_GREATERTHANOREQUAL \<equiv> 0xa2"
abbreviation (input) OP_MIN :: byte where "OP_MIN \<equiv> 0xa3"
abbreviation (input) OP_MAX :: byte where "OP_MAX \<equiv> 0xa4"
abbreviation (input) OP_WITHIN :: byte where "OP_WITHIN \<equiv> 0xa5"
abbreviation (input) OP_RIPEMD160 :: byte where "OP_RIPEMD160 \<equiv> 0xa6"
abbreviation (input) OP_SHA1 :: byte where "OP_SHA1 \<equiv> 0xa7"
abbreviation (input) OP_SHA256 :: byte where "OP_SHA256 \<equiv> 0xa8"
abbreviation (input) OP_HASH160 :: byte where "OP_HASH160 \<equiv> 0xa9"
abbreviation (input) OP_HASH256 :: byte where "OP_HASH256 \<equiv> 0xaa"
abbreviation (input) OP_CODESEPARATOR :: byte where "OP_CODESEPARATOR \<equiv> 0xab"
abbreviation (input) OP_CHECKSIG :: byte where "OP_CHECKSIG \<equiv> 0xac"
abbreviation (input) OP_CHECKSIGVERIFY :: byte where "OP_CHECKSIGVERIFY \<equiv> 0xad"
abbreviation (input) OP_CHECKMULTISIG :: byte where "OP_CHECKMULTISIG \<equiv> 0xae"
abbreviation (input) OP_CHECKMULTISIGVERIFY :: byte where "OP_CHECKMULTISIGVERIFY \<equiv> 0xaf"
abbreviation (input) OP_NOP1 :: byte where "OP_NOP1 \<equiv> 0xb0"
abbreviation (input) OP_NOP2 :: byte where "OP_NOP2 \<equiv> 0xb1"
abbreviation (input) OP_NOP3 :: byte where "OP_NOP3 \<equiv> 0xb2"
abbreviation (input) OP_NOP4 :: byte where "OP_NOP4 \<equiv> 0xb3"
abbreviation (input) OP_NOP5 :: byte where "OP_NOP5 \<equiv> 0xb4"
abbreviation (input) OP_NOP6 :: byte where "OP_NOP6 \<equiv> 0xb5"
abbreviation (input) OP_NOP7 :: byte where "OP_NOP7 \<equiv> 0xb6"
abbreviation (input) OP_NOP8 :: byte where "OP_NOP8 \<equiv> 0xb7"
abbreviation (input) OP_NOP9 :: byte where "OP_NOP9 \<equiv> 0xb8"
abbreviation (input) OP_NOP10 :: byte where "OP_NOP10 \<equiv> 0xb9"
abbreviation (input) OP_SMALLINTEGER :: byte where "OP_SMALLINTEGER \<equiv> 0xfa"
abbreviation (input) OP_PUBKEYS :: byte where "OP_PUBKEYS \<equiv> 0xfb"
abbreviation (input) OP_PUBKEYHASH :: byte where "OP_PUBKEYHASH \<equiv> 0xfd"
abbreviation (input) OP_PUBKEY :: byte where "OP_PUBKEY \<equiv> 0xfe"
abbreviation (input) OP_INVALIDOPCODE :: byte where "OP_INVALIDOPCODE \<equiv> 0xff"

definition op_names :: "(byte \<times> string) list" where
  "op_names = [
    (OP_0, ''0''), (OP_PUSHDATA1, ''OP_PUSHDATA1''), (OP_PUSHDATA2, ''OP_PUSHDATA2''),
    (OP_PUSHDATA4, ''OP_PUSHDATA4''), (OP_1NEGATE, ''-1''), (OP_RESERVED, ''OP_RESERVED''),
    (OP_1, ''1''), (OP_2, ''2''), (OP_3, ''3''), (OP_4, ''4''), (OP_5, ''5''), (OP_6, ''6''),
    (OP_7, ''7''), (OP_8, ''8''), (OP_9, ''9''), (OP_10, ''10''), (OP_11, ''11''), (OP_12, ''12''),
    (OP_13, ''13''), (OP_14, ''14''), (OP_15, ''15''), (OP_16, ''16''), (OP_NOP, ''OP_NOP''),
    (OP_VER, ''OP_VER''), (OP_IF, ''OP_IF''), (OP_NOTIF, ''OP_NOTIF''), (OP_VERIF, ''OP_VERIF''),
    (OP_VERNOTIF, ''OP_VERNOTIF''), (OP_ELSE, ''OP_ELSE''), (OP_ENDIF, ''OP_ENDIF''),
    (OP_VERIFY, ''OP_VERIFY''), (OP_RETURN, ''OP_RETURN''), (OP_TOALTSTACK, ''OP_TOALTSTACK''),
    (OP_FROMALTSTACK, ''OP_FROMALTSTACK''), (OP_2DROP, ''OP_2DROP''), (OP_2DUP, ''OP_2DUP''),
    (OP_3DUP, ''OP_3DUP''), (OP_2OVER, ''OP_2OVER''), (OP_2ROT, ''OP_2ROT''), (OP_2SWAP, ''OP_2SWAP''),
    (OP_IFDUP, ''OP_IFDUP''), (OP_DEPTH, ''OP_DEPTH''), (OP_DROP, ''OP_DROP''), (OP_DUP, ''OP_DUP''),
    (OP_NIP, ''OP_NIP''), (OP_OVER, ''OP_OVER''), (OP_PICK, ''OP_PICK''), (OP_ROLL, ''OP_ROLL''),
    (OP_ROT, ''OP_ROT''), (OP_SWAP, ''OP_SWAP''), (OP_TUCK, ''OP_TUCK''), (OP_CAT, ''OP_CAT''),
    (OP_SUBSTR, ''OP_SUBSTR''), (OP_LEFT, ''OP_LEFT''), (OP_RIGHT, ''OP_RIGHT''),
    (OP_SIZE, ''OP_SIZE''), (OP_INVERT, ''OP_INVERT''), (OP_AND, ''OP_AND''), (OP_OR, ''OP_OR''),
    (OP_XOR, ''OP_XOR''), (OP_EQUAL, ''OP_EQUAL''), (OP_EQUALVERIFY, ''OP_EQUALVERIFY''),
    (OP_RESERVED1, ''OP_RESERVED1''), (OP_RESERVED2, ''OP_RESERVED2''), (OP_1ADD, ''OP_1ADD''),
    (OP_1SUB, ''OP_1SUB''), (OP_2MUL, ''OP_2MUL''), (OP_2DIV, ''OP_2DIV''), (OP_NEGATE, ''OP_NEGATE''),
    (OP_ABS, ''OP_ABS''), (OP_NOT, ''OP_NOT''), (OP_0NOTEQUAL, ''OP_0NOTEQUAL''), (OP_ADD, ''OP_ADD''),
    (OP_SUB, ''OP_SUB''), (OP_MUL, ''OP_MUL''), (OP_DIV, ''OP_DIV''), (OP_MOD, ''OP_MOD''),
    (OP_LSHIFT, ''OP_LSHIFT''), (OP_RSHIFT, ''OP_RSHIFT''), (OP_BOOLAND, ''OP_BOOLAND''),
    (OP_BOOLOR, ''OP_BOOLOR''), (OP_NUMEQUAL, ''OP_NUMEQUAL''),
    (OP_NUMEQUALVERIFY, ''OP_NUMEQUALVERIFY''), (OP_NUMNOTEQUAL, ''OP_NUMNOTEQUAL''),
    (OP_LESSTHAN, ''OP_LESSTHAN''), (OP_GREATERTHAN, ''OP_GREATERTHAN''),
    (OP_LESSTHANOREQUAL, ''OP_LESSTHANOREQUAL''), (OP_GREATERTHANOREQUAL, ''OP_GREATERTHANOREQUAL''),
    (OP_MIN, ''OP_MIN''), (OP_MAX, ''OP_MAX''), (OP_WITHIN, ''OP_WITHIN''),
    (OP_RIPEMD160, ''OP_RIPEMD160''), (OP_SHA1, ''OP_SHA1''), (OP_SHA256, ''OP_SHA256''),
    (OP_HASH160, ''OP_HASH160''), (OP_HASH256, ''OP_HASH256''),
    (OP_CODESEPARATOR, ''OP_CODESEPARATOR''), (OP_CHECKSIG, ''OP_CHECKSIG''),
    (OP_CHECKSIGVERIFY, ''OP_CHECKSIGVERIFY''), (OP_CHECKMULTISIG, ''OP_CHECKMULTISIG''),
    (OP_CHECKMULTISIGVERIFY, ''OP_CHECKMULTISIGVERIFY''), (OP_NOP1, ''OP_NOP1''),
    (OP_NOP2, ''OP_NOP2''), (OP_NOP3, ''OP_NOP3''), (OP_NOP4, ''OP_NOP4''), (OP_NOP5, ''OP_NOP5''),
    (OP_NOP6, ''OP_NOP6''), (OP_NOP7, ''OP_NOP7''), (OP_NOP8, ''OP_NOP8''), (OP_NOP9, ''OP_NOP9''),
    (OP_NOP10, ''OP_NOP10''), (OP_INVALIDOPCODE, ''OP_INVALIDOPCODE'')]"

definition GetOpName :: "byte \<Rightarrow> string" where
  "GetOpName opcode = (case map_of op_names opcode of None \<Rightarrow> ''OP_UNKNOWN'' | Some name \<Rightarrow> name)"

section \<open>Script numbers\<close>

datatype scriptnum_error = Script_number_overflow | Not_minimal

abbreviation (input) nMaxNumSize :: nat where "nMaxNumSize \<equiv> 4"

fun abs_bytes :: "nat \<Rightarrow> bytes" where
  "abs_bytes absvalue = (if absvalue = 0 then [] else of_nat absvalue # abs_bytes (absvalue div 256))"

declare abs_bytes.simps [simp del]

definition CScriptNum_serialize :: "int \<Rightarrow> bytes" where
  "CScriptNum_serialize v =
     (if v = 0 then []
      else let neg = v < 0; result = abs_bytes (nat \<bar>v\<bar>)
           in if last result AND 0x80 \<noteq> 0 then result @ [if neg then 0x80 else 0]
              else if neg then butlast result @ [last result OR 0x80]
              else result)"

definition set_vch :: "bytes \<Rightarrow> int" where
  "set_vch vch =
     (if vch = [] then 0
      else if last vch AND 0x80 \<noteq> 0 then - int (le_value (butlast vch @ [last vch AND 0x7f]))
      else int (le_value vch))"

definition is_minimal :: "bytes \<Rightarrow> bool" where
  "is_minimal vch \<longleftrightarrow>
     vch = [] \<or> \<not> (last vch AND 0x7f = 0 \<and> (length vch \<le> 1 \<or> vch ! (length vch - 2) AND 0x80 = 0))"

definition CScriptNum :: "bytes \<Rightarrow> bool \<Rightarrow> scriptnum_error + int" where
  "CScriptNum vch fRequireMinimal =
     (if length vch > nMaxNumSize then Inl Script_number_overflow
      else if fRequireMinimal \<and> \<not> is_minimal vch then Inl Not_minimal
      else Inr (set_vch vch))"

definition getint :: "int \<Rightarrow> int" where
  "getint v = (if v > 2147483647 then 2147483647 else if v < - 2147483648 then - 2147483648 else v)"

section \<open>Building scripts\<close>

definition push_vch :: "bytes \<Rightarrow> bytes" where
  "push_vch b =
     (if length b < unat OP_PUSHDATA1 then [of_nat (length b)]
      else if length b \<le> 0xff then [OP_PUSHDATA1, of_nat (length b)]
      else if length b \<le> 0xffff then OP_PUSHDATA2 # le_bytes 2 (length b)
      else OP_PUSHDATA4 # le_bytes 4 (length b)) @ b"

definition push_int64 :: "int \<Rightarrow> bytes" where
  "push_int64 v =
     (if v = - 1 \<or> (v \<ge> 1 \<and> v \<le> 16) then [of_int (v + (0x51 - 1))]
      else if v = 0 then [OP_0]
      else push_vch (CScriptNum_serialize v))"

text \<open>\<open>None\<close> stands for a failing \<open>assert\<close>.\<close>

definition DecodeOP_N :: "byte \<Rightarrow> int option" where
  "DecodeOP_N opcode =
     (if opcode = OP_0 then Some 0
      else if OP_1 \<le> opcode \<and> opcode \<le> OP_16 then Some (uint opcode - (0x51 - 1))
      else None)"

definition EncodeOP_N :: "int \<Rightarrow> byte option" where
  "EncodeOP_N v =
     (if 0 \<le> v \<and> v \<le> 16 then Some (if v = 0 then OP_0 else of_int (0x51 + v - 1)) else None)"

section \<open>Reading scripts\<close>

text \<open>The size of an immediate operand, and the position after it; \<open>None\<close> when the script ends
  within the size.\<close>

definition push_size :: "byte \<Rightarrow> bytes \<Rightarrow> (nat \<times> bytes) option" where
  "push_size opcode pc =
     (if opcode < OP_PUSHDATA1 then Some (unat opcode, pc)
      else if opcode = OP_PUSHDATA1 then
        if length pc < 1 then None else Some (unat (hd pc), tl pc)
      else if opcode = OP_PUSHDATA2 then
        if length pc < 2 then None else Some (le_value (take 2 pc), drop 2 pc)
      else
        if length pc < 4 then None else Some (le_value (take 4 pc), drop 4 pc))"

text \<open>The result is whether an instruction was read, the opcode, the operand, and the new position,
  which is advanced over what was read also when the result is false.\<close>

definition GetOp2 :: "bytes \<Rightarrow> bool \<times> byte \<times> bytes \<times> bytes" where
  "GetOp2 pc =
     (case pc of
        [] \<Rightarrow> (False, OP_INVALIDOPCODE, [], [])
      | opcode # pc1 \<Rightarrow>
          if opcode \<le> OP_PUSHDATA4 then
            (case push_size opcode pc1 of
               None \<Rightarrow> (False, OP_INVALIDOPCODE, [], pc1)
             | Some (nSize, pc2) \<Rightarrow>
                 if length pc2 < nSize then (False, OP_INVALIDOPCODE, [], pc2)
                 else (True, opcode, take nSize pc2, drop nSize pc2))
          else (True, opcode, [], pc1))"

lemma push_size_length: "push_size opcode pc = Some (k, pc2) \<Longrightarrow> length pc2 \<le> length pc"
  by (auto simp: push_size_def split: if_splits)

lemma GetOp2_progress:
  assumes "GetOp2 pc = (ok, opcode, vch, pc')"
  shows "length pc' \<le> length pc" and "pc \<noteq> [] \<Longrightarrow> length pc' < length pc" and "ok \<Longrightarrow> pc \<noteq> []"
  using assms
  by (auto simp: GetOp2_def split: list.splits if_splits option.splits dest!: push_size_length)

lemma GetOp2_progress_tuple: "pc \<noteq> [] \<Longrightarrow> length (snd (snd (snd (GetOp2 pc)))) < length pc"
  using GetOp2_progress(2) [of pc "fst (GetOp2 pc)" "fst (snd (GetOp2 pc))" "fst (snd (snd (GetOp2 pc)))"
      "snd (snd (snd (GetOp2 pc)))"] by simp

lemma GetOp2_shrinks [termination_simp]:
  "GetOp2 pc = (ok, opcode, vch, pc') \<Longrightarrow> pc \<noteq> [] \<Longrightarrow> length pc' < length pc"
  by (rule GetOp2_progress(2))

section \<open>Scanning scripts\<close>

function Find_loop :: "byte \<Rightarrow> bytes \<Rightarrow> nat" where
  "Find_loop op pc =
     (if pc = [] then 0
      else case GetOp2 pc of (ok, opcode, vch, pc') \<Rightarrow>
        if ok then (if opcode = op then 1 else 0) + Find_loop op pc' else 0)"
  by pat_completeness auto
termination
  by (relation "measure (\<lambda>(op, pc). length pc)") (auto dest: GetOp2_progress(2) [OF sym])

declare Find_loop.simps [simp del]

definition Find :: "byte \<Rightarrow> CScript \<Rightarrow> nat" where
  "Find op script = Find_loop op script"

text \<open>\<open>n\<close> is an \<open>unsigned int\<close>.\<close>

definition sigop_inc :: "bool \<Rightarrow> byte \<Rightarrow> byte \<Rightarrow> u32" where
  "sigop_inc fAccurate lastOpcode opcode =
     (if opcode = OP_CHECKSIG \<or> opcode = OP_CHECKSIGVERIFY then 1
      else if opcode = OP_CHECKMULTISIG \<or> opcode = OP_CHECKMULTISIGVERIFY then
        if fAccurate \<and> lastOpcode \<ge> OP_1 \<and> lastOpcode \<le> OP_16
        then (case DecodeOP_N lastOpcode of Some k \<Rightarrow> of_int k | None \<Rightarrow> 0)
        else 20
      else 0)"

function sigop_loop :: "bool \<Rightarrow> byte \<Rightarrow> u32 \<Rightarrow> bytes \<Rightarrow> u32" where
  "sigop_loop fAccurate lastOpcode n pc =
     (if pc = [] then n
      else case GetOp2 pc of (ok, opcode, vch, pc') \<Rightarrow>
        if \<not> ok then n
        else sigop_loop fAccurate opcode (n + sigop_inc fAccurate lastOpcode opcode) pc')"
  by pat_completeness auto
termination
  by (relation "measure (\<lambda>(a, l, n, pc). length pc)") (auto dest: GetOp2_progress(2) [OF sym])

declare sigop_loop.simps [simp del]

definition GetSigOpCount :: "bool \<Rightarrow> CScript \<Rightarrow> u32" where
  "GetSigOpCount fAccurate script = sigop_loop fAccurate OP_INVALIDOPCODE 0 script"

definition IsPayToScriptHash :: "CScript \<Rightarrow> bool" where
  "IsPayToScriptHash script \<longleftrightarrow>
     length script = 23 \<and> script ! 0 = OP_HASH160 \<and> script ! 1 = 0x14 \<and> script ! 22 = OP_EQUAL"

text \<open>The last item a script pushes; \<open>None\<close> when it is not a sequence of pushes.\<close>

function last_push :: "bytes \<Rightarrow> bytes \<Rightarrow> bytes option" where
  "last_push data pc =
     (if pc = [] then Some data
      else case GetOp2 pc of (ok, opcode, vch, pc') \<Rightarrow>
        if \<not> ok then None else if opcode > OP_16 then None else last_push vch pc')"
  by pat_completeness auto
termination
  by (relation "measure (\<lambda>(d, pc). length pc)") (auto dest: GetOp2_progress(2) [OF sym])

declare last_push.simps [simp del]

definition GetSigOpCount_P2SH :: "CScript \<Rightarrow> CScript \<Rightarrow> u32" where
  "GetSigOpCount_P2SH script sig =
     (if \<not> IsPayToScriptHash script then GetSigOpCount True script
      else case last_push [] sig of None \<Rightarrow> 0 | Some data \<Rightarrow> GetSigOpCount True data)"

function normal_payment_loop :: "nat \<Rightarrow> bytes \<Rightarrow> bool" where
  "normal_payment_loop i pc =
     (if pc = [] then True
      else case GetOp2 pc of (ok, opcode, vch, pc') \<Rightarrow>
        if i = 0 \<and> opcode \<noteq> OP_DUP then False
        else if i = 1 \<and> opcode \<noteq> OP_HASH160 then False
        else if i = 3 \<and> opcode \<noteq> OP_EQUALVERIFY then False
        else if i = 4 \<and> opcode \<noteq> OP_CHECKSIG then False
        else if i = 5 then False
        else normal_payment_loop (i + 1) pc')"
  by pat_completeness auto
termination
  by (relation "measure (\<lambda>(i, pc). length pc)") (auto dest: GetOp2_progress(2) [OF sym])

declare normal_payment_loop.simps [simp del]

definition IsNormalPaymentScript :: "CScript \<Rightarrow> bool" where
  "IsNormalPaymentScript script = (if length script \<noteq> 25 then False else normal_payment_loop 0 script)"

function IsPushOnly_from :: "bytes \<Rightarrow> bool" where
  "IsPushOnly_from pc =
     (if pc = [] then True
      else case GetOp2 pc of (ok, opcode, vch, pc') \<Rightarrow>
        if \<not> ok then False else if opcode > OP_16 then False else IsPushOnly_from pc')"
  by pat_completeness auto
termination
  by (relation "measure length") (auto dest: GetOp2_progress(2) [OF sym])

declare IsPushOnly_from.simps [simp del]

definition IsPushOnly :: "CScript \<Rightarrow> bool" where
  "IsPushOnly script = IsPushOnly_from script"

definition IsUnspendable :: "CScript \<Rightarrow> bool" where
  "IsUnspendable script \<longleftrightarrow> length script > 0 \<and> hd script = OP_RETURN"

subsection \<open>Deleting a signature\<close>

function strip_prefix :: "bytes \<Rightarrow> bytes \<Rightarrow> nat \<times> bytes" where
  "strip_prefix b pc =
     (if b \<noteq> [] \<and> length b \<le> length pc \<and> take (length b) pc = b
      then (case strip_prefix b (drop (length b) pc) of (k, pc') \<Rightarrow> (k + 1, pc'))
      else (0, pc))"
  by pat_completeness auto
termination
  by (relation "measure (\<lambda>(b, pc). length pc)") (auto simp flip: length_greater_0_conv)

declare strip_prefix.simps [simp del]

lemma strip_prefix_length: "strip_prefix b pc = (k, pc') \<Longrightarrow> length pc = k * length b + length pc'"
proof (induction b pc arbitrary: k pc' rule: strip_prefix.induct)
  case (1 b pc)
  then show ?case
    by (subst (asm) (2) strip_prefix.simps) (auto split: if_splits prod.splits)
qed

lemma FindAndDelete_progress:
  "(k, pc1) = strip_prefix b pc \<Longrightarrow> (True, opcode, vch, pc2) = GetOp2 pc1 \<Longrightarrow> length pc2 < length pc"
  using strip_prefix_length [of b pc k pc1] GetOp2_progress(2,3) [of pc1 True opcode vch pc2]
  by (auto dest: sym)

text \<open>The result is the number of deletions and the script from this position on; bytes before the
  position are not changed any more.\<close>

function FindAndDelete_loop :: "bytes \<Rightarrow> bytes \<Rightarrow> nat \<times> bytes" where
  "FindAndDelete_loop b pc =
     (case strip_prefix b pc of (k, pc1) \<Rightarrow>
        case GetOp2 pc1 of (ok, opcode, vch, pc2) \<Rightarrow>
          if ok then
            (case FindAndDelete_loop b pc2 of (k', script) \<Rightarrow>
               (k + k', take (length pc1 - length pc2) pc1 @ script))
          else (k, pc1))"
  by pat_completeness auto
termination
  by (relation "measure (\<lambda>(b, pc). length pc)")
    (auto intro: FindAndDelete_progress)

declare FindAndDelete_loop.simps [simp del]

definition FindAndDelete :: "CScript \<Rightarrow> CScript \<Rightarrow> nat \<times> CScript" where
  "FindAndDelete b script = (if b = [] then (0, script) else FindAndDelete_loop b script)"

section \<open>Lemmas on script numbers\<close>

lemma le_value_snoc: "le_value (bs @ [b]) = le_value bs + 256 ^ length bs * unat b"
  by (simp add: le_value_append)

lemma le_value_abs_bytes [byte_simps]: "le_value (abs_bytes v) = v"
proof (induction v rule: abs_bytes.induct)
  case (1 v)
  then show ?case
    by (subst abs_bytes.simps) (simp add: unat_byte_of_nat)
qed

lemma abs_bytes_eq_Nil [simp]: "abs_bytes v = [] \<longleftrightarrow> v = 0"
  by (subst abs_bytes.simps) simp

lemma abs_bytes_0 [simp]: "abs_bytes 0 = []"
  by simp

lemma last_abs_bytes: "v \<noteq> 0 \<Longrightarrow> last (abs_bytes v) \<noteq> 0"
proof (induction v rule: abs_bytes.induct)
  case (1 v)
  show ?case
  proof (cases "v div 256 = 0")
    case True
    then have "v < 256" by (simp add: div_eq_0_iff)
    then have "unat (of_nat v :: byte) = v" by (simp add: unat_byte_of_nat)
    then have "(of_nat v :: byte) \<noteq> 0" using 1(2) by force
    with True 1(2) show ?thesis by (subst abs_bytes.simps) simp
  next
    case False
    with 1 show ?thesis by (subst abs_bytes.simps) simp
  qed
qed

text \<open>A byte string is the representation of its value when its last byte is not zero.\<close>

lemma abs_bytes_le_value: "bs = [] \<or> last bs \<noteq> 0 \<Longrightarrow> abs_bytes (le_value bs) = bs"
proof (induction bs)
  case (Cons b bs)
  have "le_value (b # bs) \<noteq> 0"
  proof
    assume z: "le_value (b # bs) = 0"
    then have "le_value bs = 0" "b = 0" by (simp_all add: unat_eq_0)
    with Cons show False by (cases bs) (auto simp: abs_bytes.simps split: if_splits)
  qed
  moreover have "(of_nat (unat b + 256 * le_value bs) :: byte) = b"
    by (rule word_unat_eq_iff [THEN iffD2]) (simp only: unat_byte_of_nat mod_mult_self2, simp)
  moreover have "(unat b + 256 * le_value bs) div 256 = le_value bs" by simp
  moreover have "abs_bytes (le_value bs) = bs" using Cons by (cases bs) auto
  ultimately show ?case by (subst abs_bytes.simps) simp
qed (subst abs_bytes.simps, simp)

lemma length_abs_bytes: "length (abs_bytes v) \<le> k \<longleftrightarrow> v < 256 ^ k"
proof (induction v arbitrary: k rule: abs_bytes.induct)
  case (1 v)
  show ?case
  proof (cases "v = 0")
    case False
    then show ?thesis
    proof (cases k)
      case (Suc j)
      have "length (abs_bytes v) \<le> k \<longleftrightarrow> length (abs_bytes (v div 256)) \<le> j"
        using False Suc by (subst abs_bytes.simps) simp
      also have "\<dots> \<longleftrightarrow> v div 256 < 256 ^ j" using 1 False by simp
      also have "\<dots> \<longleftrightarrow> v < 256 ^ k" using Suc by (simp add: div_less_iff_less_mult mult.commute)
      finally show ?thesis .
    qed (use False in simp)
  qed simp
qed

lemma high_bit_iff: "(b :: byte) AND 0x80 \<noteq> 0 \<longleftrightarrow> 128 \<le> unat b"
proof -
  have "(0x80 :: byte) = push_bit 7 1" by simp
  then have "b AND 0x80 \<noteq> 0 \<longleftrightarrow> bit b 7" by (simp only: bit_iff_and_push_bit_not_eq_0)
  also have "\<dots> \<longleftrightarrow> 128 \<le> unat b"
    using bit_top_iff [of "unat b" 7] unat_byte_less [of b] by (simp add: bit_unsigned_iff)
  finally show ?thesis .
qed

lemma low_bits_value: "unat ((b :: byte) AND 0x7f) = unat b mod 128"
  unfolding septet_mask take_bit_eq_mask [symmetric] by (simp add: take_bit_eq_mod unat_mod)

lemma set_high_bit_value: "unat b < 128 \<Longrightarrow> unat ((b :: byte) OR 0x80) = unat b + 128"
proof -
  assume b: "unat b < 128"
  have "b AND 0x80 = 0" using b high_bit_iff [of b] by auto
  then have "b OR 0x80 = b + 0x80" by (simp add: disjunctive_add_eq_or)
  then show ?thesis using b unat_add_no_overflow [of b "0x80"] by simp
qed

lemma set_vch_snoc:
  "set_vch (bs @ [b]) = (if 128 \<le> unat b then - 1 else 1) * int (le_value bs + 256 ^ length bs * (unat b mod 128))"
proof -
  have "\<not> 128 \<le> unat b \<Longrightarrow> unat b mod 128 = unat b" by simp
  then show ?thesis
    using high_bit_iff [of b] by (auto simp: set_vch_def le_value_snoc low_bits_value)
qed

lemma CScriptNum_serialize_snoc:
  assumes "v \<noteq> 0"
  obtains bs b where "abs_bytes (nat \<bar>v\<bar>) = bs @ [b]" "b \<noteq> 0"
    "CScriptNum_serialize v =
       (if 128 \<le> unat b then bs @ [b] @ [if v < 0 then 0x80 else 0] else bs @ [if v < 0 then b OR 0x80 else b])"
    "nat \<bar>v\<bar> = le_value bs + 256 ^ length bs * unat b"
proof -
  let ?r = "abs_bytes (nat \<bar>v\<bar>)"
  have ne: "?r \<noteq> []" using assms by simp
  define bs b where "bs = butlast ?r" and "b = last ?r"
  have r: "?r = bs @ [b]" using ne by (simp add: bs_def b_def)
  have "b \<noteq> 0" using last_abs_bytes [of "nat \<bar>v\<bar>"] assms by (simp add: b_def)
  moreover have "CScriptNum_serialize v =
      (if 128 \<le> unat b then bs @ [b] @ [if v < 0 then 0x80 else 0] else bs @ [if v < 0 then b OR 0x80 else b])"
    using assms r high_bit_iff [of b] by (simp add: CScriptNum_serialize_def Let_def)
  moreover have "nat \<bar>v\<bar> = le_value bs + 256 ^ length bs * unat b"
    using le_value_abs_bytes [of "nat \<bar>v\<bar>"] r by (simp add: le_value_snoc)
  ultimately show thesis using that r by blast
qed

lemma set_vch_serialize: "set_vch (CScriptNum_serialize v) = v"
proof (cases "v = 0")
  case True
  then show ?thesis by (simp add: CScriptNum_serialize_def set_vch_def)
next
  case False
  then obtain bs b where s: "CScriptNum_serialize v =
       (if 128 \<le> unat b then bs @ [b] @ [if v < 0 then 0x80 else 0] else bs @ [if v < 0 then b OR 0x80 else b])"
    and abs: "nat \<bar>v\<bar> = le_value bs + 256 ^ length bs * unat b"
    by (rule CScriptNum_serialize_snoc)
  have v: "v = (if v < 0 then - 1 else 1) * int (nat \<bar>v\<bar>)" by simp
  show ?thesis
  proof (cases "128 \<le> unat b")
    case True
    then have "set_vch (CScriptNum_serialize v) = (if v < 0 then - 1 else 1) * int (le_value (bs @ [b]))"
      using set_vch_snoc [of "bs @ [b]" "if v < 0 then 0x80 else 0"] by (simp add: s)
    then show ?thesis using v abs by (simp add: le_value_snoc)
  next
    case low: False
    then have "set_vch (CScriptNum_serialize v) = (if v < 0 then - 1 else 1) * int (le_value bs + 256 ^ length bs * unat b)"
      using set_vch_snoc [of bs "if v < 0 then b OR 0x80 else b"] set_high_bit_value [of b]
      by (simp add: s split: if_splits)
    then show ?thesis using v abs by simp
  qed
qed

lemma is_minimal_snoc:
  "is_minimal (bs @ [b]) \<longleftrightarrow> unat b mod 128 \<noteq> 0 \<or> bs \<noteq> [] \<and> 128 \<le> unat (last bs)"
proof -
  have "b AND 0x7f = 0 \<longleftrightarrow> unat b mod 128 = 0" by (simp flip: low_bits_value add: unat_eq_0)
  moreover have "bs \<noteq> [] \<Longrightarrow> (bs @ [b]) ! (length (bs @ [b]) - 2) = last bs"
    by (simp add: nth_append last_conv_nth Suc_le_eq less_diff_conv2 flip: length_greater_0_conv)
  ultimately show ?thesis
    using high_bit_iff [of "last bs"] by (cases "bs = []") (auto simp: is_minimal_def Suc_le_eq)
qed

lemma minimal_serialize: "is_minimal (CScriptNum_serialize v)"
proof (cases "v = 0")
  case False
  then obtain bs b where s: "CScriptNum_serialize v =
       (if 128 \<le> unat b then bs @ [b] @ [if v < 0 then 0x80 else 0] else bs @ [if v < 0 then b OR 0x80 else b])"
    and nz: "b \<noteq> 0"
    by (rule CScriptNum_serialize_snoc)
  show ?thesis
  proof (cases "128 \<le> unat b")
    case True
    then show ?thesis using is_minimal_snoc [of "bs @ [b]" "if v < 0 then 0x80 else 0"] by (simp add: s)
  next
    case low: False
    moreover have "unat b \<noteq> 0" using nz by (simp add: unat_eq_0)
    ultimately show ?thesis
      using is_minimal_snoc [of bs "if v < 0 then b OR 0x80 else b"] set_high_bit_value [of b]
      by (simp add: s split: if_splits)
  qed
qed (simp add: CScriptNum_serialize_def is_minimal_def)

lemma CScriptNum_serialize_abs:
  assumes "v \<noteq> 0" and "abs_bytes (nat \<bar>v\<bar>) = bs @ [b]"
  shows "CScriptNum_serialize v =
    (if 128 \<le> unat b then bs @ [b] @ [if v < 0 then 0x80 else 0] else bs @ [if v < 0 then b OR 0x80 else b])"
  using assms high_bit_iff [of b] by (simp add: CScriptNum_serialize_def Let_def)

lemma serialize_set_vch:
  assumes "is_minimal vch"
  shows "CScriptNum_serialize (set_vch vch) = vch"
proof (cases vch rule: rev_cases)
  case Nil
  then show ?thesis by (simp add: set_vch_def CScriptNum_serialize_def)
next
  case (snoc bs b)
  define m where "m = unat b mod 128"
  define N where "N = le_value bs + 256 ^ length bs * m"
  have val: "set_vch vch = (if 128 \<le> unat b then - int N else int N)"
    unfolding snoc set_vch_snoc N_def m_def by simp
  then have "nat \<bar>set_vch vch\<bar> = N" by simp
  then have abs: "nat \<bar>set_vch vch\<bar> = le_value bs + 256 ^ length bs * m" by (simp only: N_def)
  have neg: "set_vch vch < 0 \<longleftrightarrow> 128 \<le> unat b" if "nat \<bar>set_vch vch\<bar> \<noteq> 0"
    using that val by (auto split: if_splits)
  have "unat b - 128 < 128" using unat_byte_less [of b] by linarith
  then have split: "unat b = m + (if 128 \<le> unat b then 128 else 0)"
    unfolding m_def by (simp add: le_mod_geq)
  show ?thesis
  proof (cases "m = 0")
    case True
    then have bs: "bs \<noteq> []" "128 \<le> unat (last bs)" using assms by (simp_all add: snoc is_minimal_snoc m_def)
    have nz: "last bs \<noteq> 0" using bs(2) by auto
    have ab: "abs_bytes (nat \<bar>set_vch vch\<bar>) = butlast bs @ [last bs]"
      using abs True bs(1) nz abs_bytes_le_value [of bs] by simp
    then have "nat \<bar>set_vch vch\<bar> \<noteq> 0" by (metis Nil_is_append_conv abs_bytes_0 not_Cons_self2)
    then have "CScriptNum_serialize (set_vch vch) = bs @ [if 128 \<le> unat b then 0x80 else 0]"
      using CScriptNum_serialize_abs [OF _ ab] bs neg by simp
    moreover have "b = (if 128 \<le> unat b then 0x80 else 0)"
      using split True by (auto simp: word_unat_eq_iff split: if_splits)
    ultimately show ?thesis using snoc by simp
  next
    case False
    have m: "unat (of_nat m :: byte) = m" "m < 128" by (simp_all add: unat_byte_of_nat m_def)
    then have nz: "(of_nat m :: byte) \<noteq> 0" using False by force
    have ab: "abs_bytes (nat \<bar>set_vch vch\<bar>) = bs @ [of_nat m]"
      using abs abs_bytes_le_value [of "bs @ [of_nat m]"] nz m(1) by (simp add: le_value_snoc)
    then have "nat \<bar>set_vch vch\<bar> \<noteq> 0" by (metis Nil_is_append_conv abs_bytes_0 not_Cons_self2)
    then have "CScriptNum_serialize (set_vch vch) = bs @ [if 128 \<le> unat b then of_nat m OR 0x80 else of_nat m]"
      using CScriptNum_serialize_abs [OF _ ab] m neg by simp
    moreover have "b = (if 128 \<le> unat b then of_nat m OR 0x80 else of_nat m)"
      using split m set_high_bit_value [of "of_nat m"] by (auto simp: word_unat_eq_iff split: if_splits)
    ultimately show ?thesis using snoc by simp
  qed
qed

lemma length_serialize: "length (CScriptNum_serialize v) \<le> Suc k \<longleftrightarrow> \<bar>v\<bar> < 128 * 256 ^ k"
proof (cases "v = 0")
  case False
  then obtain bs b where s: "CScriptNum_serialize v =
       (if 128 \<le> unat b then bs @ [b] @ [if v < 0 then 0x80 else 0] else bs @ [if v < 0 then b OR 0x80 else b])"
    and abs: "nat \<bar>v\<bar> = le_value bs + 256 ^ length bs * unat b" and nz: "b \<noteq> 0"
    by (rule CScriptNum_serialize_snoc)
  have nat_iff: "\<bar>v\<bar> < 128 * 256 ^ k \<longleftrightarrow> nat \<bar>v\<bar> < 128 * 256 ^ k"
    by (simp add: nat_less_iff)
  have ge: "256 ^ length bs * unat b \<le> nat \<bar>v\<bar>" and lt: "nat \<bar>v\<bar> < 256 ^ length bs * (unat b + 1)"
    using abs le_value_less [of bs] by simp_all
  have mono: "(256 :: nat) ^ i \<le> 256 ^ j" if "i \<le> j" for i j using that by (simp add: power_increasing)
  show ?thesis
  proof (cases "128 \<le> unat b")
    case True
    have "nat \<bar>v\<bar> < 128 * 256 ^ k" if "length bs < k"
    proof -
      have "nat \<bar>v\<bar> < 256 ^ length bs * 256"
        using Suc_leI [OF unat_byte_less [of b]] by (intro order_less_le_trans [OF lt] mult_le_mono) simp_all
      also have "\<dots> \<le> 256 ^ k" using mono [of "Suc (length bs)" k] that by (simp add: mult.commute)
      also have "\<dots> \<le> 128 * 256 ^ k" by simp
      finally show ?thesis .
    qed
    moreover have "128 * 256 ^ k \<le> nat \<bar>v\<bar>" if "k \<le> length bs"
      using mult_le_mono [OF True mono [OF that]] ge by (simp add: mult.commute)
    ultimately show ?thesis using True nat_iff by (cases "length bs < k") (simp_all add: s)
  next
    case False
    have "nat \<bar>v\<bar> < 128 * 256 ^ k" if "length bs \<le> k"
    proof -
      have "nat \<bar>v\<bar> < 256 ^ length bs * 128"
        using lt False by (intro order_less_le_trans [OF lt] mult_le_mono) auto
      also have "\<dots> \<le> 128 * 256 ^ k" using mono [OF that] by simp
      finally show ?thesis .
    qed
    moreover have "128 * 256 ^ k \<le> nat \<bar>v\<bar>" if "k < length bs"
    proof -
      have "unat b \<noteq> 0" using nz by (simp add: unat_eq_0)
      then have "256 ^ length bs \<le> 256 ^ length bs * unat b" by simp
      moreover have "256 * 256 ^ k \<le> (256 :: nat) ^ length bs" using mono [of "Suc k" "length bs"] that by simp
      moreover have "128 * 256 ^ k \<le> 256 * (256 :: nat) ^ k" by simp
      ultimately show ?thesis using ge by (meson order_trans)
    qed
    ultimately show ?thesis using False nat_iff by (cases "length bs \<le> k") (simp_all add: s)
  qed
qed (simp add: CScriptNum_serialize_def)

section \<open>Lemmas on instructions\<close>

lemma GetOp2_push: "length b < 2 ^ 32 \<Longrightarrow> \<exists>opcode. GetOp2 (push_vch b @ rest) = (True, opcode, b, rest) \<and> opcode \<le> OP_PUSHDATA4"
proof -
  assume len: "length b < 2 ^ 32"
  consider "length b < 0x4c" | "\<not> length b < 0x4c" "length b \<le> 0xff" | "\<not> length b \<le> 0xff" "length b \<le> 0xffff"
    | "\<not> length b \<le> 0xffff" by linarith
  then show ?thesis
  proof cases
    case 1
    then have "unat (of_nat (length b) :: byte) = length b" by (simp add: unat_byte_of_nat)
    then have "(of_nat (length b) :: byte) < 0x4c" "(of_nat (length b) :: byte) \<le> 0x4e"
      using 1 by (simp_all add: word_less_nat_alt word_le_nat_alt)
    with 1 \<open>unat (of_nat (length b) :: byte) = length b\<close> show ?thesis
      by (simp add: GetOp2_def push_vch_def push_size_def)
  next
    case 2
    then have "unat (of_nat (length b) :: byte) = length b" by (simp add: unat_byte_of_nat)
    with 2 show ?thesis by (simp add: GetOp2_def push_vch_def push_size_def)
  next
    case 3
    then have "le_value (le_bytes 2 (length b)) = length b" by (simp add: le_value_le_bytes)
    with 3 show ?thesis by (simp add: GetOp2_def push_vch_def push_size_def)
  next
    case 4
    then have "le_value (le_bytes 4 (length b)) = length b" using len by (simp add: le_value_le_bytes)
    with 4 show ?thesis by (simp add: GetOp2_def push_vch_def push_size_def)
  qed
qed

lemma push_vch_not_Nil [simp]: "push_vch b \<noteq> []"
  by (simp add: push_vch_def)

lemma pushes_scan:
  assumes "\<forall>b \<in> set bs. length b < 2 ^ 32"
  shows "IsPushOnly_from (concat (map push_vch bs)) \<and>
    last_push d (concat (map push_vch bs)) = Some (if bs = [] then d else last bs)"
  using assms
proof (induction bs arbitrary: d)
  case (Cons b bs)
  obtain opcode where op: "GetOp2 (push_vch b @ concat (map push_vch bs)) = (True, opcode, b, concat (map push_vch bs))"
      "opcode \<le> OP_PUSHDATA4"
    using GetOp2_push [of b "concat (map push_vch bs)"] Cons.prems by auto
  then have "\<not> opcode > OP_16" by (simp add: word_le_nat_alt word_less_nat_alt)
  with op Cons show ?case
    by (simp add: IsPushOnly_from.simps [of "push_vch b @ concat (map push_vch bs)"]
        last_push.simps [of d "push_vch b @ concat (map push_vch bs)"])
qed (simp add: IsPushOnly_from.simps last_push.simps)

lemma push_only_last_push: "IsPushOnly_from pc \<longleftrightarrow> last_push d pc \<noteq> None"
proof (induction pc arbitrary: d rule: IsPushOnly_from.induct)
  case (1 pc)
  show ?case
    by (subst IsPushOnly_from.simps, subst last_push.simps) (use 1 in \<open>auto split: prod.splits\<close>)
qed

lemma DecodeOP_N_range:
  assumes "OP_1 \<le> op" and "op \<le> OP_16"
  shows "\<exists>k. DecodeOP_N op = Some (int k) \<and> k \<le> 16"
proof -
  have u: "0x51 \<le> unat op" "unat op \<le> 0x60" using assms by (simp_all add: word_le_nat_alt)
  then have "op \<noteq> 0" by force
  moreover have "uint op - (0x51 - 1) = int (unat op - 0x50)" using u by (simp add: of_nat_diff)
  ultimately have "DecodeOP_N op = Some (int (unat op - 0x50))" using assms by (simp add: DecodeOP_N_def)
  with u show ?thesis by (intro exI [of _ "unat op - 0x50"]) simp
qed

lemma sigop_inc_bounds:
  "unat (sigop_inc acc l opcode) \<le> 20" "unat (sigop_inc True l opcode) \<le> unat (sigop_inc False l' opcode)"
proof -
  have multi: "unat (case DecodeOP_N l of Some k \<Rightarrow> of_int k :: u32 | None \<Rightarrow> 0) \<le> 16" if l: "l \<ge> OP_1" "l \<le> OP_16"
  proof -
    obtain k where "DecodeOP_N l = Some (int k)" "k \<le> 16" using DecodeOP_N_range [OF l] by blast
    then show ?thesis by (simp add: unat_of_nat)
  qed
  define d where "d = (case DecodeOP_N l of Some k \<Rightarrow> of_int k :: u32 | None \<Rightarrow> 0)"
  have d: "unat d \<le> 16" if "l \<ge> OP_1" "l \<le> OP_16" using multi that by (simp add: d_def)
  show "unat (sigop_inc acc l opcode) \<le> 20"
    using d by (auto simp: sigop_inc_def d_def [symmetric])
  show "unat (sigop_inc True l opcode) \<le> unat (sigop_inc False l' opcode)"
    using d by (auto simp: sigop_inc_def d_def [symmetric])
qed

lemma sigop_loop_Cons:
  assumes "GetOp2 pc = (True, opcode, vch, pc')"
  shows "sigop_loop acc l n pc = sigop_loop acc opcode (n + sigop_inc acc l opcode) pc'"
  using assms GetOp2_progress(3) [OF assms] by (subst sigop_loop.simps) simp

lemma sigop_loop_bounds:
  "unat m + 20 * length pc < 2 ^ 32 \<Longrightarrow> unat n \<le> unat m \<Longrightarrow>
    unat (sigop_loop acc l m pc) \<le> unat m + 20 * length pc \<and>
    unat (sigop_loop True l n pc) \<le> unat (sigop_loop False l' m pc)"
proof (induction pc arbitrary: m n l l' rule: measure_induct_rule [of length])
  case (less pc)
  note prems = less.prems
  obtain ok opcode vch pc' where op: "GetOp2 pc = (ok, opcode, vch, pc')" by (metis prod_cases4)
  show ?case
  proof (cases ok)
    case False
    with op prems show ?thesis by (simp add: sigop_loop.simps [of _ _ _ pc])
  next
    case True
    with op have o2: "GetOp2 pc = (True, opcode, vch, pc')" by simp
    have len: "length pc' < length pc" and ne: "pc \<noteq> []" using GetOp2_progress(2,3) [OF o2] by auto
    have add: "unat (k + sigop_inc a j opcode) = unat k + unat (sigop_inc a j opcode)"
      if "unat k \<le> unat m" for k :: u32 and a j
      using that prems(1) sigop_inc_bounds(1) [of a j opcode] ne
      by (intro unat_add_no_overflow) (cases pc; simp)
    have m': "unat (m + sigop_inc a j opcode) + 20 * length pc' < 2 ^ 32"
        "unat (m + sigop_inc a j opcode) + 20 * length pc' \<le> unat m + 20 * length pc" for a j
      using add [of m a j] sigop_inc_bounds(1) [of a j opcode] prems(1) len by simp_all
    have "unat (n + sigop_inc True l opcode) \<le> unat (m + sigop_inc False l' opcode)"
      using add [of n True l] add [of m False l'] prems(2) sigop_inc_bounds(2) [of l opcode l'] by simp
    then have "unat (sigop_loop True opcode (n + sigop_inc True l opcode) pc')
        \<le> unat (sigop_loop False opcode (m + sigop_inc False l' opcode) pc')"
      using less.IH [OF len m'(1) [of False l']] by blast
    moreover have "unat (sigop_loop acc opcode (m + sigop_inc acc l opcode) pc') \<le> unat m + 20 * length pc"
      using less.IH [OF len m'(1) [of acc l] order_refl] m'(2) [of acc l] by (meson order_trans)
    ultimately show ?thesis by (simp only: sigop_loop_Cons [OF o2] simp_thms)
  qed
qed

lemma strip_prefix_decomp:
  "strip_prefix b pc = (k, pc') \<Longrightarrow> pc = concat (replicate k b) @ pc' \<and> (b \<noteq> [] \<longrightarrow> take (length b) pc' \<noteq> b)"
proof (induction b pc arbitrary: k pc' rule: strip_prefix.induct)
  case (1 b pc)
  show ?case
  proof (cases "b \<noteq> [] \<and> length b \<le> length pc \<and> take (length b) pc = b")
    case True
    obtain j pc1 where rec: "strip_prefix b (drop (length b) pc) = (j, pc1)" by (metis surj_pair)
    then have k: "k = j + 1" "pc' = pc1" using 1(2) True strip_prefix.simps [of b pc] by simp_all
    have "drop (length b) pc = concat (replicate j b) @ pc1" "take (length b) pc1 \<noteq> b"
      using 1(1) [OF True rec] True by auto
    moreover have "pc = b @ drop (length b) pc" using True by (metis append_take_drop_id)
    ultimately show ?thesis using k by simp
  next
    case False
    then have "strip_prefix b pc = (0, pc)" by (subst strip_prefix.simps) (simp only: if_False)
    with 1(2) have "k = 0" "pc' = pc" by simp_all
    with False show ?thesis by auto
  qed
qed

lemma push_size_suffix: "push_size opcode pc = Some (n, pc') \<Longrightarrow> \<exists>k. pc' = drop k pc"
  by (auto simp: push_size_def drop_Suc split: if_splits intro: exI [of _ 0] exI [of _ 1])

lemma GetOp2_drop: "GetOp2 pc = (ok, opcode, vch, pc') \<Longrightarrow> \<exists>k. pc' = drop k pc"
proof (cases pc)
  case (Cons c r)
  assume g: "GetOp2 pc = (ok, opcode, vch, pc')"
  have "\<exists>k. pc' = drop k r"
  proof (cases "push_size c r")
    case None
    then show ?thesis using g Cons by (auto simp: GetOp2_def split: if_splits intro: exI [of _ 0])
  next
    case (Some nq)
    obtain n q where nq: "nq = (n, q)" by force
    obtain k where k: "q = drop k r" using push_size_suffix Some nq by blast
    have "pc' = drop 0 r \<or> pc' = drop k r \<or> pc' = drop (n + k) r"
      using g Cons Some nq k by (simp add: GetOp2_def split: if_splits)
    then show ?thesis by blast
  qed
  then obtain k where "pc' = drop (Suc k) pc" using Cons by auto
  then show ?thesis by blast
qed (simp add: GetOp2_def)

lemma GetOp2_suffix: "GetOp2 pc = (ok, opcode, vch, pc') \<Longrightarrow> \<exists>pre. pc = pre @ pc'"
  using GetOp2_drop by (metis append_take_drop_id)

text \<open>What deleting the occurrences of \<open>b\<close> at the boundaries of operations means: the script is cut into
  pairs of a number of copies of \<open>b\<close> and one operation that does not begin another copy; the last pair
  ends with what does not parse as an operation.\<close>

fun deletes :: "bytes \<Rightarrow> bytes \<Rightarrow> (nat \<times> bytes) list \<Rightarrow> bool" where
  "deletes b pc [] \<longleftrightarrow> False"
| "deletes b pc [(k, p)] \<longleftrightarrow>
     pc = concat (replicate k b) @ p \<and> take (length b) p \<noteq> b \<and> \<not> fst (GetOp2 p)"
| "deletes b pc ((k, p) # ps) \<longleftrightarrow>
     (\<exists>rest opcode vch. pc = concat (replicate k b) @ p @ rest \<and> take (length b) (p @ rest) \<noteq> b \<and>
        GetOp2 (p @ rest) = (True, opcode, vch, rest) \<and> deletes b rest ps)"

lemma FindAndDelete_loop_deletes:
  assumes "b \<noteq> []"
  shows "\<exists>ps. ps \<noteq> [] \<and> deletes b pc ps \<and> FindAndDelete_loop b pc = (sum_list (map fst ps), concat (map snd ps))"
proof (induction "length pc" arbitrary: pc rule: less_induct)
  case less
  obtain j pc1 where strip: "strip_prefix b pc = (j, pc1)" by (metis surj_pair)
  obtain ok opcode vch pc2 where op: "GetOp2 pc1 = (ok, opcode, vch, pc2)" by (metis prod_cases4)
  have pc: "pc = concat (replicate j b) @ pc1" "take (length b) pc1 \<noteq> b"
    using strip_prefix_decomp [OF strip] assms by simp_all
  show ?case
  proof (cases ok)
    case True
    obtain pre where pre: "pc1 = pre @ pc2" using GetOp2_suffix [OF op] by blast
    have "length pc2 < length pc"
      using FindAndDelete_progress [OF strip [symmetric], of opcode vch pc2] op True by simp
    then obtain ps where IH: "ps \<noteq> []" "deletes b pc2 ps"
        "FindAndDelete_loop b pc2 = (sum_list (map fst ps), concat (map snd ps))"
      using less by blast
    have "deletes b pc ((j, pre) # ps)"
      using IH(1,2) pc op True pre by (cases ps) auto
    moreover have "FindAndDelete_loop b pc = (j + sum_list (map fst ps), pre @ concat (map snd ps))"
      using strip op True IH(3) pre by (simp add: FindAndDelete_loop.simps [of b pc])
    ultimately show ?thesis by (intro exI [of _ "(j, pre) # ps"]) simp
  next
    case False
    then have "deletes b pc [(j, pc1)]" using pc op by simp
    moreover have "FindAndDelete_loop b pc = (j, pc1)"
      using strip op False by (simp add: FindAndDelete_loop.simps [of b pc])
    ultimately show ?thesis by (intro exI [of _ "[(j, pc1)]"]) simp
  qed
qed

section \<open>Properties of scripts\<close>

text \<open>
  C36: script numbers.  With the minimality check, \<open>CScriptNum\<close> accepts a byte string exactly when it
  is the encoding \<open>serialize\<close> gives to a number of absolute value below \<open>2 ^ 31\<close>, and returns that
  number: numbers and accepted strings correspond one to one, negative zero and padded encodings
  are refused.
\<close>

theorem CScriptNum_canonical:
  "CScriptNum vch True = Inr v \<longleftrightarrow> \<bar>v\<bar> < 2 ^ 31 \<and> vch = CScriptNum_serialize v"
proof
  assume "CScriptNum vch True = Inr v"
  then have v: "v = set_vch vch" "is_minimal vch" "length vch \<le> Suc 3"
    by (auto simp: CScriptNum_def split: if_splits)
  then have "vch = CScriptNum_serialize v" using serialize_set_vch by simp
  with v(3) length_serialize [of v 3] show "\<bar>v\<bar> < 2 ^ 31 \<and> vch = CScriptNum_serialize v" by simp
next
  assume v: "\<bar>v\<bar> < 2 ^ 31 \<and> vch = CScriptNum_serialize v"
  then have "length vch \<le> Suc 3" using length_serialize [of v 3] by simp
  with v show "CScriptNum vch True = Inr v"
    using minimal_serialize [of v] set_vch_serialize [of v] by (simp add: CScriptNum_def)
qed

text \<open>
  Pushing and reading.  An operand written with \<open>operator<<\<close> is read back by \<open>GetOp\<close> with the
  rest of the script left over; a script made of pushes only is recognised by \<open>IsPushOnly\<close>, and the
  operand that the signature-operation count of a pay-to-script-hash output looks at is the last
  one pushed.
\<close>

theorem push_roundtrip:
  assumes "\<forall>b \<in> set bs. length b < 2 ^ 32" and "bs \<noteq> []"
  shows "(\<exists>opcode. GetOp2 (push_vch (hd bs) @ rest) = (True, opcode, hd bs, rest)) \<and>
    IsPushOnly (concat (map push_vch bs)) \<and>
    (IsPayToScriptHash script \<longrightarrow>
       GetSigOpCount_P2SH script (concat (map push_vch bs)) = GetSigOpCount True (last bs))"
proof -
  have "\<exists>opcode. GetOp2 (push_vch (hd bs) @ rest) = (True, opcode, hd bs, rest)"
    using GetOp2_push [of "hd bs" rest] assms by auto
  with pushes_scan [OF assms(1), of "[]"] assms(2) show ?thesis
    by (simp add: IsPushOnly_def GetSigOpCount_P2SH_def)
qed

theorem push_roundtrip_witness:
  "IsPushOnly (concat (map push_vch [[1, 2, 3], []])) \<and>
   (\<exists>opcode. GetOp2 (push_vch [1, 2, 3] @ [9]) = (True, opcode, [1, 2, 3], [9]))"
  using push_roundtrip [of "[[1, 2, 3], []]" "[9]" "[]"] by simp

text \<open>
  Counting signature operations.  For scripts short enough not to overflow the 32-bit counter
  (every script within a block is), the count is at most 20 per byte, and the accurate count never
  exceeds the conservative one.
\<close>

theorem GetSigOpCount_bounds:
  assumes "20 * length script < 2 ^ 32"
  shows "unat (GetSigOpCount fAccurate script) \<le> 20 * length script \<and>
    unat (GetSigOpCount True script) \<le> unat (GetSigOpCount False script)"
  using sigop_loop_bounds [of 0 script 0 fAccurate OP_INVALIDOPCODE OP_INVALIDOPCODE] assms
  by (simp add: GetSigOpCount_def)

theorem GetSigOpCount_bounds_witness:
  "unat (GetSigOpCount True [OP_2, OP_CHECKMULTISIG]) \<le> 40"
  using GetSigOpCount_bounds [of "[OP_2, OP_CHECKMULTISIG]" True] by simp

text \<open>
  Normal payment scripts.  \<open>IsNormalPaymentScript\<close> accepts every pay-to-public-key-hash script,
  but not only those: it also accepts 25 bytes that duplicate, hash, push 22 bytes and end, since
  nothing requires the last two instructions to be reached.
\<close>

theorem IsNormalPaymentScript_accepts:
  assumes "length h = 20" and "length d = 22"
  shows "IsNormalPaymentScript ([OP_DUP, OP_HASH160] @ push_vch h @ [OP_EQUALVERIFY, OP_CHECKSIG]) \<and>
    IsNormalPaymentScript ([OP_DUP, OP_HASH160] @ push_vch d)"
proof -
  have push: "push_vch h = 0x14 # h" "push_vch d = 0x16 # d" using assms by (simp_all add: push_vch_def)
  have ops: "GetOp2 (OP_DUP # s) = (True, OP_DUP, [], s)" "GetOp2 (OP_HASH160 # s) = (True, OP_HASH160, [], s)"
    "GetOp2 (OP_EQUALVERIFY # s) = (True, OP_EQUALVERIFY, [], s)" "GetOp2 (OP_CHECKSIG # s) = (True, OP_CHECKSIG, [], s)" for s
    by (simp_all add: GetOp2_def)
  have data: "GetOp2 (0x14 # h @ s) = (True, 0x14, h, s)" "GetOp2 (0x16 # d) = (True, 0x16, d, [])" for s
    using assms by (simp_all add: GetOp2_def push_size_def)
  show ?thesis
    using assms by (simp add: IsNormalPaymentScript_def push ops data normal_payment_loop.simps)
qed

theorem IsNormalPaymentScript_accepts_witness:
  "IsNormalPaymentScript ([OP_DUP, OP_HASH160] @ push_vch (replicate 22 7))"
  using IsNormalPaymentScript_accepts [of "replicate 20 7" "replicate 22 7"] by simp

text \<open>
  Deleting a signature.  \<open>FindAndDelete\<close> ends; it removes copies of the pattern that begin at the
  boundaries of the operations it parses, and nothing else, leaves none that begins where it stood, and
  returns how many it removed.
\<close>

theorem FindAndDelete_removes:
  assumes "b \<noteq> []"
  shows "\<exists>ps. deletes b script ps \<and> FindAndDelete b script = (sum_list (map fst ps), concat (map snd ps))"
  using FindAndDelete_loop_deletes [OF assms, of script] assms by (auto simp: FindAndDelete_def)

theorem FindAndDelete_removes_witness:
  "\<exists>ps. deletes [OP_DUP] [OP_DUP, OP_DUP, OP_1, OP_DUP] ps \<and>
     FindAndDelete [OP_DUP] [OP_DUP, OP_DUP, OP_1, OP_DUP] = (sum_list (map fst ps), concat (map snd ps))"
  using FindAndDelete_removes [of "[OP_DUP]"] by simp

end
