(* ===== verification/Hashing.thy ===== *)
theory Hashing
  imports Prelude
begin

text \<open>
  The frame that the hash classes of \<^verbatim>\<open>src/src/crypto\<close> share.  \<open>CSHA256\<close>, \<open>CSHA1\<close>, \<open>CRIPEMD160\<close>
  and \<open>CSHA512\<close> have the same members and, up to the block size, the byte order and the block
  function, the same \<open>Write\<close> and \<open>Finalize\<close>; they are modelled once, with these as arguments, and
  instantiated in the theory of each class.
\<close>

section \<open>Byte order\<close>

definition ReadLE32 :: "bytes \<Rightarrow> u32" where
  "ReadLE32 p = of_nat (le_value (take 4 p))"

definition ReadBE32 :: "bytes \<Rightarrow> u32" where
  "ReadBE32 p = of_nat (le_value (rev (take 4 p)))"

definition ReadBE64 :: "bytes \<Rightarrow> u64" where
  "ReadBE64 p = of_nat (le_value (rev (take 8 p)))"

definition WriteLE32 :: "u32 \<Rightarrow> bytes" where
  "WriteLE32 x = le_bytes 4 (unat x)"

definition WriteLE64 :: "u64 \<Rightarrow> bytes" where
  "WriteLE64 x = le_bytes 8 (unat x)"

definition WriteBE32 :: "u32 \<Rightarrow> bytes" where
  "WriteBE32 x = rev (le_bytes 4 (unat x))"

definition WriteBE64 :: "u64 \<Rightarrow> bytes" where
  "WriteBE64 x = rev (le_bytes 8 (unat x))"

text \<open>The number that a list of bytes denotes, the most significant byte first.\<close>

definition be_value :: "bytes \<Rightarrow> nat" where
  "be_value bs = foldl (\<lambda>n b. 256 * n + unat b) 0 bs"

lemma be_value_le: "be_value bs = le_value (rev bs)"
  by (induction bs rule: rev_induct) (simp_all add: be_value_def)

lemma rotr_word:
  fixes x :: "'a::len word"
  assumes "0 < n" "n < LENGTH('a)"
  shows "drop_bit n x OR push_bit (LENGTH('a) - n) x = word_rotr n x"
proof (rule bit_word_eqI)
  fix i assume i: "i < LENGTH('a)"
  show "bit (drop_bit n x OR push_bit (LENGTH('a) - n) x) i \<longleftrightarrow> bit (word_rotr n x) i"
  proof (cases "i + n < LENGTH('a)")
    case True
    then have "\<not> LENGTH('a) - n \<le> i" using assms by linarith
    then show ?thesis using True i assms by (simp add: bit_simps add.commute)
  next
    case False
    then have "(i + n) mod LENGTH('a) = i - (LENGTH('a) - n)" using i assms by (simp add: mod_if)
    moreover have "\<not> bit x (n + i)" using False bit_imp_le_length [of x "n + i"] by linarith
    moreover have "LENGTH('a) - n \<le> i" using False by linarith
    ultimately show ?thesis using False i assms by (simp add: bit_simps add.commute)
  qed
qed

lemma rotl_word:
  fixes x :: "'a::len word"
  assumes "0 < n" "n < LENGTH('a)"
  shows "push_bit n x OR drop_bit (LENGTH('a) - n) x = word_rotl n x"
proof -
  have "word_rotl n x = word_rotr (LENGTH('a) - n) x" using assms by (simp add: word_rotl_eq_word_rotr)
  then show ?thesis using rotr_word [of "LENGTH('a) - n" x] assms by (simp add: or.commute)
qed

lemma WriteBE64_of_nat: "WriteBE64 (of_nat n) = rev (le_bytes 8 n)"
proof -
  have "le_bytes 8 (n mod 256 ^ 8) = le_bytes 8 n" by (rule le_bytes_mod)
  then show ?thesis by (simp add: WriteBE64_def unat_of_nat)
qed

lemma WriteBE64_bits: "WriteBE64 (8 * of_nat n) = rev (le_bytes 8 (8 * n))"
  using WriteBE64_of_nat [of "8 * n"] by simp

section \<open>Buffering\<close>

record 's hasher =
  hs :: 's
  hbuf :: bytes
  hbytes :: u64

definition memcpy :: "bytes \<Rightarrow> nat \<Rightarrow> bytes \<Rightarrow> bytes" where
  "memcpy buf off data = take off buf @ data @ drop (off + length data) buf"

text \<open>The loop over full blocks of the input; the result is the state and the input left.\<close>

function absorb :: "nat \<Rightarrow> ('s \<Rightarrow> bytes \<Rightarrow> 's) \<Rightarrow> 's \<Rightarrow> bytes \<Rightarrow> 's \<times> bytes" where
  "absorb B transform s data =
     (if 0 < B \<and> B \<le> length data then absorb B transform (transform s (take B data)) (drop B data)
      else (s, data))"
  by pat_completeness auto
termination
  by (relation "measure (\<lambda>(B, transform, s, data). length data)") auto

declare absorb.simps [simp del]

text \<open>The loop, and then the copy of what remains into the buffer at \<open>bufsize\<close>.\<close>

definition hash_tail :: "nat \<Rightarrow> ('s \<Rightarrow> bytes \<Rightarrow> 's) \<Rightarrow> nat \<Rightarrow> bytes \<Rightarrow> 's hasher \<Rightarrow> 's hasher" where
  "hash_tail B transform bufsize data st =
     (let (s, rest) = absorb B transform (hs st) data;
          st1 = st\<lparr>hs := s, hbytes := hbytes st + of_nat (length data - length rest)\<rparr>
      in if rest \<noteq> []
         then st1\<lparr>hbuf := memcpy (hbuf st1) bufsize rest, hbytes := hbytes st1 + of_nat (length rest)\<rparr>
         else st1)"

definition hash_Write :: "nat \<Rightarrow> ('s \<Rightarrow> bytes \<Rightarrow> 's) \<Rightarrow> bytes \<Rightarrow> 's hasher \<Rightarrow> 's hasher" where
  "hash_Write B transform data st =
     (let bufsize = unat (hbytes st mod of_nat B)
      in if bufsize \<noteq> 0 \<and> bufsize + length data \<ge> B
         then let buf = memcpy (hbuf st) bufsize (take (B - bufsize) data)
              in hash_tail B transform 0 (drop (B - bufsize) data)
                   (st\<lparr>hbuf := buf, hbytes := hbytes st + of_nat (B - bufsize), hs := transform (hs st) buf\<rparr>)
         else hash_tail B transform bufsize data st)"

definition hash_pad :: "nat \<Rightarrow> nat \<Rightarrow> u64 \<Rightarrow> bytes" where
  "hash_pad B P n = take (1 + (P - unat (n mod of_nat B)) mod B) (0x80 # replicate (B - 1) 0)"

definition hash_Finalize :: "nat \<Rightarrow> nat \<Rightarrow> ('s \<Rightarrow> bytes \<Rightarrow> 's) \<Rightarrow> (u64 \<Rightarrow> bytes) \<Rightarrow> 's hasher \<Rightarrow> 's hasher" where
  "hash_Finalize B P transform sizedesc st =
     hash_Write B transform (sizedesc (push_bit 3 (hbytes st)))
       (hash_Write B transform (hash_pad B P (hbytes st)) st)"

section \<open>What the buffering computes\<close>

text \<open>The block function over all full blocks of a message, and the incomplete block at its end.\<close>

lemma absorb_short: "length data < B \<Longrightarrow> absorb B T s data = (s, data)"
  by (subst absorb.simps) simp

lemma absorb_block: "0 < B \<Longrightarrow> B \<le> length data \<Longrightarrow>
    absorb B T s data = absorb B T (T s (take B data)) (drop B data)"
  by (subst absorb.simps) simp

lemma absorb_rest_length: "0 < B \<Longrightarrow> length (snd (absorb B T s data)) = length data mod B"
proof (induction B T s data rule: absorb.induct)
  case (1 B T s data)
  show ?case
  proof (cases "B \<le> length data")
    case True
    with 1 show ?thesis by (simp add: absorb_block le_mod_geq)
  qed (simp add: absorb_short)
qed

lemma absorb_append:
  "0 < B \<Longrightarrow> absorb B T s (m @ d) = (case absorb B T s m of (s', r) \<Rightarrow> absorb B T s' (r @ d))"
proof (induction B T s m rule: absorb.induct)
  case (1 B T s m)
  show ?case
  proof (cases "B \<le> length m")
    case True
    with 1 show ?thesis by (simp add: absorb_block)
  qed (simp add: absorb_short)
qed

text \<open>The message cut into blocks, and the padding of the standards: a bit \<open>1\<close>, the least number of
  zeros that leaves room for the length in the last block, and the length.\<close>

definition blocks :: "nat \<Rightarrow> 'a list \<Rightarrow> 'a list list" where
  "blocks B m = map (\<lambda>i. take B (drop (i * B) m)) [0..<length m div B]"

definition md_pad :: "nat \<Rightarrow> bytes \<Rightarrow> bytes \<Rightarrow> bytes" where
  "md_pad B len m =
     m @ 0x80 # replicate ((B - (length m + 1 + length len) mod B) mod B) 0 @ len"

lemma blocks_short: "length m < B \<Longrightarrow> blocks B m = []"
  by (simp add: blocks_def)

lemma blocks_Cons:
  assumes "0 < B" and "B \<le> length m"
  shows "blocks B m = take B m # blocks B (drop B m)"
proof -
  have "length m div B = Suc ((length m - B) div B)" using assms by (simp add: le_div_geq)
  then show ?thesis by (simp add: blocks_def upt_conv_Cons map_Suc_upt [symmetric] add.commute del: upt_Suc)
qed

lemma absorb_blocks: "0 < B \<Longrightarrow> fst (absorb B T s m) = fold (\<lambda>b s. T s b) (blocks B m) s"
proof (induction B T s m rule: absorb.induct)
  case (1 B T s m)
  show ?case
  proof (cases "B \<le> length m")
    case True
    with 1 show ?thesis by (simp add: absorb_block blocks_Cons)
  qed (simp add: absorb_short blocks_short)
qed

lemma residue_unique:
  assumes "a < B" and "b < B" and "(B :: nat) dvd n + a" and "B dvd n + b"
  shows "a = b"
proof -
  have "B dvd (n + a) - (n + b)" "B dvd (n + b) - (n + a)" using assms(3,4) by (simp_all only: dvd_diff_nat)
  then have "B dvd a - b" "B dvd b - a" by simp_all
  then have "a - b = 0" "b - a = 0" using assms(1,2) by (auto dest!: dvd_imp_le)
  then show ?thesis by simp
qed

locale block_hash =
  fixes B P L :: nat
    and transform :: "'s \<Rightarrow> bytes \<Rightarrow> 's"
    and init :: 's
    and sizedesc :: "u64 \<Rightarrow> bytes"
  assumes B_pos: "0 < B" and B_less: "B < 2 ^ 64" and B_dvd: "B dvd 2 ^ 64" and P_ge: "B \<le> Suc P"
    and pad_fits: "B dvd P + 1 + L" and sizedesc_length: "length (sizedesc n) = L"
begin

text \<open>A hasher that has been given the message \<open>m\<close>.\<close>

definition holds :: "bytes \<Rightarrow> 's hasher \<Rightarrow> bool" where
  "holds m st \<longleftrightarrow> hbytes st = of_nat (length m) \<and> length (hbuf st) = B \<and>
     absorb B transform init m = (hs st, take (length m mod B) (hbuf st))"

definition digest_state :: "bytes \<Rightarrow> 's" where
  "digest_state m =
     fst (absorb B transform init
       (m @ 0x80 # replicate ((P - length m mod B) mod B) 0 @ sizedesc (of_nat (8 * length m))))"

lemma bytes_mod: "unat ((of_nat n :: u64) mod of_nat B) = n mod B"
proof -
  have "unat (of_nat B :: u64) = B" using B_less by (simp add: unat_of_nat)
  then have "unat ((of_nat n :: u64) mod of_nat B) = n mod 2 ^ 64 mod B" by (simp add: unat_mod unat_of_nat)
  with B_dvd show ?thesis by (simp add: mod_mod_cancel)
qed

lemma initial: "length buf = B \<Longrightarrow> holds [] \<lparr>hs = init, hbuf = buf, hbytes = 0\<rparr>"
  using B_pos by (simp add: holds_def absorb_short)

lemma holds_tail:
  assumes "length (hbuf st) = B" and "off \<le> B" and "hbytes st = of_nat n" and "n + length data = length M"
    and M: "absorb B transform init M =
      (case absorb B transform (hs st) data of (s, rest) \<Rightarrow> (s, take off (hbuf st) @ rest))"
  shows "holds M (hash_tail B transform off data st)"
proof -
  obtain s rest where abs: "absorb B transform (hs st) data = (s, rest)" by force
  have le: "length rest \<le> length data"
    using absorb_rest_length [OF B_pos, of transform "hs st" data] abs by simp
  have len: "off + length rest = length M mod B"
    using absorb_rest_length [OF B_pos, of transform init M] M abs assms(1,2) by simp
  then have "off + length rest < B" using B_pos by simp
  then have buf: "length (memcpy (hbuf st) off rest) = B"
    "take (length M mod B) (memcpy (hbuf st) off rest) = take off (hbuf st) @ rest"
    using assms(1) len [symmetric] by (simp_all add: memcpy_def)
  have "n + (length data - length rest) + length rest = length M" using assms(4) le by simp
  then have bytes: "of_nat n + of_nat (length data - length rest) + of_nat (length rest) = (of_nat (length M) :: u64)"
    by (simp only: of_nat_add [symmetric])
  show ?thesis
  proof (cases "rest = []")
    case True
    with assms(1,3) M abs len bytes show ?thesis by (simp add: holds_def hash_tail_def)
  next
    case False
    with assms(1,3) M abs buf bytes show ?thesis by (simp add: holds_def hash_tail_def Let_def)
  qed
qed

lemma write_data:
  assumes "holds m st"
  shows "holds (m @ d) (hash_Write B transform d st)"
proof -
  define k r where "k = length m mod B" and "r = take k (hbuf st)"
  have st: "hbytes st = of_nat (length m)" "length (hbuf st) = B" "absorb B transform init m = (hs st, r)"
    using assms by (simp_all add: holds_def k_def r_def)
  have k: "k < B" using B_pos by (simp add: k_def)
  then have r: "length r = k" using st(2) by (simp add: r_def)
  have bufsize: "unat (hbytes st mod of_nat B) = k" by (simp add: st(1) bytes_mod k_def)
  have all: "absorb B transform init (m @ d) = absorb B transform (hs st) (r @ d)"
    using absorb_append [OF B_pos, of transform init m d] st(3) by simp
  show ?thesis
  proof (cases "k \<noteq> 0 \<and> k + length d \<ge> B")
    case True
    define buf where "buf = memcpy (hbuf st) k (take (B - k) d)"
    have buf: "buf = r @ take (B - k) d" "length buf = B"
      using True st(2) k by (auto simp: buf_def memcpy_def r_def min_def)
    let ?st = "st\<lparr>hbuf := buf, hbytes := hbytes st + of_nat (B - k), hs := transform (hs st) buf\<rparr>"
    have n: "hbytes ?st = of_nat (length m + (B - k))" by (simp add: st(1))
    have "absorb B transform init (m @ d) = absorb B transform (transform (hs st) buf) (drop (B - k) d)"
      using all conjunct2 [OF True] r buf(1) B_pos k by (simp add: absorb_block)
    then have "holds (m @ d) (hash_tail B transform 0 (drop (B - k) d) ?st)"
      using buf(2) conjunct2 [OF True] k by (intro holds_tail [OF _ _ n]) (simp_all add: case_prod_beta)
    with True show ?thesis by (simp add: hash_Write_def bufsize buf_def [symmetric] Let_def)
  next
    case False
    have "absorb B transform init (m @ d) =
        (case absorb B transform (hs st) d of (s, rest) \<Rightarrow> (s, take k (hbuf st) @ rest))"
    proof (cases "k = 0")
      case True
      then show ?thesis using all by (simp add: r_def case_prod_beta)
    next
      case nz: False
      with False have "length (r @ d) < B" using r by simp
      then show ?thesis using all by (simp add: absorb_short r_def)
    qed
    then have "holds (m @ d) (hash_tail B transform k d st)"
      using st(2) k by (intro holds_tail [OF _ _ st(1)]) simp_all
    moreover have "hash_Write B transform d st = hash_tail B transform k d st"
      using False by (simp only: hash_Write_def bufsize Let_def if_False)
    ultimately show ?thesis by simp
  qed
qed

lemma write_all: "holds m st \<Longrightarrow> holds (m @ concat ds) (fold (hash_Write B transform) ds st)"
proof (induction ds arbitrary: m st)
  case (Cons d ds)
  from Cons.IH [OF write_data [OF Cons.prems, of d]] show ?case by simp
qed simp

lemma finalize:
  assumes "holds m st"
  shows "hs (hash_Finalize B P transform sizedesc st) = digest_state m"
proof -
  define z where "z = (P - length m mod B) mod B"
  have z: "z < B" using B_pos by (simp add: z_def)
  have pad: "hash_pad B P (hbytes st) = 0x80 # replicate z 0"
    using assms z by (simp add: hash_pad_def holds_def bytes_mod z_def [symmetric] min_def)
  have size: "push_bit 3 (hbytes st) = of_nat (8 * length m)"
    using assms by (simp add: holds_def push_bit_eq_mult mult.commute)
  have "holds ((m @ 0x80 # replicate z 0) @ sizedesc (of_nat (8 * length m))) (hash_Finalize B P transform sizedesc st)"
    unfolding hash_Finalize_def pad size by (intro write_data assms)
  then show ?thesis by (simp add: holds_def digest_state_def z_def)
qed

text \<open>Padding completes the last block, so nothing of the message stays in the buffer.\<close>

lemma padded_length:
  "B dvd length (m @ 0x80 # replicate ((P - length m mod B) mod B) 0 @ sizedesc n)"
proof -
  let ?k = "length m mod B"
  have "?k < B" using B_pos by simp
  then have k: "?k \<le> P" using P_ge by simp
  have "(length m + (P - ?k) mod B + (1 + L)) mod B = (?k + (P - ?k) + (1 + L)) mod B"
    by (intro mod_add_cong) simp_all
  also have "?k + (P - ?k) + (1 + L) = P + 1 + L" using k by simp
  also have "(P + 1 + L) mod B = 0" using pad_fits by (simp add: dvd_eq_mod_eq_0)
  finally have "B dvd length m + (P - ?k) mod B + (1 + L)" by (simp only: dvd_eq_mod_eq_0)
  moreover have "length (m @ 0x80 # replicate ((P - ?k) mod B) 0 @ sizedesc n) = length m + (P - ?k) mod B + (1 + L)"
    by (simp add: sizedesc_length)
  ultimately show ?thesis by (simp only:)
qed

lemma digest_state_blocks:
  "digest_state m = fold (\<lambda>b s. transform s b) (blocks B (md_pad B (sizedesc (of_nat (8 * length m))) m)) init"
proof -
  let ?n = "length m + 1 + L"
  have "B dvd ?n + (P - length m mod B) mod B"
    using padded_length [of m 0] sizedesc_length by (simp add: ac_simps)
  moreover have "B dvd ?n + (B - ?n mod B) mod B"
  proof -
    have "(?n + (B - ?n mod B) mod B) mod B = (?n mod B + (B - ?n mod B)) mod B"
      by (simp only: mod_add_left_eq mod_add_right_eq)
    also have "\<dots> = 0" using B_pos by (simp add: less_imp_le)
    finally show ?thesis by (simp only: dvd_eq_mod_eq_0)
  qed
  ultimately have "(P - length m mod B) mod B = (B - ?n mod B) mod B"
    using B_pos by (intro residue_unique [where n = ?n]) simp_all
  then show ?thesis
    by (simp add: digest_state_def absorb_blocks [OF B_pos] md_pad_def sizedesc_length)
qed

lemma final_digest:
  "holds m st \<Longrightarrow> hs (hash_Finalize B P transform sizedesc st) =
    fold (\<lambda>b s. transform s b) (blocks B (md_pad B (sizedesc (of_nat (8 * length m))) m)) init"
  by (simp add: finalize digest_state_blocks)

lemma buffer_kept: "holds m st \<Longrightarrow> length (hbuf (hash_Finalize B P transform sizedesc st)) = B"
  unfolding hash_Finalize_def by (metis write_data holds_def)

lemma restart:
  "holds m st \<Longrightarrow> holds [] ((hash_Finalize B P transform sizedesc st)\<lparr>hbytes := 0, hs := init\<rparr>)"
  using B_pos buffer_kept by (simp add: holds_def absorb_short)

end

section \<open>The interface of a hash class\<close>

text \<open>What the users of a hash class rely on: \<open>fed m st\<close> says that the object has been given the message
  \<open>m\<close> since it was built or reset, and \<open>H\<close> is the digest, for the messages that are \<open>fit\<close>.\<close>

locale stream_hash =
  fixes new :: "'s hasher"
    and feed :: "bytes \<Rightarrow> 's hasher \<Rightarrow> 's hasher"
    and finish :: "'s hasher \<Rightarrow> bytes \<times> 's hasher"
    and reset :: "'s hasher \<Rightarrow> 's hasher"
    and fed :: "bytes \<Rightarrow> 's hasher \<Rightarrow> bool"
    and fit :: "bytes \<Rightarrow> bool"
    and H :: "bytes \<Rightarrow> bytes"
  assumes fed_new: "fed [] new"
    and fed_feed: "fed m st \<Longrightarrow> fed (m @ d) (feed d st)"
    and finish_digest: "fed m st \<Longrightarrow> fit m \<Longrightarrow> fst (finish st) = H m"
    and fed_reset: "fed m st \<Longrightarrow> fed [] (reset (snd (finish st)))"
begin

lemma fed_all: "fed m st \<Longrightarrow> fed (m @ concat ds) (fold feed ds st)"
proof (induction ds arbitrary: m st)
  case (Cons d ds)
  from Cons.IH [OF fed_feed [OF Cons.prems, of d]] show ?case by simp
qed simp

lemma digest_of: "fit (concat ds) \<Longrightarrow> fst (finish (fold feed ds new)) = H (concat ds)"
  using finish_digest [OF fed_all [OF fed_new, of ds]] by simp

lemma one_shot: "fit m \<Longrightarrow> fst (finish (feed m new)) = H m"
  using digest_of [of "[m]"] by simp

lemma again: "fed m st \<Longrightarrow> fit d \<Longrightarrow> fst (finish (feed d (reset (snd (finish st))))) = H d"
  using finish_digest [OF fed_feed [OF fed_reset], of m st d] by simp

end

section \<open>A message schedule in sixteen variables\<close>

text \<open>The unrolled rounds keep only the last sixteen words of the schedule \<open>W\<close>, word \<open>i\<close> in the variable
  \<open>i mod 16\<close>; the words from \<open>M\<close> on are not stored.\<close>

definition ring_ok :: "(nat \<Rightarrow> 'w) \<Rightarrow> nat \<Rightarrow> nat \<Rightarrow> 'w list \<Rightarrow> bool" where
  "ring_ok W M t w \<longleftrightarrow> length w = 16 \<and>
     (\<forall>i < min t M. min t M \<le> i + 16 \<longrightarrow> w ! (i mod 16) = W i)"

lemma ring_read:
  assumes ok: "ring_ok W M t w" and "0 < d" "d \<le> 16" "d \<le> t" "t < M + d"
  shows "w ! ((t + (16 - d)) mod 16) = W (t - d)"
proof -
  have "(t + (16 - d)) mod 16 = (t - d) mod 16"
    using assms(3,4) mod_add_self2 [of "t - d" 16] by (simp add: algebra_simps)
  moreover have "t - d < min t M" "min t M \<le> (t - d) + 16" using assms(2-5) by auto
  ultimately show ?thesis using ok unfolding ring_ok_def by metis
qed

lemma mod16_neq: "i < t \<Longrightarrow> t < i + 16 \<Longrightarrow> i mod 16 \<noteq> t mod (16 :: nat)"
proof
  assume i: "i < t" "t < i + 16" and "i mod 16 = t mod 16"
  then have "16 dvd t - i" using mod_eq_dvd_iff_nat [of i t 16] by simp
  with i have "16 \<le> t - i" by (intro dvd_imp_le) simp_all
  with i show False by simp
qed

lemma ring_store:
  assumes ok: "ring_ok W M t w" and t: "t < M"
  shows "ring_ok W M (Suc t) (w[t mod 16 := W t])"
proof -
  have "w[t mod 16 := W t] ! (i mod 16) = W i" if "i < Suc t" "Suc t \<le> i + 16" for i
  proof (cases "i = t")
    case True
    then show ?thesis using ok by (simp add: ring_ok_def)
  next
    case False
    then have "i < t" "t < i + 16" using that by simp_all
    then show ?thesis using ok mod16_neq [of i t] t by (simp add: ring_ok_def)
  qed
  then show ?thesis using ok t by (simp add: ring_ok_def)
qed

lemma ring_keep: "ring_ok W M t w \<Longrightarrow> M \<le> t \<Longrightarrow> ring_ok W M (Suc t) w"
  by (simp add: ring_ok_def)

lemma ring_start: "ring_ok W M 0 (replicate 16 x)"
  by (simp add: ring_ok_def)

end
