(* ===== verification/Sha1.thy ===== *)
theory Sha1
  imports Hashing
begin

text \<open>
  SHA-1: \<^verbatim>\<open>src/src/crypto/sha1.cpp\<close>.  The eighty calls of \<open>Round\<close> in \<open>Transform\<close> are a program
  over the registers \<open>a\<close> to \<open>e\<close> and the variables \<open>w0\<close> to \<open>w15\<close>, all by number; the property compares
  the class with the loop of FIPS 180-4.
\<close>

section \<open>The unrolled rounds\<close>

text \<open>The last argument of a call: \<open>w[i] = ReadBE32(chunk + off)\<close>,
  \<open>w[i] = left(w[i] ^ w[p] ^ w[q] ^ w[r])\<close>, or the same without the assignment.\<close>

datatype wsource1 = Load1 nat nat | Mix1 nat nat nat nat | Use1 nat nat nat nat

datatype round1 = Round1 nat nat nat nat nat "u32 \<Rightarrow> u32 \<Rightarrow> u32 \<Rightarrow> u32" u32 wsource1

definition sha1_f1 :: "u32 \<Rightarrow> u32 \<Rightarrow> u32 \<Rightarrow> u32" where
  "sha1_f1 b c d = d XOR (b AND (c XOR d))"

definition sha1_f2 :: "u32 \<Rightarrow> u32 \<Rightarrow> u32 \<Rightarrow> u32" where
  "sha1_f2 b c d = b XOR c XOR d"

definition sha1_f3 :: "u32 \<Rightarrow> u32 \<Rightarrow> u32 \<Rightarrow> u32" where
  "sha1_f3 b c d = (b AND c) OR (d AND (b OR c))"

definition left :: "u32 \<Rightarrow> u32" where
  "left x = push_bit 1 x OR drop_bit 31 x"

definition sha1_k1 :: u32 where "sha1_k1 = 0x5A827999"
definition sha1_k2 :: u32 where "sha1_k2 = 0x6ED9EBA1"
definition sha1_k3 :: u32 where "sha1_k3 = 0x8F1BBCDC"
definition sha1_k4 :: u32 where "sha1_k4 = 0xCA62C1D6"

definition w1_value :: "bytes \<Rightarrow> wsource1 \<Rightarrow> u32 list \<Rightarrow> u32" where
  "w1_value chunk src w =
     (case src of
        Load1 i off \<Rightarrow> ReadBE32 (drop off chunk)
      | Mix1 i p q r \<Rightarrow> left (w ! i XOR w ! p XOR w ! q XOR w ! r)
      | Use1 i p q r \<Rightarrow> left (w ! i XOR w ! p XOR w ! q XOR w ! r))"

definition w1_update :: "u32 \<Rightarrow> wsource1 \<Rightarrow> u32 list \<Rightarrow> u32 list" where
  "w1_update v src w =
     (case src of Load1 i off \<Rightarrow> w[i := v] | Mix1 i p q r \<Rightarrow> w[i := v] | Use1 i p q r \<Rightarrow> w)"

fun do_round1 :: "bytes \<Rightarrow> round1 \<Rightarrow> u32 list \<times> u32 list \<Rightarrow> u32 list \<times> u32 list" where
  "do_round1 chunk (Round1 a b c d e f k src) (s, w) =
     (let wv = w1_value chunk src w;
          fv = f (s ! b) (s ! c) (s ! d);
          e' = s ! e + ((push_bit 5 (s ! a) OR drop_bit 27 (s ! a)) + fv + k + wv)
      in (s[e := e', b := push_bit 30 (s ! b) OR drop_bit 2 (s ! b)], w1_update wv src w))"

definition sha1_rounds :: "round1 list" where
  "sha1_rounds =
     [Round1 0 1 2 3 4 sha1_f1 sha1_k1 (Load1 0 0),
      Round1 4 0 1 2 3 sha1_f1 sha1_k1 (Load1 1 4),
      Round1 3 4 0 1 2 sha1_f1 sha1_k1 (Load1 2 8),
      Round1 2 3 4 0 1 sha1_f1 sha1_k1 (Load1 3 12),
      Round1 1 2 3 4 0 sha1_f1 sha1_k1 (Load1 4 16),
      Round1 0 1 2 3 4 sha1_f1 sha1_k1 (Load1 5 20),
      Round1 4 0 1 2 3 sha1_f1 sha1_k1 (Load1 6 24),
      Round1 3 4 0 1 2 sha1_f1 sha1_k1 (Load1 7 28),
      Round1 2 3 4 0 1 sha1_f1 sha1_k1 (Load1 8 32),
      Round1 1 2 3 4 0 sha1_f1 sha1_k1 (Load1 9 36),
      Round1 0 1 2 3 4 sha1_f1 sha1_k1 (Load1 10 40),
      Round1 4 0 1 2 3 sha1_f1 sha1_k1 (Load1 11 44),
      Round1 3 4 0 1 2 sha1_f1 sha1_k1 (Load1 12 48),
      Round1 2 3 4 0 1 sha1_f1 sha1_k1 (Load1 13 52),
      Round1 1 2 3 4 0 sha1_f1 sha1_k1 (Load1 14 56),
      Round1 0 1 2 3 4 sha1_f1 sha1_k1 (Load1 15 60),
      Round1 4 0 1 2 3 sha1_f1 sha1_k1 (Mix1 0 13 8 2),
      Round1 3 4 0 1 2 sha1_f1 sha1_k1 (Mix1 1 14 9 3),
      Round1 2 3 4 0 1 sha1_f1 sha1_k1 (Mix1 2 15 10 4),
      Round1 1 2 3 4 0 sha1_f1 sha1_k1 (Mix1 3 0 11 5),
      Round1 0 1 2 3 4 sha1_f2 sha1_k2 (Mix1 4 1 12 6),
      Round1 4 0 1 2 3 sha1_f2 sha1_k2 (Mix1 5 2 13 7),
      Round1 3 4 0 1 2 sha1_f2 sha1_k2 (Mix1 6 3 14 8),
      Round1 2 3 4 0 1 sha1_f2 sha1_k2 (Mix1 7 4 15 9),
      Round1 1 2 3 4 0 sha1_f2 sha1_k2 (Mix1 8 5 0 10),
      Round1 0 1 2 3 4 sha1_f2 sha1_k2 (Mix1 9 6 1 11),
      Round1 4 0 1 2 3 sha1_f2 sha1_k2 (Mix1 10 7 2 12),
      Round1 3 4 0 1 2 sha1_f2 sha1_k2 (Mix1 11 8 3 13),
      Round1 2 3 4 0 1 sha1_f2 sha1_k2 (Mix1 12 9 4 14),
      Round1 1 2 3 4 0 sha1_f2 sha1_k2 (Mix1 13 10 5 15),
      Round1 0 1 2 3 4 sha1_f2 sha1_k2 (Mix1 14 11 6 0),
      Round1 4 0 1 2 3 sha1_f2 sha1_k2 (Mix1 15 12 7 1),
      Round1 3 4 0 1 2 sha1_f2 sha1_k2 (Mix1 0 13 8 2),
      Round1 2 3 4 0 1 sha1_f2 sha1_k2 (Mix1 1 14 9 3),
      Round1 1 2 3 4 0 sha1_f2 sha1_k2 (Mix1 2 15 10 4),
      Round1 0 1 2 3 4 sha1_f2 sha1_k2 (Mix1 3 0 11 5),
      Round1 4 0 1 2 3 sha1_f2 sha1_k2 (Mix1 4 1 12 6),
      Round1 3 4 0 1 2 sha1_f2 sha1_k2 (Mix1 5 2 13 7),
      Round1 2 3 4 0 1 sha1_f2 sha1_k2 (Mix1 6 3 14 8),
      Round1 1 2 3 4 0 sha1_f2 sha1_k2 (Mix1 7 4 15 9),
      Round1 0 1 2 3 4 sha1_f3 sha1_k3 (Mix1 8 5 0 10),
      Round1 4 0 1 2 3 sha1_f3 sha1_k3 (Mix1 9 6 1 11),
      Round1 3 4 0 1 2 sha1_f3 sha1_k3 (Mix1 10 7 2 12),
      Round1 2 3 4 0 1 sha1_f3 sha1_k3 (Mix1 11 8 3 13),
      Round1 1 2 3 4 0 sha1_f3 sha1_k3 (Mix1 12 9 4 14),
      Round1 0 1 2 3 4 sha1_f3 sha1_k3 (Mix1 13 10 5 15),
      Round1 4 0 1 2 3 sha1_f3 sha1_k3 (Mix1 14 11 6 0),
      Round1 3 4 0 1 2 sha1_f3 sha1_k3 (Mix1 15 12 7 1),
      Round1 2 3 4 0 1 sha1_f3 sha1_k3 (Mix1 0 13 8 2),
      Round1 1 2 3 4 0 sha1_f3 sha1_k3 (Mix1 1 14 9 3),
      Round1 0 1 2 3 4 sha1_f3 sha1_k3 (Mix1 2 15 10 4),
      Round1 4 0 1 2 3 sha1_f3 sha1_k3 (Mix1 3 0 11 5),
      Round1 3 4 0 1 2 sha1_f3 sha1_k3 (Mix1 4 1 12 6),
      Round1 2 3 4 0 1 sha1_f3 sha1_k3 (Mix1 5 2 13 7),
      Round1 1 2 3 4 0 sha1_f3 sha1_k3 (Mix1 6 3 14 8),
      Round1 0 1 2 3 4 sha1_f3 sha1_k3 (Mix1 7 4 15 9),
      Round1 4 0 1 2 3 sha1_f3 sha1_k3 (Mix1 8 5 0 10),
      Round1 3 4 0 1 2 sha1_f3 sha1_k3 (Mix1 9 6 1 11),
      Round1 2 3 4 0 1 sha1_f3 sha1_k3 (Mix1 10 7 2 12),
      Round1 1 2 3 4 0 sha1_f3 sha1_k3 (Mix1 11 8 3 13),
      Round1 0 1 2 3 4 sha1_f2 sha1_k4 (Mix1 12 9 4 14),
      Round1 4 0 1 2 3 sha1_f2 sha1_k4 (Mix1 13 10 5 15),
      Round1 3 4 0 1 2 sha1_f2 sha1_k4 (Mix1 14 11 6 0),
      Round1 2 3 4 0 1 sha1_f2 sha1_k4 (Mix1 15 12 7 1),
      Round1 1 2 3 4 0 sha1_f2 sha1_k4 (Mix1 0 13 8 2),
      Round1 0 1 2 3 4 sha1_f2 sha1_k4 (Mix1 1 14 9 3),
      Round1 4 0 1 2 3 sha1_f2 sha1_k4 (Mix1 2 15 10 4),
      Round1 3 4 0 1 2 sha1_f2 sha1_k4 (Mix1 3 0 11 5),
      Round1 2 3 4 0 1 sha1_f2 sha1_k4 (Mix1 4 1 12 6),
      Round1 1 2 3 4 0 sha1_f2 sha1_k4 (Mix1 5 2 13 7),
      Round1 0 1 2 3 4 sha1_f2 sha1_k4 (Mix1 6 3 14 8),
      Round1 4 0 1 2 3 sha1_f2 sha1_k4 (Mix1 7 4 15 9),
      Round1 3 4 0 1 2 sha1_f2 sha1_k4 (Mix1 8 5 0 10),
      Round1 2 3 4 0 1 sha1_f2 sha1_k4 (Mix1 9 6 1 11),
      Round1 1 2 3 4 0 sha1_f2 sha1_k4 (Mix1 10 7 2 12),
      Round1 0 1 2 3 4 sha1_f2 sha1_k4 (Mix1 11 8 3 13),
      Round1 4 0 1 2 3 sha1_f2 sha1_k4 (Mix1 12 9 4 14),
      Round1 3 4 0 1 2 sha1_f2 sha1_k4 (Use1 13 10 5 15),
      Round1 2 3 4 0 1 sha1_f2 sha1_k4 (Use1 14 11 6 0),
      Round1 1 2 3 4 0 sha1_f2 sha1_k4 (Use1 15 12 7 1)]"

definition sha1_Initialize :: "u32 list" where
  "sha1_Initialize = [0x67452301, 0xEFCDAB89, 0x98BADCFE, 0x10325476, 0xC3D2E1F0]"

definition sha1_Transform :: "u32 list \<Rightarrow> bytes \<Rightarrow> u32 list" where
  "sha1_Transform s chunk = map2 (+) s (fst (fold (do_round1 chunk) sha1_rounds (s, replicate 16 0)))"

definition CSHA1 :: "u32 list hasher" where
  "CSHA1 = \<lparr>hs = sha1_Initialize, hbuf = replicate 64 0, hbytes = 0\<rparr>"

definition CSHA1_Write :: "bytes \<Rightarrow> u32 list hasher \<Rightarrow> u32 list hasher" where
  "CSHA1_Write data st = hash_Write 64 sha1_Transform data st"

definition CSHA1_Finalize :: "u32 list hasher \<Rightarrow> bytes \<times> u32 list hasher" where
  "CSHA1_Finalize st =
     (let st1 = hash_Finalize 64 119 sha1_Transform WriteBE64 st
      in (concat (map WriteBE32 (hs st1)), st1))"

definition CSHA1_Reset :: "u32 list hasher \<Rightarrow> u32 list hasher" where
  "CSHA1_Reset st = st\<lparr>hbytes := 0, hs := sha1_Initialize\<rparr>"

section \<open>The standard's loop\<close>

function fips1_W :: "bytes \<Rightarrow> nat \<Rightarrow> u32" where
  "fips1_W chunk t =
     (if t < 16 then of_nat (be_value (take 4 (drop (4 * t) chunk)))
      else word_rotl 1 (fips1_W chunk (t - 3) XOR fips1_W chunk (t - 8) XOR fips1_W chunk (t - 14) XOR fips1_W chunk (t - 16)))"
  by pat_completeness auto
termination
  by (relation "measure (\<lambda>(chunk, t). t)") auto

declare fips1_W.simps [simp del]

definition fips1_f :: "nat \<Rightarrow> u32 \<Rightarrow> u32 \<Rightarrow> u32 \<Rightarrow> u32" where
  "fips1_f t x y z =
     (if t < 20 then (x AND y) XOR (NOT x AND z)
      else if t < 40 then x XOR y XOR z
      else if t < 60 then (x AND y) XOR (x AND z) XOR (y AND z)
      else x XOR y XOR z)"

definition fips1_K :: "nat \<Rightarrow> u32" where
  "fips1_K t =
     (if t < 20 then 0x5a827999 else if t < 40 then 0x6ed9eba1 else if t < 60 then 0x8f1bbcdc else 0xca62c1d6)"

definition fips1_step :: "nat \<Rightarrow> u32 \<Rightarrow> u32 list \<Rightarrow> u32 list" where
  "fips1_step t w v =
     [word_rotl 5 (v ! 0) + fips1_f t (v ! 1) (v ! 2) (v ! 3) + v ! 4 + fips1_K t + w,
      v ! 0, word_rotl 30 (v ! 1), v ! 2, v ! 3]"

definition fips1_compress :: "u32 list \<Rightarrow> bytes \<Rightarrow> u32 list" where
  "fips1_compress s chunk = map2 (+) s (fold (\<lambda>t. fips1_step t (fips1_W chunk t)) [0..<80] s)"

definition fips_sha1 :: "bytes \<Rightarrow> bytes" where
  "fips_sha1 m =
     concat (map (\<lambda>w. rev (le_bytes 4 (unat w)))
       (fold (\<lambda>b s. fips1_compress s b) (blocks 64 (md_pad 64 (rev (le_bytes 8 (8 * length m))) m))
         [0x67452301, 0xefcdab89, 0x98badcfe, 0x10325476, 0xc3d2e1f0]))"

section \<open>The unrolled rounds are the standard's loop\<close>

definition std_source1 :: "nat \<Rightarrow> wsource1" where
  "std_source1 t =
     (if t < 16 then Load1 t (4 * t)
      else if t < 77 then Mix1 (t mod 16) ((t + 13) mod 16) ((t + 8) mod 16) ((t + 2) mod 16)
      else Use1 (t mod 16) ((t + 13) mod 16) ((t + 8) mod 16) ((t + 2) mod 16))"

definition std_f1 :: "nat \<Rightarrow> u32 \<Rightarrow> u32 \<Rightarrow> u32 \<Rightarrow> u32" where
  "std_f1 t = (if t < 20 then sha1_f1 else if t < 40 then sha1_f2 else if t < 60 then sha1_f3 else sha1_f2)"

definition std_round1 :: "nat \<Rightarrow> round1" where
  "std_round1 t =
     (let r = 5 - t mod 5
      in Round1 (r mod 5) ((r + 1) mod 5) ((r + 2) mod 5) ((r + 3) mod 5) ((r + 4) mod 5)
           (std_f1 t) (fips1_K t) (std_source1 t))"

lemma sha1_rounds_regular: "sha1_rounds = map std_round1 [0..<80]"
  by (simp add: sha1_rounds_def upt_rec std_round1_def std_f1_def std_source1_def fips1_K_def
      sha1_k1_def sha1_k2_def sha1_k3_def sha1_k4_def)

lemma std_f1_fips: "std_f1 t x y z = fips1_f t x y z"
  by (rule bit_word_eqI) (auto simp: std_f1_def fips1_f_def sha1_f1_def sha1_f2_def sha1_f3_def bit_simps)

lemma left_rotl: "left x = word_rotl 1 x"
  using rotl_word [of 1 x] by (simp add: left_def)

lemma rotl_fips: "push_bit 5 x OR drop_bit 27 x = word_rotl 5 x" "push_bit 30 x OR drop_bit 2 x = word_rotl 30 x" for x :: u32
  using rotl_word [of 5 x] rotl_word [of 30 x] by simp_all

definition view1 :: "nat \<Rightarrow> u32 list \<Rightarrow> u32 list" where
  "view1 t s = map (\<lambda>j. s ! ((5 - t mod 5 + j) mod 5)) [0, 1, 2, 3, 4]"

lemma length_5E: "length s = 5 \<Longrightarrow> \<exists>a b c d e. s = [a, b, c, d, e]"
  by (auto simp: length_Suc_conv eval_nat_numeral)

lemma view1_step:
  assumes "length s = 5"
  shows "view1 (Suc t) (fst (do_round1 chunk (std_round1 t) (s, w))) =
    fips1_step t (w1_value chunk (std_source1 t) w) (view1 t s)"
proof -
  obtain a b c d e where s: "s = [a, b, c, d, e]" using length_5E [OF assms] by blast
  have m: "Suc t mod 5 = (if t mod 5 = 4 then 0 else Suc (t mod 5))" by (simp add: mod_Suc)
  have "t mod 5 < 5" by simp
  then consider "t mod 5 = 0" | "t mod 5 = 1" | "t mod 5 = 2" | "t mod 5 = 3" | "t mod 5 = 4" by linarith
  then show ?thesis
    by cases (simp_all add: s view1_def m std_round1_def fips1_step_def Let_def std_f1_fips rotl_fips)
qed

lemma length_do_round1: "do_round1 chunk x (s, w) = (s', w') \<Longrightarrow> length s' = length s"
  by (cases x) (auto simp: Let_def)

lemma sched1_value:
  assumes ok: "ring_ok (fips1_W chunk) 77 t w" and "t < 80"
  shows "w1_value chunk (std_source1 t) w = fips1_W chunk t"
proof (cases "t < 16")
  case True
  then show ?thesis by (simp add: std_source1_def w1_value_def fips1_W.simps [of chunk t] ReadBE32_def be_value_le)
next
  case False
  have at: "w ! ((t + (16 - d)) mod 16) = fips1_W chunk (t - d)" if "3 \<le> d" "d \<le> 16" for d
    using that False assms(2) by (intro ring_read [OF ok]) simp_all
  show ?thesis
    using at [of 3] at [of 8] at [of 14] at [of 16] False
    by (simp add: std_source1_def w1_value_def fips1_W.simps [of chunk t] left_rotl ac_simps)
qed

lemma sched1_step:
  assumes ok: "ring_ok (fips1_W chunk) 77 t w" and "t < 80"
  shows "ring_ok (fips1_W chunk) 77 (Suc t) (snd (do_round1 chunk (std_round1 t) (s, w)))"
proof -
  have w': "snd (do_round1 chunk (std_round1 t) (s, w)) = w1_update (fips1_W chunk t) (std_source1 t) w"
    using sched1_value [OF assms] by (simp add: std_round1_def Let_def)
  show ?thesis
    using ring_store [OF ok] ring_keep [OF ok] unfolding w'
    by (cases "t < 16") (simp_all add: w1_update_def std_source1_def)
qed

lemma prefix_rounds1:
  assumes "length s = 5" and "t \<le> 80"
  shows "\<exists>s' w'. fold (do_round1 chunk) (map std_round1 [0..<t]) (s, replicate 16 0) = (s', w') \<and>
    length s' = 5 \<and> ring_ok (fips1_W chunk) 77 t w' \<and>
    view1 t s' = fold (\<lambda>t. fips1_step t (fips1_W chunk t)) [0..<t] s"
  using assms(2)
proof (induction t)
  case 0
  obtain a b c d e where "s = [a, b, c, d, e]" using length_5E [OF assms(1)] by blast
  then show ?case by (simp add: view1_def ring_start)
next
  case (Suc t)
  then obtain s' w' where IH: "fold (do_round1 chunk) (map std_round1 [0..<t]) (s, replicate 16 0) = (s', w')"
    "length s' = 5" "ring_ok (fips1_W chunk) 77 t w'"
    "view1 t s' = fold (\<lambda>t. fips1_step t (fips1_W chunk t)) [0..<t] s" by auto
  obtain s'' w'' where step: "do_round1 chunk (std_round1 t) (s', w') = (s'', w'')" by force
  have t: "t < 80" using Suc.prems by simp
  have "view1 (Suc t) s'' = fips1_step t (fips1_W chunk t) (view1 t s')"
    using view1_step [OF IH(2), of t chunk w'] sched1_value [OF IH(3) t] step by simp
  moreover have "ring_ok (fips1_W chunk) 77 (Suc t) w''" using sched1_step [OF IH(3) t, of s'] step by simp
  ultimately show ?case using IH length_do_round1 [OF step] step by simp
qed

lemma sha1_Transform_fips:
  assumes "length s = 5"
  shows "sha1_Transform s chunk = fips1_compress s chunk \<and> length (sha1_Transform s chunk) = 5"
proof -
  obtain s' w' where run: "fold (do_round1 chunk) (map std_round1 [0..<80]) (s, replicate 16 0) = (s', w')"
    "length s' = 5" "view1 80 s' = fold (\<lambda>t. fips1_step t (fips1_W chunk t)) [0..<80] s"
    using prefix_rounds1 [OF assms order_refl] by blast
  obtain a b c d e where "s' = [a, b, c, d, e]" using length_5E [OF run(2)] by blast
  then have "view1 80 s' = s'" by (simp add: view1_def)
  with run assms show ?thesis
    by (simp add: sha1_Transform_def fips1_compress_def sha1_rounds_regular del: upt_Suc)
qed

lemma sha1_blocks:
  "length s = 5 \<Longrightarrow> fold (\<lambda>b s. sha1_Transform s b) bs s = fold (\<lambda>b s. fips1_compress s b) bs s"
proof (induction bs arbitrary: s)
  case (Cons b bs)
  from Cons.IH [OF conjunct2 [OF sha1_Transform_fips [OF Cons.prems, of b]]]
  show ?case using sha1_Transform_fips [OF Cons.prems, of b] by simp
qed simp

interpretation sha1_stream: block_hash "64" "119" "8" sha1_Transform sha1_Initialize WriteBE64
  by unfold_locales (simp_all add: WriteBE64_def)

interpretation sha1_class: stream_hash CSHA1 CSHA1_Write CSHA1_Finalize CSHA1_Reset sha1_stream.holds "\<lambda>_. True" fips_sha1
proof
  show "sha1_stream.holds [] CSHA1"
    by (simp add: CSHA1_def sha1_stream.initial)
  show "sha1_stream.holds (m @ d) (CSHA1_Write d st)" if "sha1_stream.holds m st" for m d st
    using sha1_stream.write_data [OF that] by (simp add: CSHA1_Write_def)
  show "fst (CSHA1_Finalize st) = fips_sha1 m" if "sha1_stream.holds m st" for m st
    using sha1_stream.final_digest [OF that(1)]
    by (simp add: CSHA1_Finalize_def Let_def fips_sha1_def sha1_blocks WriteBE64_bits sha1_Initialize_def WriteBE32_def [abs_def])
  show "sha1_stream.holds [] (CSHA1_Reset (snd (CSHA1_Finalize st)))" if "sha1_stream.holds m st" for m st
    using sha1_stream.restart [OF that] by (simp add: CSHA1_Reset_def CSHA1_Finalize_def Let_def)
qed

end
