(* ===== verification/Sha2.thy ===== *)
theory Sha2
  imports Hashing
begin

text \<open>
  SHA-256 and SHA-512: \<^verbatim>\<open>src/src/crypto/sha256.cpp\<close> and \<^verbatim>\<open>src/src/crypto/sha512.cpp\<close>.  The unrolled body of
  \<open>Transform\<close> is a program: one instruction per call of \<open>Round\<close>, with the registers \<open>a\<close> to \<open>h\<close> and
  the variables \<open>w0\<close> to \<open>w15\<close> by number, in the order of the sources.  The properties compare it with
  the loop and the message schedule of the standard (FIPS 180-4).
\<close>

section \<open>The unrolled rounds\<close>

text \<open>The last argument of a call: \<open>w[i] = ReadBE(chunk + off)\<close>,
  \<open>w[i] += sigma1(w[p]) + w[q] + sigma0(w[r])\<close>, or that sum without the assignment.\<close>

datatype wsource = Load nat nat | Sched nat nat nat nat | Use nat nat nat nat

datatype 'w round = Round nat nat nat nat nat nat nat nat 'w wsource

definition Ch :: "'a::len word \<Rightarrow> 'a word \<Rightarrow> 'a word \<Rightarrow> 'a word" where
  "Ch x y z = z XOR (x AND (y XOR z))"

definition Maj :: "'a::len word \<Rightarrow> 'a word \<Rightarrow> 'a word \<Rightarrow> 'a word" where
  "Maj x y z = (x AND y) OR (z AND (x OR y))"

text \<open>The functions in which the two classes differ.\<close>

record 'w sha2_funs =
  Sigma0 :: "'w \<Rightarrow> 'w"
  Sigma1 :: "'w \<Rightarrow> 'w"
  sigma0 :: "'w \<Rightarrow> 'w"
  sigma1 :: "'w \<Rightarrow> 'w"
  ReadBE :: "bytes \<Rightarrow> 'w"

definition w_value :: "'a::len word sha2_funs \<Rightarrow> bytes \<Rightarrow> wsource \<Rightarrow> 'a word list \<Rightarrow> 'a word" where
  "w_value F chunk src w =
     (case src of
        Load i off \<Rightarrow> ReadBE F (drop off chunk)
      | Sched i p q r \<Rightarrow> w ! i + (sigma1 F (w ! p) + w ! q + sigma0 F (w ! r))
      | Use i p q r \<Rightarrow> w ! i + sigma1 F (w ! p) + w ! q + sigma0 F (w ! r))"

definition w_update :: "'a::len word \<Rightarrow> wsource \<Rightarrow> 'a word list \<Rightarrow> 'a word list" where
  "w_update v src w =
     (case src of Load i off \<Rightarrow> w[i := v] | Sched i p q r \<Rightarrow> w[i := v] | Use i p q r \<Rightarrow> w)"

fun do_round ::
    "'a::len word sha2_funs \<Rightarrow> bytes \<Rightarrow> 'a word round \<Rightarrow> 'a word list \<times> 'a word list \<Rightarrow> 'a word list \<times> 'a word list" where
  "do_round F chunk (Round a b c d e f g h k src) (s, w) =
     (let wv = w_value F chunk src w;
          t1 = s ! h + Sigma1 F (s ! e) + Ch (s ! e) (s ! f) (s ! g) + k + wv;
          t2 = Sigma0 F (s ! a) + Maj (s ! a) (s ! b) (s ! c)
      in (s[d := s ! d + t1, h := t1 + t2], w_update wv src w))"

definition sha2_Transform :: "'a::len word sha2_funs \<Rightarrow> 'a word round list \<Rightarrow> 'a word list \<Rightarrow> bytes \<Rightarrow> 'a word list" where
  "sha2_Transform F prog s chunk =
     map2 (+) s (fst (fold (do_round F chunk) prog (s, replicate 16 0)))"

section \<open>SHA-256\<close>

definition rotr32 :: "u32 \<Rightarrow> nat \<Rightarrow> u32" where
  "rotr32 x n = drop_bit n x OR push_bit (32 - n) x"

definition sha256_funs :: "u32 sha2_funs" where
  "sha256_funs =
     \<lparr>Sigma0 = (\<lambda>x. rotr32 x 2 XOR rotr32 x 13 XOR rotr32 x 22),
      Sigma1 = (\<lambda>x. rotr32 x 6 XOR rotr32 x 11 XOR rotr32 x 25),
      sigma0 = (\<lambda>x. rotr32 x 7 XOR rotr32 x 18 XOR drop_bit 3 x),
      sigma1 = (\<lambda>x. rotr32 x 17 XOR rotr32 x 19 XOR drop_bit 10 x),
      ReadBE = ReadBE32\<rparr>"

definition sha256_rounds :: "u32 round list" where
  "sha256_rounds =
     [Round 0 1 2 3 4 5 6 7 0x428a2f98 (Load 0 0),
      Round 7 0 1 2 3 4 5 6 0x71374491 (Load 1 4),
      Round 6 7 0 1 2 3 4 5 0xb5c0fbcf (Load 2 8),
      Round 5 6 7 0 1 2 3 4 0xe9b5dba5 (Load 3 12),
      Round 4 5 6 7 0 1 2 3 0x3956c25b (Load 4 16),
      Round 3 4 5 6 7 0 1 2 0x59f111f1 (Load 5 20),
      Round 2 3 4 5 6 7 0 1 0x923f82a4 (Load 6 24),
      Round 1 2 3 4 5 6 7 0 0xab1c5ed5 (Load 7 28),
      Round 0 1 2 3 4 5 6 7 0xd807aa98 (Load 8 32),
      Round 7 0 1 2 3 4 5 6 0x12835b01 (Load 9 36),
      Round 6 7 0 1 2 3 4 5 0x243185be (Load 10 40),
      Round 5 6 7 0 1 2 3 4 0x550c7dc3 (Load 11 44),
      Round 4 5 6 7 0 1 2 3 0x72be5d74 (Load 12 48),
      Round 3 4 5 6 7 0 1 2 0x80deb1fe (Load 13 52),
      Round 2 3 4 5 6 7 0 1 0x9bdc06a7 (Load 14 56),
      Round 1 2 3 4 5 6 7 0 0xc19bf174 (Load 15 60),
      Round 0 1 2 3 4 5 6 7 0xe49b69c1 (Sched 0 14 9 1),
      Round 7 0 1 2 3 4 5 6 0xefbe4786 (Sched 1 15 10 2),
      Round 6 7 0 1 2 3 4 5 0x0fc19dc6 (Sched 2 0 11 3),
      Round 5 6 7 0 1 2 3 4 0x240ca1cc (Sched 3 1 12 4),
      Round 4 5 6 7 0 1 2 3 0x2de92c6f (Sched 4 2 13 5),
      Round 3 4 5 6 7 0 1 2 0x4a7484aa (Sched 5 3 14 6),
      Round 2 3 4 5 6 7 0 1 0x5cb0a9dc (Sched 6 4 15 7),
      Round 1 2 3 4 5 6 7 0 0x76f988da (Sched 7 5 0 8),
      Round 0 1 2 3 4 5 6 7 0x983e5152 (Sched 8 6 1 9),
      Round 7 0 1 2 3 4 5 6 0xa831c66d (Sched 9 7 2 10),
      Round 6 7 0 1 2 3 4 5 0xb00327c8 (Sched 10 8 3 11),
      Round 5 6 7 0 1 2 3 4 0xbf597fc7 (Sched 11 9 4 12),
      Round 4 5 6 7 0 1 2 3 0xc6e00bf3 (Sched 12 10 5 13),
      Round 3 4 5 6 7 0 1 2 0xd5a79147 (Sched 13 11 6 14),
      Round 2 3 4 5 6 7 0 1 0x06ca6351 (Sched 14 12 7 15),
      Round 1 2 3 4 5 6 7 0 0x14292967 (Sched 15 13 8 0),
      Round 0 1 2 3 4 5 6 7 0x27b70a85 (Sched 0 14 9 1),
      Round 7 0 1 2 3 4 5 6 0x2e1b2138 (Sched 1 15 10 2),
      Round 6 7 0 1 2 3 4 5 0x4d2c6dfc (Sched 2 0 11 3),
      Round 5 6 7 0 1 2 3 4 0x53380d13 (Sched 3 1 12 4),
      Round 4 5 6 7 0 1 2 3 0x650a7354 (Sched 4 2 13 5),
      Round 3 4 5 6 7 0 1 2 0x766a0abb (Sched 5 3 14 6),
      Round 2 3 4 5 6 7 0 1 0x81c2c92e (Sched 6 4 15 7),
      Round 1 2 3 4 5 6 7 0 0x92722c85 (Sched 7 5 0 8),
      Round 0 1 2 3 4 5 6 7 0xa2bfe8a1 (Sched 8 6 1 9),
      Round 7 0 1 2 3 4 5 6 0xa81a664b (Sched 9 7 2 10),
      Round 6 7 0 1 2 3 4 5 0xc24b8b70 (Sched 10 8 3 11),
      Round 5 6 7 0 1 2 3 4 0xc76c51a3 (Sched 11 9 4 12),
      Round 4 5 6 7 0 1 2 3 0xd192e819 (Sched 12 10 5 13),
      Round 3 4 5 6 7 0 1 2 0xd6990624 (Sched 13 11 6 14),
      Round 2 3 4 5 6 7 0 1 0xf40e3585 (Sched 14 12 7 15),
      Round 1 2 3 4 5 6 7 0 0x106aa070 (Sched 15 13 8 0),
      Round 0 1 2 3 4 5 6 7 0x19a4c116 (Sched 0 14 9 1),
      Round 7 0 1 2 3 4 5 6 0x1e376c08 (Sched 1 15 10 2),
      Round 6 7 0 1 2 3 4 5 0x2748774c (Sched 2 0 11 3),
      Round 5 6 7 0 1 2 3 4 0x34b0bcb5 (Sched 3 1 12 4),
      Round 4 5 6 7 0 1 2 3 0x391c0cb3 (Sched 4 2 13 5),
      Round 3 4 5 6 7 0 1 2 0x4ed8aa4a (Sched 5 3 14 6),
      Round 2 3 4 5 6 7 0 1 0x5b9cca4f (Sched 6 4 15 7),
      Round 1 2 3 4 5 6 7 0 0x682e6ff3 (Sched 7 5 0 8),
      Round 0 1 2 3 4 5 6 7 0x748f82ee (Sched 8 6 1 9),
      Round 7 0 1 2 3 4 5 6 0x78a5636f (Sched 9 7 2 10),
      Round 6 7 0 1 2 3 4 5 0x84c87814 (Sched 10 8 3 11),
      Round 5 6 7 0 1 2 3 4 0x8cc70208 (Sched 11 9 4 12),
      Round 4 5 6 7 0 1 2 3 0x90befffa (Sched 12 10 5 13),
      Round 3 4 5 6 7 0 1 2 0xa4506ceb (Sched 13 11 6 14),
      Round 2 3 4 5 6 7 0 1 0xbef9a3f7 (Use 14 12 7 15),
      Round 1 2 3 4 5 6 7 0 0xc67178f2 (Use 15 13 8 0)]"

definition sha256_Initialize :: "u32 list" where
  "sha256_Initialize =
     [0x6a09e667, 0xbb67ae85, 0x3c6ef372, 0xa54ff53a, 0x510e527f, 0x9b05688c, 0x1f83d9ab, 0x5be0cd19]"

definition sha256_Transform :: "u32 list \<Rightarrow> bytes \<Rightarrow> u32 list" where
  "sha256_Transform s chunk = sha2_Transform sha256_funs sha256_rounds s chunk"

definition CSHA256 :: "u32 list hasher" where
  "CSHA256 = \<lparr>hs = sha256_Initialize, hbuf = replicate 64 0, hbytes = 0\<rparr>"

definition CSHA256_Write :: "bytes \<Rightarrow> u32 list hasher \<Rightarrow> u32 list hasher" where
  "CSHA256_Write data st = hash_Write 64 sha256_Transform data st"

definition CSHA256_Finalize :: "u32 list hasher \<Rightarrow> bytes \<times> u32 list hasher" where
  "CSHA256_Finalize st =
     (let st1 = hash_Finalize 64 119 sha256_Transform WriteBE64 st
      in (concat (map WriteBE32 (hs st1)), st1))"

definition CSHA256_Reset :: "u32 list hasher \<Rightarrow> u32 list hasher" where
  "CSHA256_Reset st = st\<lparr>hbytes := 0, hs := sha256_Initialize\<rparr>"

section \<open>SHA-512\<close>

definition rotr64 :: "u64 \<Rightarrow> nat \<Rightarrow> u64" where
  "rotr64 x n = drop_bit n x OR push_bit (64 - n) x"

definition sha512_funs :: "u64 sha2_funs" where
  "sha512_funs =
     \<lparr>Sigma0 = (\<lambda>x. rotr64 x 28 XOR rotr64 x 34 XOR rotr64 x 39),
      Sigma1 = (\<lambda>x. rotr64 x 14 XOR rotr64 x 18 XOR rotr64 x 41),
      sigma0 = (\<lambda>x. rotr64 x 1 XOR rotr64 x 8 XOR drop_bit 7 x),
      sigma1 = (\<lambda>x. rotr64 x 19 XOR rotr64 x 61 XOR drop_bit 6 x),
      ReadBE = ReadBE64\<rparr>"

definition sha512_rounds :: "u64 round list" where
  "sha512_rounds =
     [Round 0 1 2 3 4 5 6 7 0x428a2f98d728ae22 (Load 0 0),
      Round 7 0 1 2 3 4 5 6 0x7137449123ef65cd (Load 1 8),
      Round 6 7 0 1 2 3 4 5 0xb5c0fbcfec4d3b2f (Load 2 16),
      Round 5 6 7 0 1 2 3 4 0xe9b5dba58189dbbc (Load 3 24),
      Round 4 5 6 7 0 1 2 3 0x3956c25bf348b538 (Load 4 32),
      Round 3 4 5 6 7 0 1 2 0x59f111f1b605d019 (Load 5 40),
      Round 2 3 4 5 6 7 0 1 0x923f82a4af194f9b (Load 6 48),
      Round 1 2 3 4 5 6 7 0 0xab1c5ed5da6d8118 (Load 7 56),
      Round 0 1 2 3 4 5 6 7 0xd807aa98a3030242 (Load 8 64),
      Round 7 0 1 2 3 4 5 6 0x12835b0145706fbe (Load 9 72),
      Round 6 7 0 1 2 3 4 5 0x243185be4ee4b28c (Load 10 80),
      Round 5 6 7 0 1 2 3 4 0x550c7dc3d5ffb4e2 (Load 11 88),
      Round 4 5 6 7 0 1 2 3 0x72be5d74f27b896f (Load 12 96),
      Round 3 4 5 6 7 0 1 2 0x80deb1fe3b1696b1 (Load 13 104),
      Round 2 3 4 5 6 7 0 1 0x9bdc06a725c71235 (Load 14 112),
      Round 1 2 3 4 5 6 7 0 0xc19bf174cf692694 (Load 15 120),
      Round 0 1 2 3 4 5 6 7 0xe49b69c19ef14ad2 (Sched 0 14 9 1),
      Round 7 0 1 2 3 4 5 6 0xefbe4786384f25e3 (Sched 1 15 10 2),
      Round 6 7 0 1 2 3 4 5 0x0fc19dc68b8cd5b5 (Sched 2 0 11 3),
      Round 5 6 7 0 1 2 3 4 0x240ca1cc77ac9c65 (Sched 3 1 12 4),
      Round 4 5 6 7 0 1 2 3 0x2de92c6f592b0275 (Sched 4 2 13 5),
      Round 3 4 5 6 7 0 1 2 0x4a7484aa6ea6e483 (Sched 5 3 14 6),
      Round 2 3 4 5 6 7 0 1 0x5cb0a9dcbd41fbd4 (Sched 6 4 15 7),
      Round 1 2 3 4 5 6 7 0 0x76f988da831153b5 (Sched 7 5 0 8),
      Round 0 1 2 3 4 5 6 7 0x983e5152ee66dfab (Sched 8 6 1 9),
      Round 7 0 1 2 3 4 5 6 0xa831c66d2db43210 (Sched 9 7 2 10),
      Round 6 7 0 1 2 3 4 5 0xb00327c898fb213f (Sched 10 8 3 11),
      Round 5 6 7 0 1 2 3 4 0xbf597fc7beef0ee4 (Sched 11 9 4 12),
      Round 4 5 6 7 0 1 2 3 0xc6e00bf33da88fc2 (Sched 12 10 5 13),
      Round 3 4 5 6 7 0 1 2 0xd5a79147930aa725 (Sched 13 11 6 14),
      Round 2 3 4 5 6 7 0 1 0x06ca6351e003826f (Sched 14 12 7 15),
      Round 1 2 3 4 5 6 7 0 0x142929670a0e6e70 (Sched 15 13 8 0),
      Round 0 1 2 3 4 5 6 7 0x27b70a8546d22ffc (Sched 0 14 9 1),
      Round 7 0 1 2 3 4 5 6 0x2e1b21385c26c926 (Sched 1 15 10 2),
      Round 6 7 0 1 2 3 4 5 0x4d2c6dfc5ac42aed (Sched 2 0 11 3),
      Round 5 6 7 0 1 2 3 4 0x53380d139d95b3df (Sched 3 1 12 4),
      Round 4 5 6 7 0 1 2 3 0x650a73548baf63de (Sched 4 2 13 5),
      Round 3 4 5 6 7 0 1 2 0x766a0abb3c77b2a8 (Sched 5 3 14 6),
      Round 2 3 4 5 6 7 0 1 0x81c2c92e47edaee6 (Sched 6 4 15 7),
      Round 1 2 3 4 5 6 7 0 0x92722c851482353b (Sched 7 5 0 8),
      Round 0 1 2 3 4 5 6 7 0xa2bfe8a14cf10364 (Sched 8 6 1 9),
      Round 7 0 1 2 3 4 5 6 0xa81a664bbc423001 (Sched 9 7 2 10),
      Round 6 7 0 1 2 3 4 5 0xc24b8b70d0f89791 (Sched 10 8 3 11),
      Round 5 6 7 0 1 2 3 4 0xc76c51a30654be30 (Sched 11 9 4 12),
      Round 4 5 6 7 0 1 2 3 0xd192e819d6ef5218 (Sched 12 10 5 13),
      Round 3 4 5 6 7 0 1 2 0xd69906245565a910 (Sched 13 11 6 14),
      Round 2 3 4 5 6 7 0 1 0xf40e35855771202a (Sched 14 12 7 15),
      Round 1 2 3 4 5 6 7 0 0x106aa07032bbd1b8 (Sched 15 13 8 0),
      Round 0 1 2 3 4 5 6 7 0x19a4c116b8d2d0c8 (Sched 0 14 9 1),
      Round 7 0 1 2 3 4 5 6 0x1e376c085141ab53 (Sched 1 15 10 2),
      Round 6 7 0 1 2 3 4 5 0x2748774cdf8eeb99 (Sched 2 0 11 3),
      Round 5 6 7 0 1 2 3 4 0x34b0bcb5e19b48a8 (Sched 3 1 12 4),
      Round 4 5 6 7 0 1 2 3 0x391c0cb3c5c95a63 (Sched 4 2 13 5),
      Round 3 4 5 6 7 0 1 2 0x4ed8aa4ae3418acb (Sched 5 3 14 6),
      Round 2 3 4 5 6 7 0 1 0x5b9cca4f7763e373 (Sched 6 4 15 7),
      Round 1 2 3 4 5 6 7 0 0x682e6ff3d6b2b8a3 (Sched 7 5 0 8),
      Round 0 1 2 3 4 5 6 7 0x748f82ee5defb2fc (Sched 8 6 1 9),
      Round 7 0 1 2 3 4 5 6 0x78a5636f43172f60 (Sched 9 7 2 10),
      Round 6 7 0 1 2 3 4 5 0x84c87814a1f0ab72 (Sched 10 8 3 11),
      Round 5 6 7 0 1 2 3 4 0x8cc702081a6439ec (Sched 11 9 4 12),
      Round 4 5 6 7 0 1 2 3 0x90befffa23631e28 (Sched 12 10 5 13),
      Round 3 4 5 6 7 0 1 2 0xa4506cebde82bde9 (Sched 13 11 6 14),
      Round 2 3 4 5 6 7 0 1 0xbef9a3f7b2c67915 (Sched 14 12 7 15),
      Round 1 2 3 4 5 6 7 0 0xc67178f2e372532b (Sched 15 13 8 0),
      Round 0 1 2 3 4 5 6 7 0xca273eceea26619c (Sched 0 14 9 1),
      Round 7 0 1 2 3 4 5 6 0xd186b8c721c0c207 (Sched 1 15 10 2),
      Round 6 7 0 1 2 3 4 5 0xeada7dd6cde0eb1e (Sched 2 0 11 3),
      Round 5 6 7 0 1 2 3 4 0xf57d4f7fee6ed178 (Sched 3 1 12 4),
      Round 4 5 6 7 0 1 2 3 0x06f067aa72176fba (Sched 4 2 13 5),
      Round 3 4 5 6 7 0 1 2 0x0a637dc5a2c898a6 (Sched 5 3 14 6),
      Round 2 3 4 5 6 7 0 1 0x113f9804bef90dae (Sched 6 4 15 7),
      Round 1 2 3 4 5 6 7 0 0x1b710b35131c471b (Sched 7 5 0 8),
      Round 0 1 2 3 4 5 6 7 0x28db77f523047d84 (Sched 8 6 1 9),
      Round 7 0 1 2 3 4 5 6 0x32caab7b40c72493 (Sched 9 7 2 10),
      Round 6 7 0 1 2 3 4 5 0x3c9ebe0a15c9bebc (Sched 10 8 3 11),
      Round 5 6 7 0 1 2 3 4 0x431d67c49c100d4c (Sched 11 9 4 12),
      Round 4 5 6 7 0 1 2 3 0x4cc5d4becb3e42b6 (Sched 12 10 5 13),
      Round 3 4 5 6 7 0 1 2 0x597f299cfc657e2a (Sched 13 11 6 14),
      Round 2 3 4 5 6 7 0 1 0x5fcb6fab3ad6faec (Use 14 12 7 15),
      Round 1 2 3 4 5 6 7 0 0x6c44198c4a475817 (Use 15 13 8 0)]"

definition sha512_Initialize :: "u64 list" where
  "sha512_Initialize =
     [0x6a09e667f3bcc908, 0xbb67ae8584caa73b, 0x3c6ef372fe94f82b, 0xa54ff53a5f1d36f1,
      0x510e527fade682d1, 0x9b05688c2b3e6c1f, 0x1f83d9abfb41bd6b, 0x5be0cd19137e2179]"

definition sha512_Transform :: "u64 list \<Rightarrow> bytes \<Rightarrow> u64 list" where
  "sha512_Transform s chunk = sha2_Transform sha512_funs sha512_rounds s chunk"

definition CSHA512 :: "u64 list hasher" where
  "CSHA512 = \<lparr>hs = sha512_Initialize, hbuf = replicate 128 0, hbytes = 0\<rparr>"

definition CSHA512_Write :: "bytes \<Rightarrow> u64 list hasher \<Rightarrow> u64 list hasher" where
  "CSHA512_Write data st = hash_Write 128 sha512_Transform data st"

definition CSHA512_Finalize :: "u64 list hasher \<Rightarrow> bytes \<times> u64 list hasher" where
  "CSHA512_Finalize st =
     (let st1 = hash_Finalize 128 239 sha512_Transform (\<lambda>n. replicate 8 0 @ WriteBE64 n) st
      in (concat (map WriteBE64 (hs st1)), st1))"

definition CSHA512_Reset :: "u64 list hasher \<Rightarrow> u64 list hasher" where
  "CSHA512_Reset st = st\<lparr>hbytes := 0, hs := sha512_Initialize\<rparr>"

section \<open>The standard's compression loop\<close>

text \<open>FIPS 180-4: the schedule \<open>W\<close>, and the eight working variables as a list that shifts by one place
  in every round.\<close>

function fips_W :: "'a::len word sha2_funs \<Rightarrow> nat \<Rightarrow> bytes \<Rightarrow> nat \<Rightarrow> 'a word" where
  "fips_W F wsz chunk t =
     (if t < 16 then ReadBE F (drop (wsz * t) chunk)
      else sigma1 F (fips_W F wsz chunk (t - 2)) + fips_W F wsz chunk (t - 7) +
           sigma0 F (fips_W F wsz chunk (t - 15)) + fips_W F wsz chunk (t - 16))"
  by pat_completeness auto
termination
  by (relation "measure (\<lambda>(F, wsz, chunk, t). t)") auto

declare fips_W.simps [simp del]

definition fips_Ch :: "'a::len word \<Rightarrow> 'a word \<Rightarrow> 'a word \<Rightarrow> 'a word" where
  "fips_Ch x y z = (x AND y) XOR (NOT x AND z)"

definition fips_Maj :: "'a::len word \<Rightarrow> 'a word \<Rightarrow> 'a word \<Rightarrow> 'a word" where
  "fips_Maj x y z = (x AND y) XOR (x AND z) XOR (y AND z)"

definition fips_step :: "'a::len word sha2_funs \<Rightarrow> 'a word \<Rightarrow> 'a word \<Rightarrow> 'a word list \<Rightarrow> 'a word list" where
  "fips_step F k w v =
     (let T1 = v ! 7 + Sigma1 F (v ! 4) + fips_Ch (v ! 4) (v ! 5) (v ! 6) + k + w;
          T2 = Sigma0 F (v ! 0) + fips_Maj (v ! 0) (v ! 1) (v ! 2)
      in [T1 + T2, v ! 0, v ! 1, v ! 2, v ! 3 + T1, v ! 4, v ! 5, v ! 6])"

definition fips_compress :: "'a::len word sha2_funs \<Rightarrow> nat \<Rightarrow> 'a word list \<Rightarrow> 'a word list \<Rightarrow> bytes \<Rightarrow> 'a word list" where
  "fips_compress F wsz K s chunk =
     map2 (+) s (fold (\<lambda>t. fips_step F (K ! t) (fips_W F wsz chunk t)) [0..<length K] s)"

text \<open>The functions of the standard for the two word sizes, with rotations and big-endian words.\<close>

definition fips256_funs :: "u32 sha2_funs" where
  "fips256_funs =
     \<lparr>Sigma0 = (\<lambda>x. word_rotr 2 x XOR word_rotr 13 x XOR word_rotr 22 x),
      Sigma1 = (\<lambda>x. word_rotr 6 x XOR word_rotr 11 x XOR word_rotr 25 x),
      sigma0 = (\<lambda>x. word_rotr 7 x XOR word_rotr 18 x XOR drop_bit 3 x),
      sigma1 = (\<lambda>x. word_rotr 17 x XOR word_rotr 19 x XOR drop_bit 10 x),
      ReadBE = (\<lambda>p. of_nat (be_value (take 4 p)))\<rparr>"

definition fips512_funs :: "u64 sha2_funs" where
  "fips512_funs =
     \<lparr>Sigma0 = (\<lambda>x. word_rotr 28 x XOR word_rotr 34 x XOR word_rotr 39 x),
      Sigma1 = (\<lambda>x. word_rotr 14 x XOR word_rotr 18 x XOR word_rotr 41 x),
      sigma0 = (\<lambda>x. word_rotr 1 x XOR word_rotr 8 x XOR drop_bit 7 x),
      sigma1 = (\<lambda>x. word_rotr 19 x XOR word_rotr 61 x XOR drop_bit 6 x),
      ReadBE = (\<lambda>p. of_nat (be_value (take 8 p)))\<rparr>"

text \<open>The constants of the standard: the first bits of the fractional parts of the cube roots of the first primes, and of
  the square roots of the first eight primes.  \<open>iroot e n b r\<close> adds to \<open>r\<close> the powers of two below \<open>2 ^ b\<close>, from the
  largest down, that keep its \<open>e\<close>-th power within \<open>n\<close>.\<close>

fun iroot :: "nat \<Rightarrow> int \<Rightarrow> nat \<Rightarrow> int \<Rightarrow> int" where
  "iroot e n 0 r = r"
| "iroot e n (Suc b) r = iroot e n b (if (r + 2 ^ b) ^ e \<le> n then r + 2 ^ b else r)"

definition first_primes :: "int list" where
  "first_primes =
     [2, 3, 5, 7, 11, 13, 17, 19, 23, 29, 31, 37, 41, 43, 47, 53, 59, 61, 67, 71, 73, 79, 83, 89, 97, 101,
      103, 107, 109, 113, 127, 131, 137, 139, 149, 151, 157, 163, 167, 173, 179, 181, 191, 193, 197, 199,
      211, 223, 227, 229, 233, 239, 241, 251, 257, 263, 269, 271, 277, 281, 283, 293, 307, 311, 313, 317,
      331, 337, 347, 349, 353, 359, 367, 373, 379, 383, 389, 397, 401, 409]"

definition root_bits :: "nat \<Rightarrow> int \<Rightarrow> 'a::len word" where
  "root_bits e p = of_int (iroot e (p * 2 ^ (LENGTH('a) * e)) (LENGTH('a) + 5) 0)"

definition fips256_K :: "u32 list" where "fips256_K = map (root_bits 3) (take 64 first_primes)"
definition fips256_H :: "u32 list" where "fips256_H = map (root_bits 2) (take 8 first_primes)"
definition fips512_K :: "u64 list" where "fips512_K = map (root_bits 3) first_primes"
definition fips512_H :: "u64 list" where "fips512_H = map (root_bits 2) (take 8 first_primes)"


lemma iroot_correct:
  assumes "0 \<le> r" "r ^ e \<le> n" "n < (r + 2 ^ b) ^ e"
  shows "0 \<le> iroot e n b r \<and> iroot e n b r ^ e \<le> n \<and> n < (iroot e n b r + 1) ^ e"
  using assms by (induction b arbitrary: r) (auto simp: algebra_simps)

lemma root_unique:
  assumes "0 \<le> q" "0 \<le> r" "q ^ e \<le> n" "n < (q + 1) ^ e" "r ^ e \<le> n" "n < (r + 1 :: int) ^ e" "0 < e"
  shows "q = r"
proof -
  have "q < r + 1" using assms power_less_imp_less_base [of q e "r + 1"] by linarith
  moreover have "r < q + 1" using assms power_less_imp_less_base [of r e "q + 1"] by linarith
  ultimately show ?thesis by linarith
qed

text \<open>The first bits, in units of \<open>1 / M\<close>, of the fractional part of the \<open>e\<close>-th root of \<open>p\<close> are \<open>k\<close>.\<close>

definition frac_root :: "nat \<Rightarrow> int \<Rightarrow> int \<Rightarrow> int \<Rightarrow> bool" where
  "frac_root e M p k \<longleftrightarrow>
     list_ex (\<lambda>n. if n ^ e \<le> p
        then if p < (n + 1) ^ e then (n * M + k) ^ e \<le> p * M ^ e \<and> p * M ^ e < (n * M + k + 1) ^ e else False
        else False) [1..7]"

lemma root_bits_frac:
  assumes "frac_root e (2 ^ LENGTH('a)) p (uint k)" and "0 < p" "p < 2 ^ (5 * e)" "0 < e"
  shows "root_bits e p = (k :: 'a::len word)"
proof -
  let ?M = "2 ^ LENGTH('a) :: int" and ?q = "iroot e (p * 2 ^ (LENGTH('a) * e)) (LENGTH('a) + 5) 0"
  obtain n where n: "1 \<le> n" "(n * ?M + uint k) ^ e \<le> p * ?M ^ e" "p * ?M ^ e < (n * ?M + uint k + 1) ^ e"
    using assms(1) by (auto simp: frac_root_def list_ex_iff split: if_splits)
  have M: "?M ^ e = 2 ^ (LENGTH('a) * e)" by (simp add: power_mult)
  have "p * 2 ^ (LENGTH('a) * e) < 2 ^ (5 * e) * 2 ^ (LENGTH('a) * e)" using assms(3) by simp
  also have "\<dots> = (0 + 2 ^ (LENGTH('a) + 5)) ^ e" by (simp add: power_add [symmetric] power_mult [symmetric] algebra_simps)
  finally have q: "0 \<le> ?q \<and> ?q ^ e \<le> p * 2 ^ (LENGTH('a) * e) \<and> p * 2 ^ (LENGTH('a) * e) < (?q + 1) ^ e"
    using assms by (intro iroot_correct) (simp_all add: zero_power)
  have "?q = n * ?M + uint k"
    using q n assms(4) unfolding M by (intro root_unique [where e = e and n = "p * 2 ^ (LENGTH('a) * e)"]) simp_all
  then show ?thesis by (simp add: root_bits_def)
qed

lemma root_bits_list:
  assumes "list_all2 (\<lambda>p k. frac_root e (2 ^ LENGTH('a)) p (uint k)) ps ks" and "list_all (\<lambda>p. 0 < p \<and> p < 2 ^ (5 * e)) ps" "0 < e"
  shows "map (root_bits e) ps = (ks :: 'a::len word list)"
  using assms(1,2) by (induction rule: list_all2_induct) (simp_all add: root_bits_frac assms(3))

fun round_constant :: "'w round \<Rightarrow> 'w" where
  "round_constant (Round a b c d e f g h k src) = k"

text \<open>The call of round \<open>t\<close> as the position \<open>t\<close> determines it.\<close>

definition std_source :: "nat \<Rightarrow> nat \<Rightarrow> nat \<Rightarrow> wsource" where
  "std_source wsz N t =
     (if t < 16 then Load t (wsz * t)
      else if t + 2 < N then Sched (t mod 16) ((t + 14) mod 16) ((t + 9) mod 16) ((t + 1) mod 16)
      else Use (t mod 16) ((t + 14) mod 16) ((t + 9) mod 16) ((t + 1) mod 16))"

definition std_round :: "nat \<Rightarrow> 'w list \<Rightarrow> nat \<Rightarrow> 'w round" where
  "std_round wsz K t =
     (let r = 8 - t mod 8
      in Round (r mod 8) ((r + 1) mod 8) ((r + 2) mod 8) ((r + 3) mod 8) ((r + 4) mod 8) ((r + 5) mod 8)
           ((r + 6) mod 8) ((r + 7) mod 8) (K ! t) (std_source wsz (length K) t))"

lemma Ch_fips: "Ch x y z = fips_Ch x y z"
  by (rule bit_word_eqI) (auto simp: Ch_def fips_Ch_def bit_simps)

lemma Maj_fips: "Maj x y z = fips_Maj x y z"
  by (rule bit_word_eqI) (auto simp: Maj_def fips_Maj_def bit_simps)

lemma rotr_fips: "0 < n \<Longrightarrow> n < 32 \<Longrightarrow> rotr32 x n = word_rotr n x"
  using rotr_word [of n x] by (simp add: rotr32_def)

lemma rotr64_fips: "0 < n \<Longrightarrow> n < 64 \<Longrightarrow> rotr64 x n = word_rotr n x"
  using rotr_word [of n x] by (simp add: rotr64_def)

lemma sha256_funs_fips: "sha256_funs = fips256_funs"
  by (simp add: sha256_funs_def fips256_funs_def rotr_fips be_value_le ReadBE32_def fun_eq_iff)

lemma sha512_funs_fips: "sha512_funs = fips512_funs"
  by (simp add: sha512_funs_def fips512_funs_def rotr64_fips be_value_le ReadBE64_def fun_eq_iff)

lemma sha256_rounds_regular: "sha256_rounds = map (std_round 4 (map round_constant sha256_rounds)) [0..<64]"
  by code_simp

lemma sha512_rounds_regular: "sha512_rounds = map (std_round 8 (map round_constant sha512_rounds)) [0..<80]"
  by code_simp

section \<open>The unrolled rounds are the standard's loop\<close>

text \<open>The working variables in the order of the standard, before round \<open>t\<close>.\<close>

definition view :: "nat \<Rightarrow> 'w list \<Rightarrow> 'w list" where
  "view t s = map (\<lambda>j. s ! ((8 - t mod 8 + j) mod 8)) [0, 1, 2, 3, 4, 5, 6, 7]"

lemma length_8E: "length s = 8 \<Longrightarrow> \<exists>a b c d e f g h. s = [a, b, c, d, e, f, g, h]"
  by (auto simp: length_Suc_conv eval_nat_numeral)

lemma view_step:
  assumes "length s = 8"
  shows "view (Suc t) (fst (do_round F chunk (std_round wsz K t) (s, w))) =
    fips_step F (K ! t) (w_value F chunk (std_source wsz (length K) t) w) (view t s)"
proof -
  obtain a b c d e f g h where s: "s = [a, b, c, d, e, f, g, h]" using length_8E [OF assms] by blast
  have m: "Suc t mod 8 = (if t mod 8 = 7 then 0 else Suc (t mod 8))" by (simp add: mod_Suc)
  have "t mod 8 < 8" by simp
  then consider "t mod 8 = 0" | "t mod 8 = 1" | "t mod 8 = 2" | "t mod 8 = 3" | "t mod 8 = 4" | "t mod 8 = 5"
    | "t mod 8 = 6" | "t mod 8 = 7" by linarith
  then show ?thesis
    by cases (simp_all add: s view_def m std_round_def fips_step_def Let_def Ch_fips Maj_fips)
qed

lemma length_do_round:
  "do_round F chunk x (s, w) = (s', w') \<Longrightarrow> length s' = length s \<and> length w' = length w"
  by (cases x) (auto simp: Let_def w_update_def split: wsource.splits)

lemma sched_value:
  assumes ok: "ring_ok (fips_W F wsz chunk) (N - 2) t w" and "t < N" "18 \<le> N"
  shows "w_value F chunk (std_source wsz N t) w = fips_W F wsz chunk t"
proof (cases "t < 16")
  case True
  then show ?thesis by (simp add: std_source_def w_value_def fips_W.simps [of F wsz chunk t])
next
  case False
  have at: "w ! ((t + (16 - d)) mod 16) = fips_W F wsz chunk (t - d)" if "2 \<le> d" "d \<le> 16" for d
    using that False assms(2) by (intro ring_read [OF ok]) simp_all
  show ?thesis
    using at [of 2] at [of 7] at [of 15] at [of 16] False
    by (simp add: std_source_def w_value_def fips_W.simps [of F wsz chunk t] ac_simps)
qed

lemma sched_step:
  assumes ok: "ring_ok (fips_W F wsz chunk) (length K - 2) t w" and "t < length K" "18 \<le> length K"
  shows "ring_ok (fips_W F wsz chunk) (length K - 2) (Suc t) (snd (do_round F chunk (std_round wsz K t) (s, w)))"
proof -
  let ?N = "length K"
  have w': "snd (do_round F chunk (std_round wsz K t) (s, w)) =
      w_update (fips_W F wsz chunk t) (std_source wsz ?N t) w"
    using sched_value [OF assms] by (simp add: std_round_def Let_def)
  show ?thesis
  proof (cases "t + 2 < ?N")
    case True
    then have "w_update (fips_W F wsz chunk t) (std_source wsz ?N t) w = w[t mod 16 := fips_W F wsz chunk t]"
      by (simp add: w_update_def std_source_def)
    then show ?thesis using ring_store [OF ok] True unfolding w' by simp
  next
    case False
    then have "w_update (fips_W F wsz chunk t) (std_source wsz ?N t) w = w"
      using assms(3) by (simp add: w_update_def std_source_def)
    then show ?thesis using ring_keep [OF ok] False unfolding w' by simp
  qed
qed

locale sha2_unrolled =
  fixes F :: "'a::len word sha2_funs" and wsz :: nat and prog :: "'a word round list"
  assumes regular: "prog = map (std_round wsz (map round_constant prog)) [0..<length prog]"
    and rounds: "18 \<le> length prog" "8 dvd length prog"
begin

lemma prefix_rounds:
  assumes "length s = 8" and "t \<le> length prog"
  shows "\<exists>s' w'. fold (do_round F chunk) (map (std_round wsz (map round_constant prog)) [0..<t]) (s, replicate 16 0) = (s', w') \<and>
    length s' = 8 \<and> ring_ok (fips_W F wsz chunk) (length prog - 2) t w' \<and>
    view t s' = fold (\<lambda>t. fips_step F (map round_constant prog ! t) (fips_W F wsz chunk t)) [0..<t] s"
  using assms(2)
proof (induction t)
  case 0
  obtain a b c d e f g h where "s = [a, b, c, d, e, f, g, h]" using length_8E [OF assms(1)] by blast
  then show ?case by (simp add: view_def ring_start)
next
  case (Suc t)
  let ?K = "map round_constant prog"
  obtain s' w' where IH: "fold (do_round F chunk) (map (std_round wsz ?K) [0..<t]) (s, replicate 16 0) = (s', w')"
    "length s' = 8" "ring_ok (fips_W F wsz chunk) (length ?K - 2) t w'"
    "view t s' = fold (\<lambda>t. fips_step F (?K ! t) (fips_W F wsz chunk t)) [0..<t] s"
    using Suc by auto
  obtain s'' w'' where step: "do_round F chunk (std_round wsz ?K t) (s', w') = (s'', w'')" by force
  have t: "t < length ?K" "18 \<le> length ?K" using Suc.prems rounds by simp_all
  have "view (Suc t) s'' = fips_step F (?K ! t) (fips_W F wsz chunk t) (view t s')"
    using view_step [OF IH(2), of t F chunk wsz ?K w'] sched_value [OF IH(3) t] step by simp
  moreover have "ring_ok (fips_W F wsz chunk) (length ?K - 2) (Suc t) w''"
    using sched_step [OF IH(3) t, of s'] step by simp
  ultimately show ?case using IH length_do_round [OF step] step by simp
qed

lemma transform_eq_fips:
  assumes "length s = 8"
  shows "sha2_Transform F prog s chunk = fips_compress F wsz (map round_constant prog) s chunk"
proof -
  obtain s' w' where run: "fold (do_round F chunk) (map (std_round wsz (map round_constant prog)) [0..<length prog]) (s, replicate 16 0) = (s', w')"
    "length s' = 8"
    "view (length prog) s' = fold (\<lambda>t. fips_step F (map round_constant prog ! t) (fips_W F wsz chunk t)) [0..<length prog] s"
    using prefix_rounds [OF assms order_refl] by blast
  have "length prog mod 8 = 0" using rounds(2) by (simp add: dvd_eq_mod_eq_0)
  moreover obtain a b c d e f g h where "s' = [a, b, c, d, e, f, g, h]" using length_8E [OF run(2)] by blast
  ultimately have "view (length prog) s' = s'" by (simp add: view_def)
  with run regular show ?thesis by (simp add: sha2_Transform_def fips_compress_def)
qed

lemma length_transform:
  assumes "length s = 8"
  shows "length (sha2_Transform F prog s chunk) = 8"
  using prefix_rounds [OF assms order_refl, of chunk] assms regular by (auto simp: sha2_Transform_def)

lemma transform_blocks:
  "length s = 8 \<Longrightarrow> fold (\<lambda>b s. sha2_Transform F prog s b) bs s =
     fold (\<lambda>b s. fips_compress F wsz (map round_constant prog) s b) bs s"
  by (induction bs arbitrary: s) (simp_all add: transform_eq_fips [symmetric] length_transform)

end

lemma length_sha256_rounds: "length sha256_rounds = 64"
  by (simp add: sha256_rounds_def)

lemma length_sha512_rounds: "length sha512_rounds = 80"
  by (simp add: sha512_rounds_def)

interpretation sha256: sha2_unrolled sha256_funs "4" sha256_rounds
proof
  show "sha256_rounds = map (std_round 4 (map round_constant sha256_rounds)) [0..<length sha256_rounds]"
    unfolding length_sha256_rounds by (rule sha256_rounds_regular)
qed (simp_all add: length_sha256_rounds)

interpretation sha512: sha2_unrolled sha512_funs "8" sha512_rounds
proof
  show "sha512_rounds = map (std_round 8 (map round_constant sha512_rounds)) [0..<length sha512_rounds]"
    unfolding length_sha512_rounds by (rule sha512_rounds_regular)
qed (simp_all add: length_sha512_rounds)

interpretation sha256_stream: block_hash "64" "119" "8" sha256_Transform sha256_Initialize WriteBE64
  by unfold_locales (simp_all add: WriteBE64_def)

interpretation sha512_stream: block_hash "128" "239" "16" sha512_Transform sha512_Initialize "\<lambda>n. replicate 8 0 @ WriteBE64 n"
  by unfold_locales (simp_all add: WriteBE64_def)

section \<open>The digests of the standard\<close>

text \<open>The message of \<open>n\<close> bits, padded with its length in \<open>L\<close> bytes, most significant first.\<close>

definition fips_sha256 :: "bytes \<Rightarrow> bytes" where
  "fips_sha256 m =
     concat (map (\<lambda>w. rev (le_bytes 4 (unat w)))
       (fold (\<lambda>b s. fips_compress fips256_funs 4 fips256_K s b)
         (blocks 64 (md_pad 64 (rev (le_bytes 8 (8 * length m))) m)) fips256_H))"

definition fips_sha512 :: "bytes \<Rightarrow> bytes" where
  "fips_sha512 m =
     concat (map (\<lambda>w. rev (le_bytes 8 (unat w)))
       (fold (\<lambda>b s. fips_compress fips512_funs 8 fips512_K s b)
         (blocks 128 (md_pad 128 (rev (le_bytes 16 (8 * length m))) m)) fips512_H))"

lemma sha256_constants: "map round_constant sha256_rounds = fips256_K" "sha256_Initialize = fips256_H"
proof -
  have "list_all2 (\<lambda>p k. frac_root 3 0x100000000 p (uint k)) (take 64 first_primes) (map round_constant sha256_rounds)" by code_simp
  moreover have "list_all (\<lambda>p. 0 < p \<and> p < 32768) (take 64 first_primes)" by code_simp
  ultimately show "map round_constant sha256_rounds = fips256_K"
    unfolding fips256_K_def by (intro root_bits_list [symmetric]) simp_all
  have "list_all2 (\<lambda>p k. frac_root 2 0x100000000 p (uint k)) (take 8 first_primes) sha256_Initialize" by code_simp
  moreover have "list_all (\<lambda>p. 0 < p \<and> p < 1024) (take 8 first_primes)" by code_simp
  ultimately show "sha256_Initialize = fips256_H"
    unfolding fips256_H_def by (intro root_bits_list [symmetric]) simp_all
qed

lemma sha512_constants: "map round_constant sha512_rounds = fips512_K" "sha512_Initialize = fips512_H"
proof -
  have "list_all2 (\<lambda>p k. frac_root 3 0x10000000000000000 p (uint k)) first_primes (map round_constant sha512_rounds)" by code_simp
  moreover have "list_all (\<lambda>p. 0 < p \<and> p < 32768) first_primes" by code_simp
  ultimately show "map round_constant sha512_rounds = fips512_K"
    unfolding fips512_K_def by (intro root_bits_list [symmetric]) simp_all
  have "list_all2 (\<lambda>p k. frac_root 2 0x10000000000000000 p (uint k)) (take 8 first_primes) sha512_Initialize" by code_simp
  moreover have "list_all (\<lambda>p. 0 < p \<and> p < 1024) (take 8 first_primes)" by code_simp
  ultimately show "sha512_Initialize = fips512_H"
    unfolding fips512_H_def by (intro root_bits_list [symmetric]) simp_all
qed

lemma le_bytes_append: "le_bytes (m + n) x = le_bytes m x @ le_bytes n (x div 256 ^ m)"
  by (induction m arbitrary: x) (simp_all add: div_mult2_eq)

lemma le_bytes_zero: "le_bytes n 0 = replicate n 0"
  by (induction n) simp_all

lemma wide_length:
  assumes "n < 2 ^ 64"
  shows "rev (le_bytes 16 n) = replicate 8 0 @ WriteBE64 (of_nat n)"
proof -
  have "le_bytes 16 n = le_bytes 8 n @ le_bytes 8 (n div 256 ^ 8)"
    using le_bytes_append [of 8 8 n] by simp
  moreover have "n div 256 ^ 8 = 0" using assms by simp
  ultimately show ?thesis by (simp add: le_bytes_zero WriteBE64_of_nat)
qed

lemma sha256_blocks:
  "fold (\<lambda>b s. sha256_Transform s b) bs sha256_Initialize = fold (\<lambda>b s. fips_compress fips256_funs 4 fips256_K s b) bs fips256_H"
  unfolding sha256_Transform_def sha256_constants(1) [symmetric] sha256_constants(2) [symmetric] sha256_funs_fips [symmetric]
  by (rule sha256.transform_blocks) (simp add: sha256_Initialize_def)

lemma sha512_blocks:
  "fold (\<lambda>b s. sha512_Transform s b) bs sha512_Initialize = fold (\<lambda>b s. fips_compress fips512_funs 8 fips512_K s b) bs fips512_H"
  unfolding sha512_Transform_def sha512_constants(1) [symmetric] sha512_constants(2) [symmetric] sha512_funs_fips [symmetric]
  by (rule sha512.transform_blocks) (simp add: sha512_Initialize_def)

interpretation sha256_class: stream_hash CSHA256 CSHA256_Write CSHA256_Finalize CSHA256_Reset sha256_stream.holds "\<lambda>_. True" fips_sha256
proof
  show "sha256_stream.holds [] CSHA256"
    by (simp add: CSHA256_def sha256_stream.initial)
  show "sha256_stream.holds (m @ d) (CSHA256_Write d st)" if "sha256_stream.holds m st" for m d st
    using sha256_stream.write_data [OF that] by (simp add: CSHA256_Write_def)
  show "fst (CSHA256_Finalize st) = fips_sha256 m" if "sha256_stream.holds m st" for m st
    using sha256_stream.final_digest [OF that(1)]
    by (simp add: CSHA256_Finalize_def Let_def fips_sha256_def sha256_blocks WriteBE64_bits WriteBE32_def [abs_def])
  show "sha256_stream.holds [] (CSHA256_Reset (snd (CSHA256_Finalize st)))" if "sha256_stream.holds m st" for m st
    using sha256_stream.restart [OF that] by (simp add: CSHA256_Reset_def CSHA256_Finalize_def Let_def)
qed

interpretation sha512_class: stream_hash CSHA512 CSHA512_Write CSHA512_Finalize CSHA512_Reset sha512_stream.holds "\<lambda>m. 8 * length m < 2 ^ 64" fips_sha512
proof
  show "sha512_stream.holds [] CSHA512"
    by (simp add: CSHA512_def sha512_stream.initial)
  show "sha512_stream.holds (m @ d) (CSHA512_Write d st)" if "sha512_stream.holds m st" for m d st
    using sha512_stream.write_data [OF that] by (simp add: CSHA512_Write_def)
  show "fst (CSHA512_Finalize st) = fips_sha512 m" if "sha512_stream.holds m st" "8 * length m < 2 ^ 64" for m st
  proof -
    have "WriteBE64 = (\<lambda>w. rev (le_bytes 8 (unat w)))" by (simp add: WriteBE64_def fun_eq_iff)
    then show ?thesis
      using sha512_stream.final_digest [OF that(1)] wide_length [OF that(2)]
      by (simp only: CSHA512_Finalize_def Let_def fips_sha512_def sha512_blocks fst_conv of_nat_mult)
  qed
  show "sha512_stream.holds [] (CSHA512_Reset (snd (CSHA512_Finalize st)))" if "sha512_stream.holds m st" for m st
    using sha512_stream.restart [OF that] by (simp add: CSHA512_Reset_def CSHA512_Finalize_def Let_def)
qed

end
