(* ===== verification/Ripemd160.thy ===== *)
theory Ripemd160
  imports Hashing
begin

text \<open>
  RIPEMD-160: \<^verbatim>\<open>src/src/crypto/ripemd160.cpp\<close>.  The 160 interleaved calls of \<open>Transform\<close> are a
  program over the two register files \<open>a1\<close> to \<open>e1\<close> and \<open>a2\<close> to \<open>e2\<close>; the property compares the class
  with the two loops of the definition of RIPEMD-160 by Dobbertin, Bosselaers and Preneel.
\<close>

section \<open>The unrolled rounds\<close>

text \<open>\<open>R1 n a b c d e i r\<close> is the call \<open>Rn1(a1, b1, c1, d1, e1, wi, r)\<close> and \<open>R2\<close> the call \<open>Rn2\<close> on the
  second file; registers are numbers.\<close>

datatype rcall = R1 nat nat nat nat nat nat nat nat | R2 nat nat nat nat nat nat nat nat

definition rmd_f1 :: "u32 \<Rightarrow> u32 \<Rightarrow> u32 \<Rightarrow> u32" where
  "rmd_f1 x y z = x XOR y XOR z"

definition rmd_f2 :: "u32 \<Rightarrow> u32 \<Rightarrow> u32 \<Rightarrow> u32" where
  "rmd_f2 x y z = (x AND y) OR (NOT x AND z)"

definition rmd_f3 :: "u32 \<Rightarrow> u32 \<Rightarrow> u32 \<Rightarrow> u32" where
  "rmd_f3 x y z = (x OR NOT y) XOR z"

definition rmd_f4 :: "u32 \<Rightarrow> u32 \<Rightarrow> u32 \<Rightarrow> u32" where
  "rmd_f4 x y z = (x AND z) OR (y AND NOT z)"

definition rmd_f5 :: "u32 \<Rightarrow> u32 \<Rightarrow> u32 \<Rightarrow> u32" where
  "rmd_f5 x y z = x XOR (y OR NOT z)"

definition rol :: "u32 \<Rightarrow> nat \<Rightarrow> u32" where
  "rol x i = push_bit i x OR drop_bit (32 - i) x"

definition rmd_Round ::
    "u32 list \<Rightarrow> nat \<Rightarrow> nat \<Rightarrow> nat \<Rightarrow> nat \<Rightarrow> nat \<Rightarrow> u32 \<Rightarrow> u32 \<Rightarrow> u32 \<Rightarrow> nat \<Rightarrow> u32 list" where
  "rmd_Round s a b c d e f x k r =
     (let a' = rol (s ! a + f + x + k) r + s ! e
      in s[a := a', c := rol (s ! c) 10])"

text \<open>The function and the constant of \<open>R11\<close> to \<open>R51\<close>, and of \<open>R12\<close> to \<open>R52\<close>.\<close>

definition rmd_line1 :: "nat \<Rightarrow> (u32 \<Rightarrow> u32 \<Rightarrow> u32 \<Rightarrow> u32) \<times> u32" where
  "rmd_line1 rnd =
     (if rnd = 1 then (rmd_f1, 0) else if rnd = 2 then (rmd_f2, 0x5A827999)
      else if rnd = 3 then (rmd_f3, 0x6ED9EBA1) else if rnd = 4 then (rmd_f4, 0x8F1BBCDC)
      else (rmd_f5, 0xA953FD4E))"

definition rmd_line2 :: "nat \<Rightarrow> (u32 \<Rightarrow> u32 \<Rightarrow> u32 \<Rightarrow> u32) \<times> u32" where
  "rmd_line2 rnd =
     (if rnd = 1 then (rmd_f5, 0x50A28BE6) else if rnd = 2 then (rmd_f4, 0x5C4DD124)
      else if rnd = 3 then (rmd_f3, 0x6D703EF3) else if rnd = 4 then (rmd_f2, 0x7A6D76E9)
      else (rmd_f1, 0))"

fun do_rcall :: "u32 list \<Rightarrow> rcall \<Rightarrow> u32 list \<times> u32 list \<Rightarrow> u32 list \<times> u32 list" where
  "do_rcall w (R1 rnd a b c d e i r) (s1, s2) =
     (case rmd_line1 rnd of (f, k) \<Rightarrow> (rmd_Round s1 a b c d e (f (s1 ! b) (s1 ! c) (s1 ! d)) (w ! i) k r, s2))"
| "do_rcall w (R2 rnd a b c d e i r) (s1, s2) =
     (case rmd_line2 rnd of (f, k) \<Rightarrow> (s1, rmd_Round s2 a b c d e (f (s2 ! b) (s2 ! c) (s2 ! d)) (w ! i) k r))"

definition rmd_rounds :: "rcall list" where
  "rmd_rounds =
     [R1 1 0 1 2 3 4 0 11, R2 1 0 1 2 3 4 5 8,
      R1 1 4 0 1 2 3 1 14, R2 1 4 0 1 2 3 14 9,
      R1 1 3 4 0 1 2 2 15, R2 1 3 4 0 1 2 7 9,
      R1 1 2 3 4 0 1 3 12, R2 1 2 3 4 0 1 0 11,
      R1 1 1 2 3 4 0 4 5, R2 1 1 2 3 4 0 9 13,
      R1 1 0 1 2 3 4 5 8, R2 1 0 1 2 3 4 2 15,
      R1 1 4 0 1 2 3 6 7, R2 1 4 0 1 2 3 11 15,
      R1 1 3 4 0 1 2 7 9, R2 1 3 4 0 1 2 4 5,
      R1 1 2 3 4 0 1 8 11, R2 1 2 3 4 0 1 13 7,
      R1 1 1 2 3 4 0 9 13, R2 1 1 2 3 4 0 6 7,
      R1 1 0 1 2 3 4 10 14, R2 1 0 1 2 3 4 15 8,
      R1 1 4 0 1 2 3 11 15, R2 1 4 0 1 2 3 8 11,
      R1 1 3 4 0 1 2 12 6, R2 1 3 4 0 1 2 1 14,
      R1 1 2 3 4 0 1 13 7, R2 1 2 3 4 0 1 10 14,
      R1 1 1 2 3 4 0 14 9, R2 1 1 2 3 4 0 3 12,
      R1 1 0 1 2 3 4 15 8, R2 1 0 1 2 3 4 12 6,
      R1 2 4 0 1 2 3 7 7, R2 2 4 0 1 2 3 6 9,
      R1 2 3 4 0 1 2 4 6, R2 2 3 4 0 1 2 11 13,
      R1 2 2 3 4 0 1 13 8, R2 2 2 3 4 0 1 3 15,
      R1 2 1 2 3 4 0 1 13, R2 2 1 2 3 4 0 7 7,
      R1 2 0 1 2 3 4 10 11, R2 2 0 1 2 3 4 0 12,
      R1 2 4 0 1 2 3 6 9, R2 2 4 0 1 2 3 13 8,
      R1 2 3 4 0 1 2 15 7, R2 2 3 4 0 1 2 5 9,
      R1 2 2 3 4 0 1 3 15, R2 2 2 3 4 0 1 10 11,
      R1 2 1 2 3 4 0 12 7, R2 2 1 2 3 4 0 14 7,
      R1 2 0 1 2 3 4 0 12, R2 2 0 1 2 3 4 15 7,
      R1 2 4 0 1 2 3 9 15, R2 2 4 0 1 2 3 8 12,
      R1 2 3 4 0 1 2 5 9, R2 2 3 4 0 1 2 12 7,
      R1 2 2 3 4 0 1 2 11, R2 2 2 3 4 0 1 4 6,
      R1 2 1 2 3 4 0 14 7, R2 2 1 2 3 4 0 9 15,
      R1 2 0 1 2 3 4 11 13, R2 2 0 1 2 3 4 1 13,
      R1 2 4 0 1 2 3 8 12, R2 2 4 0 1 2 3 2 11,
      R1 3 3 4 0 1 2 3 11, R2 3 3 4 0 1 2 15 9,
      R1 3 2 3 4 0 1 10 13, R2 3 2 3 4 0 1 5 7,
      R1 3 1 2 3 4 0 14 6, R2 3 1 2 3 4 0 1 15,
      R1 3 0 1 2 3 4 4 7, R2 3 0 1 2 3 4 3 11,
      R1 3 4 0 1 2 3 9 14, R2 3 4 0 1 2 3 7 8,
      R1 3 3 4 0 1 2 15 9, R2 3 3 4 0 1 2 14 6,
      R1 3 2 3 4 0 1 8 13, R2 3 2 3 4 0 1 6 6,
      R1 3 1 2 3 4 0 1 15, R2 3 1 2 3 4 0 9 14,
      R1 3 0 1 2 3 4 2 14, R2 3 0 1 2 3 4 11 12,
      R1 3 4 0 1 2 3 7 8, R2 3 4 0 1 2 3 8 13,
      R1 3 3 4 0 1 2 0 13, R2 3 3 4 0 1 2 12 5,
      R1 3 2 3 4 0 1 6 6, R2 3 2 3 4 0 1 2 14,
      R1 3 1 2 3 4 0 13 5, R2 3 1 2 3 4 0 10 13,
      R1 3 0 1 2 3 4 11 12, R2 3 0 1 2 3 4 0 13,
      R1 3 4 0 1 2 3 5 7, R2 3 4 0 1 2 3 4 7,
      R1 3 3 4 0 1 2 12 5, R2 3 3 4 0 1 2 13 5,
      R1 4 2 3 4 0 1 1 11, R2 4 2 3 4 0 1 8 15,
      R1 4 1 2 3 4 0 9 12, R2 4 1 2 3 4 0 6 5,
      R1 4 0 1 2 3 4 11 14, R2 4 0 1 2 3 4 4 8,
      R1 4 4 0 1 2 3 10 15, R2 4 4 0 1 2 3 1 11,
      R1 4 3 4 0 1 2 0 14, R2 4 3 4 0 1 2 3 14,
      R1 4 2 3 4 0 1 8 15, R2 4 2 3 4 0 1 11 14,
      R1 4 1 2 3 4 0 12 9, R2 4 1 2 3 4 0 15 6,
      R1 4 0 1 2 3 4 4 8, R2 4 0 1 2 3 4 0 14,
      R1 4 4 0 1 2 3 13 9, R2 4 4 0 1 2 3 5 6,
      R1 4 3 4 0 1 2 3 14, R2 4 3 4 0 1 2 12 9,
      R1 4 2 3 4 0 1 7 5, R2 4 2 3 4 0 1 2 12,
      R1 4 1 2 3 4 0 15 6, R2 4 1 2 3 4 0 13 9,
      R1 4 0 1 2 3 4 14 8, R2 4 0 1 2 3 4 9 12,
      R1 4 4 0 1 2 3 5 6, R2 4 4 0 1 2 3 7 5,
      R1 4 3 4 0 1 2 6 5, R2 4 3 4 0 1 2 10 15,
      R1 4 2 3 4 0 1 2 12, R2 4 2 3 4 0 1 14 8,
      R1 5 1 2 3 4 0 4 9, R2 5 1 2 3 4 0 12 8,
      R1 5 0 1 2 3 4 0 15, R2 5 0 1 2 3 4 15 5,
      R1 5 4 0 1 2 3 5 5, R2 5 4 0 1 2 3 10 12,
      R1 5 3 4 0 1 2 9 11, R2 5 3 4 0 1 2 4 9,
      R1 5 2 3 4 0 1 7 6, R2 5 2 3 4 0 1 1 12,
      R1 5 1 2 3 4 0 12 8, R2 5 1 2 3 4 0 5 5,
      R1 5 0 1 2 3 4 2 13, R2 5 0 1 2 3 4 8 14,
      R1 5 4 0 1 2 3 10 12, R2 5 4 0 1 2 3 7 6,
      R1 5 3 4 0 1 2 14 5, R2 5 3 4 0 1 2 6 8,
      R1 5 2 3 4 0 1 1 12, R2 5 2 3 4 0 1 2 13,
      R1 5 1 2 3 4 0 3 13, R2 5 1 2 3 4 0 13 6,
      R1 5 0 1 2 3 4 8 14, R2 5 0 1 2 3 4 14 5,
      R1 5 4 0 1 2 3 11 11, R2 5 4 0 1 2 3 0 15,
      R1 5 3 4 0 1 2 6 8, R2 5 3 4 0 1 2 3 13,
      R1 5 2 3 4 0 1 15 5, R2 5 2 3 4 0 1 9 11,
      R1 5 1 2 3 4 0 13 6, R2 5 1 2 3 4 0 11 11]"

definition rmd_Initialize :: "u32 list" where
  "rmd_Initialize = [0x67452301, 0xEFCDAB89, 0x98BADCFE, 0x10325476, 0xC3D2E1F0]"

definition rmd_words :: "bytes \<Rightarrow> u32 list" where
  "rmd_words chunk = map (\<lambda>off. ReadLE32 (drop off chunk)) [0, 4, 8, 12, 16, 20, 24, 28, 32, 36, 40, 44, 48, 52, 56, 60]"

definition rmd_Transform :: "u32 list \<Rightarrow> bytes \<Rightarrow> u32 list" where
  "rmd_Transform s chunk =
     (case fold (do_rcall (rmd_words chunk)) rmd_rounds (s, s) of (s1, s2) \<Rightarrow>
        [s ! 1 + s1 ! 2 + s2 ! 3, s ! 2 + s1 ! 3 + s2 ! 4, s ! 3 + s1 ! 4 + s2 ! 0,
         s ! 4 + s1 ! 0 + s2 ! 1, s ! 0 + s1 ! 1 + s2 ! 2])"

definition CRIPEMD160 :: "u32 list hasher" where
  "CRIPEMD160 = \<lparr>hs = rmd_Initialize, hbuf = replicate 64 0, hbytes = 0\<rparr>"

definition CRIPEMD160_Write :: "bytes \<Rightarrow> u32 list hasher \<Rightarrow> u32 list hasher" where
  "CRIPEMD160_Write data st = hash_Write 64 rmd_Transform data st"

definition CRIPEMD160_Finalize :: "u32 list hasher \<Rightarrow> bytes \<times> u32 list hasher" where
  "CRIPEMD160_Finalize st =
     (let st1 = hash_Finalize 64 119 rmd_Transform WriteLE64 st
      in (concat (map WriteLE32 (hs st1)), st1))"

definition CRIPEMD160_Reset :: "u32 list hasher \<Rightarrow> u32 list hasher" where
  "CRIPEMD160_Reset st = st\<lparr>hbytes := 0, hs := rmd_Initialize\<rparr>"

section \<open>The definition of RIPEMD-160\<close>

text \<open>The permutations \<open>\<rho>\<close> and \<open>\<pi>\<close> that order the message words, the table of shifts by round and
  word, and the functions and constants of the eighty steps.\<close>

definition rmd_rho :: "nat \<Rightarrow> nat" where
  "rmd_rho i = [7, 4, 13, 1, 10, 6, 15, 3, 12, 0, 9, 5, 2, 14, 11, 8] ! i"

definition rmd_pi :: "nat \<Rightarrow> nat" where
  "rmd_pi i = (9 * i + 5) mod 16"

definition word_left :: "nat \<Rightarrow> nat" where
  "word_left t = (rmd_rho ^^ (t div 16)) (t mod 16)"

definition word_right :: "nat \<Rightarrow> nat" where
  "word_right t = (rmd_rho ^^ (t div 16)) (rmd_pi (t mod 16))"

definition rmd_shift :: "nat \<Rightarrow> nat \<Rightarrow> nat" where
  "rmd_shift t word =
     [[11, 14, 15, 12, 5, 8, 7, 9, 11, 13, 14, 15, 6, 7, 9, 8],
      [12, 13, 11, 15, 6, 9, 9, 7, 12, 15, 11, 13, 7, 8, 7, 7],
      [13, 15, 14, 11, 7, 7, 6, 8, 13, 14, 13, 12, 5, 5, 6, 9],
      [14, 11, 12, 14, 8, 6, 5, 5, 15, 12, 15, 14, 9, 9, 8, 6],
      [15, 12, 13, 13, 9, 5, 8, 6, 14, 11, 12, 11, 8, 6, 5, 5]] ! (t div 16) ! word"

definition rmd_f :: "nat \<Rightarrow> u32 \<Rightarrow> u32 \<Rightarrow> u32 \<Rightarrow> u32" where
  "rmd_f t x y z =
     (if t < 16 then x XOR y XOR z
      else if t < 32 then (x AND y) OR (NOT x AND z)
      else if t < 48 then (x OR NOT y) XOR z
      else if t < 64 then (x AND z) OR (y AND NOT z)
      else x XOR (y OR NOT z))"

definition const_left :: "nat \<Rightarrow> u32" where
  "const_left t = [0, 0x5a827999, 0x6ed9eba1, 0x8f1bbcdc, 0xa953fd4e] ! (t div 16)"

definition const_right :: "nat \<Rightarrow> u32" where
  "const_right t = [0x50a28be6, 0x5c4dd124, 0x6d703ef3, 0x7a6d76e9, 0] ! (t div 16)"

definition rmd_step :: "(u32 \<Rightarrow> u32 \<Rightarrow> u32 \<Rightarrow> u32) \<Rightarrow> u32 \<Rightarrow> u32 \<Rightarrow> nat \<Rightarrow> u32 list \<Rightarrow> u32 list" where
  "rmd_step f k x r v =
     [v ! 4, word_rotl r (v ! 0 + f (v ! 1) (v ! 2) (v ! 3) + x + k) + v ! 4, v ! 1, word_rotl 10 (v ! 2), v ! 3]"

definition step_left :: "bytes \<Rightarrow> nat \<Rightarrow> u32 list \<Rightarrow> u32 list" where
  "step_left chunk t =
     rmd_step (rmd_f t) (const_left t) (of_nat (le_value (take 4 (drop (4 * word_left t) chunk)))) (rmd_shift t (word_left t))"

definition step_right :: "bytes \<Rightarrow> nat \<Rightarrow> u32 list \<Rightarrow> u32 list" where
  "step_right chunk t =
     rmd_step (rmd_f (79 - t)) (const_right t) (of_nat (le_value (take 4 (drop (4 * word_right t) chunk)))) (rmd_shift t (word_right t))"

definition rmd_compress :: "u32 list \<Rightarrow> bytes \<Rightarrow> u32 list" where
  "rmd_compress h chunk =
     (let l = fold (step_left chunk) [0..<80] h; r = fold (step_right chunk) [0..<80] h
      in [h ! 1 + l ! 2 + r ! 3, h ! 2 + l ! 3 + r ! 4, h ! 3 + l ! 4 + r ! 0,
          h ! 4 + l ! 0 + r ! 1, h ! 0 + l ! 1 + r ! 2])"

definition ripemd160 :: "bytes \<Rightarrow> bytes" where
  "ripemd160 m =
     concat (map (\<lambda>w. le_bytes 4 (unat w))
       (fold (\<lambda>b s. rmd_compress s b) (blocks 64 (md_pad 64 (le_bytes 8 (8 * length m)) m))
         [0x67452301, 0xefcdab89, 0x98badcfe, 0x10325476, 0xc3d2e1f0]))"

section \<open>The unrolled rounds are the two loops\<close>

definition std_call :: "(nat \<Rightarrow> nat \<Rightarrow> nat \<Rightarrow> nat \<Rightarrow> nat \<Rightarrow> nat \<Rightarrow> nat \<Rightarrow> nat \<Rightarrow> rcall) \<Rightarrow> (nat \<Rightarrow> nat) \<Rightarrow> nat \<Rightarrow> rcall" where
  "std_call R word t =
     (let r = 5 - t mod 5
      in R (t div 16 + 1) (r mod 5) ((r + 1) mod 5) ((r + 2) mod 5) ((r + 3) mod 5) ((r + 4) mod 5)
           (word t) (rmd_shift t (word t)))"

lemma rmd_rounds_regular:
  "rmd_rounds = concat (map (\<lambda>t. [std_call R1 word_left t, std_call R2 word_right t]) [0..<80])"
  by code_simp

lemmas rmd_f_defs = rmd_f_def rmd_f1_def rmd_f2_def rmd_f3_def rmd_f4_def rmd_f5_def

lemma rmd_round_cases:
  assumes "(t :: nat) < 80"
  shows "t < 16 \<and> t div 16 = 0 \<or> 16 \<le> t \<and> t < 32 \<and> t div 16 = 1 \<or> 32 \<le> t \<and> t < 48 \<and> t div 16 = 2 \<or>
    48 \<le> t \<and> t < 64 \<and> t div 16 = 3 \<or> 64 \<le> t \<and> t < 80 \<and> t div 16 = 4"
  using assms by linarith

lemma rmd_line1_std: "t < 80 \<Longrightarrow> rmd_line1 (t div 16 + 1) = (rmd_f t, const_left t)"
  using rmd_round_cases [of t] by (auto simp: rmd_line1_def const_left_def rmd_f_defs fun_eq_iff)

lemma rmd_line2_std: "t < 80 \<Longrightarrow> rmd_line2 (t div 16 + 1) = (rmd_f (79 - t), const_right t)"
  using rmd_round_cases [of t] by (auto simp: rmd_line2_def const_right_def rmd_f_defs fun_eq_iff)

definition rmd_view :: "nat \<Rightarrow> u32 list \<Rightarrow> u32 list" where
  "rmd_view t s = map (\<lambda>j. s ! ((5 - t mod 5 + j) mod 5)) [0, 1, 2, 3, 4]"

lemma rmd_length_5E: "length s = 5 \<Longrightarrow> \<exists>a b c d e. s = [a, b, c, d, e]"
  by (auto simp: length_Suc_conv eval_nat_numeral)

lemma rol_word: "0 < n \<Longrightarrow> n < 32 \<Longrightarrow> rol x n = word_rotl n x"
  using rotl_word [of n x] by (simp add: rol_def)

lemma rmd_Round_step:
  assumes "length s = 5" and "s' = rmd_Round s (r mod 5) ((r + 1) mod 5) ((r + 2) mod 5) ((r + 3) mod 5) ((r + 4) mod 5)
      (f (s ! ((r + 1) mod 5)) (s ! ((r + 2) mod 5)) (s ! ((r + 3) mod 5))) x k n" and "r = 5 - t mod 5" "0 < n" "n < 32"
  shows "rmd_view (Suc t) s' = rmd_step f k x n (rmd_view t s) \<and> length s' = 5"
proof -
  obtain a b c d e where s: "s = [a, b, c, d, e]" using rmd_length_5E [OF assms(1)] by blast
  have m: "Suc t mod 5 = (if t mod 5 = 4 then 0 else Suc (t mod 5))" by (simp add: mod_Suc)
  have "t mod 5 < 5" by simp
  then consider "t mod 5 = 0" | "t mod 5 = 1" | "t mod 5 = 2" | "t mod 5 = 3" | "t mod 5 = 4" by linarith
  then show ?thesis
    unfolding assms(2,3) by cases (simp_all add: s rmd_view_def m rmd_Round_def rmd_step_def Let_def rol_word assms(4,5))
qed

lemma rmd_word: "i < 16 \<Longrightarrow> rmd_words chunk ! i = ReadLE32 (drop (4 * i) chunk)"
proof -
  have "map ((*) 4) [0..<16] = [0, 4, 8, 12, 16, 20, 24, 28, 32, 36, 40, 44, 48, 52, 56, 60 :: nat]"
    by (simp add: upt_rec)
  then have "rmd_words chunk = map (\<lambda>off. ReadLE32 (drop off chunk)) (map ((*) 4) [0..<16])"
    by (simp only: rmd_words_def)
  then show "i < 16 \<Longrightarrow> rmd_words chunk ! i = ReadLE32 (drop (4 * i) chunk)" by simp
qed

lemma word_bounds: "t < 80 \<Longrightarrow> word_left t < 16 \<and> word_right t < 16"
proof -
  have "list_all (\<lambda>t. word_left t < 16 \<and> word_right t < 16) [0..<80]" by code_simp
  then show "t < 80 \<Longrightarrow> word_left t < 16 \<and> word_right t < 16" by (simp add: list_all_iff del: upt_Suc)
qed

lemma shift_bounds: "t < 80 \<Longrightarrow> (0 < rmd_shift t (word_left t) \<and> rmd_shift t (word_left t) < 32) \<and>
    0 < rmd_shift t (word_right t) \<and> rmd_shift t (word_right t) < 32"
proof -
  have "list_all (\<lambda>t. (0 < rmd_shift t (word_left t) \<and> rmd_shift t (word_left t) < 32) \<and>
    0 < rmd_shift t (word_right t) \<and> rmd_shift t (word_right t) < 32) [0..<80]" by code_simp
  then show "t < 80 \<Longrightarrow> (0 < rmd_shift t (word_left t) \<and> rmd_shift t (word_left t) < 32) \<and>
    0 < rmd_shift t (word_right t) \<and> rmd_shift t (word_right t) < 32" by (simp add: list_all_iff del: upt_Suc)
qed

lemma do_rcall_step:
  assumes "length s1 = 5" "length s2 = 5" "t < 80"
    and "do_rcall (rmd_words chunk) (std_call R2 word_right t)
      (do_rcall (rmd_words chunk) (std_call R1 word_left t) (s1, s2)) = (s1', s2')"
  shows "rmd_view (Suc t) s1' = step_left chunk t (rmd_view t s1) \<and> length s1' = 5 \<and>
    rmd_view (Suc t) s2' = step_right chunk t (rmd_view t s2) \<and> length s2' = 5"
proof -
  have w: "rmd_words chunk ! word_left t = ReadLE32 (drop (4 * word_left t) chunk)"
    "rmd_words chunk ! word_right t = ReadLE32 (drop (4 * word_right t) chunk)"
    using word_bounds [OF assms(3)] by (simp_all add: rmd_word)
  note step = assms(4) [unfolded std_call_def Let_def do_rcall.simps rmd_line1_std [OF assms(3)]
      rmd_line2_std [OF assms(3)] prod.case w prod.inject]
  show ?thesis
    using rmd_Round_step [where f = "rmd_f t", OF assms(1) conjunct1 [OF step, symmetric] refl]
      rmd_Round_step [where f = "rmd_f (79 - t)", OF assms(2) conjunct2 [OF step, symmetric] refl] shift_bounds [OF assms(3)]
    by (simp only: step_left_def step_right_def ReadLE32_def simp_thms)
qed

lemma rmd_prefix:
  assumes "length s = 5" and "t \<le> 80"
  shows "\<exists>s1 s2. fold (do_rcall (rmd_words chunk))
      (concat (map (\<lambda>t. [std_call R1 word_left t, std_call R2 word_right t]) [0..<t])) (s, s) = (s1, s2) \<and>
    length s1 = 5 \<and> length s2 = 5 \<and>
    rmd_view t s1 = fold (step_left chunk) [0..<t] s \<and> rmd_view t s2 = fold (step_right chunk) [0..<t] s"
  using assms(2)
proof (induction t)
  case 0
  obtain a b c d e where "s = [a, b, c, d, e]" using rmd_length_5E [OF assms(1)] by blast
  then show ?case by (simp add: rmd_view_def)
next
  case (Suc t)
  then obtain s1 s2 where IH: "fold (do_rcall (rmd_words chunk))
      (concat (map (\<lambda>t. [std_call R1 word_left t, std_call R2 word_right t]) [0..<t])) (s, s) = (s1, s2)"
    "length s1 = 5" "length s2 = 5"
    "rmd_view t s1 = fold (step_left chunk) [0..<t] s" "rmd_view t s2 = fold (step_right chunk) [0..<t] s"
    by auto
  obtain s1' s2' where step: "do_rcall (rmd_words chunk) (std_call R2 word_right t)
      (do_rcall (rmd_words chunk) (std_call R1 word_left t) (s1, s2)) = (s1', s2')" by force
  show ?case using IH step do_rcall_step [OF IH(2,3) _ step] Suc.prems by simp
qed

lemma rmd_Transform_eq:
  assumes "length s = 5"
  shows "rmd_Transform s chunk = rmd_compress s chunk"
proof -
  obtain s1 s2 where run: "fold (do_rcall (rmd_words chunk))
      (concat (map (\<lambda>t. [std_call R1 word_left t, std_call R2 word_right t]) [0..<80])) (s, s) = (s1, s2)"
    "length s1 = 5" "length s2 = 5"
    "rmd_view 80 s1 = fold (step_left chunk) [0..<80] s" "rmd_view 80 s2 = fold (step_right chunk) [0..<80] s"
    using rmd_prefix [OF assms order_refl] by blast
  obtain a b c d e where s1: "s1 = [a, b, c, d, e]" using rmd_length_5E [OF run(2)] by blast
  obtain a' b' c' d' e' where s2: "s2 = [a', b', c', d', e']" using rmd_length_5E [OF run(3)] by blast
  have "rmd_view 80 s1 = s1" "rmd_view 80 s2 = s2" by (simp_all add: rmd_view_def s1 s2)
  then have "fold (step_left chunk) [0..<80] s = s1" "fold (step_right chunk) [0..<80] s = s2"
    using run(4,5) by simp_all
  then show ?thesis unfolding rmd_Transform_def rmd_compress_def rmd_rounds_regular Let_def run(1) by simp
qed

lemma rmd_blocks:
  "length s = 5 \<Longrightarrow> fold (\<lambda>b s. rmd_Transform s b) bs s = fold (\<lambda>b s. rmd_compress s b) bs s"
proof (induction bs arbitrary: s)
  case (Cons b bs)
  have "length (rmd_compress s b) = 5" by (simp add: rmd_compress_def Let_def)
  from Cons.IH [OF this] show ?case using rmd_Transform_eq [OF Cons.prems, of b] by simp
qed simp

interpretation ripemd160_stream: block_hash "64" "119" "8" rmd_Transform rmd_Initialize WriteLE64
  by unfold_locales (simp_all add: WriteLE64_def)

lemma WriteLE64_bits: "WriteLE64 (8 * of_nat n) = le_bytes 8 (8 * n)"
  using WriteBE64_bits [of n] by (simp add: WriteBE64_def WriteLE64_def)

interpretation ripemd160_class: stream_hash CRIPEMD160 CRIPEMD160_Write CRIPEMD160_Finalize CRIPEMD160_Reset ripemd160_stream.holds "\<lambda>_. True" ripemd160
proof
  show "ripemd160_stream.holds [] CRIPEMD160"
    by (simp add: CRIPEMD160_def ripemd160_stream.initial)
  show "ripemd160_stream.holds (m @ d) (CRIPEMD160_Write d st)" if "ripemd160_stream.holds m st" for m d st
    using ripemd160_stream.write_data [OF that] by (simp add: CRIPEMD160_Write_def)
  show "fst (CRIPEMD160_Finalize st) = ripemd160 m" if "ripemd160_stream.holds m st" for m st
    using ripemd160_stream.final_digest [OF that(1)]
    by (simp add: CRIPEMD160_Finalize_def Let_def ripemd160_def rmd_blocks WriteLE64_bits rmd_Initialize_def WriteLE32_def [abs_def])
  show "ripemd160_stream.holds [] (CRIPEMD160_Reset (snd (CRIPEMD160_Finalize st)))" if "ripemd160_stream.holds m st" for m st
    using ripemd160_stream.restart [OF that] by (simp add: CRIPEMD160_Reset_def CRIPEMD160_Finalize_def Let_def)
qed

end
