(* ===== verification/Hash.thy ===== *)
theory Hash
  imports Sha1 Sha2 Ripemd160
begin

text \<open>
  The hashes that the node builds from the classes of \<^verbatim>\<open>src/src/crypto\<close>: double SHA-256 and the
  public-key hash (\<^verbatim>\<open>src/src/hash.h\<close>), keyed hashing (\<^verbatim>\<open>hmac_sha256.cpp\<close>, \<^verbatim>\<open>hmac_sha512.cpp\<close>),
  the deterministic generator of RFC 6979 (\<^verbatim>\<open>rfc6979_hmac_sha256.cpp\<close>), and the functions of
  \<^verbatim>\<open>src/src/hash.cpp\<close>.  Everything that uses a hash class is proved once, over the interface
  \<open>stream_hash\<close>.
\<close>

section \<open>Double hashing\<close>

type_synonym CHash256 = "u32 list hasher"

definition CHash256_Write :: "bytes \<Rightarrow> CHash256 \<Rightarrow> CHash256" where
  "CHash256_Write data sha = CSHA256_Write data sha"

definition CHash256_Finalize :: "CHash256 \<Rightarrow> bytes \<times> CHash256" where
  "CHash256_Finalize sha =
     (let (buf, sha1) = CSHA256_Finalize sha
      in CSHA256_Finalize (CSHA256_Write buf (CSHA256_Reset sha1)))"

definition CHash256_Reset :: "CHash256 \<Rightarrow> CHash256" where
  "CHash256_Reset sha = CSHA256_Reset sha"

definition CHash160_Finalize :: "CHash256 \<Rightarrow> bytes \<times> CHash256" where
  "CHash160_Finalize sha =
     (let (buf, sha1) = CSHA256_Finalize sha
      in (fst (CRIPEMD160_Finalize (CRIPEMD160_Write buf CRIPEMD160)), sha1))"

text \<open>\<open>Hash\<close> of one to six ranges of bytes, and \<open>Hash160\<close>.\<close>

definition Hash_ranges :: "bytes list \<Rightarrow> bytes" where
  "Hash_ranges ranges = fst (CHash256_Finalize (fold CHash256_Write ranges CSHA256))"

definition Hash160 :: "bytes \<Rightarrow> bytes" where
  "Hash160 vch = fst (CHash160_Finalize (CHash256_Write vch CSHA256))"

text \<open>\<open>CHashWriter\<close>: the serialized pieces go into a \<open>CHash256\<close>; \<open>SerializeHash\<close> of an object is the hash of
  the pieces its serialization writes.\<close>

definition CHashWriter_write :: "bytes \<Rightarrow> CHash256 \<Rightarrow> CHash256" where
  "CHashWriter_write pch ctx = CHash256_Write pch ctx"

definition CHashWriter_GetHash :: "CHash256 \<Rightarrow> bytes" where
  "CHashWriter_GetHash ctx = fst (CHash256_Finalize ctx)"

definition SerializeHash :: "('a \<Rightarrow> bytes) \<Rightarrow> 'a \<Rightarrow> bytes" where
  "SerializeHash ser obj = CHashWriter_GetHash (CHashWriter_write (ser obj) CSHA256)"

section \<open>Keyed hashing\<close>

record 's hmac =
  outer :: "'s hasher"
  inner :: "'s hasher"

definition hmac_new ::
    "nat \<Rightarrow> nat \<Rightarrow> 's hasher \<Rightarrow> (bytes \<Rightarrow> 's hasher \<Rightarrow> 's hasher) \<Rightarrow> ('s hasher \<Rightarrow> bytes \<times> 's hasher) \<Rightarrow> bytes \<Rightarrow> 's hmac" where
  "hmac_new B outlen new feed finish key =
     (let rkey = (if length key \<le> B then key @ replicate (B - length key) 0
                  else fst (finish (feed key new)) @ replicate (B - outlen) 0);
          rkey1 = map (\<lambda>b. b XOR 0x5c) rkey;
          rkey2 = map (\<lambda>b. b XOR (0x5c XOR 0x36)) rkey1
      in \<lparr>outer = feed rkey1 new, inner = feed rkey2 new\<rparr>)"

definition hmac_Write :: "(bytes \<Rightarrow> 's hasher \<Rightarrow> 's hasher) \<Rightarrow> bytes \<Rightarrow> 's hmac \<Rightarrow> 's hmac" where
  "hmac_Write feed data st = st\<lparr>inner := feed data (inner st)\<rparr>"

definition hmac_Finalize ::
    "(bytes \<Rightarrow> 's hasher \<Rightarrow> 's hasher) \<Rightarrow> ('s hasher \<Rightarrow> bytes \<times> 's hasher) \<Rightarrow> 's hmac \<Rightarrow> bytes" where
  "hmac_Finalize feed finish st =
     (let temp = fst (finish (inner st)) in fst (finish (feed temp (outer st))))"

definition CHMAC_SHA256 :: "bytes \<Rightarrow> u32 list hmac" where
  "CHMAC_SHA256 key = hmac_new 64 32 CSHA256 CSHA256_Write CSHA256_Finalize key"

definition CHMAC_SHA256_Write :: "bytes \<Rightarrow> u32 list hmac \<Rightarrow> u32 list hmac" where
  "CHMAC_SHA256_Write data st = hmac_Write CSHA256_Write data st"

definition CHMAC_SHA256_Finalize :: "u32 list hmac \<Rightarrow> bytes" where
  "CHMAC_SHA256_Finalize st = hmac_Finalize CSHA256_Write CSHA256_Finalize st"

definition CHMAC_SHA512 :: "bytes \<Rightarrow> u64 list hmac" where
  "CHMAC_SHA512 key = hmac_new 128 64 CSHA512 CSHA512_Write CSHA512_Finalize key"

definition CHMAC_SHA512_Write :: "bytes \<Rightarrow> u64 list hmac \<Rightarrow> u64 list hmac" where
  "CHMAC_SHA512_Write data st = hmac_Write CSHA512_Write data st"

definition CHMAC_SHA512_Finalize :: "u64 list hmac \<Rightarrow> bytes" where
  "CHMAC_SHA512_Finalize st = hmac_Finalize CSHA512_Write CSHA512_Finalize st"

definition BIP32Hash :: "bytes \<Rightarrow> u32 \<Rightarrow> byte \<Rightarrow> bytes \<Rightarrow> bytes" where
  "BIP32Hash chainCode nChild header data =
     (let num = [ucast (drop_bit 24 nChild AND 0xFF), ucast (drop_bit 16 nChild AND 0xFF),
                 ucast (drop_bit 8 nChild AND 0xFF), ucast (drop_bit 0 nChild AND 0xFF)]
      in CHMAC_SHA512_Finalize (CHMAC_SHA512_Write num (CHMAC_SHA512_Write data
           (CHMAC_SHA512_Write [header] (CHMAC_SHA512 chainCode)))))"

section \<open>The generator of RFC 6979\<close>

record rfc6979 =
  rfc_V :: bytes
  rfc_K :: bytes
  rfc_retry :: bool

definition hmac256 :: "bytes \<Rightarrow> bytes list \<Rightarrow> bytes" where
  "hmac256 K ds = CHMAC_SHA256_Finalize (fold CHMAC_SHA256_Write ds (CHMAC_SHA256 K))"

definition RFC6979_HMAC_SHA256 :: "bytes \<Rightarrow> bytes \<Rightarrow> rfc6979" where
  "RFC6979_HMAC_SHA256 key msg =
     (let V = replicate 32 0x01; K = replicate 32 0x00;
          K = hmac256 K [V, [0x00], key, msg];
          V = hmac256 K [V];
          K = hmac256 K [V, [0x01], key, msg];
          V = hmac256 K [V]
      in \<lparr>rfc_V = V, rfc_K = K, rfc_retry = False\<rparr>)"

function Generate_loop :: "bytes \<Rightarrow> bytes \<Rightarrow> nat \<Rightarrow> bytes \<times> bytes" where
  "Generate_loop K V outputlen =
     (if 0 < outputlen then
        let V = hmac256 K [V];
            len = min outputlen 32;
            (output, V') = Generate_loop K V (outputlen - len)
        in (take len V @ output, V')
      else ([], V))"
  by pat_completeness auto
termination
  by (relation "measure (\<lambda>(K, V, outputlen). outputlen)") auto

declare Generate_loop.simps [simp del]

definition Generate :: "nat \<Rightarrow> rfc6979 \<Rightarrow> bytes \<times> rfc6979" where
  "Generate outputlen st =
     (let K = (if rfc_retry st then hmac256 (rfc_K st) [rfc_V st, [0x00]] else rfc_K st);
          V = (if rfc_retry st then hmac256 K [rfc_V st] else rfc_V st);
          (output, V') = Generate_loop K V outputlen
      in (output, \<lparr>rfc_V = V', rfc_K = K, rfc_retry = True\<rparr>))"

section \<open>MurmurHash3\<close>

definition ROTL32 :: "u32 \<Rightarrow> nat \<Rightarrow> u32" where
  "ROTL32 x r = push_bit r x OR drop_bit (32 - r) x"

definition murmur_mix :: "u32 \<Rightarrow> u32" where
  "murmur_mix k1 = ROTL32 (k1 * 0xcc9e2d51) 15 * 0x1b873593"

definition murmur_body :: "bytes \<Rightarrow> u32 \<Rightarrow> u32" where
  "murmur_body block h1 = ROTL32 (h1 XOR murmur_mix (ReadLE32 block)) 13 * 5 + 0xe6546b64"

definition murmur_tail :: "bytes \<Rightarrow> u32 \<Rightarrow> u32" where
  "murmur_tail rest h1 =
     (case rest of
        [a, b, c] \<Rightarrow> h1 XOR murmur_mix (push_bit 16 (ucast c) XOR push_bit 8 (ucast b) XOR ucast a)
      | [a, b] \<Rightarrow> h1 XOR murmur_mix (push_bit 8 (ucast b) XOR ucast a)
      | [a] \<Rightarrow> h1 XOR murmur_mix (ucast a)
      | _ \<Rightarrow> h1)"

definition MurmurHash3 :: "u32 \<Rightarrow> bytes \<Rightarrow> u32" where
  "MurmurHash3 nHashSeed vDataToHash =
     (let nblocks = length vDataToHash div 4;
          h1 = (if length vDataToHash > 0
                then murmur_tail (drop (nblocks * 4) vDataToHash)
                       (fold (\<lambda>i. murmur_body (drop (i * 4) vDataToHash)) [0..<nblocks] nHashSeed)
                else nHashSeed);
          h1 = h1 XOR of_nat (length vDataToHash);
          h1 = (h1 XOR drop_bit 16 h1) * 0x85ebca6b;
          h1 = (h1 XOR drop_bit 13 h1) * 0xc2b2ae35
      in h1 XOR drop_bit 16 h1)"

section \<open>What keyed hashing and double hashing compute\<close>

text \<open>The keyed hash of RFC 2104.\<close>

definition rfc2104 :: "nat \<Rightarrow> (bytes \<Rightarrow> bytes) \<Rightarrow> bytes \<Rightarrow> bytes \<Rightarrow> bytes" where
  "rfc2104 B H key m =
     (let k = (if length key \<le> B then key else H key);
          k = k @ replicate (B - length k) 0
      in H (map (\<lambda>b. b XOR 0x5c) k @ H (map (\<lambda>b. b XOR 0x36) k @ m)))"

lemma xor_pads: "(b XOR 0x5c) XOR (0x5c XOR 0x36) = b XOR (0x36 :: byte)"
proof -
  have "(b XOR 0x5c) XOR (0x5c XOR 0x36) = b XOR ((0x5c XOR 0x5c) XOR (0x36 :: byte))" by (simp only: ac_simps)
  then show ?thesis by simp
qed

lemmas xor_pads_value = xor_pads [simplified]

locale keyed_hash = stream_hash +
  fixes B outlen :: nat
  assumes H_length: "length (H m) = outlen" and outlen_le: "outlen \<le> B"
    and fit_short: "length m \<le> 2 * B \<Longrightarrow> fit m"
    and fit_length: "length m = length m' \<Longrightarrow> fit m \<Longrightarrow> fit m'"
begin

lemma fold_hmac_Write: "fold (hmac_Write feed) ds st = st\<lparr>inner := fold feed ds (inner st)\<rparr>"
  by (induction ds arbitrary: st) (simp_all add: hmac_Write_def)

lemma hmac_correct:
  assumes "fit key" and "fit (replicate B 0 @ concat ds)"
  shows "hmac_Finalize feed finish (fold (hmac_Write feed) ds (hmac_new B outlen new feed finish key)) =
    rfc2104 B H key (concat ds)"
proof -
  define k where "k = (if length key \<le> B then key else H key)"
  define rkey where "rkey = k @ replicate (B - length k) 0"
  define ipad opad where "ipad = map (\<lambda>b. b XOR 0x36) rkey" and "opad = map (\<lambda>b. b XOR 0x5c) rkey"
  have k: "length k \<le> B" using H_length outlen_le by (simp add: k_def)
  then have len: "length ipad = B" "length opad = B" by (simp_all add: ipad_def opad_def rkey_def)
  have "(if length key \<le> B then key @ replicate (B - length key) 0
      else fst (finish (feed key new)) @ replicate (B - outlen) 0) = rkey"
    using one_shot [OF assms(1)] H_length by (simp add: rkey_def k_def)
  then have new: "hmac_new B outlen new feed finish key = \<lparr>outer = feed opad new, inner = feed ipad new\<rparr>"
    by (simp add: hmac_new_def Let_def opad_def ipad_def xor_pads_value comp_def)
  have "fit (ipad @ concat ds)"
    using assms(2) fit_length [of "replicate B 0 @ concat ds" "ipad @ concat ds"] len by simp
  then have inner: "fst (finish (fold feed (ipad # ds) new)) = H (ipad @ concat ds)"
    using digest_of [of "ipad # ds"] by simp
  have "length (concat [opad, H (ipad @ concat ds)]) \<le> 2 * B" using len H_length outlen_le by simp
  from digest_of [OF fit_short [OF this]]
  have "fst (finish (feed (H (ipad @ concat ds)) (feed opad new))) = H (opad @ H (ipad @ concat ds))" by simp
  moreover have "rfc2104 B H key (concat ds) = H (opad @ H (ipad @ concat ds))"
    by (simp only: rfc2104_def Let_def k_def [symmetric] rkey_def [symmetric] ipad_def opad_def)
  ultimately show ?thesis using inner by (simp add: new fold_hmac_Write hmac_Finalize_def)
qed

end

lemma length_fips_compress:
  assumes "length s = 8"
  shows "length (fips_compress F wsz K s b) = 8"
proof -
  have "length (fold (\<lambda>t. fips_step F (K ! t) (fips_W F wsz b t)) ts s) = 8" for ts
    using assms by (induction ts rule: rev_induct) (simp_all add: fips_step_def Let_def)
  then show ?thesis using assms by (simp add: fips_compress_def)
qed

lemma length_fold_compress:
  "length s = 8 \<Longrightarrow> length (fold (\<lambda>b s. fips_compress F wsz K s b) bs s) = 8"
  by (induction bs arbitrary: s) (simp_all add: length_fips_compress)

lemma length_words: "length (concat (map (\<lambda>w. rev (le_bytes n (unat w))) ws)) = n * length ws"
  by (induction ws) simp_all

lemma length_fips_sha256: "length (fips_sha256 m) = 32"
  by (simp add: fips_sha256_def length_words length_fold_compress fips256_H_def first_primes_def)

lemma length_fips_sha512: "length (fips_sha512 m) = 64"
  by (simp add: fips_sha512_def length_words length_fold_compress fips512_H_def first_primes_def)

interpretation hmac_sha256: keyed_hash CSHA256 CSHA256_Write CSHA256_Finalize CSHA256_Reset sha256_stream.holds
    "\<lambda>_. True" fips_sha256 "64" "32"
  by unfold_locales (simp_all add: length_fips_sha256)

interpretation hmac_sha512: keyed_hash CSHA512 CSHA512_Write CSHA512_Finalize CSHA512_Reset sha512_stream.holds
    "\<lambda>m. 8 * length m < 2 ^ 64" fips_sha512 "128" "64"
  by unfold_locales (simp_all add: length_fips_sha512)

lemma hmac256_rfc2104: "hmac256 K ds = rfc2104 64 fips_sha256 K (concat ds)"
proof -
  have "CHMAC_SHA256_Write = hmac_Write CSHA256_Write" by (simp add: CHMAC_SHA256_Write_def fun_eq_iff)
  then show ?thesis
    using hmac_sha256.hmac_correct [where key = K and ds = ds]
    by (simp add: hmac256_def CHMAC_SHA256_Finalize_def CHMAC_SHA256_def)
qed

lemma hmac512_rfc2104:
  assumes "8 * length K < 2 ^ 64" and "8 * (128 + length (concat ds)) < 2 ^ 64"
  shows "CHMAC_SHA512_Finalize (fold CHMAC_SHA512_Write ds (CHMAC_SHA512 K)) = rfc2104 128 fips_sha512 K (concat ds)"
proof -
  have "CHMAC_SHA512_Write = hmac_Write CSHA512_Write" by (simp add: CHMAC_SHA512_Write_def fun_eq_iff)
  then show ?thesis
    using hmac_sha512.hmac_correct [where key = K and ds = ds] assms
    by (simp add: CHMAC_SHA512_Finalize_def CHMAC_SHA512_def)
qed

lemma CHash256_digest_of:
  "fst (CHash256_Finalize (fold CHash256_Write ds CSHA256)) = fips_sha256 (fips_sha256 (concat ds))"
proof -
  have "CHash256_Write = CSHA256_Write" by (simp add: CHash256_Write_def fun_eq_iff)
  moreover have "sha256_stream.holds (concat ds) (fold CSHA256_Write ds CSHA256)"
    using sha256_class.fed_all [OF sha256_class.fed_new, of ds] by simp
  ultimately show ?thesis
    using sha256_class.again [of "concat ds"] sha256_class.finish_digest [of "concat ds"]
    by (simp add: CHash256_Finalize_def case_prod_beta)
qed

lemma iterates_unfold:
  "concat (map (\<lambda>i. (f ^^ Suc i) x) [0..<Suc n]) = f x @ concat (map (\<lambda>i. (f ^^ Suc i) (f x)) [0..<n])"
proof -
  have "map (\<lambda>i. (f ^^ Suc i) x) [1..<Suc n] = map (\<lambda>i. (f ^^ Suc i) (f x)) [0..<n]"
    by (simp only: One_nat_def map_Suc_upt [symmetric] map_map comp_def funpow_Suc_right)
  then show ?thesis by (simp add: upt_conv_Cons del: upt_Suc funpow.simps) simp
qed

lemma Generate_loop_stream:
  assumes "f = (\<lambda>V. hmac256 K [V])" and "\<And>V. length (f V) = 32"
  shows "fst (Generate_loop K V n) = take n (concat (map (\<lambda>i. (f ^^ Suc i) V) [0..<(n + 31) div 32]))"
proof (induction n arbitrary: V rule: less_induct)
  case (less n)
  show ?case
  proof (cases "n = 0")
    case True
    then show ?thesis by (simp add: Generate_loop.simps)
  next
    case False
    define rest where "rest = fst (Generate_loop K (f V) (n - min n 32))"
    have loop: "fst (Generate_loop K V n) = take (min n 32) (f V) @ rest"
      using False by (simp add: Generate_loop.simps [of K V n] assms(1) rest_def Let_def case_prod_beta)
    have rest: "rest = take (n - min n 32) (concat (map (\<lambda>i. (f ^^ Suc i) (f V)) [0..<(n - min n 32 + 31) div 32]))"
      unfolding rest_def using False by (intro less) simp
    have blocks: "(n + 31) div 32 = Suc ((n - 1) div 32)" using False by linarith
    show ?thesis
    proof (cases "n \<le> 32")
      case True
      then have "rest = []" "(n - 1) div 32 = 0" using rest False by simp_all
      then show ?thesis using loop True blocks assms(2) by simp
    next
      case big: False
      then have "(n - 32 + 31) div 32 = (n - 1) div 32" by simp
      then show ?thesis
        using loop rest big assms(2) [of V] by (simp only: blocks iterates_unfold) simp
    qed
  qed
qed

section \<open>Properties\<close>

text \<open>C35: the hash classes compute the standard digests.  Feeding a message in pieces of any sizes through
  \<open>Write\<close> and closing with \<open>Finalize\<close> gives the SHA-256, SHA-512 and SHA-1 of FIPS 180-4 and the RIPEMD-160
  of its definition for the whole message, although the code buffers partial blocks, unrolls the rounds
  with permuted registers, interleaves the two lines of RIPEMD-160 and keeps the message schedule in
  sixteen variables.  (SHA-512 writes a length of 64 bits only, hence the bound.)\<close>

theorem hash_class_digests:
  assumes "8 * length (concat ds) < 2 ^ 64"
  shows "fst (CSHA256_Finalize (fold CSHA256_Write ds CSHA256)) = fips_sha256 (concat ds) \<and>
    fst (CSHA512_Finalize (fold CSHA512_Write ds CSHA512)) = fips_sha512 (concat ds) \<and>
    fst (CSHA1_Finalize (fold CSHA1_Write ds CSHA1)) = fips_sha1 (concat ds) \<and>
    fst (CRIPEMD160_Finalize (fold CRIPEMD160_Write ds CRIPEMD160)) = ripemd160 (concat ds)"
  using sha256_class.digest_of [of ds] sha512_class.digest_of [OF assms] sha1_class.digest_of [of ds]
    ripemd160_class.digest_of [of ds] by simp

theorem hash_class_digests_witness:
  "fst (CSHA512_Finalize (fold CSHA512_Write [[0x61], [0x62, 0x63]] CSHA512)) = fips_sha512 [0x61, 0x62, 0x63]"
  using hash_class_digests [of "[[0x61], [0x62, 0x63]]"] by simp

text \<open>The hashes of the node are the compositions their comments name: \<open>CHash256\<close> over any number of
  ranges is SHA-256 of SHA-256 of their concatenation, also through \<open>SerializeHash\<close>, and \<open>Hash160\<close> is
  RIPEMD-160 of SHA-256.  The object that computes the second hash is the first one, reset.\<close>

theorem composed_hashes:
  "Hash_ranges ranges = fips_sha256 (fips_sha256 (concat ranges)) \<and>
   SerializeHash ser obj = fips_sha256 (fips_sha256 (ser obj)) \<and>
   Hash160 vch = ripemd160 (fips_sha256 vch)"
proof (intro conjI)
  show "Hash_ranges ranges = fips_sha256 (fips_sha256 (concat ranges))"
    by (simp add: Hash_ranges_def CHash256_digest_of)
  show "SerializeHash ser obj = fips_sha256 (fips_sha256 (ser obj))"
    using CHash256_digest_of [of "[ser obj]"]
    by (simp add: SerializeHash_def CHashWriter_GetHash_def CHashWriter_write_def)
  show "Hash160 vch = ripemd160 (fips_sha256 vch)"
    using sha256_class.one_shot [of vch] ripemd160_class.one_shot [of "fips_sha256 vch"]
    by (simp add: Hash160_def CHash160_Finalize_def CHash256_Write_def case_prod_beta)
qed

text \<open>Keyed hashing is HMAC: \<open>CHMAC_SHA256\<close> and \<open>CHMAC_SHA512\<close>, for keys of any length and messages
  written in any pieces, compute the keyed hash of RFC 2104 over SHA-256 and SHA-512; the pads come out
  right although the code turns the outer pad into the inner one in place.\<close>

theorem hmac_rfc2104:
  assumes "8 * length key < 2 ^ 64" and "8 * (128 + length (concat ds)) < 2 ^ 64"
  shows "CHMAC_SHA256_Finalize (fold CHMAC_SHA256_Write ds (CHMAC_SHA256 key)) = rfc2104 64 fips_sha256 key (concat ds) \<and>
    CHMAC_SHA512_Finalize (fold CHMAC_SHA512_Write ds (CHMAC_SHA512 key)) = rfc2104 128 fips_sha512 key (concat ds)"
  using hmac256_rfc2104 [of key ds] hmac512_rfc2104 [OF assms] by (simp add: hmac256_def)

theorem hmac_rfc2104_witness:
  "CHMAC_SHA512_Finalize (fold CHMAC_SHA512_Write [[1], [2, 3]] (CHMAC_SHA512 (replicate 200 7))) =
     rfc2104 128 fips_sha512 (replicate 200 7) [1, 2, 3]"
  using hmac_rfc2104 [of "replicate 200 7" "[[1], [2, 3]]"] by simp

text \<open>The generator of deterministic nonces follows section 3.2 of RFC 6979: its key and value after
  construction are those of steps b to g, every request returns as many bytes as asked, taken from the
  chain of keyed hashes of step h, and a further request first updates key and value as the RFC says for
  a rejected candidate.\<close>

theorem RFC6979_Generate:
  "rfc_K (RFC6979_HMAC_SHA256 key msg) =
     (let hmac = rfc2104 64 fips_sha256; K = hmac (replicate 32 0) (replicate 32 1 @ [0] @ key @ msg);
          V = hmac K (replicate 32 1) in hmac K (V @ [1] @ key @ msg)) \<and>
   length (fst (Generate n st)) = n \<and>
   fst (Generate n st) =
     (let hmac = rfc2104 64 fips_sha256;
          K = (if rfc_retry st then hmac (rfc_K st) (rfc_V st @ [0]) else rfc_K st);
          V = (if rfc_retry st then hmac K (rfc_V st) else rfc_V st)
      in take n (concat (map (\<lambda>i. (hmac K ^^ Suc i) V) [0..<(n + 31) div 32])))"
proof (intro conjI)
  let ?h = "rfc2104 64 fips_sha256"
  have len: "length (?h K V) = 32" for K V by (simp add: rfc2104_def Let_def length_fips_sha256)
  have stream: "fst (Generate_loop K V n) = take n (concat (map (\<lambda>i. (?h K ^^ Suc i) V) [0..<(n + 31) div 32]))" for K V
    by (rule Generate_loop_stream) (simp_all add: hmac256_rfc2104 len fun_eq_iff)
  show "rfc_K (RFC6979_HMAC_SHA256 key msg) =
     (let hmac = ?h; K = hmac (replicate 32 0) (replicate 32 1 @ [0] @ key @ msg);
          V = hmac K (replicate 32 1) in hmac K (V @ [1] @ key @ msg))"
    by (simp add: RFC6979_HMAC_SHA256_def Let_def hmac256_rfc2104)
  show gen: "fst (Generate n st) =
     (let hmac = ?h;
          K = (if rfc_retry st then hmac (rfc_K st) (rfc_V st @ [0]) else rfc_K st);
          V = (if rfc_retry st then hmac K (rfc_V st) else rfc_V st)
      in take n (concat (map (\<lambda>i. (hmac K ^^ Suc i) V) [0..<(n + 31) div 32])))"
    by (simp only: Generate_def Let_def case_prod_beta fst_conv stream hmac256_rfc2104) (simp add: hmac256_rfc2104)
  have "length (concat (map (\<lambda>i. (?h K ^^ Suc i) V) [0..<k])) = 32 * k" for K V k
    by (induction k) (simp_all add: len)
  then show "length (fst (Generate n st)) = n"
    unfolding gen Let_def by (simp del: funpow.simps)
qed

end
