(* ===== verification/Signature.thy ===== *)
theory Signature
  imports Script Hash
begin

text \<open>
  Encodings that the interpreter checks before it verifies a signature:
  \<^verbatim>\<open>src/src/eccryptoverify.cpp\<close> (comparison with the order of the curve), the static functions at the
  beginning of \<^verbatim>\<open>src/src/script/interpreter.cpp\<close>, and the public keys of \<^verbatim>\<open>src/src/pubkey.h\<close>.
  \<open>CPubKey::Verify\<close>, which calls the elliptic-curve library, is an argument of the definitions.
\<close>

section \<open>Errors and flags\<close>

datatype ScriptError =
    SCRIPT_ERR_OK
  | SCRIPT_ERR_UNKNOWN_ERROR
  | SCRIPT_ERR_EVAL_FALSE
  | SCRIPT_ERR_OP_RETURN
  | SCRIPT_ERR_SCRIPT_SIZE
  | SCRIPT_ERR_PUSH_SIZE
  | SCRIPT_ERR_OP_COUNT
  | SCRIPT_ERR_STACK_SIZE
  | SCRIPT_ERR_SIG_COUNT
  | SCRIPT_ERR_PUBKEY_COUNT
  | SCRIPT_ERR_VERIFY
  | SCRIPT_ERR_EQUALVERIFY
  | SCRIPT_ERR_CHECKMULTISIGVERIFY
  | SCRIPT_ERR_CHECKSIGVERIFY
  | SCRIPT_ERR_NUMEQUALVERIFY
  | SCRIPT_ERR_BAD_OPCODE
  | SCRIPT_ERR_DISABLED_OPCODE
  | SCRIPT_ERR_INVALID_STACK_OPERATION
  | SCRIPT_ERR_INVALID_ALTSTACK_OPERATION
  | SCRIPT_ERR_UNBALANCED_CONDITIONAL
  | SCRIPT_ERR_SIG_HASHTYPE
  | SCRIPT_ERR_SIG_DER
  | SCRIPT_ERR_MINIMALDATA
  | SCRIPT_ERR_SIG_PUSHONLY
  | SCRIPT_ERR_SIG_HIGH_S
  | SCRIPT_ERR_SIG_NULLDUMMY
  | SCRIPT_ERR_PUBKEYTYPE
  | SCRIPT_ERR_DISCOURAGE_UPGRADABLE_NOPS
  | SCRIPT_ERR_ERROR_COUNT

definition ScriptErrorString :: "ScriptError \<Rightarrow> string" where
  "ScriptErrorString serror =
     (case serror of
        SCRIPT_ERR_OK \<Rightarrow> ''No error''
      | SCRIPT_ERR_EVAL_FALSE \<Rightarrow> ''Script evaluated without error but finished with a false/empty top stack element''
      | SCRIPT_ERR_VERIFY \<Rightarrow> ''Script failed an OP_VERIFY operation''
      | SCRIPT_ERR_EQUALVERIFY \<Rightarrow> ''Script failed an OP_EQUALVERIFY operation''
      | SCRIPT_ERR_CHECKMULTISIGVERIFY \<Rightarrow> ''Script failed an OP_CHECKMULTISIGVERIFY operation''
      | SCRIPT_ERR_CHECKSIGVERIFY \<Rightarrow> ''Script failed an OP_CHECKSIGVERIFY operation''
      | SCRIPT_ERR_NUMEQUALVERIFY \<Rightarrow> ''Script failed an OP_NUMEQUALVERIFY operation''
      | SCRIPT_ERR_SCRIPT_SIZE \<Rightarrow> ''Script is too big''
      | SCRIPT_ERR_PUSH_SIZE \<Rightarrow> ''Push value size limit exceeded''
      | SCRIPT_ERR_OP_COUNT \<Rightarrow> ''Operation limit exceeded''
      | SCRIPT_ERR_STACK_SIZE \<Rightarrow> ''Stack size limit exceeded''
      | SCRIPT_ERR_SIG_COUNT \<Rightarrow> ''Signature count negative or greater than pubkey count''
      | SCRIPT_ERR_PUBKEY_COUNT \<Rightarrow> ''Pubkey count negative or limit exceeded''
      | SCRIPT_ERR_BAD_OPCODE \<Rightarrow> ''Opcode missing or not understood''
      | SCRIPT_ERR_DISABLED_OPCODE \<Rightarrow> ''Attempted to use a disabled opcode''
      | SCRIPT_ERR_INVALID_STACK_OPERATION \<Rightarrow> ''Operation not valid with the current stack size''
      | SCRIPT_ERR_INVALID_ALTSTACK_OPERATION \<Rightarrow> ''Operation not valid with the current altstack size''
      | SCRIPT_ERR_OP_RETURN \<Rightarrow> ''OP_RETURN was encountered''
      | SCRIPT_ERR_UNBALANCED_CONDITIONAL \<Rightarrow> ''Invalid OP_IF construction''
      | SCRIPT_ERR_SIG_HASHTYPE \<Rightarrow> ''Signature hash type missing or not understood''
      | SCRIPT_ERR_SIG_DER \<Rightarrow> ''Non-canonical DER signature''
      | SCRIPT_ERR_MINIMALDATA \<Rightarrow> ''Data push larger than necessary''
      | SCRIPT_ERR_SIG_PUSHONLY \<Rightarrow> ''Only non-push operators allowed in signatures''
      | SCRIPT_ERR_SIG_HIGH_S \<Rightarrow> ''Non-canonical signature: S value is unnecessarily high''
      | SCRIPT_ERR_SIG_NULLDUMMY \<Rightarrow> ''Dummy CHECKMULTISIG argument must be zero''
      | SCRIPT_ERR_DISCOURAGE_UPGRADABLE_NOPS \<Rightarrow> ''NOPx reserved for soft-fork upgrades''
      | SCRIPT_ERR_PUBKEYTYPE \<Rightarrow> ''Public key is neither compressed or uncompressed''
      | _ \<Rightarrow> ''unknown error'')"

type_synonym flags = u32

definition SCRIPT_VERIFY_P2SH :: flags where "SCRIPT_VERIFY_P2SH = push_bit 0 1"
definition SCRIPT_VERIFY_STRICTENC :: flags where "SCRIPT_VERIFY_STRICTENC = push_bit 1 1"
definition SCRIPT_VERIFY_DERSIG :: flags where "SCRIPT_VERIFY_DERSIG = push_bit 2 1"
definition SCRIPT_VERIFY_LOW_S :: flags where "SCRIPT_VERIFY_LOW_S = push_bit 3 1"
definition SCRIPT_VERIFY_NULLDUMMY :: flags where "SCRIPT_VERIFY_NULLDUMMY = push_bit 4 1"
definition SCRIPT_VERIFY_SIGPUSHONLY :: flags where "SCRIPT_VERIFY_SIGPUSHONLY = push_bit 5 1"
definition SCRIPT_VERIFY_MINIMALDATA :: flags where "SCRIPT_VERIFY_MINIMALDATA = push_bit 6 1"
definition SCRIPT_VERIFY_DISCOURAGE_UPGRADABLE_NOPS :: flags where
  "SCRIPT_VERIFY_DISCOURAGE_UPGRADABLE_NOPS = push_bit 7 1"

definition SIGHASH_ALL :: byte where "SIGHASH_ALL = 1"
definition SIGHASH_NONE :: byte where "SIGHASH_NONE = 2"
definition SIGHASH_SINGLE :: byte where "SIGHASH_SINGLE = 3"
definition SIGHASH_ANYONECANPAY :: byte where "SIGHASH_ANYONECANPAY = 0x80"

section \<open>Comparison with the order of the curve\<close>

text \<open>The loops that skip the bytes by which one operand is longer; \<open>None\<close> when one of them is not zero.\<close>

fun skip_zeros :: "nat \<Rightarrow> bytes \<Rightarrow> bytes option" where
  "skip_zeros 0 c = Some c"
| "skip_zeros (Suc n) [] = Some []"
| "skip_zeros (Suc n) (b # c) = (if b \<noteq> 0 then None else skip_zeros n c)"

fun compare_equal_length :: "bytes \<Rightarrow> bytes \<Rightarrow> int" where
  "compare_equal_length (b1 # c1) (b2 # c2) =
     (if b1 > b2 then 1 else if b2 > b1 then -1 else compare_equal_length c1 c2)"
| "compare_equal_length _ _ = 0"

definition CompareBigEndian :: "bytes \<Rightarrow> bytes \<Rightarrow> int" where
  "CompareBigEndian c1 c2 =
     (case skip_zeros (length c1 - length c2) c1 of
        None \<Rightarrow> 1
      | Some c1' \<Rightarrow>
          (case skip_zeros (length c2 - length c1') c2 of
             None \<Rightarrow> -1
           | Some c2' \<Rightarrow> compare_equal_length c1' c2'))"

definition vchMaxModOrder :: bytes where
  "vchMaxModOrder =
     [0xFF, 0xFF, 0xFF, 0xFF, 0xFF, 0xFF, 0xFF, 0xFF, 0xFF, 0xFF, 0xFF, 0xFF, 0xFF, 0xFF, 0xFF, 0xFE,
      0xBA, 0xAE, 0xDC, 0xE6, 0xAF, 0x48, 0xA0, 0x3B, 0xBF, 0xD2, 0x5E, 0x8C, 0xD0, 0x36, 0x41, 0x40]"

definition vchMaxModHalfOrder :: bytes where
  "vchMaxModHalfOrder =
     [0x7F, 0xFF, 0xFF, 0xFF, 0xFF, 0xFF, 0xFF, 0xFF, 0xFF, 0xFF, 0xFF, 0xFF, 0xFF, 0xFF, 0xFF, 0xFF,
      0x5D, 0x57, 0x6E, 0x73, 0x57, 0xA4, 0x50, 0x1D, 0xDF, 0xE9, 0x2F, 0x46, 0x68, 0x1B, 0x20, 0xA0]"

text \<open>A secret key is 32 bytes; the pointer is not null.\<close>

definition eccrypto_Check :: "bytes \<Rightarrow> bool" where
  "eccrypto_Check vch \<longleftrightarrow> CompareBigEndian vch [] > 0 \<and> CompareBigEndian vch vchMaxModOrder \<le> 0"

definition CheckSignatureElement :: "bytes \<Rightarrow> bool \<Rightarrow> bool" where
  "CheckSignatureElement vch half \<longleftrightarrow>
     CompareBigEndian vch [] > 0 \<and>
     CompareBigEndian vch (if half then vchMaxModHalfOrder else vchMaxModOrder) \<le> 0"

section \<open>Encodings of keys and signatures\<close>

definition IsCompressedOrUncompressedPubKey :: "bytes \<Rightarrow> bool" where
  "IsCompressedOrUncompressedPubKey vchPubKey =
     (if length vchPubKey < 33 then False
      else if vchPubKey ! 0 = 0x04 then length vchPubKey = 65
      else if vchPubKey ! 0 = 0x02 \<or> vchPubKey ! 0 = 0x03 then length vchPubKey = 33
      else False)"

definition IsValidSignatureEncoding :: "bytes \<Rightarrow> bool" where
  "IsValidSignatureEncoding sig =
     (if length sig < 9 then False
      else if length sig > 73 then False
      else if sig ! 0 \<noteq> 0x30 then False
      else if unat (sig ! 1) \<noteq> length sig - 3 then False
      else let lenR = unat (sig ! 3) in
        if 5 + lenR \<ge> length sig then False
        else let lenS = unat (sig ! (5 + lenR)) in
          if lenR + lenS + 7 \<noteq> length sig then False
          else if sig ! 2 \<noteq> 0x02 then False
          else if lenR = 0 then False
          else if sig ! 4 AND 0x80 \<noteq> 0 then False
          else if lenR > 1 \<and> sig ! 4 = 0x00 \<and> \<not> (sig ! 5 AND 0x80 \<noteq> 0) then False
          else if sig ! (lenR + 4) \<noteq> 0x02 then False
          else if lenS = 0 then False
          else if sig ! (lenR + 6) AND 0x80 \<noteq> 0 then False
          else if lenS > 1 \<and> sig ! (lenR + 6) = 0x00 \<and> \<not> (sig ! (lenR + 7) AND 0x80 \<noteq> 0) then False
          else True)"

definition IsLowDERSignature :: "bytes \<Rightarrow> ScriptError + unit" where
  "IsLowDERSignature vchSig =
     (if \<not> IsValidSignatureEncoding vchSig then Inl SCRIPT_ERR_SIG_DER
      else let nLenR = unat (vchSig ! 3);
               nLenS = unat (vchSig ! (5 + nLenR));
               S = take nLenS (drop (6 + nLenR) vchSig)
           in if \<not> CheckSignatureElement S True then Inl SCRIPT_ERR_SIG_HIGH_S else Inr ())"

definition IsDefinedHashtypeSignature :: "bytes \<Rightarrow> bool" where
  "IsDefinedHashtypeSignature vchSig =
     (if length vchSig = 0 then False
      else let nHashType = vchSig ! (length vchSig - 1) AND NOT SIGHASH_ANYONECANPAY
           in if nHashType < SIGHASH_ALL \<or> nHashType > SIGHASH_SINGLE then False else True)"

definition CheckSignatureEncoding :: "flags \<Rightarrow> bytes \<Rightarrow> ScriptError + unit" where
  "CheckSignatureEncoding flags vchSig =
     (if length vchSig = 0 then Inr ()
      else if flags AND (SCRIPT_VERIFY_DERSIG OR SCRIPT_VERIFY_LOW_S OR SCRIPT_VERIFY_STRICTENC) \<noteq> 0 \<and>
              \<not> IsValidSignatureEncoding vchSig then Inl SCRIPT_ERR_SIG_DER
      else if flags AND SCRIPT_VERIFY_LOW_S \<noteq> 0 \<and> IsLowDERSignature vchSig \<noteq> Inr () then IsLowDERSignature vchSig
      else if flags AND SCRIPT_VERIFY_STRICTENC \<noteq> 0 \<and> \<not> IsDefinedHashtypeSignature vchSig
      then Inl SCRIPT_ERR_SIG_HASHTYPE
      else Inr ())"

definition CheckPubKeyEncoding :: "flags \<Rightarrow> bytes \<Rightarrow> ScriptError + unit" where
  "CheckPubKeyEncoding flags vchSig =
     (if flags AND SCRIPT_VERIFY_STRICTENC \<noteq> 0 \<and> \<not> IsCompressedOrUncompressedPubKey vchSig
      then Inl SCRIPT_ERR_PUBKEYTYPE else Inr ())"

definition CheckMinimalPush :: "bytes \<Rightarrow> byte \<Rightarrow> bool" where
  "CheckMinimalPush data opcode =
     (if length data = 0 then opcode = OP_0
      else if length data = 1 \<and> data ! 0 \<ge> 1 \<and> data ! 0 \<le> 16 then opcode = OP_1 + (data ! 0 - 1)
      else if length data = 1 \<and> data ! 0 = 0x81 then opcode = OP_1NEGATE
      else if length data \<le> 75 then unat opcode = length data
      else if length data \<le> 255 then opcode = OP_PUSHDATA1
      else if length data \<le> 65535 then opcode = OP_PUSHDATA2
      else True)"

section \<open>Public keys\<close>

text \<open>The 65 bytes of a \<open>CPubKey\<close>; the first one determines how many of them count.\<close>

definition GetLen :: "byte \<Rightarrow> nat" where
  "GetLen chHeader =
     (if chHeader = 2 \<or> chHeader = 3 then 33
      else if chHeader = 4 \<or> chHeader = 6 \<or> chHeader = 7 then 65
      else 0)"

definition CPubKey_Invalidate :: "bytes \<Rightarrow> bytes" where
  "CPubKey_Invalidate vch = vch[0 := 0xFF]"

definition CPubKey_Set :: "bytes \<Rightarrow> bytes \<Rightarrow> bytes" where
  "CPubKey_Set data vch =
     (let len = (if data = [] then 0 else GetLen (data ! 0))
      in if len \<noteq> 0 \<and> len = length data then data @ drop len vch else CPubKey_Invalidate vch)"

definition CPubKey_of :: "bytes \<Rightarrow> bytes" where
  "CPubKey_of data = CPubKey_Set data (replicate 65 0)"

definition CPubKey_size :: "bytes \<Rightarrow> nat" where
  "CPubKey_size vch = GetLen (vch ! 0)"

definition CPubKey_IsValid :: "bytes \<Rightarrow> bool" where
  "CPubKey_IsValid vch \<longleftrightarrow> CPubKey_size vch > 0"

definition CPubKey_IsCompressed :: "bytes \<Rightarrow> bool" where
  "CPubKey_IsCompressed vch \<longleftrightarrow> CPubKey_size vch = 33"

definition CPubKey_Raw :: "bytes \<Rightarrow> bytes" where
  "CPubKey_Raw vch = take (CPubKey_size vch) vch"

definition CPubKey_GetID :: "bytes \<Rightarrow> bytes" where
  "CPubKey_GetID vch = Hash160 (take (CPubKey_size vch) vch)"

definition CPubKey_GetHash :: "bytes \<Rightarrow> bytes" where
  "CPubKey_GetHash vch = Hash_ranges [take (CPubKey_size vch) vch]"

definition CPubKey_Serialize :: "bytes \<Rightarrow> bytes" where
  "CPubKey_Serialize vch = WriteCompactSize (of_nat (CPubKey_size vch)) @ take (CPubKey_size vch) vch"

section \<open>What the checks mean\<close>

definition be_value :: "bytes \<Rightarrow> nat" where
  "be_value c = le_value (rev c)"

lemma be_value_Nil [simp]: "be_value [] = 0"
  by (simp add: be_value_def)

lemma be_value_Cons: "be_value (b # c) = unat b * 256 ^ length c + be_value c"
  by (simp add: be_value_def le_value_append)

lemma be_value_less: "be_value c < 256 ^ length c"
  using le_value_less [of "rev c"] by (simp add: be_value_def)

lemma skip_zeros_value:
  "n \<le> length c \<Longrightarrow>
    (case skip_zeros n c of
       None \<Rightarrow> 256 ^ (length c - n) \<le> be_value c
     | Some c' \<Rightarrow> length c' = length c - n \<and> be_value c' = be_value c)"
proof (induction n c rule: skip_zeros.induct)
  case (3 n b c)
  show ?case
  proof (cases "b = 0")
    case True
    with 3 show ?thesis by (auto simp: be_value_Cons split: option.splits)
  next
    case False
    then have "0 < unat b" by (simp add: unat_gt_0)
    then have "256 ^ length c \<le> be_value (b # c)" by (simp add: be_value_Cons trans_le_add1)
    moreover have "(256 :: nat) ^ (length c - n) \<le> 256 ^ length c" by (rule power_increasing) simp_all
    ultimately have "256 ^ (length c - n) \<le> be_value (b # c)" by linarith
    then show ?thesis using False by simp
  qed
qed simp_all

lemma sgn_int_diff: "(a :: nat) < b \<Longrightarrow> sgn (int a - int b) = -1" "a > b \<Longrightarrow> sgn (int a - int b) = 1"
  by simp_all

lemma unat_small: "n < 256 \<Longrightarrow> unat (of_nat n :: byte) = n"
  by (simp only: unat_byte_of_nat mod_less)

lemma compare_equal_length_value:
  "length c1 = length c2 \<Longrightarrow> compare_equal_length c1 c2 = sgn (int (be_value c1) - int (be_value c2))"
proof (induction c1 c2 rule: compare_equal_length.induct)
  case (1 b1 c1 b2 c2)
  have bounds: "be_value c1 < 256 ^ length c1" "be_value c2 < 256 ^ length c1"
    using 1 be_value_less [of c1] be_value_less [of c2] by simp_all
  have less: "unat a * 256 ^ length c1 + x < unat b * 256 ^ length c1 + y" if "a < b" "x < 256 ^ length c1" for a b :: byte and x y :: nat
  proof -
    have "Suc (unat a) * 256 ^ length c1 \<le> unat b * 256 ^ length c1" using that(1) by (intro mult_le_mono1) (simp add: word_less_nat_alt)
    with that(2) show ?thesis by simp
  qed
  consider "b1 = b2" | "b1 < b2" | "b2 < b1" using linorder_cases by blast
  then show ?case
  proof cases
    case 1
    then show ?thesis using "1.IH" "1.prems" by (simp add: be_value_Cons)
  next
    case 2
    from less [OF this bounds(1), of "be_value c2"] "1.prems" have "be_value (b1 # c1) < be_value (b2 # c2)"
      by (simp add: be_value_Cons)
    from sgn_int_diff(1) [OF this] 2 show ?thesis by simp
  next
    case 3
    from less [OF this bounds(2), of "be_value c1"] "1.prems" have "be_value (b1 # c1) > be_value (b2 # c2)"
      by (simp add: be_value_Cons)
    from sgn_int_diff(2) [OF this] 3 show ?thesis by simp
  qed
qed simp_all

lemma CompareBigEndian_value: "CompareBigEndian c1 c2 = sgn (int (be_value c1) - int (be_value c2))"
proof (cases "skip_zeros (length c1 - length c2) c1")
  case None
  have "256 ^ (length c1 - (length c1 - length c2)) \<le> be_value c1"
    using skip_zeros_value [of "length c1 - length c2" c1] None by simp
  moreover have "length c2 \<le> length c1 - (length c1 - length c2)"
  proof (rule ccontr)
    assume "\<not> ?thesis"
    then have "length c1 - length c2 = 0" by simp
    with None show False by simp
  qed
  ultimately have "256 ^ length c2 \<le> be_value c1" using power_increasing [of "length c2" _ "256 :: nat"] by (meson order_trans one_le_numeral)
  then have "be_value c2 < be_value c1" using be_value_less [of c2] by linarith
  then show ?thesis using None by (simp add: CompareBigEndian_def)
next
  case (Some c1')
  have c1': "length c1' = min (length c1) (length c2)" "be_value c1' = be_value c1"
    using skip_zeros_value [of "length c1 - length c2" c1] Some by simp_all
  show ?thesis
  proof (cases "skip_zeros (length c2 - length c1') c2")
    case None
    have "256 ^ length c1' \<le> be_value c2"
      using skip_zeros_value [of "length c2 - length c1'" c2] None c1'(1) by (simp add: min_def split: if_splits)
    then have "be_value c1 < be_value c2" using be_value_less [of c1'] c1'(2) by linarith
    then show ?thesis using None Some by (simp add: CompareBigEndian_def)
  next
    case c2: (Some c2')
    have "length c2' = length c1'" "be_value c2' = be_value c2"
      using skip_zeros_value [of "length c2 - length c1'" c2] c2 c1'(1) by (simp_all add: min_def)
    then show ?thesis using Some c2 c1'(2) compare_equal_length_value [of c1' c2'] by (simp add: CompareBigEndian_def)
  qed
qed

text \<open>The encoding of a positive integer: not empty, not negative, not longer than needed.\<close>

definition der_integer :: "bytes \<Rightarrow> bool" where
  "der_integer r \<longleftrightarrow> r \<noteq> [] \<and> r ! 0 AND 0x80 = 0 \<and> (length r > 1 \<longrightarrow> r ! 0 = 0 \<longrightarrow> r ! 1 AND 0x80 \<noteq> 0)"

definition der_signature :: "bytes \<Rightarrow> bytes \<Rightarrow> byte \<Rightarrow> bytes" where
  "der_signature r s h =
     [0x30, of_nat (length r + length s + 4), 0x02, of_nat (length r)] @ r @
     [0x02, of_nat (length s)] @ s @ [h]"

lemma der_signature_valid:
  assumes "der_integer r" and "der_integer s" and "length r + length s + 7 \<le> 73"
  shows "IsValidSignatureEncoding (der_signature r s h)"
proof -
  let ?sig = "der_signature r s h"
  have len: "length ?sig = length r + length s + 7" by (simp add: der_signature_def)
  have pos: "0 < length r" "0 < length s" using assms(1,2) by (simp_all add: der_integer_def)
  have small: "unat (of_nat (length r) :: byte) = length r" "unat (of_nat (length s) :: byte) = length s"
    "unat (of_nat (length r + length s + 4) :: byte) = length r + length s + 4"
    using assms(3) by (intro unat_small, simp)+
  have at: "?sig ! 0 = 0x30" "?sig ! 1 = of_nat (length r + length s + 4)" "?sig ! 2 = 0x02"
    "?sig ! 3 = of_nat (length r)" "?sig ! 4 = r ! 0" "1 < length r \<Longrightarrow> ?sig ! 5 = r ! 1"
    "?sig ! (length r + 4) = 0x02" "?sig ! (5 + length r) = of_nat (length s)"
    "?sig ! (length r + 6) = s ! 0" "1 < length s \<Longrightarrow> ?sig ! (length r + 7) = s ! 1"
    using pos by (simp_all add: der_signature_def nth_append nth_Cons' eval_nat_numeral)
  have "\<not> length r + length s + 7 < 9" "\<not> 73 < length r + length s + 7" using pos assms(3) by linarith+
  moreover have "\<not> (1 < length r \<and> r ! 0 = 0 \<and> \<not> r ! 1 AND 0x80 \<noteq> 0)" "\<not> (1 < length s \<and> s ! 0 = 0 \<and> \<not> s ! 1 AND 0x80 \<noteq> 0)"
    "r ! 0 AND 0x80 = 0" "s ! 0 AND 0x80 = 0"
    using assms(1,2) by (auto simp: der_integer_def)
  ultimately show ?thesis
    unfolding IsValidSignatureEncoding_def Let_def at(1-5,7-9) small len
    using pos at(6,10) by (simp only: if_False simp_thms) (simp cong: conj_cong)
qed

lemma IsValidSignatureEncoding_iff_fields:
  "IsValidSignatureEncoding sig \<longleftrightarrow>
     (\<exists>lenR lenS. 9 \<le> length sig \<and> length sig \<le> 73 \<and> sig ! 0 = 0x30 \<and> unat (sig ! 1) = length sig - 3 \<and>
        lenR = unat (sig ! 3) \<and> lenS = unat (sig ! (5 + lenR)) \<and> lenR + lenS + 7 = length sig \<and>
        sig ! 2 = 0x02 \<and> 0 < lenR \<and> sig ! 4 AND 0x80 = 0 \<and>
        (1 < lenR \<longrightarrow> sig ! 4 = 0 \<longrightarrow> sig ! 5 AND 0x80 \<noteq> 0) \<and> sig ! (lenR + 4) = 0x02 \<and> 0 < lenS \<and>
        sig ! (lenR + 6) AND 0x80 = 0 \<and> (1 < lenS \<longrightarrow> sig ! (lenR + 6) = 0 \<longrightarrow> sig ! (lenR + 7) AND 0x80 \<noteq> 0))"
  by (simp add: IsValidSignatureEncoding_def Let_def not_less) (auto simp: not_le)

lemma length_ge_4E: "4 \<le> length xs \<Longrightarrow> \<exists>a b c d t. xs = a # b # c # d # t"
  by (auto simp: Suc_le_length_iff eval_nat_numeral)

lemma of_nat_unat_eq: "unat (b :: byte) = n \<Longrightarrow> b = of_nat n"
  by auto

lemma valid_is_der_signature:
  assumes "IsValidSignatureEncoding sig"
  shows "\<exists>r s h. sig = der_signature r s h \<and> der_integer r \<and> der_integer s \<and> length r + length s + 7 \<le> 73"
proof -
  obtain lenR lenS where v: "9 \<le> length sig" "length sig \<le> 73" "sig ! 0 = 0x30" "unat (sig ! 1) = length sig - 3"
    "lenR = unat (sig ! 3)" "lenS = unat (sig ! (5 + lenR))"
    "lenR + lenS + 7 = length sig" "sig ! 2 = 0x02" "0 < lenR" "sig ! 4 AND 0x80 = 0"
    "1 < lenR \<longrightarrow> sig ! 4 = 0 \<longrightarrow> sig ! 5 AND 0x80 \<noteq> 0" "sig ! (lenR + 4) = 0x02" "0 < lenS"
    "sig ! (lenR + 6) AND 0x80 = 0" "1 < lenS \<longrightarrow> sig ! (lenR + 6) = 0 \<longrightarrow> sig ! (lenR + 7) AND 0x80 \<noteq> 0"
    using assms [unfolded IsValidSignatureEncoding_iff_fields] by blast
  obtain x0 x1 x2 x3 t where sig: "sig = x0 # x1 # x2 # x3 # t" using length_ge_4E [of sig] v(1) by auto
  define r u where "r = take lenR t" and "u = drop lenR t"
  have t: "t = r @ u" "length r = lenR" "length u = lenS + 3" using v(7) sig by (simp_all add: r_def u_def)
  obtain y0 y1 w where u: "u = y0 # y1 # w" using t(3) by (auto simp: length_Suc_conv eval_nat_numeral)
  obtain s h where w: "w = s @ [h]" using t(3) u by (cases w rule: rev_cases) auto
  have len: "length s = lenS" using t(3) u w by simp
  have at: "sig ! (lenR + 4) = y0" "sig ! (5 + lenR) = y1" "sig ! 4 = r ! 0" "1 < lenR \<Longrightarrow> sig ! 5 = r ! 1"
    "sig ! (lenR + 6) = s ! 0" "1 < lenS \<Longrightarrow> sig ! (lenR + 7) = s ! 1"
    using v(9,13) t(1,2) len by (simp_all add: sig u w nth_append nth_Cons' eval_nat_numeral)
  have "unat x1 = lenR + lenS + 4" "unat x3 = lenR" "unat y1 = lenS" using v(4-7) at(2) sig by simp_all
  note this [THEN of_nat_unat_eq]
  then have "sig = der_signature r s h"
    using v(3,8,12) at(1) t(1,2) len by (simp add: sig u w der_signature_def)
  moreover have "der_integer r" "der_integer s"
    using v(9-11,13-15) at t(2) len unfolding der_integer_def by auto
  moreover have "length r + length s + 7 \<le> 73" using v(2,7) t(2) len by linarith
  ultimately show ?thesis by blast
qed

text \<open>The order of the group that the generator of secp256k1 spans.\<close>

definition curve_order :: nat where
  "curve_order = 0xFFFFFFFFFFFFFFFFFFFFFFFFFFFFFFFEBAAEDCE6AF48A03BBFD25E8CD0364141"

lemma order_values:
  "be_value vchMaxModOrder = curve_order - 1" "be_value vchMaxModHalfOrder = (curve_order - 1) div 2"
  by (simp_all add: be_value_def vchMaxModOrder_def vchMaxModHalfOrder_def curve_order_def)

lemma CheckSignatureElement_value:
  "CheckSignatureElement vch half \<longleftrightarrow>
     0 < be_value vch \<and> be_value vch \<le> (if half then (curve_order - 1) div 2 else curve_order - 1)"
proof -
  have sgn: "sgn (int a - int b) > 0 \<longleftrightarrow> b < a" "sgn (int a - int b) \<le> 0 \<longleftrightarrow> a \<le> b" for a b by (auto simp: sgn_if)
  show ?thesis unfolding CheckSignatureElement_def CompareBigEndian_value sgn by (simp add: order_values)
qed

lemma IsLowDERSignature_der:
  assumes "der_integer r" and "der_integer s" and "length r + length s + 7 \<le> 73"
  shows "IsLowDERSignature (der_signature r s h) =
    (if CheckSignatureElement s True then Inr () else Inl SCRIPT_ERR_SIG_HIGH_S)"
proof -
  let ?sig = "der_signature r s h"
  have "unat (of_nat (length r) :: byte) = length r" "unat (of_nat (length s) :: byte) = length s"
    using assms(3) by (intro unat_small, simp)+
  moreover have "?sig ! 3 = of_nat (length r)" "?sig ! (5 + length r) = of_nat (length s)"
    "take (length s) (drop (6 + length r) ?sig) = s"
    by (simp_all add: der_signature_def nth_append nth_Cons' eval_nat_numeral)
  ultimately show ?thesis
    using der_signature_valid [OF assms, of h] unfolding IsLowDERSignature_def Let_def by simp
qed

section \<open>Properties\<close>

text \<open>C34: strict encoding of signatures.  \<open>IsValidSignatureEncoding\<close>, which works by offsets into the byte
  string, accepts exactly the strings of the DER grammar
  \<^verbatim>\<open>30 [total] 02 [len R] R 02 [len S] S [hashtype]\<close> in which both integers are non-empty, non-negative
  and shortest, and whose total length is at most 73; it never reads outside the string.\<close>

theorem IsValidSignatureEncoding_grammar:
  "IsValidSignatureEncoding sig \<longleftrightarrow>
     (\<exists>r s h. sig = der_signature r s h \<and> der_integer r \<and> der_integer s \<and> length r + length s + 7 \<le> 73)"
  using valid_is_der_signature der_signature_valid by blast

text \<open>The range of keys and of signature elements.  The byte-wise comparison of big-endian numbers of
  different lengths is the comparison of their values, so a secret key is accepted exactly when it lies
  between 1 and the order of the curve minus one, and a well-encoded signature passes the low-S rule
  exactly when S lies between 1 and half the order; otherwise it is reported as high.\<close>

theorem curve_range_checks:
  "(eccrypto_Check key \<longleftrightarrow> 0 < be_value key \<and> be_value key < curve_order) \<and>
   IsLowDERSignature sig =
     (if \<not> IsValidSignatureEncoding sig then Inl SCRIPT_ERR_SIG_DER
      else if \<exists>r s h. sig = der_signature r s h \<and> der_integer r \<and> der_integer s \<and> length r + length s + 7 \<le> 73 \<and>
             0 < be_value s \<and> 2 * be_value s < curve_order
      then Inr () else Inl SCRIPT_ERR_SIG_HIGH_S)"
proof
  have "0 < curve_order" "odd curve_order" by (simp_all add: curve_order_def)
  then have half: "x \<le> (curve_order - 1) div 2 \<longleftrightarrow> 2 * x < curve_order" and ord: "x \<le> curve_order - 1 \<longleftrightarrow> x < curve_order" for x
    by presburger+
  show "eccrypto_Check key \<longleftrightarrow> 0 < be_value key \<and> be_value key < curve_order"
    using CheckSignatureElement_value [of key False] ord by (simp add: CheckSignatureElement_def eccrypto_Check_def)
  show "IsLowDERSignature sig =
     (if \<not> IsValidSignatureEncoding sig then Inl SCRIPT_ERR_SIG_DER
      else if \<exists>r s h. sig = der_signature r s h \<and> der_integer r \<and> der_integer s \<and> length r + length s + 7 \<le> 73 \<and>
             0 < be_value s \<and> 2 * be_value s < curve_order
      then Inr () else Inl SCRIPT_ERR_SIG_HIGH_S)"
  proof (cases "IsValidSignatureEncoding sig")
    case True
    then obtain r s h where sig: "sig = der_signature r s h" "der_integer r" "der_integer s" "length r + length s + 7 \<le> 73"
      using valid_is_der_signature by blast
    have low: "IsLowDERSignature sig = Inr () \<longleftrightarrow> 0 < be_value s \<and> 2 * be_value s < curve_order"
      using IsLowDERSignature_der [OF sig(2-4), of h] sig(1) CheckSignatureElement_value [of s True] half by simp
    have "0 < be_value s' \<and> 2 * be_value s' < curve_order \<longleftrightarrow> IsLowDERSignature sig = Inr ()"
      if "sig = der_signature r' s' h'" "der_integer r'" "der_integer s'" "length r' + length s' + 7 \<le> 73" for r' s' h'
      using IsLowDERSignature_der [OF that(2-4), of h'] that(1) CheckSignatureElement_value [of s' True] half by simp
    with sig low have "(\<exists>r s h. sig = der_signature r s h \<and> der_integer r \<and> der_integer s \<and> length r + length s + 7 \<le> 73 \<and>
             0 < be_value s \<and> 2 * be_value s < curve_order) \<longleftrightarrow> IsLowDERSignature sig = Inr ()" by blast
    moreover have "IsLowDERSignature sig = Inr () \<or> IsLowDERSignature sig = Inl SCRIPT_ERR_SIG_HIGH_S"
      using IsLowDERSignature_der [OF sig(2-4), of h] sig(1) by simp
    ultimately show ?thesis using True by metis
  qed (simp add: IsLowDERSignature_def)
qed

end
