(* ===== verification/Interpreter.thy ===== *)
theory Interpreter
  imports Signature "HOL-Library.Sublist"
begin

text \<open>
  The script interpreter: \<open>EvalScript\<close> and \<open>VerifyScript\<close> of \<^verbatim>\<open>src/src/script/interpreter.cpp\<close>.  The stacks
  are lists with the top first.  A result is \<open>Inl\<close> of the script error that the code stores before it
  returns false, or \<open>Inr\<close> of the state with which the loop goes on; an exception inside the loop is
  caught there and becomes \<open>SCRIPT_ERR_UNKNOWN_ERROR\<close>.  The checker, a virtual function in the code, is an
  argument.  The body of the switch is split along its groups of cases.
\<close>

section \<open>State\<close>

record eval_state =
  stk :: "bytes list"
  altstk :: "bytes list"
  vfExec :: "bool list"
  nOpCount :: nat
  codehash :: bytes

type_synonym eval = "ScriptError + eval_state"
type_synonym checker = "bytes \<Rightarrow> bytes \<Rightarrow> CScript \<Rightarrow> bool"

fun CastToBool :: "bytes \<Rightarrow> bool" where
  "CastToBool [] = False"
| "CastToBool (b # bs) = (if b \<noteq> 0 then \<not> (bs = [] \<and> b = 0x80) else CastToBool bs)"

definition vchFalse :: bytes where "vchFalse = []"
definition vchTrue :: bytes where "vchTrue = [1]"

definition bool_vch :: "bool \<Rightarrow> bytes" where
  "bool_vch b = (if b then vchTrue else vchFalse)"

definition fRequireMinimal :: "flags \<Rightarrow> bool" where
  "fRequireMinimal flags \<longleftrightarrow> flags AND SCRIPT_VERIFY_MINIMALDATA \<noteq> 0"

text \<open>The conversion to a number throws, which the loop catches.\<close>

definition stack_num :: "flags \<Rightarrow> bytes \<Rightarrow> ScriptError + int" where
  "stack_num flags vch =
     (case CScriptNum vch (fRequireMinimal flags) of
        Inl e \<Rightarrow> Inl SCRIPT_ERR_UNKNOWN_ERROR
      | Inr n \<Rightarrow> Inr n)"

definition set_stk :: "bytes list \<Rightarrow> eval_state \<Rightarrow> eval" where
  "set_stk s st = Inr (st\<lparr>stk := s\<rparr>)"

section \<open>The groups of operations\<close>

text \<open>\<open>OP_1NEGATE\<close> and \<open>OP_1\<close> to \<open>OP_16\<close>\<close>

definition op_small_int :: "byte \<Rightarrow> eval_state \<Rightarrow> eval" where
  "op_small_int opcode st = set_stk (CScriptNum_serialize (uint opcode - (uint OP_1 - 1)) # stk st) st"

definition op_control :: "flags \<Rightarrow> bool \<Rightarrow> byte \<Rightarrow> eval_state \<Rightarrow> eval" where
  "op_control flags fExec opcode st =
     (if opcode = OP_NOP then Inr st
      else if OP_NOP1 \<le> opcode \<and> opcode \<le> OP_NOP10 then
        if flags AND SCRIPT_VERIFY_DISCOURAGE_UPGRADABLE_NOPS \<noteq> 0
        then Inl SCRIPT_ERR_DISCOURAGE_UPGRADABLE_NOPS else Inr st
      else if opcode = OP_IF \<or> opcode = OP_NOTIF then
        if fExec then
          (case stk st of
             [] \<Rightarrow> Inl SCRIPT_ERR_UNBALANCED_CONDITIONAL
           | vch # s \<Rightarrow>
               Inr (st\<lparr>stk := s, vfExec := (if opcode = OP_NOTIF then \<not> CastToBool vch else CastToBool vch) # vfExec st\<rparr>))
        else Inr (st\<lparr>vfExec := False # vfExec st\<rparr>)
      else if opcode = OP_ELSE then
        (case vfExec st of
           [] \<Rightarrow> Inl SCRIPT_ERR_UNBALANCED_CONDITIONAL
         | b # v \<Rightarrow> Inr (st\<lparr>vfExec := (\<not> b) # v\<rparr>))
      else if opcode = OP_ENDIF then
        (case vfExec st of
           [] \<Rightarrow> Inl SCRIPT_ERR_UNBALANCED_CONDITIONAL
         | b # v \<Rightarrow> Inr (st\<lparr>vfExec := v\<rparr>))
      else if opcode = OP_VERIFY then
        (case stk st of
           [] \<Rightarrow> Inl SCRIPT_ERR_INVALID_STACK_OPERATION
         | vch # s \<Rightarrow> if CastToBool vch then set_stk s st else Inl SCRIPT_ERR_VERIFY)
      else if opcode = OP_RETURN then Inl SCRIPT_ERR_OP_RETURN
      else Inl SCRIPT_ERR_BAD_OPCODE)"

definition op_altstack :: "byte \<Rightarrow> eval_state \<Rightarrow> eval" where
  "op_altstack opcode st =
     (if opcode = OP_TOALTSTACK then
        (case stk st of
           [] \<Rightarrow> Inl SCRIPT_ERR_INVALID_STACK_OPERATION
         | vch # s \<Rightarrow> Inr (st\<lparr>stk := s, altstk := vch # altstk st\<rparr>))
      else
        (case altstk st of
           [] \<Rightarrow> Inl SCRIPT_ERR_INVALID_ALTSTACK_OPERATION
         | vch # a \<Rightarrow> Inr (st\<lparr>stk := vch # stk st, altstk := a\<rparr>)))"

definition op_stack2 :: "byte \<Rightarrow> eval_state \<Rightarrow> eval" where
  "op_stack2 opcode st =
     (if opcode = OP_2DROP then
        (case stk st of x2 # x1 # s \<Rightarrow> set_stk s st | _ \<Rightarrow> Inl SCRIPT_ERR_INVALID_STACK_OPERATION)
      else if opcode = OP_2DUP then
        (case stk st of x2 # x1 # s \<Rightarrow> set_stk (x2 # x1 # x2 # x1 # s) st
         | _ \<Rightarrow> Inl SCRIPT_ERR_INVALID_STACK_OPERATION)
      else if opcode = OP_3DUP then
        (case stk st of x3 # x2 # x1 # s \<Rightarrow> set_stk (x3 # x2 # x1 # x3 # x2 # x1 # s) st
         | _ \<Rightarrow> Inl SCRIPT_ERR_INVALID_STACK_OPERATION)
      else if opcode = OP_2OVER then
        (case stk st of x4 # x3 # x2 # x1 # s \<Rightarrow> set_stk (x2 # x1 # x4 # x3 # x2 # x1 # s) st
         | _ \<Rightarrow> Inl SCRIPT_ERR_INVALID_STACK_OPERATION)
      else if opcode = OP_2ROT then
        (case stk st of x6 # x5 # x4 # x3 # x2 # x1 # s \<Rightarrow> set_stk (x2 # x1 # x6 # x5 # x4 # x3 # s) st
         | _ \<Rightarrow> Inl SCRIPT_ERR_INVALID_STACK_OPERATION)
      else
        (case stk st of x4 # x3 # x2 # x1 # s \<Rightarrow> set_stk (x2 # x1 # x4 # x3 # s) st
         | _ \<Rightarrow> Inl SCRIPT_ERR_INVALID_STACK_OPERATION))"

definition op_stack :: "flags \<Rightarrow> byte \<Rightarrow> eval_state \<Rightarrow> eval" where
  "op_stack flags opcode st =
     (if opcode = OP_IFDUP then
        (case stk st of vch # s \<Rightarrow> (if CastToBool vch then set_stk (vch # vch # s) st else Inr st)
         | _ \<Rightarrow> Inl SCRIPT_ERR_INVALID_STACK_OPERATION)
      else if opcode = OP_DEPTH then set_stk (CScriptNum_serialize (int (length (stk st))) # stk st) st
      else if opcode = OP_DROP then
        (case stk st of x # s \<Rightarrow> set_stk s st | _ \<Rightarrow> Inl SCRIPT_ERR_INVALID_STACK_OPERATION)
      else if opcode = OP_DUP then
        (case stk st of x # s \<Rightarrow> set_stk (x # x # s) st | _ \<Rightarrow> Inl SCRIPT_ERR_INVALID_STACK_OPERATION)
      else if opcode = OP_NIP then
        (case stk st of x2 # x1 # s \<Rightarrow> set_stk (x2 # s) st | _ \<Rightarrow> Inl SCRIPT_ERR_INVALID_STACK_OPERATION)
      else if opcode = OP_OVER then
        (case stk st of x2 # x1 # s \<Rightarrow> set_stk (x1 # x2 # x1 # s) st | _ \<Rightarrow> Inl SCRIPT_ERR_INVALID_STACK_OPERATION)
      else if opcode = OP_PICK \<or> opcode = OP_ROLL then
        (case stk st of
           x # y # s \<Rightarrow>
             rbind (stack_num flags x) (\<lambda>bn.
               let n = getint bn; s = y # s in
               if n < 0 \<or> n \<ge> int (length s) then Inl SCRIPT_ERR_INVALID_STACK_OPERATION
               else let vch = s ! nat n;
                        s = (if opcode = OP_ROLL then take (nat n) s @ drop (Suc (nat n)) s else s)
                    in set_stk (vch # s) st)
         | _ \<Rightarrow> Inl SCRIPT_ERR_INVALID_STACK_OPERATION)
      else if opcode = OP_ROT then
        (case stk st of x3 # x2 # x1 # s \<Rightarrow> set_stk (x1 # x3 # x2 # s) st
         | _ \<Rightarrow> Inl SCRIPT_ERR_INVALID_STACK_OPERATION)
      else if opcode = OP_SWAP then
        (case stk st of x2 # x1 # s \<Rightarrow> set_stk (x1 # x2 # s) st | _ \<Rightarrow> Inl SCRIPT_ERR_INVALID_STACK_OPERATION)
      else if opcode = OP_TUCK then
        (case stk st of x2 # x1 # s \<Rightarrow> set_stk (x2 # x1 # x2 # s) st | _ \<Rightarrow> Inl SCRIPT_ERR_INVALID_STACK_OPERATION)
      else
        (case stk st of x # s \<Rightarrow> set_stk (CScriptNum_serialize (int (length x)) # x # s) st
         | _ \<Rightarrow> Inl SCRIPT_ERR_INVALID_STACK_OPERATION))"

definition op_equal :: "byte \<Rightarrow> eval_state \<Rightarrow> eval" where
  "op_equal opcode st =
     (case stk st of
        vch2 # vch1 # s \<Rightarrow>
          let fEqual = (vch1 = vch2) in
          if opcode = OP_EQUALVERIFY
          then (if fEqual then set_stk s st else Inl SCRIPT_ERR_EQUALVERIFY)
          else set_stk (bool_vch fEqual # s) st
      | _ \<Rightarrow> Inl SCRIPT_ERR_INVALID_STACK_OPERATION)"

definition unary_result :: "byte \<Rightarrow> int \<Rightarrow> int" where
  "unary_result opcode bn =
     (if opcode = OP_1ADD then bn + 1
      else if opcode = OP_1SUB then bn - 1
      else if opcode = OP_NEGATE then - bn
      else if opcode = OP_ABS then (if bn < 0 then - bn else bn)
      else if opcode = OP_NOT then (if bn = 0 then 1 else 0)
      else (if bn \<noteq> 0 then 1 else 0))"

definition op_unary :: "flags \<Rightarrow> byte \<Rightarrow> eval_state \<Rightarrow> eval" where
  "op_unary flags opcode st =
     (case stk st of
        x # s \<Rightarrow> rbind (stack_num flags x) (\<lambda>bn. set_stk (CScriptNum_serialize (unary_result opcode bn) # s) st)
      | _ \<Rightarrow> Inl SCRIPT_ERR_INVALID_STACK_OPERATION)"

definition binary_result :: "byte \<Rightarrow> int \<Rightarrow> int \<Rightarrow> int" where
  "binary_result opcode bn1 bn2 =
     (if opcode = OP_ADD then bn1 + bn2
      else if opcode = OP_SUB then bn1 - bn2
      else if opcode = OP_BOOLAND then of_bool (bn1 \<noteq> 0 \<and> bn2 \<noteq> 0)
      else if opcode = OP_BOOLOR then of_bool (bn1 \<noteq> 0 \<or> bn2 \<noteq> 0)
      else if opcode = OP_NUMEQUAL then of_bool (bn1 = bn2)
      else if opcode = OP_NUMEQUALVERIFY then of_bool (bn1 = bn2)
      else if opcode = OP_NUMNOTEQUAL then of_bool (bn1 \<noteq> bn2)
      else if opcode = OP_LESSTHAN then of_bool (bn1 < bn2)
      else if opcode = OP_GREATERTHAN then of_bool (bn1 > bn2)
      else if opcode = OP_LESSTHANOREQUAL then of_bool (bn1 \<le> bn2)
      else if opcode = OP_GREATERTHANOREQUAL then of_bool (bn1 \<ge> bn2)
      else if opcode = OP_MIN then (if bn1 < bn2 then bn1 else bn2)
      else (if bn1 > bn2 then bn1 else bn2))"

definition op_binary :: "flags \<Rightarrow> byte \<Rightarrow> eval_state \<Rightarrow> eval" where
  "op_binary flags opcode st =
     (case stk st of
        x2 # x1 # s \<Rightarrow>
          rbind (stack_num flags x1) (\<lambda>bn1. rbind (stack_num flags x2) (\<lambda>bn2.
            let vch = CScriptNum_serialize (binary_result opcode bn1 bn2) in
            if opcode = OP_NUMEQUALVERIFY
            then (if CastToBool vch then set_stk s st else Inl SCRIPT_ERR_NUMEQUALVERIFY)
            else set_stk (vch # s) st))
      | _ \<Rightarrow> Inl SCRIPT_ERR_INVALID_STACK_OPERATION)"

definition op_within :: "flags \<Rightarrow> eval_state \<Rightarrow> eval" where
  "op_within flags st =
     (case stk st of
        x3 # x2 # x1 # s \<Rightarrow>
          rbind (stack_num flags x1) (\<lambda>bn1. rbind (stack_num flags x2) (\<lambda>bn2. rbind (stack_num flags x3) (\<lambda>bn3.
            set_stk (bool_vch (bn2 \<le> bn1 \<and> bn1 < bn3) # s) st)))
      | _ \<Rightarrow> Inl SCRIPT_ERR_INVALID_STACK_OPERATION)"

definition op_crypto :: "byte \<Rightarrow> eval_state \<Rightarrow> eval" where
  "op_crypto opcode st =
     (case stk st of
        vch # s \<Rightarrow>
          let vchHash =
                (if opcode = OP_RIPEMD160 then fst (CRIPEMD160_Finalize (CRIPEMD160_Write vch CRIPEMD160))
                 else if opcode = OP_SHA1 then fst (CSHA1_Finalize (CSHA1_Write vch CSHA1))
                 else if opcode = OP_SHA256 then fst (CSHA256_Finalize (CSHA256_Write vch CSHA256))
                 else if opcode = OP_HASH160 then fst (CHash160_Finalize (CHash256_Write vch CSHA256))
                 else fst (CHash256_Finalize (CHash256_Write vch CSHA256)))
          in set_stk (vchHash # s) st
      | _ \<Rightarrow> Inl SCRIPT_ERR_INVALID_STACK_OPERATION)"

definition op_checksig :: "flags \<Rightarrow> checker \<Rightarrow> byte \<Rightarrow> eval_state \<Rightarrow> eval" where
  "op_checksig flags checker opcode st =
     (case stk st of
        vchPubKey # vchSig # s \<Rightarrow>
          let scriptCode = snd (FindAndDelete (push_vch vchSig) (codehash st)) in
          rbind (CheckSignatureEncoding flags vchSig) (\<lambda>_.
          rbind (CheckPubKeyEncoding flags vchPubKey) (\<lambda>_.
            let fSuccess = checker vchSig vchPubKey scriptCode in
            if opcode = OP_CHECKSIGVERIFY
            then (if fSuccess then set_stk s st else Inl SCRIPT_ERR_CHECKSIGVERIFY)
            else set_stk (bool_vch fSuccess # s) st))
      | _ \<Rightarrow> Inl SCRIPT_ERR_INVALID_STACK_OPERATION)"

text \<open>The loop over the signatures and keys that are left; there are never more signatures than keys.\<close>

fun multisig_loop :: "flags \<Rightarrow> checker \<Rightarrow> CScript \<Rightarrow> bytes list \<Rightarrow> bytes list \<Rightarrow> ScriptError + bool" where
  "multisig_loop flags checker scriptCode [] keys = Inr True"
| "multisig_loop flags checker scriptCode (vchSig # sigs) [] = Inr False"
| "multisig_loop flags checker scriptCode (vchSig # sigs) (vchPubKey # keys) =
     rbind (CheckSignatureEncoding flags vchSig) (\<lambda>_.
     rbind (CheckPubKeyEncoding flags vchPubKey) (\<lambda>_.
       let fOk = checker vchSig vchPubKey scriptCode;
           sigs' = (if fOk then sigs else vchSig # sigs)
       in if length sigs' > length keys then Inr False
          else multisig_loop flags checker scriptCode sigs' keys))"

text \<open>The arguments of \<open>OP_CHECKMULTISIG\<close>: signatures, keys, the raised operation count and the rest of the
  stack below, which begins with the dummy element.\<close>

definition multisig_args ::
    "flags \<Rightarrow> eval_state \<Rightarrow> ScriptError + (bytes list \<times> bytes list \<times> nat \<times> bytes list)" where
  "multisig_args flags st =
     (if length (stk st) < 1 then Inl SCRIPT_ERR_INVALID_STACK_OPERATION
      else rbind (stack_num flags (stk st ! 0)) (\<lambda>bnK.
        let nKeysCount = getint bnK in
        if nKeysCount < 0 \<or> nKeysCount > 20 then Inl SCRIPT_ERR_PUBKEY_COUNT
        else let nk = nat nKeysCount; ops = nOpCount st + nk in
          if ops > 201 then Inl SCRIPT_ERR_OP_COUNT
          else if length (stk st) < 2 + nk then Inl SCRIPT_ERR_INVALID_STACK_OPERATION
          else rbind (stack_num flags (stk st ! (1 + nk))) (\<lambda>bnS.
            let nSigsCount = getint bnS in
            if nSigsCount < 0 \<or> nSigsCount > nKeysCount then Inl SCRIPT_ERR_SIG_COUNT
            else let ns = nat nSigsCount in
              if length (stk st) < 3 + nk + ns then Inl SCRIPT_ERR_INVALID_STACK_OPERATION
              else Inr (take ns (drop (2 + nk) (stk st)), take nk (drop 1 (stk st)), ops,
                        drop (2 + nk + ns) (stk st)))))"

definition op_checkmultisig :: "flags \<Rightarrow> checker \<Rightarrow> byte \<Rightarrow> eval_state \<Rightarrow> eval" where
  "op_checkmultisig flags checker opcode st =
     rbind (multisig_args flags st) (\<lambda>(sigs, keys, ops, below).
       let scriptCode = fold (\<lambda>vchSig code. snd (FindAndDelete (push_vch vchSig) code)) sigs (codehash st) in
       rbind (multisig_loop flags checker scriptCode sigs keys) (\<lambda>fSuccess.
         case below of
           [] \<Rightarrow> Inl SCRIPT_ERR_INVALID_STACK_OPERATION
         | dummy # s \<Rightarrow>
             if flags AND SCRIPT_VERIFY_NULLDUMMY \<noteq> 0 \<and> length dummy \<noteq> 0 then Inl SCRIPT_ERR_SIG_NULLDUMMY
             else if opcode = OP_CHECKMULTISIGVERIFY
             then (if fSuccess then Inr (st\<lparr>stk := s, nOpCount := ops\<rparr>) else Inl SCRIPT_ERR_CHECKMULTISIGVERIFY)
             else Inr (st\<lparr>stk := bool_vch fSuccess # s, nOpCount := ops\<rparr>)))"

section \<open>The loop\<close>

definition disabled_opcode :: "byte \<Rightarrow> bool" where
  "disabled_opcode opcode \<longleftrightarrow>
     opcode = OP_CAT \<or> opcode = OP_SUBSTR \<or> opcode = OP_LEFT \<or> opcode = OP_RIGHT \<or> opcode = OP_INVERT \<or>
     opcode = OP_AND \<or> opcode = OP_OR \<or> opcode = OP_XOR \<or> opcode = OP_2MUL \<or> opcode = OP_2DIV \<or>
     opcode = OP_MUL \<or> opcode = OP_DIV \<or> opcode = OP_MOD \<or> opcode = OP_LSHIFT \<or> opcode = OP_RSHIFT"

text \<open>The switch; \<open>pc\<close> is the position behind the operation.\<close>

definition exec_op :: "flags \<Rightarrow> checker \<Rightarrow> bool \<Rightarrow> byte \<Rightarrow> bytes \<Rightarrow> eval_state \<Rightarrow> eval" where
  "exec_op flags checker fExec opcode pc st =
     (if opcode = OP_1NEGATE \<or> (OP_1 \<le> opcode \<and> opcode \<le> OP_16) then op_small_int opcode st
      else if (OP_NOP \<le> opcode \<and> opcode \<le> OP_RETURN) \<or> (OP_NOP1 \<le> opcode \<and> opcode \<le> OP_NOP10)
      then op_control flags fExec opcode st
      else if opcode = OP_TOALTSTACK \<or> opcode = OP_FROMALTSTACK then op_altstack opcode st
      else if OP_2DROP \<le> opcode \<and> opcode \<le> OP_2SWAP then op_stack2 opcode st
      else if (OP_IFDUP \<le> opcode \<and> opcode \<le> OP_TUCK) \<or> opcode = OP_SIZE then op_stack flags opcode st
      else if opcode = OP_EQUAL \<or> opcode = OP_EQUALVERIFY then op_equal opcode st
      else if opcode = OP_1ADD \<or> opcode = OP_1SUB \<or> opcode = OP_NEGATE \<or> opcode = OP_ABS \<or>
              opcode = OP_NOT \<or> opcode = OP_0NOTEQUAL then op_unary flags opcode st
      else if opcode = OP_ADD \<or> opcode = OP_SUB \<or> (OP_BOOLAND \<le> opcode \<and> opcode \<le> OP_MAX)
      then op_binary flags opcode st
      else if opcode = OP_WITHIN then op_within flags st
      else if OP_RIPEMD160 \<le> opcode \<and> opcode \<le> OP_HASH256 then op_crypto opcode st
      else if opcode = OP_CODESEPARATOR then Inr (st\<lparr>codehash := pc\<rparr>)
      else if opcode = OP_CHECKSIG \<or> opcode = OP_CHECKSIGVERIFY then op_checksig flags checker opcode st
      else if opcode = OP_CHECKMULTISIG \<or> opcode = OP_CHECKMULTISIGVERIFY
      then op_checkmultisig flags checker opcode st
      else Inl SCRIPT_ERR_BAD_OPCODE)"

definition run_op :: "flags \<Rightarrow> checker \<Rightarrow> byte \<Rightarrow> bytes \<Rightarrow> bytes \<Rightarrow> eval_state \<Rightarrow> eval" where
  "run_op flags checker opcode vchPushValue pc st =
     (let fExec = (\<not> (False \<in> set (vfExec st))) in
      if fExec \<and> opcode \<le> OP_PUSHDATA4 then
        if fRequireMinimal flags \<and> \<not> CheckMinimalPush vchPushValue opcode then Inl SCRIPT_ERR_MINIMALDATA
        else set_stk (vchPushValue # stk st) st
      else if fExec \<or> (OP_IF \<le> opcode \<and> opcode \<le> OP_ENDIF) then exec_op flags checker fExec opcode pc st
      else Inr st)"

definition count_op :: "byte \<Rightarrow> eval_state \<Rightarrow> eval_state" where
  "count_op opcode st = (if opcode > OP_16 then st\<lparr>nOpCount := nOpCount st + 1\<rparr> else st)"

text \<open>One round of the loop after \<open>GetOp\<close> has succeeded.\<close>

definition eval_step :: "flags \<Rightarrow> checker \<Rightarrow> byte \<Rightarrow> bytes \<Rightarrow> bytes \<Rightarrow> eval_state \<Rightarrow> eval" where
  "eval_step flags checker opcode vchPushValue pc st =
     (if length vchPushValue > 520 then Inl SCRIPT_ERR_PUSH_SIZE
      else let st = count_op opcode st in
        if opcode > OP_16 \<and> nOpCount st > 201 then Inl SCRIPT_ERR_OP_COUNT
        else if disabled_opcode opcode then Inl SCRIPT_ERR_DISABLED_OPCODE
        else rbind (run_op flags checker opcode vchPushValue pc st) (\<lambda>st'.
               if length (stk st') + length (altstk st') > 1000 then Inl SCRIPT_ERR_STACK_SIZE else Inr st'))"

function eval_loop :: "flags \<Rightarrow> checker \<Rightarrow> bytes \<Rightarrow> eval_state \<Rightarrow> eval" where
  "eval_loop flags checker pc st =
     (if pc = [] then Inr st
      else case GetOp2 pc of (ok, opcode, vchPushValue, pc') \<Rightarrow>
        if \<not> ok then Inl SCRIPT_ERR_BAD_OPCODE
        else rbind (eval_step flags checker opcode vchPushValue pc' st) (\<lambda>st'. eval_loop flags checker pc' st'))"
  by pat_completeness auto
termination
  by (relation "measure (\<lambda>(flags, checker, pc, st). length pc)") (auto simp: GetOp2_shrinks dest: sym)

declare eval_loop.simps [simp del]

definition eval_start :: "bytes list \<Rightarrow> CScript \<Rightarrow> eval_state" where
  "eval_start stack script = \<lparr>stk = stack, altstk = [], vfExec = [], nOpCount = 0, codehash = script\<rparr>"

text \<open>The result on success is the stack.\<close>

definition EvalScript :: "flags \<Rightarrow> checker \<Rightarrow> CScript \<Rightarrow> bytes list \<Rightarrow> ScriptError + bytes list" where
  "EvalScript flags checker script stack =
     (if length script > 10000 then Inl SCRIPT_ERR_SCRIPT_SIZE
      else rbind (eval_loop flags checker script (eval_start stack script)) (\<lambda>st.
             if vfExec st \<noteq> [] then Inl SCRIPT_ERR_UNBALANCED_CONDITIONAL else Inr (stk st)))"

section \<open>Verification\<close>

text \<open>The assertion of the code is the \<open>None\<close> of the result.\<close>

definition VerifyScript :: "flags \<Rightarrow> checker \<Rightarrow> CScript \<Rightarrow> CScript \<Rightarrow> (ScriptError + unit) option" where
  "VerifyScript flags checker sigScript keyScript =
     (if flags AND SCRIPT_VERIFY_SIGPUSHONLY \<noteq> 0 \<and> \<not> IsPushOnly sigScript then Some (Inl SCRIPT_ERR_SIG_PUSHONLY)
      else case EvalScript flags checker sigScript [] of
        Inl e \<Rightarrow> Some (Inl e)
      | Inr stack \<Rightarrow>
          let stackCopy = (if flags AND SCRIPT_VERIFY_P2SH \<noteq> 0 then stack else []) in
          (case EvalScript flags checker keyScript stack of
             Inl e \<Rightarrow> Some (Inl e)
           | Inr [] \<Rightarrow> Some (Inl SCRIPT_ERR_EVAL_FALSE)
           | Inr (vch # _) \<Rightarrow>
               if \<not> CastToBool vch then Some (Inl SCRIPT_ERR_EVAL_FALSE)
               else if flags AND SCRIPT_VERIFY_P2SH \<noteq> 0 \<and> IsPayToScriptHash keyScript then
                 if \<not> IsPushOnly sigScript then Some (Inl SCRIPT_ERR_SIG_PUSHONLY)
                 else (case stackCopy of
                   [] \<Rightarrow> None
                 | pubKeySerialized # rest \<Rightarrow>
                     (case EvalScript flags checker pubKeySerialized rest of
                        Inl e \<Rightarrow> Some (Inl e)
                      | Inr [] \<Rightarrow> Some (Inl SCRIPT_ERR_EVAL_FALSE)
                      | Inr (vch # _) \<Rightarrow>
                          if \<not> CastToBool vch then Some (Inl SCRIPT_ERR_EVAL_FALSE) else Some (Inr ())))
               else Some (Inr ())))"

section \<open>Sizes of what the operations push\<close>

abbreviation MAX_SCRIPT_ELEMENT_SIZE :: nat where "MAX_SCRIPT_ELEMENT_SIZE \<equiv> 520"

lemma set_vch_bound: "length vch \<le> 4 \<Longrightarrow> \<bar>set_vch vch\<bar> < 2 ^ 32"
proof (cases "vch = []")
  case False
  assume len: "length vch \<le> 4"
  have bound: "le_value bs < 2 ^ 32" if "length bs \<le> 4" for bs
  proof -
    have "(256 :: nat) ^ length bs \<le> 256 ^ 4" using that by (rule power_increasing) simp
    then show ?thesis using le_value_less [of bs] by simp
  qed
  have "length (butlast vch @ [last vch AND 0x7f]) \<le> 4" using len False by simp
  from bound [OF this] bound [OF len] False show ?thesis by (simp add: set_vch_def)
qed (simp add: set_vch_def)

lemma stack_num_bound: "stack_num flags vch = Inr n \<Longrightarrow> \<bar>n\<bar> < 2 ^ 32"
  using set_vch_bound [of vch] by (auto simp: stack_num_def CScriptNum_def split: if_splits)

lemma length_number: "\<bar>n\<bar> < 2 ^ 34 \<Longrightarrow> length (CScriptNum_serialize n) \<le> MAX_SCRIPT_ELEMENT_SIZE"
  using length_serialize [of n 4] by simp

lemma unary_result_bound: "\<bar>n\<bar> < 2 ^ 32 \<Longrightarrow> \<bar>unary_result opcode n\<bar> < 2 ^ 34"
  by (auto simp: unary_result_def)

lemma binary_result_bound: "\<bar>m\<bar> < 2 ^ 32 \<Longrightarrow> \<bar>n\<bar> < 2 ^ 32 \<Longrightarrow> \<bar>binary_result opcode m n\<bar> < 2 ^ 34"
  by (auto simp: binary_result_def)

lemma length_WriteLE: "length (concat (map (\<lambda>w. le_bytes n (unat w)) ws)) = n * length ws"
  by (induction ws) simp_all

lemma length_ripemd160: "length (ripemd160 m) = 20"
proof -
  have "length (fold (\<lambda>b s. rmd_compress s b) bs s) = 5" if "length s = 5" for bs s
    using that by (induction bs arbitrary: s) (simp_all add: rmd_compress_def Let_def)
  then show ?thesis by (simp add: ripemd160_def length_WriteLE)
qed

lemma length_fips_sha1: "length (fips_sha1 m) = 20"
proof -
  have step: "length (fold (\<lambda>t. fips1_step t (fips1_W b t)) ts s) = 5" if "length s = 5" for b ts s
    using that by (induction ts arbitrary: s) (simp_all add: fips1_step_def)
  have "length (fold (\<lambda>b s. fips1_compress s b) bs s) = 5" if "length s = 5" for bs s
    using that by (induction bs arbitrary: s) (simp_all add: fips1_compress_def step)
  then show ?thesis by (simp add: fips_sha1_def length_words)
qed

text \<open>The hash operations push the digests.\<close>

lemma op_crypto_digest:
  "op_crypto opcode st =
     (case stk st of
        vch # s \<Rightarrow> set_stk
          ((if opcode = OP_RIPEMD160 then ripemd160 vch else if opcode = OP_SHA1 then fips_sha1 vch
            else if opcode = OP_SHA256 then fips_sha256 vch
            else if opcode = OP_HASH160 then ripemd160 (fips_sha256 vch)
            else fips_sha256 (fips_sha256 vch)) # s) st
      | [] \<Rightarrow> Inl SCRIPT_ERR_INVALID_STACK_OPERATION)"
proof (cases "stk st")
  case (Cons vch s)
  have "fst (CHash160_Finalize (CHash256_Write vch CSHA256)) = ripemd160 (fips_sha256 vch)"
    using sha256_class.one_shot [of vch] ripemd160_class.one_shot [of "fips_sha256 vch"]
    by (simp add: CHash160_Finalize_def CHash256_Write_def case_prod_beta)
  moreover have "fst (CHash256_Finalize (CHash256_Write vch CSHA256)) = fips_sha256 (fips_sha256 vch)"
    using CHash256_digest_of [of "[vch]"] by simp
  ultimately show ?thesis
    using Cons ripemd160_class.one_shot [of vch] sha1_class.one_shot [of vch] sha256_class.one_shot [of vch]
    by (simp add: op_crypto_def Let_def)
qed (simp add: op_crypto_def)

lemma digest_sizes:
  "length (if b1 then ripemd160 v else if b2 then fips_sha1 v else if b3 then fips_sha256 v
     else if b4 then ripemd160 (fips_sha256 v) else fips_sha256 (fips_sha256 v)) \<le> MAX_SCRIPT_ELEMENT_SIZE"
  by (simp add: length_ripemd160 length_fips_sha1 length_fips_sha256)

section \<open>What one operation may change\<close>

definition small_elements :: "eval_state \<Rightarrow> bool" where
  "small_elements st \<longleftrightarrow>
     (\<forall>x \<in> set (stk st) \<union> set (altstk st). length x \<le> MAX_SCRIPT_ELEMENT_SIZE)"

text \<open>Operations other than conditionals keep the nesting; all keep elements small and the count bounded.\<close>

definition op_frame :: "eval_state \<Rightarrow> eval_state \<Rightarrow> bool" where
  "op_frame st st' \<longleftrightarrow>
     nOpCount st \<le> nOpCount st' \<and> (nOpCount st \<le> 201 \<longrightarrow> nOpCount st' \<le> 201) \<and>
     (length (stk st) \<le> 2 ^ 33 \<longrightarrow> small_elements st \<longrightarrow> small_elements st')"

lemmas op_frame_simps = op_frame_def small_elements_def set_stk_def result_iff Let_def

lemma frame_small_int: "op_small_int opcode st = Inr st' \<Longrightarrow> op_frame st st' \<and> vfExec st' = vfExec st"
proof -
  have "0 \<le> uint opcode" "uint opcode < 256" using uint_lt2p [of opcode] by simp_all
  then have "\<bar>uint opcode - 0x50\<bar> \<le> 256" by linarith
  then have "\<bar>uint opcode - 0x50\<bar> < 2 ^ 34" by (rule order.strict_trans1) simp
  from length_number [OF this]
  show "op_small_int opcode st = Inr st' \<Longrightarrow> op_frame st st' \<and> vfExec st' = vfExec st"
    by (auto simp: op_small_int_def op_frame_simps)
qed

lemma frame_altstack: "op_altstack opcode st = Inr st' \<Longrightarrow> op_frame st st' \<and> vfExec st' = vfExec st"
  by (auto simp: op_altstack_def op_frame_simps split: if_splits list.splits)

lemma frame_stack2: "op_stack2 opcode st = Inr st' \<Longrightarrow> op_frame st st' \<and> vfExec st' = vfExec st"
  by (auto simp: op_stack2_def op_frame_simps split: if_splits list.splits)

lemma frame_equal: "op_equal opcode st = Inr st' \<Longrightarrow> op_frame st st' \<and> vfExec st' = vfExec st"
  by (auto simp: op_equal_def op_frame_simps bool_vch_def vchTrue_def vchFalse_def split: if_splits list.splits)

lemma frame_unary: "op_unary flags opcode st = Inr st' \<Longrightarrow> op_frame st st' \<and> vfExec st' = vfExec st"
  by (auto simp: op_unary_def op_frame_simps split: list.splits
      dest!: stack_num_bound intro!: length_number unary_result_bound)

lemma frame_binary: "op_binary flags opcode st = Inr st' \<Longrightarrow> op_frame st st' \<and> vfExec st' = vfExec st"
  by (auto simp: op_binary_def op_frame_simps split: list.splits if_splits
      dest!: stack_num_bound intro!: length_number binary_result_bound)

lemma frame_within: "op_within flags st = Inr st' \<Longrightarrow> op_frame st st' \<and> vfExec st' = vfExec st"
  by (auto simp: op_within_def op_frame_simps bool_vch_def vchTrue_def vchFalse_def split: list.splits if_splits)

lemma frame_hash: "op_crypto opcode st = Inr st' \<Longrightarrow> op_frame st st' \<and> vfExec st' = vfExec st"
  unfolding op_crypto_digest
  by (auto simp: op_frame_simps digest_sizes simp del: if_split split: list.splits)

lemma frame_checksig: "op_checksig flags checker opcode st = Inr st' \<Longrightarrow> op_frame st st' \<and> vfExec st' = vfExec st"
  by (auto simp: op_checksig_def op_frame_simps bool_vch_def vchTrue_def vchFalse_def split: list.splits if_splits)

lemma frame_stack: "op_stack flags opcode st = Inr st' \<Longrightarrow> op_frame st st' \<and> vfExec st' = vfExec st"
proof -
  assume r: "op_stack flags opcode st = Inr st'"
  have depth: "length (stk st) \<le> 2 ^ 33 \<Longrightarrow> length (CScriptNum_serialize (int (length (stk st)))) \<le> MAX_SCRIPT_ELEMENT_SIZE"
    by (rule length_number) simp
  have size: "length x \<le> MAX_SCRIPT_ELEMENT_SIZE \<Longrightarrow> length (CScriptNum_serialize (int (length x))) \<le> MAX_SCRIPT_ELEMENT_SIZE" for x :: bytes
    by (rule length_number) simp
  have pick: "n < length s \<Longrightarrow> s ! n \<in> set s" for n and s :: "bytes list" by simp
  show ?thesis
  proof (cases "opcode = OP_PICK \<or> opcode = OP_ROLL")
    case True
    then obtain x y s where st: "stk st = x # y # s" using r by (auto simp: op_stack_def split: list.splits)
    obtain bn where n: "\<not> getint bn < 0" "\<not> getint bn \<ge> int (length (y # s))"
      "st' = st\<lparr>stk := (y # s) ! nat (getint bn) #
         (if opcode = OP_ROLL then take (nat (getint bn)) (y # s) @ drop (Suc (nat (getint bn))) (y # s) else y # s)\<rparr>"
      using r True st by (auto simp: op_stack_def op_frame_simps split: if_splits)
    have "(y # s) ! nat (getint bn) \<in> set (y # s)" using n(1,2) by (intro pick) linarith
    then have "set (stk st') \<subseteq> set (stk st)"
      using n(3) st by (auto split: if_splits dest: in_set_takeD in_set_dropD)
    then show ?thesis using n(3) by (auto simp: op_frame_def small_elements_def)
  next
    case False
    then show ?thesis using r depth size
      by (auto simp: op_stack_def op_frame_simps split: if_splits list.splits)
  qed
qed

lemma frame_multisig:
  "op_checkmultisig flags checker opcode st = Inr st' \<Longrightarrow> op_frame st st' \<and> vfExec st' = vfExec st"
proof -
  assume r: "op_checkmultisig flags checker opcode st = Inr st'"
  then obtain sigs keys ops below fs where args: "multisig_args flags st = Inr (sigs, keys, ops, below)"
    and below: "(case below of
           [] \<Rightarrow> Inl SCRIPT_ERR_INVALID_STACK_OPERATION
         | dummy # s \<Rightarrow>
             if flags AND SCRIPT_VERIFY_NULLDUMMY \<noteq> 0 \<and> length dummy \<noteq> 0 then Inl SCRIPT_ERR_SIG_NULLDUMMY
             else if opcode = OP_CHECKMULTISIGVERIFY
             then (if fs then Inr (st\<lparr>stk := s, nOpCount := ops\<rparr>) else Inl SCRIPT_ERR_CHECKMULTISIGVERIFY)
             else Inr (st\<lparr>stk := bool_vch fs # s, nOpCount := ops\<rparr>)) = Inr st'"
    unfolding op_checkmultisig_def rbind_eq_Inr Let_def by (auto simp: rbind_eq_Inr)
  have st': "\<exists>dummy s. below = dummy # s \<and> nOpCount st' = ops \<and> altstk st' = altstk st \<and> vfExec st' = vfExec st \<and>
      (stk st' = s \<or> stk st' = bool_vch fs # s)"
    using below by (cases below) (auto split: if_splits)
  have "nOpCount st \<le> ops \<and> ops \<le> 201 \<and> set below \<subseteq> set (stk st)"
    using args by (auto simp: multisig_args_def op_frame_simps split: if_splits dest: in_set_dropD)
  then have kept: "nOpCount st \<le> nOpCount st' \<and> nOpCount st' \<le> 201 \<and> altstk st' = altstk st \<and> vfExec st' = vfExec st \<and>
      set (stk st') \<subseteq> insert (bool_vch fs) (set (stk st))" using st' by auto
  have "length (bool_vch fs) \<le> MAX_SCRIPT_ELEMENT_SIZE" by (simp add: bool_vch_def vchTrue_def vchFalse_def)
  with kept have "length x \<le> MAX_SCRIPT_ELEMENT_SIZE"
    if "small_elements st" "x \<in> set (stk st') \<union> set (altstk st')" for x
    using that unfolding small_elements_def by auto
  with kept show ?thesis by (simp add: op_frame_def small_elements_def)
qed

text \<open>The nesting of conditionals: \<open>None\<close> when an operation has no conditional to act on.\<close>

definition next_depth :: "nat \<Rightarrow> byte \<Rightarrow> nat option" where
  "next_depth d opcode =
     (if opcode = OP_IF \<or> opcode = OP_NOTIF then Some (Suc d)
      else if opcode = OP_ELSE then (if d = 0 then None else Some d)
      else if opcode = OP_ENDIF then (if d = 0 then None else Some (d - 1))
      else Some d)"

lemma frame_control:
  "op_control flags fExec opcode st = Inr st' \<Longrightarrow>
     op_frame st st' \<and> next_depth (length (vfExec st)) opcode = Some (length (vfExec st'))"
  by (auto simp: op_control_def op_frame_simps next_depth_def split: if_splits list.splits)

lemma next_depth_other: "opcode < OP_IF \<or> OP_ENDIF < opcode \<Longrightarrow> next_depth d opcode = Some d"
  by (auto simp: next_depth_def)

lemma if_eqE: "(if c then a else b) = r \<Longrightarrow> (c \<Longrightarrow> a = r \<Longrightarrow> P) \<Longrightarrow> (\<not> c \<Longrightarrow> b = r \<Longrightarrow> P) \<Longrightarrow> P"
  by (simp split: if_splits)

lemma frame_codeseparator:
  "Inr (st\<lparr>codehash := pc\<rparr>) = (Inr st' :: eval) \<Longrightarrow> op_frame st st' \<and> vfExec st' = vfExec st"
  by (auto simp: op_frame_simps)

lemma frame_bad: "Inl e = (Inr st' :: eval) \<Longrightarrow> op_frame st st' \<and> vfExec st' = vfExec st"
  by simp

lemmas op_frames =
  frame_small_int frame_altstack frame_stack2 frame_stack frame_equal frame_unary frame_binary frame_within
  frame_hash frame_checksig frame_multisig frame_codeseparator frame_bad

lemma exec_op_frame:
  assumes "exec_op flags checker fExec opcode pc st = Inr st'"
  shows "op_frame st st' \<and> next_depth (length (vfExec st)) opcode = Some (length (vfExec st'))"
proof (cases "(OP_NOP \<le> opcode \<and> opcode \<le> OP_RETURN) \<or> (OP_NOP1 \<le> opcode \<and> opcode \<le> OP_NOP10)")
  case True
  then have "\<not> (opcode = OP_1NEGATE \<or> (OP_1 \<le> opcode \<and> opcode \<le> OP_16))" by (auto simp: word_le_nat_alt)
  with True assms have "op_control flags fExec opcode st = Inr st'" by (simp only: exec_op_def if_False if_True)
  then show ?thesis by (rule frame_control)
next
  case False
  then have d: "next_depth (length (vfExec st)) opcode = Some (length (vfExec st))"
    by (intro next_depth_other) (auto simp: word_le_nat_alt word_less_nat_alt)
  have "op_frame st st' \<and> vfExec st' = vfExec st"
    using assms [unfolded exec_op_def] False
    by (elim if_eqE) ((rule op_frames, assumption) | (erule (1) notE))+
  then show ?thesis using d by simp
qed

lemma run_op_frame:
  assumes "run_op flags checker opcode vch pc st = Inr st'" and "length vch \<le> MAX_SCRIPT_ELEMENT_SIZE"
  shows "op_frame st st' \<and> next_depth (length (vfExec st)) opcode = Some (length (vfExec st'))"
proof -
  define fExec where "fExec \<longleftrightarrow> \<not> (False \<in> set (vfExec st))"
  consider "fExec \<and> opcode \<le> OP_PUSHDATA4" | "\<not> (fExec \<and> opcode \<le> OP_PUSHDATA4)" "fExec \<or> (OP_IF \<le> opcode \<and> opcode \<le> OP_ENDIF)"
    | "\<not> (fExec \<and> opcode \<le> OP_PUSHDATA4)" "\<not> (fExec \<or> (OP_IF \<le> opcode \<and> opcode \<le> OP_ENDIF))" by blast
  then show ?thesis
  proof cases
    case 1
    then have "st' = st\<lparr>stk := vch # stk st\<rparr>"
      using assms(1) by (auto simp: run_op_def fExec_def set_stk_def Let_def split: if_splits)
    moreover have "next_depth (length (vfExec st)) opcode = Some (length (vfExec st))"
      using 1 by (intro next_depth_other) (auto simp: word_le_nat_alt word_less_nat_alt)
    ultimately show ?thesis using assms(2) by (auto simp: op_frame_def small_elements_def)
  next
    case 2
    then have "exec_op flags checker fExec opcode pc st = Inr st'"
      using assms(1) by (auto simp: run_op_def fExec_def Let_def split: if_splits)
    then show ?thesis by (rule exec_op_frame)
  next
    case 3
    then have "st' = st" using assms(1) by (auto simp: run_op_def fExec_def Let_def split: if_splits)
    moreover have "next_depth (length (vfExec st)) opcode = Some (length (vfExec st))"
      using 3 by (intro next_depth_other) (auto simp: not_le)
    ultimately show ?thesis by (simp add: op_frame_def)
  qed
qed

definition within_limits :: "eval_state \<Rightarrow> bool" where
  "within_limits st \<longleftrightarrow>
     length (stk st) + length (altstk st) \<le> 1000 \<and> small_elements st \<and> nOpCount st \<le> 201"

lemma eval_step_effect:
  assumes "eval_step flags checker opcode vch pc st = Inr st'"
  shows "\<not> disabled_opcode opcode" "next_depth (length (vfExec st)) opcode = Some (length (vfExec st'))"
    "nOpCount st + of_bool (opcode > OP_16) \<le> nOpCount st'" "nOpCount st \<le> 201 \<Longrightarrow> nOpCount st' \<le> 201"
    "within_limits st \<Longrightarrow> within_limits st'"
proof -
  define st1 where "st1 = count_op opcode st"
  have st1: "vfExec st1 = vfExec st" "nOpCount st1 = nOpCount st + of_bool (opcode > OP_16)" "stk st1 = stk st"
    "altstk st1 = altstk st" by (simp_all add: st1_def count_op_def)
  have step: "length vch \<le> MAX_SCRIPT_ELEMENT_SIZE" "\<not> (opcode > OP_16 \<and> nOpCount st1 > 201)" "\<not> disabled_opcode opcode"
    "run_op flags checker opcode vch pc st1 = Inr st'" "length (stk st') + length (altstk st') \<le> 1000"
    using assms unfolding eval_step_def Let_def st1_def [symmetric] by (auto simp: result_iff split: if_splits)
  note frame = run_op_frame [OF step(4,1)]
  have ops: "nOpCount st \<le> 201 \<Longrightarrow> nOpCount st1 \<le> 201" using step(2) st1(2) by (cases "opcode > OP_16") simp_all
  show "\<not> disabled_opcode opcode" by fact
  show "next_depth (length (vfExec st)) opcode = Some (length (vfExec st'))" using frame st1(1) by simp
  show "nOpCount st + of_bool (opcode > OP_16) \<le> nOpCount st'" using frame st1(2) by (simp add: op_frame_def)
  show lim: "nOpCount st \<le> 201 \<Longrightarrow> nOpCount st' \<le> 201" using frame ops by (simp add: op_frame_def)
  show "within_limits st \<Longrightarrow> within_limits st'"
    using frame step(5) lim st1(3,4) by (simp add: within_limits_def op_frame_def small_elements_def)
qed

text \<open>The operations of a script, if it can be read to its end, and the nesting behind a list of them.\<close>

function script_ops :: "bytes \<Rightarrow> byte list option" where
  "script_ops pc =
     (if pc = [] then Some []
      else case GetOp2 pc of (ok, opcode, vch, pc') \<Rightarrow>
        if ok then map_option (Cons opcode) (script_ops pc') else None)"
  by pat_completeness auto
termination
  by (relation "measure length") (auto simp: GetOp2_shrinks dest: sym)

declare script_ops.simps [simp del]

fun depth_after :: "nat \<Rightarrow> byte list \<Rightarrow> nat option" where
  "depth_after d [] = Some d"
| "depth_after d (opcode # ops) =
     (case next_depth d opcode of None \<Rightarrow> None | Some d' \<Rightarrow> depth_after d' ops)"

lemma eval_loop_effect:
  "eval_loop flags checker pc st = Inr st' \<Longrightarrow>
     \<exists>ops. script_ops pc = Some ops \<and> list_all (\<lambda>opcode. \<not> disabled_opcode opcode) ops \<and>
       depth_after (length (vfExec st)) ops = Some (length (vfExec st')) \<and>
       nOpCount st + length (filter (\<lambda>opcode. opcode > OP_16) ops) \<le> nOpCount st' \<and>
       (nOpCount st \<le> 201 \<longrightarrow> nOpCount st' \<le> 201) \<and> (within_limits st \<longrightarrow> within_limits st')"
proof (induction "length pc" arbitrary: pc st rule: less_induct)
  case less
  show ?case
  proof (cases "pc = []")
    case True
    then show ?thesis using less.prems by (simp add: eval_loop.simps script_ops.simps)
  next
    case False
    obtain ok opcode vch pc1 where op: "GetOp2 pc = (ok, opcode, vch, pc1)" by (metis prod_cases4)
    obtain st1 where ok: "ok" and step: "eval_step flags checker opcode vch pc1 st = Inr st1"
      and rest: "eval_loop flags checker pc1 st1 = Inr st'"
      using less.prems False op by (subst (asm) eval_loop.simps) (auto simp: result_iff split: if_splits)
    note eff = eval_step_effect [OF step]
    from less.hyps [OF GetOp2_shrinks [OF op False] rest] obtain ops where
      IH: "script_ops pc1 = Some ops" "list_all (\<lambda>opcode. \<not> disabled_opcode opcode) ops"
        "depth_after (length (vfExec st1)) ops = Some (length (vfExec st'))"
        "nOpCount st1 + length (filter (\<lambda>opcode. opcode > OP_16) ops) \<le> nOpCount st'"
        "nOpCount st1 \<le> 201 \<longrightarrow> nOpCount st' \<le> 201" "within_limits st1 \<longrightarrow> within_limits st'" by blast
    have "script_ops pc = Some (opcode # ops)" using False op ok IH(1) by (simp add: script_ops.simps [of pc])
    moreover have "nOpCount st + length (filter (\<lambda>opcode. opcode > OP_16) (opcode # ops)) \<le> nOpCount st'"
      using eff(3) IH(4) by (cases "opcode > OP_16") simp_all
    ultimately show ?thesis using eff IH by (intro exI [of _ "opcode # ops"]) simp
  qed
qed

section \<open>Properties of evaluation\<close>

text \<open>C17: resource limits.  A script that is evaluated successfully leaves at most a thousand elements of at
  most 520 bytes each, if it was given such a stack: every operation, also those that compute numbers,
  hashes and positions on the stack, keeps the elements within the limit, and the limits are checked after
  every operation.\<close>

theorem EvalScript_limits:
  assumes "EvalScript flags checker script stack = Inr stack'"
    and "length stack \<le> 1000" and "\<forall>x \<in> set stack. length x \<le> 520"
  shows "length stack' \<le> 1000 \<and> (\<forall>x \<in> set stack'. length x \<le> 520)"
proof -
  obtain st where run: "eval_loop flags checker script (eval_start stack script) = Inr st" "stk st = stack'"
    using assms(1) by (auto simp: EvalScript_def result_iff split: if_splits)
  have "within_limits (eval_start stack script)"
    using assms(2,3) by (simp add: eval_start_def within_limits_def small_elements_def)
  then have "within_limits st" using eval_loop_effect [OF run(1)] by blast
  then show ?thesis using run(2) by (auto simp: within_limits_def small_elements_def)
qed

theorem EvalScript_limits_witness:
  "EvalScript 0 (\<lambda>_ _ _. False) [OP_2, OP_DUP, OP_ADD] [[7]] = Inr [[4], [7]] \<and>
   length [[4], [7 :: byte]] \<le> 1000"
proof -
  have run: "EvalScript 0 (\<lambda>_ _ _. False) [OP_2, OP_DUP, OP_ADD] [[7]] = Inr [[4], [7]]"
    by code_simp
  show ?thesis using run EvalScript_limits [OF run] by simp
qed

text \<open>C11: what a script must look like to succeed.  Whatever the flags, the stack and the signatures, a
  script that is evaluated successfully has at most 10000 bytes, can be read to its end, contains no
  disabled operation, not even in a branch that is not executed, has at most 201 operations above
  \<open>OP_16\<close>, and its conditionals are balanced.\<close>

theorem EvalScript_accepts_wellformed:
  assumes "EvalScript flags checker script stack = Inr stack'"
  shows "length script \<le> 10000 \<and>
    (\<exists>ops. script_ops script = Some ops \<and> list_all (\<lambda>opcode. \<not> disabled_opcode opcode) ops \<and>
       length (filter (\<lambda>opcode. opcode > OP_16) ops) \<le> 201 \<and> depth_after 0 ops = Some 0)"
proof -
  obtain st where run: "length script \<le> 10000" "eval_loop flags checker script (eval_start stack script) = Inr st"
      "vfExec st = []"
    using assms by (auto simp: EvalScript_def result_iff split: if_splits)
  then show ?thesis using eval_loop_effect [OF run(2)] by (auto simp: eval_start_def)
qed

theorem EvalScript_accepts_wellformed_witness:
  "\<exists>ops. script_ops [OP_1, OP_IF, OP_2, OP_ELSE, OP_3, OP_ENDIF] = Some ops \<and> depth_after 0 ops = Some 0"
proof -
  have "EvalScript 0 (\<lambda>_ _ _. False) [OP_1, OP_IF, OP_2, OP_ELSE, OP_3, OP_ENDIF] [] = Inr [[2]]"
    by code_simp
  from EvalScript_accepts_wellformed [OF this] show ?thesis by blast
qed

text \<open>A list of signatures matches keys in order.\<close>

definition sigs_match :: "checker \<Rightarrow> CScript \<Rightarrow> bytes list \<Rightarrow> bytes list \<Rightarrow> bool" where
  "sigs_match checker scriptCode sigs keys \<longleftrightarrow>
     (\<exists>ks. subseq ks keys \<and> list_all2 (\<lambda>sig key. checker sig key scriptCode) sigs ks)"

lemma sigs_match_Nil: "sigs_match checker code [] keys"
  by (auto simp: sigs_match_def)

lemma sigs_match_length: "sigs_match checker code sigs keys \<Longrightarrow> length sigs \<le> length keys"
  by (auto simp: sigs_match_def dest!: list_all2_lengthD dest: list_emb_length)

lemma sigs_match_Cons:
  "sigs_match checker code (sig # sigs) (key # keys) \<longleftrightarrow>
     (if checker sig key code then sigs_match checker code sigs keys else sigs_match checker code (sig # sigs) keys)"
proof (cases "checker sig key code")
  case True
  have "sigs_match checker code sigs keys" if m: "subseq ks (key # keys)" "list_all2 (\<lambda>s k. checker s k code) (sig # sigs) ks" for ks
  proof -
    obtain k ks' where ks: "ks = k # ks'" "list_all2 (\<lambda>s k. checker s k code) sigs ks'" using m(2) by (auto simp: list_all2_Cons1)
    have "subseq ks' keys" using m(1) ks(1) by (auto simp: subseq_Cons2_iff dest: subseq_Cons' split: if_splits)
    with ks(2) show ?thesis by (auto simp: sigs_match_def)
  qed
  moreover have "sigs_match checker code (sig # sigs) (key # keys)" if m: "sigs_match checker code sigs keys"
  proof -
    obtain ks where "subseq ks keys" "list_all2 (\<lambda>s k. checker s k code) sigs ks" using m by (auto simp: sigs_match_def)
    then have "subseq (key # ks) (key # keys)" "list_all2 (\<lambda>s k. checker s k code) (sig # sigs) (key # ks)" using True by simp_all
    then show ?thesis unfolding sigs_match_def by blast
  qed
  ultimately show ?thesis using True unfolding sigs_match_def by (metis (mono_tags, lifting))
next
  case False
  have "subseq ks (key # keys) \<longleftrightarrow> subseq ks keys" if m: "list_all2 (\<lambda>s k. checker s k code) (sig # sigs) ks" for ks
  proof -
    obtain k ks' where "ks = k # ks'" "checker sig k code" using m by (auto simp: list_all2_Cons1)
    with False show ?thesis by (auto simp: subseq_Cons2_neq)
  qed
  with False show ?thesis unfolding sigs_match_def by auto
qed

lemma multisig_loop_matches:
  assumes "\<And>sig. sig \<in> set sigs \<Longrightarrow> CheckSignatureEncoding flags sig = Inr ()"
    and "\<And>key. key \<in> set keys \<Longrightarrow> CheckPubKeyEncoding flags key = Inr ()"
  shows "multisig_loop flags checker code sigs keys = Inr (sigs_match checker code sigs keys)"
  using assms
proof (induction flags checker code sigs keys rule: multisig_loop.induct)
  case (3 flags checker code sig sigs key keys)
  define sigs' where "sigs' = (if checker sig key code then sigs else sig # sigs)"
  have enc: "CheckSignatureEncoding flags sig = Inr ()" "CheckPubKeyEncoding flags key = Inr ()" using "3.prems" by simp_all
  have match: "sigs_match checker code (sig # sigs) (key # keys) \<longleftrightarrow> sigs_match checker code sigs' keys"
    by (simp add: sigs_match_Cons sigs'_def)
  have loop: "multisig_loop flags checker code (sig # sigs) (key # keys) =
      (if length sigs' > length keys then Inr False else multisig_loop flags checker code sigs' keys)"
    by (simp add: enc sigs'_def Let_def)
  show ?case
  proof (cases "length sigs' > length keys")
    case True
    then show ?thesis using loop match sigs_match_length [of checker code sigs' keys] by auto
  next
    case False
    have "multisig_loop flags checker code sigs' keys = Inr (sigs_match checker code sigs' keys)"
    proof (rule "3.IH" [OF enc refl sigs'_def False])
      show "CheckSignatureEncoding flags s = Inr ()" if "s \<in> set sigs'" for s
        using that "3.prems"(1) by (auto simp: sigs'_def split: if_splits)
    qed (use "3.prems"(2) in simp)
    then show ?thesis using loop match False by simp
  qed
qed (auto simp: sigs_match_Nil dest: sigs_match_length)

end
