(* ===== verification/Verify.thy ===== *)
theory Verify
  imports Interpreter Transaction
begin

text \<open>
  Signature hashes and the checker of \<^verbatim>\<open>src/src/script/interpreter.cpp\<close>, and properties of
  \<open>VerifyScript\<close> on the two payment forms.  The elliptic-curve verification of a 32-byte hash,
  \<open>CPubKey::Verify\<close>, is the argument \<open>verify\<close>.
\<close>

section \<open>The signature hash\<close>

record sig_serializer =
  ss_txTo :: CTransaction
  ss_scriptCode :: CScript
  ss_nIn :: nat
  fAnyoneCanPay :: bool
  fHashSingle :: bool
  fHashNone :: bool

definition CTransactionSignatureSerializer :: "CTransaction \<Rightarrow> CScript \<Rightarrow> nat \<Rightarrow> int \<Rightarrow> sig_serializer" where
  "CTransactionSignatureSerializer txToIn scriptCodeIn nInIn nHashTypeIn =
     \<lparr>ss_txTo = txToIn, ss_scriptCode = scriptCodeIn, ss_nIn = nInIn,
      fAnyoneCanPay = (nHashTypeIn AND uint SIGHASH_ANYONECANPAY \<noteq> 0),
      fHashSingle = (nHashTypeIn AND 0x1f = uint SIGHASH_SINGLE),
      fHashNone = (nHashTypeIn AND 0x1f = uint SIGHASH_NONE)\<rparr>"

text \<open>The two loops over the script code.  The position after the operation at which reading fails is
  behind the bytes that were read of it.\<close>

lemma GetOp2_read: "(True, opcode, vch, it') = GetOp2 it \<Longrightarrow> length it' < length it"
  using GetOp2_progress(2,3) [of it True opcode vch it'] by simp

function nCodeSeparators :: "bytes \<Rightarrow> nat" where
  "nCodeSeparators it =
     (case GetOp2 it of (ok, opcode, vch, it') \<Rightarrow>
        if ok then (if opcode = OP_CODESEPARATOR then 1 else 0) + nCodeSeparators it' else 0)"
  by pat_completeness auto
termination
  by (relation "measure length") (auto dest: GetOp2_read)

function write_code :: "bytes \<Rightarrow> bytes \<Rightarrow> bytes" where
  "write_code itBegin it =
     (case GetOp2 it of (ok, opcode, vch, it') \<Rightarrow>
        if ok then
          if opcode = OP_CODESEPARATOR
          then take (length itBegin - length it' - 1) itBegin @ write_code it' it'
          else write_code itBegin it'
        else if itBegin \<noteq> [] then take (length itBegin - length it') itBegin else [])"
  by pat_completeness auto
termination
  by (relation "measure (\<lambda>(b, it). length it)") (auto dest: GetOp2_read)

declare nCodeSeparators.simps [simp del] write_code.simps [simp del]

definition SerializeScriptCode :: "CScript \<Rightarrow> bytes" where
  "SerializeScriptCode code =
     WriteCompactSize (of_nat (length code - nCodeSeparators code)) @ write_code code code"

definition SerializeInput :: "sig_serializer \<Rightarrow> nat \<Rightarrow> bytes" where
  "SerializeInput ss nInput =
     (let nInput = (if fAnyoneCanPay ss then ss_nIn ss else nInput);
          txin = vin (ss_txTo ss) ! nInput
      in Serialize_COutPoint (prevout txin) @
         (if nInput \<noteq> ss_nIn ss then Serialize_blob [] else SerializeScriptCode (ss_scriptCode ss)) @
         (if nInput \<noteq> ss_nIn ss \<and> (fHashSingle ss \<or> fHashNone ss) then Serialize_i32 0
          else Serialize_u32 (nSequence txin)))"

definition SerializeOutput :: "sig_serializer \<Rightarrow> nat \<Rightarrow> bytes" where
  "SerializeOutput ss nOutput =
     (if fHashSingle ss \<and> nOutput \<noteq> ss_nIn ss then Serialize_CTxOut CTxOut_null
      else Serialize_CTxOut (vout (ss_txTo ss) ! nOutput))"

definition SignatureSerialize :: "sig_serializer \<Rightarrow> bytes" where
  "SignatureSerialize ss =
     (let tx = ss_txTo ss;
          nInputs = (if fAnyoneCanPay ss then 1 else length (vin tx));
          nOutputs = (if fHashNone ss then 0 else if fHashSingle ss then ss_nIn ss + 1 else length (vout tx))
      in Serialize_i32 (tx_nVersion tx) @
         WriteCompactSize (of_nat nInputs) @ concat (map (SerializeInput ss) [0..<nInputs]) @
         WriteCompactSize (of_nat nOutputs) @ concat (map (SerializeOutput ss) [0..<nOutputs]) @
         Serialize_u32 (nLockTime tx))"

text \<open>The hash is the 32 bytes in memory; the number 1 is a byte 1 and 31 zeros.\<close>

definition uint256_one :: bytes where
  "uint256_one = 1 # replicate 31 0"

definition SignatureHash :: "CScript \<Rightarrow> CTransaction \<Rightarrow> nat \<Rightarrow> int \<Rightarrow> bytes" where
  "SignatureHash code txTo nIn nHashType =
     (if nIn \<ge> length (vin txTo) then uint256_one
      else if nHashType AND 0x1f = uint SIGHASH_SINGLE \<and> nIn \<ge> length (vout txTo) then uint256_one
      else let txTmp = CTransactionSignatureSerializer txTo code nIn nHashType
           in CHashWriter_GetHash (CHashWriter_write (Serialize_i32 nHashType)
                (CHashWriter_write (SignatureSerialize txTmp) CSHA256)))"

definition TransactionSignatureChecker ::
    "(bytes \<Rightarrow> bytes \<Rightarrow> bytes \<Rightarrow> bool) \<Rightarrow> CTransaction \<Rightarrow> nat \<Rightarrow> checker" where
  "TransactionSignatureChecker verify txTo nIn vchSigIn vchPubKey code =
     (let pubkey = CPubKey_of vchPubKey in
      if \<not> CPubKey_IsValid pubkey then False
      else if vchSigIn = [] then False
      else let nHashType = uint (last vchSigIn);
               vchSig = butlast vchSigIn;
               sighash = SignatureHash code txTo nIn nHashType
           in verify (CPubKey_Raw pubkey) sighash vchSig)"

section \<open>The signature hash covers a modified transaction\<close>

text \<open>The script without its code separators, when it can be read to its end.\<close>

function strip_separators :: "bytes \<Rightarrow> bytes" where
  "strip_separators it =
     (case GetOp2 it of (ok, opcode, vch, it') \<Rightarrow>
        if ok then (if opcode = OP_CODESEPARATOR then [] else take (length it - length it') it) @ strip_separators it'
        else [])"
  by pat_completeness auto
termination
  by (relation "measure length") (auto dest: GetOp2_read)

declare strip_separators.simps [simp del]

text \<open>The transaction that a signature commits to, as a copy with fields blanked out.\<close>

definition signed_input :: "CScript \<Rightarrow> nat \<Rightarrow> bool \<Rightarrow> nat \<Rightarrow> CTxIn \<Rightarrow> CTxIn" where
  "signed_input code nIn others_free i txin =
     txin\<lparr>scriptSig := (if i = nIn then strip_separators code else []),
          nSequence := (if i \<noteq> nIn \<and> others_free then 0 else nSequence txin)\<rparr>"

definition signed_tx :: "CScript \<Rightarrow> CTransaction \<Rightarrow> nat \<Rightarrow> int \<Rightarrow> CTransaction" where
  "signed_tx code tx nIn nHashType =
     (let single = (nHashType AND 0x1f = 3); none = (nHashType AND 0x1f = 2);
          inputs = map2 (signed_input code nIn (single \<or> none)) [0..<length (vin tx)] (vin tx)
      in tx\<lparr>vin := (if nHashType AND 0x80 \<noteq> 0 then [inputs ! nIn] else inputs),
            vout := (if none then [] else if single then replicate nIn CTxOut_null @ [vout tx ! nIn] else vout tx)\<rparr>)"

lemma GetOp2_separator:
  "GetOp2 it = (True, OP_CODESEPARATOR, vch, it') \<Longrightarrow> it = OP_CODESEPARATOR # it'"
  by (auto simp: GetOp2_def split: list.splits if_splits option.splits)

lemma write_code_strip:
  assumes "script_ops it = Some ops" and "itBegin = pre @ it"
  shows "write_code itBegin it = pre @ strip_separators it \<and>
    length it = nCodeSeparators it + length (strip_separators it)"
  using assms
proof (induction "length it" arbitrary: it ops itBegin pre rule: less_induct)
  case less
  obtain ok opcode vch it' where op: "GetOp2 it = (ok, opcode, vch, it')" by (metis prod_cases4)
  show ?case
  proof (cases "it = []")
    case True
    then show ?thesis using less.prems
      by (simp add: write_code.simps [of pre "[]"] strip_separators.simps nCodeSeparators.simps GetOp2_def)
  next
    case False
    obtain ops' where ok: "ok" and ops: "script_ops it' = Some ops'"
      using less.prems(1) False op by (auto simp: script_ops.simps [of it] split: if_splits)
    have len: "length it' < length it" using GetOp2_shrinks [OF op False] .
    obtain q where q: "it = q @ it'" using GetOp2_suffix [OF op] by blast
    show ?thesis
    proof (cases "opcode = OP_CODESEPARATOR")
      case True
      then have it: "it = OP_CODESEPARATOR # it'" using GetOp2_separator op ok by simp
      have "write_code it' it' = strip_separators it' \<and> length it' = nCodeSeparators it' + length (strip_separators it')"
        using less.hyps [OF len ops, of it' "[]"] by simp
      moreover have "take (length itBegin - length it' - 1) itBegin = pre" "length it = Suc (length it')"
        using it less.prems(2) by simp_all
      ultimately show ?thesis
        using op ok True
        by (simp add: write_code.simps [of itBegin it] strip_separators.simps [of it] nCodeSeparators.simps [of it])
    next
      case False
      have "itBegin = (pre @ q) @ it'" using less.prems(2) q by simp
      note IH = less.hyps [OF len ops this]
      have "take (length it - length it') it = q" "length it = length q + length it'" using q by simp_all
      with IH show ?thesis
        using op ok False
        by (simp add: write_code.simps [of itBegin it] strip_separators.simps [of it] nCodeSeparators.simps [of it])
    qed
  qed
qed

lemma SerializeScriptCode_strip:
  "script_ops code = Some ops \<Longrightarrow> SerializeScriptCode code = Serialize_blob (strip_separators code)"
  using write_code_strip [of code ops code "[]"] by (simp add: SerializeScriptCode_def Serialize_blob_def)

lemma Serialize_i32_0: "Serialize_i32 0 = Serialize_u32 0"
  by (simp add: Serialize_i32_def)

lemma SerializeInput_signed:
  assumes "script_ops code = Some ops" and "ss = CTransactionSignatureSerializer tx code nIn nHashType"
    and "i < length (vin tx)" and "nHashType AND 0x80 = 0 \<or> i = nIn"
  shows "SerializeInput ss i =
    Serialize_CTxIn (signed_input code nIn (nHashType AND 0x1f = 3 \<or> nHashType AND 0x1f = 2) i (vin tx ! i))"
  using assms(2-4) SerializeScriptCode_strip [OF assms(1)]
  by (auto simp: SerializeInput_def Serialize_CTxIn_def signed_input_def CTransactionSignatureSerializer_def
      Let_def Serialize_i32_0 SIGHASH_SINGLE_def SIGHASH_NONE_def SIGHASH_ANYONECANPAY_def)

lemma SignatureSerialize_signed:
  assumes code: "script_ops code = Some ops" and nIn: "nIn < length (vin tx)"
    and single: "nHashType AND 0x1f = 3 \<longrightarrow> nIn < length (vout tx)"
    and ss: "ss = CTransactionSignatureSerializer tx code nIn nHashType"
  shows "SignatureSerialize ss = Serialize_CTransaction (signed_tx code tx nIn nHashType)"
proof -
  define free where "free \<longleftrightarrow> nHashType AND 0x1f = 3 \<or> nHashType AND 0x1f = 2"
  define inputs where "inputs = map2 (signed_input code nIn free) [0..<length (vin tx)] (vin tx)"
  have fields: "ss_txTo ss = tx" "ss_nIn ss = nIn" "fAnyoneCanPay ss \<longleftrightarrow> nHashType AND 0x80 \<noteq> 0"
    "fHashSingle ss \<longleftrightarrow> nHashType AND 0x1f = 3" "fHashNone ss \<longleftrightarrow> nHashType AND 0x1f = 2"
    by (simp_all add: ss CTransactionSignatureSerializer_def SIGHASH_SINGLE_def SIGHASH_NONE_def SIGHASH_ANYONECANPAY_def)
  have inp: "inputs ! i = signed_input code nIn free i (vin tx ! i)" if "i < length (vin tx)" for i
    using that by (simp add: inputs_def)
  have vin: "WriteCompactSize (of_nat (if fAnyoneCanPay ss then 1 else length (vin tx))) @
      concat (map (SerializeInput ss) [0..<if fAnyoneCanPay ss then 1 else length (vin tx)]) =
    Serialize_vector Serialize_CTxIn (if nHashType AND 0x80 \<noteq> 0 then [inputs ! nIn] else inputs)"
  proof (cases "nHashType AND 0x80 \<noteq> 0")
    case True
    have "SerializeInput ss 0 = SerializeInput ss nIn" using True fields by (simp add: SerializeInput_def)
    then show ?thesis
      using True fields inp [OF nIn] SerializeInput_signed [OF code ss nIn] by (simp add: Serialize_vector_def free_def)
  next
    case False
    have "map (SerializeInput ss) [0..<length (vin tx)] = map Serialize_CTxIn inputs"
    proof (rule nth_equalityI)
      fix i
      assume "i < length (map (SerializeInput ss) [0..<length (vin tx)])"
      then have i: "i < length (vin tx)" by simp
      show "map (SerializeInput ss) [0..<length (vin tx)] ! i = map Serialize_CTxIn inputs ! i"
        using i inp [OF i] SerializeInput_signed [OF code ss i] False by (simp add: free_def inputs_def)
    qed (simp add: inputs_def)
    then show ?thesis using False fields by (simp add: Serialize_vector_def inputs_def)
  qed
  define outputs where "outputs = (if nHashType AND 0x1f = 2 then [] else if nHashType AND 0x1f = 3
      then replicate nIn CTxOut_null @ [vout tx ! nIn] else vout tx)"
  have vout: "WriteCompactSize (of_nat (if fHashNone ss then 0 else if fHashSingle ss then nIn + 1 else length (vout tx))) @
      concat (map (SerializeOutput ss) [0..<if fHashNone ss then 0 else if fHashSingle ss then nIn + 1 else length (vout tx)]) =
    Serialize_vector Serialize_CTxOut outputs"
  proof (cases "nHashType AND 0x1f = 3")
    case True
    have "map (SerializeOutput ss) [0..<nIn] = map (\<lambda>_. Serialize_CTxOut CTxOut_null) [0..<nIn]"
      using True fields by (auto simp: SerializeOutput_def)
    then show ?thesis
      using True fields by (simp add: Serialize_vector_def outputs_def SerializeOutput_def map_replicate_const)
  next
    case False
    have "map (SerializeOutput ss) [0..<length (vout tx)] = map Serialize_CTxOut (vout tx)"
      by (rule nth_equalityI) (use False fields in \<open>simp_all add: SerializeOutput_def\<close>)
    then show ?thesis using False fields by (simp add: Serialize_vector_def outputs_def)
  qed
  have "signed_tx code tx nIn nHashType =
      tx\<lparr>vin := (if nHashType AND 0x80 \<noteq> 0 then [inputs ! nIn] else inputs), vout := outputs\<rparr>"
    by (simp add: signed_tx_def Let_def inputs_def outputs_def free_def)
  then show ?thesis
    using vin vout unfolding SignatureSerialize_def Serialize_CTransaction_def Let_def fields(1,2)
    by (simp only: append_assoc [symmetric]) simp
qed

section \<open>Properties of the signature hash\<close>

text \<open>C18: what a signature commits to.  For an input in range and a script code that can be read to its end,
  the in-place serializer hashes exactly the serialization of a copy of the transaction in which the script
  of the signed input is the script code without its separators and the other scripts are empty; with
  \<open>SIGHASH_NONE\<close> and \<open>SIGHASH_SINGLE\<close> the other sequence numbers are zero and the outputs are dropped or
  nulled up to the signed index; with \<open>SIGHASH_ANYONECANPAY\<close> only the signed input remains; followed by
  the hash type.\<close>

theorem SignatureHash_commits:
  assumes "script_ops code = Some ops" and "nIn < length (vin tx)"
    and "nHashType AND 0x1f = 3 \<longrightarrow> nIn < length (vout tx)"
  shows "SignatureHash code tx nIn nHashType =
    fips_sha256 (fips_sha256 (Serialize_CTransaction (signed_tx code tx nIn nHashType) @ Serialize_i32 nHashType))"
proof -
  have w: "CHashWriter_write = CHash256_Write" by (simp add: CHashWriter_write_def fun_eq_iff)
  have "\<not> length (vin tx) \<le> nIn" "\<not> (nHashType AND 0x1f = uint SIGHASH_SINGLE \<and> length (vout tx) \<le> nIn)"
    using assms(2,3) by (auto simp: SIGHASH_SINGLE_def)
  then show ?thesis
    using CHash256_digest_of [of "[SignatureSerialize (CTransactionSignatureSerializer tx code nIn nHashType), Serialize_i32 nHashType]"]
      SignatureSerialize_signed [OF assms refl]
    by (auto simp: SignatureHash_def w CHashWriter_GetHash_def)
qed

definition example_tx :: CTransaction where
  "example_tx =
     \<lparr>tx_hash = base_uint_zero 8, tx_nVersion = 1,
      vin = [\<lparr>prevout = COutPoint_null, scriptSig = [OP_1], nSequence = 5, prevPubKey = []\<rparr>,
             \<lparr>prevout = COutPoint_null, scriptSig = [OP_2], nSequence = 6, prevPubKey = []\<rparr>],
      vout = [CTxOut_new 7 [OP_1]], nLockTime = 0\<rparr>"

theorem SignatureHash_commits_witness:
  "SignatureHash [OP_DUP, OP_CODESEPARATOR, OP_CHECKSIG] example_tx 1 1 =
     fips_sha256 (fips_sha256
       (Serialize_CTransaction (signed_tx [OP_DUP, OP_CODESEPARATOR, OP_CHECKSIG] example_tx 1 1) @ Serialize_i32 1))"
proof -
  have "script_ops [OP_DUP, OP_CODESEPARATOR, OP_CHECKSIG] = Some [OP_DUP, OP_CODESEPARATOR, OP_CHECKSIG]" by code_simp
  from SignatureHash_commits [OF this, of 1 example_tx 1] show ?thesis by (simp add: example_tx_def)
qed

section \<open>Single steps of the evaluation\<close>

lemma eval_loop_Nil: "eval_loop flags checker [] st = Inr st"
  by (simp add: eval_loop.simps)

lemma eval_loop_push_step:
  assumes "2 \<le> length d" "length d \<le> 75" and "vfExec st = []"
  shows "eval_loop flags checker (push_vch d @ rest) st =
    (if length (stk st) + length (altstk st) < 1000 then eval_loop flags checker rest (st\<lparr>stk := d # stk st\<rparr>)
     else Inl SCRIPT_ERR_STACK_SIZE)"
proof -
  have u: "unat (of_nat (length d) :: byte) = length d" using assms(2) by (intro unat_small) simp
  have push: "push_vch d @ rest = of_nat (length d) # d @ rest" using assms(2) by (simp add: push_vch_def)
  have small: "(of_nat (length d) :: byte) < OP_PUSHDATA1" "(of_nat (length d) :: byte) \<le> OP_PUSHDATA4"
    "\<not> (of_nat (length d) :: byte) > OP_16"
    using u assms(2) by (simp_all add: word_less_nat_alt word_le_nat_alt)
  have op: "GetOp2 (of_nat (length d) # d @ rest) = (True, of_nat (length d), d, rest)"
    using small u by (simp add: GetOp2_def push_size_def)
  have "\<not> disabled_opcode (of_nat (length d))"
    using small(3) by (auto simp: disabled_opcode_def)
  moreover have "CheckMinimalPush d (of_nat (length d))" using assms(1,2) u by (auto simp: CheckMinimalPush_def)
  ultimately have "eval_step flags checker (of_nat (length d)) d rest st =
      (if length (stk st) + length (altstk st) < 1000 then Inr (st\<lparr>stk := d # stk st\<rparr>) else Inl SCRIPT_ERR_STACK_SIZE)"
    using assms small by (simp add: eval_step_def count_op_def run_op_def set_stk_def)
  then show ?thesis unfolding push by (simp add: eval_loop.simps [of _ _ "_ # _"] op)
qed

lemmas eval_loop_push = eval_loop_push_step [THEN trans, OF _ _ _ if_P]
lemmas eval_loop_push_full = eval_loop_push_step [THEN trans, OF _ _ _ if_not_P]

lemma eval_loop_op:
  assumes "opcode > OP_16" and "vfExec st = []" and "nOpCount st < 201" and "\<not> disabled_opcode opcode"
  shows "eval_loop flags checker (opcode # rest) st =
    rbind (exec_op flags checker True opcode rest (st\<lparr>nOpCount := nOpCount st + 1\<rparr>)) (\<lambda>st'.
      if length (stk st') + length (altstk st') > 1000 then Inl SCRIPT_ERR_STACK_SIZE
      else eval_loop flags checker rest st')"
proof -
  have big: "\<not> opcode \<le> OP_PUSHDATA4" using assms(1) by (simp add: word_le_nat_alt word_less_nat_alt)
  then have op: "GetOp2 (opcode # rest) = (True, opcode, [], rest)" by (simp add: GetOp2_def)
  have step: "eval_step flags checker opcode [] rest st =
      rbind (exec_op flags checker True opcode rest (st\<lparr>nOpCount := nOpCount st + 1\<rparr>)) (\<lambda>st'.
        if length (stk st') + length (altstk st') > 1000 then Inl SCRIPT_ERR_STACK_SIZE else Inr st')"
    using assms big by (simp add: eval_step_def count_op_def run_op_def Let_def)
  show ?thesis
    by (simp add: eval_loop.simps [of _ _ "_ # _"] op step)
      (cases "exec_op flags checker True opcode rest (st\<lparr>nOpCount := nOpCount st + 1\<rparr>)", simp_all)
qed

lemma exec_op_payment:
  "exec_op flags checker True OP_DUP pc st = op_stack flags OP_DUP st"
  "exec_op flags checker True OP_HASH160 pc st = op_crypto OP_HASH160 st"
  "exec_op flags checker True OP_EQUAL pc st = op_equal OP_EQUAL st"
  "exec_op flags checker True OP_EQUALVERIFY pc st = op_equal OP_EQUALVERIFY st"
  "exec_op flags checker True OP_CHECKSIG pc st = op_checksig flags checker OP_CHECKSIG st"
  by (simp_all add: exec_op_def)

lemma enabled_payment:
  "\<not> disabled_opcode OP_DUP" "\<not> disabled_opcode OP_HASH160" "\<not> disabled_opcode OP_EQUAL"
  "\<not> disabled_opcode OP_EQUALVERIFY" "\<not> disabled_opcode OP_CHECKSIG"
  by (simp_all add: disabled_opcode_def)

lemmas payment_simps = eval_loop_op exec_op_payment enabled_payment set_stk_def op_crypto_digest

lemma EvalScript_two_pushes:
  assumes "2 \<le> length sig" "length sig \<le> 75" "2 \<le> length key" "length key \<le> 75"
  shows "EvalScript flags checker (push_vch sig @ push_vch key) [] = Inr [key, sig]"
proof -
  have "length (push_vch sig @ push_vch key) \<le> 10000" using assms by (simp add: push_vch_def)
  moreover have "eval_loop flags checker (push_vch sig @ push_vch key) (eval_start [] (push_vch sig @ push_vch key)) =
      Inr ((eval_start [] (push_vch sig @ push_vch key))\<lparr>stk := [key, sig]\<rparr>)"
    using eval_loop_push [OF assms(1,2), of "eval_start [] (push_vch sig @ push_vch key)" flags checker "push_vch key"]
      eval_loop_push [OF assms(3,4), of "(eval_start [] (push_vch sig @ push_vch key))\<lparr>stk := [sig]\<rparr>" flags checker "[]"]
    by (simp add: eval_start_def eval_loop_Nil)
  ultimately show ?thesis by (simp add: EvalScript_def eval_start_def)
qed

definition p2pkh :: "bytes \<Rightarrow> CScript" where
  "p2pkh h = [OP_DUP, OP_HASH160] @ push_vch h @ [OP_EQUALVERIFY, OP_CHECKSIG]"

lemma EvalScript_p2pkh:
  assumes "length h = 20"
  shows "EvalScript flags checker (p2pkh h) [key, sig] =
    (if ripemd160 (fips_sha256 key) \<noteq> h then Inl SCRIPT_ERR_EQUALVERIFY
     else rbind (CheckSignatureEncoding flags sig) (\<lambda>_. rbind (CheckPubKeyEncoding flags key) (\<lambda>_.
       Inr [bool_vch (checker sig key (snd (FindAndDelete (push_vch sig) (p2pkh h))))])))"
proof -
  let ?st = "eval_start [key, sig] (p2pkh h)"
  let ?hash = "ripemd160 (fips_sha256 key)"
  have len: "length (p2pkh h) \<le> 10000" using assms by (simp add: p2pkh_def push_vch_def)
  have h: "2 \<le> length h" "length h \<le> 75" using assms by simp_all
  have "eval_loop flags checker (p2pkh h) ?st =
      eval_loop flags checker (push_vch h @ [OP_EQUALVERIFY, OP_CHECKSIG]) (?st\<lparr>stk := [?hash, key, sig], nOpCount := Suc (Suc 0)\<rparr>)"
    by (simp add: p2pkh_def eval_start_def payment_simps op_stack_def)
  also have "\<dots> = eval_loop flags checker [OP_EQUALVERIFY, OP_CHECKSIG] (?st\<lparr>stk := [h, ?hash, key, sig], nOpCount := Suc (Suc 0)\<rparr>)"
    using eval_loop_push [OF h, of "?st\<lparr>stk := [?hash, key, sig], nOpCount := Suc (Suc 0)\<rparr>"] by (simp add: eval_start_def)
  finally have loop: "eval_loop flags checker (p2pkh h) ?st =
      eval_loop flags checker [OP_EQUALVERIFY, OP_CHECKSIG] (?st\<lparr>stk := [h, ?hash, key, sig], nOpCount := Suc (Suc 0)\<rparr>)" .
  show ?thesis
  proof (cases "?hash = h")
    case True
    show ?thesis
      using True len unfolding EvalScript_def loop
      by (cases "CheckSignatureEncoding flags sig"; cases "CheckPubKeyEncoding flags key")
        (simp_all add: eval_start_def payment_simps op_equal_def op_checksig_def eval_loop_Nil)
  next
    case False
    then show ?thesis
      using len unfolding EvalScript_def loop by (simp add: eval_start_def payment_simps op_equal_def)
  qed
qed

lemma IsPushOnly_two_pushes:
  assumes "2 \<le> length sig" "length sig \<le> 75" "2 \<le> length key" "length key \<le> 75"
  shows "IsPushOnly (push_vch sig @ push_vch key)"
proof -
  have push: "IsPushOnly_from (push_vch d @ rest) \<longleftrightarrow> IsPushOnly_from rest" if "2 \<le> length d" "length d \<le> 75" for d rest
  proof -
    have "length d < 2 ^ 32" using that by simp
    then obtain opcode where op: "GetOp2 (push_vch d @ rest) = (True, opcode, d, rest)" "opcode \<le> OP_PUSHDATA4"
      using GetOp2_push by blast
    have "push_vch d @ rest \<noteq> []" using that by (simp add: push_vch_def)
    moreover have "\<not> opcode > OP_16" using op(2) by (simp add: word_le_nat_alt word_less_nat_alt)
    ultimately show ?thesis using op(1) by (simp add: IsPushOnly_from.simps [of "push_vch d @ rest"])
  qed
  show ?thesis
    using push [OF assms(1,2), of "push_vch key"] push [OF assms(3,4), of "[]"]
    by (simp add: IsPushOnly_def IsPushOnly_from.simps)
qed

section \<open>Properties of verification\<close>

text \<open>C15: payment to a public-key hash.  A script that pushes a signature and a key (of 2 to 75 bytes each)
  is verified against \<open>DUP HASH160 h EQUALVERIFY CHECKSIG\<close> with exactly this outcome, for all flags: the
  key does not hash to \<open>h\<close> and \<open>EQUALVERIFY\<close> fails; or an encoding that the flags demand is violated, with
  the error of the check; or the checker accepts the signature for the script without the signature, and
  the verification succeeds, or the result is false.\<close>

theorem VerifyScript_p2pkh:
  assumes "length h = 20" and "2 \<le> length sig" "length sig \<le> 75" "2 \<le> length key" "length key \<le> 75"
  shows "VerifyScript flags checker (push_vch sig @ push_vch key) (p2pkh h) =
    Some (if ripemd160 (fips_sha256 key) \<noteq> h then Inl SCRIPT_ERR_EQUALVERIFY
          else rbind (CheckSignatureEncoding flags sig) (\<lambda>_. rbind (CheckPubKeyEncoding flags key) (\<lambda>_.
            if checker sig key (snd (FindAndDelete (push_vch sig) (p2pkh h))) then Inr ()
            else Inl SCRIPT_ERR_EVAL_FALSE)))"
proof -
  have "\<not> IsPayToScriptHash (p2pkh h)" using assms(1) by (simp add: IsPayToScriptHash_def p2pkh_def push_vch_def)
  moreover have "CastToBool (bool_vch b) \<longleftrightarrow> b" for b by (simp add: bool_vch_def vchTrue_def vchFalse_def)
  ultimately show ?thesis
    using EvalScript_two_pushes [OF assms(2-5), of flags checker] EvalScript_p2pkh [OF assms(1), of flags checker key sig]
      IsPushOnly_two_pushes [OF assms(2-5)]
    by (cases "CheckSignatureEncoding flags sig"; cases "CheckPubKeyEncoding flags key") (simp_all add: VerifyScript_def)
qed

theorem VerifyScript_p2pkh_witness:
  "VerifyScript 0 (\<lambda>_ _ _. True) (push_vch [1, 2, 3] @ push_vch (replicate 33 2))
     (p2pkh (ripemd160 (fips_sha256 (replicate 33 2)))) = Some (Inr ())"
proof -
  have enc: "CheckSignatureEncoding 0 [1, 2, 3] = Inr ()" "CheckPubKeyEncoding 0 (replicate 33 2) = Inr ()"
    by (simp_all add: CheckSignatureEncoding_def CheckPubKeyEncoding_def)
  show ?thesis
    using VerifyScript_p2pkh [of "ripemd160 (fips_sha256 (replicate 33 2))" "[1, 2, 3]" "replicate 33 2" 0 "\<lambda>_ _ _. True"]
    by (simp add: length_ripemd160 enc del: replicate.simps)
qed

lemma IsPayToScriptHash_shape:
  assumes "IsPayToScriptHash spk"
  shows "\<exists>h. length h = 20 \<and> spk = OP_HASH160 # push_vch h @ [OP_EQUAL] \<and> h = take 20 (drop 2 spk)"
proof -
  obtain a b c d where "spk = a # b # c @ [d]" "length c = 20"
  proof -
    have len: "length spk = 23" using assms by (simp add: IsPayToScriptHash_def)
    obtain a b t where t: "spk = a # b # t" "length t = 21" using len by (auto simp: length_Suc_conv eval_nat_numeral)
    obtain c d where c: "t = c @ [d]" using t(2) by (cases t rule: rev_cases) auto
    show thesis using that [of a b c d] t c by simp
  qed
  then show ?thesis using assms by (auto simp: IsPayToScriptHash_def push_vch_def nth_append)
qed

lemma EvalScript_p2sh:
  assumes "length h = 20" and "length stack \<le> 1000"
  shows "EvalScript flags checker (OP_HASH160 # push_vch h @ [OP_EQUAL]) stack =
    (case stack of
       [] \<Rightarrow> Inl SCRIPT_ERR_INVALID_STACK_OPERATION
     | x # s \<Rightarrow> if length s < 999 then Inr (bool_vch (ripemd160 (fips_sha256 x) = h) # s) else Inl SCRIPT_ERR_STACK_SIZE)"
proof (cases stack)
  case Nil
  then show ?thesis
    using assms(1) by (simp add: EvalScript_def eval_start_def push_vch_def payment_simps)
next
  case (Cons x s)
  let ?script = "OP_HASH160 # push_vch h @ [OP_EQUAL]"
  let ?st = "\<lparr>stk = ripemd160 (fips_sha256 x) # s, altstk = [], vfExec = [], nOpCount = Suc 0, codehash = ?script\<rparr>"
  have len: "length ?script \<le> 10000" using assms(1) by (simp add: push_vch_def)
  have h: "2 \<le> length h" "length h \<le> 75" using assms(1) by simp_all
  have loop: "eval_loop flags checker ?script (eval_start stack ?script) =
      eval_loop flags checker (push_vch h @ [OP_EQUAL]) ?st"
    using assms(2) Cons by (simp add: eval_start_def payment_simps)
  show ?thesis
  proof (cases "length s < 999")
    case True
    have "eval_loop flags checker (push_vch h @ [OP_EQUAL]) ?st =
        eval_loop flags checker [OP_EQUAL] (?st\<lparr>stk := h # ripemd160 (fips_sha256 x) # s\<rparr>)"
      using eval_loop_push [OF h, of ?st] True by simp
    also have "\<dots> = Inr (?st\<lparr>stk := bool_vch (ripemd160 (fips_sha256 x) = h) # s, nOpCount := Suc (Suc 0)\<rparr>)"
      using True by (simp add: payment_simps op_equal_def eval_loop_Nil)
    finally show ?thesis using True Cons loop len by (simp add: EvalScript_def)
  next
    case False
    have "length s = 999" using False assms(2) Cons by simp
    then have "eval_loop flags checker (push_vch h @ [OP_EQUAL]) ?st = Inl SCRIPT_ERR_STACK_SIZE"
      using eval_loop_push_full [OF h, of ?st] by simp
    then show ?thesis using False Cons loop len by (simp add: EvalScript_def)
  qed
qed

lemma EvalScript_within:
  assumes "EvalScript flags checker script [] = Inr stack"
  shows "length stack \<le> 1000"
proof -
  obtain st where run: "eval_loop flags checker script (eval_start [] script) = Inr st" "stk st = stack"
    using assms by (auto simp: EvalScript_def result_iff split: if_splits)
  have "within_limits (eval_start [] script)" by (simp add: eval_start_def within_limits_def small_elements_def)
  then show ?thesis using eval_loop_effect [OF run(1)] run(2) by (auto simp: within_limits_def)
qed

text \<open>C12: payment to a script hash.  When the flag is set, an output of the form \<open>HASH160 h EQUAL\<close> is spent
  exactly by a script that only pushes data, whose last pushed element hashes to \<open>h\<close> and, evaluated as a
  script on the elements below it, succeeds with a true element on top.  The assertion that the saved
  stack is not empty never fails, for any scripts and flags.\<close>

theorem VerifyScript_p2sh:
  assumes "flags AND SCRIPT_VERIFY_P2SH \<noteq> 0" and "IsPayToScriptHash spk"
  shows "(VerifyScript flags checker ssig spk = Some (Inr ()) \<longleftrightarrow>
      IsPushOnly ssig \<and>
      (\<exists>redeem rest vch s. EvalScript flags checker ssig [] = Inr (redeem # rest) \<and> length rest < 999 \<and>
         ripemd160 (fips_sha256 redeem) = take 20 (drop 2 spk) \<and>
         EvalScript flags checker redeem rest = Inr (vch # s) \<and> CastToBool vch)) \<and>
    VerifyScript flags checker ssig spk \<noteq> None"
proof -
  obtain h where h: "length h = 20" "spk = OP_HASH160 # push_vch h @ [OP_EQUAL]" "h = take 20 (drop 2 spk)"
    using IsPayToScriptHash_shape [OF assms(2)] by blast
  show ?thesis
  proof (cases "EvalScript flags checker ssig []")
    case (Inr stack)
    note spk = EvalScript_p2sh [OF h(1) EvalScript_within [OF Inr], of flags checker, folded h(2)]
    have bool: "CastToBool (bool_vch b) \<longleftrightarrow> b" for b by (simp add: bool_vch_def vchTrue_def vchFalse_def)
    show ?thesis
    proof (cases stack)
      case Nil
      then show ?thesis using Inr spk by (simp add: VerifyScript_def)
    next
      case (Cons redeem rest)
      note defs = spk [unfolded Cons] Inr [unfolded Cons] assms bool VerifyScript_def h(3) [symmetric]
      show ?thesis
      proof (cases "EvalScript flags checker redeem rest")
        case (Inr res)
        then show ?thesis by (cases res) (simp_all add: defs)
      qed (simp add: defs)
    qed
  qed (simp add: VerifyScript_def)
qed

theorem VerifyScript_p2sh_witness:
  "VerifyScript SCRIPT_VERIFY_P2SH (\<lambda>_ _ _. False) [1, OP_1]
     (OP_HASH160 # 0x14 # ripemd160 (fips_sha256 [OP_1]) @ [OP_EQUAL]) = Some (Inr ())"
proof -
  let ?h = "ripemd160 (fips_sha256 [OP_1])"
  have "EvalScript SCRIPT_VERIFY_P2SH (\<lambda>_ _ _. False) [1, OP_1] [] = Inr [[OP_1]]"
    "EvalScript SCRIPT_VERIFY_P2SH (\<lambda>_ _ _. False) [OP_1] [] = Inr [[1]]"
    "IsPushOnly [1, OP_1]" "CastToBool [1]" "SCRIPT_VERIFY_P2SH AND SCRIPT_VERIFY_P2SH \<noteq> 0" by code_simp+
  moreover have "IsPayToScriptHash (OP_HASH160 # 0x14 # ?h @ [OP_EQUAL])"
    by (simp add: IsPayToScriptHash_def nth_append length_ripemd160)
  ultimately show ?thesis
    using VerifyScript_p2sh [of SCRIPT_VERIFY_P2SH "OP_HASH160 # 0x14 # ?h @ [OP_EQUAL]" "\<lambda>_ _ _. False" "[1, OP_1]"]
    by (simp add: length_ripemd160)
qed

text \<open>C16: multiple signatures.  With \<open>m\<close> signatures and \<open>n\<close> keys on the stack in the required layout and
  encodings that the flags accept, \<open>OP_CHECKMULTISIG\<close> pushes true exactly when the signatures can be
  matched with distinct keys in the same order, although the loop tries each key once and stops as soon
  as too few keys are left; it consumes its arguments and one element more, and counts the keys as
  operations.\<close>

theorem CHECKMULTISIG_matches:
  assumes "stk st = CScriptNum_serialize (int (length keys)) # keys @
      CScriptNum_serialize (int (length sigs)) # sigs @ dummy # below"
    and "length sigs \<le> length keys" "length keys \<le> 20" "nOpCount st + length keys \<le> 201"
    and "\<forall>sig \<in> set sigs. CheckSignatureEncoding flags sig = Inr ()"
    and "\<forall>key \<in> set keys. CheckPubKeyEncoding flags key = Inr ()"
    and "flags AND SCRIPT_VERIFY_NULLDUMMY = 0 \<or> dummy = []"
  shows "op_checkmultisig flags checker OP_CHECKMULTISIG st =
    (let code = fold (\<lambda>sig code. snd (FindAndDelete (push_vch sig) code)) sigs (codehash st)
     in Inr (st\<lparr>stk := bool_vch (\<exists>ks. subseq ks keys \<and> list_all2 (\<lambda>sig key. checker sig key code) sigs ks) # below,
                nOpCount := nOpCount st + length keys\<rparr>))"
proof -
  have num: "stack_num flags (CScriptNum_serialize (int k)) = Inr (int k)" "getint (int k) = int k" if "k \<le> 20" for k
    using that length_serialize [of "int k" 0] minimal_serialize [of "int k"] set_vch_serialize [of "int k"]
    by (simp_all add: stack_num_def CScriptNum_def getint_def)
  have "multisig_args flags st = Inr (sigs, keys, nOpCount st + length keys, dummy # below)"
    using assms(1-4) num by (simp add: multisig_args_def nth_append Let_def)
  then show ?thesis
    using multisig_loop_matches [of sigs flags keys checker] assms(5-7)
    by (auto simp: op_checkmultisig_def Let_def sigs_match_def)
qed

theorem CHECKMULTISIG_matches_witness:
  "op_checkmultisig 0 (\<lambda>sig key code. sig = key) OP_CHECKMULTISIG
     \<lparr>stk = [[2], [1], [3], [1], [3], []], altstk = [], vfExec = [], nOpCount = 0, codehash = []\<rparr> =
   Inr \<lparr>stk = [bool_vch (\<exists>ks. subseq ks [[1 :: byte], [3]] \<and> list_all2 (\<lambda>sig key. sig = key) [[3]] ks)],
        altstk = [], vfExec = [], nOpCount = 2, codehash = []\<rparr>"
proof -
  have n: "CScriptNum_serialize 2 = [2]" "CScriptNum_serialize 1 = [1]" by code_simp+
  show ?thesis
    using CHECKMULTISIG_matches [of "\<lparr>stk = [[2], [1], [3], [1], [3], []], altstk = [], vfExec = [], nOpCount = 0, codehash = []\<rparr>"
        "[[1], [3]]" "[[3]]" "[]" "[]" 0 "\<lambda>sig key code. sig = key"]
    by (simp add: n CheckSignatureEncoding_def CheckPubKeyEncoding_def numeral_2_eq_2 Let_def)
qed

end
