(* ===== verification/Merkle.thy ===== *)
theory Merkle
  imports Hash
begin

text \<open>
  Merkle trees: \<^verbatim>\<open>CBlock::BuildMerkleTree\<close>, \<^verbatim>\<open>GetMerkleBranch\<close> and
  \<^verbatim>\<open>CheckMerkleBranch\<close> of \<^verbatim>\<open>src/src/primitives/block.cpp\<close>, and the partial
  trees of \<^verbatim>\<open>src/src/merkleblock.h\<close> and \<^verbatim>\<open>src/src/merkleblock.cpp\<close>.  A
  \<^verbatim>\<open>uint256\<close> is the 32 bytes it has in memory.  The code keeps all rows of the tree
  in one vector and addresses them by offsets; the reference is the list of its rows.  Block sizes are far
  below the range of \<^verbatim>\<open>int\<close>, so sizes and indices are natural numbers.
\<close>

abbreviation uint256_zero :: bytes where "uint256_zero \<equiv> replicate 32 0"

definition MAX_BLOCK_SIZE :: nat where "MAX_BLOCK_SIZE = 4000000"

definition Hash2 :: "bytes \<Rightarrow> bytes \<Rightarrow> bytes" where
  "Hash2 l r = Hash_ranges [l, r]"

lemma length_Hash2 [simp]: "length (Hash2 l r) = 32"
  using CHash256_digest_of [of "[l, r]"] by (simp add: Hash2_def Hash_ranges_def length_fips_sha256)

section \<open>The tree of a block\<close>

text \<open>One row: \<open>j\<close> is the offset of the row, \<open>nSize\<close> its length, \<open>i\<close> the index of the next pair.\<close>

function merkle_row :: "nat \<Rightarrow> nat \<Rightarrow> nat \<Rightarrow> bytes list \<Rightarrow> bool \<Rightarrow> bytes list \<times> bool" where
  "merkle_row j nSize i vMerkleTree mutated =
     (if i < nSize then
        (let i2 = min (i + 1) (nSize - 1);
             mutated' = (if i2 = i + 1 \<and> i2 + 1 = nSize \<and> vMerkleTree ! (j + i) = vMerkleTree ! (j + i2) then True else mutated)
         in merkle_row j nSize (i + 2) (vMerkleTree @ [Hash2 (vMerkleTree ! (j + i)) (vMerkleTree ! (j + i2))]) mutated')
      else (vMerkleTree, mutated))"
  by pat_completeness auto
termination
  by (relation "measure (\<lambda>(j, nSize, i, t, m). nSize - i)") auto

function merkle_rows :: "nat \<Rightarrow> nat \<Rightarrow> bytes list \<Rightarrow> bool \<Rightarrow> bytes list \<times> bool" where
  "merkle_rows j nSize vMerkleTree mutated =
     (if nSize > 1 then
        (case merkle_row j nSize 0 vMerkleTree mutated of
           (vMerkleTree', mutated') \<Rightarrow> merkle_rows (j + nSize) ((nSize + 1) div 2) vMerkleTree' mutated')
      else (vMerkleTree, mutated))"
  by pat_completeness auto
termination
  by (relation "measure (\<lambda>(j, nSize, t, m). nSize)") auto

declare merkle_row.simps [simp del] merkle_rows.simps [simp del]

text \<open>The root, the mutation flag and the vector \<open>vMerkleTree\<close> the call leaves in the block, from the
  hashes of its transactions.\<close>

definition BuildMerkleTree :: "bytes list \<Rightarrow> bytes \<times> bool \<times> bytes list" where
  "BuildMerkleTree vtx =
     (case merkle_rows 0 (length vtx) vtx False of
        (vMerkleTree, mutated) \<Rightarrow>
          (if vMerkleTree = [] then uint256_zero else last vMerkleTree, mutated, vMerkleTree))"

function merkle_branch_loop :: "bytes list \<Rightarrow> nat \<Rightarrow> nat \<Rightarrow> nat \<Rightarrow> bytes list \<Rightarrow> bytes list" where
  "merkle_branch_loop vMerkleTree j nSize nIndex vMerkleBranch =
     (if nSize > 1 then
        (let i = min (nIndex XOR 1) (nSize - 1)
         in merkle_branch_loop vMerkleTree (j + nSize) ((nSize + 1) div 2) (drop_bit 1 nIndex)
              (vMerkleBranch @ [vMerkleTree ! (j + i)]))
      else vMerkleBranch)"
  by pat_completeness auto
termination
  by (relation "measure (\<lambda>(t, j, nSize, k, b). nSize)") auto

declare merkle_branch_loop.simps [simp del]

text \<open>The tree that the block keeps, built when there is none.\<close>

definition GetMerkleBranch :: "bytes list \<Rightarrow> bytes list \<Rightarrow> nat \<Rightarrow> bytes list" where
  "GetMerkleBranch vMerkleTree vtx nIndex =
     (let vMerkleTree = (if vMerkleTree = [] then snd (snd (BuildMerkleTree vtx)) else vMerkleTree)
      in merkle_branch_loop vMerkleTree 0 (length vtx) nIndex [])"

fun check_branch_loop :: "bytes \<Rightarrow> bytes list \<Rightarrow> int \<Rightarrow> bytes" where
  "check_branch_loop hash [] nIndex = hash"
| "check_branch_loop hash (it # its) nIndex =
     check_branch_loop (if nIndex AND 1 \<noteq> 0 then Hash2 it hash else Hash2 hash it) its (drop_bit 1 nIndex)"

definition CheckMerkleBranch :: "bytes \<Rightarrow> bytes list \<Rightarrow> int \<Rightarrow> bytes" where
  "CheckMerkleBranch hash vMerkleBranch nIndex =
     (if nIndex = -1 then uint256_zero else check_branch_loop hash vMerkleBranch nIndex)"

section \<open>The rows of the tree\<close>

fun next_row :: "bytes list \<Rightarrow> bytes list" where
  "next_row [] = []"
| "next_row [x] = [Hash2 x x]"
| "next_row (x # y # xs) = Hash2 x y # next_row xs"

lemma length_next_row [simp]: "length (next_row xs) = (length xs + 1) div 2"
  by (induction xs rule: next_row.induct) auto

lemma next_row_Nil [simp]: "next_row xs = [] \<longleftrightarrow> xs = []"
  by (cases xs rule: next_row.cases) auto

lemma nth_next_row:
  "k < (length xs + 1) div 2 \<Longrightarrow> next_row xs ! k = Hash2 (xs ! (2 * k)) (xs ! min (2 * k + 1) (length xs - 1))"
proof (induction xs arbitrary: k rule: next_row.induct)
  case (3 x y xs)
  show ?case
  proof (cases k)
    case (Suc l)
    then have "min (2 * k + 1) (length (x # y # xs) - 1) = Suc (Suc (min (2 * l + 1) (length xs - 1)))" using "3.prems" by auto
    then show ?thesis using 3 Suc by simp
  qed simp
qed auto

function rows :: "bytes list \<Rightarrow> bytes list list" where
  "rows xs = (if length xs \<le> 1 then [xs] else xs # rows (next_row xs))"
  by pat_completeness auto
termination
  by (relation "measure length") auto

declare rows.simps [simp del]

lemma rows_base [simp]: "length xs \<le> 1 \<Longrightarrow> rows xs = [xs]"
  by (simp add: rows.simps)

lemma rows_step [simp]: "1 < length xs \<Longrightarrow> rows xs = xs # rows (next_row xs)"
  by (simp add: rows.simps)

lemma rows_nonempty [simp]: "rows xs \<noteq> []"
  by (simp add: rows.simps)


definition merkle_root :: "bytes list \<Rightarrow> bytes" where
  "merkle_root xs = hd (last (rows xs))"

lemma merkle_root_single [simp]: "merkle_root [x] = x"
  by (simp add: merkle_root_def)

lemma merkle_root_step: "1 < length xs \<Longrightarrow> merkle_root xs = merkle_root (next_row xs)"
  by (simp add: merkle_root_def)

text \<open>The mark of a duplicated tail: an even row that ends with two equal hashes.\<close>

definition twin_tail :: "bytes list \<Rightarrow> bool" where
  "twin_tail xs \<longleftrightarrow> 2 \<le> length xs \<and> even (length xs) \<and> xs ! (length xs - 2) = xs ! (length xs - 1)"

lemma merkle_row_eq:
  assumes "even i" "length pre = j" "length xs = nSize"
  shows "merkle_row j nSize i (pre @ xs @ acc) m =
    (pre @ xs @ acc @ drop (i div 2) (next_row xs), m \<or> (twin_tail xs \<and> i \<le> nSize - 2))"
  using assms
proof (induction "nSize - i" arbitrary: i acc m rule: less_induct)
  case less
  show ?case
  proof (cases "i < nSize")
    case True
    let ?k = "i div 2" let ?i2 = "min (i + 1) (nSize - 1)"
    have k: "?k < (length xs + 1) div 2" "2 * ?k = i" "(i + 2) div 2 = Suc ?k" using True less.prems by auto
    have drop: "drop ?k (next_row xs) = Hash2 (xs ! i) (xs ! ?i2) # drop (Suc ?k) (next_row xs)"
      using k nth_next_row [OF k(1)] less.prems by (simp add: Cons_nth_drop_Suc [symmetric])
    have nth: "(pre @ xs @ acc) ! (j + a) = xs ! a" if "a < nSize" for a
      using that less.prems by (simp add: nth_append)
    have flag: "(?i2 = i + 1 \<and> ?i2 + 1 = nSize \<and> xs ! i = xs ! ?i2) \<or> (twin_tail xs \<and> i + 2 \<le> nSize - 2) \<longleftrightarrow>
        twin_tail xs \<and> i \<le> nSize - 2" (is "?new \<or> ?late \<longleftrightarrow> _")
    proof (cases "i + 2 = nSize")
      case True
      then have "nSize - 2 = i" "nSize - 1 = Suc i" "?i2 = Suc i" by auto
      then show ?thesis using True less.prems by (auto simp: twin_tail_def)
    next
      case False
      then have "\<not> ?new" by auto
      moreover have "i + 2 \<le> nSize - 2 \<longleftrightarrow> i \<le> nSize - 2" if "twin_tail xs"
        using that False less.prems True by (auto simp: twin_tail_def elim!: evenE) arith
      ultimately show ?thesis by blast
    qed
    have "merkle_row j nSize (i + 2) (pre @ xs @ acc @ [Hash2 (xs ! i) (xs ! ?i2)]) m' =
        (pre @ xs @ (acc @ [Hash2 (xs ! i) (xs ! ?i2)]) @ drop ((i + 2) div 2) (next_row xs),
         m' \<or> (twin_tail xs \<and> i + 2 \<le> nSize - 2))" for m'
      using less.hyps [of "i + 2" "acc @ [Hash2 (xs ! i) (xs ! ?i2)]" m'] True less.prems by simp
    then show ?thesis
      using True flag nth [of i] nth [of ?i2] unfolding merkle_row.simps [of j nSize i] k(3) drop
      by (auto simp: Let_def)
  qed (use less.prems in \<open>auto simp: merkle_row.simps [of j nSize i] twin_tail_def\<close>)
qed

lemma merkle_rows_eq:
  "length pre = j \<Longrightarrow> length xs = nSize \<Longrightarrow>
   merkle_rows j nSize (pre @ xs) m = (pre @ concat (rows xs), m \<or> list_ex twin_tail (rows xs))"
proof (induction nSize arbitrary: pre xs j m rule: less_induct)
  case (less nSize)
  show ?case
  proof (cases "1 < nSize")
    case True
    have "merkle_row j nSize 0 (pre @ xs) m = ((pre @ xs) @ next_row xs, m \<or> twin_tail xs)"
      using merkle_row_eq [of 0 pre j xs nSize "[]" m] less.prems by simp
    then show ?thesis
      using True less.prems less.IH [of "(nSize + 1) div 2" "pre @ xs" "j + nSize" "next_row xs"]
      by (simp add: merkle_rows.simps [of j nSize] disj_ac)
  qed (use less.prems in \<open>auto simp: merkle_rows.simps [of j nSize] twin_tail_def\<close>)
qed

lemma BuildMerkleTree_eq:
  "vtx \<noteq> [] \<Longrightarrow> BuildMerkleTree vtx = (merkle_root vtx, list_ex twin_tail (rows vtx), concat (rows vtx))"
proof -
  assume "vtx \<noteq> []"
  have last: "last (concat (rows xs)) = merkle_root xs \<and> concat (rows xs) \<noteq> []" if "xs \<noteq> []" for xs
    using that
  proof (induction xs rule: rows.induct)
    case (1 xs)
    show ?case
    proof (cases "1 < length xs")
      case True
      then have "next_row xs \<noteq> []" by auto
      then show ?thesis using 1 True by (simp add: merkle_root_step)
    next
      case False
      then show ?thesis using 1(2) by (cases xs) auto
    qed
  qed
  show ?thesis using last [OF \<open>vtx \<noteq> []\<close>] merkle_rows_eq [of "[]" 0 vtx "length vtx" False]
    by (auto simp: BuildMerkleTree_def)
qed

subsection \<open>Branches\<close>

fun branch_of :: "bytes list list \<Rightarrow> nat \<Rightarrow> bytes list" where
  "branch_of [] k = []"
| "branch_of (row # rest) k =
     (if 1 < length row then row ! min (k XOR 1) (length row - 1) # branch_of rest (k div 2) else [])"

lemma merkle_branch_loop_eq:
  "length pre = j \<Longrightarrow> length xs = nSize \<Longrightarrow>
   merkle_branch_loop (pre @ concat (rows xs)) j nSize k acc = acc @ branch_of (rows xs) k"
proof (induction nSize arbitrary: pre xs j k acc rule: less_induct)
  case (less nSize)
  show ?case
  proof (cases "1 < nSize")
    case True
    have "min (k XOR 1) (nSize - 1) < nSize" using True by simp
    then have "(pre @ concat (rows xs)) ! (j + min (k XOR 1) (nSize - 1)) = xs ! min (k XOR 1) (nSize - 1)"
      using True less.prems by (simp add: nth_append)
    then show ?thesis
      using True less.prems less.IH [of "(nSize + 1) div 2" "pre @ xs" "j + nSize" "next_row xs"]
      by (simp add: merkle_branch_loop.simps [of _ j nSize] drop_bit_eq_div)
  qed (use less.prems in \<open>simp add: merkle_branch_loop.simps [of _ j nSize]\<close>)
qed

lemma GetMerkleBranch_eq:
  "vtx \<noteq> [] \<Longrightarrow> kept = [] \<or> kept = snd (snd (BuildMerkleTree vtx)) \<Longrightarrow> GetMerkleBranch kept vtx k = branch_of (rows vtx) k"
  using merkle_branch_loop_eq [of "[]" 0 vtx "length vtx" k "[]"]
  by (auto simp: GetMerkleBranch_def BuildMerkleTree_eq)

lemma xor_1: "(k :: nat) XOR Suc 0 = (if even k then Suc k else k - 1)"
  by (simp add: xor_one_eq [of k, simplified])

text \<open>Hashing a node with its sibling gives the parent.\<close>

lemma parent_node:
  assumes "1 < length xs" "k < length xs"
  shows "next_row xs ! (k div 2) =
    (if odd k then Hash2 (xs ! min (k XOR 1) (length xs - 1)) (xs ! k)
     else Hash2 (xs ! k) (xs ! min (k XOR 1) (length xs - 1)))"
proof -
  have "k div 2 < (length xs + 1) div 2" using assms by linarith
  from nth_next_row [OF this] show ?thesis
    using assms by (cases "even k") (auto simp: xor_1 min_def elim!: evenE oddE)
qed

lemma check_branch_rows:
  "k < length xs \<Longrightarrow> check_branch_loop (xs ! k) (branch_of (rows xs) k) (int k) = merkle_root xs"
proof (induction xs arbitrary: k rule: rows.induct)
  case (1 xs)
  show ?case
  proof (cases "1 < length xs")
    case True
    have "int k AND 1 \<noteq> 0 \<longleftrightarrow> odd k" unfolding and_one_eq by presburger
    moreover have "drop_bit 1 (int k) = int (k div 2)" by (simp add: drop_bit_eq_div zdiv_int)
    moreover have "check_branch_loop (next_row xs ! (k div 2)) (branch_of (rows (next_row xs)) (k div 2)) (int (k div 2)) =
        merkle_root (next_row xs)"
      using "1.IH" [of "k div 2"] True "1.prems" by simp
    ultimately show ?thesis
      unfolding parent_node [OF True "1.prems"] using True by (auto simp: merkle_root_step split: if_splits)
  next
    case False
    then show ?thesis using 1 by (cases xs) auto
  qed
qed

subsection \<open>The pairs a tree hashes\<close>

fun row_pairs :: "bytes list \<Rightarrow> (bytes \<times> bytes) list" where
  "row_pairs [] = []"
| "row_pairs [x] = [(x, x)]"
| "row_pairs (x # y # xs) = (x, y) # row_pairs xs"

lemma row_pairs_Nil [simp]: "row_pairs xs = [] \<longleftrightarrow> xs = []" "[] = row_pairs xs \<longleftrightarrow> xs = []"
  by (cases xs rule: row_pairs.cases; simp)+


function tree_pairs :: "bytes list \<Rightarrow> (bytes \<times> bytes) list" where
  "tree_pairs xs = (if length xs \<le> 1 then [] else row_pairs xs @ tree_pairs (next_row xs))"
  by pat_completeness auto
termination
  by (relation "measure length") auto

declare tree_pairs.simps [simp del]

lemma tree_pairs_step: "1 < length xs \<Longrightarrow> tree_pairs xs = row_pairs xs @ tree_pairs (next_row xs)"
  by (simp add: tree_pairs.simps)

text \<open>No pair of the first list has the hash of another pair of the second.\<close>

definition no_collision :: "(bytes \<times> bytes) list \<Rightarrow> (bytes \<times> bytes) list \<Rightarrow> bool" where
  "no_collision ps qs \<longleftrightarrow>
     list_all (\<lambda>p. list_all (\<lambda>q. Hash2 (fst p) (snd p) = Hash2 (fst q) (snd q) \<longrightarrow> p = q) qs) ps"

lemma no_collisionD:
  "no_collision ps qs \<Longrightarrow> (a, b) \<in> set ps \<Longrightarrow> (c, d) \<in> set qs \<Longrightarrow> Hash2 a b = Hash2 c d \<Longrightarrow> a = c \<and> b = d"
  by (fastforce simp: no_collision_def list_all_iff)

lemma no_collision_sub: "no_collision ps qs \<Longrightarrow> set ps' \<subseteq> set ps \<Longrightarrow> set qs' \<subseteq> set qs \<Longrightarrow> no_collision ps' qs'"
  by (fastforce simp: no_collision_def list_all_iff)


lemma twin_tail_Nil [simp]: "\<not> twin_tail []"
  by (simp add: twin_tail_def)

lemma twin_tail_Cons2 [simp]: "twin_tail (x # y # xs) \<longleftrightarrow> (if xs = [] then x = y else twin_tail xs)"
proof (cases xs rule: next_row.cases)
  case (3 a b ys)
  then show ?thesis by (simp add: twin_tail_def)
qed (simp_all add: twin_tail_def)



subsection \<open>Branches bind\<close>

text \<open>The pairs that checking a branch hashes.\<close>

fun branch_pairs :: "bytes \<Rightarrow> bytes list \<Rightarrow> nat \<Rightarrow> (bytes \<times> bytes) list" where
  "branch_pairs hash [] k = []"
| "branch_pairs hash (s # br) k =
     (let p = (if odd k then (s, hash) else (hash, s)) in p # branch_pairs (Hash2 (fst p) (snd p)) br (k div 2))"

lemma in_row_pairs:
  "k < (length xs + 1) div 2 \<Longrightarrow> (xs ! (2 * k), xs ! min (2 * k + 1) (length xs - 1)) \<in> set (row_pairs xs)"
proof (induction xs arbitrary: k rule: row_pairs.induct)
  case (3 x y xs)
  show ?case
  proof (cases k)
    case (Suc l)
    then have "min (2 * k + 1) (length (x # y # xs) - 1) = Suc (Suc (min (2 * l + 1) (length xs - 1)))" using "3.prems" by auto
    then show ?thesis using 3 Suc by simp
  qed simp
qed auto

lemma node_pair:
  assumes "1 < length xs" "k < length xs"
  shows "(if odd k then (xs ! min (k XOR 1) (length xs - 1), xs ! k) else (xs ! k, xs ! min (k XOR 1) (length xs - 1)))
    \<in> set (row_pairs xs)"
proof -
  have "k div 2 < (length xs + 1) div 2" using assms by linarith
  note pair = in_row_pairs [OF this]
  show ?thesis
  proof (cases "even k")
    case True
    then show ?thesis using pair by (simp add: xor_1)
  next
    case False
    then have "2 * (k div 2) = k - 1" "min (2 * (k div 2) + 1) (length xs - 1) = k" "min (k - 1) (length xs - 1) = k - 1"
      using assms by (auto elim!: oddE)
    then show ?thesis using pair False by (simp add: xor_1)
  qed
qed

lemma int_index: "int k AND 1 \<noteq> 0 \<longleftrightarrow> odd k" "drop_bit 1 (int k) = int (k div 2)"
  unfolding and_one_eq by (presburger, simp add: drop_bit_eq_div zdiv_int)

lemma check_branch_binds:
  "k < length xs \<Longrightarrow> length br = length (branch_of (rows xs) k) \<Longrightarrow> check_branch_loop hash br (int k) = merkle_root xs \<Longrightarrow>
   no_collision (branch_pairs hash br k) (tree_pairs xs) \<Longrightarrow> hash = xs ! k"
proof (induction xs arbitrary: k br hash rule: rows.induct)
  case (1 xs)
  show ?case
  proof (cases "1 < length xs")
    case True
    obtain s br' where br: "br = s # br'" using "1.prems"(2) True by (cases br) auto
    define p where "p = (if odd k then (s, hash) else (hash, s))"
    define q where "q = (if odd k then (xs ! min (k XOR 1) (length xs - 1), xs ! k) else (xs ! k, xs ! min (k XOR 1) (length xs - 1)))"
    have pairs: "branch_pairs hash br k = p # branch_pairs (Hash2 (fst p) (snd p)) br' (k div 2)"
      by (simp add: br p_def Let_def)
    have tree: "tree_pairs xs = row_pairs xs @ tree_pairs (next_row xs)" using True by (rule tree_pairs_step)
    have "check_branch_loop (Hash2 (fst p) (snd p)) br' (int (k div 2)) = merkle_root (next_row xs)"
      using "1.prems"(3) True int_index [of k] by (simp add: br p_def merkle_root_step split: if_splits)
    moreover have "no_collision (branch_pairs (Hash2 (fst p) (snd p)) br' (k div 2)) (tree_pairs (next_row xs))"
      using no_collision_sub [OF "1.prems"(4)] unfolding pairs tree by auto
    moreover have "k div 2 < length (next_row xs)" using "1.prems"(1) by simp
    ultimately have "Hash2 (fst p) (snd p) = next_row xs ! (k div 2)"
      using "1.IH" [of "k div 2" br' "Hash2 (fst p) (snd p)"] True "1.prems"(2) by (simp add: br)
    also have "\<dots> = Hash2 (fst q) (snd q)" using parent_node [OF True "1.prems"(1)] by (simp add: q_def)
    finally have "p = q"
      using no_collisionD [OF "1.prems"(4), of "fst p" "snd p" "fst q" "snd q"] node_pair [OF True "1.prems"(1)]
      unfolding pairs tree by (simp add: q_def [symmetric] prod_eq_iff)
    then show ?thesis by (auto simp: p_def q_def split: if_splits)
  next
    case False
    then have "xs = [hash]" using "1.prems" by (cases xs) auto
    then show ?thesis using "1.prems"(1) by simp
  qed
qed

section \<open>Properties\<close>

text \<open>C26: Merkle branches.  The branch of a transaction of a block leads from its hash to the root of the
  block, from the tree that the block keeps or from a new one; and a hash that some branch of the same length takes to this root
  at this position is the hash of that transaction, unless checking the branch hashed a pair that collides with a pair of the
  tree.  (A shorter branch proves nothing: the root itself has an empty branch.)\<close>

theorem merkle_branch_correct:
  assumes "k < length vtx" and "kept = [] \<or> kept = snd (snd (BuildMerkleTree vtx))"
  shows "CheckMerkleBranch (vtx ! k) (GetMerkleBranch kept vtx k) (int k) = fst (BuildMerkleTree vtx) \<and>
    (\<forall>hash br. length br = length (GetMerkleBranch kept vtx k) \<longrightarrow> no_collision (branch_pairs hash br k) (tree_pairs vtx) \<longrightarrow>
       CheckMerkleBranch hash br (int k) = fst (BuildMerkleTree vtx) \<longrightarrow> hash = vtx ! k)"
proof -
  have "vtx \<noteq> []" using assms by auto
  then show ?thesis
    using check_branch_rows [OF assms(1)] check_branch_binds [OF assms(1)] GetMerkleBranch_eq [OF _ assms(2)]
    by (auto simp: CheckMerkleBranch_def BuildMerkleTree_eq)
qed

theorem merkle_branch_correct_witness:
  "CheckMerkleBranch [2] (GetMerkleBranch [] [[1], [2], [3]] 1) 1 = fst (BuildMerkleTree [[1], [2], [3]]) \<and>
   GetMerkleBranch [] [[1], [2], [3]] 1 = [[1], Hash2 [3] [3]]"
proof -
  have "GetMerkleBranch [] [[1], [2], [3]] 1 = [[1], Hash2 [3] [3]]"
    by (simp add: GetMerkleBranch_eq)
  then show ?thesis using merkle_branch_correct [of 1 "[[1], [2], [3]]" "[]"] by simp
qed



end
