(* ===== verification/PartialMerkle.thy ===== *)
theory PartialMerkle
  imports Merkle Serialize "HOL-Library.Sublist"
begin

text \<open>
  \<^verbatim>\<open>CPartialMerkleTree\<close> of \<^verbatim>\<open>src/src/merkleblock.h\<close> and
  \<^verbatim>\<open>src/src/merkleblock.cpp\<close>: a proof to a light client that some transactions are in a
  block.  The full node builds it with a traversal of the tree that writes a bit for every node it visits
  and the hash of every subtree it does not enter; the client repeats the traversal.
\<close>

section \<open>The code\<close>

record CPartialMerkleTree =
  nTransactions :: nat
  vBits :: "bool list"
  vHash :: "bytes list"
  fBad :: bool

text \<open>Unsigned arithmetic on 32 bits: the sum wraps around.\<close>

definition CalcTreeWidth :: "nat \<Rightarrow> nat \<Rightarrow> nat" where
  "CalcTreeWidth n height = ((n + 2 ^ height - 1) mod 2 ^ 32) div 2 ^ height"

fun CalcHash :: "nat \<Rightarrow> nat \<Rightarrow> nat \<Rightarrow> bytes list \<Rightarrow> bytes" where
  "CalcHash n 0 pos vTxid = vTxid ! pos"
| "CalcHash n (Suc h) pos vTxid =
     (let hashL = CalcHash n h (pos * 2) vTxid;
          hashR = (if pos * 2 + 1 < CalcTreeWidth n h then CalcHash n h (pos * 2 + 1) vTxid else hashL)
      in Hash2 hashL hashR)"

text \<open>The leaves below a node, and whether one of them is matched.\<close>

definition leaves :: "nat \<Rightarrow> nat \<Rightarrow> nat \<Rightarrow> nat list" where
  "leaves n height pos = [pos * 2 ^ height ..< min ((pos + 1) * 2 ^ height) n]"

definition parent_of_match :: "nat \<Rightarrow> nat \<Rightarrow> nat \<Rightarrow> bool list \<Rightarrow> bool" where
  "parent_of_match n height pos vMatch = list_ex (\<lambda>p. vMatch ! p) (leaves n height pos)"

fun TraverseAndBuild ::
    "nat \<Rightarrow> nat \<Rightarrow> nat \<Rightarrow> bytes list \<Rightarrow> bool list \<Rightarrow> bool list \<times> bytes list \<Rightarrow> bool list \<times> bytes list" where
  "TraverseAndBuild n 0 pos vTxid vMatch (fBits, hashes) =
     (fBits @ [parent_of_match n 0 pos vMatch], hashes @ [CalcHash n 0 pos vTxid])"
| "TraverseAndBuild n (Suc h) pos vTxid vMatch (fBits, hashes) =
     (let fParentOfMatch = parent_of_match n (Suc h) pos vMatch; fBits' = fBits @ [fParentOfMatch]
      in if \<not> fParentOfMatch then (fBits', hashes @ [CalcHash n (Suc h) pos vTxid])
         else let built = TraverseAndBuild n h (pos * 2) vTxid vMatch (fBits', hashes)
              in if pos * 2 + 1 < CalcTreeWidth n h then TraverseAndBuild n h (pos * 2 + 1) vTxid vMatch built else built)"

function tree_height :: "nat \<Rightarrow> nat \<Rightarrow> nat" where
  "tree_height n nHeight = (if CalcTreeWidth n nHeight > 1 then tree_height n (nHeight + 1) else nHeight)"
  by pat_completeness auto
termination
proof (relation "measure (\<lambda>(n, h). 33 - h)")
  fix n h :: nat
  assume "CalcTreeWidth n h > 1"
  have "h < 33"
  proof (rule ccontr)
    assume "\<not> h < 33"
    then have "(2 :: nat) ^ 32 \<le> 2 ^ h" by (intro power_increasing) auto
    then have "((n + 2 ^ h - 1) mod 2 ^ 32) < 2 ^ h" by (meson less_le_trans mod_less_divisor zero_less_numeral zero_less_power)
    then show False using \<open>CalcTreeWidth n h > 1\<close> by (simp add: CalcTreeWidth_def)
  qed
  then show "((n, h + 1), n, h) \<in> measure (\<lambda>(n, h). 33 - h)" by simp
qed simp

declare tree_height.simps [simp del]

definition CPartialMerkleTree_new :: "bytes list \<Rightarrow> bool list \<Rightarrow> CPartialMerkleTree" where
  "CPartialMerkleTree_new vTxid vMatch =
     (let n = length vTxid; (fBits, hashes) = TraverseAndBuild n (tree_height n 0) 0 vTxid vMatch ([], [])
      in \<lparr>nTransactions = n, vBits = fBits, vHash = hashes, fBad = False\<rparr>)"

definition CPartialMerkleTree_empty :: CPartialMerkleTree where
  "CPartialMerkleTree_empty = \<lparr>nTransactions = 0, vBits = [], vHash = [], fBad = True\<rparr>"

text \<open>What \<^verbatim>\<open>TraverseAndExtract\<close> updates through its references and \<open>fBad\<close> of the object.\<close>

record extract_state =
  nBitsUsed :: nat
  nHashUsed :: nat
  found :: "bytes list"
  bad :: bool

definition extract_leaf :: "CPartialMerkleTree \<Rightarrow> bool \<Rightarrow> extract_state \<Rightarrow> bytes \<times> extract_state" where
  "extract_leaf t matched st =
     (if nHashUsed st \<ge> length (vHash t) then (uint256_zero, st\<lparr>bad := True\<rparr>)
      else let hash = vHash t ! nHashUsed st; st = st\<lparr>nHashUsed := nHashUsed st + 1\<rparr>
           in (hash, if matched then st\<lparr>found := found st @ [hash]\<rparr> else st))"

fun TraverseAndExtract :: "CPartialMerkleTree \<Rightarrow> nat \<Rightarrow> nat \<Rightarrow> extract_state \<Rightarrow> bytes \<times> extract_state" where
  "TraverseAndExtract t 0 pos st =
     (if nBitsUsed st \<ge> length (vBits t) then (uint256_zero, st\<lparr>bad := True\<rparr>)
      else extract_leaf t (vBits t ! nBitsUsed st) (st\<lparr>nBitsUsed := nBitsUsed st + 1\<rparr>))"
| "TraverseAndExtract t (Suc h) pos st =
     (if nBitsUsed st \<ge> length (vBits t) then (uint256_zero, st\<lparr>bad := True\<rparr>)
      else let fParentOfMatch = vBits t ! nBitsUsed st; st = st\<lparr>nBitsUsed := nBitsUsed st + 1\<rparr>
           in if \<not> fParentOfMatch then extract_leaf t False st
              else case TraverseAndExtract t h (pos * 2) st of (hashL, st) \<Rightarrow>
                if pos * 2 + 1 < CalcTreeWidth (nTransactions t) h
                then case TraverseAndExtract t h (pos * 2 + 1) st of (hashR, st) \<Rightarrow> (Hash2 hashL hashR, st)
                else (Hash2 hashL hashL, st))"

text \<open>The result is the root and the matched hashes; \<open>fBad\<close> of the object is kept by the caller.\<close>

definition ExtractMatches :: "CPartialMerkleTree \<Rightarrow> bytes \<times> bytes list" where
  "ExtractMatches t =
     (if nTransactions t = 0 then (uint256_zero, [])
      else if nTransactions t > MAX_BLOCK_SIZE div 60 then (uint256_zero, [])
      else if length (vHash t) > nTransactions t then (uint256_zero, [])
      else if length (vBits t) < length (vHash t) then (uint256_zero, [])
      else case TraverseAndExtract t (tree_height (nTransactions t) 0) 0
                  \<lparr>nBitsUsed = 0, nHashUsed = 0, found = [], bad = fBad t\<rparr> of
        (hashMerkleRoot, st) \<Rightarrow>
          (if bad st then uint256_zero
           else if (nBitsUsed st + 7) div 8 \<noteq> (length (vBits t) + 7) div 8 then uint256_zero
           else if nHashUsed st \<noteq> length (vHash t) then uint256_zero
           else hashMerkleRoot, found st))"


subsection \<open>Serialization\<close>

text \<open>Bit \<open>p\<close> goes to bit \<open>p % 8\<close> of byte \<open>p / 8\<close>.\<close>

definition pack_bits :: "bool list \<Rightarrow> bytes" where
  "pack_bits fBits =
     fold (\<lambda>p vBytes. vBytes[p div 8 := vBytes ! (p div 8) OR push_bit (p mod 8) (of_bool (fBits ! p))])
       [0..<length fBits] (replicate ((length fBits + 7) div 8) 0)"

definition unpack_bits :: "bytes \<Rightarrow> bool list" where
  "unpack_bits vBytes = map (\<lambda>p. vBytes ! (p div 8) AND push_bit (p mod 8) 1 \<noteq> 0) [0..<length vBytes * 8]"

definition Serialize_CPartialMerkleTree :: "CPartialMerkleTree \<Rightarrow> bytes" where
  "Serialize_CPartialMerkleTree t =
     Serialize_u32 (of_nat (nTransactions t)) @ Serialize_vector id (vHash t) @ Serialize_blob (pack_bits (vBits t))"

definition Unserialize_CPartialMerkleTree :: "CPartialMerkleTree reader" where
  "Unserialize_CPartialMerkleTree s =
     rbind (Unserialize_u32 s) (\<lambda>(n, s). rbind (Unserialize_vector 32 (read_bytes 32) s) (\<lambda>(hashes, s).
     rbind (Unserialize_blob s) (\<lambda>(vBytes, s).
       Inr (\<lparr>nTransactions = unat n, vBits = unpack_bits vBytes, vHash = hashes, fBad = False\<rparr>, s))))"

section \<open>Shape of the tree\<close>

lemma CalcTreeWidth_eq: "n + 2 ^ h \<le> 2 ^ 32 \<Longrightarrow> CalcTreeWidth n h = (n + 2 ^ h - 1) div 2 ^ h"
  by (simp add: CalcTreeWidth_def)

lemma less_CalcTreeWidth: "n + 2 ^ h \<le> 2 ^ 32 \<Longrightarrow> a < CalcTreeWidth n h \<longleftrightarrow> a * 2 ^ h < n"
proof -
  assume n: "n + 2 ^ h \<le> 2 ^ 32"
  have "a < (n + 2 ^ h - 1) div 2 ^ h \<longleftrightarrow> (a + 1) * 2 ^ h \<le> n + 2 ^ h - 1"
    by (simp add: less_eq_div_iff_mult_less_eq Suc_le_eq [symmetric])
  also have "\<dots> \<longleftrightarrow> a * 2 ^ h < n"
    using zero_less_power [of "2 :: nat" h] unfolding add_mult_distrib by linarith
  finally show ?thesis using n by (simp add: CalcTreeWidth_eq)
qed

lemma CalcTreeWidth_Suc:
  assumes "n + 2 ^ Suc h \<le> 2 ^ 32"
  shows "CalcTreeWidth n (Suc h) = CalcTreeWidth ((n + 1) div 2) h"
proof -
  have "a < CalcTreeWidth n (Suc h) \<longleftrightarrow> a < CalcTreeWidth ((n + 1) div 2) h" for a
  proof -
    have "(n + 1) div 2 + 2 ^ h \<le> 2 ^ 32" using assms by simp
    moreover have "a * 2 ^ Suc h < n \<longleftrightarrow> a * 2 ^ h < (n + 1) div 2" unfolding power_Suc mult.left_commute [of a] by linarith
    ultimately show ?thesis
      using assms less_CalcTreeWidth [of n "Suc h" a] less_CalcTreeWidth [of "(n + 1) div 2" h a] by simp
  qed
  then show ?thesis by (metis linorder_neqE_nat less_irrefl)
qed

lemma tree_height_small: "n \<le> 2 ^ 17 \<Longrightarrow> h \<le> 17 \<Longrightarrow> h \<le> tree_height n h \<and> tree_height n h \<le> 17"
proof (induction n h rule: tree_height.induct)
  case (1 n h)
  have "CalcTreeWidth n 17 \<le> 1" using "1.prems" by (simp add: CalcTreeWidth_def)
  then have "h \<noteq> 17" if "1 < CalcTreeWidth n h" using that by auto
  then show ?case using 1 by (fastforce simp: tree_height.simps [of n h])
qed

lemma tree_height_Suc:
  "n \<le> 2 ^ 17 \<Longrightarrow> h \<le> 16 \<Longrightarrow> tree_height n (Suc h) = Suc (tree_height ((n + 1) div 2) h)"
proof (induction "17 - h" arbitrary: h rule: less_induct)
  case less
  have "(2 :: nat) ^ Suc h \<le> 2 ^ 17" using less.prems by (intro power_increasing) auto
  then have w: "CalcTreeWidth n (Suc h) = CalcTreeWidth ((n + 1) div 2) h"
    using less.prems by (intro CalcTreeWidth_Suc) simp
  show ?case
  proof (cases "h = 16")
    case True
    then have "CalcTreeWidth n (Suc h) \<le> 1" using less.prems by (simp add: CalcTreeWidth_def)
    then show ?thesis using w by (simp add: tree_height.simps [of n "Suc h"] tree_height.simps [of _ h])
  next
    case False
    then show ?thesis using less w by (simp add: tree_height.simps [of n "Suc h"] tree_height.simps [of _ h])
  qed
qed

lemma tree_height_0: "n \<le> 1 \<Longrightarrow> tree_height n 0 = 0"
  by (simp add: tree_height.simps CalcTreeWidth_def)

lemma tree_height_step: "1 < n \<Longrightarrow> n \<le> 2 ^ 17 \<Longrightarrow> tree_height n 0 = Suc (tree_height ((n + 1) div 2) 0)"
  using tree_height_Suc [of n 0] by (simp add: tree_height.simps [of n 0] CalcTreeWidth_def)


lemma CalcHash_next_row:
  "h \<le> 16 \<Longrightarrow> length xs \<le> 2 ^ 17 \<Longrightarrow> pos * 2 ^ Suc h < length xs \<Longrightarrow>
   CalcHash (length xs) (Suc h) pos xs = CalcHash (length (next_row xs)) h pos (next_row xs)"
proof (induction h arbitrary: pos)
  case 0
  then have "pos < (length xs + 1) div 2" by simp
  moreover have "length xs - 1 = pos * 2" if "\<not> pos * 2 + 1 < length xs" using that 0 by simp
  ultimately show ?case
    using nth_next_row [of pos xs] 0 by (cases "pos * 2 + 1 < length xs") (auto simp: CalcTreeWidth_def Let_def mult.commute min_def)
next
  case (Suc h)
  have "(2 :: nat) ^ Suc (Suc h) \<le> 2 ^ 17" using Suc.prems by (intro power_increasing) auto
  then have small: "length xs + 2 ^ Suc h \<le> 2 ^ 32" using Suc.prems by simp
  have w: "CalcTreeWidth (length (next_row xs)) h = CalcTreeWidth (length xs) (Suc h)"
    using CalcTreeWidth_Suc [OF small] by simp
  have right: "CalcHash (length xs) (Suc h) (pos * 2 + 1) xs = CalcHash (length (next_row xs)) h (pos * 2 + 1) (next_row xs)"
    if "pos * 2 + 1 < CalcTreeWidth (length xs) (Suc h)"
  proof -
    have "(pos * 2 + 1) * 2 ^ Suc h < length xs" using that small less_CalcTreeWidth by blast
    then show ?thesis using Suc.IH [of "pos * 2 + 1"] Suc.prems by (simp del: CalcHash.simps)
  qed
  have left: "CalcHash (length xs) (Suc h) (pos * 2) xs = CalcHash (length (next_row xs)) h (pos * 2) (next_row xs)"
    using Suc.IH [of "pos * 2"] Suc.prems by (simp add: mult.assoc del: CalcHash.simps)
  show ?case
    unfolding CalcHash.simps(2) [of "length xs" "Suc h"] CalcHash.simps(2) [of "length (next_row xs)" h] w left Let_def
    using right by simp
qed

lemma CalcHash_root:
  "xs \<noteq> [] \<Longrightarrow> length xs \<le> 2 ^ 17 \<Longrightarrow> CalcHash (length xs) (tree_height (length xs) 0) 0 xs = merkle_root xs"
proof (induction xs rule: rows.induct)
  case (1 xs)
  show ?case
  proof (cases "1 < length xs")
    case True
    have "(length xs + 1) div 2 \<le> 2 ^ 16" using "1.prems" by simp
    then have "tree_height (length (next_row xs)) 0 \<le> 16"
      using tree_height_small [of "length xs" 0] tree_height_step [OF True "1.prems"(2)] "1.prems"(2) by simp
    then show ?thesis
      using 1 True CalcHash_next_row [of "tree_height (length (next_row xs)) 0" xs 0]
      by (simp add: tree_height_step merkle_root_step)
  next
    case False
    then show ?thesis using 1 by (cases xs) (auto simp: tree_height_0)
  qed
qed

section \<open>Building and extracting\<close>

lemma leaves_Suc:
  assumes "n + 2 ^ Suc h \<le> 2 ^ 32" "pos * 2 ^ Suc h < n"
  shows "leaves n (Suc h) pos =
    leaves n h (pos * 2) @ (if pos * 2 + 1 < CalcTreeWidth n h then leaves n h (pos * 2 + 1) else [])"
proof -
  have w: "pos * 2 + 1 < CalcTreeWidth n h \<longleftrightarrow> (pos * 2 + 1) * 2 ^ h < n"
    using assms(1) by (intro less_CalcTreeWidth) simp
  show ?thesis
  proof (cases "(pos * 2 + 1) * 2 ^ h < n")
    case True
    have "[pos * 2 * 2 ^ h ..< min ((pos * 2 + 2) * 2 ^ h) n] =
        [pos * 2 * 2 ^ h ..< (pos * 2 + 1) * 2 ^ h] @ [(pos * 2 + 1) * 2 ^ h ..< min ((pos * 2 + 2) * 2 ^ h) n]"
      using True upt_add_eq_append [of "pos * 2 * 2 ^ h" "(pos * 2 + 1) * 2 ^ h" "min ((pos * 2 + 2) * 2 ^ h) n - (pos * 2 + 1) * 2 ^ h"]
      by (simp add: algebra_simps min_def)
    then show ?thesis using w True by (simp add: leaves_def algebra_simps)
  next
    case False
    then have "min ((pos + 1) * 2 ^ Suc h) n = n" "min ((pos * 2 + 1) * 2 ^ h) n = n" by (simp_all add: algebra_simps)
    then show ?thesis using w False by (simp add: leaves_def mult.assoc)
  qed
qed

lemma leaves_0: "pos < n \<Longrightarrow> leaves n 0 pos = [pos]"
  by (simp add: leaves_def)

text \<open>The part of the lists that the traversal of one subtree appends.\<close>

fun built :: "nat \<Rightarrow> nat \<Rightarrow> nat \<Rightarrow> bytes list \<Rightarrow> bool list \<Rightarrow> bool list \<times> bytes list" where
  "built n 0 pos vTxid vMatch = ([parent_of_match n 0 pos vMatch], [CalcHash n 0 pos vTxid])"
| "built n (Suc h) pos vTxid vMatch =
     (if \<not> parent_of_match n (Suc h) pos vMatch then ([False], [CalcHash n (Suc h) pos vTxid])
      else let l = built n h (pos * 2) vTxid vMatch;
               r = (if pos * 2 + 1 < CalcTreeWidth n h then built n h (pos * 2 + 1) vTxid vMatch else ([], []))
           in (True # fst l @ fst r, snd l @ snd r))"

lemma TraverseAndBuild_eq:
  "TraverseAndBuild n h pos vTxid vMatch (b, v) =
     (b @ fst (built n h pos vTxid vMatch), v @ snd (built n h pos vTxid vMatch))"
  by (induction h arbitrary: pos b v) (auto simp: Let_def)

lemma length_built:
  "pos * 2 ^ h < n \<Longrightarrow> n + 2 ^ h \<le> 2 ^ 32 \<Longrightarrow>
   length (snd (built n h pos vTxid vMatch)) \<le> length (leaves n h pos) \<and>
   length (snd (built n h pos vTxid vMatch)) \<le> length (fst (built n h pos vTxid vMatch))"
proof (induction h arbitrary: pos)
  case (Suc h)
  have pos: "pos * 2 * 2 ^ h < n" "n + 2 ^ h \<le> 2 ^ 32" using Suc.prems by (simp_all add: algebra_simps)
  note IH = Suc.IH [OF pos]
  have "1 \<le> length (leaves n (Suc h) pos)" using Suc.prems by (simp add: leaves_def Suc_le_eq)
  moreover have "(pos * 2 + 1) * 2 ^ h < n" if "pos * 2 + 1 < CalcTreeWidth n h" using that pos(2) less_CalcTreeWidth by blast
  ultimately show ?case
    using IH Suc.IH [of "pos * 2 + 1"] pos(2) Suc.prems leaves_Suc [of n h pos]
    by (cases "parent_of_match n (Suc h) pos vMatch") (auto simp: Let_def)
qed (simp add: leaves_0)


text \<open>The matched transactions below a node.\<close>

definition matched :: "nat \<Rightarrow> nat \<Rightarrow> nat \<Rightarrow> bytes list \<Rightarrow> bool list \<Rightarrow> bytes list" where
  "matched n h pos vTxid vMatch = map (\<lambda>p. vTxid ! p) (filter (\<lambda>p. vMatch ! p) (leaves n h pos))"

lemma not_parent_matched: "\<not> parent_of_match n h pos vMatch \<Longrightarrow> matched n h pos vTxid vMatch = []"
  by (auto simp: parent_of_match_def matched_def list_ex_iff filter_empty_conv)

lemma nth_of_drop: "drop k xs = y # ys \<Longrightarrow> k < length xs \<and> xs ! k = y \<and> drop (Suc k) xs = ys"
  by (metis drop_eq_Nil list.distinct(1) not_le_imp_less Cons_nth_drop_Suc list.inject)

lemma TraverseAndExtract_built:
  assumes "pos * 2 ^ h < n" "n + 2 ^ h \<le> 2 ^ 32" "nTransactions t = n"
    and "drop (nBitsUsed st) (vBits t) = fst (built n h pos vTxid vMatch) @ bs"
    and "drop (nHashUsed st) (vHash t) = snd (built n h pos vTxid vMatch) @ vs"
  shows "TraverseAndExtract t h pos st =
    (CalcHash n h pos vTxid,
     st\<lparr>nBitsUsed := nBitsUsed st + length (fst (built n h pos vTxid vMatch)),
        nHashUsed := nHashUsed st + length (snd (built n h pos vTxid vMatch)),
        found := found st @ matched n h pos vTxid vMatch\<rparr>)"
  using assms
proof (induction h arbitrary: pos st bs vs)
  case 0
  then show ?case
    by (auto simp: extract_leaf_def leaves_0 matched_def parent_of_match_def Let_def dest!: nth_of_drop)
next
  case (Suc h)
  show ?case
  proof (cases "parent_of_match n (Suc h) pos vMatch")
    case False
    then show ?thesis
      using Suc.prems not_parent_matched [OF False, of vTxid]
      by (auto simp: extract_leaf_def Let_def simp del: CalcHash.simps dest!: nth_of_drop)
  next
    case True
    let ?l = "built n h (pos * 2) vTxid vMatch" and ?r = "built n h (Suc (pos * 2)) vTxid vMatch"
    have pos: "pos * 2 * 2 ^ h < n" "n + 2 ^ h \<le> 2 ^ 32" using Suc.prems by (simp_all add: algebra_simps)
    let ?w = "Suc (pos * 2) < CalcTreeWidth n h"
    have rpos: "(Suc (pos * 2)) * 2 ^ h < n" if ?w using that pos(2) less_CalcTreeWidth by blast
    have split: "matched n (Suc h) pos vTxid vMatch = matched n h (pos * 2) vTxid vMatch @
        (if ?w then matched n h (Suc (pos * 2)) vTxid vMatch else [])"
      using Suc.prems(1,2) by (simp add: matched_def leaves_Suc)
    let ?r' = "if ?w then ?r else ([], [])"
    let ?st1 = "st\<lparr>nBitsUsed := Suc (nBitsUsed st)\<rparr>"
    have bit: "nBitsUsed st < length (vBits t)" "vBits t ! nBitsUsed st"
        "drop (nBitsUsed ?st1) (vBits t) = fst ?l @ fst ?r' @ bs"
      using Suc.prems(4) True nth_of_drop [of "nBitsUsed st" "vBits t"] by (auto simp: Let_def)
    have hash: "drop (nHashUsed ?st1) (vHash t) = snd ?l @ snd ?r' @ vs"
      using Suc.prems(5) True by (simp add: Let_def)
    note L = Suc.IH [OF pos Suc.prems(3) bit(3) hash]
    let ?st2 = "snd (TraverseAndExtract t h (pos * 2) ?st1)"
    have "drop (nBitsUsed ?st2) (vBits t) = fst ?r' @ bs" "drop (nHashUsed ?st2) (vHash t) = snd ?r' @ vs"
      using arg_cong [OF bit(3), of "drop (length (fst ?l))"] arg_cong [OF hash, of "drop (length (snd ?l))"]
      by (simp_all add: L add.commute add.left_commute)
    then have R: "TraverseAndExtract t h (Suc (pos * 2)) ?st2 =
       (CalcHash n h (Suc (pos * 2)) vTxid, ?st2\<lparr>nBitsUsed := nBitsUsed ?st2 + length (fst ?r),
        nHashUsed := nHashUsed ?st2 + length (snd ?r), found := found ?st2 @ matched n h (Suc (pos * 2)) vTxid vMatch\<rparr>)" if ?w
      using that Suc.IH [OF rpos [OF that] pos(2) Suc.prems(3), of ?st2 bs vs] by simp
    show ?thesis
    proof (cases ?w)
      case w: True
      then show ?thesis using True bit R [OF w] split Suc.prems(3) by (simp add: L Let_def)
    next
      case w: False
      then show ?thesis using True bit split Suc.prems(3) by (simp add: L Let_def)
    qed
  qed
qed


subsection \<open>Flag bits in bytes\<close>

definition pack_prefix :: "bool list \<Rightarrow> nat \<Rightarrow> bytes" where
  "pack_prefix fBits m =
     fold (\<lambda>p vBytes. vBytes[p div 8 := vBytes ! (p div 8) OR push_bit (p mod 8) (of_bool (fBits ! p))])
       [0..<m] (replicate ((length fBits + 7) div 8) 0)"

lemma pack_prefix_bits:
  "m \<le> length fBits \<Longrightarrow> length (pack_prefix fBits m) = (length fBits + 7) div 8 \<and>
    (\<forall>q < length (pack_prefix fBits m). \<forall>k < 8.
       bit (pack_prefix fBits m ! q) k \<longleftrightarrow> q * 8 + k < m \<and> fBits ! (q * 8 + k))"
proof (induction m)
  case (Suc m)
  define l0 where "l0 = pack_prefix fBits m"
  define l where "l = pack_prefix fBits (Suc m)"
  have IH: "length l0 = (length fBits + 7) div 8"
      "\<And>q k. q < length l0 \<Longrightarrow> k < 8 \<Longrightarrow> bit (l0 ! q) k \<longleftrightarrow> q * 8 + k < m \<and> fBits ! (q * 8 + k)"
    using Suc.IH [folded l0_def] Suc.prems by auto
  have l: "l = l0[m div 8 := l0 ! (m div 8) OR push_bit (m mod 8) (of_bool (fBits ! m))]"
    unfolding l_def l0_def by (simp add: pack_prefix_def)
  have step: "bit (l ! q) k \<longleftrightarrow> q * 8 + k < Suc m \<and> fBits ! (q * 8 + k)" if "q < length l0" "k < 8" for q k
  proof (cases "q = m div 8")
    case True
    have "bit (push_bit (m mod 8) (of_bool (fBits ! m) :: byte)) k \<longleftrightarrow> k = m mod 8 \<and> fBits ! m"
      using that(2) by (auto simp: bit_push_bit_iff bit_of_bool_iff)
    moreover have "q * 8 + k = m \<longleftrightarrow> k = m mod 8"
      unfolding True by (metis add_left_cancel div_mult_mod_eq)
    moreover note less_Suc_eq [of "q * 8 + k" m]
    ultimately show ?thesis using IH(2) [OF that] True that(1) l by (auto simp: bit_or_iff)
  next
    case False
    then have "q * 8 + k \<noteq> m" using that(2) by auto
    then show ?thesis using IH(2) [OF that] False l by (auto simp: less_Suc_eq)
  qed
  then show ?case using IH(1) l unfolding l_def [symmetric] by simp
qed (simp add: pack_prefix_def)

lemma pack_bits_eq: "pack_bits fBits = pack_prefix fBits (length fBits)"
  by (simp add: pack_bits_def pack_prefix_def)

lemma unpack_pack:
  "unpack_bits (pack_bits fBits) = fBits @ replicate ((length fBits + 7) div 8 * 8 - length fBits) False"
proof (rule nth_equalityI)
  note pack = pack_prefix_bits [OF order_refl, of fBits, folded pack_bits_eq]
  show len: "length (unpack_bits (pack_bits fBits)) =
      length (fBits @ replicate ((length fBits + 7) div 8 * 8 - length fBits) False)"
    using pack by (simp add: unpack_bits_def)
  fix p assume p: "p < length (unpack_bits (pack_bits fBits))"
  then have "p div 8 < length (pack_bits fBits)" by (simp add: unpack_bits_def less_mult_imp_div_less)
  moreover have "p div 8 * 8 + p mod 8 = p" by simp
  moreover have "((w :: byte) AND push_bit k 1 \<noteq> 0) \<longleftrightarrow> bit w k" for w k
    by (simp add: and_exp_eq_0_iff_not_bit push_bit_of_1)
  ultimately show "unpack_bits (pack_bits fBits) ! p =
      (fBits @ replicate ((length fBits + 7) div 8 * 8 - length fBits) False) ! p"
    using pack p len by (simp add: unpack_bits_def nth_append)
qed

section \<open>Properties\<close>

lemma tree_height_stops: "\<not> 1 < CalcTreeWidth n (tree_height n h)"
proof (induction n h rule: tree_height.induct)
  case (1 n h)
  then show ?case by (subst tree_height.simps) simp
qed

lemma tree_height_before: "h \<le> k \<Longrightarrow> k < tree_height n h \<Longrightarrow> 1 < CalcTreeWidth n k"
proof (induction n h rule: tree_height.induct)
  case (1 n h)
  then show ?case by (cases "h = k") (auto simp: tree_height.simps [of n h] tree_height.simps [of n k] split: if_splits)
qed

lemma tree_height_power:
  assumes "n \<le> 2 ^ 17" "k \<le> 17"
  shows "2 ^ k + n \<le> (2 :: nat) ^ 32"
proof -
  have "(2 :: nat) ^ k \<le> 2 ^ 17" using assms(2) by (intro power_increasing) auto
  then show ?thesis using assms(1) by simp
qed

lemma leaves_root: "n \<le> 2 ^ 17 \<Longrightarrow> leaves n (tree_height n 0) 0 = [0..<n]"
proof -
  assume n: "n \<le> 2 ^ 17"
  then have "\<not> 1 * 2 ^ tree_height n 0 < n"
    using tree_height_stops [of n 0] tree_height_power [OF n, of "tree_height n 0"] tree_height_small [OF n, of 0]
      less_CalcTreeWidth [of n "tree_height n 0" 1] by (simp add: add.commute)
  then show ?thesis by (simp add: leaves_def min_def)
qed

lemma filter_zip_upt:
  "length ms = length xs \<Longrightarrow>
   map (\<lambda>p. xs ! p) (filter (\<lambda>p. ms ! p) [0..<length xs]) = map fst (filter snd (zip xs ms))"
proof -
  assume "length ms = length xs"
  then have "zip xs ms = map (\<lambda>p. (xs ! p, ms ! p)) [0..<length xs]" by (intro nth_equalityI) auto
  then show ?thesis by (simp add: filter_map o_def)
qed

lemma ExtractMatches_built:
  assumes "vTxid \<noteq> []" "length vTxid \<le> MAX_BLOCK_SIZE div 60" "length vMatch = length vTxid"
    and "n = length vTxid" "vBits t = fst (built n (tree_height n 0) 0 vTxid vMatch) @ replicate k False"
    and "vHash t = snd (built n (tree_height n 0) 0 vTxid vMatch)" "nTransactions t = n" "\<not> fBad t"
    and "(length (vBits t) + 7) div 8 = (length (fst (built n (tree_height n 0) 0 vTxid vMatch)) + 7) div 8"
  shows "ExtractMatches t = (merkle_root vTxid, map fst (filter snd (zip vTxid vMatch)))"
proof -
  let ?h = "tree_height n 0"
  have n: "0 < n" "n \<le> 2 ^ 17" using assms(1,2,4) by (auto simp: MAX_BLOCK_SIZE_def)
  then have "(2 :: nat) ^ ?h \<le> 2 ^ 17" using tree_height_small [of n 0] by (intro power_increasing) auto
  then have small: "0 * 2 ^ ?h < n" "n + 2 ^ ?h \<le> 2 ^ 32" using n by auto
  have all: "leaves n ?h 0 = [0..<n]" using leaves_root [OF n(2)] .
  then have "matched n ?h 0 vTxid vMatch = map fst (filter snd (zip vTxid vMatch))"
    using assms(3,4) by (simp add: matched_def filter_zip_upt)
  then show ?thesis
    using TraverseAndExtract_built [OF small assms(7), of "\<lparr>nBitsUsed = 0, nHashUsed = 0, found = [], bad = fBad t\<rparr>" vTxid vMatch
        "replicate k False" "[]"] length_built [OF small, of vTxid vMatch, unfolded all] assms n CalcHash_root [of vTxid]
    by (simp add: ExtractMatches_def)
qed


text \<open>The pairs that the traversal of the client hashes.\<close>

fun extract_pairs :: "CPartialMerkleTree \<Rightarrow> nat \<Rightarrow> nat \<Rightarrow> extract_state \<Rightarrow> (bytes \<times> bytes) list" where
  "extract_pairs t 0 pos st = []"
| "extract_pairs t (Suc h) pos st =
     (if nBitsUsed st \<ge> length (vBits t) \<or> \<not> vBits t ! nBitsUsed st then []
      else let st = st\<lparr>nBitsUsed := nBitsUsed st + 1\<rparr>;
               (hashL, st1) = TraverseAndExtract t h (pos * 2) st
           in if pos * 2 + 1 < CalcTreeWidth (nTransactions t) h
              then (hashL, fst (TraverseAndExtract t h (pos * 2 + 1) st1)) #
                   extract_pairs t h (pos * 2) st @ extract_pairs t h (pos * 2 + 1) st1
              else (hashL, hashL) # extract_pairs t h (pos * 2) st)"

definition client_pairs :: "CPartialMerkleTree \<Rightarrow> (bytes \<times> bytes) list" where
  "client_pairs t = extract_pairs t (tree_height (nTransactions t) 0) 0
     \<lparr>nBitsUsed = 0, nHashUsed = 0, found = [], bad = fBad t\<rparr>"

lemma CalcHash_pair:
  "h \<le> 16 \<Longrightarrow> length xs \<le> 2 ^ 17 \<Longrightarrow> pos * 2 ^ Suc h < length xs \<Longrightarrow> 2 ^ h < length xs \<Longrightarrow>
   (CalcHash (length xs) h (pos * 2) xs,
    if pos * 2 + 1 < CalcTreeWidth (length xs) h then CalcHash (length xs) h (pos * 2 + 1) xs
    else CalcHash (length xs) h (pos * 2) xs) \<in> set (tree_pairs xs)"
proof (induction h arbitrary: xs pos)
  case 0
  then have "pos < (length xs + 1) div 2" by simp
  moreover have "length xs - 1 = pos * 2" if "\<not> pos * 2 + 1 < length xs" using that 0 by simp
  ultimately show ?case
    using 0 in_row_pairs [of pos xs] by (cases "pos * 2 + 1 < length xs") (auto simp: tree_pairs_step [of xs] CalcTreeWidth_def min_def mult.commute split: if_splits)
next
  case (Suc h)
  have "(2 :: nat) ^ Suc (Suc h) \<le> 2 ^ 17" using Suc.prems by (intro power_increasing) auto
  then have small: "length xs + 2 ^ Suc h \<le> 2 ^ 32" using Suc.prems by simp
  have w: "CalcTreeWidth (length (next_row xs)) h = CalcTreeWidth (length xs) (Suc h)"
    using CalcTreeWidth_Suc [OF small] by simp
  have right: "CalcHash (length xs) (Suc h) (pos * 2 + 1) xs = CalcHash (length (next_row xs)) h (pos * 2 + 1) (next_row xs)"
    if "pos * 2 + 1 < CalcTreeWidth (length xs) (Suc h)"
  proof -
    have "(pos * 2 + 1) * 2 ^ Suc h < length xs" using that small less_CalcTreeWidth by blast
    then show ?thesis using CalcHash_next_row [of h xs "pos * 2 + 1"] Suc.prems by (simp del: CalcHash.simps)
  qed
  have left: "CalcHash (length xs) (Suc h) (pos * 2) xs = CalcHash (length (next_row xs)) h (pos * 2) (next_row xs)"
    using CalcHash_next_row [of h xs "pos * 2"] Suc.prems by (simp add: mult.assoc del: CalcHash.simps)
  have "1 < length xs" using Suc.prems(4) one_le_power [of "2 :: nat" "Suc h"] by linarith
  moreover have "pos * 2 ^ Suc h < length (next_row xs)" "2 ^ h < length (next_row xs)"
    using Suc.prems(3,4) by simp_all
  then have "(CalcHash (length (next_row xs)) h (pos * 2) (next_row xs),
    if pos * 2 + 1 < CalcTreeWidth (length (next_row xs)) h then CalcHash (length (next_row xs)) h (pos * 2 + 1) (next_row xs)
    else CalcHash (length (next_row xs)) h (pos * 2) (next_row xs)) \<in> set (tree_pairs (next_row xs))"
    using Suc.prems(1,2) by (intro Suc.IH) simp_all
  ultimately show ?case unfolding w left using right by (auto simp: tree_pairs_step [of xs] simp del: CalcHash.simps)
qed

lemma extract_leaf_bad: "\<not> bad (snd (extract_leaf t m st)) \<Longrightarrow> \<not> bad st"
  by (auto simp: extract_leaf_def Let_def split: if_splits)

lemma extract_bad: "\<not> bad (snd (TraverseAndExtract t h pos st)) \<Longrightarrow> \<not> bad st"
proof (induction h arbitrary: pos st)
  case 0
  then show ?case by (auto dest: extract_leaf_bad split: if_splits)
next
  case (Suc h)
  let ?st = "st\<lparr>nBitsUsed := nBitsUsed st + 1\<rparr>"
  show ?case
    using Suc.prems Suc.IH [of "pos * 2" ?st] Suc.IH [of "pos * 2 + 1" "snd (TraverseAndExtract t h (pos * 2) ?st)"]
      extract_leaf_bad [of t False ?st]
    by (auto simp: Let_def split_beta split: if_splits)
qed


lemma extract_leaf_found:
  "\<not> bad (snd (extract_leaf t m st)) \<Longrightarrow>
   found (snd (extract_leaf t m st)) = found st @ (if m then [fst (extract_leaf t m st)] else [])"
  by (auto simp: extract_leaf_def Let_def split: if_splits)

lemma extract_authentic:
  assumes "nTransactions t = length xs" "length xs \<le> 2 ^ 17" "h \<le> 17" "pos * 2 ^ h < length xs"
    and "h = 0 \<or> 2 ^ (h - 1) < length xs"
    and "no_collision (extract_pairs t h pos st) (tree_pairs xs)"
    and "TraverseAndExtract t h pos st = (CalcHash (length xs) h pos xs, st')" "\<not> bad st'"
  shows "\<exists>new. found st' = found st @ new \<and> subseq new (map (\<lambda>p. xs ! p) (leaves (length xs) h pos))"
  using assms
proof (induction h arbitrary: pos st st')
  case 0
  then show ?case
    using extract_leaf_found [of t "vBits t ! nBitsUsed st" "st\<lparr>nBitsUsed := nBitsUsed st + 1\<rparr>"]
    by (auto simp: leaves_0 split: if_splits)
next
  case (Suc h)
  let ?st = "st\<lparr>nBitsUsed := nBitsUsed st + 1\<rparr>" and ?n = "length xs"
  have used: "nBitsUsed st < length (vBits t)" using Suc.prems(7,8) by (auto split: if_splits)
  show ?case
  proof (cases "vBits t ! nBitsUsed st")
    case False
    then show ?thesis using used Suc.prems(7,8) extract_leaf_found [of t False ?st] by auto
  next
    case True
    obtain hashL st1 where L: "TraverseAndExtract t h (pos * 2) ?st = (hashL, st1)" by fastforce
    obtain hashR st2 where R: "TraverseAndExtract t h (pos * 2 + 1) st1 = (hashR, st2)" by fastforce
    let ?w = "pos * 2 + 1 < CalcTreeWidth ?n h"
    have "(2 :: nat) ^ Suc h \<le> 2 ^ 17" using Suc.prems(3) by (intro power_increasing) auto
    then have small: "?n + 2 ^ Suc h \<le> 2 ^ 32" using Suc.prems(2) by simp
    have h: "2 ^ h < ?n" using Suc.prems(5) by simp
    then have h': "h = 0 \<or> 2 ^ (h - 1) < ?n" by (cases h) auto
    let ?cl = "CalcHash ?n h (pos * 2) xs" and ?cr = "CalcHash ?n h (pos * 2 + 1) xs"
    have pair: "(?cl, if ?w then ?cr else ?cl) \<in> set (tree_pairs xs)"
      using Suc.prems(2-4) h by (intro CalcHash_pair) simp_all
    have lpos: "pos * 2 * 2 ^ h < ?n" using Suc.prems(4) by (simp add: mult.assoc)
    have rpos: "(pos * 2 + 1) * 2 ^ h < ?n" if ?w using that small less_CalcTreeWidth [of ?n h "pos * 2 + 1"] by simp
    have leaf: "leaves ?n (Suc h) pos = leaves ?n h (pos * 2) @ (if ?w then leaves ?n h (pos * 2 + 1) else [])"
      using leaves_Suc [OF small Suc.prems(4)] .
    show ?thesis
    proof (cases ?w)
      case w: True
      have pairs: "extract_pairs t (Suc h) pos st =
          (hashL, hashR) # extract_pairs t h (pos * 2) ?st @ extract_pairs t h (pos * 2 + 1) st1"
        using True used w L R Suc.prems(1) by simp
      have res: "Hash2 hashL hashR = Hash2 ?cl ?cr" "st' = st2"
        using Suc.prems(1,7) True used w L R by (simp_all add: Let_def)
      then have "hashL = ?cl \<and> hashR = ?cr"
        using no_collisionD [OF Suc.prems(6), of hashL hashR ?cl ?cr] pair w pairs by simp
      then have LR: "TraverseAndExtract t h (pos * 2) ?st = (?cl, st1)" "TraverseAndExtract t h (pos * 2 + 1) st1 = (?cr, st2)"
        using L R by auto
      have ok: "\<not> bad st2" "\<not> bad st1" using Suc.prems(8) res extract_bad [of t h "pos * 2 + 1" st1] R by auto
      have nc: "no_collision (extract_pairs t h (pos * 2) ?st) (tree_pairs xs)"
          "no_collision (extract_pairs t h (pos * 2 + 1) st1) (tree_pairs xs)"
        using no_collision_sub [OF Suc.prems(6) _ order_refl] unfolding pairs by auto
      have "h \<le> 17" using Suc.prems(3) by simp
      obtain l where "found st1 = found ?st @ l" "subseq l (map (\<lambda>p. xs ! p) (leaves ?n h (pos * 2)))"
        using Suc.IH [OF Suc.prems(1,2) \<open>h \<le> 17\<close> lpos h' nc(1) LR(1) ok(2)] by blast
      moreover obtain r where "found st2 = found st1 @ r" "subseq r (map (\<lambda>p. xs ! p) (leaves ?n h (pos * 2 + 1)))"
        using Suc.IH [OF Suc.prems(1,2) \<open>h \<le> 17\<close> rpos [OF w] h' nc(2) LR(2) ok(1)] by blast
      ultimately show ?thesis using leaf w res(2) by (auto intro!: list_emb_append_mono)
    next
      case w: False
      have pairs: "extract_pairs t (Suc h) pos st = (hashL, hashL) # extract_pairs t h (pos * 2) ?st"
        using True used w L R Suc.prems(1) by simp
      have res: "Hash2 hashL hashL = Hash2 ?cl ?cl" "st' = st1"
        using Suc.prems(1,7) True used w L by (simp_all add: Let_def)
      then have l: "TraverseAndExtract t h (pos * 2) ?st = (?cl, st1)"
        using no_collisionD [OF Suc.prems(6), of hashL hashL ?cl ?cl] pair w pairs L by simp
      have nc: "no_collision (extract_pairs t h (pos * 2) ?st) (tree_pairs xs)"
        using no_collision_sub [OF Suc.prems(6) _ order_refl] unfolding pairs by auto
      have "h \<le> 17" "\<not> bad st1" using Suc.prems(3,8) res(2) by auto
      then show ?thesis
        using Suc.IH [OF Suc.prems(1,2) _ lpos h' nc l] leaf w res(2) by simp
    qed
  qed
qed


interpretation hash_codec: canonical_codec "\<lambda>h. length h = 32" id "read_bytes 32"
  by (rule canonical_codecI) (auto simp: result_iff)

interpretation hash_vector: canonical_codec "\<lambda>v. fits v \<and> list_all (\<lambda>h. length h = 32) v" "Serialize_vector id"
    "Unserialize_vector 32 (read_bytes 32)"
  by (rule canonical_vector) (unfold_locales, simp_all)

lemma built_hashes:
  assumes "list_all (\<lambda>h. length h = 32) vTxid"
  shows "pos * 2 ^ h < length vTxid \<Longrightarrow> length vTxid + 2 ^ h \<le> 2 ^ 32 \<Longrightarrow>
    list_all (\<lambda>h. length h = 32) (snd (built (length vTxid) h pos vTxid vMatch))"
proof (induction h arbitrary: pos)
  case (Suc h)
  have "(pos * 2 + 1) * 2 ^ h < length vTxid" if "pos * 2 + 1 < CalcTreeWidth (length vTxid) h"
    using that Suc.prems less_CalcTreeWidth [of "length vTxid" h "pos * 2 + 1"] by simp
  then show ?case using Suc.prems Suc.IH [of "pos * 2"] Suc.IH [of "pos * 2 + 1"] by (simp add: Let_def mult.assoc)
qed (use assms in \<open>simp add: list_all_length\<close>)


lemma length_built_bits: "length (fst (built n h pos vTxid vMatch)) < 2 * 2 ^ h"
proof (induction h arbitrary: pos)
  case (Suc h)
  have "Suc 0 < 4 * 2 ^ h" using one_le_power [of "2 :: nat" h] by linarith
  then show ?case using Suc.IH [of "pos * 2"] Suc.IH [of "pos * 2 + 1"] by (simp add: Let_def)
qed simp

text \<open>C25: a partial Merkle tree proves what it was built for.  Built from the transactions of a block, of which
  at most \<open>MAX_BLOCK_SIZE / 60\<close> are allowed, and a mask, and sent through the serialization, which pads
  the flag bits to whole bytes, it yields the Merkle root of the block and exactly the transactions of the
  mask, in their order.\<close>

theorem partial_tree_roundtrip:
  assumes "vTxid \<noteq> []" "length vTxid \<le> MAX_BLOCK_SIZE div 60" "length vMatch = length vTxid"
    and "list_all (\<lambda>h. length h = 32) vTxid"
  defines "result \<equiv> (fst (BuildMerkleTree vTxid), map fst (filter snd (zip vTxid vMatch)))"
  shows "ExtractMatches (CPartialMerkleTree_new vTxid vMatch) = result \<and>
    rbind (Unserialize_CPartialMerkleTree (Serialize_CPartialMerkleTree (CPartialMerkleTree_new vTxid vMatch) @ rest))
      (\<lambda>(t, s). Inr (ExtractMatches t, s)) = Inr (result, rest)"
proof -
  let ?n = "length vTxid" and ?h = "tree_height (length vTxid) 0"
  let ?b = "built ?n ?h 0 vTxid vMatch"
  have n: "0 < ?n" "?n \<le> 2 ^ 17" using assms(1,2) by (auto simp: MAX_BLOCK_SIZE_def)
  have "(2 :: nat) ^ ?h \<le> 2 ^ 17" using tree_height_small [of ?n 0] n(2) by (intro power_increasing) auto
  then have small: "0 * 2 ^ ?h < ?n" "?n + 2 ^ ?h \<le> 2 ^ 32" and pow: "2 * 2 ^ ?h \<le> (2 :: nat) ^ 18" using n by auto
  have t: "CPartialMerkleTree_new vTxid vMatch = \<lparr>nTransactions = ?n, vBits = fst ?b, vHash = snd ?b, fBad = False\<rparr>"
    by (simp add: CPartialMerkleTree_new_def TraverseAndBuild_eq Let_def split_beta)
  have result: "result = (merkle_root vTxid, map fst (filter snd (zip vTxid vMatch)))"
    using assms(1) by (simp add: result_def BuildMerkleTree_eq)
  have "length (snd ?b) \<le> length (leaves ?n ?h 0)" using length_built [OF small] by blast
  also have "\<dots> \<le> ?n" by (simp add: leaves_def)
  finally have "fits (snd ?b)" using assms(2) by (simp add: fits_def MAX_BLOCK_SIZE_def)
  moreover have "fits (pack_bits (fst ?b))"
    using length_built_bits [of ?n ?h 0 vTxid vMatch] pow pack_prefix_bits [OF order_refl, of "fst ?b", folded pack_bits_eq]
    by (simp add: fits_def)
  moreover have "unat (of_nat ?n :: u32) = ?n" using n(2) by (simp add: unat_of_nat)
  ultimately have "Unserialize_CPartialMerkleTree (Serialize_CPartialMerkleTree (CPartialMerkleTree_new vTxid vMatch) @ rest) =
      Inr (\<lparr>nTransactions = ?n, vBits = unpack_bits (pack_bits (fst ?b)), vHash = snd ?b, fBad = False\<rparr>, rest)"
    using built_hashes [OF assms(4) small, of vMatch]
    by (simp add: t Unserialize_CPartialMerkleTree_def Serialize_CPartialMerkleTree_def
        u32.dec_enc hash_vector.dec_enc blob.dec_enc)
  moreover have "ExtractMatches \<lparr>nTransactions = ?n, vBits = unpack_bits (pack_bits (fst ?b)), vHash = snd ?b, fBad = False\<rparr> = result"
    unfolding result by (rule ExtractMatches_built [OF assms(1-3) refl]) (simp_all add: unpack_pack)
  moreover have "ExtractMatches (CPartialMerkleTree_new vTxid vMatch) = result"
    unfolding result t by (rule ExtractMatches_built [OF assms(1-3) refl, where k = 0]) simp_all
  ultimately show ?thesis by simp
qed

theorem partial_tree_roundtrip_witness:
  "ExtractMatches (CPartialMerkleTree_new [replicate 32 1, replicate 32 2, replicate 32 3] [False, True, True]) =
     (fst (BuildMerkleTree [replicate 32 1, replicate 32 2, replicate 32 3]), [replicate 32 2, replicate 32 3])"
  using partial_tree_roundtrip [of "[replicate 32 1, replicate 32 2, replicate 32 3]" "[False, True, True]"] by (simp add: MAX_BLOCK_SIZE_def)

text \<open>C24: a partial Merkle tree proves nothing else.  Whatever tree a client is sent, if it claims the right
  number of transactions and yields the nonzero root of a block, then the transactions it yields are
  transactions of the block, in the order of the block, unless the client hashed a pair that collides with a
  pair of the tree of the block.\<close>

theorem ExtractMatches_authentic:
  assumes "ExtractMatches t = (root, matches)" "root = fst (BuildMerkleTree vtx)" "root \<noteq> uint256_zero"
    and "nTransactions t = length vtx" "no_collision (client_pairs t) (tree_pairs vtx)"
  shows "subseq matches vtx"
proof -
  let ?n = "length vtx" and ?h = "tree_height (length vtx) 0"
  let ?st = "\<lparr>nBitsUsed = 0, nHashUsed = 0, found = [], bad = fBad t\<rparr>"
  have n: "0 < ?n" "?n \<le> 2 ^ 17" using assms(1,3,4) by (auto simp: ExtractMatches_def MAX_BLOCK_SIZE_def split: if_splits)
  then have h: "?h \<le> 17" using tree_height_small [of ?n 0] by auto
  obtain st where st: "TraverseAndExtract t ?h 0 ?st = (root, st)" "\<not> bad st" "matches = found st"
    using assms(1,3,4) by (auto simp: ExtractMatches_def split: if_splits prod.splits)
  have "root = CalcHash ?n ?h 0 vtx" using assms(2) n CalcHash_root [of vtx] by (auto simp: BuildMerkleTree_eq)
  moreover have "?h = 0 \<or> 2 ^ (?h - 1) < ?n"
  proof (cases "?h")
    case (Suc k)
    then have "1 < CalcTreeWidth ?n k" by (intro tree_height_before) auto
    then have "1 * 2 ^ k < ?n"
      using less_CalcTreeWidth [of ?n k 1] tree_height_power [OF n(2), of k] Suc h by (simp add: add.commute)
    then show ?thesis using Suc by simp
  qed simp
  ultimately obtain new where "found st = found ?st @ new" "subseq new (map (\<lambda>p. vtx ! p) (leaves ?n ?h 0))"
    using extract_authentic [OF assms(4) n(2) h, of 0 ?st st] n st assms(4,5) by (auto simp: client_pairs_def)
  moreover have "map (\<lambda>p. vtx ! p) (leaves ?n ?h 0) = vtx" using leaves_root [OF n(2)] map_nth [of vtx] by simp
  ultimately show ?thesis using st(3) by simp
qed

theorem ExtractMatches_authentic_witness:
  "subseq (snd (ExtractMatches \<lparr>nTransactions = 1, vBits = [True], vHash = [replicate 32 7], fBad = False\<rparr>)) [replicate 32 7]"
proof -
  let ?t = "\<lparr>nTransactions = 1, vBits = [True], vHash = [replicate 32 7], fBad = False\<rparr>"
  have "ExtractMatches ?t = (replicate 32 7, [replicate 32 7])"
    by (simp add: ExtractMatches_def MAX_BLOCK_SIZE_def tree_height_0 extract_leaf_def Let_def)
  moreover have "client_pairs ?t = []" by (simp add: client_pairs_def tree_height_0)
  ultimately show ?thesis
    using ExtractMatches_authentic [of ?t "replicate 32 7" "[replicate 32 7]" "[replicate 32 7]"]
    by (simp add: BuildMerkleTree_eq no_collision_def replicate_eq_replicate)
qed

end
