(* ===== verification/Compressor.thy ===== *)
theory Compressor
  imports Script Signature
begin

text \<open>
  The compact encoding of outputs, \<^verbatim>\<open>src/src/compressor.h\<close> and
  \<^verbatim>\<open>src/src/compressor.cpp\<close>: amounts are stored as a mantissa and an exponent, and
  three kinds of scripts as the bytes that vary.  The decompression and the full check of a public key are
  done by an elliptic curve library; they are the parameters \<open>ec_valid\<close> and \<open>ec_decompress\<close>, from the
  bytes of a key to whether it is a point and to the bytes of the uncompressed key.
\<close>

section \<open>Variable-length integers of 32 bits\<close>

text \<open>The templates at \<^verbatim>\<open>unsigned int\<close> and \<^verbatim>\<open>int\<close>.\<close>

definition WriteVarInt_u32 :: "u32 \<Rightarrow> bytes" where
  "WriteVarInt_u32 n = WriteVarInt (ucast n)"

fun ReadVarInt_u32_loop :: "u32 \<Rightarrow> u32 reader" where
  "ReadVarInt_u32_loop n [] = Inl End_of_data"
| "ReadVarInt_u32_loop n (chData # s) =
     (let n1 = push_bit 7 n OR ucast (chData AND 0x7F)
      in if chData AND 0x80 \<noteq> 0 then ReadVarInt_u32_loop (n1 + 1) s else Inr (n1, s))"

definition ReadVarInt_u32 :: "u32 reader" where
  "ReadVarInt_u32 s = ReadVarInt_u32_loop 0 s"

definition WriteVarInt_int :: "int \<Rightarrow> bytes" where
  "WriteVarInt_int n = (if n \<le> 0x7F then [of_int n AND 0x7F] else WriteVarInt (of_int n))"

definition ReadVarInt_int :: "int reader" where
  "ReadVarInt_int s = rbind (ReadVarInt_u32 s) (\<lambda>(n, s). Inr (sint n, s))"

section \<open>Amounts\<close>

function compress_exponent :: "u64 \<Rightarrow> nat \<Rightarrow> u64 \<times> nat" where
  "compress_exponent n e = (if n mod 10 = 0 \<and> e < 9 then compress_exponent (n div 10) (e + 1) else (n, e))"
  by pat_completeness auto
termination
  by (relation "measure (\<lambda>(n, e). 9 - e)") auto

declare compress_exponent.simps [simp del]

definition CompressAmount :: "u64 \<Rightarrow> u64" where
  "CompressAmount n =
     (if n = 0 then 0
      else case compress_exponent n 0 of (n, e) \<Rightarrow>
        if e < 9 then (let d = n mod 10; n = n div 10 in 1 + (n * 9 + d - 1) * 10 + of_nat e)
        else 1 + (n - 1) * 10 + 9)"

fun scale :: "nat \<Rightarrow> u64 \<Rightarrow> u64" where
  "scale 0 n = n"
| "scale (Suc e) n = scale e (n * 10)"

definition DecompressAmount :: "u64 \<Rightarrow> u64" where
  "DecompressAmount x =
     (if x = 0 then 0
      else let x = x - 1; e = unat (x mod 10); x = x div 10;
               n = (if e < 9 then (let d = x mod 9 + 1; x = x div 9 in x * 10 + d) else x + 1)
           in scale e n)"

section \<open>Scripts\<close>

definition IsToKeyID :: "CScript \<Rightarrow> bytes option" where
  "IsToKeyID script =
     (if length script = 25 \<and> script ! 0 = OP_DUP \<and> script ! 1 = OP_HASH160 \<and> script ! 2 = 20 \<and>
         script ! 23 = OP_EQUALVERIFY \<and> script ! 24 = OP_CHECKSIG
      then Some (take 20 (drop 3 script)) else None)"

definition IsToScriptID :: "CScript \<Rightarrow> bytes option" where
  "IsToScriptID script =
     (if length script = 23 \<and> script ! 0 = OP_HASH160 \<and> script ! 1 = 20 \<and> script ! 22 = OP_EQUAL
      then Some (take 20 (drop 2 script)) else None)"

definition CPubKey_IsFullyValid :: "(bytes \<Rightarrow> bool) \<Rightarrow> bytes \<Rightarrow> bool" where
  "CPubKey_IsFullyValid ec_valid vch \<longleftrightarrow> CPubKey_IsValid vch \<and> ec_valid (CPubKey_Raw vch)"

definition CPubKey_Decompress :: "(bytes \<Rightarrow> bytes option) \<Rightarrow> bytes \<Rightarrow> bytes option" where
  "CPubKey_Decompress ec_decompress vch =
     (if \<not> CPubKey_IsValid vch then None
      else case ec_decompress (CPubKey_Raw vch) of None \<Rightarrow> None | Some pubkey \<Rightarrow> Some (CPubKey_Set pubkey vch))"

definition IsToPubKey :: "(bytes \<Rightarrow> bool) \<Rightarrow> CScript \<Rightarrow> bytes option" where
  "IsToPubKey ec_valid script =
     (if length script = 35 \<and> script ! 0 = 33 \<and> script ! 34 = OP_CHECKSIG \<and> (script ! 1 = 0x02 \<or> script ! 1 = 0x03)
      then Some (CPubKey_of (take 33 (drop 1 script)))
      else if length script = 67 \<and> script ! 0 = 65 \<and> script ! 66 = OP_CHECKSIG \<and> script ! 1 = 0x04
      then (let pubkey = CPubKey_of (take 65 (drop 1 script))
            in if CPubKey_IsFullyValid ec_valid pubkey then Some pubkey else None)
      else None)"

definition Compress :: "(bytes \<Rightarrow> bool) \<Rightarrow> CScript \<Rightarrow> bytes option" where
  "Compress ec_valid script =
     (case IsToKeyID script of Some keyID \<Rightarrow> Some (0x00 # keyID) | None \<Rightarrow>
      case IsToScriptID script of Some scriptID \<Rightarrow> Some (0x01 # scriptID) | None \<Rightarrow>
      case IsToPubKey ec_valid script of
        Some pubkey \<Rightarrow>
          if pubkey ! 0 = 0x02 \<or> pubkey ! 0 = 0x03 then Some (pubkey ! 0 # take 32 (drop 1 pubkey))
          else if pubkey ! 0 = 0x04 then Some ((0x04 OR (pubkey ! 64 AND 0x01)) # take 32 (drop 1 pubkey))
          else None
      | None \<Rightarrow> None)"

definition GetSpecialSize :: "nat \<Rightarrow> nat" where
  "GetSpecialSize nSize =
     (if nSize = 0 \<or> nSize = 1 then 20
      else if nSize = 2 \<or> nSize = 3 \<or> nSize = 4 \<or> nSize = 5 then 32
      else 0)"

text \<open>The script that is written, \<open>None\<close> when the call returns false and leaves the script as it is.  The
  assertion on the size of the key is \<open>Inl\<close>.\<close>

datatype decompress_error = Assert_failed

definition Decompress :: "(bytes \<Rightarrow> bytes option) \<Rightarrow> nat \<Rightarrow> bytes \<Rightarrow> decompress_error + CScript option" where
  "Decompress ec_decompress nSize data =
     (if nSize = 0 then Inr (Some ([OP_DUP, OP_HASH160, 20] @ take 20 data @ [OP_EQUALVERIFY, OP_CHECKSIG]))
      else if nSize = 1 then Inr (Some ([OP_HASH160, 20] @ take 20 data @ [OP_EQUAL]))
      else if nSize = 2 \<or> nSize = 3 then Inr (Some ([33, of_nat nSize] @ take 32 data @ [OP_CHECKSIG]))
      else if nSize = 4 \<or> nSize = 5 then
        (case CPubKey_Decompress ec_decompress (CPubKey_of (of_nat (nSize - 2) # take 32 data)) of
           None \<Rightarrow> Inr None
         | Some pubkey \<Rightarrow>
             if CPubKey_size pubkey \<noteq> 65 then Inl Assert_failed
             else Inr (Some ([65] @ take 65 pubkey @ [OP_CHECKSIG])))
      else Inr None)"

abbreviation nSpecialScripts :: nat where "nSpecialScripts \<equiv> 6"

definition Serialize_CScriptCompressor :: "(bytes \<Rightarrow> bool) \<Rightarrow> CScript \<Rightarrow> bytes" where
  "Serialize_CScriptCompressor ec_valid script =
     (case Compress ec_valid script of
        Some compr \<Rightarrow> compr
      | None \<Rightarrow> WriteVarInt_u32 (of_nat (length script + nSpecialScripts)) @ script)"

definition GetSerializeSize_CScriptCompressor :: "(bytes \<Rightarrow> bool) \<Rightarrow> CScript \<Rightarrow> nat" where
  "GetSerializeSize_CScriptCompressor ec_valid script =
     (case Compress ec_valid script of
        Some compr \<Rightarrow> length compr
      | None \<Rightarrow> length script + GetSizeOfVarInt (ucast (of_nat (length script + nSpecialScripts) :: u32)))"

text \<open>Reading: an error of the stream, or the assertion.\<close>

datatype unser_error = Stream_error ser_error | Failed_assert

fun from_stream :: "ser_error + 'a \<Rightarrow> unser_error + 'a" where
  "from_stream (Inl e) = Inl (Stream_error e)"
| "from_stream (Inr x) = Inr x"

definition Unserialize_CScriptCompressor ::
    "(bytes \<Rightarrow> bytes option) \<Rightarrow> CScript \<Rightarrow> bytes \<Rightarrow> unser_error + CScript \<times> bytes" where
  "Unserialize_CScriptCompressor ec_decompress script s =
     rbind (from_stream (ReadVarInt_u32 s)) (\<lambda>(n, s).
       let nSize = unat n in
       if nSize < nSpecialScripts then
         rbind (from_stream (read_bytes (GetSpecialSize nSize) s)) (\<lambda>(vch, s).
           case Decompress ec_decompress nSize vch of
             Inl _ \<Rightarrow> Inl Failed_assert
           | Inr None \<Rightarrow> Inr (script, s)
           | Inr (Some script') \<Rightarrow> Inr (script', s))
       else from_stream (read_bytes (nSize - nSpecialScripts) s))"

definition Serialize_CTxOutCompressor :: "(bytes \<Rightarrow> bool) \<Rightarrow> CTxOut \<Rightarrow> bytes" where
  "Serialize_CTxOutCompressor ec_valid txout =
     WriteVarInt (CompressAmount (of_int (nValue txout))) @ Serialize_CScriptCompressor ec_valid (scriptPubKey txout)"

definition Unserialize_CTxOutCompressor ::
    "(bytes \<Rightarrow> bytes option) \<Rightarrow> CTxOut \<Rightarrow> bytes \<Rightarrow> unser_error + CTxOut \<times> bytes" where
  "Unserialize_CTxOutCompressor ec_decompress txout s =
     rbind (from_stream (ReadVarInt s)) (\<lambda>(nVal, s).
     rbind (Unserialize_CScriptCompressor ec_decompress (scriptPubKey txout) s) (\<lambda>(script, s).
       Inr (txout\<lparr>nValue := sint (DecompressAmount nVal), scriptPubKey := script\<rparr>, s)))"

section \<open>Variable-length integers\<close>

lemma ucast_inc: "ucast m + 1 = (ucast (m + 1 :: u64) :: u32)"
proof transfer
  fix m :: int
  have "take_bit 32 (take_bit 64 m + 1) = take_bit 32 (take_bit 32 (take_bit 64 m) + take_bit 32 1)" by (rule take_bit_add [symmetric])
  also have "\<dots> = take_bit 32 (take_bit 32 m + take_bit 32 1)" by simp
  also have "\<dots> = take_bit 32 (m + 1)" by (rule take_bit_add)
  finally show "take_bit LENGTH(32) (take_bit LENGTH(64) m + 1) = take_bit LENGTH(32) (take_bit LENGTH(64) (m + 1))" by simp
qed

lemma ReadVarInt_u32_loop_ucast:
  "ReadVarInt_u32_loop (ucast n) s =
     (case ReadVarInt_loop n s of Inl e \<Rightarrow> Inl e | Inr (m, r) \<Rightarrow> Inr (ucast m, r))"
proof (induction s arbitrary: n)
  case (Cons c s)
  have step: "push_bit 7 (ucast n) OR ucast (c AND 0x7F) = (ucast (push_bit 7 n OR ucast (c AND 0x7F) :: u64) :: u32)"
    by (rule bit_word_eqI) (auto simp: bit_simps)
  show ?case using Cons.IH by (simp add: Let_def step ucast_inc)
qed simp


interpretation varint_u32: codec "\<lambda>_. True" WriteVarInt_u32 ReadVarInt_u32
proof unfold_locales
  fix n :: u32 and rest
  have "ucast (ucast n :: u64) = n" by (rule bit_word_eqI) (auto simp: bit_simps)
  then show "ReadVarInt_u32 (WriteVarInt_u32 n @ rest) = Inr (n, rest)"
    using ReadVarInt_u32_loop_ucast [of 0 "WriteVarInt_u32 n @ rest"] varint.dec_enc [of "ucast n" rest]
    by (simp add: ReadVarInt_u32_def WriteVarInt_u32_def ReadVarInt_def)
qed

lemma WriteVarInt_small:
  assumes "n \<le> 0x7F"
  shows "WriteVarInt n = [ucast n]"
proof -
  have "unat n < 2 ^ 7" using assms by (simp add: word_le_nat_alt)
  then have "take_bit 7 n = n" by (simp add: word_unat_eq_iff unsigned_take_bit_eq take_bit_nat_eq_self)
  then have "n AND 0x7F = n" by (simp add: septet_mask take_bit_eq_mask)
  then show ?thesis using assms by (simp add: WriteVarInt_def varint_tmp.simps [of 0 n])
qed

lemma uint_of_int_small: "0 \<le> n \<Longrightarrow> n < 2 ^ 31 \<Longrightarrow> uint (of_int n :: u64) = n \<and> uint (of_int n :: u32) = n"
  by (simp add: uint_word_of_int_eq take_bit_int_eq_self_iff)

lemma WriteVarInt_int_u32:
  assumes "0 \<le> n" "n < 2 ^ 31"
  shows "WriteVarInt_int n = WriteVarInt_u32 (of_int n)"
proof -
  have u: "ucast (of_int n :: u32) = (of_int n :: u64)"
    using assms by (simp add: unsigned_of_int take_bit_int_eq_self)
  show ?thesis
  proof (cases "n \<le> 0x7F")
    case True
    have "take_bit 7 (of_int n :: byte) = of_int (take_bit 7 n)" by (simp add: take_bit_of_int)
    then have "of_int n AND 0x7F = (of_int n :: byte)"
      using True assms(1) by (simp add: septet_mask take_bit_eq_mask [symmetric] take_bit_int_eq_self)
    moreover have "ucast (of_int n :: u64) = (of_int n :: byte)"
      using True assms(1) by (simp add: unsigned_of_int take_bit_int_eq_self)
    moreover have "(of_int n :: u64) \<le> 0x7F"
      using True uint_of_int_small [OF assms] by (simp add: word_le_def)
    ultimately show ?thesis using True by (simp add: WriteVarInt_int_def WriteVarInt_u32_def u WriteVarInt_small)
  qed (simp add: WriteVarInt_int_def WriteVarInt_u32_def u)
qed

interpretation varint_int: codec "\<lambda>n. 0 \<le> n \<and> n < 2 ^ 31" WriteVarInt_int ReadVarInt_int
proof unfold_locales
  fix n :: int and rest assume n: "0 \<le> n \<and> n < 2 ^ 31"
  have "sint (of_int n :: u32) = n" using n by (simp add: signed_of_int signed_take_bit_int_eq_self_iff)
  then show "ReadVarInt_int (WriteVarInt_int n @ rest) = Inr (n, rest)"
    using n varint_u32.dec_enc [of "of_int n" rest] by (simp add: ReadVarInt_int_def WriteVarInt_int_u32)
qed

section \<open>Amounts\<close>

lemma word_div_nat: "a < 2 ^ 64 \<Longrightarrow> b < 2 ^ 64 \<Longrightarrow> (of_nat a :: u64) div of_nat b = of_nat (a div b)"
  using word_arith_nat_div [of "of_nat a :: u64" "of_nat b"] by (simp add: unat_of_nat)

lemma word_mod_nat: "a < 2 ^ 64 \<Longrightarrow> b < 2 ^ 64 \<Longrightarrow> (of_nat a :: u64) mod of_nat b = of_nat (a mod b)"
  using word_arith_nat_mod [of "of_nat a :: u64" "of_nat b"] by (simp add: unat_of_nat)

lemma of_nat_eq_0: "a < 2 ^ 64 \<Longrightarrow> (of_nat a :: u64) = 0 \<longleftrightarrow> a = 0"
  by (simp add: word_unat_eq_iff unat_of_nat)

lemma compress_exponent_unique:
  "K * 10 ^ k < 2 ^ 64 \<Longrightarrow> e + k \<le> 9 \<Longrightarrow> K mod 10 \<noteq> 0 \<or> e + k = 9 \<Longrightarrow>
   compress_exponent (of_nat (K * 10 ^ k)) e = (of_nat K, e + k)"
proof (induction k arbitrary: e)
  case 0
  have "(of_nat K :: u64) mod 10 = of_nat (K mod 10)" using 0 word_mod_nat [of K 10] by simp
  then show ?case using 0 of_nat_eq_0 [of "K mod 10"] by (auto simp: compress_exponent.simps [of _ e])
next
  case (Suc k)
  let ?n = "K * 10 ^ k"
  have n: "?n * 10 < 2 ^ 64" using Suc.prems(1) by (simp add: mult.commute mult.left_commute)
  have "(of_nat (?n * 10) :: u64) mod 10 = 0" "(of_nat (?n * 10) :: u64) div 10 = of_nat ?n"
    using n word_mod_nat [of "?n * 10" 10] word_div_nat [of "?n * 10" 10] by simp_all
  then show ?case
    using Suc.prems Suc.IH [of "Suc e"] n by (simp add: compress_exponent.simps [of _ e] mult.commute mult.left_commute)
qed


text \<open>The format on natural numbers: a mantissa \<open>K\<close> and an exponent \<open>e\<close>.\<close>

definition amount_code :: "nat \<Rightarrow> nat \<Rightarrow> nat" where
  "amount_code K e = (if e < 9 then 1 + (K div 10 * 9 + K mod 10 - 1) * 10 + e else 1 + (K - 1) * 10 + 9)"

definition amount_value :: "nat \<Rightarrow> nat" where
  "amount_value X =
     (if X = 0 then 0
      else let e = (X - 1) mod 10; Z = (X - 1) div 10
           in (if e < 9 then Z div 9 * 10 + (Z mod 9 + 1) else Z + 1) * 10 ^ e)"

lemma scale_eq: "scale e n = n * 10 ^ e"
  by (induction e arbitrary: n) (simp_all add: mult.assoc)

lemma DecompressAmount_value: "X < 2 ^ 64 \<Longrightarrow> DecompressAmount (of_nat X) = of_nat (amount_value X)"
proof -
  assume X: "X < 2 ^ 64"
  show ?thesis
  proof (cases "X = 0")
    case False
    let ?Z = "(X - 1) div 10"
    have "(of_nat X :: u64) - 1 = of_nat (X - 1)" using False by (simp add: of_nat_diff)
    moreover have "(of_nat (X - 1) :: u64) mod 10 = of_nat ((X - 1) mod 10)" "(of_nat (X - 1) :: u64) div 10 = of_nat ?Z"
      using X word_mod_nat [of "X - 1" 10] word_div_nat [of "X - 1" 10] by simp_all
    moreover have "(of_nat ?Z :: u64) mod 9 = of_nat (?Z mod 9)" "(of_nat ?Z :: u64) div 9 = of_nat (?Z div 9)"
      using X word_mod_nat [of ?Z 9] word_div_nat [of ?Z 9] by (simp_all add: less_le_trans [OF _ X [THEN less_imp_le]])
    moreover have "(X - 1) mod 10 < 10" by simp
    then have "unat (of_nat ((X - 1) mod 10) :: u64) = (X - 1) mod 10" by (simp only: unat_of_nat) simp
    moreover have "(of_nat X :: u64) \<noteq> 0" using X False by (simp add: of_nat_eq_0)
    ultimately show ?thesis
      using False by (simp add: DecompressAmount_def amount_value_def Let_def scale_eq add_ac del: of_nat_diff)
  qed (simp add: DecompressAmount_def amount_value_def)
qed

lemma CompressAmount_code:
  assumes "K * 10 ^ e < 2 ^ 64" "K \<noteq> 0" "e < 9 \<and> K mod 10 \<noteq> 0 \<or> e = 9"
  shows "CompressAmount (of_nat (K * 10 ^ e)) = of_nat (amount_code K e)"
proof -
  have "K \<le> K * 10 ^ e" by simp
  then have K: "K < 2 ^ 64" using assms(1) by linarith
  have "compress_exponent (of_nat (K * 10 ^ e)) 0 = (of_nat K, e)" using assms compress_exponent_unique [of K e 0] by auto
  moreover have "(of_nat K :: u64) mod 10 = of_nat (K mod 10)" "(of_nat K :: u64) div 10 = of_nat (K div 10)"
    using K word_mod_nat [of K 10] word_div_nat [of K 10] by simp_all
  moreover have "(of_nat (K * 10 ^ e) :: u64) \<noteq> 0" using assms(1,2) of_nat_eq_0 [of "K * 10 ^ e"] by simp
  moreover have "of_nat ((K - 1) * 10) = (of_nat K * 10 - 10 :: u64)" using assms(2) by (simp add: of_nat_diff algebra_simps)
  moreover have "of_nat ((K div 10 * 9 + K mod 10 - 1) * 10) = (90 * of_nat (K div 10) + of_nat (K mod 10) * 10 - 10 :: u64)"
    if "K mod 10 \<noteq> 0"
    using that by (simp add: of_nat_diff algebra_simps)
  ultimately show ?thesis
    using assms(3) by (auto simp: CompressAmount_def amount_code_def Let_def simp del: of_nat_mult of_nat_diff)
qed

lemma radix: "b < c \<Longrightarrow> (a * c + b) div c = a" "b < c \<Longrightarrow> (a * c + b) mod c = (b :: nat)"
  by simp_all

lemma amount_code_small:
  assumes "d < 9" "e < 9"
  shows "amount_code (q * 10 + (d + 1)) e = 1 + ((q * 9 + d) * 10 + e)"
proof -
  have "d + 1 < 10" using assms(1) by simp
  from radix [OF this, of q] show ?thesis using assms(2) unfolding amount_code_def by simp
qed

lemma amount_value_small:
  assumes "d < 9" "e < 9"
  shows "amount_value (1 + ((q * 9 + d) * 10 + e)) = (q * 10 + (d + 1)) * 10 ^ e"
proof -
  have "e < 10" using assms(2) by simp
  note Z = radix [OF this, of "q * 9 + d"] radix [OF assms(1), of q]
  have "1 + ((q * 9 + d) * 10 + e) - 1 = (q * 9 + d) * 10 + e" "1 + ((q * 9 + d) * 10 + e) \<noteq> 0" by simp_all
  then show ?thesis using assms(2) unfolding amount_value_def Let_def by (simp only: Z if_True if_False)
qed

lemma amount_9: "amount_code (Suc Z) 9 = 1 + (Z * 10 + 9)" "amount_value (1 + (Z * 10 + 9)) = Suc Z * 10 ^ 9"
proof -
  show "amount_code (Suc Z) 9 = 1 + (Z * 10 + 9)" by (simp add: amount_code_def)
  have "(9 :: nat) < 10" by simp
  note Z = radix [OF this, of Z]
  have "1 + (Z * 10 + 9) - 1 = Z * 10 + 9" "1 + (Z * 10 + 9) \<noteq> 0" "\<not> (9 :: nat) < 9" "Z + 1 = Suc Z" by simp_all
  then show "amount_value (1 + (Z * 10 + 9)) = Suc Z * 10 ^ 9"
    unfolding amount_value_def Let_def by (simp only: Z if_True if_False)
qed

lemma mantissa_cases:
  assumes "K \<noteq> 0" "e < 9 \<and> K mod 10 \<noteq> 0 \<or> e = (9 :: nat)"
  obtains q d where "K = q * 10 + (d + 1)" "d < 9" "e < 9" | Z where "K = Suc Z" "e = 9"
proof (cases "e = 9")
  case True
  then show ?thesis using assms(1) that(2) [of "K - 1"] by simp
next
  case False
  define q d where "q = K div 10" and "d = K mod 10 - 1"
  have "K = q * 10 + K mod 10" "K mod 10 < 10" by (simp_all add: q_def)
  moreover have "K mod 10 = d + 1" using False assms(2) by (simp add: d_def)
  ultimately show ?thesis using that(1) [of q d] False assms(2) by simp
qed

lemma amount_value_code:
  assumes "K \<noteq> 0" "e < 9 \<and> K mod 10 \<noteq> 0 \<or> e = 9"
  shows "amount_value (amount_code K e) = K * 10 ^ e"
  using assms by (cases rule: mantissa_cases) (simp_all only: amount_code_small amount_value_small amount_9)

lemma amount_code_value: "X \<noteq> 0 \<Longrightarrow> \<exists>K e. amount_code K e = X \<and> K \<noteq> 0 \<and> (e < 9 \<and> K mod 10 \<noteq> 0 \<or> e = 9)"
proof -
  assume "X \<noteq> 0"
  define Z e where "Z = (X - 1) div 10" and "e = (X - 1) mod 10"
  have X: "X = 1 + (Z * 10 + e)" "e < 10" using \<open>X \<noteq> 0\<close> div_mult_mod_eq [of "X - 1" 10] by (simp_all add: Z_def e_def)
  show ?thesis
  proof (cases "e = 9")
    case True
    then have "amount_code (Suc Z) e = X" using X(1) amount_9 by simp
    then show ?thesis using True by blast
  next
    case False
    define q d where "q = Z div 9" and "d = Z mod 9"
    have "Z = q * 9 + d" "d < 9" by (simp_all add: q_def d_def)
    moreover have "e < 9" using False X(2) by simp
    moreover have "(q * 10 + (d + 1)) mod 10 = d + 1" using \<open>d < 9\<close> by (intro radix) simp
    ultimately have "amount_code (q * 10 + (d + 1)) e = X" "(q * 10 + (d + 1)) mod 10 \<noteq> 0" "q * 10 + (d + 1) \<noteq> 0" "e < 9"
      using X(1) by (simp_all only: amount_code_small)
    then show ?thesis by (intro exI conjI disjI1)
  qed
qed

lemma amount_split: "(N :: nat) \<noteq> 0 \<Longrightarrow> \<exists>K e. N = K * 10 ^ e \<and> K \<noteq> 0 \<and> (e < k \<and> K mod 10 \<noteq> 0 \<or> e = (k :: nat))"
proof (induction k)
  case (Suc k)
  from Suc.IH [OF Suc.prems] obtain K e where K: "N = K * 10 ^ e" "K \<noteq> 0" "e < k \<and> K mod 10 \<noteq> 0 \<or> e = k"
    by blast
  show ?case
  proof (cases "e = k \<and> K mod 10 = 0")
    case True
    then have "10 dvd K" by (simp add: mod_eq_0_iff_dvd)
    then obtain j where "K = 10 * j" by (rule dvdE)
    then have "N = j * 10 ^ Suc k" "j \<noteq> 0" using K(1,2) True by simp_all
    then show ?thesis by blast
  next
    case False
    then show ?thesis using K by (auto simp: less_Suc_eq)
  qed
qed auto

lemma amount_code_bound: "K \<noteq> 0 \<Longrightarrow> e < 9 \<and> K mod 10 \<noteq> 0 \<or> e = 9 \<Longrightarrow> amount_code K e \<le> 10 * (K * 10 ^ e)"
proof -
  assume K: "K \<noteq> 0" "e < 9 \<and> K mod 10 \<noteq> 0 \<or> e = 9"
  define q d where "q = K div 10" and "d = K mod 10"
  have "K = q * 10 + d" by (simp add: q_def d_def)
  moreover have "amount_code K e = (if e < 9 then 1 + (q * 9 + d - 1) * 10 + e else 1 + (K - 1) * 10 + 9)"
    by (simp add: amount_code_def q_def d_def)
  ultimately have "amount_code K e \<le> 10 * K" using K d_def by (auto split: if_splits)
  also have "\<dots> \<le> 10 * (K * 10 ^ e)" by simp
  finally show ?thesis .
qed


lemma Decompress_Compress_amount:
  assumes "unat n * 10 < 2 ^ 64"
  shows "DecompressAmount (CompressAmount n) = n"
proof (cases "n = 0")
  case True
  then show ?thesis by (simp add: CompressAmount_def DecompressAmount_def)
next
  case False
  then have "unat n \<noteq> 0" by (simp add: unat_eq_0)
  from amount_split [OF this, of 9] obtain K e where K: "unat n = K * 10 ^ e" "K \<noteq> 0" "e < 9 \<and> K mod 10 \<noteq> 0 \<or> e = 9"
    by (elim exE conjE) (rule that)
  have "amount_code K e \<le> 10 * unat n" using amount_code_bound [OF K(2,3)] K(1) by simp
  then have code: "amount_code K e < 2 ^ 64" using assms by linarith
  have "n = of_nat (K * 10 ^ e)" by (simp flip: K(1))
  moreover have "K * 10 ^ e < 2 ^ 64" using K(1) unat_u64_less [of n] by simp
  ultimately show ?thesis
    using CompressAmount_code [OF _ K(2,3)] DecompressAmount_value [OF code] amount_value_code [OF K(2,3)] by metis
qed

lemma Compress_Decompress_amount:
  assumes "amount_value (unat x) < 2 ^ 64"
  shows "CompressAmount (DecompressAmount x) = x"
proof (cases "x = 0")
  case True
  then show ?thesis by (simp add: CompressAmount_def DecompressAmount_def)
next
  case False
  then have "unat x \<noteq> 0" by (simp add: unat_eq_0)
  from amount_code_value [OF this] obtain K e where K: "amount_code K e = unat x" "K \<noteq> 0" "e < 9 \<and> K mod 10 \<noteq> 0 \<or> e = 9"
    by (elim exE conjE) (rule that)
  have v: "amount_value (unat x) = K * 10 ^ e" using amount_value_code [OF K(2,3)] K(1) by simp
  have "DecompressAmount x = of_nat (K * 10 ^ e)" using DecompressAmount_value [OF unat_u64_less, of x] v by simp
  then show ?thesis using CompressAmount_code [OF _ K(2,3)] assms v K(1) by simp
qed

section \<open>Scripts\<close>

text \<open>What the elliptic curve library promises: an uncompressed key that is a point of the curve is found from
  its first coordinate and the parity of the second.\<close>

definition ec_recovers :: "(bytes \<Rightarrow> bool) \<Rightarrow> (bytes \<Rightarrow> bytes option) \<Rightarrow> bool" where
  "ec_recovers ec_valid ec_decompress \<longleftrightarrow>
     (\<forall>key. length key = 65 \<and> key ! 0 = 0x04 \<and> ec_valid key \<longrightarrow>
        ec_decompress ((0x02 OR (key ! 64 AND 0x01)) # take 32 (drop 1 key)) = Some key)"

lemma frame_split:
  assumes "length xs = a + n + b"
  shows "xs = map (\<lambda>i. xs ! i) [0..<a] @ take n (drop a xs) @ map (\<lambda>i. xs ! i) [a + n..<a + n + b]"
proof (rule nth_equalityI)
  fix i assume "i < length xs"
  then show "xs ! i = (map (\<lambda>i. xs ! i) [0..<a] @ take n (drop a xs) @ map (\<lambda>i. xs ! i) [a + n..<a + n + b]) ! i"
    using assms by (auto simp: nth_append)
qed (use assms in simp)

lemma IsToKeyID_shape:
  "IsToKeyID script = Some h \<Longrightarrow>
   length h = 20 \<and> script = [OP_DUP, OP_HASH160, 20] @ h @ [OP_EQUALVERIFY, OP_CHECKSIG]"
  using frame_split [of script 3 20 2] by (auto simp: IsToKeyID_def upt_rec numeral_2_eq_2 split: if_splits)

lemma IsToScriptID_shape:
  "IsToScriptID script = Some h \<Longrightarrow> length h = 20 \<and> script = [OP_HASH160, 20] @ h @ [OP_EQUAL]"
  using frame_split [of script 2 20 1] by (auto simp: IsToScriptID_def upt_rec split: if_splits)

lemma IsToPubKey_shape:
  assumes "IsToPubKey ec_valid script = Some pubkey"
  shows "(\<exists>b x. length x = 32 \<and> (b = 2 \<or> b = 3) \<and> pubkey = b # x @ replicate 32 0 \<and> script = [33, b] @ x @ [OP_CHECKSIG]) \<or>
    length pubkey = 65 \<and> pubkey ! 0 = 4 \<and> ec_valid pubkey \<and> script = [65] @ pubkey @ [OP_CHECKSIG]"
proof (cases "length script = 35 \<and> script ! 0 = 33 \<and> script ! 34 = OP_CHECKSIG \<and> (script ! 1 = 0x02 \<or> script ! 1 = 0x03)")
  case True
  define b x where "b = script ! 1" and "x = take 32 (drop 2 script)"
  have eq: "script = [33, b] @ x @ [OP_CHECKSIG]" and len: "length x = 32"
    using True frame_split [of script 2 32 1] by (simp_all add: b_def x_def upt_rec)
  have "take 33 (drop 1 script) = b # x" by (subst eq) (simp add: len)
  moreover have b: "b = 2 \<or> b = 3" using True b_def by simp
  ultimately have "pubkey = b # x @ replicate 32 0"
    using True assms len by (auto simp: IsToPubKey_def CPubKey_of_def CPubKey_Set_def GetLen_def)
  then show ?thesis using eq len b by blast
next
  case False
  then have t: "length script = 67 \<and> script ! 0 = 65 \<and> script ! 66 = OP_CHECKSIG \<and> script ! 1 = 0x04"
      "CPubKey_IsFullyValid ec_valid pubkey" "pubkey = CPubKey_of (take 65 (drop 1 script))"
    using assms by (auto simp: IsToPubKey_def Let_def split: if_splits)
  let ?k = "take 65 (drop 1 script)"
  have k: "script = [65] @ ?k @ [OP_CHECKSIG]" "length ?k = 65" "?k ! 0 = 4"
    using t(1) frame_split [of script 1 65 1] by (auto simp: upt_rec)
  then have "pubkey = ?k" using t(3) by (auto simp: CPubKey_of_def CPubKey_Set_def GetLen_def)
  then show ?thesis using k t(2) by (simp add: CPubKey_IsFullyValid_def CPubKey_Raw_def CPubKey_size_def GetLen_def)
qed


lemma ReadVarInt_special:
  "k \<in> {0, 1, 2, 3, 4, 5 :: byte} \<Longrightarrow> ReadVarInt_u32 (k # s) = Inr (ucast k, s) \<and> unat (ucast k :: u32) = unat k"
  by (auto simp: ReadVarInt_u32_def)

lemma parity_byte: "(y :: byte) AND 1 = 0 \<or> y AND 1 = 1"
  by (simp add: and_one_eq mod_2_eq_odd)

text \<open>A compressed script is a byte below 6 and as many bytes as the reader takes, from which the script is
  rebuilt.\<close>

lemma Compress_Decompress:
  assumes "ec_recovers ec_valid ec_decompress" "Compress ec_valid script = Some compr"
  shows "\<exists>k data. compr = k # data \<and> k \<in> {0, 1, 2, 3, 4, 5} \<and> length data = GetSpecialSize (unat k) \<and>
    Decompress ec_decompress (unat k) data = Inr (Some script)"
proof (cases "IsToKeyID script")
  case (Some h)
  then have "compr = 0 # h" using assms(2) by (simp add: Compress_def)
  then show ?thesis
    using IsToKeyID_shape [OF Some] by (intro exI [of _ 0] exI [of _ h]) (simp add: Decompress_def GetSpecialSize_def)
next
  case key: None
  show ?thesis
  proof (cases "IsToScriptID script")
    case (Some h)
    then have "compr = 1 # h" using key assms(2) by (simp add: Compress_def)
    then show ?thesis
      using IsToScriptID_shape [OF Some] by (intro exI [of _ 1] exI [of _ h]) (simp add: Decompress_def GetSpecialSize_def)
  next
    case id: None
    then obtain pubkey where pk: "IsToPubKey ec_valid script = Some pubkey"
      using assms(2) key by (auto simp: Compress_def split: option.splits)
    from IsToPubKey_shape [OF pk]
    consider b x where "length x = 32" "b = 2 \<or> b = 3" "pubkey = b # x @ replicate 32 0" "script = [33, b] @ x @ [OP_CHECKSIG]"
      | "length pubkey = 65" "pubkey ! 0 = 4" "ec_valid pubkey" "script = [65] @ pubkey @ [OP_CHECKSIG]" by blast
    then show ?thesis
    proof cases
      case k: (1 b x)
      then have "compr = b # x" using assms(2) key id pk by (auto simp: Compress_def)
      then show ?thesis using k by (intro exI [of _ b] exI [of _ x]) (auto simp: Decompress_def GetSpecialSize_def)
    next
      case k: 2
      let ?x = "take 32 (drop 1 pubkey)" and ?p = "pubkey ! 64 AND 1"
      have compr: "compr = (4 OR ?p) # ?x" using assms(2) key id pk k by (simp add: Compress_def)
      have ec: "ec_decompress ((2 OR ?p) # ?x) = Some pubkey" using assms(1) k by (simp add: ec_recovers_def)
      have p: "4 OR ?p = 4 \<and> 2 OR ?p = 2 \<or> 4 OR ?p = 5 \<and> 2 OR ?p = 3" using parity_byte [of "pubkey ! 64"] by auto
      have set: "CPubKey_Set pubkey v = pubkey" if "length v = 65" for v
        using that k by (auto simp: CPubKey_Set_def GetLen_def)
      have of: "CPubKey_of (c # ?x) = c # ?x @ replicate 32 0" if "c = 2 \<or> c = 3" for c
        using that k(1) by (auto simp: CPubKey_of_def CPubKey_Set_def GetLen_def)
      have dec: "CPubKey_Decompress ec_decompress (CPubKey_of (c # ?x)) = Some pubkey"
        if "c = 2 \<or> c = 3" "ec_decompress (c # ?x) = Some pubkey" for c
      proof -
        have "GetLen c = 33" using that(1) by (auto simp: GetLen_def)
        then show ?thesis
          using that(2) k(1) set [of "c # ?x @ replicate 32 0"] unfolding of [OF that(1)]
          by (simp add: CPubKey_Decompress_def CPubKey_IsValid_def CPubKey_Raw_def CPubKey_size_def)
      qed
      have "CPubKey_size pubkey = 65" using k(2) by (simp add: CPubKey_size_def GetLen_def)
      then have "Decompress ec_decompress (unat (4 OR ?p)) ?x = Inr (Some script)"
        using p ec dec [of 2] dec [of 3] k(1,4) by (elim disjE conjE) (simp_all add: Decompress_def)
      then show ?thesis using compr p k(1) by (intro exI [of _ "4 OR ?p"] exI [of _ ?x]) (auto simp: GetSpecialSize_def)
    qed
  qed
qed

lemma script_roundtrip:
  assumes "ec_recovers ec_valid ec_decompress" "length script + 6 < 2 ^ 32"
  shows "Unserialize_CScriptCompressor ec_decompress old (Serialize_CScriptCompressor ec_valid script @ rest) = Inr (script, rest)"
proof (cases "Compress ec_valid script")
  case None
  have "unat (of_nat (length script + 6) :: u32) = length script + 6" using assms(2) by (simp only: unat_of_nat) simp
  then show ?thesis
    using None varint_u32.dec_enc [of "of_nat (length script + 6)" "script @ rest"]
    by (simp add: Unserialize_CScriptCompressor_def Serialize_CScriptCompressor_def del: of_nat_add)
next
  case (Some compr)
  then obtain k data where k: "compr = k # data" "k \<in> {0, 1, 2, 3, 4, 5}" "length data = GetSpecialSize (unat k)"
      "Decompress ec_decompress (unat k) data = Inr (Some script)"
    using Compress_Decompress [OF assms(1)] by metis
  moreover have "unat k < 6" using k(2) by auto
  ultimately show ?thesis
    using Some ReadVarInt_special [OF k(2), of "data @ rest"]
    by (simp add: Unserialize_CScriptCompressor_def Serialize_CScriptCompressor_def Let_def)
qed

lemma script_size: "GetSerializeSize_CScriptCompressor ec_valid script = length (Serialize_CScriptCompressor ec_valid script)"
  by (auto simp: GetSerializeSize_CScriptCompressor_def Serialize_CScriptCompressor_def WriteVarInt_u32_def WriteVarInt_def
      length_varint split: option.splits)

definition compressible_txout :: "CTxOut \<Rightarrow> bool" where
  "compressible_txout txout \<longleftrightarrow> 0 \<le> nValue txout \<and> nValue txout * 10 < 2 ^ 64 \<and> length (scriptPubKey txout) + 6 < 2 ^ 32"

lemma txout_roundtrip:
  assumes "ec_recovers ec_valid ec_decompress" "compressible_txout txout" "nRounds old = nRounds txout"
  shows "Unserialize_CTxOutCompressor ec_decompress old (Serialize_CTxOutCompressor ec_valid txout @ rest) = Inr (txout, rest)"
proof -
  let ?v = "nValue txout"
  have v: "0 \<le> ?v" "?v * 10 < 2 ^ 64" using assms(2) by (auto simp: compressible_txout_def)
  then have u: "uint (of_int ?v :: u64) = ?v" by (simp add: uint_word_of_int_eq take_bit_int_eq_self_iff)
  then have "unat (of_int ?v :: u64) * 10 < 2 ^ 64" using v by (simp add: nat_mult_distrib flip: nat_uint_eq)
  then have "DecompressAmount (CompressAmount (of_int ?v)) = of_int ?v" by (rule Decompress_Compress_amount)
  moreover have "sint (of_int ?v :: u64) = ?v" using v by (simp add: signed_of_int signed_take_bit_int_eq_self_iff)
  ultimately show ?thesis
    using script_roundtrip [OF assms(1), of "scriptPubKey txout"] assms(2,3) varint.dec_enc
    by (cases old) (cases txout, simp add: Unserialize_CTxOutCompressor_def Serialize_CTxOutCompressor_def compressible_txout_def)
qed

section \<open>Properties\<close>

text \<open>The compact form of amounts.  Decompressing a compressed amount gives the amount back whenever ten
  times the amount fits 64 bits, far above the money supply; and every code whose value fits 64 bits is the
  code of its value, so the two functions are inverse to each other on these ranges.\<close>

theorem amount_compression_bijective:
  "(unat n * 10 < 2 ^ 64 \<longrightarrow> DecompressAmount (CompressAmount n) = n) \<and>
   (amount_value (unat x) < 2 ^ 64 \<longrightarrow> CompressAmount (DecompressAmount x) = x)"
  using Decompress_Compress_amount Compress_Decompress_amount by blast

theorem amount_compression_bijective_witness:
  "DecompressAmount (CompressAmount 5000000000) = 5000000000 \<and> CompressAmount (DecompressAmount 50) = 50"
proof -
  have "amount_value 50 < 2 ^ 64" by (simp add: amount_value_def)
  then show ?thesis using amount_compression_bijective [of 5000000000 50] by simp
qed

text \<open>Compact outputs.  An output with an amount in range, read back from its compact form into an output in
  any state, is the output, and the rest of the stream is left; this needs only that the elliptic curve
  library recovers a key it accepts from its first coordinate and parity.\<close>

theorem txout_compression_roundtrip:
  assumes "ec_recovers ec_valid ec_decompress" "compressible_txout txout" "nRounds old = nRounds txout"
  shows "Unserialize_CTxOutCompressor ec_decompress old (Serialize_CTxOutCompressor ec_valid txout @ rest) = Inr (txout, rest) \<and>
    length (Serialize_CTxOutCompressor ec_valid txout) =
      GetSizeOfVarInt (CompressAmount (of_int (nValue txout))) + GetSerializeSize_CScriptCompressor ec_valid (scriptPubKey txout)"
  using txout_roundtrip [OF assms] script_size [of ec_valid "scriptPubKey txout"]
  by (simp add: Serialize_CTxOutCompressor_def WriteVarInt_def length_varint)

definition sample_key :: bytes where
  "sample_key = 4 # replicate 32 9 @ replicate 32 1"

theorem txout_compression_roundtrip_witness:
  "Unserialize_CTxOutCompressor (\<lambda>k. Some sample_key) CTxOut_null
     (Serialize_CTxOutCompressor (\<lambda>k. k = sample_key) (CTxOut_new 5000000000 (65 # sample_key @ [OP_CHECKSIG])) @ [7]) =
   Inr (CTxOut_new 5000000000 (65 # sample_key @ [OP_CHECKSIG]), [7])"
proof -
  have "ec_recovers (\<lambda>k. k = sample_key) (\<lambda>k. Some sample_key)" by (simp add: ec_recovers_def)
  then show ?thesis
    using txout_compression_roundtrip [of "\<lambda>k. k = sample_key" "\<lambda>k. Some sample_key"
        "CTxOut_new 5000000000 (65 # sample_key @ [OP_CHECKSIG])" CTxOut_null "[7]"]
    by (simp add: compressible_txout_def CTxOut_new_def CTxOut_null_def sample_key_def)
qed

end
