(* ===== verification/Coins.thy ===== *)
theory Coins
  imports Compressor
begin

text \<open>
  The unspent outputs of one transaction, \<^verbatim>\<open>CCoins\<close> of \<^verbatim>\<open>src/src/coins.h\<close> and
  \<^verbatim>\<open>src/src/coins.cpp\<close>, and the undo record of a spent output, \<^verbatim>\<open>CTxInUndo\<close> of
  \<^verbatim>\<open>src/src/undo.h\<close>.  A spent output is a null output; null outputs at the end are dropped.  The
  database stores the availability of the outputs as a bit mask and the outputs in compact form.
\<close>

record CCoins =
  fCoinBase :: bool
  fCoinStake :: bool
  coins_vout :: "CTxOut list"
  coins_nHeight :: int
  coins_nVersion :: int

record CTxInUndo =
  undo_txout :: CTxOut
  undo_fCoinBase :: bool
  undo_fCoinStake :: bool
  undo_nHeight :: u32
  undo_nVersion :: int

definition CCoins_new :: CCoins where
  "CCoins_new = \<lparr>fCoinBase = False, fCoinStake = False, coins_vout = [], coins_nHeight = 0, coins_nVersion = 0\<rparr>"

definition CTxInUndo_of :: "CTxOut \<Rightarrow> CTxInUndo" where
  "CTxInUndo_of txout =
     \<lparr>undo_txout = txout, undo_fCoinBase = False, undo_fCoinStake = False, undo_nHeight = 0, undo_nVersion = 0\<rparr>"

section \<open>Operations\<close>

text \<open>\<^verbatim>\<open>Cleanup\<close>: null outputs are popped from the end.\<close>

fun drop_spent :: "CTxOut list \<Rightarrow> CTxOut list" where
  "drop_spent [] = []"
| "drop_spent (out # outs) =
     (let outs' = drop_spent outs in if outs' = [] \<and> CTxOut_IsNull out then [] else out # outs')"

definition Cleanup :: "CCoins \<Rightarrow> CCoins" where
  "Cleanup c = c\<lparr>coins_vout := drop_spent (coins_vout c)\<rparr>"

definition Clear :: "CCoins \<Rightarrow> CCoins" where
  "Clear c = c\<lparr>fCoinBase := False, fCoinStake := False, coins_vout := [], coins_nHeight := 0, coins_nVersion := 0\<rparr>"

text \<open>\<^verbatim>\<open>SetNull\<close> of an output.\<close>

definition CTxOut_SetNull :: "CTxOut \<Rightarrow> CTxOut" where
  "CTxOut_SetNull out = out\<lparr>nValue := - 1, scriptPubKey := [], nRounds := - 10\<rparr>"

definition ClearUnspendable :: "CCoins \<Rightarrow> CCoins" where
  "ClearUnspendable c =
     Cleanup (c\<lparr>coins_vout := map (\<lambda>out. if IsUnspendable (scriptPubKey out) then CTxOut_SetNull out else out) (coins_vout c)\<rparr>)"

definition FromTx :: "CTransaction \<Rightarrow> int \<Rightarrow> CCoins \<Rightarrow> CCoins" where
  "FromTx tx nHeightIn c =
     ClearUnspendable (c\<lparr>fCoinBase := IsCoinBase tx, fCoinStake := IsCoinStake tx, coins_vout := vout tx,
                         coins_nHeight := nHeightIn, coins_nVersion := tx_nVersion tx\<rparr>)"

definition CCoins_of :: "CTransaction \<Rightarrow> int \<Rightarrow> CCoins" where
  "CCoins_of tx nHeightIn = FromTx tx nHeightIn CCoins_new"

definition IsAvailable :: "CCoins \<Rightarrow> nat \<Rightarrow> bool" where
  "IsAvailable c nPos \<longleftrightarrow> nPos < length (coins_vout c) \<and> \<not> CTxOut_IsNull (coins_vout c ! nPos)"

definition IsPruned :: "CCoins \<Rightarrow> bool" where
  "IsPruned c \<longleftrightarrow> list_all CTxOut_IsNull (coins_vout c)"

definition CCoins_eq :: "CCoins \<Rightarrow> CCoins \<Rightarrow> bool" where
  "CCoins_eq a b \<longleftrightarrow>
     IsPruned a \<and> IsPruned b \<or>
     fCoinBase a = fCoinBase b \<and> fCoinStake a = fCoinStake b \<and> coins_nHeight a = coins_nHeight b \<and>
     coins_nVersion a = coins_nVersion b \<and> coins_vout a = coins_vout b"

text \<open>\<^verbatim>\<open>Spend\<close>: the undo record and the coins that are left, or \<open>None\<close> for the result false.\<close>

definition Spend :: "COutPoint \<Rightarrow> CCoins \<Rightarrow> (CTxInUndo \<times> CCoins) option" where
  "Spend out c =
     (let n = unat (op_n out) in
      if n \<ge> length (coins_vout c) then None
      else if CTxOut_IsNull (coins_vout c ! n) then None
      else let undo = CTxInUndo_of (coins_vout c ! n);
               c' = Cleanup (c\<lparr>coins_vout := (coins_vout c)[n := CTxOut_SetNull (coins_vout c ! n)]\<rparr>)
           in Some (if coins_vout c' = []
                    then undo\<lparr>undo_nHeight := of_int (coins_nHeight c'), undo_fCoinBase := fCoinBase c',
                              undo_fCoinStake := fCoinStake c', undo_nVersion := coins_nVersion c'\<rparr>
                    else undo, c'))"

section \<open>Serialization\<close>

text \<open>The mask has one bit for every output from the third on; \<open>b\<close> numbers its bytes.  The result is the number of
  bytes up to the last nonzero one, and the number of nonzero bytes.\<close>

definition mask_byte :: "CTxOut list \<Rightarrow> nat \<Rightarrow> byte" where
  "mask_byte outs b =
     fold (\<lambda>i chAvail. if 2 + b * 8 + i < length outs \<and> \<not> CTxOut_IsNull (outs ! (2 + b * 8 + i))
                       then chAvail OR push_bit i 1 else chAvail) [0..<8] 0"

definition mask_zero :: "CTxOut list \<Rightarrow> nat \<Rightarrow> bool" where
  "mask_zero outs b \<longleftrightarrow>
     \<not> list_ex (\<lambda>i. 2 + b * 8 + i < length outs \<and> \<not> CTxOut_IsNull (outs ! (2 + b * 8 + i))) [0..<8]"

definition CalcMaskSize :: "CTxOut list \<Rightarrow> nat \<times> nat" where
  "CalcMaskSize outs =
     fold (\<lambda>b (nLastUsedByte, nNonzeroBytes).
             if \<not> mask_zero outs b then (b + 1, nNonzeroBytes + 1) else (nLastUsedByte, nNonzeroBytes))
       [0..<(length outs - 2 + 7) div 8] (0, 0)"

datatype coins_error = Coins_pruned

text \<open>\<open>nCode\<close> with the factor of the mask code: \<^verbatim>\<open>Serialize\<close> uses 16,
  \<^verbatim>\<open>GetSerializeSize\<close> uses 8.\<close>

definition coins_code :: "u32 \<Rightarrow> CCoins \<Rightarrow> coins_error + u32" where
  "coins_code factor c =
     (let nMaskCode = snd (CalcMaskSize (coins_vout c));
          fFirst = (length (coins_vout c) > 0 \<and> \<not> CTxOut_IsNull (coins_vout c ! 0));
          fSecond = (length (coins_vout c) > 1 \<and> \<not> CTxOut_IsNull (coins_vout c ! 1))
      in if \<not> (fFirst \<or> fSecond \<or> nMaskCode \<noteq> 0) then Inl Coins_pruned
         else Inr (factor * (of_nat nMaskCode - (if fFirst \<or> fSecond then 0 else 1)) + (if fCoinBase c then 1 else 0) +
                   (if fCoinStake c then 2 else 0) + (if fFirst then 4 else 0) + (if fSecond then 8 else 0)))"

definition GetSizeOfVarInt_int :: "int \<Rightarrow> nat" where
  "GetSizeOfVarInt_int n = (if n \<le> 0x7F then 1 else GetSizeOfVarInt (of_int n))"

definition GetSerializeSize_CTxOutCompressor :: "(bytes \<Rightarrow> bool) \<Rightarrow> CTxOut \<Rightarrow> nat" where
  "GetSerializeSize_CTxOutCompressor ec_valid txout =
     GetSizeOfVarInt (CompressAmount (of_int (nValue txout))) + GetSerializeSize_CScriptCompressor ec_valid (scriptPubKey txout)"

definition GetSerializeSize_CCoins :: "(bytes \<Rightarrow> bool) \<Rightarrow> CCoins \<Rightarrow> coins_error + nat" where
  "GetSerializeSize_CCoins ec_valid c =
     rbind (coins_code 8 c) (\<lambda>nCode.
       Inr (GetSizeOfVarInt_int (coins_nVersion c) + GetSizeOfVarInt (ucast nCode) + fst (CalcMaskSize (coins_vout c)) +
            fold (\<lambda>out nSize. if \<not> CTxOut_IsNull out then nSize + GetSerializeSize_CTxOutCompressor ec_valid out else nSize)
              (coins_vout c) 0 +
            GetSizeOfVarInt_int (coins_nHeight c)))"

definition Serialize_CCoins :: "(bytes \<Rightarrow> bool) \<Rightarrow> CCoins \<Rightarrow> coins_error + bytes" where
  "Serialize_CCoins ec_valid c =
     rbind (coins_code 16 c) (\<lambda>nCode.
       Inr (WriteVarInt_int (coins_nVersion c) @ WriteVarInt_u32 nCode @
            map (mask_byte (coins_vout c)) [0..<fst (CalcMaskSize (coins_vout c))] @
            concat (map (\<lambda>out. if \<not> CTxOut_IsNull out then Serialize_CTxOutCompressor ec_valid out else []) (coins_vout c)) @
            WriteVarInt_int (coins_nHeight c)))"

fun read_mask :: "nat \<Rightarrow> bytes \<Rightarrow> unser_error + bool list \<times> bytes" where
  "read_mask 0 s = Inr ([], s)"
| "read_mask (Suc nMaskCode) [] = Inl (Stream_error End_of_data)"
| "read_mask (Suc nMaskCode) (chAvail # s) =
     rbind (read_mask (if chAvail \<noteq> 0 then nMaskCode else Suc nMaskCode) s) (\<lambda>(vAvail, s).
       Inr (map (\<lambda>p. chAvail AND push_bit p 1 \<noteq> 0) [0..<8] @ vAvail, s))"

fun read_outs :: "(bytes \<Rightarrow> bytes option) \<Rightarrow> bool list \<Rightarrow> bytes \<Rightarrow> unser_error + CTxOut list \<times> bytes" where
  "read_outs ec_decompress [] s = Inr ([], s)"
| "read_outs ec_decompress (avail # vAvail) s =
     rbind (if avail then Unserialize_CTxOutCompressor ec_decompress CTxOut_null s else Inr (CTxOut_null, s)) (\<lambda>(out, s).
     rbind (read_outs ec_decompress vAvail s) (\<lambda>(outs, s). Inr (out # outs, s)))"

definition Unserialize_CCoins :: "(bytes \<Rightarrow> bytes option) \<Rightarrow> bytes \<Rightarrow> unser_error + CCoins \<times> bytes" where
  "Unserialize_CCoins ec_decompress s =
     rbind (from_stream (ReadVarInt_int s)) (\<lambda>(nVersion, s).
     rbind (from_stream (ReadVarInt_u32 s)) (\<lambda>(nCode, s).
     let nMaskCode = unat (nCode div 16) + (if nCode AND 12 \<noteq> 0 then 0 else 1) in
     rbind (read_mask nMaskCode s) (\<lambda>(vAvail, s).
     rbind (read_outs ec_decompress ([nCode AND 4 \<noteq> 0, nCode AND 8 \<noteq> 0] @ vAvail) s) (\<lambda>(outs, s).
     rbind (from_stream (ReadVarInt_int s)) (\<lambda>(nHeight, s).
       Inr (Cleanup \<lparr>fCoinBase = (nCode AND 1 \<noteq> 0), fCoinStake = (nCode AND 2 \<noteq> 0), coins_vout = outs,
                     coins_nHeight = nHeight, coins_nVersion = nVersion\<rparr>, s))))))"

text \<open>Undo records.\<close>

definition undo_code :: "CTxInUndo \<Rightarrow> u32" where
  "undo_code u = undo_nHeight u * 4 + (if undo_fCoinBase u then 2 else 0) + (if undo_fCoinStake u then 1 else 0)"

definition Serialize_CTxInUndo :: "(bytes \<Rightarrow> bool) \<Rightarrow> CTxInUndo \<Rightarrow> bytes" where
  "Serialize_CTxInUndo ec_valid u =
     WriteVarInt_u32 (undo_code u) @ (if undo_nHeight u > 0 then WriteVarInt_int (undo_nVersion u) else []) @
     Serialize_CTxOutCompressor ec_valid (undo_txout u)"

definition GetSerializeSize_CTxInUndo :: "(bytes \<Rightarrow> bool) \<Rightarrow> CTxInUndo \<Rightarrow> nat" where
  "GetSerializeSize_CTxInUndo ec_valid u =
     GetSizeOfVarInt (ucast (undo_code u)) + (if undo_nHeight u > 0 then GetSizeOfVarInt_int (undo_nVersion u) else 0) +
     GetSerializeSize_CTxOutCompressor ec_valid (undo_txout u)"

definition Unserialize_CTxInUndo :: "(bytes \<Rightarrow> bytes option) \<Rightarrow> CTxInUndo \<Rightarrow> bytes \<Rightarrow> unser_error + CTxInUndo \<times> bytes" where
  "Unserialize_CTxInUndo ec_decompress u s =
     rbind (from_stream (ReadVarInt_u32 s)) (\<lambda>(nCode, s).
     let nHeight = drop_bit 2 nCode in
     rbind (if nHeight > 0 then from_stream (ReadVarInt_int s) else Inr (undo_nVersion u, s)) (\<lambda>(nVersion, s).
     rbind (Unserialize_CTxOutCompressor ec_decompress (undo_txout u) s) (\<lambda>(txout, s).
       Inr (\<lparr>undo_txout = txout, undo_fCoinBase = (nCode AND 2 \<noteq> 0), undo_fCoinStake = (nCode AND 1 \<noteq> 0),
             undo_nHeight = nHeight, undo_nVersion = nVersion\<rparr>, s))))"


section \<open>Dropped outputs\<close>

lemma drop_spent_Nil_iff: "drop_spent outs = [] \<longleftrightarrow> list_all CTxOut_IsNull outs"
  by (induction outs) (auto simp: Let_def)

lemma drop_spent_nulls [simp]: "list_all CTxOut_IsNull ns \<Longrightarrow> drop_spent (outs @ ns) = drop_spent outs"
  by (induction outs) (auto simp: Let_def drop_spent_Nil_iff)

lemma drop_spent_idem [simp]: "drop_spent (drop_spent outs) = drop_spent outs"
  by (induction outs) (auto simp: Let_def)

lemma drop_spent_nonnull: "list_all (\<lambda>out. \<not> CTxOut_IsNull out) outs \<Longrightarrow> drop_spent outs = outs"
  by (induction outs) auto

lemma drop_spent_split: "\<exists>ns. outs = drop_spent outs @ ns \<and> list_all CTxOut_IsNull ns"
proof (induction outs)
  case (Cons out outs)
  then obtain ns where ns: "outs = drop_spent outs @ ns" "list_all CTxOut_IsNull ns" by blast
  show ?case
  proof (cases "drop_spent outs = [] \<and> CTxOut_IsNull out")
    case True
    then show ?thesis using ns by (intro exI [of _ "out # outs"]) (auto simp: drop_spent_Nil_iff)
  next
    case False
    then show ?thesis using ns by (intro exI [of _ ns]) (auto simp: Let_def)
  qed
qed simp

definition trimmed :: "CCoins \<Rightarrow> bool" where
  "trimmed c \<longleftrightarrow> drop_spent (coins_vout c) = coins_vout c"

lemma trimmed_Cleanup [simp]: "trimmed (Cleanup c)"
  by (simp add: trimmed_def Cleanup_def)

lemma Cleanup_trimmed: "trimmed c \<Longrightarrow> Cleanup c = c"
  by (simp add: trimmed_def Cleanup_def)

lemma IsPruned_Cleanup [simp]: "IsPruned (Cleanup c) \<longleftrightarrow> IsPruned c"
  by (metis IsPruned_def Cleanup_def drop_spent_Nil_iff drop_spent_idem CCoins.select_convs(3) CCoins.surjective CCoins.update_convs(3))

lemma trimmed_last:
  assumes "trimmed c" "coins_vout c \<noteq> []"
  shows "\<not> CTxOut_IsNull (last (coins_vout c))"
proof
  assume null: "CTxOut_IsNull (last (coins_vout c))"
  have "drop_spent (butlast (coins_vout c) @ [last (coins_vout c)]) = drop_spent (butlast (coins_vout c))"
    using null by simp
  then have "drop_spent (butlast (coins_vout c)) = coins_vout c" using assms by (simp add: trimmed_def)
  moreover obtain ns where "butlast (coins_vout c) = drop_spent (butlast (coins_vout c)) @ ns" using drop_spent_split by blast
  ultimately have "length (coins_vout c) \<le> length (butlast (coins_vout c))" by (metis le_add1 length_append)
  then show False using assms(2) length_greater_0_conv [of "coins_vout c"] unfolding length_butlast by linarith
qed

section \<open>The mask\<close>

lemma bit_fold_mask:
  "n \<le> 8 \<Longrightarrow> bit (fold (\<lambda>i ch. if P i then ch OR push_bit i 1 else ch) [0..<n] (0 :: byte)) k \<longleftrightarrow> k < n \<and> P k"
proof (induction n)
  case (Suc n)
  have "bit (push_bit n 1 :: byte) k \<longleftrightarrow> k = n" using Suc.prems by (auto simp: push_bit_of_1 bit_exp_iff)
  then show ?case using Suc by (auto simp: bit_or_iff less_Suc_eq)
qed simp

definition avail :: "CTxOut list \<Rightarrow> nat \<Rightarrow> bool" where
  "avail outs i \<longleftrightarrow> i < length outs \<and> \<not> CTxOut_IsNull (outs ! i)"

lemma bit_mask_byte: "bit (mask_byte outs b) k \<longleftrightarrow> k < 8 \<and> avail outs (2 + b * 8 + k)"
  using bit_fold_mask [of 8 "\<lambda>i. avail outs (2 + b * 8 + i)" k] by (simp add: mask_byte_def avail_def)

lemma mask_zero_iff: "mask_zero outs b \<longleftrightarrow> mask_byte outs b = 0"
proof -
  have "mask_zero outs b \<longleftrightarrow> (\<forall>k. \<not> bit (mask_byte outs b) k)"
    unfolding bit_mask_byte by (auto simp: mask_zero_def list_ex_iff avail_def)
  also have "\<dots> \<longleftrightarrow> mask_byte outs b = 0" by (auto intro!: bit_eqI)
  finally show ?thesis .
qed

lemma CalcMaskSize_prefix:
  "case fold (\<lambda>b (l, n). if \<not> mask_zero outs b then (b + 1, n + 1) else (l, n)) [0..<m] (0, 0) of
     (l, n) \<Rightarrow> l \<le> m \<and> n = length (filter (\<lambda>ch. ch \<noteq> 0) (map (mask_byte outs) [0..<l])) \<and>
       (l = 0 \<or> mask_byte outs (l - 1) \<noteq> 0) \<and> (\<forall>b. l \<le> b \<and> b < m \<longrightarrow> mask_byte outs b = 0)"
proof (induction m)
  case (Suc m)
  obtain l n :: nat where ln:
      "fold (\<lambda>b (l, n). if \<not> mask_zero outs b then (b + 1, n + 1) else (l, n)) [0..<m] (0, 0) = (l, n)" by fastforce
  have IH: "l \<le> m" "n = length (filter (\<lambda>ch. ch \<noteq> 0) (map (mask_byte outs) [0..<l]))"
      "l = 0 \<or> mask_byte outs (l - 1) \<noteq> 0" "\<And>b. l \<le> b \<Longrightarrow> b < m \<Longrightarrow> mask_byte outs b = 0"
    using Suc ln by auto
  have "filter (\<lambda>ch. ch \<noteq> 0) (map (mask_byte outs) [l..<m]) = []" using IH(4) by (auto simp: filter_empty_conv)
  moreover have "[0..<m] = [0..<l] @ [l..<m]" using IH(1) upt_add_eq_append [of 0 l "m - l"] by simp
  ultimately have "n = length (filter (\<lambda>ch. ch \<noteq> 0) (map (mask_byte outs) [0..<m]))" using IH(2) by (metis append_Nil2 filter_append map_append)
  then show ?case using IH ln by (auto simp: mask_zero_iff less_Suc_eq)
qed simp

lemma CalcMaskSize_spec:
  obtains l n where "CalcMaskSize outs = (l, n)" "n = length (filter (\<lambda>ch. ch \<noteq> 0) (map (mask_byte outs) [0..<l]))"
    "l = 0 \<or> mask_byte outs (l - 1) \<noteq> 0" "\<And>i. avail outs i \<Longrightarrow> i < 2 + l * 8" "l \<le> length outs"
proof -
  obtain l n where ln: "CalcMaskSize outs = (l, n)" by fastforce
  have spec: "l \<le> (length outs - 2 + 7) div 8" "n = length (filter (\<lambda>ch. ch \<noteq> 0) (map (mask_byte outs) [0..<l]))"
      "l = 0 \<or> mask_byte outs (l - 1) \<noteq> 0" "\<forall>b. l \<le> b \<and> b < (length outs - 2 + 7) div 8 \<longrightarrow> mask_byte outs b = 0"
    using CalcMaskSize_prefix [where outs = outs and m = "(length outs - 2 + 7) div 8"] ln by (auto simp: CalcMaskSize_def)
  have "i < 2 + l * 8" if "avail outs i" for i
  proof (rule ccontr)
    assume i: "\<not> i < 2 + l * 8"
    let ?b = "(i - 2) div 8" and ?k = "(i - 2) mod 8"
    have e: "2 + ?b * 8 + ?k = i" using i by simp
    then have "bit (mask_byte outs ?b) ?k" using that by (simp only: bit_mask_byte) simp
    then have "mask_byte outs ?b \<noteq> 0" by auto
    moreover have "l \<le> ?b" using i by (simp add: less_eq_div_iff_mult_less_eq)
    moreover have "i < length outs" using that by (simp add: avail_def)
    then have "?b < (length outs - 2 + 7) div 8" using i by linarith
    ultimately show False using spec(4) by blast
  qed
  moreover have "l \<le> length outs" using spec(1) by linarith
  ultimately show thesis using that [OF ln spec(2,3)] by blast
qed


section \<open>Reading back\<close>

lemma read_mask_bytes:
  "bs = [] \<or> last bs \<noteq> 0 \<Longrightarrow>
   read_mask (length (filter (\<lambda>ch. ch \<noteq> 0) bs)) (bs @ rest) =
     Inr (concat (map (\<lambda>ch. map (\<lambda>p. ch AND push_bit p 1 \<noteq> 0) [0..<8]) bs), rest)"
proof (induction bs)
  case (Cons ch bs)
  have "bs = [] \<or> last bs \<noteq> 0" using Cons.prems by (auto split: if_splits)
  note IH = Cons.IH [OF this]
  show ?case
  proof (cases "ch = 0")
    case True
    then have "bs \<noteq> []" "last bs \<noteq> 0" using Cons.prems by (auto split: if_splits)
    then obtain n where "length (filter (\<lambda>ch. ch \<noteq> 0) bs) = Suc n"
      by (metis (mono_tags, lifting) filter_empty_conv last_in_set length_0_conv not0_implies_Suc)
    then show ?thesis using True IH by simp
  next
    case False
    then show ?thesis using IH by simp
  qed
qed simp

lemma mask_flags:
  "concat (map (\<lambda>ch. map (\<lambda>p. ch AND push_bit p 1 \<noteq> 0) [0..<8]) (map (mask_byte outs) [0..<l])) =
     map (\<lambda>i. avail outs (2 + i)) [0..<l * 8]"
proof (induction l)
  case (Suc l)
  have "map (\<lambda>p. mask_byte outs l AND push_bit p 1 \<noteq> 0) [0..<8] = map (\<lambda>p. avail outs (2 + (l * 8 + p))) [0..<8]"
    by (rule map_cong) (auto simp: push_bit_of_1 and_exp_eq_0_iff_not_bit bit_mask_byte add.assoc)
  also have "\<dots> = map (\<lambda>i. avail outs (2 + i)) [l * 8..<l * 8 + 8]"
    by (rule nth_equalityI) auto
  finally have byte: "map (\<lambda>p. mask_byte outs l AND push_bit p 1 \<noteq> 0) [0..<8] = map (\<lambda>i. avail outs (2 + i)) [l * 8..<l * 8 + 8]" .
  have "[0..<Suc l * 8] = [0..<l * 8] @ [l * 8..<l * 8 + 8]" using upt_add_eq_append [of 0 "l * 8" 8] by (simp add: add.commute)
  then show ?case using Suc by (simp only: map_append concat_append upt_Suc_append le0 list.map concat.simps byte append_Nil2)
qed simp

lemma avail_flags:
  "[avail outs 0, avail outs 1] @ map (\<lambda>i. avail outs (2 + i)) [0..<n] = map (avail outs) [0..<2 + n]"
proof -
  have "[0..<n + 2] = 0 # 1 # [2..<n + 2]" by (simp add: upt_conv_Cons numeral_2_eq_2 del: upt_Suc)
  then show ?thesis unfolding map_add_upt [symmetric] by (simp add: o_def add.commute)
qed

lemma avail_flags_split:
  "length outs \<le> m \<Longrightarrow> map (avail outs) [0..<m] = map (\<lambda>out. \<not> CTxOut_IsNull out) outs @ replicate (m - length outs) False"
  by (rule nth_equalityI) (auto simp: avail_def nth_append)

lemma read_outs_append:
  "read_outs ec (as @ bs) s = rbind (read_outs ec as s) (\<lambda>(xs, s). rbind (read_outs ec bs s) (\<lambda>(ys, s). Inr (xs @ ys, s)))"
proof (induction as arbitrary: s)
  case (Cons a as)
  show ?case
    by (cases "if a then Unserialize_CTxOutCompressor ec CTxOut_null s else Inr (CTxOut_null, s)";
        cases "read_outs ec as (snd (projr (if a then Unserialize_CTxOutCompressor ec CTxOut_null s else Inr (CTxOut_null, s))))")
      (auto simp: Cons.IH rbind_def split: sum.splits)
qed (auto simp: rbind_def split: sum.splits)

lemma read_outs_False: "read_outs ec (replicate k False) s = Inr (replicate k CTxOut_null, s)"
  by (induction k) auto

definition storable :: "CTxOut \<Rightarrow> bool" where
  "storable out \<longleftrightarrow> out = CTxOut_null \<or> compressible_txout out \<and> nRounds out = - 10"

lemma storable_null: "storable out \<Longrightarrow> CTxOut_IsNull out \<longleftrightarrow> out = CTxOut_null"
  by (auto simp: storable_def compressible_txout_def CTxOut_IsNull_def CTxOut_null_def)

lemma read_outs_ser:
  assumes "ec_recovers ec_valid ec_decompress"
  shows "list_all storable outs \<Longrightarrow>
    read_outs ec_decompress (map (\<lambda>out. \<not> CTxOut_IsNull out) outs)
      (concat (map (\<lambda>out. if \<not> CTxOut_IsNull out then Serialize_CTxOutCompressor ec_valid out else []) outs) @ rest) =
    Inr (outs, rest)"
proof (induction outs)
  case (Cons out outs)
  show ?case
  proof (cases "CTxOut_IsNull out")
    case True
    then show ?thesis using Cons storable_null [of out] by simp
  next
    case False
    then have "compressible_txout out" "nRounds out = nRounds CTxOut_null"
      using Cons.prems by (auto simp: storable_def CTxOut_null_def CTxOut_IsNull_def)
    then show ?thesis using False Cons txout_roundtrip [OF assms] by simp
  qed
qed simp


lemma low_bits:
  fixes m r :: nat
  assumes "r < 16" "w = (of_nat (16 * m + r) :: u32)" "16 * m + r < 2 ^ 32"
  shows "w AND 1 = of_nat r AND 1" "w AND 2 = of_nat r AND 2" "w AND 4 = of_nat r AND 4" "w AND 8 = of_nat r AND 8"
    "w AND 12 = of_nat r AND 12" "unat (w div 16) = m"
proof -
  have "take_bit 4 w = of_nat (take_bit 4 (16 * m + r))" unfolding assms(2) by (rule take_bit_of_nat)
  also have "take_bit 4 (16 * m + r) = r" using assms(1) by (simp add: take_bit_eq_mod)
  finally have w: "w AND 15 = of_nat r" by (simp add: take_bit_eq_mask mask_eq_exp_minus_1)
  have "w AND k = (w AND 15) AND k" if "15 AND k = k" for k :: u32 using that by (simp add: and.assoc)
  then show "w AND 1 = of_nat r AND 1" "w AND 2 = of_nat r AND 2" "w AND 4 = of_nat r AND 4" "w AND 8 = of_nat r AND 8"
    "w AND 12 = of_nat r AND 12" unfolding w by simp_all
  have "unat w = 16 * m + r" unfolding assms(2) using assms(3) by (simp only: unat_of_nat) simp
  then show "unat (w div 16) = m" using assms(1) by (simp add: unat_div)
qed

lemma coins_code_spec:
  assumes "coins_code 16 c = Inr w" "length (coins_vout c) \<le> 0x2000000"
  defines "n \<equiv> snd (CalcMaskSize (coins_vout c))"
  shows "(w AND 1 \<noteq> 0) = fCoinBase c" "(w AND 2 \<noteq> 0) = fCoinStake c" "(w AND 4 \<noteq> 0) = avail (coins_vout c) 0"
    "(w AND 8 \<noteq> 0) = avail (coins_vout c) 1" "unat (w div 16) + (if w AND 12 \<noteq> 0 then 0 else 1) = n"
proof -
  let ?f = "avail (coins_vout c) 0" and ?g = "avail (coins_vout c) 1"
  define m where "m = n - (if ?f \<or> ?g then 0 else 1)"
  define r :: nat where "r = (if fCoinBase c then 1 else 0) + (if fCoinStake c then 2 else 0) + (if ?f then 4 else 0) + (if ?g then 8 else 0)"
  have pos: "?f \<or> ?g \<or> n \<noteq> 0" and "w = 16 * (of_nat n - (if ?f \<or> ?g then 0 else 1)) + (if fCoinBase c then 1 else 0) +
      (if fCoinStake c then 2 else 0) + (if ?f then 4 else 0) + (if ?g then 8 else 0)"
    using assms(1) by (auto simp: coins_code_def avail_def n_def Let_def split: if_splits)
  moreover have "of_nat m = of_nat n - (if ?f \<or> ?g then 0 else 1 :: u32)" using pos by (auto simp: m_def of_nat_diff)
  ultimately have w: "w = of_nat (16 * m + r)" by (simp add: r_def)
  have "n \<le> length (coins_vout c)"
  proof (rule CalcMaskSize_spec [of "coins_vout c"])
    fix l k assume "CalcMaskSize (coins_vout c) = (l, k)" "k = length (filter (\<lambda>ch. ch \<noteq> 0) (map (mask_byte (coins_vout c)) [0..<l]))"
      "l \<le> length (coins_vout c)"
    then show ?thesis using length_filter_le [of "\<lambda>ch. ch \<noteq> 0" "map (mask_byte (coins_vout c)) [0..<l]"] by (simp add: n_def)
  qed
  then have "16 * m + r < 2 ^ 32" "r < 16" using assms(2) by (auto simp: m_def r_def)
  note low = low_bits [OF \<open>r < 16\<close> w \<open>16 * m + r < 2 ^ 32\<close>]
  show "(w AND 1 \<noteq> 0) = fCoinBase c" "(w AND 2 \<noteq> 0) = fCoinStake c" "(w AND 4 \<noteq> 0) = avail (coins_vout c) 0"
    "(w AND 8 \<noteq> 0) = avail (coins_vout c) 1"
    unfolding low r_def by (simp_all split: if_splits)
  have "(w AND 12 \<noteq> 0) = (?f \<or> ?g)" unfolding low r_def by (simp split: if_splits)
  then show "unat (w div 16) + (if w AND 12 \<noteq> 0 then 0 else 1) = n" using pos by (auto simp: low(6) m_def)
qed

definition storable_coins :: "CCoins \<Rightarrow> bool" where
  "storable_coins c \<longleftrightarrow> trimmed c \<and> \<not> IsPruned c \<and> list_all storable (coins_vout c) \<and> length (coins_vout c) \<le> 0x2000000 \<and>
     0 \<le> coins_nHeight c \<and> coins_nHeight c < 2 ^ 31 \<and> 0 \<le> coins_nVersion c \<and> coins_nVersion c < 2 ^ 31"

lemma coins_code_Inr:
  assumes "\<not> IsPruned c"
  shows "\<exists>w. coins_code k c = Inr w"
proof -
  let ?outs = "coins_vout c"
  obtain l n where ln: "CalcMaskSize ?outs = (l, n)" "n = length (filter (\<lambda>ch. ch \<noteq> 0) (map (mask_byte ?outs) [0..<l]))"
      "l = 0 \<or> mask_byte ?outs (l - 1) \<noteq> 0" "\<And>i. avail ?outs i \<Longrightarrow> i < 2 + l * 8"
    by (rule CalcMaskSize_spec [of ?outs]) blast
  obtain i where i: "avail ?outs i" using assms by (auto simp: IsPruned_def list_all_length avail_def)
  have "avail ?outs 0 \<or> avail ?outs 1 \<or> n \<noteq> 0"
  proof (cases "l = 0")
    case True
    then have "i = 0 \<or> i = 1" using ln(4) [OF i] by auto
    then show ?thesis using i by auto
  next
    case False
    then have "mask_byte ?outs (l - 1) \<in> set (filter (\<lambda>ch. ch \<noteq> 0) (map (mask_byte ?outs) [0..<l]))" using ln(3) by auto
    then show ?thesis using ln(2) by (metis length_0_conv list.set(1) empty_iff)
  qed
  then show ?thesis using ln(1) by (auto simp: coins_code_def avail_def Let_def)
qed

lemma coins_roundtrip:
  assumes "ec_recovers ec_valid ec_decompress" "storable_coins c" "Serialize_CCoins ec_valid c = Inr bs"
  shows "Unserialize_CCoins ec_decompress (bs @ rest) = Inr (c, rest)"
proof -
  let ?outs = "coins_vout c"
  obtain w where w: "coins_code 16 c = Inr w"
    and bs: "bs = WriteVarInt_int (coins_nVersion c) @ WriteVarInt_u32 w @ map (mask_byte ?outs) [0..<fst (CalcMaskSize ?outs)] @
      concat (map (\<lambda>out. if \<not> CTxOut_IsNull out then Serialize_CTxOutCompressor ec_valid out else []) ?outs) @
      WriteVarInt_int (coins_nHeight c)"
    using assms(3) by (auto simp: Serialize_CCoins_def result_iff)
  have st: "trimmed c" "list_all storable ?outs" "length ?outs \<le> 0x2000000" "?outs \<noteq> []"
    using assms(2) by (auto simp: storable_coins_def IsPruned_def)
  obtain l n where ln: "CalcMaskSize ?outs = (l, n)" "n = length (filter (\<lambda>ch. ch \<noteq> 0) (map (mask_byte ?outs) [0..<l]))"
      "l = 0 \<or> mask_byte ?outs (l - 1) \<noteq> 0" "\<And>i. avail ?outs i \<Longrightarrow> i < 2 + l * 8"
    by (rule CalcMaskSize_spec [of ?outs]) blast
  note code = coins_code_spec [OF w st(3), unfolded ln(1) snd_conv]
  have len: "length ?outs \<le> 2 + l * 8"
  proof -
    have "avail ?outs (length ?outs - 1)"
      using trimmed_last [OF st(1,4)] st(4) by (simp add: avail_def last_conv_nth)
    from ln(4) [OF this] show ?thesis using st(4) by simp
  qed
  have last: "map (mask_byte ?outs) [0..<l] = [] \<or> last (map (mask_byte ?outs) [0..<l]) \<noteq> 0" using ln(3) by (auto simp: last_map)
  have mask: "read_mask n (map (mask_byte ?outs) [0..<l] @ r) = Inr (map (\<lambda>i. avail ?outs (2 + i)) [0..<l * 8], r)" for r
    using read_mask_bytes [OF last] unfolding ln(2) [symmetric] mask_flags .
  have outs: "read_outs ec_decompress (map (avail ?outs) [0..<2 + l * 8])
      (concat (map (\<lambda>out. if \<not> CTxOut_IsNull out then Serialize_CTxOutCompressor ec_valid out else []) ?outs) @ r) =
      Inr (?outs @ replicate (2 + l * 8 - length ?outs) CTxOut_null, r)" for r
    unfolding avail_flags_split [OF len] read_outs_append
    using read_outs_ser [OF assms(1) st(2), of r] by (simp add: read_outs_False)
  have "CTxOut_IsNull CTxOut_null" by (simp add: CTxOut_IsNull_def CTxOut_null_def)
  then have clean: "Cleanup \<lparr>fCoinBase = fCoinBase c, fCoinStake = fCoinStake c, coins_vout = ?outs @ replicate k CTxOut_null,
      coins_nHeight = coins_nHeight c, coins_nVersion = coins_nVersion c\<rparr> = c" for k
    using st(1) by (simp add: Cleanup_def trimmed_def list_all_iff)
  have ints: "ReadVarInt_int (WriteVarInt_int (coins_nVersion c) @ r) = Inr (coins_nVersion c, r)"
      "ReadVarInt_int (WriteVarInt_int (coins_nHeight c) @ r) = Inr (coins_nHeight c, r)"
      "ReadVarInt_u32 (WriteVarInt_u32 w @ r) = Inr (w, r)" for r
    using assms(2) by (simp_all add: varint_int.dec_enc varint_u32.dec_enc storable_coins_def)
  show ?thesis
    unfolding bs ln(1) fst_conv append_assoc Unserialize_CCoins_def
    by (simp only: ints from_stream.simps rbind_Inr prod.case Let_def code mask avail_flags outs clean)
qed


lemma undo_code_bits:
  assumes "unat (undo_nHeight u) < 2 ^ 30"
  shows "drop_bit 2 (undo_code u) = undo_nHeight u" "(undo_code u AND 2 \<noteq> 0) = undo_fCoinBase u"
    "(undo_code u AND 1 \<noteq> 0) = undo_fCoinStake u"
proof -
  define r :: nat where "r = (if undo_fCoinBase u then 2 else 0) + (if undo_fCoinStake u then 1 else 0)"
  have r: "r < 4" by (simp add: r_def)
  have w: "undo_code u = of_nat (4 * unat (undo_nHeight u) + r)" by (simp add: undo_code_def r_def mult.commute)
  have u: "unat (undo_code u) = 4 * unat (undo_nHeight u) + r" unfolding w using assms r by (simp only: unat_of_nat) simp
  have "unat (drop_bit 2 (undo_code u)) = unat (undo_nHeight u)"
    using trans [OF unat_drop_bit_eq drop_bit_eq_div, of 2 "undo_code u"] r u by simp
  then show "drop_bit 2 (undo_code u) = undo_nHeight u" by (simp add: word_unat_eq_iff)
  have "take_bit 2 (undo_code u) = of_nat (take_bit 2 (4 * unat (undo_nHeight u) + r))" unfolding w by (rule take_bit_of_nat)
  also have "take_bit 2 (4 * unat (undo_nHeight u) + r) = r" using r by (simp add: take_bit_eq_mod)
  finally have low: "undo_code u AND 3 = of_nat r" by (simp add: take_bit_eq_mask mask_eq_exp_minus_1)
  have "undo_code u AND k = (undo_code u AND 3) AND k" if "3 AND k = k" for k using that by (simp add: and.assoc)
  then have "undo_code u AND 2 = of_nat r AND 2" "undo_code u AND 1 = of_nat r AND 1" unfolding low by simp_all
  then show "(undo_code u AND 2 \<noteq> 0) = undo_fCoinBase u" "(undo_code u AND 1 \<noteq> 0) = undo_fCoinStake u"
    by (simp_all add: r_def)
qed

lemma undo_roundtrip:
  assumes "ec_recovers ec_valid ec_decompress" "compressible_txout (undo_txout u)" "nRounds (undo_txout u) = nRounds (undo_txout old)"
    and "unat (undo_nHeight u) < 2 ^ 30" "0 \<le> undo_nVersion u" "undo_nVersion u < 2 ^ 31"
    and "undo_nHeight u = 0 \<Longrightarrow> undo_nVersion u = undo_nVersion old"
  shows "Unserialize_CTxInUndo ec_decompress old (Serialize_CTxInUndo ec_valid u @ rest) = Inr (u, rest)"
proof (cases "undo_nHeight u = 0")
  case True
  then show ?thesis
    using assms(3,7) txout_roundtrip [OF assms(1,2), of "undo_txout old"] undo_code_bits [OF assms(4)]
    by (simp add: Unserialize_CTxInUndo_def Serialize_CTxInUndo_def varint_u32.dec_enc Let_def)
next
  case False
  then have "0 < undo_nHeight u" by (simp add: word_gt_0)
  then show ?thesis
    using assms(3,5,6) txout_roundtrip [OF assms(1,2), of "undo_txout old"] undo_code_bits [OF assms(4)]
    by (simp add: Unserialize_CTxInUndo_def Serialize_CTxInUndo_def varint_u32.dec_enc varint_int.dec_enc Let_def)
qed

section \<open>Sizes\<close>

lemma length_WriteVarInt: "length (WriteVarInt n) = GetSizeOfVarInt n" "length (WriteVarInt_u32 k) = GetSizeOfVarInt (ucast k)"
    "length (WriteVarInt_int i) = GetSizeOfVarInt_int i"
  by (simp_all add: WriteVarInt_def WriteVarInt_u32_def WriteVarInt_int_def GetSizeOfVarInt_int_def length_varint)

lemma length_CTxOutCompressor: "length (Serialize_CTxOutCompressor ec out) = GetSerializeSize_CTxOutCompressor ec out"
  by (simp add: Serialize_CTxOutCompressor_def GetSerializeSize_CTxOutCompressor_def length_WriteVarInt script_size)

lemma fold_sizes:
  "fold (\<lambda>out nSize. if \<not> CTxOut_IsNull out then nSize + GetSerializeSize_CTxOutCompressor ec out else nSize) outs k =
   k + length (concat (map (\<lambda>out. if \<not> CTxOut_IsNull out then Serialize_CTxOutCompressor ec out else []) outs))"
  by (induction outs arbitrary: k) (simp_all add: length_CTxOutCompressor)

lemma coins_size:
  assumes "coins_code 8 c = Inr w8" "coins_code 16 c = Inr w16"
  shows "\<exists>size bs. GetSerializeSize_CCoins ec c = Inr size \<and> Serialize_CCoins ec c = Inr bs \<and>
    size + GetSizeOfVarInt (ucast w16) = length bs + GetSizeOfVarInt (ucast w8)"
  by (simp add: GetSerializeSize_CCoins_def Serialize_CCoins_def assms fold_sizes length_WriteVarInt)

section \<open>Properties\<close>

text \<open>C33: the coin database.  Coins that are not spent completely and have no null outputs at the end, with amounts,
  heights and versions in range, are written without a failed assertion and read back as they were, and
  likewise every undo record with a height below \<open>2\<^sup>3\<^sup>0\<close>; the coinstake flag and the mask included.\<close>

theorem coins_database_roundtrip:
  assumes "ec_recovers ec_valid ec_decompress" "storable_coins c"
    and "compressible_txout (undo_txout u)" "nRounds (undo_txout u) = - 10" "unat (undo_nHeight u) < 2 ^ 30"
    and "0 \<le> undo_nVersion u" "undo_nVersion u < 2 ^ 31" "undo_nHeight u = 0 \<longrightarrow> undo_nVersion u = 0"
  shows "(\<exists>bs. Serialize_CCoins ec_valid c = Inr bs \<and> Unserialize_CCoins ec_decompress (bs @ rest) = Inr (c, rest)) \<and>
    Unserialize_CTxInUndo ec_decompress (CTxInUndo_of CTxOut_null) (Serialize_CTxInUndo ec_valid u @ rest) = Inr (u, rest)"
proof -
  have "\<not> IsPruned c" using assms(2) by (simp add: storable_coins_def)
  then obtain bs where bs: "Serialize_CCoins ec_valid c = Inr bs"
    using coins_code_Inr [of c 16] by (auto simp: Serialize_CCoins_def)
  then show ?thesis
    using coins_roundtrip [OF assms(1,2) bs] undo_roundtrip [OF assms(1,3) _ assms(5-7), of "CTxInUndo_of CTxOut_null" rest] assms(4,8)
    by (simp add: CTxInUndo_of_def CTxOut_null_def)
qed

definition sample_coins :: CCoins where
  "sample_coins = \<lparr>fCoinBase = False, fCoinStake = True, coins_vout = [CTxOut_null, CTxOut_null, CTxOut_null, CTxOut_new 7 [OP_1]],
     coins_nHeight = 300, coins_nVersion = 1\<rparr>"

theorem coins_database_roundtrip_witness:
  "\<exists>bs. Serialize_CCoins (\<lambda>k. k = sample_key) sample_coins = Inr bs \<and>
     Unserialize_CCoins (\<lambda>k. Some sample_key) (bs @ [1]) = Inr (sample_coins, [1])"
proof -
  have "ec_recovers (\<lambda>k. k = sample_key) (\<lambda>k. Some sample_key)" by (simp add: ec_recovers_def)
  moreover have "storable_coins sample_coins"
    by (simp add: storable_coins_def sample_coins_def trimmed_def IsPruned_def CTxOut_IsNull_def CTxOut_null_def CTxOut_new_def
        storable_def compressible_txout_def)
  ultimately show ?thesis
    using coins_database_roundtrip [of "\<lambda>k. k = sample_key" "\<lambda>k. Some sample_key" sample_coins "CTxInUndo_of (CTxOut_new 7 [])" "[1]"]
    by (simp add: CTxInUndo_of_def CTxOut_new_def compressible_txout_def)
qed

text \<open>The size of coins.  \<^verbatim>\<open>GetSerializeSize\<close> computes the header code with the factor 8 where
  \<^verbatim>\<open>Serialize\<close> writes it with the factor 16; the two differ by the sizes of these codes, and for coins
  with 66 available outputs the announced size is one byte short.\<close>

theorem coins_size_mismatch:
  "(coins_code 8 c = Inr w8 \<and> coins_code 16 c = Inr w16 \<longrightarrow>
     (\<exists>size bs. GetSerializeSize_CCoins ec c = Inr size \<and> Serialize_CCoins ec c = Inr bs \<and>
        size + GetSizeOfVarInt (ucast w16) = length bs + GetSizeOfVarInt (ucast w8))) \<and>
   (\<exists>c size bs. storable_coins c \<and> GetSerializeSize_CCoins ec c = Inr size \<and> Serialize_CCoins ec c = Inr bs \<and> length bs = size + 1)"
proof -
  let ?c = "\<lparr>fCoinBase = False, fCoinStake = False, coins_vout = replicate 66 (CTxOut_new 0 []), coins_nHeight = 1, coins_nVersion = 1\<rparr>"
  have code: "coins_code 8 ?c = Inr 76" "coins_code 16 ?c = Inr 140" by code_simp+
  have "GetSizeOfVarInt (ucast (76 :: u32)) = 1" "GetSizeOfVarInt (ucast (140 :: u32)) = 2" by code_simp+
  moreover have "storable_coins ?c"
    by (simp add: storable_coins_def trimmed_def IsPruned_def drop_spent_nonnull list_all_iff CTxOut_IsNull_def CTxOut_new_def
        storable_def compressible_txout_def)
  ultimately show ?thesis using coins_size [of c w8 w16 ec] coins_size [OF code, of ec] by fastforce
qed

theorem coins_size_mismatch_witness:
  "\<exists>size bs. GetSerializeSize_CCoins (\<lambda>k. True) sample_coins = Inr size \<and> Serialize_CCoins (\<lambda>k. True) sample_coins = Inr bs \<and>
     size = length bs"
proof -
  have code: "coins_code 8 sample_coins = Inr 2" "coins_code 16 sample_coins = Inr 2" by code_simp+
  then show ?thesis using coins_size_mismatch [of sample_coins 2 2 "\<lambda>k. True"] by auto
qed

end
