(* ===== verification/CoinsView.thy ===== *)
theory CoinsView
  imports Coins "HOL-Library.AList"
begin

text \<open>
  The views on the set of unspent outputs, \<^verbatim>\<open>src/src/coins.h\<close>, \<^verbatim>\<open>src/src/coins.cpp\<close> and
  the coin database of \<^verbatim>\<open>src/src/txdb.cpp\<close>.  A view is a table of virtual methods over a state; a
  cache holds the state of the view below it, which its calls update.  The database is reached through the
  two functions \<open>ldb_get\<close> and \<open>ldb_write\<close> of LevelDB.  Every view promises the contract of the locale
  \<open>coins_store\<close>; a cache keeps it when the view below does, so caches stack, and the database is one.
\<close>

type_synonym txid = base_uint

record CCoinsCacheEntry =
  entry_coins :: CCoins
  entry_flags :: byte

definition DIRTY :: byte where "DIRTY = push_bit 0 1"
definition FRESH :: byte where "FRESH = push_bit 1 1"

text \<open>The hash map, in the order in which it is traversed; its keys are distinct.\<close>

type_synonym CCoinsMap = "(txid \<times> CCoinsCacheEntry) list"

text \<open>The virtual methods of a view.  A \<open>None\<close> of \<open>BatchWrite\<close> is a failed assertion.\<close>

record 'v view =
  GetCoins :: "'v \<Rightarrow> txid \<Rightarrow> CCoins option \<times> 'v"
  GetBestBlock :: "'v \<Rightarrow> base_uint \<times> 'v"
  BatchWrite :: "'v \<Rightarrow> CCoinsMap \<Rightarrow> base_uint \<Rightarrow> (bool \<times> 'v) option"

record 'v CCoinsViewCache =
  base :: 'v
  hasModifier :: bool
  hashBlock :: base_uint
  cacheCoins :: CCoinsMap

definition CCoinsViewCache_new :: "'v \<Rightarrow> 'v CCoinsViewCache" where
  "CCoinsViewCache_new baseIn = \<lparr>base = baseIn, hasModifier = False, hashBlock = base_uint_zero 8, cacheCoins = []\<rparr>"

section \<open>The cache\<close>

definition FetchCoins :: "'v view \<Rightarrow> 'v CCoinsViewCache \<Rightarrow> txid \<Rightarrow> CCoinsCacheEntry option \<times> 'v CCoinsViewCache" where
  "FetchCoins V c txid =
     (case map_of (cacheCoins c) txid of
        Some e \<Rightarrow> (Some e, c)
      | None \<Rightarrow>
          (case GetCoins V (base c) txid of
             (None, b) \<Rightarrow> (None, c\<lparr>base := b\<rparr>)
           | (Some tmp, b) \<Rightarrow>
               let e = \<lparr>entry_coins = tmp, entry_flags = (if IsPruned tmp then FRESH else 0)\<rparr>
               in (Some e, c\<lparr>base := b, cacheCoins := AList.update txid e (cacheCoins c)\<rparr>)))"

definition Cache_GetCoins :: "'v view \<Rightarrow> 'v CCoinsViewCache \<Rightarrow> txid \<Rightarrow> CCoins option \<times> 'v CCoinsViewCache" where
  "Cache_GetCoins V c txid = (case FetchCoins V c txid of (it, c') \<Rightarrow> (map_option entry_coins it, c'))"

text \<open>A pointer to the coins, or \<open>NULL\<close>.\<close>

definition AccessCoins :: "'v view \<Rightarrow> 'v CCoinsViewCache \<Rightarrow> txid \<Rightarrow> CCoins option \<times> 'v CCoinsViewCache" where
  "AccessCoins V c txid = (case FetchCoins V c txid of (it, c') \<Rightarrow> (map_option entry_coins it, c'))"

definition Cache_HaveCoins :: "'v view \<Rightarrow> 'v CCoinsViewCache \<Rightarrow> txid \<Rightarrow> bool \<times> 'v CCoinsViewCache" where
  "Cache_HaveCoins V c txid =
     (case FetchCoins V c txid of (it, c') \<Rightarrow> (case it of None \<Rightarrow> False | Some e \<Rightarrow> coins_vout (entry_coins e) \<noteq> [], c'))"

definition Cache_GetBestBlock :: "'v view \<Rightarrow> 'v CCoinsViewCache \<Rightarrow> base_uint \<times> 'v CCoinsViewCache" where
  "Cache_GetBestBlock V c =
     (if hashBlock c = base_uint_zero 8
      then (case GetBestBlock V (base c) of (h, b) \<Rightarrow> (h, c\<lparr>base := b, hashBlock := h\<rparr>))
      else (hashBlock c, c))"

definition SetBestBlock :: "base_uint \<Rightarrow> 'v CCoinsViewCache \<Rightarrow> 'v CCoinsViewCache" where
  "SetBestBlock hashBlockIn c = c\<lparr>hashBlock := hashBlockIn\<rparr>"

text \<open>\<^verbatim>\<open>ModifyCoins\<close> makes a modifier for an entry; the code then changes the coins through it, and
  its destructor trims them and drops an entry that is not needed.\<close>

definition ModifyCoins :: "'v view \<Rightarrow> 'v CCoinsViewCache \<Rightarrow> txid \<Rightarrow> 'v CCoinsViewCache option" where
  "ModifyCoins V c txid =
     (if hasModifier c then None
      else case map_of (cacheCoins c) txid of
        Some e \<Rightarrow> Some (c\<lparr>hasModifier := True,
                          cacheCoins := AList.update txid (e\<lparr>entry_flags := entry_flags e OR DIRTY\<rparr>) (cacheCoins c)\<rparr>)
      | None \<Rightarrow>
          (case GetCoins V (base c) txid of (r, b) \<Rightarrow>
             let e = (case r of
                        None \<Rightarrow> \<lparr>entry_coins = CCoins_new, entry_flags = FRESH\<rparr>
                      | Some tmp \<Rightarrow> \<lparr>entry_coins = tmp, entry_flags = (if IsPruned tmp then FRESH else 0)\<rparr>)
             in Some (c\<lparr>base := b, hasModifier := True,
                        cacheCoins := AList.update txid (e\<lparr>entry_flags := entry_flags e OR DIRTY\<rparr>) (cacheCoins c)\<rparr>)))"

definition modifier_set :: "txid \<Rightarrow> CCoins \<Rightarrow> 'v CCoinsViewCache \<Rightarrow> 'v CCoinsViewCache" where
  "modifier_set txid coins c =
     (case map_of (cacheCoins c) txid of
        None \<Rightarrow> c
      | Some e \<Rightarrow> c\<lparr>cacheCoins := AList.update txid (e\<lparr>entry_coins := coins\<rparr>) (cacheCoins c)\<rparr>)"

definition CCoinsModifier_destroy :: "txid \<Rightarrow> 'v CCoinsViewCache \<Rightarrow> 'v CCoinsViewCache option" where
  "CCoinsModifier_destroy txid c =
     (if \<not> hasModifier c then None
      else case map_of (cacheCoins c) txid of
        None \<Rightarrow> None
      | Some e \<Rightarrow>
          let coins = Cleanup (entry_coins e) in
          if entry_flags e AND FRESH \<noteq> 0 \<and> IsPruned coins
          then Some (c\<lparr>hasModifier := False, cacheCoins := AList.delete txid (cacheCoins c)\<rparr>)
          else Some (c\<lparr>hasModifier := False, cacheCoins := AList.update txid (e\<lparr>entry_coins := coins\<rparr>) (cacheCoins c)\<rparr>))"

text \<open>The life of a modifier: the coins it finds are replaced by \<open>f\<close> of them, with a result.\<close>

definition with_modifier ::
    "'v view \<Rightarrow> txid \<Rightarrow> (CCoins \<Rightarrow> 'r \<times> CCoins) \<Rightarrow> 'v CCoinsViewCache \<Rightarrow> ('r \<times> 'v CCoinsViewCache) option" where
  "with_modifier V txid f c =
     (case ModifyCoins V c txid of
        None \<Rightarrow> None
      | Some c1 \<Rightarrow>
          (case map_of (cacheCoins c1) txid of
             None \<Rightarrow> None
           | Some e \<Rightarrow>
               (case f (entry_coins e) of (r, coins) \<Rightarrow>
                  map_option (\<lambda>c2. (r, c2)) (CCoinsModifier_destroy txid (modifier_set txid coins c1)))))"

text \<open>One round of the loop of \<^verbatim>\<open>BatchWrite\<close>.\<close>

definition batch_entry :: "txid \<Rightarrow> CCoinsCacheEntry \<Rightarrow> CCoinsMap \<Rightarrow> CCoinsMap option" where
  "batch_entry txid child cache =
     (if entry_flags child AND DIRTY = 0 then Some cache
      else case map_of cache txid of
        None \<Rightarrow>
          if \<not> IsPruned (entry_coins child) then
            (if entry_flags child AND FRESH = 0 then None
             else Some (AList.update txid \<lparr>entry_coins = entry_coins child, entry_flags = DIRTY OR FRESH\<rparr> cache))
          else Some cache
      | Some us \<Rightarrow>
          if entry_flags us AND FRESH \<noteq> 0 \<and> IsPruned (entry_coins child) then Some (AList.delete txid cache)
          else Some (AList.update txid \<lparr>entry_coins = entry_coins child, entry_flags = entry_flags us OR DIRTY\<rparr> cache))"

fun batch_loop :: "CCoinsMap \<Rightarrow> CCoinsMap \<Rightarrow> CCoinsMap option" where
  "batch_loop [] cache = Some cache"
| "batch_loop ((txid, child) # mapCoins) cache = Option.bind (batch_entry txid child cache) (batch_loop mapCoins)"

definition Cache_BatchWrite :: "'v CCoinsViewCache \<Rightarrow> CCoinsMap \<Rightarrow> base_uint \<Rightarrow> (bool \<times> 'v CCoinsViewCache) option" where
  "Cache_BatchWrite c mapCoins hashBlockIn =
     (if hasModifier c then None
      else map_option (\<lambda>cache. (True, c\<lparr>cacheCoins := cache, hashBlock := hashBlockIn\<rparr>)) (batch_loop mapCoins (cacheCoins c)))"

definition Flush :: "'v view \<Rightarrow> 'v CCoinsViewCache \<Rightarrow> (bool \<times> 'v CCoinsViewCache) option" where
  "Flush V c =
     map_option (\<lambda>(fOk, b). (fOk, c\<lparr>base := b, cacheCoins := []\<rparr>)) (BatchWrite V (base c) (cacheCoins c) (hashBlock c))"

definition GetCacheSize :: "'v CCoinsViewCache \<Rightarrow> nat" where
  "GetCacheSize c = length (cacheCoins c)"

text \<open>The methods of a cache, as those of a view.\<close>

definition cache_view :: "'v view \<Rightarrow> 'v CCoinsViewCache view" where
  "cache_view V = \<lparr>GetCoins = Cache_GetCoins V, GetBestBlock = Cache_GetBestBlock V, BatchWrite = Cache_BatchWrite\<rparr>"

subsection \<open>Inputs of a transaction\<close>

definition GetOutputFor :: "'v view \<Rightarrow> CTxIn \<Rightarrow> 'v CCoinsViewCache \<Rightarrow> (CTxOut \<times> 'v CCoinsViewCache) option" where
  "GetOutputFor V input c =
     (case AccessCoins V c (op_hash (prevout input)) of
        (None, c') \<Rightarrow> None
      | (Some coins, c') \<Rightarrow>
          if IsAvailable coins (unat (op_n (prevout input)))
          then Some (coins_vout coins ! unat (op_n (prevout input)), c') else None)"

fun value_in_loop :: "'v view \<Rightarrow> CTxIn list \<Rightarrow> CAmount \<Rightarrow> 'v CCoinsViewCache \<Rightarrow> (CAmount \<times> 'v CCoinsViewCache) option" where
  "value_in_loop V [] nResult c = Some (nResult, c)"
| "value_in_loop V (input # inputs) nResult c =
     (case GetOutputFor V input c of
        None \<Rightarrow> None
      | Some (out, c') \<Rightarrow> value_in_loop V inputs (wrap64 (nResult + nValue out)) c')"

definition GetValueIn :: "'v view \<Rightarrow> CTransaction \<Rightarrow> 'v CCoinsViewCache \<Rightarrow> (CAmount \<times> 'v CCoinsViewCache) option" where
  "GetValueIn V tx c = (if IsCoinBase tx then Some (0, c) else value_in_loop V (vin tx) 0 c)"

fun have_inputs_loop :: "'v view \<Rightarrow> CTxIn list \<Rightarrow> 'v CCoinsViewCache \<Rightarrow> bool \<times> 'v CCoinsViewCache" where
  "have_inputs_loop V [] c = (True, c)"
| "have_inputs_loop V (input # inputs) c =
     (case AccessCoins V c (op_hash (prevout input)) of
        (None, c') \<Rightarrow> (False, c')
      | (Some coins, c') \<Rightarrow>
          if IsAvailable coins (unat (op_n (prevout input))) then have_inputs_loop V inputs c' else (False, c'))"

definition HaveInputs :: "'v view \<Rightarrow> CTransaction \<Rightarrow> 'v CCoinsViewCache \<Rightarrow> bool \<times> 'v CCoinsViewCache" where
  "HaveInputs V tx c = (if \<not> IsCoinBase tx then have_inputs_loop V (vin tx) c else (True, c))"

section \<open>The database\<close>

datatype db_key = Key_coins txid | Key_best

text \<open>A write batch: values to put, \<open>None\<close> for keys to erase, in order.\<close>

type_synonym batch = "(db_key \<times> bytes option) list"

definition BatchWriteCoins :: "(bytes \<Rightarrow> bool) \<Rightarrow> txid \<Rightarrow> CCoins \<Rightarrow> batch option" where
  "BatchWriteCoins ec_valid hash coins =
     (if IsPruned coins then Some [(Key_coins hash, None)]
      else case Serialize_CCoins ec_valid coins of Inl _ \<Rightarrow> None | Inr bs \<Rightarrow> Some [(Key_coins hash, Some bs)])"

fun db_batch :: "(bytes \<Rightarrow> bool) \<Rightarrow> CCoinsMap \<Rightarrow> batch option" where
  "db_batch ec_valid [] = Some []"
| "db_batch ec_valid ((txid, e) # mapCoins) =
     (if entry_flags e AND DIRTY \<noteq> 0
      then Option.bind (BatchWriteCoins ec_valid txid (entry_coins e)) (\<lambda>b. map_option ((@) b) (db_batch ec_valid mapCoins))
      else db_batch ec_valid mapCoins)"

definition DB_GetCoins :: "(bytes \<Rightarrow> bytes option) \<Rightarrow> ('d \<Rightarrow> db_key \<Rightarrow> bytes option) \<Rightarrow> 'd \<Rightarrow> txid \<Rightarrow> CCoins option \<times> 'd" where
  "DB_GetCoins ec_decompress ldb_get db txid =
     (case ldb_get db (Key_coins txid) of
        None \<Rightarrow> (None, db)
      | Some bs \<Rightarrow> (case Unserialize_CCoins ec_decompress bs of Inl _ \<Rightarrow> (None, db) | Inr (coins, _) \<Rightarrow> (Some coins, db)))"

definition DB_HaveCoins :: "('d \<Rightarrow> db_key \<Rightarrow> bytes option) \<Rightarrow> 'd \<Rightarrow> txid \<Rightarrow> bool" where
  "DB_HaveCoins ldb_get db txid \<longleftrightarrow> ldb_get db (Key_coins txid) \<noteq> None"

definition DB_GetBestBlock :: "('d \<Rightarrow> db_key \<Rightarrow> bytes option) \<Rightarrow> 'd \<Rightarrow> base_uint \<times> 'd" where
  "DB_GetBestBlock ldb_get db =
     (case ldb_get db Key_best of
        None \<Rightarrow> (base_uint_zero 8, db)
      | Some bs \<Rightarrow> (case Unserialize_uint 8 bs of Inl _ \<Rightarrow> (base_uint_zero 8, db) | Inr (h, _) \<Rightarrow> (h, db)))"

definition DB_BatchWrite ::
    "(bytes \<Rightarrow> bool) \<Rightarrow> ('d \<Rightarrow> batch \<Rightarrow> 'd) \<Rightarrow> 'd \<Rightarrow> CCoinsMap \<Rightarrow> base_uint \<Rightarrow> (bool \<times> 'd) option" where
  "DB_BatchWrite ec_valid ldb_write db mapCoins hashBlockIn =
     map_option (\<lambda>b. (True, ldb_write db
         (b @ (if hashBlockIn \<noteq> base_uint_zero 8 then [(Key_best, Some (Serialize_uint hashBlockIn))] else []))))
       (db_batch ec_valid mapCoins)"

definition db_view ::
    "(bytes \<Rightarrow> bool) \<Rightarrow> (bytes \<Rightarrow> bytes option) \<Rightarrow> ('d \<Rightarrow> db_key \<Rightarrow> bytes option) \<Rightarrow> ('d \<Rightarrow> batch \<Rightarrow> 'd) \<Rightarrow> 'd view" where
  "db_view ec_valid ec_decompress ldb_get ldb_write =
     \<lparr>GetCoins = DB_GetCoins ec_decompress ldb_get, GetBestBlock = DB_GetBestBlock ldb_get,
      BatchWrite = DB_BatchWrite ec_valid ldb_write\<rparr>"


section \<open>The contract of a view\<close>

abbreviation dirty :: "CCoinsCacheEntry \<Rightarrow> bool" where "dirty e \<equiv> entry_flags e AND DIRTY \<noteq> 0"
abbreviation fresh :: "CCoinsCacheEntry \<Rightarrow> bool" where "fresh e \<equiv> entry_flags e AND FRESH \<noteq> 0"

text \<open>What a view says of a transaction: nothing, also when all its outputs are spent, or the coins.\<close>

definition live :: "CCoins option \<Rightarrow> CCoins option" where
  "live r = (case r of None \<Rightarrow> None | Some coins \<Rightarrow> if IsPruned coins then None else Some coins)"

lemma live_simps [simp]: "live None = None" "IsPruned coins \<Longrightarrow> live (Some coins) = None"
    "\<not> IsPruned coins \<Longrightarrow> live (Some coins) = Some coins"
  by (simp_all add: live_def)

lemma live_eq_Some: "live r = Some coins \<longleftrightarrow> r = Some coins \<and> \<not> IsPruned coins"
  by (auto simp: live_def split: option.splits)

text \<open>The state of a view is \<open>utxo\<close>, the unspent coins, and \<open>best\<close>, the block they belong to.  \<open>held\<close> are the
  transactions whose coins the view has handed out and can take back, and \<open>ok\<close> the coins it can store.  Batches
  are accepted when their fresh entries are unknown to the view and the others are held.\<close>

locale coins_store =
  fixes V :: "'v view"
    and vinv :: "'v \<Rightarrow> bool"
    and utxo :: "'v \<Rightarrow> txid \<Rightarrow> CCoins option"
    and held :: "'v \<Rightarrow> txid \<Rightarrow> bool"
    and best :: "'v \<Rightarrow> base_uint"
    and ok :: "CCoins \<Rightarrow> bool"
  assumes get: "vinv v \<Longrightarrow> GetCoins V v t = (r, v') \<Longrightarrow>
      vinv v' \<and> live r = utxo v t \<and> utxo v' = utxo v \<and> best v' = best v \<and> (\<forall>u. held v u \<longrightarrow> held v' u)"
    and get_live: "vinv v \<Longrightarrow> GetCoins V v t = (Some coins, v') \<Longrightarrow> \<not> IsPruned coins \<Longrightarrow> held v' t \<and> ok coins"
    and get_best: "vinv v \<Longrightarrow> GetBestBlock V v = (h, v') \<Longrightarrow>
      h = best v \<and> vinv v' \<and> utxo v' = utxo v \<and> best v' = best v \<and> (\<forall>u. held v u \<longrightarrow> held v' u)"
    and batch: "vinv v \<Longrightarrow> distinct (map fst m) \<Longrightarrow> length h = 8 \<Longrightarrow>
      (\<And>t e. (t, e) \<in> set m \<Longrightarrow> dirty e \<Longrightarrow>
         (fresh e \<longrightarrow> utxo v t = None) \<and> (\<not> fresh e \<longrightarrow> held v t) \<and> (\<not> IsPruned (entry_coins e) \<longrightarrow> ok (entry_coins e))) \<Longrightarrow>
      \<exists>v'. BatchWrite V v m h = Some (True, v') \<and> vinv v' \<and>
        (\<forall>t. utxo v' t = (case map_of m t of Some e \<Rightarrow> if dirty e then live (Some (entry_coins e)) else utxo v t | None \<Rightarrow> utxo v t)) \<and>
        (h \<noteq> base_uint_zero 8 \<longrightarrow> best v' = h)"
    and best_size: "vinv v \<Longrightarrow> length (best v) = 8"

text \<open>The same notions for a cache above such a view.\<close>

definition entry_ok :: "(txid \<Rightarrow> CCoins option) \<Rightarrow> (txid \<Rightarrow> bool) \<Rightarrow> (CCoins \<Rightarrow> bool) \<Rightarrow> txid \<Rightarrow> CCoinsCacheEntry \<Rightarrow> bool" where
  "entry_ok below held ok t e \<longleftrightarrow>
     (fresh e \<longrightarrow> below t = None) \<and> (\<not> fresh e \<longrightarrow> held t) \<and> (\<not> dirty e \<longrightarrow> live (Some (entry_coins e)) = below t) \<and>
     (\<not> IsPruned (entry_coins e) \<longrightarrow> ok (entry_coins e))"

definition cache_inv ::
    "('v \<Rightarrow> bool) \<Rightarrow> ('v \<Rightarrow> txid \<Rightarrow> CCoins option) \<Rightarrow> ('v \<Rightarrow> txid \<Rightarrow> bool) \<Rightarrow> (CCoins \<Rightarrow> bool) \<Rightarrow> 'v CCoinsViewCache \<Rightarrow> bool" where
  "cache_inv vinv utxo held ok c \<longleftrightarrow>
     vinv (base c) \<and> \<not> hasModifier c \<and> length (hashBlock c) = 8 \<and> distinct (map fst (cacheCoins c)) \<and>
     (\<forall>t e. map_of (cacheCoins c) t = Some e \<longrightarrow> entry_ok (utxo (base c)) (held (base c)) ok t e)"

definition cache_utxo :: "('v \<Rightarrow> txid \<Rightarrow> CCoins option) \<Rightarrow> 'v CCoinsViewCache \<Rightarrow> txid \<Rightarrow> CCoins option" where
  "cache_utxo utxo c t =
     (case map_of (cacheCoins c) t of Some e \<Rightarrow> live (Some (entry_coins e)) | None \<Rightarrow> utxo (base c) t)"

definition cache_held :: "'v CCoinsViewCache \<Rightarrow> txid \<Rightarrow> bool" where
  "cache_held c t \<longleftrightarrow> map_of (cacheCoins c) t \<noteq> None"

definition cache_best :: "('v \<Rightarrow> base_uint) \<Rightarrow> 'v CCoinsViewCache \<Rightarrow> base_uint" where
  "cache_best best c = (if hashBlock c = base_uint_zero 8 then best (base c) else hashBlock c)"

lemma flag_bits [simp]:
  "(f OR DIRTY) AND DIRTY \<noteq> 0" "(f OR DIRTY) AND FRESH = f AND FRESH" "(DIRTY OR FRESH) AND DIRTY \<noteq> 0"
  "(DIRTY OR FRESH) AND FRESH \<noteq> 0" "FRESH AND DIRTY = 0" "FRESH AND FRESH \<noteq> 0" "FRESH \<noteq> 0" "DIRTY \<noteq> 0"
  by (simp_all add: DIRTY_def FRESH_def bit.conj_disj_distrib2 and.commute)

lemma entry_ok_mono:
  "entry_ok below held ok t e \<Longrightarrow> below' t = below t \<Longrightarrow> (held t \<Longrightarrow> held' t) \<Longrightarrow> entry_ok below' held' ok t e"
  by (auto simp: entry_ok_def)

lemma SetBestBlock_inv: "cache_inv vinv utxo held ok c \<Longrightarrow> length h = 8 \<Longrightarrow> cache_inv vinv utxo held ok (SetBestBlock h c)"
  by (simp add: cache_inv_def SetBestBlock_def)

lemma SetBestBlock_simps: "hashBlock (SetBestBlock h c) = h" "base (SetBestBlock h c) = base c"
  by (simp_all add: SetBestBlock_def)

lemma cache_utxo_hashBlock: "cache_utxo utxo (c\<lparr>hashBlock := h\<rparr>) = cache_utxo utxo c"
  by (auto simp: cache_utxo_def fun_eq_iff split: option.splits)

context coins_store
begin

abbreviation "cinv \<equiv> cache_inv vinv utxo held ok"
abbreviation "cutxo \<equiv> cache_utxo utxo"
abbreviation "cbest \<equiv> cache_best best"
abbreviation "same_best c c' \<equiv> hashBlock c' = hashBlock c \<and> cbest c' = cbest c"

text \<open>The entry of a transaction that the cache did not have, and the cache with it.\<close>

lemma fetched_entry:
  assumes "cinv c" "map_of (cacheCoins c) t = None" "GetCoins V (base c) t = (Some coins, b)"
  defines "e \<equiv> \<lparr>entry_coins = coins, entry_flags = (if IsPruned coins then FRESH else 0)\<rparr>"
  shows "entry_ok (utxo b) (held b) ok t e"
  using get [OF _ assms(3)] get_live [OF _ assms(3)] assms(1) by (auto simp: cache_inv_def entry_ok_def e_def)

lemma base_moved:
  assumes "cinv c" "vinv b" "utxo b = utxo (base c)" "\<forall>u. held (base c) u \<longrightarrow> held b u" "best b = best (base c)"
  shows "cinv (c\<lparr>base := b\<rparr>)" "cutxo (c\<lparr>base := b\<rparr>) = cutxo c" "cbest (c\<lparr>base := b\<rparr>) = cbest c"
proof -
  have "entry_ok (utxo b) (held b) ok t e" if "entry_ok (utxo (base c)) (held (base c)) ok t e" for t e
    using that assms(3,4) by (auto intro: entry_ok_mono)
  then show "cinv (c\<lparr>base := b\<rparr>)" using assms(1,2) by (auto simp: cache_inv_def)
qed (use assms(3,5) in \<open>auto simp: cache_utxo_def cache_best_def fun_eq_iff split: option.splits\<close>)

lemma cache_insert:
  assumes "cinv c" "entry_ok (utxo (base c)) (held (base c)) ok t e"
  shows "cinv (c\<lparr>cacheCoins := AList.update t e (cacheCoins c)\<rparr>)"
    "cutxo (c\<lparr>cacheCoins := AList.update t e (cacheCoins c)\<rparr>) = (cutxo c)(t := live (Some (entry_coins e)))"
  using assms
  by (auto simp: cache_inv_def cache_utxo_def fun_eq_iff AList.update_conv' distinct_update split: option.splits)

lemma FetchCoins_spec:
  assumes "cinv c" "FetchCoins V c t = (it, c')"
  shows "cinv c' \<and> cutxo c' = cutxo c \<and> cbest c' = cbest c \<and> live (map_option entry_coins it) = cutxo c t \<and>
    map_of (cacheCoins c') t = it \<and> (\<forall>u. cache_held c u \<longrightarrow> cache_held c' u)"
proof (cases "map_of (cacheCoins c) t")
  case (Some e)
  then have "it = Some e" "c' = c" using assms(2) by (simp_all add: FetchCoins_def)
  then show ?thesis using Some assms(1) by (simp add: cache_utxo_def)
next
  case None
  obtain r b where g: "GetCoins V (base c) t = (r, b)" by fastforce
  have "vinv (base c)" using assms(1) by (simp add: cache_inv_def)
  note G = get [OF this g]
  have moved: "cinv (c\<lparr>base := b\<rparr>)" "cutxo (c\<lparr>base := b\<rparr>) = cutxo c" "cbest (c\<lparr>base := b\<rparr>) = cbest c"
    using base_moved [OF assms(1)] G by auto
  have here: "cutxo c t = live r" using None G by (simp add: cache_utxo_def)
  show ?thesis
  proof (cases r)
    case r: None
    then show ?thesis using None g moved here assms(2) by (auto simp: FetchCoins_def cache_held_def)
  next
    case r: (Some coins)
    define e where "e = \<lparr>entry_coins = coins, entry_flags = (if IsPruned coins then FRESH else 0)\<rparr>"
    have e: "entry_ok (utxo (base (c\<lparr>base := b\<rparr>))) (held (base (c\<lparr>base := b\<rparr>))) ok t e"
      using fetched_entry [OF assms(1) None] g r by (simp add: e_def)
    have c': "it = Some e" "c' = c\<lparr>base := b, cacheCoins := AList.update t e (cacheCoins c)\<rparr>"
      using None g r assms(2) by (auto simp: FetchCoins_def e_def Let_def)
    have "cinv c'" "cutxo c' = (cutxo c)(t := live (Some (entry_coins e)))"
      using cache_insert [OF moved(1) e] moved(2) by (simp_all add: c')
    then show ?thesis
      using moved(3) here r by (auto simp: c' e_def fun_eq_iff cache_held_def cache_best_def AList.update_conv')
  qed
qed

lemma GetCoins_cache:
  assumes "cinv c" "Cache_GetCoins V c t = (r, c')"
  shows "cinv c' \<and> live r = cutxo c t \<and> cutxo c' = cutxo c \<and> cbest c' = cbest c \<and> (\<forall>u. cache_held c u \<longrightarrow> cache_held c' u)"
    "r = Some coins \<Longrightarrow> \<not> IsPruned coins \<Longrightarrow> cache_held c' t \<and> ok coins"
proof -
  obtain it where it: "FetchCoins V c t = (it, c')" "r = map_option entry_coins it"
    using assms(2) by (auto simp: Cache_GetCoins_def split: prod.splits)
  note spec = FetchCoins_spec [OF assms(1) it(1)]
  show "cinv c' \<and> live r = cutxo c t \<and> cutxo c' = cutxo c \<and> cbest c' = cbest c \<and> (\<forall>u. cache_held c u \<longrightarrow> cache_held c' u)"
    using spec it(2) by simp
  assume "r = Some coins" "\<not> IsPruned coins"
  then show "cache_held c' t \<and> ok coins"
    using spec it(2) by (auto simp: cache_held_def cache_inv_def entry_ok_def)
qed

lemma GetBestBlock_cache:
  assumes "cinv c" "Cache_GetBestBlock V c = (h, c')"
  shows "h = cbest c \<and> cinv c' \<and> cutxo c' = cutxo c \<and> cbest c' = cbest c \<and> (\<forall>u. cache_held c u \<longrightarrow> cache_held c' u)"
proof (cases "hashBlock c = base_uint_zero 8")
  case True
  obtain b where b: "GetBestBlock V (base c) = (h, b)" "c' = c\<lparr>base := b, hashBlock := h\<rparr>"
    using assms(2) True by (auto simp: Cache_GetBestBlock_def split: prod.splits)
  have "vinv (base c)" using assms(1) by (simp add: cache_inv_def)
  note B = get_best [OF this b(1)] best_size [OF this]
  have "cinv (c\<lparr>base := b\<rparr>)" "cutxo (c\<lparr>base := b\<rparr>) = cutxo c" using base_moved [OF assms(1)] B by auto
  then have "cinv c'" "cutxo c' = cutxo c" using b(2) B by (auto simp: cache_inv_def cache_utxo_hashBlock)
  then show ?thesis using b(2) B True by (auto simp: cache_best_def cache_held_def)
next
  case False
  then show ?thesis using assms by (auto simp: Cache_GetBestBlock_def cache_best_def)
qed

text \<open>The batch loop.  The conditions on the entries that are left concern other keys, so each round keeps them.\<close>

lemma batch_entry_spec:
  assumes "cinv c" "dirty e \<longrightarrow> (fresh e \<longrightarrow> cutxo c t = None) \<and> (\<not> fresh e \<longrightarrow> cache_held c t) \<and>
      (\<not> IsPruned (entry_coins e) \<longrightarrow> ok (entry_coins e))"
  obtains cache where "batch_entry t e (cacheCoins c) = Some cache" "cinv (c\<lparr>cacheCoins := cache\<rparr>)"
    "cutxo (c\<lparr>cacheCoins := cache\<rparr>) = (if dirty e then (cutxo c)(t := live (Some (entry_coins e))) else cutxo c)"
    "\<And>u. u \<noteq> t \<Longrightarrow> map_of cache u = map_of (cacheCoins c) u"
proof (cases "dirty e")
  case False
  then show thesis using that [of "cacheCoins c"] assms(1) by (simp add: batch_entry_def)
next
  case d: True
  show thesis
  proof (cases "map_of (cacheCoins c) t")
    case None
    then have f: "fresh e" "utxo (base c) t = None" using d assms(2) by (auto simp: cache_held_def cache_utxo_def)
    show thesis
    proof (cases "IsPruned (entry_coins e)")
      case True
      then show thesis
        using that [of "cacheCoins c"] d None f assms(1) by (auto simp: batch_entry_def cache_utxo_def fun_eq_iff)
    next
      case False
      let ?e = "\<lparr>entry_coins = entry_coins e, entry_flags = DIRTY OR FRESH\<rparr>"
      have "entry_ok (utxo (base c)) (held (base c)) ok t ?e" using f False assms(2) d by (simp add: entry_ok_def)
      then show thesis
        using that [of "AList.update t ?e (cacheCoins c)"] cache_insert [OF assms(1), of t ?e] d None f False
        by (simp add: batch_entry_def AList.update_conv')
    qed
  next
    case (Some us)
    then have us: "entry_ok (utxo (base c)) (held (base c)) ok t us" using assms(1) by (simp add: cache_inv_def)
    show thesis
    proof (cases "fresh us \<and> IsPruned (entry_coins e)")
      case True
      let ?cache = "AList.delete t (cacheCoins c)"
      have "cinv (c\<lparr>cacheCoins := ?cache\<rparr>)"
        using assms(1) by (auto simp: cache_inv_def AList.delete_conv' distinct_delete split: if_splits)
      moreover have "cutxo (c\<lparr>cacheCoins := ?cache\<rparr>) = (cutxo c)(t := live (Some (entry_coins e)))"
        using us True by (auto simp: cache_utxo_def fun_eq_iff AList.delete_conv' entry_ok_def split: option.splits)
      ultimately show thesis using that [of ?cache] d Some True by (simp add: batch_entry_def AList.delete_conv')
    next
      case False
      let ?e = "\<lparr>entry_coins = entry_coins e, entry_flags = entry_flags us OR DIRTY\<rparr>"
      have "entry_ok (utxo (base c)) (held (base c)) ok t ?e" using us d assms(2) by (auto simp: entry_ok_def)
      then show thesis
        using that [of "AList.update t ?e (cacheCoins c)"] cache_insert [OF assms(1), of t ?e] d Some False
        by (auto simp: batch_entry_def AList.update_conv')
    qed
  qed
qed

lemma batch_loop_spec:
  assumes "cinv c" "distinct (map fst m)"
    and "\<And>t e. (t, e) \<in> set m \<Longrightarrow> dirty e \<Longrightarrow> (fresh e \<longrightarrow> cutxo c t = None) \<and> (\<not> fresh e \<longrightarrow> cache_held c t) \<and>
      (\<not> IsPruned (entry_coins e) \<longrightarrow> ok (entry_coins e))"
  shows "\<exists>cache. batch_loop m (cacheCoins c) = Some cache \<and> cinv (c\<lparr>cacheCoins := cache\<rparr>) \<and>
    (\<forall>t. cutxo (c\<lparr>cacheCoins := cache\<rparr>) t =
       (case map_of m t of Some e \<Rightarrow> if dirty e then live (Some (entry_coins e)) else cutxo c t | None \<Rightarrow> cutxo c t))"
  using assms
proof (induction m arbitrary: c)
  case (Cons p m)
  obtain t e where p: "p = (t, e)" by fastforce
  obtain cache where step: "batch_entry t e (cacheCoins c) = Some cache" "cinv (c\<lparr>cacheCoins := cache\<rparr>)"
      "cutxo (c\<lparr>cacheCoins := cache\<rparr>) = (if dirty e then (cutxo c)(t := live (Some (entry_coins e))) else cutxo c)"
      "\<And>u. u \<noteq> t \<Longrightarrow> map_of cache u = map_of (cacheCoins c) u"
    using batch_entry_spec [OF Cons.prems(1), of e t] Cons.prems(3) [of t e] p by auto
  have t: "t \<notin> fst ` set m" using Cons.prems(2) p by simp
  have rest: "(fresh f \<longrightarrow> cutxo (c\<lparr>cacheCoins := cache\<rparr>) u = None) \<and> (\<not> fresh f \<longrightarrow> cache_held (c\<lparr>cacheCoins := cache\<rparr>) u) \<and>
      (\<not> IsPruned (entry_coins f) \<longrightarrow> ok (entry_coins f))" if "(u, f) \<in> set m" "dirty f" for u f
  proof -
    have "u \<noteq> t" using that(1) t by force
    then show ?thesis using Cons.prems(3) [of u f] that step(3,4) p by (simp add: cache_held_def)
  qed
  obtain cache' where "batch_loop m cache = Some cache'" "cinv (c\<lparr>cacheCoins := cache'\<rparr>)"
      "\<And>t. cutxo (c\<lparr>cacheCoins := cache'\<rparr>) t = (case map_of m t of Some e \<Rightarrow> if dirty e then live (Some (entry_coins e))
          else cutxo (c\<lparr>cacheCoins := cache\<rparr>) t | None \<Rightarrow> cutxo (c\<lparr>cacheCoins := cache\<rparr>) t)"
    using Cons.IH [OF step(2)] Cons.prems(2) rest p by auto
  moreover have "map_of m t = None" using t by (simp add: map_of_eq_None_iff)
  ultimately show ?case using p step(1,3) by (auto split: option.splits)
qed (simp add: assms(1))

lemma cache_is_store: "coins_store (cache_view V) cinv cutxo cache_held cbest ok"
proof
  fix c t r c' assume "cinv c" "GetCoins (cache_view V) c t = (r, c')"
  then show "cinv c' \<and> live r = cutxo c t \<and> cutxo c' = cutxo c \<and> cbest c' = cbest c \<and> (\<forall>u. cache_held c u \<longrightarrow> cache_held c' u)"
    using GetCoins_cache(1) by (simp add: cache_view_def)
next
  fix c t coins c' assume "cinv c" "GetCoins (cache_view V) c t = (Some coins, c')" "\<not> IsPruned coins"
  then show "cache_held c' t \<and> ok coins" using GetCoins_cache(2) by (simp add: cache_view_def)
next
  fix c h c' assume "cinv c" "GetBestBlock (cache_view V) c = (h, c')"
  then show "h = cbest c \<and> cinv c' \<and> cutxo c' = cutxo c \<and> cbest c' = cbest c \<and> (\<forall>u. cache_held c u \<longrightarrow> cache_held c' u)"
    using GetBestBlock_cache by (simp add: cache_view_def)
next
  fix c m and h :: base_uint
  assume c: "cinv c" and m: "distinct (map fst m)" "length h = 8"
    "\<And>t e. (t, e) \<in> set m \<Longrightarrow> dirty e \<Longrightarrow> (fresh e \<longrightarrow> cutxo c t = None) \<and> (\<not> fresh e \<longrightarrow> cache_held c t) \<and>
      (\<not> IsPruned (entry_coins e) \<longrightarrow> ok (entry_coins e))"
  obtain cache where cache: "batch_loop m (cacheCoins c) = Some cache" "cinv (c\<lparr>cacheCoins := cache\<rparr>)"
    "\<And>t. cutxo (c\<lparr>cacheCoins := cache\<rparr>) t = (case map_of m t of Some e \<Rightarrow> if dirty e then live (Some (entry_coins e)) else cutxo c t
       | None \<Rightarrow> cutxo c t)"
    using batch_loop_spec [OF c m(1,3)] by blast
  have "\<not> hasModifier c" using c by (simp add: cache_inv_def)
  moreover have "cinv (c\<lparr>cacheCoins := cache, hashBlock := h\<rparr>)" using cache(2) m(2) by (simp add: cache_inv_def)
  moreover have "cutxo (c\<lparr>cacheCoins := cache, hashBlock := h\<rparr>) = cutxo (c\<lparr>cacheCoins := cache\<rparr>)"
    by (rule cache_utxo_hashBlock)
  ultimately show "\<exists>c'. BatchWrite (cache_view V) c m h = Some (True, c') \<and> cinv c' \<and>
      (\<forall>t. cutxo c' t = (case map_of m t of Some e \<Rightarrow> if dirty e then live (Some (entry_coins e)) else cutxo c t | None \<Rightarrow> cutxo c t)) \<and>
      (h \<noteq> base_uint_zero 8 \<longrightarrow> cbest c' = h)"
    using cache(1,3) by (simp add: cache_view_def Cache_BatchWrite_def cache_best_def)
next
  fix c assume "cinv c"
  then show "length (cbest c) = 8" using best_size by (auto simp: cache_inv_def cache_best_def)
qed

text \<open>A modifier changes the coins of one transaction and keeps the contract, without a failed assertion.\<close>

lemma with_modifier_spec:
  assumes c: "cinv c"
    and f: "\<And>coins r coins'. live (Some coins) = cutxo c t \<Longrightarrow> f coins = (r, coins') \<Longrightarrow>
      \<not> IsPruned (Cleanup coins') \<Longrightarrow> ok (Cleanup coins')"
  shows "\<exists>coins r coins' c'. live (Some coins) = cutxo c t \<and> f coins = (r, coins') \<and> with_modifier V t f c = Some (r, c') \<and>
    cinv c' \<and> cutxo c' = (cutxo c)(t := live (Some (Cleanup coins'))) \<and> same_best c c'"
proof -
  have open_entry: "\<exists>b e. ModifyCoins V c t = Some (c\<lparr>base := b, hasModifier := True,
        cacheCoins := AList.update t (e\<lparr>entry_flags := entry_flags e OR DIRTY\<rparr>) (cacheCoins c)\<rparr>) \<and>
      cinv (c\<lparr>base := b\<rparr>) \<and> cutxo (c\<lparr>base := b\<rparr>) = cutxo c \<and> cbest (c\<lparr>base := b\<rparr>) = cbest c \<and>
      live (Some (entry_coins e)) = cutxo c t \<and> (fresh e \<longrightarrow> utxo b t = None) \<and> (\<not> fresh e \<longrightarrow> held b t)"
  proof (cases "map_of (cacheCoins c) t")
    case (Some e)
    then show ?thesis
      using c by (intro exI [of _ "base c"] exI [of _ e]) (auto simp: ModifyCoins_def cache_inv_def cache_utxo_def entry_ok_def)
  next
    case None
    obtain r b where g: "GetCoins V (base c) t = (r, b)" by fastforce
    have "vinv (base c)" "\<not> hasModifier c" using c by (simp_all add: cache_inv_def)
    note G = get [OF this(1) g]
    have moved: "cinv (c\<lparr>base := b\<rparr>)" "cutxo (c\<lparr>base := b\<rparr>) = cutxo c" "cbest (c\<lparr>base := b\<rparr>) = cbest c"
      using base_moved [OF c] G by auto
    have here: "cutxo c t = live r" "utxo b t = live r" using None G by (simp_all add: cache_utxo_def)
    show ?thesis
    proof (cases r)
      case r: None
      let ?e = "\<lparr>entry_coins = CCoins_new, entry_flags = FRESH\<rparr>"
      have "IsPruned CCoins_new" by (simp add: IsPruned_def CCoins_new_def)
      then show ?thesis
        using None g r moved here \<open>\<not> hasModifier c\<close> by (intro exI [of _ b] exI [of _ ?e]) (simp add: ModifyCoins_def)
    next
      case r: (Some coins)
      let ?e = "\<lparr>entry_coins = coins, entry_flags = (if IsPruned coins then FRESH else 0)\<rparr>"
      have "\<not> IsPruned coins \<Longrightarrow> held b t" using get_live [OF \<open>vinv (base c)\<close>] g r by blast
      then show ?thesis
        using None g r moved here \<open>\<not> hasModifier c\<close> by (intro exI [of _ b] exI [of _ ?e]) (simp add: ModifyCoins_def)
    qed
  qed
  then obtain b e where open_c: "ModifyCoins V c t = Some (c\<lparr>base := b, hasModifier := True,
        cacheCoins := AList.update t (e\<lparr>entry_flags := entry_flags e OR DIRTY\<rparr>) (cacheCoins c)\<rparr>)"
      and moved: "cinv (c\<lparr>base := b\<rparr>)" "cutxo (c\<lparr>base := b\<rparr>) = cutxo c" "cbest (c\<lparr>base := b\<rparr>) = cbest c"
      and e: "live (Some (entry_coins e)) = cutxo c t" "fresh e \<longrightarrow> utxo b t = None" "\<not> fresh e \<longrightarrow> held b t" by blast
  obtain r coins' where r: "f (entry_coins e) = (r, coins')" by fastforce
  have done_c: "\<exists>c'. with_modifier V t f c = Some (r, c') \<and> cinv c' \<and> cutxo c' = (cutxo c)(t := live (Some (Cleanup coins'))) \<and>
      same_best c c'"
  proof (cases "fresh e \<and> IsPruned (Cleanup coins')")
    case True
    let ?c = "c\<lparr>base := b, hasModifier := False, cacheCoins := AList.delete t (cacheCoins c)\<rparr>"
    have "with_modifier V t f c = Some (r, ?c)"
      using True r by (simp add: with_modifier_def open_c CCoinsModifier_destroy_def modifier_set_def AList.update_conv'
          AList.delete_update_same Let_def)
    moreover have "cinv ?c"
      using moved(1) by (auto simp: cache_inv_def AList.delete_conv' distinct_delete split: if_splits)
    moreover have "cutxo ?c = (cutxo c)(t := None)"
      unfolding moved(2) [symmetric] using e(2) True
      by (auto simp: cache_utxo_def fun_eq_iff AList.delete_conv' split: option.splits)
    moreover have "same_best c ?c" using moved(3) by (auto simp: cache_best_def split: if_splits)
    ultimately show ?thesis using True by auto
  next
    case False
    let ?e = "e\<lparr>entry_flags := entry_flags e OR DIRTY, entry_coins := Cleanup coins'\<rparr>"
    let ?c = "c\<lparr>base := b, cacheCoins := AList.update t ?e (cacheCoins c)\<rparr>"
    have "\<not> hasModifier c" using c by (simp add: cache_inv_def)
    then have "?c = c\<lparr>base := b, hasModifier := False, cacheCoins := AList.update t ?e (cacheCoins c)\<rparr>" by (cases c) simp
    then have "with_modifier V t f c = Some (r, ?c)"
      using False r by (auto simp: with_modifier_def open_c CCoinsModifier_destroy_def modifier_set_def AList.update_conv' Let_def)
    moreover have "entry_ok (utxo b) (held b) ok t ?e" using e f [OF e(1) r] by (simp add: entry_ok_def)
    then have "cinv ?c" "cutxo ?c = (cutxo c)(t := live (Some (Cleanup coins')))"
      using cache_insert [OF moved(1), of t ?e] moved(2) by simp_all
    moreover have "same_best c ?c" using moved(3) by (auto simp: cache_best_def split: if_splits)
    ultimately show ?thesis by auto
  qed
  show ?thesis using done_c r e(1) by blast
qed

text \<open>A flush moves the coins of the cache to the view below.\<close>

lemma Flush_spec:
  assumes c: "cinv c"
  shows "\<exists>b. Flush V c = Some (True, c\<lparr>base := b, cacheCoins := []\<rparr>) \<and> vinv b \<and> utxo b = cutxo c \<and>
    (hashBlock c \<noteq> base_uint_zero 8 \<longrightarrow> best b = hashBlock c)"
proof -
  have "entry_ok (utxo (base c)) (held (base c)) ok t e" if "(t, e) \<in> set (cacheCoins c)" for t e
    using that c by (auto simp: cache_inv_def dest: map_of_is_SomeI)
  then obtain b where b: "BatchWrite V (base c) (cacheCoins c) (hashBlock c) = Some (True, b)" "vinv b"
      "\<And>t. utxo b t = (case map_of (cacheCoins c) t of
         Some e \<Rightarrow> if dirty e then live (Some (entry_coins e)) else utxo (base c) t | None \<Rightarrow> utxo (base c) t)"
      "hashBlock c \<noteq> base_uint_zero 8 \<longrightarrow> best b = hashBlock c"
    using batch [of "base c" "cacheCoins c" "hashBlock c"] c by (auto simp: cache_inv_def entry_ok_def)
  moreover have "utxo b = cutxo c"
    using c by (auto simp: fun_eq_iff b(3) cache_utxo_def cache_inv_def entry_ok_def split: option.splits)
  ultimately show ?thesis by (intro exI [of _ b]) (simp add: Flush_def)
qed

lemma new_cache_inv: "vinv v \<Longrightarrow> cinv (CCoinsViewCache_new v)" "cutxo (CCoinsViewCache_new v) = utxo v"
  by (simp_all add: cache_inv_def CCoinsViewCache_new_def cache_utxo_def fun_eq_iff base_uint_zero_def)

end

subsection \<open>Runs of operations\<close>

text \<open>The operations that clients run on a cache, and their effect on the abstract set of coins.  An edit may not
  depend on the fields of coins that are spent, and has to keep the coins storable.\<close>

datatype coin_op = Op_access txid | Op_modify txid "CCoins \<Rightarrow> CCoins" | Op_best base_uint

fun coin_step :: "'v view \<Rightarrow> coin_op \<Rightarrow> 'v CCoinsViewCache \<Rightarrow> 'v CCoinsViewCache option" where
  "coin_step V (Op_access t) c = Some (snd (AccessCoins V c t))"
| "coin_step V (Op_modify t f) c = map_option snd (with_modifier V t (\<lambda>coins. ((), f coins)) c)"
| "coin_step V (Op_best h) c = Some (SetBestBlock h c)"

fun coin_steps :: "'v view \<Rightarrow> coin_op list \<Rightarrow> 'v CCoinsViewCache \<Rightarrow> 'v CCoinsViewCache option" where
  "coin_steps V [] c = Some c"
| "coin_steps V (x # xs) c = Option.bind (coin_step V x c) (coin_steps V xs)"

fun spec_op :: "coin_op \<Rightarrow> (txid \<Rightarrow> CCoins option) \<Rightarrow> txid \<Rightarrow> CCoins option" where
  "spec_op (Op_modify t f) u = u(t := live (Some (Cleanup (f (case u t of Some coins \<Rightarrow> coins | None \<Rightarrow> CCoins_new)))))"
| "spec_op _ u = u"

definition edit_ok :: "(CCoins \<Rightarrow> bool) \<Rightarrow> (CCoins \<Rightarrow> CCoins) \<Rightarrow> bool" where
  "edit_ok ok f \<longleftrightarrow>
     (\<forall>a b. IsPruned a \<longrightarrow> IsPruned b \<longrightarrow> live (Some (Cleanup (f a))) = live (Some (Cleanup (f b)))) \<and>
     (\<forall>a. (\<not> IsPruned a \<longrightarrow> ok a) \<longrightarrow> \<not> IsPruned (Cleanup (f a)) \<longrightarrow> ok (Cleanup (f a)))"

fun op_ok :: "(CCoins \<Rightarrow> bool) \<Rightarrow> coin_op \<Rightarrow> bool" where
  "op_ok ok (Op_access t) \<longleftrightarrow> True"
| "op_ok ok (Op_modify t f) \<longleftrightarrow> edit_ok ok f"
| "op_ok ok (Op_best h) \<longleftrightarrow> length h = 8 \<and> h \<noteq> base_uint_zero 8"

fun last_best :: "coin_op list \<Rightarrow> base_uint \<Rightarrow> base_uint" where
  "last_best [] h = h"
| "last_best (Op_best h' # xs) h = last_best xs h'"
| "last_best (_ # xs) h = last_best xs h"

lemma cache_base_inj: "c\<lparr>base := a, cacheCoins := xs\<rparr> = c\<lparr>base := b, cacheCoins := xs\<rparr> \<longleftrightarrow> a = b"
  by (cases c) simp

lemma cache_base_update: "base (c\<lparr>base := b, cacheCoins := xs\<rparr>) = b"
  by (cases c) simp

lemma FetchCoins_hashBlock: "FetchCoins V c t = (it, c') \<Longrightarrow> hashBlock c' = hashBlock c"
  by (auto simp: FetchCoins_def Let_def split: option.splits prod.splits)

context coins_store
begin

lemma cutxo_ok: "cinv c \<Longrightarrow> cutxo c t = Some coins \<Longrightarrow> ok coins"
proof -
  assume c: "cinv c" "cutxo c t = Some coins"
  then have v: "vinv (base c)" by (simp add: cache_inv_def)
  obtain r b where g: "GetCoins V (base c) t = (r, b)" by fastforce
  then show ?thesis
    using c get [OF v g] get_live [OF v]
    by (auto simp: cache_utxo_def cache_inv_def entry_ok_def live_eq_Some split: option.splits)
qed

lemma coin_step_spec:
  assumes "cinv c" "op_ok ok x"
  shows "\<exists>c'. coin_step V x c = Some c' \<and> cinv c' \<and> cutxo c' = spec_op x (cutxo c) \<and> hashBlock c' = last_best [x] (hashBlock c)"
proof (cases x)
  case (Op_access t)
  obtain it c' where f: "FetchCoins V c t = (it, c')" by fastforce
  then show ?thesis
    using FetchCoins_spec [OF assms(1) f] FetchCoins_hashBlock [OF f] by (simp add: Op_access AccessCoins_def)
next
  case (Op_modify t f)
  have f: "edit_ok ok f" using assms(2) Op_modify by simp
  have ok: "ok (Cleanup (f coins))" if "live (Some coins) = cutxo c t" "\<not> IsPruned (Cleanup (f coins))" for coins
  proof -
    have "\<not> IsPruned coins \<longrightarrow> ok coins" using that(1) cutxo_ok [OF assms(1), of t coins] by (cases "IsPruned coins") simp_all
    then show ?thesis using f that(2) by (simp add: edit_ok_def)
  qed
  obtain coins c' where m: "live (Some coins) = cutxo c t" "with_modifier V t (\<lambda>coins. ((), f coins)) c = Some ((), c')"
      "cinv c'" "cutxo c' = (cutxo c)(t := live (Some (Cleanup (f coins))))" "hashBlock c' = hashBlock c"
    using with_modifier_spec [OF assms(1), where f = "\<lambda>coins. ((), f coins)" and t = t] ok by auto
  have "live (Some (Cleanup (f coins))) = live (Some (Cleanup (f (case cutxo c t of Some coins \<Rightarrow> coins | None \<Rightarrow> CCoins_new))))"
  proof (cases "IsPruned coins")
    case True
    moreover have "IsPruned CCoins_new" by (simp add: IsPruned_def CCoins_new_def)
    ultimately have "live (Some (Cleanup (f coins))) = live (Some (Cleanup (f CCoins_new)))" using f unfolding edit_ok_def by blast
    moreover have "cutxo c t = None" using m(1) True by simp
    ultimately show ?thesis by simp
  next
    case False
    then have "cutxo c t = Some coins" using m(1) by simp
    then show ?thesis by simp
  qed
  then show ?thesis using m by (simp add: Op_modify)
next
  case (Op_best h)
  then show ?thesis using assms by (auto simp: SetBestBlock_def cache_inv_def cache_utxo_hashBlock)
qed

lemma coin_steps_spec:
  assumes "cinv c" "list_all (op_ok ok) xs"
  shows "\<exists>c'. coin_steps V xs c = Some c' \<and> cinv c' \<and> cutxo c' = fold spec_op xs (cutxo c) \<and> hashBlock c' = last_best xs (hashBlock c)"
  using assms
proof (induction xs arbitrary: c)
  case (Cons x xs)
  obtain c1 where c1: "coin_step V x c = Some c1" "cinv c1" "cutxo c1 = spec_op x (cutxo c)" "hashBlock c1 = last_best [x] (hashBlock c)"
    using coin_step_spec [OF Cons.prems(1), of x] Cons.prems(2) by auto
  have "last_best (x # xs) h = last_best xs (last_best [x] h)" for h by (cases x) simp_all
  then show ?case using Cons.IH [OF c1(2)] Cons.prems(2) c1 by simp
qed simp

end

section \<open>The database keeps the contract\<close>

text \<open>What the database is documented to do: a batch is written as a whole, in order.\<close>

definition leveldb_ok :: "('d \<Rightarrow> db_key \<Rightarrow> bytes option) \<Rightarrow> ('d \<Rightarrow> batch \<Rightarrow> 'd) \<Rightarrow> bool" where
  "leveldb_ok ldb_get ldb_write \<longleftrightarrow>
     (\<forall>d b k. ldb_get (ldb_write d b) k = (case map_of (rev b) k of Some v \<Rightarrow> v | None \<Rightarrow> ldb_get d k))"

text \<open>The records of the database are storable coins, and the best block is a hash.\<close>

definition db_records ::
    "(bytes \<Rightarrow> bool) \<Rightarrow> ('d \<Rightarrow> db_key \<Rightarrow> bytes option) \<Rightarrow> 'd \<Rightarrow> bool" where
  "db_records ec_valid ldb_get d \<longleftrightarrow>
     (\<forall>t bs. ldb_get d (Key_coins t) = Some bs \<longrightarrow> (\<exists>coins. storable_coins coins \<and> Serialize_CCoins ec_valid coins = Inr bs)) \<and>
     (\<forall>bs. ldb_get d Key_best = Some bs \<longrightarrow> (\<exists>h. length h = 8 \<and> bs = Serialize_uint h))"

definition db_utxo ::
    "(bytes \<Rightarrow> bytes option) \<Rightarrow> ('d \<Rightarrow> db_key \<Rightarrow> bytes option) \<Rightarrow> 'd \<Rightarrow> txid \<Rightarrow> CCoins option" where
  "db_utxo ec_decompress ldb_get d t = fst (DB_GetCoins ec_decompress ldb_get d t)"

definition db_best :: "('d \<Rightarrow> db_key \<Rightarrow> bytes option) \<Rightarrow> 'd \<Rightarrow> base_uint" where
  "db_best ldb_get d = fst (DB_GetBestBlock ldb_get d)"

lemma DB_GetCoins_record:
  assumes "ec_recovers ec_valid ec_decompress" "storable_coins coins" "Serialize_CCoins ec_valid coins = Inr bs"
    "ldb_get d (Key_coins t) = Some bs"
  shows "DB_GetCoins ec_decompress ldb_get d t = (Some coins, d)"
  using coins_roundtrip [OF assms(1-3), of "[]"] assms(4) by (simp add: DB_GetCoins_def)

text \<open>What the batch says of the coins of a transaction: nothing, or a value to put or to erase.\<close>

definition entry_record :: "(bytes \<Rightarrow> bool) \<Rightarrow> CCoinsCacheEntry option \<Rightarrow> bytes option option" where
  "entry_record ec_valid x =
     (case x of
        None \<Rightarrow> None
      | Some e \<Rightarrow> if \<not> dirty e then None else if IsPruned (entry_coins e) then Some None
                  else (case Serialize_CCoins ec_valid (entry_coins e) of Inl _ \<Rightarrow> None | Inr bs \<Rightarrow> Some (Some bs)))"

lemma Serialize_CCoins_Inr: "\<not> IsPruned coins \<Longrightarrow> \<exists>bs. Serialize_CCoins ec_valid coins = Inr bs"
  using coins_code_Inr [of coins 16] by (auto simp: Serialize_CCoins_def)

lemma db_batch_spec:
  assumes "distinct (map fst m)"
  shows "\<exists>b. db_batch ec_valid m = Some b \<and> map_of (rev b) Key_best = None \<and>
    (\<forall>t. map_of (rev b) (Key_coins t) = entry_record ec_valid (map_of m t))"
  using assms
proof (induction m)
  case (Cons p m)
  obtain t e where p: "p = (t, e)" by fastforce
  obtain b where b: "db_batch ec_valid m = Some b" "map_of (rev b) Key_best = None"
      "\<And>t. map_of (rev b) (Key_coins t) = entry_record ec_valid (map_of m t)"
    using Cons by auto
  have t: "map_of m t = None" using Cons.prems p by (simp add: map_of_eq_None_iff)
  show ?case
  proof (cases "dirty e")
    case True
    obtain v where v: "BatchWriteCoins ec_valid t (entry_coins e) = Some [(Key_coins t, v)]"
        "entry_record ec_valid (Some e) = Some v"
      using True Serialize_CCoins_Inr [of "entry_coins e" ec_valid]
      by (cases "IsPruned (entry_coins e)") (auto simp: BatchWriteCoins_def entry_record_def)
    then have "db_batch ec_valid (p # m) = Some ((Key_coins t, v) # b)" using True b(1) by (simp add: p)
    then show ?thesis using b(2,3) t v(2) by (auto simp: p map_add_def entry_record_def split: option.splits)
  next
    case False
    then show ?thesis using b t by (auto simp: p entry_record_def)
  qed
qed (simp add: entry_record_def)

text \<open>The contract holds for every database and curve that behave as documented.\<close>

definition db_inv ::
    "(bytes \<Rightarrow> bool) \<Rightarrow> (bytes \<Rightarrow> bytes option) \<Rightarrow> ('d \<Rightarrow> db_key \<Rightarrow> bytes option) \<Rightarrow> ('d \<Rightarrow> batch \<Rightarrow> 'd) \<Rightarrow> 'd \<Rightarrow> bool" where
  "db_inv ec_valid ec_decompress ldb_get ldb_write d \<longleftrightarrow>
     ec_recovers ec_valid ec_decompress \<and> leveldb_ok ldb_get ldb_write \<and> db_records ec_valid ldb_get d"

lemma db_get_spec:
  assumes "db_inv ec_valid ec_decompress ldb_get ldb_write d" "DB_GetCoins ec_decompress ldb_get d t = (r, d')"
  shows "d' = d \<and> r = db_utxo ec_decompress ldb_get d t \<and> live r = r \<and> (\<forall>coins. r = Some coins \<longrightarrow> storable_coins coins)"
proof (cases "ldb_get d (Key_coins t)")
  case None
  then show ?thesis using assms(2) by (auto simp: DB_GetCoins_def db_utxo_def)
next
  case (Some bs)
  then obtain coins where coins: "storable_coins coins" "Serialize_CCoins ec_valid coins = Inr bs"
    using assms(1) unfolding db_inv_def db_records_def by blast
  have "ec_recovers ec_valid ec_decompress" using assms(1) by (simp add: db_inv_def)
  from DB_GetCoins_record [OF this coins, of ldb_get, OF Some] have "DB_GetCoins ec_decompress ldb_get d t = (Some coins, d)" .
  then have "d' = d" "r = Some coins" "db_utxo ec_decompress ldb_get d t = Some coins" using assms(2) by (simp_all add: db_utxo_def)
  then show ?thesis using coins(1) by (simp add: storable_coins_def)
qed

lemma db_best_spec:
  assumes "db_inv ec_valid ec_decompress ldb_get ldb_write d"
  shows "DB_GetBestBlock ldb_get d = (db_best ldb_get d, d)" "length (db_best ldb_get d) = 8"
    "ldb_get d Key_best = Some (Serialize_uint h) \<Longrightarrow> length h = 8 \<Longrightarrow> db_best ldb_get d = h"
proof -
  have "Unserialize_uint 8 (Serialize_uint h) = Inr (h, [])" if "length h = 8" for h
    using limb256.dec_enc [of h "[]"] that by simp
  then show "DB_GetBestBlock ldb_get d = (db_best ldb_get d, d)" "length (db_best ldb_get d) = 8"
    "ldb_get d Key_best = Some (Serialize_uint h) \<Longrightarrow> length h = 8 \<Longrightarrow> db_best ldb_get d = h"
    using assms by (auto simp: DB_GetBestBlock_def db_best_def db_inv_def db_records_def base_uint_zero_def split: option.splits)
qed

lemma db_batch_write:
  assumes d: "db_inv ec_valid ec_decompress ldb_get ldb_write d" and m: "distinct (map fst m)" "length h = 8"
    and ok: "\<And>t e. (t, e) \<in> set m \<Longrightarrow> dirty e \<Longrightarrow> \<not> IsPruned (entry_coins e) \<Longrightarrow> storable_coins (entry_coins e)"
  shows "\<exists>d'. DB_BatchWrite ec_valid ldb_write d m h = Some (True, d') \<and> db_inv ec_valid ec_decompress ldb_get ldb_write d' \<and>
    (\<forall>t. db_utxo ec_decompress ldb_get d' t =
       (case map_of m t of Some e \<Rightarrow> if dirty e then live (Some (entry_coins e)) else db_utxo ec_decompress ldb_get d t
        | None \<Rightarrow> db_utxo ec_decompress ldb_get d t)) \<and>
    (h \<noteq> base_uint_zero 8 \<longrightarrow> db_best ldb_get d' = h)"
proof -
  obtain b where b: "db_batch ec_valid m = Some b" "map_of (rev b) Key_best = None"
      "\<And>t. map_of (rev b) (Key_coins t) = entry_record ec_valid (map_of m t)"
    using db_batch_spec [OF m(1)] by blast
  define b' where "b' = b @ (if h \<noteq> base_uint_zero 8 then [(Key_best, Some (Serialize_uint h))] else [])"
  define d' where "d' = ldb_write d b'"
  have ldb: "ldb_get d' k = (case map_of (rev b') k of Some v \<Rightarrow> v | None \<Rightarrow> ldb_get d k)" for k
    using d by (simp add: db_inv_def leveldb_ok_def d'_def)
  have key: "ldb_get d' (Key_coins t) = (case entry_record ec_valid (map_of m t) of Some v \<Rightarrow> v | None \<Rightarrow> ldb_get d (Key_coins t))" for t
    by (simp add: ldb b'_def b(3))
  have best: "ldb_get d' Key_best = (if h \<noteq> base_uint_zero 8 then Some (Serialize_uint h) else ldb_get d Key_best)"
    by (simp add: ldb b'_def b(2))
  have stored: "storable_coins (entry_coins e)" if "map_of m t = Some e" "dirty e" "\<not> IsPruned (entry_coins e)" for t e
    using ok map_of_SomeD that by metis
  have "db_records ec_valid ldb_get d'"
    using d stored m(2) unfolding db_records_def db_inv_def
    by (fastforce simp: key best entry_record_def split: option.splits if_splits sum.splits)
  then have inv': "db_inv ec_valid ec_decompress ldb_get ldb_write d'" using d by (simp add: db_inv_def)
  have "db_utxo ec_decompress ldb_get d' t = (case map_of m t of
      Some e \<Rightarrow> if dirty e then live (Some (entry_coins e)) else db_utxo ec_decompress ldb_get d t
    | None \<Rightarrow> db_utxo ec_decompress ldb_get d t)" for t
  proof (cases "entry_record ec_valid (map_of m t)")
    case None
    then have "ldb_get d' (Key_coins t) = ldb_get d (Key_coins t)" by (simp add: key)
    moreover have "map_of m t = None \<or> (\<exists>e. map_of m t = Some e \<and> \<not> dirty e)"
    proof (cases "map_of m t")
      case (Some e)
      then show ?thesis
        using None Serialize_CCoins_Inr [of "entry_coins e" ec_valid] by (cases "dirty e") (auto simp: entry_record_def split: if_splits)
    qed simp
    ultimately show ?thesis by (auto simp: db_utxo_def DB_GetCoins_def split: option.splits sum.splits)
  next
    case (Some v)
    then obtain e where e: "map_of m t = Some e" "dirty e" by (auto simp: entry_record_def split: option.splits if_splits)
    show ?thesis
    proof (cases "IsPruned (entry_coins e)")
      case True
      then show ?thesis using e Some by (simp add: key entry_record_def db_utxo_def DB_GetCoins_def)
    next
      case False
      then obtain bs where bs: "Serialize_CCoins ec_valid (entry_coins e) = Inr bs" using Serialize_CCoins_Inr by blast
      then have "ldb_get d' (Key_coins t) = Some bs" using False e by (simp add: key entry_record_def)
      moreover have "ec_recovers ec_valid ec_decompress" using d by (simp add: db_inv_def)
      ultimately have "DB_GetCoins ec_decompress ldb_get d' t = (Some (entry_coins e), d')"
        by (intro DB_GetCoins_record [where ldb_get = ldb_get and ec_valid = ec_valid, OF _ stored [OF e False] bs])
      then show ?thesis using e False by (simp add: db_utxo_def)
    qed
  qed
  moreover have "h \<noteq> base_uint_zero 8 \<longrightarrow> db_best ldb_get d' = h" using db_best_spec(3) [OF inv' _ m(2)] best by simp
  ultimately show ?thesis using inv' b(1) by (auto simp: DB_BatchWrite_def d'_def b'_def)
qed

interpretation coindb: coins_store "db_view ec_valid ec_decompress ldb_get ldb_write" "db_inv ec_valid ec_decompress ldb_get ldb_write"
    "db_utxo ec_decompress ldb_get" "\<lambda>_ _. True" "db_best ldb_get" storable_coins
proof
  fix d t r d'
  assume "db_inv ec_valid ec_decompress ldb_get ldb_write d" "GetCoins (db_view ec_valid ec_decompress ldb_get ldb_write) d t = (r, d')"
  then show "db_inv ec_valid ec_decompress ldb_get ldb_write d' \<and> live r = db_utxo ec_decompress ldb_get d t \<and>
      db_utxo ec_decompress ldb_get d' = db_utxo ec_decompress ldb_get d \<and> db_best ldb_get d' = db_best ldb_get d \<and> (\<forall>u. True \<longrightarrow> True)"
    using db_get_spec [of ec_valid ec_decompress ldb_get ldb_write d t r d'] by (auto simp: db_view_def)
next
  fix d t coins d'
  assume "db_inv ec_valid ec_decompress ldb_get ldb_write d"
    "GetCoins (db_view ec_valid ec_decompress ldb_get ldb_write) d t = (Some coins, d')"
  then show "True \<and> storable_coins coins"
    using db_get_spec [of ec_valid ec_decompress ldb_get ldb_write d t "Some coins" d'] by (auto simp: db_view_def)
next
  fix d h d'
  assume "db_inv ec_valid ec_decompress ldb_get ldb_write d" "GetBestBlock (db_view ec_valid ec_decompress ldb_get ldb_write) d = (h, d')"
  then show "h = db_best ldb_get d \<and> db_inv ec_valid ec_decompress ldb_get ldb_write d' \<and>
      db_utxo ec_decompress ldb_get d' = db_utxo ec_decompress ldb_get d \<and> db_best ldb_get d' = db_best ldb_get d \<and> (\<forall>u. True \<longrightarrow> True)"
    using db_best_spec(1) [of ec_valid ec_decompress ldb_get ldb_write d] by (auto simp: db_view_def)
next
  fix d m and h :: base_uint
  assume "db_inv ec_valid ec_decompress ldb_get ldb_write d" "distinct (map fst m)" "length h = 8"
    "\<And>t e. (t, e) \<in> set m \<Longrightarrow> dirty e \<Longrightarrow> (fresh e \<longrightarrow> db_utxo ec_decompress ldb_get d t = None) \<and> (\<not> fresh e \<longrightarrow> True) \<and>
       (\<not> IsPruned (entry_coins e) \<longrightarrow> storable_coins (entry_coins e))"
  then show "\<exists>d'. BatchWrite (db_view ec_valid ec_decompress ldb_get ldb_write) d m h = Some (True, d') \<and>
      db_inv ec_valid ec_decompress ldb_get ldb_write d' \<and>
      (\<forall>t. db_utxo ec_decompress ldb_get d' t = (case map_of m t of
         Some e \<Rightarrow> if dirty e then live (Some (entry_coins e)) else db_utxo ec_decompress ldb_get d t
       | None \<Rightarrow> db_utxo ec_decompress ldb_get d t)) \<and> (h \<noteq> base_uint_zero 8 \<longrightarrow> db_best ldb_get d' = h)"
    using db_batch_write [of ec_valid ec_decompress ldb_get ldb_write d m h] unfolding db_view_def view.simps by blast
next
  fix d
  assume "db_inv ec_valid ec_decompress ldb_get ldb_write d"
  then show "length (db_best ldb_get d) = 8" by (rule db_best_spec(2))
qed

text \<open>A cache over the database, as \<^verbatim>\<open>pcoinsTip\<close>, is a view of the same kind.\<close>

interpretation tip: coins_store "cache_view (db_view ec_valid ec_decompress ldb_get ldb_write)"
    "cache_inv (db_inv ec_valid ec_decompress ldb_get ldb_write) (db_utxo ec_decompress ldb_get) (\<lambda>_ _. True) storable_coins"
    "cache_utxo (db_utxo ec_decompress ldb_get)" cache_held "cache_best (db_best ldb_get)" storable_coins
  by (rule coindb.cache_is_store)

section \<open>Properties\<close>

text \<open>C4: the coin caches refine the set of unspent coins.  Two caches are stacked on the coin database, as the
  validation view on \<^verbatim>\<open>pcoinsTip\<close>.  After every sequence of accesses, modifications and changes of
  the best block, the upper cache shows the abstract set of coins with these modifications; flushing it and then
  the lower cache succeeds, leaves both empty, and the database then holds exactly this set and this best block.
  No assertion of \<^verbatim>\<open>ModifyCoins\<close>, the modifier or \<^verbatim>\<open>BatchWrite\<close> fails.\<close>

theorem coins_stack_refines:
  assumes "db_inv ec_valid ec_decompress ldb_get ldb_write d" "list_all (op_ok storable_coins) xs"
  defines "V0 \<equiv> db_view ec_valid ec_decompress ldb_get ldb_write"
  defines "V1 \<equiv> cache_view V0"
  defines "spec \<equiv> fold spec_op xs (\<lambda>t. fst (DB_GetCoins ec_decompress ldb_get d t))"
  defines "h \<equiv> last_best xs (base_uint_zero 8)"
  shows "\<exists>c c1 c2. coin_steps V1 xs (CCoinsViewCache_new (CCoinsViewCache_new d)) = Some c \<and>
    (\<forall>t. live (fst (Cache_GetCoins V1 c t)) = spec t) \<and>
    Flush V1 c = Some (True, c1) \<and> cacheCoins c1 = [] \<and> Flush V0 (base c1) = Some (True, c2) \<and> cacheCoins c2 = [] \<and>
    (\<forall>t. fst (DB_GetCoins ec_decompress ldb_get (base c2) t) = spec t) \<and>
    (h \<noteq> base_uint_zero 8 \<longrightarrow> fst (DB_GetBestBlock ldb_get (base c2)) = h)"
proof -
  let ?dinv = "db_inv ec_valid ec_decompress ldb_get ldb_write" and ?dutxo = "db_utxo ec_decompress ldb_get"
  let ?tinv = "cache_inv ?dinv ?dutxo (\<lambda>_ _. True) storable_coins" and ?tutxo = "cache_utxo ?dutxo"
  let ?cinv = "cache_inv ?tinv ?tutxo cache_held storable_coins" and ?cutxo = "cache_utxo ?tutxo"
  let ?c0 = "CCoinsViewCache_new (CCoinsViewCache_new d)"
  have "?cinv ?c0" by (intro tip.new_cache_inv(1) coindb.new_cache_inv(1) assms(1))
  moreover have "hashBlock ?c0 = base_uint_zero 8" by (simp add: CCoinsViewCache_new_def)
  moreover have "?cutxo ?c0 = ?dutxo d" by (simp add: tip.new_cache_inv(2) coindb.new_cache_inv(2))
  ultimately obtain c where c: "coin_steps V1 xs ?c0 = Some c" "?cinv c" "?cutxo c = spec" "hashBlock c = h"
    using tip.coin_steps_spec [OF _ assms(2), of ec_valid ec_decompress ldb_get ldb_write ?c0]
    by (auto simp: V1_def V0_def spec_def h_def db_utxo_def [abs_def])
  have get: "live (fst (Cache_GetCoins V1 c t)) = spec t" for t
    using tip.GetCoins_cache(1) [OF c(2), of t] c(3) by (cases "Cache_GetCoins V1 c t") (simp add: V1_def V0_def)
  obtain b where b: "Flush V1 c = Some (True, c\<lparr>base := b, cacheCoins := []\<rparr>)" "?tinv b" "?tutxo b = spec"
    using tip.Flush_spec [OF c(2)] c(3) unfolding V1_def V0_def by auto
  have "BatchWrite V1 (base c) (cacheCoins c) h = Some (True, b)"
    using b(1) c(4) by (auto simp: Flush_def cache_base_inj)
  then have hb: "hashBlock b = h" by (auto simp: V1_def cache_view_def Cache_BatchWrite_def split: if_splits)
  obtain d' where d': "Flush V0 b = Some (True, b\<lparr>base := d', cacheCoins := []\<rparr>)" "?dutxo d' = spec"
      "h \<noteq> base_uint_zero 8 \<longrightarrow> db_best ldb_get d' = h"
    using coindb.Flush_spec [OF b(2)] b(3) hb unfolding V0_def by auto
  have "\<forall>t. fst (DB_GetCoins ec_decompress ldb_get d' t) = spec t" "h \<noteq> base_uint_zero 8 \<longrightarrow> fst (DB_GetBestBlock ldb_get d') = h"
    using d'(2,3) by (auto simp: db_utxo_def [abs_def] db_best_def)
  then show ?thesis
    using c(1) get b(1) d'(1)
    by (rule_tac x = c in exI, rule_tac x = "c\<lparr>base := b, cacheCoins := []\<rparr>" in exI,
        rule_tac x = "b\<lparr>base := d', cacheCoins := []\<rparr>" in exI) (simp add: cache_base_update)
qed

text \<open>A database that is a map, and a run that adds the coins of one transaction and moves the best block.\<close>

definition map_write :: "(db_key \<Rightarrow> bytes option) \<Rightarrow> batch \<Rightarrow> db_key \<Rightarrow> bytes option" where
  "map_write d b k = (case map_of (rev b) k of Some v \<Rightarrow> v | None \<Rightarrow> d k)"

definition sample_db :: "(db_key \<Rightarrow> bytes option) view" where
  "sample_db = db_view (\<lambda>k. k = sample_key) (\<lambda>k. Some sample_key) (\<lambda>d. d) map_write"

definition sample_ops :: "coin_op list" where
  "sample_ops = [Op_access (base_uint_zero 8), Op_modify (base_uint_u64 8 5) (\<lambda>_. sample_coins), Op_best (base_uint_u64 8 9)]"

lemma sample_coins_storable: "storable_coins sample_coins" "Cleanup sample_coins = sample_coins"
  by (simp_all add: storable_coins_def sample_coins_def trimmed_def IsPruned_def CTxOut_IsNull_def CTxOut_null_def CTxOut_new_def
      storable_def compressible_txout_def Cleanup_def)

lemma sample_best: "base_uint_u64 8 9 \<noteq> base_uint_zero 8"
proof
  assume "base_uint_u64 8 9 = base_uint_zero 8"
  then have "hd (base_uint_u64 8 9) = hd (base_uint_zero 8)" by simp
  then show False by (simp add: base_uint_u64_def base_uint_zero_def)
qed

lemma map_db_inv: "db_inv (\<lambda>k. k = sample_key) (\<lambda>k. Some sample_key) (\<lambda>d. d) map_write (\<lambda>_. None)"
  by (simp add: db_inv_def ec_recovers_def leveldb_ok_def map_write_def db_records_def)

theorem coins_stack_refines_witness:
  "\<exists>c c1 c2. coin_steps (cache_view sample_db) sample_ops (CCoinsViewCache_new (CCoinsViewCache_new (\<lambda>_. None))) = Some c \<and>
     Flush (cache_view sample_db) c = Some (True, c1) \<and> Flush sample_db (base c1) = Some (True, c2) \<and>
     fst (DB_GetCoins (\<lambda>k. Some sample_key) (\<lambda>d. d) (base c2) (base_uint_u64 8 5)) = Some sample_coins \<and>
     fst (DB_GetBestBlock (\<lambda>d. d) (base c2)) = base_uint_u64 8 9"
proof -
  have ok: "list_all (op_ok storable_coins) sample_ops"
    by (simp add: sample_ops_def edit_ok_def sample_coins_storable sample_best)
  have h: "last_best sample_ops (base_uint_zero 8) = base_uint_u64 8 9" "base_uint_u64 8 9 \<noteq> base_uint_zero 8"
    by (simp_all add: sample_ops_def sample_best)
  have "fold spec_op sample_ops (\<lambda>t. fst (DB_GetCoins (\<lambda>k. Some sample_key) (\<lambda>d. d) (\<lambda>_. None) t)) (base_uint_u64 8 5) = Some sample_coins"
    using sample_coins_storable by (simp add: sample_ops_def storable_coins_def)
  moreover obtain c c1 c2 where "coin_steps (cache_view sample_db) sample_ops (CCoinsViewCache_new (CCoinsViewCache_new (\<lambda>_. None))) = Some c"
      "Flush (cache_view sample_db) c = Some (True, c1)" "Flush sample_db (base c1) = Some (True, c2)"
      "\<And>t. fst (DB_GetCoins (\<lambda>k. Some sample_key) (\<lambda>d. d) (base c2) t) =
        fold spec_op sample_ops (\<lambda>t. fst (DB_GetCoins (\<lambda>k. Some sample_key) (\<lambda>d. d) (\<lambda>_. None) t)) t"
      "fst (DB_GetBestBlock (\<lambda>d. d) (base c2)) = base_uint_u64 8 9"
    using coins_stack_refines [OF map_db_inv ok] h unfolding sample_db_def by metis
  ultimately show ?thesis by (rule_tac x = c in exI, rule_tac x = c1 in exI, rule_tac x = c2 in exI) simp
qed

end
