(* ===== verification/Connect.thy ===== *)
theory Connect
  imports CoinsView
begin

text \<open>
  Connecting and disconnecting the transactions of a block, \<^verbatim>\<open>UpdateCoins\<close> and
  \<^verbatim>\<open>DisconnectBlock\<close> of \<^verbatim>\<open>src/src/main.cpp\<close>, with the undo data of
  \<^verbatim>\<open>src/src/undo.h\<close>.  Both work on a coin cache.  Their effect is given on the abstract set of coins,
  for every view with the contract \<open>coins_store\<close>, and disconnecting a block undoes connecting it.
\<close>

type_synonym utxo_set = "txid \<Rightarrow> CCoins option"

record CTxUndo =
  vprevout :: "CTxInUndo list"

record CBlockUndo =
  vtxundo :: "CTxUndo list"

section \<open>Connecting\<close>

text \<open>The modification of \<^verbatim>\<open>UpdateCoins\<close>: the result of \<^verbatim>\<open>Spend\<close> and the coins.\<close>

definition spend_edit :: "COutPoint \<Rightarrow> CCoins \<Rightarrow> CTxInUndo option \<times> CCoins" where
  "spend_edit out coins = (case Spend out coins of None \<Rightarrow> (None, coins) | Some (undo, coins') \<Rightarrow> (Some undo, coins'))"

text \<open>\<open>None\<close> is the failed assertion on the result of \<^verbatim>\<open>Spend\<close>.\<close>

fun spend_inputs :: "'v view \<Rightarrow> CTxIn list \<Rightarrow> CTxUndo \<Rightarrow> 'v CCoinsViewCache \<Rightarrow> (CTxUndo \<times> 'v CCoinsViewCache) option" where
  "spend_inputs V [] txundo c = Some (txundo, c)"
| "spend_inputs V (txin # ins) txundo c =
     (case with_modifier V (op_hash (prevout txin)) (spend_edit (prevout txin)) c of
        None \<Rightarrow> None
      | Some (None, c') \<Rightarrow> None
      | Some (Some undo, c') \<Rightarrow> spend_inputs V ins (txundo\<lparr>vprevout := vprevout txundo @ [undo]\<rparr>) c')"

definition UpdateCoins ::
    "'v view \<Rightarrow> CTransaction \<Rightarrow> CTxUndo \<Rightarrow> int \<Rightarrow> 'v CCoinsViewCache \<Rightarrow> (CTxUndo \<times> 'v CCoinsViewCache) option" where
  "UpdateCoins V tx txundo nHeight c =
     (case (if \<not> IsCoinBase tx then spend_inputs V (vin tx) txundo c else Some (txundo, c)) of
        None \<Rightarrow> None
      | Some (txundo', c') \<Rightarrow>
          map_option (\<lambda>(_, c''). (txundo', c'')) (with_modifier V (tx_hash tx) (\<lambda>coins. ((), FromTx tx nHeight coins)) c'))"

section \<open>Disconnecting\<close>

text \<open>The coins of a transaction of the block: compared with its outputs, and cleared.\<close>

definition remove_outputs :: "CTransaction \<Rightarrow> int \<Rightarrow> CCoins \<Rightarrow> bool \<times> CCoins" where
  "remove_outputs tx nHeight coins =
     (let outs = ClearUnspendable coins;
          outsBlock = CCoins_of tx nHeight;
          outs = (if coins_nVersion outsBlock < 0 then outs\<lparr>coins_nVersion := coins_nVersion outsBlock\<rparr> else outs)
      in (CCoins_eq outs outsBlock, Clear outs))"

text \<open>One input: whether the coins are as expected, and the coins with the output restored.  The comparison of the size
  is in 32 bits; without the output in range the assignment is undefined.\<close>

definition restore_output :: "COutPoint \<Rightarrow> CTxInUndo \<Rightarrow> CCoins \<Rightarrow> (bool \<times> CCoins) option" where
  "restore_output out undo coins =
     (let n = unat (op_n out);
          (clean, coins) =
            (if undo_nHeight undo \<noteq> 0
             then (IsPruned coins, (Clear coins)\<lparr>fCoinBase := undo_fCoinBase undo, coins_nHeight := sint (undo_nHeight undo),
                                                 coins_nVersion := undo_nVersion undo\<rparr>)
             else (\<not> IsPruned coins, coins));
          clean = (clean \<and> \<not> IsAvailable coins n);
          outs = coins_vout coins;
          outs = (if length outs < unat (op_n out + 1) then outs @ replicate (unat (op_n out + 1) - length outs) CTxOut_null else outs)
      in if n < length outs then Some (clean, coins\<lparr>coins_vout := outs[n := undo_txout undo]\<rparr>) else None)"

definition restore_edit :: "COutPoint \<Rightarrow> CTxInUndo \<Rightarrow> CCoins \<Rightarrow> bool option \<times> CCoins" where
  "restore_edit out undo coins =
     (case restore_output out undo coins of None \<Rightarrow> (None, coins) | Some (clean, coins') \<Rightarrow> (Some clean, coins'))"

text \<open>The inputs with their undo records, from the last to the first.\<close>

fun restore_inputs :: "'v view \<Rightarrow> (CTxIn \<times> CTxInUndo) list \<Rightarrow> bool \<Rightarrow> 'v CCoinsViewCache \<Rightarrow> (bool \<times> 'v CCoinsViewCache) option" where
  "restore_inputs V [] fClean c = Some (fClean, c)"
| "restore_inputs V ((txin, undo) # ps) fClean c =
     (case with_modifier V (op_hash (prevout txin)) (restore_edit (prevout txin) undo) c of
        None \<Rightarrow> None
      | Some (None, c') \<Rightarrow> None
      | Some (Some ok, c') \<Rightarrow> restore_inputs V ps (fClean \<and> ok) c')"

text \<open>The transactions with their undo data, none for the coinbase, from the last to the first.  The flag is \<open>None\<close>
  where the code returns an error.\<close>

fun disconnect_txs ::
    "'v view \<Rightarrow> int \<Rightarrow> (CTransaction \<times> CTxUndo option) list \<Rightarrow> bool \<Rightarrow> 'v CCoinsViewCache \<Rightarrow> (bool option \<times> 'v CCoinsViewCache) option" where
  "disconnect_txs V nHeight [] fClean c = Some (Some fClean, c)"
| "disconnect_txs V nHeight ((tx, undo) # ps) fClean c =
     (case with_modifier V (tx_hash tx) (remove_outputs tx nHeight) c of
        None \<Rightarrow> None
      | Some (ok, c1) \<Rightarrow>
          (case undo of
             None \<Rightarrow> disconnect_txs V nHeight ps (fClean \<and> ok) c1
           | Some txundo \<Rightarrow>
               if length (vprevout txundo) \<noteq> length (vin tx) then Some (None, c1)
               else case restore_inputs V (rev (zip (vin tx) (vprevout txundo))) (fClean \<and> ok) c1 of
                 None \<Rightarrow> None
               | Some (fClean', c2) \<Rightarrow> disconnect_txs V nHeight ps fClean' c2))"

text \<open>\<^verbatim>\<open>DisconnectBlock\<close>: the hash and the height of the block, the hash of its parent, the undo data as read
  from disk (\<open>None\<close> without a position, \<open>Some None\<close> for a failure to read), whether the caller asks for the
  flag \<^verbatim>\<open>pfClean\<close>, and the transactions.  The results are the value returned, the flag, and the cache.\<close>

definition DisconnectBlock ::
    "'v view \<Rightarrow> base_uint \<Rightarrow> int \<Rightarrow> base_uint \<Rightarrow> CBlockUndo option option \<Rightarrow> bool \<Rightarrow> CTransaction list \<Rightarrow> 'v CCoinsViewCache \<Rightarrow>
     (bool \<times> bool option \<times> 'v CCoinsViewCache) option" where
  "DisconnectBlock V blockHash nHeight prevHash undo_data has_pfClean vtx c =
     (case Cache_GetBestBlock V c of (h, c0) \<Rightarrow>
        if h \<noteq> blockHash then None
        else let failed = (\<lambda>c'. Some (False, if has_pfClean then Some False else None, c')) in
          case undo_data of
            None \<Rightarrow> failed c0
          | Some None \<Rightarrow> failed c0
          | Some (Some blockUndo) \<Rightarrow>
              if length (vtxundo blockUndo) + 1 \<noteq> length vtx then failed c0
              else case disconnect_txs V nHeight (rev (zip vtx (None # map Some (vtxundo blockUndo)))) True c0 of
                None \<Rightarrow> None
              | Some (None, c1) \<Rightarrow> failed c1
              | Some (Some fClean, c1) \<Rightarrow>
                  let c2 = SetBestBlock prevHash c1 in
                  if has_pfClean then Some (True, Some fClean, c2) else Some (fClean, None, c2))"

section \<open>Coins\<close>

lemma drop_spent_subset: "set (drop_spent outs) \<subseteq> set outs"
  using drop_spent_split [of outs] by (metis set_append Un_upper1)

text \<open>The fields that are undefined in spent coins do not matter.\<close>

lemma FromTx_CCoins_of: "FromTx tx nHeight coins = CCoins_of tx nHeight"
  by (cases coins) (simp add: FromTx_def CCoins_of_def ClearUnspendable_def Cleanup_def CCoins_new_def)

lemma CTxOut_SetNull_null [simp]: "CTxOut_SetNull out = CTxOut_null"
  by (cases out) (simp add: CTxOut_SetNull_def CTxOut_null_def)

lemma ClearUnspendable_idem: "ClearUnspendable (CCoins_of tx nHeight) = CCoins_of tx nHeight"
proof -
  let ?g = "\<lambda>out. if IsUnspendable (scriptPubKey out) then CTxOut_null else out"
  have "set (drop_spent (map ?g (vout tx))) \<subseteq> set (map ?g (vout tx))" using drop_spent_subset .
  then have "map ?g (drop_spent (map ?g (vout tx))) = drop_spent (map ?g (vout tx))"
    by (intro map_idI) (auto simp: CTxOut_null_def)
  then show ?thesis
    by (simp add: CCoins_of_def FromTx_def ClearUnspendable_def Cleanup_def CCoins_new_def cong: if_cong)
qed

lemma storable_drop:
  assumes "list_all storable outs"
  shows "outs = drop_spent outs @ replicate (length outs - length (drop_spent outs)) CTxOut_null"
proof -
  obtain ns where ns: "outs = drop_spent outs @ ns" "list_all CTxOut_IsNull ns" using drop_spent_split by blast
  then have "list_all storable ns" using assms by (metis list_all_append)
  then have "\<forall>x\<in>set ns. x = CTxOut_null" using ns(2) by (auto simp: list_all_iff storable_null)
  then have "ns = replicate (length ns) CTxOut_null" by (simp add: list_eq_iff_nth_eq)
  moreover have "length ns = length outs - length (drop_spent outs)" using arg_cong [OF ns(1), of length] by simp
  ultimately show ?thesis using ns(1) by simp
qed

lemma drop_spent_last: "outs \<noteq> [] \<Longrightarrow> \<not> CTxOut_IsNull (last outs) \<Longrightarrow> drop_spent outs = outs"
  by (induction outs) (auto simp: drop_spent_Nil_iff list_all_iff split: if_splits)

text \<open>Spending an output and putting it back.\<close>

lemma put_back:
  assumes "list_all storable outs" "drop_spent outs = outs" "n < length outs" "\<not> CTxOut_IsNull (outs ! n)"
  defines "left_outs \<equiv> drop_spent (outs[n := CTxOut_null])"
  shows "(if length left_outs < n + 1 then left_outs @ replicate (n + 1 - length left_outs) CTxOut_null else left_outs)[n := outs ! n] = outs"
    "n < length left_outs \<Longrightarrow> left_outs ! n = CTxOut_null"
proof -
  let ?spent = "outs[n := CTxOut_null]"
  have "list_all storable ?spent"
    using assms(1) by (auto simp: list_all_iff storable_def dest!: set_update_subset_insert [THEN subsetD])
  then have split: "?spent = left_outs @ replicate (length outs - length left_outs) CTxOut_null"
    using storable_drop [of ?spent] by (simp add: left_outs_def)
  have last: "\<not> CTxOut_IsNull (last outs)"
    using trimmed_last [of "\<lparr>fCoinBase = False, fCoinStake = False, coins_vout = outs, coins_nHeight = 0, coins_nVersion = 0\<rparr>"]
      assms(2,3) by (fastforce simp: trimmed_def)
  have kept: "left_outs = ?spent" if "n + 1 < length outs"
  proof -
    have "?spent \<noteq> []" using assms(3) by auto
    then have "last ?spent = last outs" using that by (simp add: last_conv_nth)
    then show ?thesis using drop_spent_last [OF \<open>?spent \<noteq> []\<close>] last by (simp add: left_outs_def)
  qed
  have len: "length left_outs \<le> length outs" using arg_cong [OF split, of length] by simp
  show "(if length left_outs < n + 1 then left_outs @ replicate (n + 1 - length left_outs) CTxOut_null else left_outs)[n := outs ! n] = outs"
  proof (cases "n + 1 < length outs")
    case True
    then show ?thesis using kept by simp
  next
    case False
    then have "n + 1 = length outs" using assms(3) by simp
    then have "(if length left_outs < n + 1 then left_outs @ replicate (n + 1 - length left_outs) CTxOut_null else left_outs) = ?spent"
      using split len by auto
    then show ?thesis by simp
  qed
  assume "n < length left_outs"
  then show "left_outs ! n = CTxOut_null" using split assms(3) by (metis nth_append nth_list_update_eq)
qed

text \<open>Coins as a block leaves them: storable, and above the genesis block.\<close>

definition block_coins :: "CCoins \<Rightarrow> bool" where
  "block_coins coins \<longleftrightarrow> storable_coins coins \<and> 0 < coins_nHeight coins"

lemma Spend_spec:
  assumes "Spend out coins = Some (undo, coins')"
  defines "n \<equiv> unat (op_n out)"
  shows "n < length (coins_vout coins)" "\<not> CTxOut_IsNull (coins_vout coins ! n)"
    "coins' = coins\<lparr>coins_vout := drop_spent ((coins_vout coins)[n := CTxOut_null])\<rparr>"
    "undo = (if coins_vout coins' = []
       then \<lparr>undo_txout = coins_vout coins ! n, undo_fCoinBase = fCoinBase coins, undo_fCoinStake = fCoinStake coins,
             undo_nHeight = of_int (coins_nHeight coins), undo_nVersion = coins_nVersion coins\<rparr>
       else CTxInUndo_of (coins_vout coins ! n))"
  using assms by (auto simp: Spend_def Let_def Cleanup_def CTxInUndo_of_def split: if_splits)

lemma Spend_not_pruned: "Spend out coins = Some p \<Longrightarrow> \<not> IsPruned coins"
  using Spend_spec(1,2) [of out coins "fst p" "snd p"] by (auto simp: IsPruned_def list_all_length)

lemma length_drop_spent: "length (drop_spent outs) \<le> length outs"
  using drop_spent_split [of outs] by (metis length_append le_add1)

lemma Spend_storable:
  assumes "storable_coins coins" "Spend out coins = Some (undo, coins')" "\<not> IsPruned coins'"
  shows "storable_coins coins'" "coins_nHeight coins' = coins_nHeight coins"
proof -
  note S = Spend_spec [OF assms(2)]
  let ?outs = "(coins_vout coins)[unat (op_n out) := CTxOut_null]"
  have "storable x" if "x \<in> set ?outs" for x
    using assms(1) set_update_subset_insert [THEN subsetD, OF that]
    by (auto simp: storable_coins_def list_all_iff storable_def)
  then have "list_all storable (drop_spent ?outs)" using drop_spent_subset by (auto simp: list_all_iff)
  moreover have "length (drop_spent ?outs) \<le> length (coins_vout coins)" using length_drop_spent [of ?outs] by simp
  ultimately show "storable_coins coins'" using assms(1,3) S(3) by (auto simp: storable_coins_def trimmed_def)
  show "coins_nHeight coins' = coins_nHeight coins" using S(3) by simp
qed

text \<open>Restoring a spent output: the coins are as they were, except that \<^verbatim>\<open>DisconnectBlock\<close> does not
  restore the coinstake flag of coins whose last output was spent.\<close>

lemma restore_spent:
  assumes "block_coins coins" "Spend out coins = Some (undo, coins')" "live (Some found) = live (Some coins')"
  shows "restore_output out undo found = Some (True, coins\<lparr>fCoinStake := fCoinStake coins \<and> \<not> undo_fCoinStake undo\<rparr>)"
proof -
  define n where "n = unat (op_n out)"
  define outs where "outs = coins_vout coins"
  define rest where "rest = drop_spent (outs[n := CTxOut_null])"
  note S = Spend_spec [OF assms(2), folded n_def outs_def, folded rest_def]
  have st: "list_all storable outs" "drop_spent outs = outs" "length outs \<le> 0x2000000" "0 < coins_nHeight coins" "coins_nHeight coins < 2 ^ 31"
    using assms(1) by (auto simp: block_coins_def storable_coins_def trimmed_def outs_def)
  note P = put_back [OF st(1,2) S(1,2), folded rest_def]
  have "unat (op_n out) < 2 ^ 32 - 1" using S(1) st(3) by (simp add: n_def)
  then have n1: "unat (op_n out + 1) = n + 1" unfolding n_def by (subst unat_add_lem [THEN iffD1]) simp_all
  have h: "sint (of_int (coins_nHeight coins) :: u32) = coins_nHeight coins"
    using st(4,5) by (simp add: signed_of_int signed_take_bit_int_eq_self)
  have h0: "(of_int (coins_nHeight coins) :: u32) \<noteq> 0" using h st(4) by auto
  show ?thesis
  proof (cases "rest = []")
    case True
    then have "IsPruned coins'" using S(3) by (simp add: IsPruned_def)
    then have "IsPruned found" using assms(3) by (cases "IsPruned found") simp_all
    then show ?thesis
      using S(3,4) True P h h0 n1
      by (auto simp: restore_output_def n_def [symmetric] Clear_def IsAvailable_def outs_def [symmetric] Let_def)
  next
    case False
    moreover have "drop_spent rest = rest" by (simp add: rest_def)
    ultimately have "\<not> IsPruned coins'" using S(3) drop_spent_Nil_iff [of rest] by (simp add: IsPruned_def)
    then have "found = coins'" using assms(3) live_eq_Some [of "Some found" coins'] by simp
    then show ?thesis
      using S(3,4) False P h h0 n1 \<open>\<not> IsPruned coins'\<close>
      by (auto simp: restore_output_def n_def [symmetric] CTxInUndo_of_def IsAvailable_def outs_def [symmetric] Let_def CTxOut_IsNull_def CTxOut_null_def)
  qed
qed

section \<open>The effect on the set of coins\<close>

fun spec_spends :: "CTxIn list \<Rightarrow> utxo_set \<Rightarrow> (CTxInUndo list \<times> utxo_set) option" where
  "spec_spends [] u = Some ([], u)"
| "spec_spends (txin # ins) u =
     (case u (op_hash (prevout txin)) of
        None \<Rightarrow> None
      | Some coins \<Rightarrow>
          (case Spend (prevout txin) coins of
             None \<Rightarrow> None
           | Some (undo, coins') \<Rightarrow>
               map_option (\<lambda>(us, u'). (undo # us, u')) (spec_spends ins (u(op_hash (prevout txin) := live (Some coins'))))))"

definition spec_update :: "CTransaction \<Rightarrow> int \<Rightarrow> utxo_set \<Rightarrow> (CTxInUndo list \<times> utxo_set) option" where
  "spec_update tx nHeight u =
     map_option (\<lambda>(us, u'). (us, u'(tx_hash tx := live (Some (CCoins_of tx nHeight)))))
       (if \<not> IsCoinBase tx then spec_spends (vin tx) u else Some ([], u))"

text \<open>The transactions whose outputs can be stored.\<close>

definition storable_tx :: "CTransaction \<Rightarrow> int \<Rightarrow> bool" where
  "storable_tx tx nHeight \<longleftrightarrow> (\<not> IsPruned (CCoins_of tx nHeight) \<longrightarrow> storable_coins (CCoins_of tx nHeight))"

text \<open>A block: the undo records of its transactions, and the coins after it.\<close>

fun spec_connect :: "CTransaction list \<Rightarrow> int \<Rightarrow> utxo_set \<Rightarrow> (CTxInUndo list list \<times> utxo_set) option" where
  "spec_connect [] nHeight u = Some ([], u)"
| "spec_connect (tx # txs) nHeight u =
     (case spec_update tx nHeight u of
        None \<Rightarrow> None
      | Some (us, u') \<Rightarrow> map_option (\<lambda>(uss, u''). (us # uss, u'')) (spec_connect txs nHeight u'))"

text \<open>No transaction of the block replaces coins that are not spent.\<close>

fun no_overwrite :: "CTransaction list \<Rightarrow> int \<Rightarrow> utxo_set \<Rightarrow> bool" where
  "no_overwrite [] nHeight u \<longleftrightarrow> True"
| "no_overwrite (tx # txs) nHeight u \<longleftrightarrow>
     u (tx_hash tx) = None \<and> (case spec_update tx nHeight u of None \<Rightarrow> True | Some (us, u') \<Rightarrow> no_overwrite txs nHeight u')"

definition block_set :: "utxo_set \<Rightarrow> bool" where
  "block_set u \<longleftrightarrow> (\<forall>t coins. u t = Some coins \<longrightarrow> block_coins coins)"

lemma spec_spends_None: "spec_spends ins u = Some (us, u') \<Longrightarrow> u t = None \<Longrightarrow> u' t = None"
proof (induction ins arbitrary: u us)
  case (Cons txin ins)
  obtain coins undo coins' us' where "u (op_hash (prevout txin)) = Some coins"
      "spec_spends ins (u(op_hash (prevout txin) := live (Some coins'))) = Some (us', u')"
    using Cons.prems(1) by (auto split: option.splits)
  then show ?case using Cons.IH Cons.prems(2) by (metis fun_upd_other option.distinct(1))
qed simp

lemma spec_spends_block_set: "spec_spends ins u = Some (us, u') \<Longrightarrow> block_set u \<Longrightarrow> block_set u'"
proof (induction ins arbitrary: u us)
  case (Cons txin ins)
  obtain coins undo coins' us' where s: "u (op_hash (prevout txin)) = Some coins" "Spend (prevout txin) coins = Some (undo, coins')"
      "spec_spends ins (u(op_hash (prevout txin) := live (Some coins'))) = Some (us', u')"
    using Cons.prems(1) by (auto split: option.splits)
  have "block_coins coins'" if "\<not> IsPruned coins'"
    using Spend_storable [OF _ s(2) that] Cons.prems(2) s(1) by (auto simp: block_set_def block_coins_def)
  then have "block_set (u(op_hash (prevout txin) := live (Some coins')))"
    using Cons.prems(2) by (auto simp: block_set_def live_eq_Some)
  then show ?case using Cons.IH s(3) by blast
qed simp

lemma spec_update_block_set:
  assumes "spec_update tx nHeight u = Some (us, u')" "block_set u" "storable_tx tx nHeight" "0 < nHeight"
  shows "block_set u'"
proof -
  obtain u1 where u1: "(if \<not> IsCoinBase tx then spec_spends (vin tx) u else Some ([], u)) = Some (us, u1)"
      "u' = u1(tx_hash tx := live (Some (CCoins_of tx nHeight)))"
    using assms(1) by (auto simp: spec_update_def)
  then have "block_set u1" using spec_spends_block_set assms(2) by (auto split: if_splits)
  moreover have "coins_nHeight (CCoins_of tx nHeight) = nHeight"
    by (simp add: CCoins_of_def FromTx_def ClearUnspendable_def Cleanup_def)
  ultimately show ?thesis using u1(2) assms(3,4) by (auto simp: block_set_def block_coins_def storable_tx_def live_eq_Some)
qed

text \<open>The undo data of a transaction in the block: none for the coinbase.\<close>

definition undo_for :: "CTransaction \<Rightarrow> CTxInUndo list \<Rightarrow> CTxUndo option" where
  "undo_for tx us = (if IsCoinBase tx then None else Some \<lparr>vprevout = us\<rparr>)"

text \<open>The views whose coins are those of the coin database.\<close>

locale coin_client = coins_store V vinv utxo held best storable_coins
  for V :: "'v view" and vinv utxo held best
begin

lemma storable_found:
  assumes "cinv c" "live (Some coins) = cutxo c t" "\<not> IsPruned coins"
  shows "storable_coins coins" "Cleanup coins = coins"
proof -
  show "storable_coins coins" using cutxo_ok [OF assms(1), of t coins] assms(2,3) by simp
  then show "Cleanup coins = coins" by (simp add: storable_coins_def Cleanup_trimmed)
qed

lemma modified:
  assumes "cinv c"
    and "\<And>coins. live (Some coins) = cutxo c t \<Longrightarrow> \<not> IsPruned (snd (f coins)) \<Longrightarrow> storable_coins (Cleanup (snd (f coins)))"
  obtains coins c' where "live (Some coins) = cutxo c t" "with_modifier V t f c = Some (fst (f coins), c')" "cinv c'"
    "cutxo c' = (cutxo c)(t := live (Some (Cleanup (snd (f coins)))))" "same_best c c'"
proof -
  have "storable_coins (Cleanup coins')"
    if "live (Some coins) = cutxo c t" "f coins = (r, coins')" "\<not> IsPruned (Cleanup coins')" for coins r coins'
    using assms(2) [OF that(1)] that(2,3) by simp
  then obtain coins r coins' c' where "live (Some coins) = cutxo c t" "f coins = (r, coins')" "with_modifier V t f c = Some (r, c')"
      "cinv c'" "cutxo c' = (cutxo c)(t := live (Some (Cleanup coins')))" "same_best c c'"
    using with_modifier_spec [OF assms(1), where f = f and t = t] by blast
  then show thesis using that [of coins c'] by simp
qed

lemma spend_step:
  assumes "cinv c"
  shows "\<exists>r c'. with_modifier V (op_hash out) (spend_edit out) c = Some (r, c') \<and>
    (case cutxo c (op_hash out) of
       None \<Rightarrow> r = None
     | Some coins \<Rightarrow>
         (case Spend out coins of
            None \<Rightarrow> r = None
          | Some (undo, coins') \<Rightarrow> r = Some undo \<and> cinv c' \<and> cutxo c' = (cutxo c)(op_hash out := live (Some coins')) \<and>
              same_best c c'))"
proof -
  have st: "storable_coins (Cleanup coins')"
    if "live (Some coins) = cutxo c (op_hash out)" "spend_edit out coins = (r, coins')" "\<not> IsPruned (Cleanup coins')" for coins r coins'
  proof (cases "Spend out coins")
    case None
    then show ?thesis using that storable_found [OF assms that(1)] by (auto simp: spend_edit_def)
  next
    case (Some p)
    then have "storable_coins coins" using Spend_not_pruned storable_found(1) [OF assms that(1)] by blast
    then have "storable_coins coins'" using Some that(2,3) Spend_storable(1) [of coins out] by (auto simp: spend_edit_def split: prod.splits)
    then show ?thesis by (simp add: storable_coins_def Cleanup_trimmed)
  qed
  obtain coins r coins' c' where m: "live (Some coins) = cutxo c (op_hash out)" "spend_edit out coins = (r, coins')"
      "with_modifier V (op_hash out) (spend_edit out) c = Some (r, c')" "cinv c'"
      "cutxo c' = (cutxo c)(op_hash out := live (Some (Cleanup coins')))" "same_best c c'"
    using with_modifier_spec [OF assms, where f = "spend_edit out" and t = "op_hash out"] st by blast
  show ?thesis
  proof (cases "Spend out coins")
    case None
    then have "r = None" using m(2) by (simp add: spend_edit_def)
    moreover have "\<And>a. cutxo c (op_hash out) = Some a \<Longrightarrow> a = coins" using m(1) by (cases "IsPruned coins") simp_all
    ultimately show ?thesis using m(3) None by (auto split: option.splits)
  next
    case (Some p)
    then obtain undo where p: "p = (undo, coins')" "r = Some undo" using m(2) by (cases p) (simp add: spend_edit_def)
    have "\<not> IsPruned coins" using Some Spend_not_pruned by blast
    then have "cutxo c (op_hash out) = Some coins" using m(1) by simp
    moreover have "Cleanup coins' = coins'" using Spend_spec(3) [of out coins undo coins'] Some p by (simp add: Cleanup_def)
    ultimately show ?thesis using m Some p by auto
  qed
qed

lemma spend_inputs_spec:
  assumes "cinv c"
  shows "case spec_spends ins (cutxo c) of
      None \<Rightarrow> spend_inputs V ins txundo c = None
    | Some (us, u') \<Rightarrow> \<exists>c'. spend_inputs V ins txundo c = Some (txundo\<lparr>vprevout := vprevout txundo @ us\<rparr>, c') \<and>
        cinv c' \<and> cutxo c' = u' \<and> same_best c c'"
  using assms
proof (induction ins arbitrary: c txundo)
  case (Cons txin ins)
  obtain r c' where m: "with_modifier V (op_hash (prevout txin)) (spend_edit (prevout txin)) c = Some (r, c')"
    and r: "case cutxo c (op_hash (prevout txin)) of None \<Rightarrow> r = None
      | Some coins \<Rightarrow> (case Spend (prevout txin) coins of None \<Rightarrow> r = None
          | Some (undo, coins') \<Rightarrow> r = Some undo \<and> cinv c' \<and> cutxo c' = (cutxo c)(op_hash (prevout txin) := live (Some coins')) \<and>
              same_best c c')"
    using spend_step [OF Cons.prems, of "prevout txin"] by blast
  show ?case
  proof (cases r)
    case None
    then show ?thesis using m r by (auto split: option.splits)
  next
    case (Some undo)
    then obtain coins coins' where s: "cutxo c (op_hash (prevout txin)) = Some coins" "Spend (prevout txin) coins = Some (undo, coins')"
        "cinv c'" "cutxo c' = (cutxo c)(op_hash (prevout txin) := live (Some coins'))" "same_best c c'"
      using r by (auto split: option.splits)
    have "spec_spends (txin # ins) (cutxo c) = map_option (\<lambda>(us, u'). (undo # us, u')) (spec_spends ins (cutxo c'))"
      using s(1,2,4) by simp
    then show ?thesis
      using Cons.IH [OF s(3), of "txundo\<lparr>vprevout := vprevout txundo @ [undo]\<rparr>"] s(5) m Some by (cases "spec_spends ins (cutxo c')") auto
  qed
qed (auto intro: exI)

lemma UpdateCoins_spec:
  assumes "cinv c" "storable_tx tx nHeight"
  shows "case spec_update tx nHeight (cutxo c) of
      None \<Rightarrow> UpdateCoins V tx txundo nHeight c = None
    | Some (us, u') \<Rightarrow> \<exists>c'. UpdateCoins V tx txundo nHeight c = Some (txundo\<lparr>vprevout := vprevout txundo @ us\<rparr>, c') \<and>
        cinv c' \<and> cutxo c' = u' \<and> same_best c c'"
proof -
  let ?spends = "if \<not> IsCoinBase tx then spend_inputs V (vin tx) txundo c else Some (txundo, c)"
  let ?spec = "if \<not> IsCoinBase tx then spec_spends (vin tx) (cutxo c) else Some ([], cutxo c)"
  show ?thesis
  proof (cases ?spec)
    case None
    then have "?spends = None" using spend_inputs_spec [OF assms(1), of "vin tx" txundo] by (auto split: if_splits)
    then show ?thesis using None by (simp add: spec_update_def UpdateCoins_def)
  next
    case (Some p)
    then obtain us u' where p: "?spec = Some (us, u')" by (cases p) simp
    then obtain c1 where c1: "?spends = Some (txundo\<lparr>vprevout := vprevout txundo @ us\<rparr>, c1)" "cinv c1" "cutxo c1 = u'"
        "same_best c c1"
      using spend_inputs_spec [OF assms(1), of "vin tx" txundo] assms(1) by (auto split: if_splits)
    have clean: "Cleanup (CCoins_of tx nHeight) = CCoins_of tx nHeight"
      by (simp add: CCoins_of_def FromTx_def ClearUnspendable_def Cleanup_def)
    obtain c2 where "with_modifier V (tx_hash tx) (\<lambda>coins. ((), FromTx tx nHeight coins)) c1 = Some ((), c2)" "cinv c2"
        "cutxo c2 = u'(tx_hash tx := live (Some (CCoins_of tx nHeight)))" "same_best c1 c2"
      using modified [OF c1(2), of "tx_hash tx" "\<lambda>coins. ((), FromTx tx nHeight coins)"] c1(3) assms(2)
      by (auto simp: FromTx_CCoins_of clean storable_tx_def)
    then show ?thesis using p c1(1,4) by (auto simp: spec_update_def UpdateCoins_def)
  qed
qed

subsection \<open>Disconnecting undoes connecting\<close>

lemma restore_step:
  assumes "cinv c" "block_coins coins" "Spend out coins = Some (undo, coins')" "cutxo c (op_hash out) = live (Some coins')"
  defines "restored \<equiv> coins\<lparr>fCoinStake := fCoinStake coins \<and> \<not> undo_fCoinStake undo\<rparr>"
  obtains c' where "with_modifier V (op_hash out) (restore_edit out undo) c = Some (Some True, c')" "cinv c'"
    "cutxo c' = (cutxo c)(op_hash out := Some restored)" "same_best c c'"
proof -
  have found: "restore_edit out undo found = (Some True, restored)" if "live (Some found) = cutxo c (op_hash out)" for found
    using restore_spent [OF assms(2,3), of found] that assms(4) by (simp add: restore_edit_def restored_def)
  have st: "storable_coins restored"
    using assms(2) by (auto simp: block_coins_def storable_coins_def restored_def trimmed_def IsPruned_def)
  then have "Cleanup restored = restored" "\<not> IsPruned restored" by (simp_all add: storable_coins_def Cleanup_trimmed)
  then show thesis
    using modified [OF assms(1), of "op_hash out" "restore_edit out undo"] found st that by auto
qed

lemma restore_inputs_append:
  "restore_inputs V (xs @ ys) clean c = Option.bind (restore_inputs V xs clean c) (\<lambda>(clean', c'). restore_inputs V ys clean' c')"
  by (induction V xs clean c rule: restore_inputs.induct) (auto split: option.splits)

lemma spends_restored:
  assumes "spec_spends ins u = Some (us, u1)" "block_set u" "\<forall>x\<in>set us. \<not> undo_fCoinStake x" "cinv c" "cutxo c = u1"
  shows "length us = length ins \<and> (\<exists>c'. restore_inputs V (rev (zip ins us)) clean c = Some (clean, c') \<and> cinv c' \<and> cutxo c' = u \<and>
    same_best c c')"
  using assms
proof (induction ins arbitrary: u us)
  case (Cons txin ins)
  let ?t = "op_hash (prevout txin)"
  obtain coins undo coins' us' where s: "u ?t = Some coins" "Spend (prevout txin) coins = Some (undo, coins')"
      "spec_spends ins (u(?t := live (Some coins'))) = Some (us', u1)" "us = undo # us'"
    using Cons.prems(1) by (auto split: option.splits)
  have "spec_spends [txin] u = Some ([undo], u(?t := live (Some coins')))" using s(1,2) by simp
  from spec_spends_block_set [OF this Cons.prems(2)] have bs: "block_set (u(?t := live (Some coins')))" .
  have "\<forall>x\<in>set us'. \<not> undo_fCoinStake x" using Cons.prems(3) s(4) by simp
  note IH = Cons.IH [OF s(3) bs this Cons.prems(4,5)]
  have len: "length us' = length ins" using IH by blast
  obtain c' where c': "restore_inputs V (rev (zip ins us')) clean c = Some (clean, c')" "cinv c'"
      "cutxo c' = u(?t := live (Some coins'))" "same_best c c'" using IH by blast
  have "block_coins coins" using Cons.prems(2) s(1) by (simp add: block_set_def)
  then obtain c2 where c2: "with_modifier V ?t (restore_edit (prevout txin) undo) c' = Some (Some True, c2)" "cinv c2"
      "cutxo c2 = (cutxo c')(?t := Some (coins\<lparr>fCoinStake := fCoinStake coins \<and> \<not> undo_fCoinStake undo\<rparr>))" "same_best c' c2"
    using restore_step [OF c'(2) _ s(2)] c'(3) by auto
  have "coins\<lparr>fCoinStake := fCoinStake coins \<and> \<not> undo_fCoinStake undo\<rparr> = coins" using Cons.prems(3) s(4) by simp
  then have "cutxo c2 = u" using c2(3) c'(3) s(1) by auto
  then show ?case using s(4) len c'(1,4) c2 by (simp add: restore_inputs_append)
qed simp

lemma outputs_removed:
  assumes "cinv c" "cutxo c (tx_hash tx) = live (Some (CCoins_of tx nHeight))"
  obtains c' where "with_modifier V (tx_hash tx) (remove_outputs tx nHeight) c = Some (True, c')" "cinv c'"
    "cutxo c' = (cutxo c)(tx_hash tx := None)" "same_best c c'"
proof -
  let ?block = "CCoins_of tx nHeight"
  have dead: "IsPruned (Clear x)" for x by (simp add: IsPruned_def Clear_def)
  have "fst (remove_outputs tx nHeight coins)" if "live (Some coins) = live (Some ?block)" for coins
  proof (cases "IsPruned ?block")
    case True
    then have "IsPruned coins" using that by (cases "IsPruned coins") simp_all
    then have "list_all CTxOut_IsNull (coins_vout coins)" by (simp add: IsPruned_def)
    then have "IsPruned (ClearUnspendable coins)"
      by (auto simp: ClearUnspendable_def IsPruned_Cleanup) (auto simp: IsPruned_def list_all_iff CTxOut_IsNull_def CTxOut_null_def)
    then show ?thesis using True by (simp add: remove_outputs_def Let_def CCoins_eq_def IsPruned_def)
  next
    case False
    then have "coins = ?block" using that live_eq_Some [of "Some coins" ?block] by simp
    moreover have "ClearUnspendable ?block = ?block" by (rule ClearUnspendable_idem)
    ultimately show ?thesis by (simp add: remove_outputs_def Let_def CCoins_eq_def)
  qed
  then show thesis
    using modified [OF assms(1), of "tx_hash tx" "remove_outputs tx nHeight"] assms(2) that dead
    by (auto simp: remove_outputs_def Let_def)
qed

lemma disconnect_txs_append:
  "disconnect_txs V nHeight (xs @ ys) clean c =
     (case disconnect_txs V nHeight xs clean c of
        None \<Rightarrow> None
      | Some (None, c') \<Rightarrow> Some (None, c')
      | Some (Some clean', c') \<Rightarrow> disconnect_txs V nHeight ys clean' c')"
  by (induction V nHeight xs clean c rule: disconnect_txs.induct) (auto split: option.splits)

lemma tx_disconnected:
  assumes "spec_update tx nHeight u = Some (us, u')" "block_set u" "u (tx_hash tx) = None"
    and "\<forall>x\<in>set us. \<not> undo_fCoinStake x" "cinv c" "cutxo c = u'"
  shows "\<exists>c'. disconnect_txs V nHeight [(tx, undo_for tx us)] clean c = Some (Some clean, c') \<and> cinv c' \<and> cutxo c' = u \<and>
    same_best c c'"
proof -
  obtain u1 where u1: "(if \<not> IsCoinBase tx then spec_spends (vin tx) u else Some ([], u)) = Some (us, u1)"
      "u' = u1(tx_hash tx := live (Some (CCoins_of tx nHeight)))"
    using assms(1) by (auto simp: spec_update_def)
  obtain c1 where c1: "with_modifier V (tx_hash tx) (remove_outputs tx nHeight) c = Some (True, c1)" "cinv c1"
      "cutxo c1 = (cutxo c)(tx_hash tx := None)" "same_best c c1"
    using outputs_removed [OF assms(5), of tx nHeight] assms(6) u1(2) by auto
  have "u1 (tx_hash tx) = None" using u1(1) spec_spends_None assms(3) by (auto split: if_splits)
  then have cut: "cutxo c1 = u1" using c1(3) assms(6) u1(2) by (simp add: fun_upd_idem)
  show ?thesis
  proof (cases "IsCoinBase tx")
    case True
    then show ?thesis using u1(1) c1 cut by (simp add: undo_for_def)
  next
    case False
    then have "spec_spends (vin tx) u = Some (us, u1)" using u1(1) by simp
    from spends_restored [OF this assms(2,4) c1(2) cut, of clean] show ?thesis
      using False c1 by (auto simp: undo_for_def)
  qed
qed

lemma txs_disconnected:
  assumes "spec_connect txs nHeight u = Some (uss, u')" "block_set u" "no_overwrite txs nHeight u" "0 < nHeight"
    and "list_all (\<lambda>tx. storable_tx tx nHeight) txs" "\<forall>us\<in>set uss. \<forall>x\<in>set us. \<not> undo_fCoinStake x" "cinv c" "cutxo c = u'"
  shows "\<exists>c'. disconnect_txs V nHeight (rev (map2 (\<lambda>tx us. (tx, undo_for tx us)) txs uss)) True c = Some (Some True, c') \<and>
    cinv c' \<and> cutxo c' = u \<and> same_best c c'"
  using assms
proof (induction txs arbitrary: u uss)
  case (Cons tx txs)
  obtain us u1 uss' where s: "spec_update tx nHeight u = Some (us, u1)" "spec_connect txs nHeight u1 = Some (uss', u')" "uss = us # uss'"
    using Cons.prems(1) by (auto split: option.splits)
  have "block_set u1" using spec_update_block_set [OF s(1) Cons.prems(2)] Cons.prems(4,5) by simp
  then obtain c1 where c1: "disconnect_txs V nHeight (rev (map2 (\<lambda>tx us. (tx, undo_for tx us)) txs uss')) True c = Some (Some True, c1)"
      "cinv c1" "cutxo c1 = u1" "same_best c c1"
    using Cons.IH [OF s(2)] Cons.prems s by auto
  obtain c2 where "disconnect_txs V nHeight [(tx, undo_for tx us)] True c1 = Some (Some True, c2)" "cinv c2" "cutxo c2 = u"
      "same_best c1 c2"
    using tx_disconnected [OF s(1) Cons.prems(2) _ _ c1(2,3), of True] Cons.prems(3,6) s(3) by auto
  then show ?case using c1(1,4) s(3) by (simp add: disconnect_txs_append del: disconnect_txs.simps)
qed simp

text \<open>The whole function: with the undo data that connecting produced, the coins are those before the block.\<close>

lemma DisconnectBlock_undoes:
  assumes "spec_connect (cb # txs) nHeight u = Some (us # uss, u')" "block_set u" "no_overwrite (cb # txs) nHeight u" "0 < nHeight"
    and "list_all (\<lambda>tx. storable_tx tx nHeight) (cb # txs)" "\<forall>us\<in>set uss. \<forall>x\<in>set us. \<not> undo_fCoinStake x"
    and "IsCoinBase cb" "list_all (\<lambda>tx. \<not> IsCoinBase tx) txs" "cinv c" "cutxo c = u'" "cbest c = blockHash" "length prevHash = 8"
  defines "blockUndo \<equiv> \<lparr>vtxundo = map (\<lambda>us. \<lparr>vprevout = us\<rparr>) uss\<rparr>"
  shows "\<exists>c'. DisconnectBlock V blockHash nHeight prevHash (Some (Some blockUndo)) False (cb # txs) c = Some (True, None, c') \<and>
    cinv c' \<and> cutxo c' = u \<and> hashBlock c' = prevHash"
proof -
  obtain c0 where c0: "Cache_GetBestBlock V c = (blockHash, c0)" "cinv c0" "cutxo c0 = u'"
    using GetBestBlock_cache [OF assms(9)] assms(10,11) by (cases "Cache_GetBestBlock V c") fastforce
  have len: "length uss = length txs" if "spec_connect txs h v = Some (uss, v')" for txs h v uss v'
    using that by (induction txs arbitrary: v uss) (auto split: option.splits)
  have "us = []" using assms(1,7) by (auto simp: spec_update_def split: option.splits)
  have "map2 (\<lambda>tx us. (tx, undo_for tx us)) txs uss = zip txs (map Some (map (\<lambda>us. \<lparr>vprevout = us\<rparr>) uss))"
    using assms(8) by (induction txs uss rule: list_induct2') (simp_all add: undo_for_def)
  then have "zip (cb # txs) (None # map Some (vtxundo blockUndo)) = map2 (\<lambda>tx us. (tx, undo_for tx us)) (cb # txs) (us # uss)"
    using assms(7) by (simp add: undo_for_def blockUndo_def)
  moreover have "\<forall>us\<in>set (us # uss). \<forall>x\<in>set us. \<not> undo_fCoinStake x" using assms(6) \<open>us = []\<close> by simp
  note txs_disconnected [OF assms(1-5) this c0(2,3)]
  ultimately obtain c' where c': "disconnect_txs V nHeight (rev (zip (cb # txs) (None # map Some (vtxundo blockUndo)))) True c0 =
      Some (Some True, c')" "cinv c'" "cutxo c' = u" by metis
  have "cinv (SetBestBlock prevHash c')" "cutxo (SetBestBlock prevHash c') = u"
    using c' assms(12) by (auto simp: SetBestBlock_def cache_inv_def cache_utxo_hashBlock)
  moreover have "length (vtxundo blockUndo) + 1 = length (cb # txs)" using len [OF assms(1)] by (simp add: blockUndo_def)
  ultimately show ?thesis
    using c0(1) c'(1) by (auto simp: DisconnectBlock_def Let_def SetBestBlock_def simp del: zip_Cons_Cons rev.simps)
qed

end

interpretation coindb: coin_client "db_view ec_valid ec_decompress ldb_get ldb_write" "db_inv ec_valid ec_decompress ldb_get ldb_write"
    "db_utxo ec_decompress ldb_get" "\<lambda>_ _. True" "db_best ldb_get"
  by unfold_locales

interpretation tip: coin_client "cache_view (db_view ec_valid ec_decompress ldb_get ldb_write)"
    "cache_inv (db_inv ec_valid ec_decompress ldb_get ldb_write) (db_utxo ec_decompress ldb_get) (\<lambda>_ _. True) storable_coins"
    "cache_utxo (db_utxo ec_decompress ldb_get)" cache_held "cache_best (db_best ldb_get)"
  by unfold_locales

section \<open>Properties\<close>

text \<open>C40: disconnecting a block loses the coinstake flag.  The last spend of the coins of a coinstake transaction
  records the flag in the undo data, but \<^verbatim>\<open>DisconnectBlock\<close> restores the coinbase flag, the height and
  the version only: the coins come back with the flag cleared, reported clean, so that the maturity of coinstake
  outputs is no longer enforced for them.\<close>

theorem DisconnectBlock_loses_coinstake:
  assumes "block_coins coins" "fCoinStake coins" "Spend out coins = Some (undo, coins')" "IsPruned coins'"
  shows "undo_fCoinStake undo \<and> restore_output out undo coins' = Some (True, coins\<lparr>fCoinStake := False\<rparr>)"
proof -
  have "coins_vout coins' = []"
    using assms(4) Spend_spec(3) [OF assms(3)] by (simp add: IsPruned_def flip: drop_spent_Nil_iff)
  then have "undo_fCoinStake undo" using Spend_spec(4) [OF assms(3)] assms(2) by simp
  then show ?thesis using restore_spent [OF assms(1,3) refl] by simp
qed

definition sample_out :: COutPoint where
  "sample_out = \<lparr>op_hash = base_uint_u64 8 5, op_n = 3\<rparr>"

theorem DisconnectBlock_loses_coinstake_witness:
  "\<exists>undo coins'. Spend sample_out sample_coins = Some (undo, coins') \<and> undo_fCoinStake undo \<and>
     restore_output sample_out undo coins' = Some (True, sample_coins\<lparr>fCoinStake := False\<rparr>)"
proof -
  obtain undo coins' where s: "Spend sample_out sample_coins = Some (undo, coins')" "coins_vout coins' = []"
    by (simp add: Spend_def sample_out_def sample_coins_def Cleanup_def CTxOut_IsNull_def CTxOut_null_def CTxOut_new_def
        CTxOut_SetNull_def)
  have "block_coins sample_coins" "fCoinStake sample_coins"
    using sample_coins_storable by (simp_all add: block_coins_def sample_coins_def)
  then show ?thesis using DisconnectBlock_loses_coinstake [OF _ _ s(1)] s by (simp add: IsPruned_def)
qed

end
