(* ===== verification/Validation.thy ===== *)
theory Validation
  imports Pow Merkle Connect
begin

text \<open>
  The context-free checks of transactions and blocks, \<^verbatim>\<open>CheckTransaction\<close>, \<^verbatim>\<open>IsFinalTx\<close>,
  \<^verbatim>\<open>CheckBlockHeader\<close> and \<^verbatim>\<open>CheckBlock\<close> of \<^verbatim>\<open>src/src/main.cpp\<close>, with the validation state of
  \<^verbatim>\<open>src/src/main.h\<close> and the block of \<^verbatim>\<open>src/src/primitives/block.h\<close>.  What the checks read of the
  node, the clock, the sporks, the locked inputs, the block index and the verdict on the payee, is a record of
  inputs; the hash of a block header is one of them.
\<close>

section \<open>The validation state\<close>

datatype mode_state = MODE_VALID | MODE_INVALID | MODE_ERROR

record CValidationState =
  mode :: mode_state
  nDoS :: int
  strRejectReason :: string
  chRejectCode :: byte
  corruptionPossible :: bool

definition CValidationState_new :: CValidationState where
  "CValidationState_new = \<lparr>mode = MODE_VALID, nDoS = 0, strRejectReason = [], chRejectCode = 0, corruptionPossible = False\<rparr>"

definition DoS :: "int \<Rightarrow> bool \<Rightarrow> byte \<Rightarrow> string \<Rightarrow> bool \<Rightarrow> CValidationState \<Rightarrow> bool \<times> CValidationState" where
  "DoS level ret chRejectCodeIn strRejectReasonIn corruptionIn st =
     (let st = st\<lparr>chRejectCode := chRejectCodeIn, strRejectReason := strRejectReasonIn, corruptionPossible := corruptionIn\<rparr>
      in if mode st = MODE_ERROR then (ret, st)
         else (ret, st\<lparr>nDoS := nDoS st + level, mode := MODE_INVALID\<rparr>))"

definition Invalid :: "bool \<Rightarrow> byte \<Rightarrow> string \<Rightarrow> CValidationState \<Rightarrow> bool \<times> CValidationState" where
  "Invalid ret code reason st = DoS 0 ret code reason False st"

definition Error :: "string \<Rightarrow> CValidationState \<Rightarrow> bool \<times> CValidationState" where
  "Error strRejectReasonIn st =
     (False, (if mode st = MODE_VALID then st\<lparr>strRejectReason := strRejectReasonIn\<rparr> else st)\<lparr>mode := MODE_ERROR\<rparr>)"

definition State_IsValid :: "CValidationState \<Rightarrow> bool" where "State_IsValid st \<longleftrightarrow> mode st = MODE_VALID"
definition State_IsInvalid :: "CValidationState \<Rightarrow> bool" where "State_IsInvalid st \<longleftrightarrow> mode st = MODE_INVALID"
definition State_IsError :: "CValidationState \<Rightarrow> bool" where "State_IsError st \<longleftrightarrow> mode st = MODE_ERROR"

definition State_IsInvalid_DoS :: "CValidationState \<Rightarrow> int option" where
  "State_IsInvalid_DoS st = (if State_IsInvalid st then Some (nDoS st) else None)"

definition REJECT_INVALID :: byte where "REJECT_INVALID = 0x10"

section \<open>Transactions\<close>

definition MAX_BLOCK_SIGOPS :: u32 where "MAX_BLOCK_SIGOPS = 4000000 div 50"
definition LOCKTIME_THRESHOLD :: int where "LOCKTIME_THRESHOLD = 500000000"

definition MoneyRange :: "CAmount \<Rightarrow> CAmount \<Rightarrow> bool" where
  "MoneyRange maxMoneyOut nValueOut \<longleftrightarrow> nValueOut \<ge> 0 \<and> nValueOut \<le> maxMoneyOut"

text \<open>An early return is a value on the left.\<close>

type_synonym 'a early = "(bool \<times> CValidationState) + 'a"

fun check_outputs :: "CAmount \<Rightarrow> CTransaction \<Rightarrow> CValidationState \<Rightarrow> CAmount \<Rightarrow> CTxOut list \<Rightarrow> unit early" where
  "check_outputs maxMoneyOut tx st nValueOut [] = Inr ()"
| "check_outputs maxMoneyOut tx st nValueOut (txout # outs) =
     (if CTxOut_IsEmpty txout \<and> \<not> IsCoinBase tx \<and> \<not> IsCoinStake tx then Inl (DoS 100 False 0 [] False st)
      else if nValue txout < 0 then Inl (DoS 100 False REJECT_INVALID ''bad-txns-vout-negative'' False st)
      else if nValue txout > maxMoneyOut then Inl (DoS 100 False REJECT_INVALID ''bad-txns-vout-toolarge'' False st)
      else let nValueOut' = wrap64 (nValueOut + nValue txout) in
        if \<not> MoneyRange maxMoneyOut nValueOut' then Inl (DoS 100 False REJECT_INVALID ''bad-txns-txouttotal-toolarge'' False st)
        else check_outputs maxMoneyOut tx st nValueOut' outs)"

fun check_duplicates :: "CValidationState \<Rightarrow> COutPoint set \<Rightarrow> CTxIn list \<Rightarrow> unit early" where
  "check_duplicates st vInOutPoints [] = Inr ()"
| "check_duplicates st vInOutPoints (txin # ins) =
     (if prevout txin \<in> vInOutPoints then Inl (DoS 100 False REJECT_INVALID ''bad-txns-inputs-duplicate'' False st)
      else check_duplicates st (insert (prevout txin) vInOutPoints) ins)"

fun check_prevouts :: "CValidationState \<Rightarrow> CTxIn list \<Rightarrow> bool \<times> CValidationState" where
  "check_prevouts st [] = (True, st)"
| "check_prevouts st (txin # ins) =
     (if COutPoint_IsNull (prevout txin) then DoS 10 False REJECT_INVALID ''bad-txns-prevout-null'' False st
      else check_prevouts st ins)"

definition CheckTransaction :: "CAmount \<Rightarrow> CTransaction \<Rightarrow> CValidationState \<Rightarrow> bool \<times> CValidationState" where
  "CheckTransaction maxMoneyOut tx st =
     (if vin tx = [] then DoS 10 False REJECT_INVALID ''bad-txns-vin-empty'' False st
      else if vout tx = [] then DoS 10 False REJECT_INVALID ''bad-txns-vout-empty'' False st
      else if GetSerializeSize_CTransaction tx > MAX_BLOCK_SIZE then DoS 100 False REJECT_INVALID ''bad-txns-oversize'' False st
      else case check_outputs maxMoneyOut tx st 0 (vout tx) of
        Inl r \<Rightarrow> r
      | Inr _ \<Rightarrow>
          (case check_duplicates st {} (vin tx) of
             Inl r \<Rightarrow> r
           | Inr _ \<Rightarrow>
               if IsCoinBase tx then
                 (if length (scriptSig (vin tx ! 0)) < 2 \<or> length (scriptSig (vin tx ! 0)) > 150
                  then DoS 100 False REJECT_INVALID ''bad-cb-length'' False st else (True, st))
               else check_prevouts st (vin tx)))"

text \<open>The height of the active chain and the adjusted time stand in for the arguments 0.\<close>

definition IsFinalTx :: "int \<Rightarrow> int \<Rightarrow> CTransaction \<Rightarrow> int \<Rightarrow> int \<Rightarrow> bool" where
  "IsFinalTx chainHeight adjustedTime tx nBlockHeight nBlockTime =
     (if nLockTime tx = 0 then True
      else let nBlockHeight = (if nBlockHeight = 0 then chainHeight else nBlockHeight);
               nBlockTime = (if nBlockTime = 0 then adjustedTime else nBlockTime);
               lock = uint (nLockTime tx)
           in if lock < (if lock < LOCKTIME_THRESHOLD then nBlockHeight else nBlockTime) then True
              else list_all CTxIn_IsFinal (vin tx))"

definition LOCKTIME_MEDIAN_TIME_PAST :: int where "LOCKTIME_MEDIAN_TIME_PAST = 2"

definition CheckFinalTx :: "int \<Rightarrow> int \<Rightarrow> int \<Rightarrow> CTransaction \<Rightarrow> int \<Rightarrow> bool" where
  "CheckFinalTx chainHeight medianTimePast adjustedTime tx flags =
     (let flags = max flags 0;
          nBlockTime = (if flags AND LOCKTIME_MEDIAN_TIME_PAST \<noteq> 0 then medianTimePast else adjustedTime)
      in IsFinalTx chainHeight adjustedTime tx (chainHeight + 1) nBlockTime)"

definition GetLegacySigOpCount :: "CTransaction \<Rightarrow> u32" where
  "GetLegacySigOpCount tx =
     fold (\<lambda>txout nSigOps. nSigOps + GetSigOpCount False (scriptPubKey txout)) (vout tx)
       (fold (\<lambda>txin nSigOps. nSigOps + GetSigOpCount False (scriptSig txin)) (vin tx) 0)"

text \<open>The block reward, in units of \<open>10\<^sup>-\<^sup>8\<close>.\<close>

definition COIN :: CAmount where "COIN = 100000000"

definition GetBlockValue :: "int \<Rightarrow> CAmount" where
  "GetBlockValue height =
     (let nSlowSubsidy = 2 * COIN;
          nSubsidy = (if height = 0 then 900000000 * COIN
                      else if height \<ge> 1 \<and> height \<le> 1036800 then 1 * COIN
                      else if height \<le> 4147200 \<and> height \<ge> 1036801 then 1 * COIN
                      else if height \<ge> 4147201 then 1 * COIN
                      else 0 * COIN)
      in if nSubsidy > 0 then nSubsidy else nSlowSubsidy)"

section \<open>Blocks\<close>

record CBlock =
  block_nVersion :: int
  block_hashPrevBlock :: base_uint
  block_hashMerkleRoot :: base_uint
  block_nTime :: u32
  block_nBits :: u32
  block_nNonce :: u32
  vtx :: "CTransaction list"
  vchBlockSig :: bytes

definition CBlock_IsProofOfStake :: "CBlock \<Rightarrow> bool" where
  "CBlock_IsProofOfStake block \<longleftrightarrow> length (vtx block) > 1 \<and> IsCoinStake (vtx block ! 1)"

definition CBlock_IsProofOfWork :: "CBlock \<Rightarrow> bool" where
  "CBlock_IsProofOfWork block \<longleftrightarrow> \<not> CBlock_IsProofOfStake block"

definition GetProofOfStake :: "CBlock \<Rightarrow> COutPoint \<times> u32" where
  "GetProofOfStake block =
     (if CBlock_IsProofOfStake block then (prevout (vin (vtx block ! 1) ! 0), block_nTime block) else (COutPoint_null, 0))"

definition GetSerializeSize_CBlock :: "CBlock \<Rightarrow> nat" where
  "GetSerializeSize_CBlock block =
     80 + GetSerializeSize_vector GetSerializeSize_CTransaction (vtx block) +
     (if length (vtx block) > 1 \<and> IsCoinStake (vtx block ! 1) then GetSerializeSize_blob (vchBlockSig block) else 0)"

text \<open>What the checks read: the clocks, the hash of a header, the sporks and locks, the tip and the index of blocks, whether
  the node is still synchronising, and the verdict of the masternode code on the payee of a block at a height.\<close>

record block_env =
  env_params :: CChainParams
  env_maxMoneyOut :: CAmount
  env_adjustedTime :: int
  env_time :: int
  env_blockHash :: "CBlock \<Rightarrow> base_uint"
  env_swifttxFiltering :: bool
  env_lockedInputs :: "COutPoint \<Rightarrow> base_uint option"
  env_tip :: "CBlockIndex option"
  env_mapBlockIndex :: "base_uint \<Rightarrow> CBlockIndex option"
  env_initialDownload :: bool
  env_payeeValid :: "CBlock \<Rightarrow> int \<Rightarrow> bool"

definition CheckBlockHeader :: "block_env \<Rightarrow> CBlock \<Rightarrow> bool \<Rightarrow> CValidationState \<Rightarrow> bool \<times> CValidationState" where
  "CheckBlockHeader env block fCheckPOW st =
     (if fCheckPOW \<and> \<not> CheckProofOfWork (env_params env) (env_blockHash env block) (block_nBits block)
      then DoS 50 False REJECT_INVALID ''high-hash'' False st else (True, st))"

text \<open>An input of a transaction in the block is locked by another transaction.\<close>

definition lock_conflict :: "block_env \<Rightarrow> CBlock \<Rightarrow> bool" where
  "lock_conflict env block \<longleftrightarrow>
     list_ex (\<lambda>tx. \<not> IsCoinBase tx \<and>
       list_ex (\<lambda>txin. case env_lockedInputs env (prevout txin) of None \<Rightarrow> False | Some h \<Rightarrow> h \<noteq> tx_hash tx) (vin tx)) (vtx block)"

text \<open>The height the payee is checked for; 0 for none.\<close>

definition payee_height :: "block_env \<Rightarrow> CBlock \<Rightarrow> int" where
  "payee_height env block =
     (case env_tip env of
        None \<Rightarrow> 0
      | Some pindexPrev \<Rightarrow>
          if phashBlock pindexPrev = block_hashPrevBlock block then nHeight pindexPrev + 1
          else (case env_mapBlockIndex env (block_hashPrevBlock block) of None \<Rightarrow> 0 | Some mi \<Rightarrow> nHeight mi + 1))"

fun check_transactions :: "CAmount \<Rightarrow> CTransaction list \<Rightarrow> CValidationState \<Rightarrow> bool \<times> CValidationState" where
  "check_transactions maxMoneyOut [] st = (True, st)"
| "check_transactions maxMoneyOut (tx # txs) st =
     (case CheckTransaction maxMoneyOut tx st of
        (False, st') \<Rightarrow> (False, st')
      | (True, st') \<Rightarrow> check_transactions maxMoneyOut txs st')"

definition legacy_sigops :: "CBlock \<Rightarrow> u32" where
  "legacy_sigops block = fold (\<lambda>tx nSigOps. nSigOps + GetLegacySigOpCount tx) (vtx block) 0"

text \<open>The checks before the transaction locks, and the whole.  The second state is the map of rejected blocks, to
  which an entry is added if there is none.\<close>

definition check_structure :: "block_env \<Rightarrow> CBlock \<Rightarrow> bool \<Rightarrow> bool \<Rightarrow> CValidationState \<Rightarrow> CValidationState early" where
  "check_structure env block fCheckPOW fCheckMerkleRoot st =
     (case (if CBlock_IsProofOfWork block then CheckBlockHeader env block fCheckPOW st else (True, st)) of
        (False, st') \<Rightarrow> Inl (DoS 100 False REJECT_INVALID ''bad-header'' True st')
      | (True, st) \<Rightarrow>
          if uint (block_nTime block) > env_adjustedTime env + (if CBlock_IsProofOfStake block then 180 else 7200)
          then Inl (Invalid False REJECT_INVALID ''time-too-new'' st)
          else let (root, mutated, _) = BuildMerkleTree (map (Serialize_uint \<circ> tx_hash) (vtx block)) in
            if fCheckMerkleRoot \<and> Serialize_uint (block_hashMerkleRoot block) \<noteq> root
            then Inl (DoS 100 False REJECT_INVALID ''bad-txnmrklroot'' True st)
            else if fCheckMerkleRoot \<and> mutated then Inl (DoS 100 False REJECT_INVALID ''bad-txns-duplicate'' True st)
            else if vtx block = [] \<or> length (vtx block) > MAX_BLOCK_SIZE \<or> GetSerializeSize_CBlock block > MAX_BLOCK_SIZE
            then Inl (DoS 100 False REJECT_INVALID ''bad-blk-length'' False st)
            else if vtx block = [] \<or> \<not> IsCoinBase (vtx block ! 0) then Inl (DoS 100 False REJECT_INVALID ''bad-cb-missing'' False st)
            else if list_ex IsCoinBase (drop 1 (vtx block)) then Inl (DoS 100 False REJECT_INVALID ''bad-cb-multiple'' False st)
            else if CBlock_IsProofOfStake block \<and> (length (vout (vtx block ! 0)) \<noteq> 1 \<or> \<not> CTxOut_IsEmpty (vout (vtx block ! 0) ! 0))
            then Inl (DoS 100 False 0 [] False st)
            else if CBlock_IsProofOfStake block \<and> (vtx block = [] \<or> \<not> IsCoinStake (vtx block ! 1)) then Inl (DoS 100 False 0 [] False st)
            else if CBlock_IsProofOfStake block \<and> list_ex IsCoinStake (drop 2 (vtx block)) then Inl (DoS 100 False 0 [] False st)
            else Inr st)"

definition CheckBlock ::
    "block_env \<Rightarrow> CBlock \<Rightarrow> bool \<Rightarrow> bool \<Rightarrow> CValidationState \<Rightarrow> (base_uint \<rightharpoonup> int) \<Rightarrow> bool \<times> CValidationState \<times> (base_uint \<rightharpoonup> int)" where
  "CheckBlock env block fCheckPOW fCheckMerkleRoot st mapRejectedBlocks =
     (let hash = env_blockHash env block;
          rejected = (if mapRejectedBlocks hash = None then mapRejectedBlocks(hash \<mapsto> env_time env) else mapRejectedBlocks);
          with_map = (\<lambda>m (ret, st). (ret, st, m)) in
      case check_structure env block fCheckPOW fCheckMerkleRoot st of
        Inl r \<Rightarrow> with_map mapRejectedBlocks r
      | Inr st \<Rightarrow>
          if env_swifttxFiltering env \<and> lock_conflict env block
          then with_map rejected (DoS 0 False REJECT_INVALID ''conflicting-tx-ix'' False st)
          else if payee_height env block \<noteq> 0 \<and> \<not> env_initialDownload env \<and> \<not> env_payeeValid env block (payee_height env block)
          then with_map rejected (DoS 0 False REJECT_INVALID ''bad-cb-payee'' False st)
          else case check_transactions (env_maxMoneyOut env) (vtx block) st of
            (False, st) \<Rightarrow> (False, st, mapRejectedBlocks)
          | (True, st) \<Rightarrow>
              if legacy_sigops block > MAX_BLOCK_SIGOPS
              then with_map mapRejectedBlocks (DoS 100 False REJECT_INVALID ''bad-blk-sigops'' True st)
              else (True, st, mapRejectedBlocks))"

section \<open>What a transaction has to satisfy\<close>

definition tx_ok :: "CAmount \<Rightarrow> CTransaction \<Rightarrow> bool" where
  "tx_ok maxMoneyOut tx \<longleftrightarrow>
     vin tx \<noteq> [] \<and> vout tx \<noteq> [] \<and> GetSerializeSize_CTransaction tx \<le> MAX_BLOCK_SIZE \<and>
     (\<forall>out\<in>set (vout tx). 0 \<le> nValue out \<and> (CTxOut_IsEmpty out \<longrightarrow> IsCoinBase tx \<or> IsCoinStake tx)) \<and>
     sum_list (map nValue (vout tx)) \<le> maxMoneyOut \<and> distinct (map prevout (vin tx)) \<and>
     (if IsCoinBase tx then length (scriptSig (vin tx ! 0)) \<in> {2..150} else \<forall>txin\<in>set (vin tx). \<not> COutPoint_IsNull (prevout txin))"

lemma DoS_simps [simp]:
  "fst (DoS level ret code reason corr st) = ret"
  "mode st \<noteq> MODE_ERROR \<Longrightarrow> mode (snd (DoS level ret code reason corr st)) = MODE_INVALID"
  "mode st \<noteq> MODE_ERROR \<Longrightarrow> nDoS (snd (DoS level ret code reason corr st)) = nDoS st + level"
  by (simp_all add: DoS_def Let_def)

text \<open>A refusal marks the state invalid and raises the score of the peer.\<close>

definition refused :: "CValidationState \<Rightarrow> bool \<times> CValidationState \<Rightarrow> bool" where
  "refused st r \<longleftrightarrow> \<not> fst r \<and> (mode st \<noteq> MODE_ERROR \<longrightarrow> mode (snd r) = MODE_INVALID \<and> nDoS st + 10 \<le> nDoS (snd r))"

lemma refused_DoS [simp]: "10 \<le> level \<Longrightarrow> refused st (DoS level False code reason corr st)"
  by (simp add: refused_def)

lemma check_outputs_iff:
  assumes "0 \<le> nValueOut" "nValueOut \<le> maxMoneyOut" "maxMoneyOut < 2 ^ 62"
  shows "(case check_outputs maxMoneyOut tx st nValueOut outs of Inl r \<Rightarrow> refused st r | Inr _ \<Rightarrow> True) \<and>
    (check_outputs maxMoneyOut tx st nValueOut outs = Inr () \<longleftrightarrow>
      (\<forall>out\<in>set outs. 0 \<le> nValue out \<and> (CTxOut_IsEmpty out \<longrightarrow> IsCoinBase tx \<or> IsCoinStake tx)) \<and>
      nValueOut + sum_list (map nValue outs) \<le> maxMoneyOut)"
  using assms(1,2)
proof (induction outs arbitrary: nValueOut)
  case (Cons out outs)
  have total: "0 \<le> sum_list (map nValue outs)" if "\<forall>o'\<in>set outs. 0 \<le> nValue o'" using that by (induction outs) auto
  show ?case
  proof (cases "0 \<le> nValue out \<and> nValue out \<le> maxMoneyOut")
    case True
    then have "wrap64 (nValueOut + nValue out) = nValueOut + nValue out"
      using Cons.prems assms(3) by (intro wrap64_id) (simp add: is_int64_def)
    then show ?thesis
      using Cons.IH [of "nValueOut + nValue out"] Cons.prems True total by (auto simp: MoneyRange_def Let_def)
  next
    case False
    then show ?thesis using Cons.prems total by (auto simp: Let_def)
  qed
qed simp

lemma check_duplicates_iff:
  "(case check_duplicates st seen ins of Inl r \<Rightarrow> refused st r | Inr _ \<Rightarrow> True) \<and>
   (check_duplicates st seen ins = Inr () \<longleftrightarrow> distinct (map prevout ins) \<and> set (map prevout ins) \<inter> seen = {})"
  by (induction ins arbitrary: seen) auto

lemma check_prevouts_iff:
  "check_prevouts st ins = (True, st) \<and> (\<forall>txin\<in>set ins. \<not> COutPoint_IsNull (prevout txin)) \<or>
   refused st (check_prevouts st ins) \<and> (\<exists>txin\<in>set ins. COutPoint_IsNull (prevout txin))"
  by (induction ins) auto

lemma CheckTransaction_spec:
  assumes "0 \<le> maxMoneyOut" "maxMoneyOut < 2 ^ 62"
  shows "if tx_ok maxMoneyOut tx then CheckTransaction maxMoneyOut tx st = (True, st) else refused st (CheckTransaction maxMoneyOut tx st)"
proof -
  note outs = check_outputs_iff [OF order_refl assms, where tx = tx and st = st and outs = "vout tx"]
  note dups = check_duplicates_iff [of st "{}" "vin tx"]
  note prevs = check_prevouts_iff [of st "vin tx"]
  consider (shape) "vin tx = [] \<or> vout tx = [] \<or> GetSerializeSize_CTransaction tx > MAX_BLOCK_SIZE"
    | (outs) r where "\<not> (vin tx = [] \<or> vout tx = [] \<or> GetSerializeSize_CTransaction tx > MAX_BLOCK_SIZE)"
        "check_outputs maxMoneyOut tx st 0 (vout tx) = Inl r"
    | (dups) r where "\<not> (vin tx = [] \<or> vout tx = [] \<or> GetSerializeSize_CTransaction tx > MAX_BLOCK_SIZE)"
        "check_outputs maxMoneyOut tx st 0 (vout tx) = Inr ()" "check_duplicates st {} (vin tx) = Inl r"
    | (good) "\<not> (vin tx = [] \<or> vout tx = [] \<or> GetSerializeSize_CTransaction tx > MAX_BLOCK_SIZE)"
        "check_outputs maxMoneyOut tx st 0 (vout tx) = Inr ()" "check_duplicates st {} (vin tx) = Inr ()"
    by (cases "check_outputs maxMoneyOut tx st 0 (vout tx)"; cases "check_duplicates st {} (vin tx)") auto
  then show ?thesis
  proof cases
    case shape
    then show ?thesis by (auto simp: CheckTransaction_def tx_ok_def)
  next
    case outs: outs
    then show ?thesis using check_outputs_iff [OF order_refl assms, where tx = tx and st = st and outs = "vout tx"] by (auto simp: CheckTransaction_def tx_ok_def)
  next
    case dups: dups
    then show ?thesis using check_duplicates_iff [of st "{}" "vin tx"] by (auto simp: CheckTransaction_def tx_ok_def)
  next
    case good
    then show ?thesis using outs dups prevs by (auto simp: CheckTransaction_def tx_ok_def not_less)
  qed
qed

lemma tx_ok_value:
  assumes "tx_ok maxMoneyOut tx" "maxMoneyOut < 2 ^ 62"
  shows "GetValueOut tx = Inr (sum_list (map nValue (vout tx)))"
proof -
  have each: "0 \<le> nValue out" if "out \<in> set (vout tx)" for out using that assms(1) by (simp add: tx_ok_def)
  have "nValue out \<le> sum_list (map nValue (vout tx))" if "out \<in> set (vout tx)" for out
    using member_le_sum_list [of "nValue out" "map nValue (vout tx)"] that each by auto
  then have "\<forall>out\<in>set (vout tx). is_int64 (nValue out)" using each assms by (force simp: tx_ok_def is_int64_def)
  then show ?thesis using GetValueOut_loop_iff [of 0 "vout tx"] each assms by (simp add: GetValueOut_def tx_ok_def is_int64_def)
qed

section \<open>What a block has to satisfy\<close>

lemma check_transactions_spec:
  assumes "0 \<le> maxMoneyOut" "maxMoneyOut < 2 ^ 62"
  shows "if list_all (tx_ok maxMoneyOut) txs then check_transactions maxMoneyOut txs st = (True, st)
    else refused st (check_transactions maxMoneyOut txs st)"
proof (induction txs)
  case (Cons tx txs)
  then show ?case using CheckTransaction_spec [OF assms, of tx st]
    by (cases "tx_ok maxMoneyOut tx"; cases "CheckTransaction maxMoneyOut tx st") (auto simp: refused_def)
qed simp

definition tx_scripts :: "CTransaction \<Rightarrow> CScript list" where
  "tx_scripts tx = map scriptSig (vin tx) @ map scriptPubKey (vout tx)"

definition block_scripts :: "CBlock \<Rightarrow> CScript list" where
  "block_scripts block = concat (map tx_scripts (vtx block))"

lemma sum_list_map_concat: "sum_list (map f (concat xss)) = sum_list (map (\<lambda>xs. sum_list (map f xs)) xss)" for f :: "'a \<Rightarrow> nat"
  by (induction xss) simp_all

lemma sum_list_concat_member: "xs \<in> set xss \<Longrightarrow> sum_list (map f xs) \<le> sum_list (map f (concat xss))" for f :: "'a \<Rightarrow> nat"
  by (induction xss) auto

lemma fold_sizes_sum: "fold (\<lambda>x nSize. nSize + sz x) xs k = k + sum_list (map sz xs)" for k :: nat
  by (induction xs arbitrary: k) simp_all

lemma GetSerializeSize_vector_sum:
  "GetSerializeSize_vector sz v = GetSizeOfCompactSize (of_nat (length v)) + sum_list (map sz v)"
  by (simp add: GetSerializeSize_vector_def fold_sizes_sum)

lemma tx_scripts_size: "sum_list (map length (tx_scripts tx)) \<le> GetSerializeSize_CTransaction tx"
proof -
  have "sum_list (map (\<lambda>x. length (scriptSig x)) (vin tx)) \<le> sum_list (map (\<lambda>x. 36 + GetSerializeSize_blob (scriptSig x) + 4) (vin tx))"
    "sum_list (map (\<lambda>x. length (scriptPubKey x)) (vout tx)) \<le> sum_list (map (\<lambda>x. 8 + GetSerializeSize_blob (scriptPubKey x)) (vout tx))"
    by (rule sum_list_mono, simp add: GetSerializeSize_blob_def)+
  then show ?thesis
    by (simp add: GetSerializeSize_CTransaction_def GetSerializeSize_vector_sum tx_scripts_def comp_def)
qed

lemma block_size:
  "sum_list (map length (block_scripts block)) \<le> GetSerializeSize_CBlock block" "length (vtx block) \<le> GetSerializeSize_CBlock block"
proof -
  have "sum_list (map length (block_scripts block)) = sum_list (map (\<lambda>tx. sum_list (map length (tx_scripts tx))) (vtx block))"
    by (simp add: block_scripts_def sum_list_map_concat comp_def)
  also have "\<dots> \<le> sum_list (map GetSerializeSize_CTransaction (vtx block))" by (rule sum_list_mono) (rule tx_scripts_size)
  finally show "sum_list (map length (block_scripts block)) \<le> GetSerializeSize_CBlock block"
    by (simp add: GetSerializeSize_CBlock_def GetSerializeSize_vector_sum)
  have "sum_list (map (\<lambda>_. 1) (vtx block)) \<le> sum_list (map GetSerializeSize_CTransaction (vtx block))"
    by (rule sum_list_mono) (simp add: GetSerializeSize_CTransaction_def)
  then show "length (vtx block) \<le> GetSerializeSize_CBlock block"
    by (simp add: GetSerializeSize_CBlock_def GetSerializeSize_vector_sum sum_list_triv)
qed

text \<open>The counters of signature operations do not wrap.\<close>

lemma unat_fold_add:
  fixes f :: "'a \<Rightarrow> u32"
  assumes "unat a + sum_list (map (\<lambda>x. unat (f x)) xs) < 2 ^ 32"
  shows "unat (fold (\<lambda>x n. n + f x) xs a) = unat a + sum_list (map (\<lambda>x. unat (f x)) xs)"
  using assms
proof (induction xs arbitrary: a)
  case (Cons x xs)
  have "unat (a + f x) = unat a + unat (f x)" using Cons.prems by (intro unat_add_lem [THEN iffD1]) simp
  then show ?case using Cons.IH [of "a + f x"] Cons.prems by simp
qed simp

abbreviation sigops :: "CScript list \<Rightarrow> nat" where
  "sigops scripts \<equiv> sum_list (map (\<lambda>s. unat (GetSigOpCount False s)) scripts)"

lemma sigops_bound: "sum_list (map length scripts) \<le> MAX_BLOCK_SIZE \<Longrightarrow> sigops scripts \<le> 20 * sum_list (map length scripts)"
proof (induction scripts)
  case (Cons s scripts)
  then have "unat (GetSigOpCount False s) \<le> 20 * length s"
    using sigop_loop_bounds [of 0 s 0 False OP_INVALIDOPCODE OP_INVALIDOPCODE] by (simp add: GetSigOpCount_def MAX_BLOCK_SIZE_def)
  then show ?case using Cons by simp
qed simp

lemma legacy_count:
  assumes "sum_list (map length (tx_scripts tx)) \<le> MAX_BLOCK_SIZE"
  shows "unat (GetLegacySigOpCount tx) = sigops (tx_scripts tx)"
proof -
  have "sigops (tx_scripts tx) < 2 ^ 32" using sigops_bound [OF assms] assms by (simp add: MAX_BLOCK_SIZE_def)
  moreover have "GetLegacySigOpCount tx = fold (\<lambda>s n. n + GetSigOpCount False s) (tx_scripts tx) 0"
    by (simp add: GetLegacySigOpCount_def tx_scripts_def fold_map comp_def)
  ultimately show ?thesis using unat_fold_add [of 0 "GetSigOpCount False" "tx_scripts tx"] by simp
qed

lemma legacy_sigops_exact:
  assumes "GetSerializeSize_CBlock block \<le> MAX_BLOCK_SIZE"
  shows "unat (legacy_sigops block) = sigops (block_scripts block)"
proof -
  have total: "sum_list (map length (block_scripts block)) \<le> MAX_BLOCK_SIZE" using assms block_size(1) [of block] by simp
  have "sum_list (map length (tx_scripts tx)) \<le> MAX_BLOCK_SIZE" if "tx \<in> set (vtx block)" for tx
  proof -
    have "sum_list (map length (tx_scripts tx)) \<le> sum_list (map length (block_scripts block))"
      using that unfolding block_scripts_def by (intro sum_list_concat_member) auto
    then show ?thesis using total by simp
  qed
  then have each: "map (\<lambda>tx. unat (GetLegacySigOpCount tx)) (vtx block) = map (\<lambda>tx. sigops (tx_scripts tx)) (vtx block)"
    by (simp add: legacy_count)
  have "sigops (block_scripts block) = sum_list (map (\<lambda>tx. sigops (tx_scripts tx)) (vtx block))"
    by (simp add: block_scripts_def sum_list_map_concat comp_def)
  moreover have "sigops (block_scripts block) < 2 ^ 32" using sigops_bound [OF total] total by (simp add: MAX_BLOCK_SIZE_def)
  ultimately show ?thesis
    using unat_fold_add [of 0 GetLegacySigOpCount "vtx block"] each by (simp add: legacy_sigops_def)
qed

text \<open>The order of the transactions: a coinbase first and nowhere else, and in a proof-of-stake block an empty coinbase,
  then the coinstake, and no other.\<close>

definition block_layout :: "CBlock \<Rightarrow> bool" where
  "block_layout block \<longleftrightarrow>
     (\<exists>cb txs. vtx block = cb # txs \<and> IsCoinBase cb \<and> list_all (\<lambda>tx. \<not> IsCoinBase tx) txs \<and>
        (CBlock_IsProofOfStake block \<longrightarrow> (\<exists>out. vout cb = [out] \<and> CTxOut_IsEmpty out) \<and> list_all (\<lambda>tx. \<not> IsCoinStake tx) (tl txs)))"

definition structure_ok :: "block_env \<Rightarrow> CBlock \<Rightarrow> bool \<Rightarrow> bool \<Rightarrow> bool" where
  "structure_ok env block fCheckPOW fCheckMerkleRoot \<longleftrightarrow>
     (CBlock_IsProofOfWork block \<and> fCheckPOW \<longrightarrow> CheckProofOfWork (env_params env) (env_blockHash env block) (block_nBits block)) \<and>
     uint (block_nTime block) \<le> env_adjustedTime env + (if CBlock_IsProofOfStake block then 180 else 7200) \<and>
     (fCheckMerkleRoot \<longrightarrow>
        (\<exists>tree. BuildMerkleTree (map (Serialize_uint \<circ> tx_hash) (vtx block)) = (Serialize_uint (block_hashMerkleRoot block), False, tree))) \<and>
     GetSerializeSize_CBlock block \<le> MAX_BLOCK_SIZE \<and> block_layout block"

text \<open>No input of a transaction in the block is locked by another transaction; and the payee is accepted if the parent of the block is
  known: as the tip, or else in the index.\<close>

definition locks_ok :: "block_env \<Rightarrow> CBlock \<Rightarrow> bool" where
  "locks_ok env block \<longleftrightarrow>
     (env_swifttxFiltering env \<longrightarrow>
        (\<forall>tx\<in>set (vtx block). \<forall>txin\<in>set (vin tx). \<forall>h. \<not> IsCoinBase tx \<longrightarrow> env_lockedInputs env (prevout txin) = Some h \<longrightarrow> h = tx_hash tx))"

definition parent_height :: "block_env \<Rightarrow> CBlock \<Rightarrow> int \<Rightarrow> bool" where
  "parent_height env block h \<longleftrightarrow>
     (\<exists>t. env_tip env = Some t \<and>
        (phashBlock t = block_hashPrevBlock block \<and> h = nHeight t \<or>
         phashBlock t \<noteq> block_hashPrevBlock block \<and> (\<exists>e. env_mapBlockIndex env (block_hashPrevBlock block) = Some e \<and> h = nHeight e)))"

definition payee_ok :: "block_env \<Rightarrow> CBlock \<Rightarrow> bool" where
  "payee_ok env block \<longleftrightarrow>
     env_initialDownload env \<or> (\<forall>h. parent_height env block h \<and> h + 1 \<noteq> 0 \<longrightarrow> env_payeeValid env block (h + 1))"

lemma locks_ok_iff: "locks_ok env block \<longleftrightarrow> \<not> (env_swifttxFiltering env \<and> lock_conflict env block)"
  by (auto simp: locks_ok_def lock_conflict_def list_ex_iff split: option.splits)

lemma payee_height_cases:
  "parent_height env block h \<Longrightarrow> payee_height env block = h + 1" "(\<And>h. \<not> parent_height env block h) \<Longrightarrow> payee_height env block = 0"
  by (auto simp: parent_height_def payee_height_def split: option.splits)

lemma payee_ok_iff:
  "payee_ok env block \<longleftrightarrow>
     (payee_height env block \<noteq> 0 \<and> \<not> env_initialDownload env \<longrightarrow> env_payeeValid env block (payee_height env block))"
  using payee_height_cases [of env block] unfolding payee_ok_def by metis

definition block_ok :: "block_env \<Rightarrow> CBlock \<Rightarrow> bool \<Rightarrow> bool \<Rightarrow> bool" where
  "block_ok env block fCheckPOW fCheckMerkleRoot \<longleftrightarrow>
     structure_ok env block fCheckPOW fCheckMerkleRoot \<and> locks_ok env block \<and> payee_ok env block \<and>
     list_all (tx_ok (env_maxMoneyOut env)) (vtx block) \<and> sigops (block_scripts block) \<le> 80000"

definition now_invalid :: "bool \<times> CValidationState \<Rightarrow> bool" where
  "now_invalid r \<longleftrightarrow> \<not> fst r \<and> mode (snd r) = MODE_INVALID"

lemma now_invalid_DoS [simp]: "mode st \<noteq> MODE_ERROR \<Longrightarrow> now_invalid (DoS level False code reason corr st)"
  by (simp add: now_invalid_def)

lemma DoS_triple [simp]:
  "(case DoS level False code reason corr st of (ret, st) \<Rightarrow> (ret, st, m)) = (False, snd (DoS level False code reason corr st), m)"
  "mode st \<noteq> MODE_ERROR \<Longrightarrow> State_IsInvalid (snd (DoS level False code reason corr st))"
  by (simp_all add: State_IsInvalid_def split: prod.splits) (metis DoS_simps(1) fst_conv)

lemma block_layout_iff:
  "block_layout block \<longleftrightarrow> vtx block \<noteq> [] \<and> IsCoinBase (vtx block ! 0) \<and> \<not> list_ex IsCoinBase (drop 1 (vtx block)) \<and>
     (CBlock_IsProofOfStake block \<longrightarrow> length (vout (vtx block ! 0)) = 1 \<and> CTxOut_IsEmpty (vout (vtx block ! 0) ! 0) \<and>
        \<not> list_ex IsCoinStake (drop 2 (vtx block)))"
  by (cases "vtx block") (auto simp: block_layout_def list_all_iff list_ex_iff length_Suc_conv drop_Suc numeral_2_eq_2)

lemma check_structure_spec:
  assumes "mode st \<noteq> MODE_ERROR"
  shows "case check_structure env block fCheckPOW fCheckMerkleRoot st of
      Inl r \<Rightarrow> \<not> structure_ok env block fCheckPOW fCheckMerkleRoot \<and> now_invalid r
    | Inr st' \<Rightarrow> structure_ok env block fCheckPOW fCheckMerkleRoot \<and> st' = st"
proof (cases "CBlock_IsProofOfWork block \<and> fCheckPOW \<and> \<not> CheckProofOfWork (env_params env) (env_blockHash env block) (block_nBits block)")
  case True
  have "mode (snd (DoS 50 False REJECT_INVALID ''high-hash'' False st)) \<noteq> MODE_ERROR" using assms by simp
  then show ?thesis using True
    by (auto simp: check_structure_def CheckBlockHeader_def structure_ok_def DoS_def Let_def now_invalid_def assms)
next
  case False
  then have hdr: "(if CBlock_IsProofOfWork block then CheckBlockHeader env block fCheckPOW st else (True, st)) = (True, st)"
    by (auto simp: CheckBlockHeader_def)
  obtain root mutated tree where tree: "BuildMerkleTree (map (Serialize_uint \<circ> tx_hash) (vtx block)) = (root, mutated, tree)"
    using prod_cases3 by blast
  have "CBlock_IsProofOfStake block \<Longrightarrow> IsCoinStake (vtx block ! 1)" by (simp add: CBlock_IsProofOfStake_def)
  then show ?thesis
    using False assms block_size(2) [of block]
    unfolding check_structure_def hdr structure_ok_def block_layout_iff tree
    by (auto simp: Invalid_def MAX_BLOCK_SIZE_def)
qed

text \<open>The map of rejected blocks afterwards.\<close>

lemma CheckBlock_rejected:
  assumes "mode st \<noteq> MODE_ERROR"
  shows "snd (snd (CheckBlock env block fCheckPOW fCheckMerkleRoot st m)) =
    (if structure_ok env block fCheckPOW fCheckMerkleRoot \<and> \<not> (locks_ok env block \<and> payee_ok env block) \<and>
        m (env_blockHash env block) = None
     then m(env_blockHash env block \<mapsto> env_time env) else m)"
proof -
  note spec = check_structure_spec [OF assms, of env block fCheckPOW fCheckMerkleRoot]
  show ?thesis
  proof (cases "check_structure env block fCheckPOW fCheckMerkleRoot st")
    case (Inl r)
    then show ?thesis using spec by (cases r) (simp add: CheckBlock_def Let_def)
  next
    case (Inr st')
    have "snd (snd (case check_transactions M txs s of (True, st) \<Rightarrow>
        if c then (case DoS 100 False REJECT_INVALID ''bad-blk-sigops'' True st of (ret, st) \<Rightarrow> (ret, st, m)) else (True, st, m)
      | (False, st) \<Rightarrow> (False, st, m))) = m" for M txs s c
      by (cases "check_transactions M txs s"; cases "fst (check_transactions M txs s)") simp_all
    then show ?thesis using Inr spec by (auto simp: CheckBlock_def Let_def locks_ok_iff payee_ok_iff)
  qed
qed

lemma CheckBlock_spec:
  assumes "0 \<le> env_maxMoneyOut env" "env_maxMoneyOut env < 2 ^ 62" "mode st \<noteq> MODE_ERROR"
  shows "(CheckBlock env block fCheckPOW fCheckMerkleRoot st m = (True, st, m) \<longleftrightarrow> block_ok env block fCheckPOW fCheckMerkleRoot) \<and>
    (\<not> block_ok env block fCheckPOW fCheckMerkleRoot \<longrightarrow>
       (\<exists>st' m'. CheckBlock env block fCheckPOW fCheckMerkleRoot st m = (False, st', m') \<and> State_IsInvalid st'))"
proof -
  let ?bad = "\<exists>st' m'. CheckBlock env block fCheckPOW fCheckMerkleRoot st m = (False, st', m') \<and> State_IsInvalid st'"
  let ?check = "check_structure env block fCheckPOW fCheckMerkleRoot st"
  have bad: "\<exists>st' m'. (case r of (ret, st) \<Rightarrow> (ret, st, m1)) = (False, st', m') \<and> State_IsInvalid st'" if "now_invalid r" for r m1
    using that by (cases r) (simp add: now_invalid_def State_IsInvalid_def)
  note spec = check_structure_spec [OF assms(3), of env block fCheckPOW fCheckMerkleRoot]
  show ?thesis
  proof (cases ?check)
    case (Inl r)
    then have "\<not> structure_ok env block fCheckPOW fCheckMerkleRoot" "now_invalid r" using spec by simp_all
    then show ?thesis using bad [of r m] Inl by (auto simp: CheckBlock_def Let_def block_ok_def locks_ok_iff payee_ok_iff)
  next
    case (Inr st')
    then have ok: "structure_ok env block fCheckPOW fCheckMerkleRoot" "st' = st" using spec by simp_all
    then have size: "GetSerializeSize_CBlock block \<le> MAX_BLOCK_SIZE" by (simp add: structure_ok_def)
    have count: "legacy_sigops block > MAX_BLOCK_SIGOPS \<longleftrightarrow> sigops (block_scripts block) > 80000"
      using legacy_sigops_exact [OF size] by (simp add: word_less_nat_alt MAX_BLOCK_SIGOPS_def unat_div)
    note txs = check_transactions_spec [OF assms(1,2), of "vtx block" st]
    show ?thesis
    proof (cases "(env_swifttxFiltering env \<and> lock_conflict env block) \<or>
        (payee_height env block \<noteq> 0 \<and> \<not> env_initialDownload env \<and> \<not> env_payeeValid env block (payee_height env block))")
      case True
      then have "\<not> block_ok env block fCheckPOW fCheckMerkleRoot" by (auto simp: block_ok_def locks_ok_iff payee_ok_iff)
      moreover have ?bad using True Inr ok(2) assms(3) by (auto simp: CheckBlock_def Let_def)
      ultimately show ?thesis by auto
    next
      case False
      show ?thesis
      proof (cases "list_all (tx_ok (env_maxMoneyOut env)) (vtx block)")
        case True
        then show ?thesis using False Inr ok txs count assms(3)
          by (auto simp: CheckBlock_def Let_def block_ok_def not_less locks_ok_iff payee_ok_iff)
      next
        case nok: False
        then have "refused st (check_transactions (env_maxMoneyOut env) (vtx block) st)" using txs by simp
        then have ?bad using False Inr ok assms(3)
          by (cases "check_transactions (env_maxMoneyOut env) (vtx block) st")
            (auto simp: CheckBlock_def Let_def refused_def State_IsInvalid_def)
        then show ?thesis using nok by (auto simp: block_ok_def)
      qed
    qed
  qed
qed

section \<open>Properties\<close>

text \<open>C14: the checks of a transaction.  A transaction passes exactly when it has inputs and outputs, its size is within
  the limit, its outputs are not negative, sum up to at most the money supply and are empty only in a coinbase or
  coinstake, no outpoint is spent twice, and it is a coinbase with a script of 2 to 150 bytes or spends no null outpoint; the
  state is then unchanged, and a refusal marks it invalid with a score of at least 10.  The sum of the outputs of a transaction
  that passes is computed without overflow.\<close>

theorem CheckTransaction_iff:
  assumes "0 \<le> maxMoneyOut" "maxMoneyOut < 2 ^ 62" "mode st \<noteq> MODE_ERROR"
  shows "(CheckTransaction maxMoneyOut tx st = (True, st) \<longleftrightarrow> tx_ok maxMoneyOut tx) \<and>
    (\<not> tx_ok maxMoneyOut tx \<longrightarrow> (\<exists>st'. CheckTransaction maxMoneyOut tx st = (False, st') \<and> State_IsInvalid st' \<and> nDoS st + 10 \<le> nDoS st')) \<and>
    (tx_ok maxMoneyOut tx \<longrightarrow> GetValueOut tx = Inr (sum_list (map nValue (vout tx))))"
proof -
  have "GetValueOut tx = Inr (sum_list (map nValue (vout tx)))" if "tx_ok maxMoneyOut tx"
    using tx_ok_value that assms(2) by blast
  moreover have "\<exists>st'. CheckTransaction maxMoneyOut tx st = (False, st') \<and> State_IsInvalid st' \<and> nDoS st + 10 \<le> nDoS st'"
    if "\<not> tx_ok maxMoneyOut tx"
    using CheckTransaction_spec [OF assms(1,2), of tx st] that assms(3)
    by (cases "CheckTransaction maxMoneyOut tx st") (auto simp: refused_def State_IsInvalid_def)
  moreover have "CheckTransaction maxMoneyOut tx st = (True, st) \<longleftrightarrow> tx_ok maxMoneyOut tx"
    using CheckTransaction_spec [OF assms(1,2), of tx st] by (auto simp: refused_def split: if_splits)
  ultimately show ?thesis by blast
qed

definition MaxMoneyOut :: CAmount where "MaxMoneyOut = 1000000000 * COIN"

lemma sample_tx_ok: "tx_ok MaxMoneyOut sample_tx" "IsCoinBase sample_tx"
  by (simp_all add: tx_ok_def sample_tx_def UpdateHash_def CTxOut_new_def CTxOut_IsEmpty_def IsCoinBase_def COutPoint_null_def
      COutPoint_IsNull_def IsNull_def base_uint_zero_def MAX_BLOCK_SIZE_def MaxMoneyOut_def COIN_def GetSerializeSize_CTransaction_def
      GetSerializeSize_vector_def GetSerializeSize_blob_def GetSizeOfCompactSize_def list_all_iff)

theorem CheckTransaction_iff_witness:
  "CheckTransaction MaxMoneyOut sample_tx CValidationState_new = (True, CValidationState_new) \<and> GetValueOut sample_tx = Inr 50"
  using CheckTransaction_iff [of MaxMoneyOut CValidationState_new sample_tx] sample_tx_ok(1)
  by (simp add: MaxMoneyOut_def COIN_def CValidationState_new_def sample_tx_def UpdateHash_def CTxOut_new_def)

text \<open>C13: the checks of a block.  A block passes exactly when its proof of work (unless it is a proof-of-stake block), its time and
  its Merkle root are good, the tree has no repeated subtree, the serialized block is within the size limit, the coinbase and
  coinstake are where they belong and nowhere else, no input is locked by another transaction, the payee is accepted,
  every transaction passes its own checks, and the scripts have at most 80000 signature operations, counted
  without overflow.  The states are then unchanged, and a refusal marks the block invalid.  The map of rejected blocks changes
  only when a block that passes the checks of its structure fails for a lock or the payee: then the block is entered with the
  current time, unless it is there already.\<close>

theorem CheckBlock_iff:
  assumes "0 \<le> env_maxMoneyOut env" "env_maxMoneyOut env < 2 ^ 62" "mode st \<noteq> MODE_ERROR"
  shows "(CheckBlock env block fCheckPOW fCheckMerkleRoot st m = (True, st, m) \<longleftrightarrow> block_ok env block fCheckPOW fCheckMerkleRoot) \<and>
    (\<not> block_ok env block fCheckPOW fCheckMerkleRoot \<longrightarrow>
       (\<exists>st' m'. CheckBlock env block fCheckPOW fCheckMerkleRoot st m = (False, st', m') \<and> State_IsInvalid st')) \<and>
    snd (snd (CheckBlock env block fCheckPOW fCheckMerkleRoot st m)) =
      (if structure_ok env block fCheckPOW fCheckMerkleRoot \<and> \<not> (locks_ok env block \<and> payee_ok env block) \<and>
          m (env_blockHash env block) = None
       then m(env_blockHash env block \<mapsto> env_time env) else m)"
  using CheckBlock_spec [OF assms] CheckBlock_rejected [OF assms(3)] by blast

definition sample_env :: block_env where
  "sample_env = \<lparr>env_params = CMainParams, env_maxMoneyOut = MaxMoneyOut, env_adjustedTime = 1000, env_time = 1000,
     env_blockHash = (\<lambda>_. base_uint_zero 8), env_swifttxFiltering = True, env_lockedInputs = (\<lambda>_. None), env_tip = None,
     env_mapBlockIndex = (\<lambda>_. None), env_initialDownload = False, env_payeeValid = (\<lambda>_ _. True)\<rparr>"

definition coinbase_block :: CBlock where
  "coinbase_block = \<lparr>block_nVersion = 3, block_hashPrevBlock = base_uint_zero 8, block_hashMerkleRoot = tx_hash sample_tx, block_nTime = 900,
     block_nBits = 0, block_nNonce = 0, vtx = [sample_tx], vchBlockSig = []\<rparr>"

lemma coinbase_block_ok: "block_ok sample_env coinbase_block False True"
proof -
  have tx: "IsCoinBase sample_tx" "tx_ok MaxMoneyOut sample_tx" "GetSerializeSize_CTransaction sample_tx \<le> 1000"
    using sample_tx_ok by (simp_all add: sample_tx_def UpdateHash_def CTxOut_new_def GetSerializeSize_CTransaction_def
        GetSerializeSize_vector_def GetSerializeSize_blob_def GetSizeOfCompactSize_def)
  have pow: "\<not> CBlock_IsProofOfStake coinbase_block" "block_layout coinbase_block"
    using tx by (simp_all add: CBlock_IsProofOfStake_def block_layout_def coinbase_block_def)
  have size: "GetSerializeSize_CBlock coinbase_block \<le> MAX_BLOCK_SIZE"
    using tx(3) by (simp add: GetSerializeSize_CBlock_def coinbase_block_def GetSerializeSize_vector_def GetSizeOfCompactSize_def MAX_BLOCK_SIZE_def)
  have "BuildMerkleTree [x] = (x, False, [x])" for x by (simp add: BuildMerkleTree_eq merkle_root_def twin_tail_def)
  then have "structure_ok sample_env coinbase_block False True"
    using pow size by (simp add: structure_ok_def sample_env_def) (simp add: coinbase_block_def)
  moreover have "block_scripts coinbase_block = [[1, 2], [0x51]]"
    by (simp add: block_scripts_def tx_scripts_def coinbase_block_def sample_tx_def UpdateHash_def CTxOut_new_def)
  moreover have "sigops [[1, 2], [0x51]] \<le> 20 * sum_list (map length [[1 :: byte, 2], [0x51]])"
    by (rule sigops_bound) (simp add: MAX_BLOCK_SIZE_def)
  ultimately show ?thesis
    using tx(1,2) by (simp add: block_ok_def payee_ok_def parent_height_def locks_ok_def sample_env_def) (simp add: coinbase_block_def)
qed

theorem CheckBlock_iff_witness:
  "CheckBlock sample_env coinbase_block False True CValidationState_new Map.empty = (True, CValidationState_new, Map.empty)"
  using CheckBlock_iff [of sample_env CValidationState_new coinbase_block False True Map.empty] coinbase_block_ok
  by (simp add: sample_env_def MaxMoneyOut_def COIN_def CValidationState_new_def)

end
