(* ===== verification/BlockConnect.thy ===== *)
theory BlockConnect
  imports Validation Verify "HOL-Library.Signed_Division"
begin

text \<open>
  Connecting a block to the chain: \<^verbatim>\<open>CheckInputs\<close> and \<^verbatim>\<open>ConnectBlock\<close> of \<^verbatim>\<open>src/src/main.cpp\<close> and
  \<^verbatim>\<open>IsBlockValueValid\<close> of \<^verbatim>\<open>src/src/masternode-payments.cpp\<close>.  Signature verification, the block index on disk,
  the undo files and the sporks are inputs.  \<open>None\<close> is a failed assertion, an exception or an access that is not defined.
\<close>

section \<open>Inputs of a transaction\<close>

fun p2sh_sigops :: "'v view \<Rightarrow> CTxIn list \<Rightarrow> u32 \<Rightarrow> 'v CCoinsViewCache \<Rightarrow> (u32 \<times> 'v CCoinsViewCache) option" where
  "p2sh_sigops V [] nSigOps c = Some (nSigOps, c)"
| "p2sh_sigops V (txin # ins) nSigOps c =
     (case GetOutputFor V txin c of
        None \<Rightarrow> None
      | Some (prev, c') \<Rightarrow>
          p2sh_sigops V ins (if IsPayToScriptHash (scriptPubKey prev) then nSigOps + GetSigOpCount_P2SH (scriptPubKey prev) (scriptSig txin)
                             else nSigOps) c')"

definition GetP2SHSigOpCount :: "'v view \<Rightarrow> CTransaction \<Rightarrow> 'v CCoinsViewCache \<Rightarrow> (u32 \<times> 'v CCoinsViewCache) option" where
  "GetP2SHSigOpCount V tx c = (if IsCoinBase tx then Some (0, c) else p2sh_sigops V (vin tx) 0 c)"

text \<open>A script check: the script of the output, the transaction, the input, and the flags.\<close>

record CScriptCheck =
  check_scriptPubKey :: CScript
  check_ptxTo :: CTransaction
  check_nIn :: nat
  check_nFlags :: flags

definition CScriptCheck_new :: "CCoins \<Rightarrow> CTransaction \<Rightarrow> nat \<Rightarrow> flags \<Rightarrow> CScriptCheck" where
  "CScriptCheck_new coins tx i flags =
     \<lparr>check_scriptPubKey = scriptPubKey (coins_vout coins ! unat (op_n (prevout (vin tx ! i)))), check_ptxTo = tx, check_nIn = i,
      check_nFlags = flags\<rparr>"

text \<open>Running a check, with \<open>verify\<close> the verification of a signature; the result is the error.\<close>

definition run_check :: "(bytes \<Rightarrow> bytes \<Rightarrow> bytes \<Rightarrow> bool) \<Rightarrow> CScriptCheck \<Rightarrow> (ScriptError + unit) option" where
  "run_check verify ck =
     VerifyScript (check_nFlags ck) (TransactionSignatureChecker verify (check_ptxTo ck) (check_nIn ck))
       (scriptSig (vin (check_ptxTo ck) ! check_nIn ck)) (check_scriptPubKey ck)"

definition MANDATORY_SCRIPT_VERIFY_FLAGS :: flags where
  "MANDATORY_SCRIPT_VERIFY_FLAGS = SCRIPT_VERIFY_P2SH"

definition STANDARD_SCRIPT_VERIFY_FLAGS :: flags where
  "STANDARD_SCRIPT_VERIFY_FLAGS =
     MANDATORY_SCRIPT_VERIFY_FLAGS OR SCRIPT_VERIFY_DERSIG OR SCRIPT_VERIFY_STRICTENC OR SCRIPT_VERIFY_MINIMALDATA OR
     SCRIPT_VERIFY_NULLDUMMY OR SCRIPT_VERIFY_DISCOURAGE_UPGRADABLE_NOPS"

definition STANDARD_NOT_MANDATORY_VERIFY_FLAGS :: flags where
  "STANDARD_NOT_MANDATORY_VERIFY_FLAGS = STANDARD_SCRIPT_VERIFY_FLAGS AND NOT MANDATORY_SCRIPT_VERIFY_FLAGS"

definition REJECT_NONSTANDARD :: byte where "REJECT_NONSTANDARD = 0x40"

text \<open>The loop over the values: the total, or an early return.  Amounts are 64-bit numbers.\<close>

fun input_values ::
    "'v view \<Rightarrow> CAmount \<Rightarrow> int \<Rightarrow> int \<Rightarrow> CValidationState \<Rightarrow> CTxIn list \<Rightarrow> CAmount \<Rightarrow> 'v CCoinsViewCache \<Rightarrow>
     (CAmount early \<times> 'v CCoinsViewCache) option" where
  "input_values V maxMoneyOut maturity nSpendHeight st [] nValueIn c = Some (Inr nValueIn, c)"
| "input_values V maxMoneyOut maturity nSpendHeight st (txin # ins) nValueIn c =
     (case AccessCoins V c (op_hash (prevout txin)) of
        (None, c') \<Rightarrow> None
      | (Some coins, c') \<Rightarrow>
          if (fCoinBase coins \<or> fCoinStake coins) \<and> nSpendHeight - coins_nHeight coins < maturity
          then Some (Inl (Invalid False REJECT_INVALID ''bad-txns-premature-spend-of-coinbase'' st), c')
          else if unat (op_n (prevout txin)) \<ge> length (coins_vout coins) then None
          else let v = nValue (coins_vout coins ! unat (op_n (prevout txin)));
                   nValueIn' = wrap64 (nValueIn + v)
               in if \<not> MoneyRange maxMoneyOut v \<or> \<not> MoneyRange maxMoneyOut nValueIn'
                  then Some (Inl (DoS 100 False REJECT_INVALID ''bad-txns-inputvalues-outofrange'' False st), c')
                  else input_values V maxMoneyOut maturity nSpendHeight st ins nValueIn' c')"

text \<open>The fee, for a transaction that is not a coinstake.\<close>

definition check_fee :: "CAmount \<Rightarrow> CTransaction \<Rightarrow> CValidationState \<Rightarrow> CAmount \<Rightarrow> unit early option" where
  "check_fee maxMoneyOut tx st nValueIn =
     (if IsCoinStake tx then Some (Inr ())
      else case GetValueOut tx of
        Inl _ \<Rightarrow> None
      | Inr nValueOut \<Rightarrow>
          if nValueIn < nValueOut then Some (Inl (DoS 100 False REJECT_INVALID ''bad-txns-in-belowout'' False st))
          else let nTxFee = wrap64 (nValueIn - nValueOut) in
            if nTxFee < 0 then Some (Inl (DoS 100 False REJECT_INVALID ''bad-txns-fee-negative'' False st))
            else if \<not> MoneyRange maxMoneyOut (wrap64 (0 + nTxFee))
            then Some (Inl (DoS 100 False REJECT_INVALID ''bad-txns-fee-outofrange'' False st))
            else Some (Inr ()))"

text \<open>The scripts: run at once, or collected (\<open>par\<close>).  The text of the first refusal names the error of the second check,
  which succeeded.\<close>

definition refuse_script ::
    "(bytes \<Rightarrow> bytes \<Rightarrow> bytes \<Rightarrow> bool) \<Rightarrow> flags \<Rightarrow> CScriptCheck \<Rightarrow> ScriptError \<Rightarrow> CValidationState \<Rightarrow> (bool \<times> CValidationState) option" where
  "refuse_script verify flags ck err st =
     (let mandatory = DoS 100 False REJECT_INVALID (''mandatory-script-verify-flag-failed ('' @ ScriptErrorString err @ '')'') False st in
      if flags AND STANDARD_NOT_MANDATORY_VERIFY_FLAGS \<noteq> 0
      then (case run_check verify (ck\<lparr>check_nFlags := flags AND NOT STANDARD_NOT_MANDATORY_VERIFY_FLAGS\<rparr>) of
              None \<Rightarrow> None
            | Some (Inr _) \<Rightarrow>
                Some (Invalid False REJECT_NONSTANDARD (''non-mandatory-script-verify-flag ('' @ ScriptErrorString SCRIPT_ERR_OK @ '')'') st)
            | Some (Inl _) \<Rightarrow> Some mandatory)
      else Some mandatory)"

fun check_scripts ::
    "'v view \<Rightarrow> (bytes \<Rightarrow> bytes \<Rightarrow> bytes \<Rightarrow> bool) \<Rightarrow> flags \<Rightarrow> bool \<Rightarrow> CTransaction \<Rightarrow> CValidationState \<Rightarrow> nat list \<Rightarrow> CScriptCheck list \<Rightarrow>
     'v CCoinsViewCache \<Rightarrow> (CScriptCheck list early \<times> 'v CCoinsViewCache) option" where
  "check_scripts V verify flags par tx st [] pvChecks c = Some (Inr pvChecks, c)"
| "check_scripts V verify flags par tx st (i # is) pvChecks c =
     (case AccessCoins V c (op_hash (prevout (vin tx ! i))) of
        (None, c') \<Rightarrow> None
      | (Some coins, c') \<Rightarrow>
          if unat (op_n (prevout (vin tx ! i))) \<ge> length (coins_vout coins) then None
          else let ck = CScriptCheck_new coins tx i flags in
            if par then check_scripts V verify flags par tx st is (pvChecks @ [ck]) c'
            else case run_check verify ck of
              None \<Rightarrow> None
            | Some (Inr _) \<Rightarrow> check_scripts V verify flags par tx st is pvChecks c'
            | Some (Inl err) \<Rightarrow> map_option (\<lambda>r. (Inl r, c')) (refuse_script verify flags ck err st))"

text \<open>What connecting reads beside the checks of the block: the maturity, the height of a block of the index, the verification of
  signatures, whether script checks run on other threads, the last checkpoint, the genesis block, and the state of the
  masternode code.\<close>

record connect_env = block_env +
  env_maturity :: int
  env_blockHeight :: "base_uint \<Rightarrow> int option"
  env_verify :: "bytes \<Rightarrow> bytes \<Rightarrow> bytes \<Rightarrow> bool"
  env_scriptThreads :: bool
  env_totalBlocksEstimate :: int
  env_genesisHash :: base_uint
  env_mnSynced :: bool
  env_budgetCycle :: int
  env_superblocks :: bool
  env_budgetBlock :: "int \<Rightarrow> bool"

text \<open>The result: the value returned, the state, the collected checks, and the cache.\<close>

definition CheckInputs ::
    "'v view \<Rightarrow> 'e connect_env_scheme \<Rightarrow> CTransaction \<Rightarrow> CValidationState \<Rightarrow> bool \<Rightarrow> flags \<Rightarrow> bool \<Rightarrow> 'v CCoinsViewCache \<Rightarrow>
     (bool \<times> CValidationState \<times> CScriptCheck list \<times> 'v CCoinsViewCache) option" where
  "CheckInputs V env tx st fScriptChecks flags par c =
     (if IsCoinBase tx then Some (True, st, [], c)
      else case HaveInputs V tx c of
        (False, c1) \<Rightarrow> (case Invalid False 0 [] st of (ret, st') \<Rightarrow> Some (ret, st', [], c1))
      | (True, c1) \<Rightarrow>
          (case Cache_GetBestBlock V c1 of (best, c2) \<Rightarrow>
             (case env_blockHeight env best of
                None \<Rightarrow> None
              | Some prevHeight \<Rightarrow>
                  (case input_values V (env_maxMoneyOut env) (env_maturity env) (prevHeight + 1) st (vin tx) 0 c2 of
                     None \<Rightarrow> None
                   | Some (Inl (ret, st'), c3) \<Rightarrow> Some (ret, st', [], c3)
                   | Some (Inr nValueIn, c3) \<Rightarrow>
                       (case check_fee (env_maxMoneyOut env) tx st nValueIn of
                          None \<Rightarrow> None
                        | Some (Inl (ret, st')) \<Rightarrow> Some (ret, st', [], c3)
                        | Some (Inr _) \<Rightarrow>
                            if fScriptChecks
                            then (case check_scripts V (env_verify env) flags par tx st [0..<length (vin tx)] [] c3 of
                                    None \<Rightarrow> None
                                  | Some (Inl (ret, st'), c4) \<Rightarrow> Some (ret, st', [], c4)
                                  | Some (Inr pvChecks, c4) \<Rightarrow> Some (True, st, pvChecks, c4))
                            else Some (True, st, [], c3))))))"

section \<open>The reward\<close>

definition IsBlockValueValid :: "'e connect_env_scheme \<Rightarrow> CBlock \<Rightarrow> CAmount \<Rightarrow> CAmount \<Rightarrow> bool" where
  "IsBlockValueValid env block nExpectedValue nMinted =
     (case env_tip env of
        None \<Rightarrow> True
      | Some _ \<Rightarrow>
          let height = payee_height (block_env.truncate env) block in
          if \<not> env_mnSynced env then
            (if height smod env_budgetCycle env < 100 then True else if nMinted > nExpectedValue then False else True)
          else if \<not> env_superblocks env then nMinted \<le> nExpectedValue
          else if env_budgetBlock env height then True
          else if nMinted > nExpectedValue then False
          else True)"

section \<open>Blocks\<close>

text \<open>The variables of the loop over the transactions.\<close>

record 'v connect_state =
  cs_view :: "'v CCoinsViewCache"
  cs_nFees :: CAmount
  cs_nInputs :: int
  cs_nSigOps :: u32
  cs_nTxOffset :: u32
  cs_vPos :: "(txid \<times> u32) list"
  cs_nValueOut :: CAmount
  cs_nValueIn :: CAmount
  cs_vtxundo :: "CTxUndo list"
  cs_checks :: "CScriptCheck list"

text \<open>A transaction that is not a coinbase: its inputs.  The left value is a \<open>return false\<close>.\<close>

definition connect_inputs ::
    "'v view \<Rightarrow> 'e connect_env_scheme \<Rightarrow> bool \<Rightarrow> flags \<Rightarrow> bool \<Rightarrow> CTransaction \<Rightarrow> CValidationState \<Rightarrow> 'v connect_state \<Rightarrow>
     ((CValidationState \<times> 'v CCoinsViewCache) + 'v connect_state) option" where
  "connect_inputs V env fScriptChecks flags fStrictPayToScriptHash tx st cs =
     (case HaveInputs V tx (cs_view cs) of
        (False, c1) \<Rightarrow> Some (Inl (snd (DoS 100 False REJECT_INVALID ''bad-txns-inputs-missingorspent'' False st), c1))
      | (True, c1) \<Rightarrow>
          (case (if fStrictPayToScriptHash then GetP2SHSigOpCount V tx c1 else Some (0, c1)) of
             None \<Rightarrow> None
           | Some (n, c2) \<Rightarrow>
               let nSigOps = cs_nSigOps cs + n in
               if fStrictPayToScriptHash \<and> nSigOps > MAX_BLOCK_SIGOPS
               then Some (Inl (snd (DoS 100 False REJECT_INVALID ''bad-blk-sigops'' False st), c2))
               else case GetValueIn V tx c2 of
                 None \<Rightarrow> None
               | Some (valueIn, c3) \<Rightarrow>
                   (case (if \<not> IsCoinStake tx
                          then map_sum id (\<lambda>valueOut. wrap64 (cs_nFees cs + wrap64 (valueIn - valueOut))) (GetValueOut tx)
                          else Inr (cs_nFees cs)) of
                      Inl _ \<Rightarrow> None
                    | Inr nFees \<Rightarrow>
                        case CheckInputs V env tx st fScriptChecks flags (env_scriptThreads env) c3 of
                          None \<Rightarrow> None
                        | Some (False, st', _, c4) \<Rightarrow> Some (Inl (st', c4))
                        | Some (True, _, vChecks, c4) \<Rightarrow>
                            Some (Inr (cs\<lparr>cs_view := c4, cs_nSigOps := nSigOps, cs_nFees := nFees,
                                          cs_nValueIn := wrap64 (cs_nValueIn cs + valueIn), cs_checks := cs_checks cs @ vChecks\<rparr>)))))"

definition connect_tx ::
    "'v view \<Rightarrow> 'e connect_env_scheme \<Rightarrow> bool \<Rightarrow> flags \<Rightarrow> bool \<Rightarrow> int \<Rightarrow> nat \<Rightarrow> CTransaction \<Rightarrow> CValidationState \<Rightarrow> 'v connect_state \<Rightarrow>
     ((CValidationState \<times> 'v CCoinsViewCache) + 'v connect_state) option" where
  "connect_tx V env fScriptChecks flags fStrictPayToScriptHash height i tx st cs =
     (let cs = cs\<lparr>cs_nInputs := cs_nInputs cs + int (length (vin tx)), cs_nSigOps := cs_nSigOps cs + GetLegacySigOpCount tx\<rparr> in
      if cs_nSigOps cs > MAX_BLOCK_SIGOPS
      then Some (Inl (snd (DoS 100 False REJECT_INVALID ''bad-blk-sigops'' False st), cs_view cs))
      else case (if \<not> IsCoinBase tx then connect_inputs V env fScriptChecks flags fStrictPayToScriptHash tx st cs else Some (Inr cs)) of
        None \<Rightarrow> None
      | Some (Inl r) \<Rightarrow> Some (Inl r)
      | Some (Inr cs) \<Rightarrow>
          (case GetValueOut tx of
             Inl _ \<Rightarrow> None
           | Inr valueOut \<Rightarrow>
               (case UpdateCoins V tx \<lparr>vprevout = []\<rparr> height (cs_view cs) of
                  None \<Rightarrow> None
                | Some (txundo, c) \<Rightarrow>
                    Some (Inr (cs\<lparr>cs_nValueOut := wrap64 (cs_nValueOut cs + valueOut), cs_view := c,
                                  cs_vtxundo := (if i > 0 then cs_vtxundo cs @ [txundo] else cs_vtxundo cs),
                                  cs_vPos := cs_vPos cs @ [(tx_hash tx, cs_nTxOffset cs)],
                                  cs_nTxOffset := cs_nTxOffset cs + of_nat (GetSerializeSize_CTransaction tx)\<rparr>)))))"

fun connect_loop ::
    "'v view \<Rightarrow> 'e connect_env_scheme \<Rightarrow> bool \<Rightarrow> flags \<Rightarrow> bool \<Rightarrow> int \<Rightarrow> nat \<Rightarrow> CTransaction list \<Rightarrow> CValidationState \<Rightarrow> 'v connect_state \<Rightarrow>
     ((CValidationState \<times> 'v CCoinsViewCache) + 'v connect_state) option" where
  "connect_loop V env fScriptChecks flags strict height i [] st cs = Some (Inr cs)"
| "connect_loop V env fScriptChecks flags strict height i (tx # txs) st cs =
     (case connect_tx V env fScriptChecks flags strict height i tx st cs of
        None \<Rightarrow> None
      | Some (Inl r) \<Rightarrow> Some (Inl r)
      | Some (Inr cs') \<Rightarrow> connect_loop V env fScriptChecks flags strict height (i + 1) txs st cs')"

text \<open>The rule against overwriting, which the code applies only to a block without a hash.\<close>

fun overwrites :: "'v view \<Rightarrow> CTransaction list \<Rightarrow> 'v CCoinsViewCache \<Rightarrow> bool \<times> 'v CCoinsViewCache" where
  "overwrites V [] c = (False, c)"
| "overwrites V (tx # txs) c =
     (case AccessCoins V c (tx_hash tx) of
        (None, c') \<Rightarrow> overwrites V txs c'
      | (Some coins, c') \<Rightarrow> if \<not> IsPruned coins then (True, c') else overwrites V txs c')"

definition BLOCK_VALID_SCRIPTS :: u32 where "BLOCK_VALID_SCRIPTS = 5"
definition BLOCK_HAVE_UNDO :: u32 where "BLOCK_HAVE_UNDO = 16"

text \<open>The results of the disk operations: the position of the undo data, or \<open>None\<close> without space.\<close>

record connect_io =
  io_WriteBlockIndex :: bool
  io_FindUndoPos :: "u32 option"
  io_WriteToDisk :: bool
  io_fTxIndex :: bool
  io_WriteTxIndex :: bool

text \<open>The undo data is written; the result on the left is a failure.\<close>

definition write_undo :: "connect_io \<Rightarrow> CBlockIndex \<Rightarrow> CValidationState \<Rightarrow> (CValidationState + CBlockIndex) option" where
  "write_undo io pindex st =
     (let no_pos = (nStatus pindex AND BLOCK_HAVE_UNDO = 0 \<or> nFile pindex = - 1) in
      case IsValid BLOCK_VALID_SCRIPTS pindex of
        None \<Rightarrow> None
      | Some valid \<Rightarrow>
          if no_pos \<or> \<not> valid then
            (case (if no_pos
                   then (case io_FindUndoPos io of
                           None \<Rightarrow> Inl (snd (Error ''out of disk space'' st))
                         | Some pos \<Rightarrow>
                             if \<not> io_WriteToDisk io then Inl (snd (Error ''Failed to write undo data'' st))
                             else Inr (pindex\<lparr>nUndoPos := pos, nStatus := nStatus pindex OR BLOCK_HAVE_UNDO\<rparr>))
                   else Inr pindex) of
               Inl st' \<Rightarrow> Some (Inl st')
             | Inr pindex' \<Rightarrow> map_option (\<lambda>(_, p). Inr p) (RaiseValidity BLOCK_VALID_SCRIPTS pindex'))
          else Some (Inr pindex))"

text \<open>What a run leaves behind.\<close>

record 'v connect_result =
  cr_ret :: bool
  cr_state :: CValidationState
  cr_rejected :: "base_uint \<rightharpoonup> int"
  cr_view :: "'v CCoinsViewCache"
  cr_pindex :: CBlockIndex
  cr_undo :: CBlockUndo

text \<open>The end of \<^verbatim>\<open>ConnectBlock\<close>, after the loop.\<close>

definition finish_block ::
    "'e connect_env_scheme \<Rightarrow> connect_io \<Rightarrow> base_uint option \<Rightarrow> CBlockIndex option \<Rightarrow> bool \<Rightarrow> CBlock \<Rightarrow> CBlockIndex \<Rightarrow>
     CValidationState \<Rightarrow> (base_uint \<rightharpoonup> int) \<Rightarrow> 'v connect_state \<Rightarrow> 'v connect_result option" where
  "finish_block env io phash prev fJustCheck block pindex st rejected cs =
     (let nMoneySupplyPrev = (case prev of None \<Rightarrow> 0 | Some p \<Rightarrow> nMoneySupply p);
          supply = wrap64 (wrap64 (nMoneySupplyPrev + cs_nValueOut cs) - cs_nValueIn cs);
          pindex = pindex\<lparr>nMoneySupply := supply, nMint := wrap64 (supply - nMoneySupplyPrev)\<rparr>;
          result = (\<lambda>ret st pindex c. Some \<lparr>cr_ret = ret, cr_state = st, cr_rejected = rejected, cr_view = c, cr_pindex = pindex,
                                            cr_undo = \<lparr>vtxundo = cs_vtxundo cs\<rparr>\<rparr>) in
      if \<not> io_WriteBlockIndex io then result False st pindex (cs_view cs)
      else case prev of
        None \<Rightarrow> None
      | Some p \<Rightarrow>
          let nExpectedMint = GetBlockValue (nHeight p);
              nExpectedMint = (if CBlock_IsProofOfWork block then wrap64 (nExpectedMint + cs_nFees cs) else nExpectedMint) in
          if \<not> IsBlockValueValid env block nExpectedMint (nMint pindex)
          then result False (snd (DoS 100 False REJECT_INVALID ''bad-cb-amount'' False st)) pindex (cs_view cs)
          else if list_ex (\<lambda>ck. run_check (env_verify env) ck = None) (cs_checks cs) then None
          else if list_ex (\<lambda>ck. run_check (env_verify env) ck \<noteq> Some (Inr ())) (cs_checks cs)
          then result False (snd (DoS 100 False 0 [] False st)) pindex (cs_view cs)
          else if fJustCheck then result True st pindex (cs_view cs)
          else case write_undo io pindex st of
            None \<Rightarrow> None
          | Some (Inl st') \<Rightarrow> result False st' pindex (cs_view cs)
          | Some (Inr pindex') \<Rightarrow>
              if io_fTxIndex io \<and> \<not> io_WriteTxIndex io
              then result False (snd (Error ''Failed to write transaction index'' st)) pindex' (cs_view cs)
              else (case phash of
                      None \<Rightarrow> None
                    | Some h \<Rightarrow> result True st pindex' (SetBestBlock h (cs_view cs))))"

text \<open>\<^verbatim>\<open>ConnectBlock\<close>: the hash of the index entry (none for a block being created), the entry, and the entry of its parent.\<close>

definition ConnectBlock ::
    "'v view \<Rightarrow> 'e connect_env_scheme \<Rightarrow> connect_io \<Rightarrow> base_uint option \<Rightarrow> CBlockIndex \<Rightarrow> CBlockIndex option \<Rightarrow> bool \<Rightarrow> CBlock \<Rightarrow>
     CValidationState \<Rightarrow> (base_uint \<rightharpoonup> int) \<Rightarrow> 'v CCoinsViewCache \<Rightarrow> 'v connect_result option" where
  "ConnectBlock V env io phash pindex prev fJustCheck block st rejected c =
     (let result = (\<lambda>ret st rejected c. Some \<lparr>cr_ret = ret, cr_state = st, cr_rejected = rejected, cr_view = c, cr_pindex = pindex,
                                              cr_undo = \<lparr>vtxundo = []\<rparr>\<rparr>) in
      case CheckBlock (block_env.truncate env) block (\<not> fJustCheck) (\<not> fJustCheck) st rejected of
        (False, st, rejected) \<Rightarrow> result False st rejected c
      | (True, st, rejected) \<Rightarrow>
          (case Cache_GetBestBlock V c of (best, c) \<Rightarrow>
             if (case prev of None \<Rightarrow> base_uint_zero 8 | Some p \<Rightarrow> phashBlock p) \<noteq> best then None
             else if env_blockHash env block = env_genesisHash env
             then (case phash of None \<Rightarrow> None | Some h \<Rightarrow> result True st rejected (SetBestBlock h c))
             else if nHeight pindex \<le> nLastPOWBlock (env_params env) \<and> CBlock_IsProofOfStake block
             then result False (snd (DoS 100 False REJECT_INVALID ''PoS-early'' False st)) rejected c
             else if nHeight pindex > nLastPOWBlock (env_params env) \<and> CBlock_IsProofOfWork block
             then result False (snd (DoS 100 False REJECT_INVALID ''PoW-ended'' False st)) rejected c
             else case (if phash = None then overwrites V (vtx block) c else (False, c)) of
               (True, c) \<Rightarrow> result False (snd (DoS 100 False REJECT_INVALID ''bad-txns-BIP30'' False st)) rejected c
             | (False, c) \<Rightarrow>
                 let strict = uint (nTime pindex) \<ge> 1333238400;
                     flags = (if strict then SCRIPT_VERIFY_P2SH else 0) OR SCRIPT_VERIFY_DERSIG;
                     cs = \<lparr>cs_view = c, cs_nFees = 0, cs_nInputs = 0, cs_nSigOps = 0,
                           cs_nTxOffset = of_nat (GetSizeOfCompactSize (of_nat (length (vtx block)))), cs_vPos = [],
                           cs_nValueOut = 0, cs_nValueIn = 0, cs_vtxundo = [], cs_checks = []\<rparr> in
                 case connect_loop V env (nHeight pindex \<ge> env_totalBlocksEstimate env) flags strict (nHeight pindex) 0 (vtx block) st cs of
                   None \<Rightarrow> None
                 | Some (Inl (st, c)) \<Rightarrow> result False st rejected c
                 | Some (Inr cs) \<Rightarrow> finish_block env io phash prev fJustCheck block pindex st rejected cs))"

section \<open>Reading does not change the coins\<close>

text \<open>The output an input refers to.\<close>

definition spent_output :: "utxo_set \<Rightarrow> CTxIn \<Rightarrow> CTxOut option" where
  "spent_output u txin =
     (case u (op_hash (prevout txin)) of
        None \<Rightarrow> None
      | Some coins \<Rightarrow> if IsAvailable coins (unat (op_n (prevout txin))) then Some (coins_vout coins ! unat (op_n (prevout txin))) else None)"

definition out_value :: "CTxOut option \<Rightarrow> CAmount" where
  "out_value r = (case r of None \<Rightarrow> 0 | Some out \<Rightarrow> nValue out)"

abbreviation value_in :: "utxo_set \<Rightarrow> CTxIn list \<Rightarrow> CAmount" where
  "value_in u ins \<equiv> sum_list (map (\<lambda>txin. out_value (spent_output u txin)) ins)"

text \<open>The conditions on a transaction that spends coins of the set \<open>u\<close> at a height.\<close>

definition mature :: "int \<Rightarrow> int \<Rightarrow> utxo_set \<Rightarrow> CTxIn \<Rightarrow> bool" where
  "mature maturity height u txin \<longleftrightarrow>
     (\<forall>coins. u (op_hash (prevout txin)) = Some coins \<longrightarrow> fCoinBase coins \<or> fCoinStake coins \<longrightarrow> maturity \<le> height - coins_nHeight coins)"

definition tx_check :: "utxo_set \<Rightarrow> flags \<Rightarrow> CTransaction \<Rightarrow> nat \<Rightarrow> CScriptCheck" where
  "tx_check u flags tx i =
     \<lparr>check_scriptPubKey = scriptPubKey (the (spent_output u (vin tx ! i))), check_ptxTo = tx, check_nIn = i, check_nFlags = flags\<rparr>"

definition valid_spend :: "CAmount \<Rightarrow> int \<Rightarrow> int \<Rightarrow> utxo_set \<Rightarrow> CTransaction \<Rightarrow> bool" where
  "valid_spend maxMoneyOut maturity height u tx \<longleftrightarrow>
     (\<forall>txin\<in>set (vin tx). spent_output u txin \<noteq> None \<and> mature maturity height u txin \<and> 0 \<le> out_value (spent_output u txin)) \<and>
     value_in u (vin tx) \<le> maxMoneyOut \<and>
     (IsCoinStake tx \<or> (\<exists>v. GetValueOut tx = Inr v \<and> v \<le> value_in u (vin tx)))"

text \<open>What is left of the scripts of a transaction: checks to run later, or none if they ran.\<close>

definition scripts_pending ::
    "(bytes \<Rightarrow> bytes \<Rightarrow> bytes \<Rightarrow> bool) \<Rightarrow> bool \<Rightarrow> flags \<Rightarrow> bool \<Rightarrow> utxo_set \<Rightarrow> CTransaction \<Rightarrow> CScriptCheck list \<Rightarrow> bool" where
  "scripts_pending verify fScriptChecks flags par u tx cks \<longleftrightarrow>
     (if \<not> fScriptChecks then cks = []
      else if par then cks = map (tx_check u flags tx) [0..<length (vin tx)]
      else cks = [] \<and> (\<forall>i<length (vin tx). run_check verify (tx_check u flags tx i) = Some (Inr ())))"

text \<open>The sums of a transaction and of a block.\<close>

definition out_sum :: "CTransaction \<Rightarrow> CAmount" where
  "out_sum tx = (case GetValueOut tx of Inl _ \<Rightarrow> 0 | Inr v \<Rightarrow> v)"

definition in_sum :: "utxo_set \<Rightarrow> CTransaction \<Rightarrow> CAmount" where
  "in_sum u tx = (if IsCoinBase tx then 0 else value_in u (vin tx))"

definition tx_fee :: "utxo_set \<Rightarrow> CTransaction \<Rightarrow> CAmount" where
  "tx_fee u tx = (if IsCoinBase tx \<or> IsCoinStake tx then 0 else in_sum u tx - out_sum tx)"

fun minted :: "CTransaction list \<Rightarrow> int \<Rightarrow> utxo_set \<Rightarrow> CAmount" where
  "minted [] height u = 0"
| "minted (tx # txs) height u =
     out_sum tx - in_sum u tx + (case spec_update tx height u of None \<Rightarrow> 0 | Some (us, u') \<Rightarrow> minted txs height u')"

fun block_fees :: "CTransaction list \<Rightarrow> int \<Rightarrow> utxo_set \<Rightarrow> CAmount" where
  "block_fees [] height u = 0"
| "block_fees (tx # txs) height u =
     tx_fee u tx + (case spec_update tx height u of None \<Rightarrow> 0 | Some (us, u') \<Rightarrow> block_fees txs height u')"

text \<open>The transactions of a block: each spends coins that are there when its turn comes, and its scripts succeed.\<close>

fun valid_txs :: "'e connect_env_scheme \<Rightarrow> bool \<Rightarrow> flags \<Rightarrow> CTransaction list \<Rightarrow> int \<Rightarrow> utxo_set \<Rightarrow> bool" where
  "valid_txs env fScriptChecks flags [] height u \<longleftrightarrow> True"
| "valid_txs env fScriptChecks flags (tx # txs) height u \<longleftrightarrow>
     (\<not> IsCoinBase tx \<longrightarrow> valid_spend (env_maxMoneyOut env) (env_maturity env) height u tx \<and>
        (fScriptChecks \<longrightarrow> (\<forall>i<length (vin tx). run_check (env_verify env) (tx_check u flags tx i) = Some (Inr ())))) \<and>
     (case spec_update tx height u of None \<Rightarrow> False | Some (us, u') \<Rightarrow> valid_txs env fScriptChecks flags txs height u')"

lemma wrap64_mod: "wrap64 (wrap64 a + b) = wrap64 (a + b)" "wrap64 (a + wrap64 b) = wrap64 (a + b)" "wrap64 (wrap64 a - b) = wrap64 (a - b)"
    "wrap64 (a - wrap64 b) = wrap64 (a - b)" "wrap64 (wrap64 a) = wrap64 a"
  by (simp_all add: wrap64_def)

text \<open>The undo data with given records.\<close>

abbreviation mk_undo :: "CTxInUndo list \<Rightarrow> CTxUndo" where
  "mk_undo us \<equiv> \<lparr>vprevout = us\<rparr>"

lemma wrap_diff:
  "wrap64 b' = wrap64 b \<Longrightarrow> wrap64 (wrap64 a - b' + m) = wrap64 (a - b + m)"
  by (metis wrap64_mod(1,3,4))

lemma IsAvailable_not_pruned: "IsAvailable coins n \<Longrightarrow> \<not> IsPruned coins"
  by (auto simp: IsAvailable_def IsPruned_def list_all_length)

context coin_client
begin

definition reads :: "'v CCoinsViewCache \<Rightarrow> 'v CCoinsViewCache \<Rightarrow> bool" where
  "reads c c' \<longleftrightarrow> cinv c' \<and> cutxo c' = cutxo c \<and> cbest c' = cbest c"

lemma reads_refl: "cinv c \<Longrightarrow> reads c c" by (simp add: reads_def)

lemma reads_trans: "reads a b \<Longrightarrow> reads b c \<Longrightarrow> reads a c" by (simp add: reads_def)

lemma AccessCoins_reads:
  assumes "cinv c" "AccessCoins V c t = (r, c')"
  shows "reads c c'" "live r = cutxo c t"
proof -
  obtain it where it: "FetchCoins V c t = (it, c')" "r = map_option entry_coins it"
    using assms(2) by (auto simp: AccessCoins_def split: prod.splits)
  show "reads c c'" "live r = cutxo c t" using FetchCoins_spec [OF assms(1) it(1)] it(2) by (simp_all add: reads_def)
qed

lemma AccessCoins_Some:
  assumes "cinv c" "AccessCoins V c (op_hash (prevout txin)) = (Some coins, c')"
  shows "IsAvailable coins (unat (op_n (prevout txin))) \<Longrightarrow>
      spent_output (cutxo c) txin = Some (coins_vout coins ! unat (op_n (prevout txin)))"
    "\<not> IsAvailable coins (unat (op_n (prevout txin))) \<Longrightarrow> spent_output (cutxo c) txin = None"
proof -
  have live: "live (Some coins) = cutxo c (op_hash (prevout txin))" using AccessCoins_reads [OF assms] by simp
  have some: "\<not> IsPruned coins \<Longrightarrow> cutxo c (op_hash (prevout txin)) = Some coins"
    and none: "IsPruned coins \<Longrightarrow> cutxo c (op_hash (prevout txin)) = None" using live by simp_all
  show "IsAvailable coins (unat (op_n (prevout txin))) \<Longrightarrow>
      spent_output (cutxo c) txin = Some (coins_vout coins ! unat (op_n (prevout txin)))"
    using some IsAvailable_not_pruned by (simp add: spent_output_def)
  assume "\<not> IsAvailable coins (unat (op_n (prevout txin)))"
  then show "spent_output (cutxo c) txin = None"
    using some none by (cases "IsPruned coins") (simp_all add: spent_output_def)
qed

lemma GetOutputFor_reads:
  assumes "cinv c" "GetOutputFor V txin c = Some (out, c')"
  shows "reads c c'" "spent_output (cutxo c) txin = Some out"
  using assms AccessCoins_reads(1) [OF assms(1)] AccessCoins_Some(1) [OF assms(1)]
  by (auto simp: GetOutputFor_def split: prod.splits option.splits if_splits)

lemma value_in_loop_reads:
  assumes "cinv c" "value_in_loop V ins n c = Some (v, c')"
  shows "reads c c' \<and> wrap64 v = wrap64 (n + value_in (cutxo c) ins)"
  using assms
proof (induction ins arbitrary: n c)
  case (Cons txin ins)
  obtain out c1 where g: "GetOutputFor V txin c = Some (out, c1)" "value_in_loop V ins (wrap64 (n + nValue out)) c1 = Some (v, c')"
    using Cons.prems(2) by (auto split: option.splits)
  note r = GetOutputFor_reads [OF Cons.prems(1) g(1)]
  have "cinv c1" "cutxo c1 = cutxo c" using r(1) by (simp_all add: reads_def)
  then have "reads c1 c'" "wrap64 v = wrap64 (wrap64 (n + nValue out) + value_in (cutxo c) ins)" using Cons.IH [OF _ g(2)] by simp_all
  then show ?case using r reads_trans by (auto simp: wrap64_mod out_value_def add.assoc)
qed (simp add: reads_refl)

lemma GetValueIn_reads:
  assumes "cinv c" "GetValueIn V tx c = Some (v, c')" "\<not> IsCoinBase tx"
  shows "reads c c' \<and> wrap64 v = wrap64 (value_in (cutxo c) (vin tx))"
  using value_in_loop_reads [OF assms(1), of "vin tx" 0 v c'] assms(2,3) by (simp add: GetValueIn_def)

lemma have_inputs_reads:
  assumes "cinv c" "have_inputs_loop V ins c = (b, c')"
  shows "reads c c' \<and> (b \<longleftrightarrow> (\<forall>txin\<in>set ins. spent_output (cutxo c) txin \<noteq> None))"
  using assms
proof (induction ins arbitrary: c)
  case (Cons txin ins)
  obtain r c1 where a: "AccessCoins V c (op_hash (prevout txin)) = (r, c1)" by fastforce
  note R = AccessCoins_reads [OF Cons.prems(1) a]
  show ?case
  proof (cases "\<exists>coins. r = Some coins \<and> IsAvailable coins (unat (op_n (prevout txin)))")
    case True
    then obtain coins where coins: "r = Some coins" "IsAvailable coins (unat (op_n (prevout txin)))" by blast
    then have "have_inputs_loop V ins c1 = (b, c')" "cinv c1" "cutxo c1 = cutxo c" using Cons.prems(2) a R(1) by (simp_all add: reads_def)
    then show ?thesis
      using Cons.IH [of c1] R(1) reads_trans AccessCoins_Some(1) [OF Cons.prems(1)] a coins by auto
  next
    case False
    then have "b = False" "c' = c1" using Cons.prems(2) a by (auto split: option.splits if_splits)
    moreover have "spent_output (cutxo c) txin = None"
      using False R(2) AccessCoins_Some(2) [OF Cons.prems(1)] a by (cases r) (auto simp: spent_output_def)
    ultimately show ?thesis using R(1) by simp
  qed
qed (auto simp: reads_refl)

lemma p2sh_sigops_reads: "cinv c \<Longrightarrow> p2sh_sigops V ins n c = Some (k, c') \<Longrightarrow> reads c c'"
proof (induction ins arbitrary: n c)
  case (Cons txin ins)
  then obtain out c1 n' where "GetOutputFor V txin c = Some (out, c1)" "p2sh_sigops V ins n' c1 = Some (k, c')"
    by (auto split: option.splits)
  then show ?case using Cons.IH GetOutputFor_reads(1) [OF Cons.prems(1)] reads_trans by (metis reads_def)
qed (simp add: reads_refl)

text \<open>An input that was found available is found again.\<close>

lemma AccessCoins_again:
  assumes "cinv c" "spent_output (cutxo c) txin \<noteq> None" "AccessCoins V c (op_hash (prevout txin)) = (r, c')"
  obtains coins where "r = Some coins" "cutxo c (op_hash (prevout txin)) = Some coins" "unat (op_n (prevout txin)) < length (coins_vout coins)"
    "spent_output (cutxo c) txin = Some (coins_vout coins ! unat (op_n (prevout txin)))"
proof -
  obtain coins where coins: "cutxo c (op_hash (prevout txin)) = Some coins" "IsAvailable coins (unat (op_n (prevout txin)))"
    using assms(2) by (auto simp: spent_output_def split: option.splits if_splits)
  then have "r = Some coins" using AccessCoins_reads(2) [OF assms(1,3)] live_eq_Some [of r coins] by simp
  then show thesis using that [of coins] coins by (simp add: spent_output_def IsAvailable_def)
qed

lemma input_values_reads:
  assumes "cinv c" "0 \<le> n" "n \<le> maxMoneyOut" "maxMoneyOut < 2 ^ 62" "\<forall>txin\<in>set ins. spent_output (cutxo c) txin \<noteq> None"
    and "input_values V maxMoneyOut maturity height st ins n c = Some (r, c')"
  shows "reads c c' \<and> (\<forall>v. r = Inr v \<longrightarrow> v = n + value_in (cutxo c) ins \<and> v \<le> maxMoneyOut \<and>
      (\<forall>txin\<in>set ins. mature maturity height (cutxo c) txin \<and> 0 \<le> out_value (spent_output (cutxo c) txin))) \<and>
    (\<forall>ret st'. r = Inl (ret, st') \<longrightarrow> \<not> ret)"
  using assms
proof (induction ins arbitrary: n c)
  case (Cons txin ins)
  obtain a c1 where a: "AccessCoins V c (op_hash (prevout txin)) = (a, c1)" by fastforce
  then obtain coins where coins: "a = Some coins" "cutxo c (op_hash (prevout txin)) = Some coins"
      "unat (op_n (prevout txin)) < length (coins_vout coins)"
      "spent_output (cutxo c) txin = Some (coins_vout coins ! unat (op_n (prevout txin)))"
    using AccessCoins_again [OF Cons.prems(1) _ a] Cons.prems(5) by auto
  define v where "v = nValue (coins_vout coins ! unat (op_n (prevout txin)))"
  have v: "out_value (spent_output (cutxo c) txin) = v" using coins(4) by (simp add: out_value_def v_def)
  have R: "reads c c1" using AccessCoins_reads(1) [OF Cons.prems(1) a] .
  show ?case
  proof (cases "((fCoinBase coins \<or> fCoinStake coins) \<and> height - coins_nHeight coins < maturity) \<or>
      \<not> MoneyRange maxMoneyOut v \<or> \<not> MoneyRange maxMoneyOut (wrap64 (n + v))")
    case True
    then have "\<exists>level code reason corr. r = Inl (DoS level False code reason corr st)" "c' = c1"
      using Cons.prems(6) a coins(1,3) by (auto simp: Let_def v_def [symmetric] Invalid_def split: if_splits)
    then show ?thesis using R by (auto simp: DoS_def Let_def split: if_splits)
  next
    case False
    then have range: "0 \<le> v" "v \<le> maxMoneyOut" by (auto simp: MoneyRange_def)
    then have "wrap64 (n + v) = n + v" using Cons.prems(2-4) by (intro wrap64_id) (simp add: is_int64_def)
    then have n: "0 \<le> n + v" "n + v \<le> maxMoneyOut" "input_values V maxMoneyOut maturity height st ins (n + v) c1 = Some (r, c')"
      using False Cons.prems(6) a coins(1,3) by (auto simp: Let_def v_def [symmetric] MoneyRange_def)
    have c1: "cinv c1" "cutxo c1 = cutxo c" using R by (simp_all add: reads_def)
    have "mature maturity height (cutxo c) txin" using False coins(2) by (auto simp: mature_def)
    then show ?thesis
      using Cons.IH [OF c1(1) n(1,2) Cons.prems(4) _ n(3)] Cons.prems(5) c1(2) R reads_trans v range by (auto simp: add.assoc)
  qed
qed (auto simp: reads_refl)

lemma check_scripts_reads:
  assumes "cinv c" "\<forall>i\<in>set is. spent_output (cutxo c) (vin tx ! i) \<noteq> None"
    and "check_scripts V verify flags par tx st is checks c = Some (r, c')"
  shows "reads c c' \<and> (\<forall>ret st'. r = Inl (ret, st') \<longrightarrow> \<not> ret) \<and> (\<forall>cks. r = Inr cks \<longrightarrow>
    (if par then cks = checks @ map (tx_check (cutxo c) flags tx) is
     else cks = checks \<and> (\<forall>i\<in>set is. run_check verify (tx_check (cutxo c) flags tx i) = Some (Inr ()))))"
  using assms
proof (induction "is" arbitrary: checks c)
  case (Cons i "is")
  obtain a c1 where a: "AccessCoins V c (op_hash (prevout (vin tx ! i))) = (a, c1)" by fastforce
  then obtain coins where coins: "a = Some coins" "unat (op_n (prevout (vin tx ! i))) < length (coins_vout coins)"
      "spent_output (cutxo c) (vin tx ! i) = Some (coins_vout coins ! unat (op_n (prevout (vin tx ! i))))"
    using AccessCoins_again [OF Cons.prems(1) _ a] Cons.prems(2) by auto
  have ck: "CScriptCheck_new coins tx i flags = tx_check (cutxo c) flags tx i"
    using coins(3) by (simp add: CScriptCheck_new_def tx_check_def)
  have R: "reads c c1" using AccessCoins_reads(1) [OF Cons.prems(1) a] .
  have c1: "cinv c1" "cutxo c1 = cutxo c" using R by (simp_all add: reads_def)
  have next_ok: "\<forall>i\<in>set is. spent_output (cutxo c1) (vin tx ! i) \<noteq> None" using Cons.prems(2) c1(2) by simp
  show ?case
  proof (cases par)
    case True
    then have "check_scripts V verify flags par tx st is (checks @ [tx_check (cutxo c) flags tx i]) c1 = Some (r, c')"
      using Cons.prems(3) a coins(1,2) ck by (simp add: Let_def)
    from Cons.IH [OF c1(1) next_ok this] show ?thesis using True c1(2) R reads_trans by auto
  next
    case False
    show ?thesis
    proof (cases "run_check verify (tx_check (cutxo c) flags tx i) = Some (Inr ())")
      case ok: True
      then have "check_scripts V verify flags par tx st is checks c1 = Some (r, c')"
        using False Cons.prems(3) a coins(1,2) ck by (simp add: Let_def)
      from Cons.IH [OF c1(1) next_ok this] show ?thesis using False c1(2) R ok reads_trans by auto
    next
      case bad: False
      then obtain err q where "refuse_script verify flags (tx_check (cutxo c) flags tx i) err st = Some q" "r = Inl q" "c' = c1"
        using False Cons.prems(3) a coins(1,2) ck by (auto simp: Let_def split: option.splits sum.splits)
      then show ?thesis
        using R by (auto simp: refuse_script_def Let_def Invalid_def DoS_def split: option.splits sum.splits if_splits)
    qed
  qed
qed (auto simp: reads_refl)

lemma check_fee_Inr:
  assumes "check_fee maxMoneyOut tx st n = Some r"
  shows "r = Inr () \<Longrightarrow> IsCoinStake tx \<or> (\<exists>v. GetValueOut tx = Inr v \<and> v \<le> n)" "r = Inl (ret, st') \<Longrightarrow> \<not> ret"
  using assms by (auto simp: check_fee_def Let_def DoS_def split: if_splits sum.splits)

lemma CheckInputs_reads:
  assumes "cinv c" "0 \<le> env_maxMoneyOut env" "env_maxMoneyOut env < 2 ^ 62" "\<not> IsCoinBase tx"
    and "CheckInputs V env tx st fScriptChecks flags par c = Some (ret, st', cks, c')"
  shows "reads c c' \<and> (ret \<longrightarrow> st' = st \<and> scripts_pending (env_verify env) fScriptChecks flags par (cutxo c) tx cks \<and>
    (\<exists>h. env_blockHeight env (cbest c) = Some h \<and> valid_spend (env_maxMoneyOut env) (env_maturity env) (h + 1) (cutxo c) tx))"
proof -
  obtain have_all c1 where h: "HaveInputs V tx c = (have_all, c1)" by fastforce
  then have H: "reads c c1" "have_all \<longleftrightarrow> (\<forall>txin\<in>set (vin tx). spent_output (cutxo c) txin \<noteq> None)"
    using have_inputs_reads [OF assms(1), of "vin tx" have_all c1] assms(4) by (simp_all add: HaveInputs_def)
  show ?thesis
  proof (cases have_all)
    case False
    then show ?thesis using assms(4,5) h H(1) by (auto simp: CheckInputs_def Invalid_def DoS_def Let_def split: if_splits)
  next
    case True
    obtain best c2 where b: "Cache_GetBestBlock V c1 = (best, c2)" by fastforce
    have "cinv c1" using H(1) by (simp add: reads_def)
    from GetBestBlock_cache [OF this b] have B: "best = cbest c1" "reads c1 c2" by (simp_all add: reads_def)
    have R2: "reads c c2" "cinv c2" "cutxo c2 = cutxo c" "best = cbest c" using H(1) B reads_trans by (auto simp: reads_def)
    obtain ph r c3 where ph: "env_blockHeight env best = Some ph"
        "input_values V (env_maxMoneyOut env) (env_maturity env) (ph + 1) st (vin tx) 0 c2 = Some (r, c3)"
      using assms(4,5) h True b by (auto simp: CheckInputs_def split: option.splits)
    have avail: "\<forall>txin\<in>set (vin tx). spent_output (cutxo c2) txin \<noteq> None" using H(2) True R2(3) by simp
    note I = input_values_reads [OF R2(2) order_refl assms(2,3) avail ph(2)]
    show ?thesis
    proof (cases r)
      case (Inl q)
      then show ?thesis using assms(4,5) h True b ph I R2(1) reads_trans by (cases q) (auto simp: CheckInputs_def)
    next
      case (Inr v)
      then have c3: "reads c c3" "cinv c3" "cutxo c3 = cutxo c" using I R2(1) reads_trans by (auto simp: reads_def)
      have v: "v = value_in (cutxo c) (vin tx)" "v \<le> env_maxMoneyOut env"
        "\<forall>txin\<in>set (vin tx). mature (env_maturity env) (ph + 1) (cutxo c) txin \<and> 0 \<le> out_value (spent_output (cutxo c) txin)"
        using I Inr R2(3) by auto
      obtain f where f: "check_fee (env_maxMoneyOut env) tx st v = Some f"
        using assms(4,5) h True b ph Inr by (auto simp: CheckInputs_def split: option.splits)
      show ?thesis
      proof (cases f)
        case (Inl q)
        then show ?thesis using assms(4,5) h True b ph Inr f check_fee_Inr(2) [OF f] c3(1) \<open>r = Inr v\<close>
          by (cases q) (auto simp: CheckInputs_def)
      next
        case fine: (Inr _)
        have valid: "valid_spend (env_maxMoneyOut env) (env_maturity env) (ph + 1) (cutxo c) tx"
          using check_fee_Inr(1) [OF f] fine v H(2) True by (auto simp: valid_spend_def)
        show ?thesis
        proof (cases fScriptChecks)
          case False
          then show ?thesis using assms(4,5) h True b ph Inr f fine c3(1) valid R2(4)
            by (auto simp: CheckInputs_def scripts_pending_def)
        next
          case scripts: True
          obtain q c4 where q: "check_scripts V (env_verify env) flags par tx st [0..<length (vin tx)] [] c3 = Some (q, c4)"
            using assms(4,5) h True b ph Inr f fine scripts by (auto simp: CheckInputs_def split: option.splits)
          have "\<forall>i\<in>set [0..<length (vin tx)]. spent_output (cutxo c3) (vin tx ! i) \<noteq> None" using H(2) True c3(3) by simp
          note S = check_scripts_reads [OF c3(2) this q]
          show ?thesis
          proof (cases q)
            case (Inl x)
            then show ?thesis using assms(4,5) h True b ph Inr f fine scripts q S c3(1) reads_trans
              by (cases x) (auto simp: CheckInputs_def)
          next
            case (Inr cs)
            then show ?thesis
              using assms(4,5) h True b ph \<open>r = Inr v\<close> f fine scripts q S c3(1,3) reads_trans valid R2(4)
              by (auto simp: CheckInputs_def scripts_pending_def)
          qed
        qed
      qed
    qed
  qed
qed

text \<open>The round of the loop: the coins move as \<open>spec_update\<close> says, and the sums are kept modulo \<open>2\<^sup>6\<^sup>4\<close>.\<close>

lemma connect_inputs_spec:
  assumes "cinv (cs_view cs)" "0 \<le> env_maxMoneyOut env" "env_maxMoneyOut env < 2 ^ 62" "\<not> IsCoinBase tx"
    and "connect_inputs V env fScriptChecks flags strict tx st cs = Some (Inr cs')"
  defines "u \<equiv> cutxo (cs_view cs)"
  obtains cks h where "reads (cs_view cs) (cs_view cs')" "cs_nValueIn cs' = wrap64 (cs_nValueIn cs + in_sum u tx)"
    "wrap64 (cs_nFees cs') = wrap64 (cs_nFees cs + tx_fee u tx)"
    "cs_nValueOut cs' = cs_nValueOut cs" "cs_vtxundo cs' = cs_vtxundo cs" "cs_checks cs' = cs_checks cs @ cks"
    "scripts_pending (env_verify env) fScriptChecks flags (env_scriptThreads env) u tx cks"
    "env_blockHeight env (cbest (cs_view cs)) = Some h" "valid_spend (env_maxMoneyOut env) (env_maturity env) (h + 1) u tx"
proof -
  let ?c = "cs_view cs"
  obtain c1 n c2 v c3 cks c4 st' nFees where
    have_all: "HaveInputs V tx ?c = (True, c1)" and
    p2sh: "(if strict then GetP2SHSigOpCount V tx c1 else Some (0, c1)) = Some (n, c2)" and
    vin: "GetValueIn V tx c2 = Some (v, c3)" and
    fees: "(if \<not> IsCoinStake tx then map_sum id (\<lambda>w. wrap64 (cs_nFees cs + wrap64 (v - w))) (GetValueOut tx)
      else Inr (cs_nFees cs)) = Inr nFees" and
    chk: "CheckInputs V env tx st fScriptChecks flags (env_scriptThreads env) c3 = Some (True, st', cks, c4)" and
    cs': "cs_view cs' = c4" "cs_nFees cs' = nFees" "cs_nValueIn cs' = wrap64 (cs_nValueIn cs + v)" "cs_nValueOut cs' = cs_nValueOut cs"
      "cs_vtxundo cs' = cs_vtxundo cs" "cs_checks cs' = cs_checks cs @ cks"
    using assms(5) unfolding connect_inputs_def
    by (auto simp: Let_def split: prod.splits bool.splits option.splits if_splits sum.splits)
  have r1: "reads ?c c1" using have_inputs_reads [OF assms(1), of "vin tx"] have_all assms(4) by (auto simp: HaveInputs_def)
  then have "cinv c1" by (simp add: reads_def)
  then have "reads c1 c2" using p2sh p2sh_sigops_reads [of c1 "vin tx" 0 n c2] assms(4)
    by (auto simp: GetP2SHSigOpCount_def reads_refl split: if_splits)
  with r1 have r2: "reads ?c c2" using reads_trans by blast
  then have "cinv c2" by (simp add: reads_def)
  from GetValueIn_reads [OF this vin assms(4)] have v: "wrap64 v = wrap64 (value_in u (vin tx))" and r3: "reads ?c c3"
    using r2 reads_trans by (auto simp: reads_def u_def)
  then have c3: "cinv c3" "cutxo c3 = u" "cbest c3 = cbest ?c" by (simp_all add: reads_def u_def)
  note C = CheckInputs_reads [OF c3(1) assms(2-4) chk]
  then have "reads ?c c4" using r3 reads_trans by blast
  moreover have "wrap64 (cs_nValueIn cs + v) = wrap64 (cs_nValueIn cs + in_sum u tx)" using assms(4) by (metis v wrap64_mod(2) in_sum_def)
  moreover have "wrap64 nFees = wrap64 (cs_nFees cs + tx_fee u tx)"
  proof (cases "IsCoinStake tx")
    case True
    then show ?thesis using fees by (simp add: tx_fee_def)
  next
    case False
    then obtain w where w: "GetValueOut tx = Inr w" "nFees = wrap64 (cs_nFees cs + wrap64 (v - w))"
      using fees by (cases "GetValueOut tx") auto
    have "wrap64 (v - w) = wrap64 (in_sum u tx - w)" using v assms(4) by (metis wrap64_mod(3) in_sum_def)
    then show ?thesis using w False assms(4) by (simp add: wrap64_mod tx_fee_def out_sum_def)
  qed
  ultimately show thesis using that [of cks] C c3 cs' by auto
qed

lemma connect_tx_spec:
  assumes "cinv (cs_view cs)" "0 \<le> env_maxMoneyOut env" "env_maxMoneyOut env < 2 ^ 62" "storable_tx tx height"
    and "connect_tx V env fScriptChecks flags strict height i tx st cs = Some (Inr cs')"
  defines "u \<equiv> cutxo (cs_view cs)"
  obtains us v cks h where "spec_update tx height u = Some (us, cutxo (cs_view cs'))" "cinv (cs_view cs')"
    "cbest (cs_view cs') = cbest (cs_view cs)" "GetValueOut tx = Inr v" "cs_nValueOut cs' = wrap64 (cs_nValueOut cs + v)"
    "wrap64 (cs_nValueIn cs') = wrap64 (cs_nValueIn cs + in_sum u tx)" "wrap64 (cs_nFees cs') = wrap64 (cs_nFees cs + tx_fee u tx)"
    "cs_vtxundo cs' = (if i > 0 then cs_vtxundo cs @ [\<lparr>vprevout = us\<rparr>] else cs_vtxundo cs)" "cs_checks cs' = cs_checks cs @ cks"
    "\<not> IsCoinBase tx \<longrightarrow> env_blockHeight env (cbest (cs_view cs)) = Some h \<and>
       valid_spend (env_maxMoneyOut env) (env_maturity env) (h + 1) u tx \<and>
       scripts_pending (env_verify env) fScriptChecks flags (env_scriptThreads env) u tx cks"
proof -
  define cs0 where "cs0 = cs\<lparr>cs_nInputs := cs_nInputs cs + int (length (vin tx)), cs_nSigOps := cs_nSigOps cs + GetLegacySigOpCount tx\<rparr>"
  obtain cs1 v txundo c where
    ins: "(if \<not> IsCoinBase tx then connect_inputs V env fScriptChecks flags strict tx st cs0 else Some (Inr cs0)) = Some (Inr cs1)" and
    out: "GetValueOut tx = Inr v" and
    upd: "UpdateCoins V tx \<lparr>vprevout = []\<rparr> height (cs_view cs1) = Some (txundo, c)" and
    cs': "cs_view cs' = c" "cs_nValueOut cs' = wrap64 (cs_nValueOut cs1 + v)" "cs_nValueIn cs' = cs_nValueIn cs1" "cs_nFees cs' = cs_nFees cs1"
      "cs_vtxundo cs' = (if i > 0 then cs_vtxundo cs1 @ [txundo] else cs_vtxundo cs1)" "cs_checks cs' = cs_checks cs1"
    using assms(5) unfolding connect_tx_def Let_def cs0_def [symmetric]
    by (auto simp: Let_def split: option.splits if_splits sum.splits)
  have same: "cs_view cs0 = cs_view cs" "cs_nValueIn cs0 = cs_nValueIn cs" "cs_nValueOut cs0 = cs_nValueOut cs"
    "cs_vtxundo cs0 = cs_vtxundo cs" "cs_checks cs0 = cs_checks cs" "cs_nFees cs0 = cs_nFees cs" by (simp_all add: cs0_def)
  have inputs: "\<exists>cks h. reads (cs_view cs) (cs_view cs1) \<and> cs_nValueOut cs1 = cs_nValueOut cs \<and>
      wrap64 (cs_nValueIn cs1) = wrap64 (cs_nValueIn cs + in_sum u tx) \<and> wrap64 (cs_nFees cs1) = wrap64 (cs_nFees cs + tx_fee u tx) \<and>
      cs_vtxundo cs1 = cs_vtxundo cs \<and> cs_checks cs1 = cs_checks cs @ cks \<and>
      (\<not> IsCoinBase tx \<longrightarrow> env_blockHeight env (cbest (cs_view cs)) = Some h \<and>
         valid_spend (env_maxMoneyOut env) (env_maturity env) (h + 1) u tx \<and>
         scripts_pending (env_verify env) fScriptChecks flags (env_scriptThreads env) u tx cks)"
  proof (cases "IsCoinBase tx")
    case True
    then show ?thesis using ins same assms(1) by (auto simp: reads_refl in_sum_def tx_fee_def)
  next
    case False
    then have "connect_inputs V env fScriptChecks flags strict tx st cs0 = Some (Inr cs1)" using ins by simp
    from connect_inputs_spec [OF _ assms(2,3) False this] show ?thesis using assms(1) same False by (fastforce simp: u_def wrap64_mod)
  qed
  then obtain cks h where I: "reads (cs_view cs) (cs_view cs1)" "cs_nValueOut cs1 = cs_nValueOut cs"
      "wrap64 (cs_nValueIn cs1) = wrap64 (cs_nValueIn cs + in_sum u tx)" "wrap64 (cs_nFees cs1) = wrap64 (cs_nFees cs + tx_fee u tx)"
      "cs_vtxundo cs1 = cs_vtxundo cs" "cs_checks cs1 = cs_checks cs @ cks"
      "\<not> IsCoinBase tx \<longrightarrow> env_blockHeight env (cbest (cs_view cs)) = Some h \<and>
         valid_spend (env_maxMoneyOut env) (env_maturity env) (h + 1) u tx \<and>
         scripts_pending (env_verify env) fScriptChecks flags (env_scriptThreads env) u tx cks" by blast
  have c1: "cinv (cs_view cs1)" "cutxo (cs_view cs1) = u" using I(1) by (simp_all add: reads_def u_def)
  from UpdateCoins_spec [OF c1(1) assms(4), of "\<lparr>vprevout = []\<rparr>"] obtain us where
    us: "spec_update tx height u = Some (us, cutxo c)" "txundo = \<lparr>vprevout = us\<rparr>" "cinv c" "cbest c = cbest (cs_view cs1)"
    using upd c1(2) by (auto split: option.splits)
  moreover have "cbest (cs_view cs1) = cbest (cs_view cs)" using I(1) by (simp add: reads_def)
  ultimately show thesis using that [of us v cks h] I(2-7) out cs' by auto
qed

lemma connect_loop_spec:
  assumes "cinv (cs_view cs)" "0 \<le> env_maxMoneyOut env" "env_maxMoneyOut env < 2 ^ 62" "list_all (\<lambda>tx. storable_tx tx height) txs"
    and "env_blockHeight env (cbest (cs_view cs)) = Some (height - 1)"
    and "connect_loop V env fScriptChecks flags strict height i txs st cs = Some (Inr cs')"
  defines "u \<equiv> cutxo (cs_view cs)"
  shows "\<exists>uss cks. spec_connect txs height u = Some (uss, cutxo (cs_view cs')) \<and> cinv (cs_view cs') \<and>
    cs_vtxundo cs' = cs_vtxundo cs @ map mk_undo (if i > 0 then uss else drop 1 uss) \<and> cs_checks cs' = cs_checks cs @ cks \<and>
    ((\<forall>ck\<in>set cks. run_check (env_verify env) ck = Some (Inr ())) \<longrightarrow> valid_txs env fScriptChecks flags txs height u) \<and>
    wrap64 (cs_nValueOut cs' - cs_nValueIn cs') = wrap64 (cs_nValueOut cs - cs_nValueIn cs + minted txs height u) \<and>
    wrap64 (cs_nFees cs') = wrap64 (cs_nFees cs + block_fees txs height u)"
  using assms(1,4-6) unfolding u_def
proof (induction txs arbitrary: i cs)
  case Nil
  then show ?case by simp
next
  case (Cons tx txs)
  obtain cs1 where step: "connect_tx V env fScriptChecks flags strict height i tx st cs = Some (Inr cs1)"
      "connect_loop V env fScriptChecks flags strict height (i + 1) txs st cs1 = Some (Inr cs')"
    using Cons.prems(4) by (auto split: option.splits sum.splits)
  let ?u = "cutxo (cs_view cs)" and ?u1 = "cutxo (cs_view cs1)"
  have st: "storable_tx tx height" using Cons.prems(2) by simp
  obtain us v cks h where T: "spec_update tx height ?u = Some (us, ?u1)" "cinv (cs_view cs1)"
      "cbest (cs_view cs1) = cbest (cs_view cs)" "GetValueOut tx = Inr v" "cs_nValueOut cs1 = wrap64 (cs_nValueOut cs + v)"
      "wrap64 (cs_nValueIn cs1) = wrap64 (cs_nValueIn cs + in_sum ?u tx)" "wrap64 (cs_nFees cs1) = wrap64 (cs_nFees cs + tx_fee ?u tx)"
      "cs_vtxundo cs1 = (if i > 0 then cs_vtxundo cs @ [\<lparr>vprevout = us\<rparr>] else cs_vtxundo cs)" "cs_checks cs1 = cs_checks cs @ cks"
      "\<not> IsCoinBase tx \<longrightarrow> env_blockHeight env (cbest (cs_view cs)) = Some h \<and>
         valid_spend (env_maxMoneyOut env) (env_maturity env) (h + 1) ?u tx \<and>
         scripts_pending (env_verify env) fScriptChecks flags (env_scriptThreads env) ?u tx cks"
    by (rule connect_tx_spec [OF Cons.prems(1) assms(2,3) st step(1)]) blast
  have "env_blockHeight env (cbest (cs_view cs1)) = Some (height - 1)" using T(3) Cons.prems(3) by simp
  from Cons.IH [OF T(2) _ this step(2)] Cons.prems(2) obtain uss cks' where L:
      "spec_connect txs height ?u1 = Some (uss, cutxo (cs_view cs'))" "cinv (cs_view cs')"
      "cs_vtxundo cs' = cs_vtxundo cs1 @ map mk_undo uss" "cs_checks cs' = cs_checks cs1 @ cks'"
      "(\<forall>ck\<in>set cks'. run_check (env_verify env) ck = Some (Inr ())) \<longrightarrow> valid_txs env fScriptChecks flags txs height ?u1"
      "wrap64 (cs_nValueOut cs' - cs_nValueIn cs') = wrap64 (cs_nValueOut cs1 - cs_nValueIn cs1 + minted txs height ?u1)"
      "wrap64 (cs_nFees cs') = wrap64 (cs_nFees cs1 + block_fees txs height ?u1)"
    by auto
  have "valid_txs env fScriptChecks flags (tx # txs) height ?u" if "\<forall>ck\<in>set (cks @ cks'). run_check (env_verify env) ck = Some (Inr ())"
    using that L(5) T(1,10) Cons.prems(3) by (auto simp: scripts_pending_def split: if_splits)
  moreover have "wrap64 (cs_nFees cs') = wrap64 (cs_nFees cs + block_fees (tx # txs) height ?u)"
    using L(7) T(1,7) by (metis (no_types, lifting) wrap64_mod(1) add.assoc block_fees.simps(2) case_prod_conv option.case(2))
  moreover have "wrap64 (cs_nValueOut cs' - cs_nValueIn cs') = wrap64 (cs_nValueOut cs - cs_nValueIn cs + minted (tx # txs) height ?u)"
  proof -
    have "minted (tx # txs) height ?u = v - in_sum ?u tx + minted txs height ?u1" using T(1,4) by (simp add: out_sum_def)
    then have "cs_nValueOut cs + v - (cs_nValueIn cs + in_sum ?u tx) + minted txs height ?u1 =
        cs_nValueOut cs - cs_nValueIn cs + minted (tx # txs) height ?u" by simp
    then show ?thesis using L(6) T(5) wrap_diff [OF T(6)] by metis
  qed
  moreover have "spec_connect (tx # txs) height ?u = Some (us # uss, cutxo (cs_view cs'))" using T(1) L(1) by simp
  ultimately show ?case using L(2-4) T(8,9) by (intro exI [of _ "us # uss"] exI [of _ "cks @ cks'"]) simp
qed

lemma finish_block_spec:
  assumes "finish_block env io (Some hash) (Some p) False block pindex st rejected cs = Some res" "cr_ret res"
  defines "expected \<equiv> GetBlockValue (nHeight p)"
  shows "cr_state res = st \<and> cr_view res = SetBestBlock hash (cs_view cs) \<and> cr_undo res = \<lparr>vtxundo = cs_vtxundo cs\<rparr> \<and>
    nMint (cr_pindex res) = wrap64 (cs_nValueOut cs - cs_nValueIn cs) \<and>
    (\<forall>ck\<in>set (cs_checks cs). run_check (env_verify env) ck = Some (Inr ())) \<and>
    IsBlockValueValid env block (if CBlock_IsProofOfWork block then wrap64 (expected + cs_nFees cs) else expected) (nMint (cr_pindex res))"
proof -
  define money where "money = wrap64 (wrap64 (nMoneySupply p + cs_nValueOut cs) - cs_nValueIn cs)"
  define pindex1 where "pindex1 = pindex\<lparr>nMoneySupply := money, nMint := wrap64 (money - nMoneySupply p)\<rparr>"
  have mint: "wrap64 (money - nMoneySupply p) = wrap64 (cs_nValueOut cs - cs_nValueIn cs)"
    by (simp add: money_def wrap64_mod algebra_simps)
  have keep: "nMint pindex' = nMint pindex1" if "write_undo io pindex1 st = Some (Inr pindex')" for pindex'
    using that by (auto simp: write_undo_def RaiseValidity_def Let_def split: option.splits if_splits sum.splits)
  from assms(1,2) show ?thesis
    unfolding finish_block_def option.case Let_def expected_def money_def [symmetric] pindex1_def [symmetric]
    using keep mint
    by (auto simp: Error_def pindex1_def list_ex_iff split: if_splits option.splits sum.splits)
qed

lemma CheckBlock_True:
  assumes "0 \<le> env_maxMoneyOut env" "env_maxMoneyOut env < 2 ^ 62" "mode st \<noteq> MODE_ERROR"
    and "CheckBlock (block_env.truncate env) block pow merkle st m = (True, st', m')"
  shows "block_ok (block_env.truncate env) block pow merkle" "st' = st" "m' = m"
proof -
  have "0 \<le> env_maxMoneyOut (block_env.truncate env)" "env_maxMoneyOut (block_env.truncate env) < 2 ^ 62"
    using assms(1,2) by (simp_all add: block_env.truncate_def)
  note C = CheckBlock_spec [OF this assms(3), of block pow merkle m]
  show "block_ok (block_env.truncate env) block pow merkle" using C assms(4) by force
  then have "CheckBlock (block_env.truncate env) block pow merkle st m = (True, st, m)" using C by blast
  then show "st' = st" "m' = m" using assms(4) by simp_all
qed

lemma ConnectBlock_spec:
  assumes "cinv c" "0 \<le> env_maxMoneyOut env" "env_maxMoneyOut env < 2 ^ 62" "mode st \<noteq> MODE_ERROR"
    and "ConnectBlock V env io (Some hash) pindex (Some p) False block st rejected c = Some res" "cr_ret res"
    and "env_blockHash env block \<noteq> env_genesisHash env" "nHeight pindex = nHeight p + 1"
    and "env_blockHeight env (phashBlock p) = Some (nHeight p)" "list_all (\<lambda>tx. storable_tx tx (nHeight pindex)) (vtx block)"
    and "length hash = 8"
  defines "u \<equiv> cutxo c" and "height \<equiv> nHeight pindex" and "expected \<equiv> GetBlockValue (nHeight p)"
    and "flags \<equiv> (if uint (nTime pindex) \<ge> 1333238400 then SCRIPT_VERIFY_P2SH else 0) OR SCRIPT_VERIFY_DERSIG"
  shows "\<exists>uss. cbest c = phashBlock p \<and> block_ok (block_env.truncate env) block True True \<and> cr_state res = st \<and>
    spec_connect (vtx block) height u = Some (uss, cutxo (cr_view res)) \<and> cinv (cr_view res) \<and> hashBlock (cr_view res) = hash \<and>
    cr_undo res = \<lparr>vtxundo = map mk_undo (drop 1 uss)\<rparr> \<and>
    valid_txs env (height \<ge> env_totalBlocksEstimate env) flags (vtx block) height u \<and>
    nMint (cr_pindex res) = wrap64 (minted (vtx block) height u) \<and>
    IsBlockValueValid env block (if CBlock_IsProofOfWork block then wrap64 (expected + block_fees (vtx block) height u) else expected)
      (nMint (cr_pindex res))"
proof -
  obtain st1 rej1 c1 cs where
    chk: "CheckBlock (block_env.truncate env) block True True st rejected = (True, st1, rej1)" and
    best: "Cache_GetBestBlock V c = (phashBlock p, c1)" and
    loop: "connect_loop V env (height \<ge> env_totalBlocksEstimate env) flags (uint (nTime pindex) \<ge> 1333238400) height 0 (vtx block) st1
      \<lparr>cs_view = c1, cs_nFees = 0, cs_nInputs = 0, cs_nSigOps = 0,
       cs_nTxOffset = of_nat (GetSizeOfCompactSize (of_nat (length (vtx block)))), cs_vPos = [],
       cs_nValueOut = 0, cs_nValueIn = 0, cs_vtxundo = [], cs_checks = []\<rparr> = Some (Inr cs)" (is "connect_loop _ _ _ _ _ _ _ _ _ ?cs = _") and
    fin: "finish_block env io (Some hash) (Some p) False block pindex st1 rej1 cs = Some res"
    using assms(5-7) unfolding ConnectBlock_def flags_def height_def Let_def
    by (auto split: prod.splits bool.splits if_splits option.splits sum.splits)
  note C = CheckBlock_True [OF assms(2-4) chk]
  from GetBestBlock_cache [OF assms(1) best] have c1: "cinv c1" "cutxo c1 = u" "phashBlock p = cbest c" "cbest c1 = cbest c"
    by (simp_all add: u_def)
  have bh: "env_blockHeight env (cbest (cs_view ?cs)) = Some (height - 1)" using c1(3,4) assms(8,9) by (simp add: height_def)
  have "cinv (cs_view ?cs)" "list_all (\<lambda>tx. storable_tx tx height) (vtx block)" using c1(1) assms(10) by (simp_all add: height_def)
  from connect_loop_spec [OF this(1) assms(2,3) this(2) bh loop] obtain uss where L:
      "spec_connect (vtx block) height u = Some (uss, cutxo (cs_view cs))" "cinv (cs_view cs)" "cs_vtxundo cs = map mk_undo (drop 1 uss)"
      "(\<forall>ck\<in>set (cs_checks cs). run_check (env_verify env) ck = Some (Inr ())) \<longrightarrow>
        valid_txs env (height \<ge> env_totalBlocksEstimate env) flags (vtx block) height u"
      "wrap64 (cs_nValueOut cs - cs_nValueIn cs) = wrap64 (minted (vtx block) height u)"
      "wrap64 (cs_nFees cs) = wrap64 (block_fees (vtx block) height u)"
    using c1(2) by auto
  note F = finish_block_spec [OF fin assms(6)]
  have "cinv (SetBestBlock hash (cs_view cs))" "cutxo (SetBestBlock hash (cs_view cs)) = cutxo (cs_view cs)"
    using L(2) assms(11) by (auto simp: SetBestBlock_def cache_inv_def cache_utxo_hashBlock)
  moreover have "wrap64 (expected + cs_nFees cs) = wrap64 (expected + block_fees (vtx block) height u)" by (metis L(6) wrap64_mod(2))
  ultimately show ?thesis using C c1(3) L F by (auto simp: SetBestBlock_def expected_def)
qed

end

end
