(* ===== verification/Conservation.thy ===== *)
theory Conservation
  imports BlockConnect
begin

text \<open>
  What connecting a block does to the money: the total of the unspent coins grows by exactly what the block mints, less what its
  unspendable outputs burn, and disconnecting the block takes all of it back.  The limits on the amount minted are those of
  \<^verbatim>\<open>ConnectBlock\<close> in \<^verbatim>\<open>src/src/main.cpp\<close> and \<^verbatim>\<open>IsBlockValueValid\<close> in \<^verbatim>\<open>src/src/masternode-payments.cpp\<close>.
\<close>

section \<open>The total of the coins\<close>

definition live_value :: "CTxOut \<Rightarrow> CAmount" where
  "live_value out = (if CTxOut_IsNull out then 0 else nValue out)"

definition coins_value :: "CCoins \<Rightarrow> CAmount" where
  "coins_value coins = sum_list (map live_value (coins_vout coins))"

definition entry_value :: "CCoins option \<Rightarrow> CAmount" where
  "entry_value x = (case x of None \<Rightarrow> 0 | Some coins \<Rightarrow> coins_value coins)"

definition coin_total :: "utxo_set \<Rightarrow> CAmount" where
  "coin_total u = (\<Sum>t\<in>dom u. entry_value (u t))"

lemma coin_total_update: "finite (dom u) \<Longrightarrow> coin_total (u(t := x)) = coin_total u - entry_value (u t) + entry_value x"
proof -
  assume fin: "finite (dom u)"
  have sum_on: "coin_total w = (\<Sum>s\<in>A. entry_value (w s))" if "finite A" "dom w \<subseteq> A" for w A
    unfolding coin_total_def by (rule sum.mono_neutral_left) (use that in \<open>auto simp: entry_value_def dom_def\<close>)
  let ?A = "insert t (dom u)"
  have "coin_total (u(t := x)) = (\<Sum>s\<in>?A. entry_value ((u(t := x)) s))" using fin by (intro sum_on) (auto split: if_splits)
  also have "\<dots> = entry_value x + (\<Sum>s\<in>?A - {t}. entry_value (u s))"
    using fin by (subst sum.remove [where x = t]) (auto intro!: sum.cong)
  also have "(\<Sum>s\<in>?A - {t}. entry_value (u s)) = coin_total u - entry_value (u t)"
    using fin sum_on [of ?A u, OF _ subset_insertI] by (simp add: sum.remove [where x = t and A = ?A])
  finally show ?thesis by (simp only: add.commute)
qed

lemma sum_list_update_int: "n < length xs \<Longrightarrow> sum_list (xs[n := x]) = sum_list xs + x - xs ! n" for xs :: "int list"
  by (induction xs arbitrary: n) (auto simp: nth_Cons split: nat.splits)

lemma live_value_null: "list_all CTxOut_IsNull outs \<Longrightarrow> sum_list (map live_value outs) = 0"
  by (induction outs) (auto simp: live_value_def)

lemma drop_spent_value: "sum_list (map live_value (drop_spent outs)) = sum_list (map live_value outs)"
proof -
  obtain ns where ns: "outs = drop_spent outs @ ns" "list_all CTxOut_IsNull ns" using drop_spent_split by blast
  then have "sum_list (map live_value outs) = sum_list (map live_value (drop_spent outs)) + sum_list (map live_value ns)"
    by (metis map_append sum_list_append)
  then show ?thesis using live_value_null [OF ns(2)] by simp
qed

lemma entry_value_live [simp]: "entry_value (live (Some coins)) = coins_value coins"
  by (cases "IsPruned coins") (auto simp: entry_value_def coins_value_def IsPruned_def live_value_null)

lemma Spend_value:
  assumes "Spend out coins = Some (undo, coins')"
  shows "coins_value coins' = coins_value coins - nValue (undo_txout undo)"
    "undo_txout undo = coins_vout coins ! unat (op_n out)"
proof -
  note S = Spend_spec [OF assms]
  let ?n = "unat (op_n out)"
  show u: "undo_txout undo = coins_vout coins ! ?n" using S(4) by (simp add: CTxInUndo_of_def split: if_splits)
  have "sum_list (map live_value ((coins_vout coins)[?n := CTxOut_null])) = sum_list (map live_value (coins_vout coins)) - nValue (coins_vout coins ! ?n)"
    using S(1,2) by (simp add: map_update sum_list_update_int) (simp add: live_value_def CTxOut_IsNull_def CTxOut_null_def)
  then show "coins_value coins' = coins_value coins - nValue (undo_txout undo)"
    using S(3) u by (simp add: coins_value_def drop_spent_value)
qed

text \<open>Spending an output leaves the others where they were.\<close>

lemma spent_output_after:
  assumes "u (op_hash out) = Some coins" "Spend out coins = Some (undo, coins')" "prevout txin \<noteq> out"
    and "spent_output (u(op_hash out := live (Some coins'))) txin = Some x"
  shows "spent_output u txin = Some x"
proof (cases "op_hash (prevout txin) = op_hash out")
  case False
  then show ?thesis using assms(4) by (simp add: spent_output_def)
next
  case True
  let ?n = "unat (op_n (prevout txin))"
  have "\<not> IsPruned coins'" "IsAvailable coins' ?n" "x = coins_vout coins' ! ?n"
    using assms(4) True by (auto simp: spent_output_def live_def split: option.splits if_splits)
  moreover have "?n \<noteq> unat (op_n out)" using assms(3) True by (cases "prevout txin"; cases out) (auto simp: word_unat_eq_iff)
  moreover note S = Spend_spec(3) [OF assms(2)]
  obtain ns where "(coins_vout coins)[unat (op_n out) := CTxOut_null] = coins_vout coins' @ ns"
    using drop_spent_split [of "(coins_vout coins)[unat (op_n out) := CTxOut_null]"] S by auto
  then have "\<And>k. k < length (coins_vout coins') \<Longrightarrow> (coins_vout coins)[unat (op_n out) := CTxOut_null] ! k = coins_vout coins' ! k"
    "length (coins_vout coins') \<le> length (coins_vout coins)"
    by (metis nth_append, metis length_append length_list_update le_add1)
  moreover from this(1) [of ?n] have "coins_vout coins ! ?n = coins_vout coins' ! ?n"
    using \<open>?n \<noteq> unat (op_n out)\<close> \<open>IsAvailable coins' ?n\<close> by (simp add: IsAvailable_def)
  ultimately have "IsAvailable coins ?n" "coins_vout coins ! ?n = x" by (auto simp: IsAvailable_def)
  then show ?thesis using True assms(1) by (simp add: spent_output_def)
qed

lemma spec_spends_total:
  assumes "spec_spends ins u = Some (us, u')" "finite (dom u)" "distinct (map prevout ins)"
  shows "finite (dom u') \<and> coin_total u' = coin_total u - value_in u ins \<and> (\<forall>txin\<in>set ins. spent_output u txin \<noteq> None)"
  using assms
proof (induction ins arbitrary: u us)
  case (Cons txin ins)
  let ?t = "op_hash (prevout txin)"
  obtain coins undo coins' us' where s: "u ?t = Some coins" "Spend (prevout txin) coins = Some (undo, coins')"
      "spec_spends ins (u(?t := live (Some coins'))) = Some (us', u')"
    using Cons.prems(1) by (auto split: option.splits)
  define u1 where "u1 = u(?t := live (Some coins'))"
  have next_spends: "spec_spends ins u1 = Some (us', u')" using s(3) by (simp only: u1_def)
  have fin: "finite (dom u1)" using Cons.prems(2) by (rule finite_subset [rotated, OF finite.insertI [of _ ?t]]) (auto simp: u1_def split: if_splits)
  have dist: "distinct (map prevout ins)" using Cons.prems(3) by simp
  note IH = Cons.IH [OF next_spends fin dist]
  have same: "spent_output u i = spent_output u1 i" if i: "i \<in> set ins" for i
  proof -
    have "prevout txin \<notin> prevout ` set ins" using Cons.prems(3) by simp
    then have "prevout i \<noteq> prevout txin" using i by (metis imageI)
    moreover obtain x where "spent_output u1 i = Some x" using IH dist i by blast
    ultimately show ?thesis using spent_output_after [of u "prevout txin" coins undo coins' i x] s(1,2) by (metis u1_def)
  qed
  have here: "spent_output u txin = Some (undo_txout undo)"
    using s(1,2) Spend_spec(1,2) [OF s(2)] Spend_value(2) [OF s(2)] by (simp add: spent_output_def IsAvailable_def)
  have "value_in u1 ins = value_in u ins" using same by (intro arg_cong [where f = sum_list] map_cong) auto
  moreover have "coin_total u1 = coin_total u - nValue (undo_txout undo)"
    using coin_total_update [OF Cons.prems(2), of ?t] s(1) Spend_value(1) [OF s(2)] by (simp add: u1_def entry_value_def [of "Some coins"])
  moreover have "finite (dom u')" "coin_total u' = coin_total u1 - value_in u1 ins" using IH by blast+
  moreover have "\<forall>i\<in>set (txin # ins). spent_output u i \<noteq> None" using IH here same by auto
  ultimately show ?case using here by (simp add: out_value_def)
qed simp

text \<open>The value of the outputs that can never be spent.\<close>

definition burned :: "CTransaction \<Rightarrow> CAmount" where
  "burned tx = sum_list (map (\<lambda>out. if IsUnspendable (scriptPubKey out) then nValue out else 0) (vout tx))"

lemma new_coins_value:
  assumes "\<forall>out\<in>set (vout tx). 0 \<le> nValue out"
  shows "coins_value (CCoins_of tx height) = sum_list (map nValue (vout tx)) - burned tx"
proof -
  let ?g = "\<lambda>out. if IsUnspendable (scriptPubKey out) then CTxOut_SetNull out else out"
  have "coins_vout (CCoins_of tx height) = drop_spent (map ?g (vout tx))"
    by (simp add: CCoins_of_def FromTx_def ClearUnspendable_def Cleanup_def)
  then have "coins_value (CCoins_of tx height) = sum_list (map live_value (map ?g (vout tx)))"
    by (simp only: coins_value_def drop_spent_value)
  also have "sum_list (map live_value (map ?g outs)) =
      sum_list (map nValue outs) - sum_list (map (\<lambda>out. if IsUnspendable (scriptPubKey out) then nValue out else 0) outs)"
    if "\<forall>out\<in>set outs. 0 \<le> nValue out" for outs
    using that by (induction outs) (auto simp: live_value_def CTxOut_IsNull_def CTxOut_null_def)
  finally show ?thesis using assms by (simp add: burned_def)
qed

text \<open>The value of the unspent coins that a new record replaces, for one transaction and for those of a block in turn.\<close>

definition replaced :: "CTransaction \<Rightarrow> utxo_set \<Rightarrow> CAmount" where
  "replaced tx u =
     (case (if IsCoinBase tx then Some ([], u) else spec_spends (vin tx) u) of None \<Rightarrow> 0 | Some (us, u1) \<Rightarrow> entry_value (u1 (tx_hash tx)))"

fun overwritten :: "CTransaction list \<Rightarrow> int \<Rightarrow> utxo_set \<Rightarrow> CAmount" where
  "overwritten [] height u = 0"
| "overwritten (tx # txs) height u =
     replaced tx u + (case spec_update tx height u of None \<Rightarrow> 0 | Some (us, u') \<Rightarrow> overwritten txs height u')"

lemma overwritten_none: "no_overwrite txs height u \<Longrightarrow> overwritten txs height u = 0"
proof (induction txs arbitrary: u)
  case (Cons tx txs)
  have "replaced tx u = 0"
    using Cons.prems spec_spends_None [of "vin tx" u] by (auto simp: replaced_def entry_value_def split: option.splits)
  then show ?case using Cons by (auto split: option.splits)
qed simp

lemma spec_update_total:
  assumes "spec_update tx height u = Some (us, u')" "finite (dom u)" "tx_ok maxMoneyOut tx" "maxMoneyOut < 2 ^ 62"
  shows "finite (dom u') \<and> coin_total u' = coin_total u + (out_sum tx - in_sum u tx) - burned tx - replaced tx u"
proof -
  obtain u1 where u1: "(if \<not> IsCoinBase tx then spec_spends (vin tx) u else Some ([], u)) = Some (us, u1)"
      "u' = u1(tx_hash tx := live (Some (CCoins_of tx height)))"
    using assms(1) by (auto simp: spec_update_def)
  have dist: "distinct (map prevout (vin tx))" using assms(3) by (simp add: tx_ok_def)
  have s: "finite (dom u1)" "coin_total u1 = coin_total u - in_sum u tx"
    using u1(1) spec_spends_total [OF _ assms(2) dist] assms(2) by (auto simp: in_sum_def split: if_splits)
  have "replaced tx u = entry_value (u1 (tx_hash tx))" using u1(1) by (auto simp: replaced_def split: if_splits)
  then have "coin_total u' = coin_total u1 - replaced tx u + coins_value (CCoins_of tx height)"
    using coin_total_update [OF s(1), of "tx_hash tx"] u1(2) by simp
  moreover have "out_sum tx = sum_list (map nValue (vout tx))" using tx_ok_value [OF assms(3,4)] by (simp add: out_sum_def)
  moreover have "coins_value (CCoins_of tx height) = sum_list (map nValue (vout tx)) - burned tx"
    using assms(3) by (intro new_coins_value) (simp add: tx_ok_def)
  moreover have "finite (dom u')" using s(1) u1(2) by (auto intro!: finite_subset [of "dom u'" "insert (tx_hash tx) (dom u1)"] split: if_splits)
  ultimately show ?thesis using s(2) by simp
qed

lemma spec_connect_total:
  assumes "spec_connect txs height u = Some (uss, u')" "finite (dom u)" and "list_all (tx_ok maxMoneyOut) txs" "maxMoneyOut < 2 ^ 62"
  shows "finite (dom u') \<and> coin_total u' = coin_total u + minted txs height u - sum_list (map burned txs) - overwritten txs height u"
  using assms(1-3)
proof (induction txs arbitrary: u uss)
  case (Cons tx txs)
  obtain us u1 uss' where s: "spec_update tx height u = Some (us, u1)" "spec_connect txs height u1 = Some (uss', u')"
    using Cons.prems(1) by (auto split: option.splits)
  have "finite (dom u1) \<and> coin_total u1 = coin_total u + (out_sum tx - in_sum u tx) - burned tx - replaced tx u"
    using spec_update_total [OF s(1) Cons.prems(2)] Cons.prems(3) assms(4) by auto
  then show ?case using Cons.IH [OF s(2)] Cons.prems(3) s(1) by auto
qed simp

section \<open>The limit of the amount minted\<close>

text \<open>The blocks whose reward is not checked: without a tip; while the budget is not known, the first hundred of every budget cycle; and
  the blocks that pay a budget, when superblocks are enabled.  The height is the one above the parent, or zero if the parent is not known.\<close>

definition value_exempt :: "'e connect_env_scheme \<Rightarrow> CBlock \<Rightarrow> bool" where
  "value_exempt env block \<longleftrightarrow>
     env_tip env = None \<or>
     (\<exists>h. (parent_height (block_env.truncate env) block (h - 1) \<or> h = 0 \<and> (\<forall>g. \<not> parent_height (block_env.truncate env) block g)) \<and>
          (env_mnSynced env \<and> env_superblocks env \<and> env_budgetBlock env h \<or> \<not> env_mnSynced env \<and> h smod env_budgetCycle env < 100))"

lemma IsBlockValueValid_iff: "IsBlockValueValid env block nExpectedValue nMinted \<longleftrightarrow> value_exempt env block \<or> nMinted \<le> nExpectedValue"
proof -
  let ?T = "block_env.truncate env"
  have "(\<exists>h. (parent_height ?T block (h - 1) \<or> h = 0 \<and> (\<forall>g. \<not> parent_height ?T block g)) \<and> P h) \<longleftrightarrow> P (payee_height ?T block)" for P
  proof (cases "\<exists>g. parent_height ?T block g")
    case True
    then obtain g where g: "parent_height ?T block g" by blast
    have "payee_height ?T block = h" if "parent_height ?T block (h - 1)" for h using payee_height_cases(1) [OF that] by simp
    then show ?thesis using g payee_height_cases(1) [OF g] by (metis add_diff_cancel_right')
  next
    case False
    then show ?thesis using payee_height_cases(2) [of ?T block] by auto
  qed
  then show ?thesis by (auto simp: value_exempt_def IsBlockValueValid_def Let_def split: option.splits)
qed

section \<open>The validation view\<close>

text \<open>The view that blocks are connected on: a cache above \<^verbatim>\<open>pcoinsTip\<close>, which is a cache above the database.\<close>

type_synonym 'd validation_view = "'d CCoinsViewCache CCoinsViewCache"

definition tip_view ::
    "(bytes \<Rightarrow> bool) \<Rightarrow> (bytes \<Rightarrow> bytes option) \<Rightarrow> ('d \<Rightarrow> db_key \<Rightarrow> bytes option) \<Rightarrow> ('d \<Rightarrow> batch \<Rightarrow> 'd) \<Rightarrow> 'd CCoinsViewCache view" where
  "tip_view ec_valid ec_decompress ldb_get ldb_write = cache_view (db_view ec_valid ec_decompress ldb_get ldb_write)"

definition view_inv ::
    "(bytes \<Rightarrow> bool) \<Rightarrow> (bytes \<Rightarrow> bytes option) \<Rightarrow> ('d \<Rightarrow> db_key \<Rightarrow> bytes option) \<Rightarrow> ('d \<Rightarrow> batch \<Rightarrow> 'd) \<Rightarrow> 'd validation_view \<Rightarrow> bool" where
  "view_inv ec_valid ec_decompress ldb_get ldb_write =
     cache_inv (cache_inv (db_inv ec_valid ec_decompress ldb_get ldb_write) (db_utxo ec_decompress ldb_get) (\<lambda>_ _. True) storable_coins)
       (cache_utxo (db_utxo ec_decompress ldb_get)) cache_held storable_coins"

definition view_coins ::
    "(bytes \<Rightarrow> bytes option) \<Rightarrow> ('d \<Rightarrow> db_key \<Rightarrow> bytes option) \<Rightarrow> 'd validation_view \<Rightarrow> utxo_set" where
  "view_coins ec_decompress ldb_get = cache_utxo (cache_utxo (db_utxo ec_decompress ldb_get))"

text \<open>A block is connected: \<^verbatim>\<open>ConnectBlock\<close> returns true for a block that is not the genesis block, whose index entry is one above its
  parent's, and whose outputs can be stored.\<close>

definition connects ::
    "'v view \<Rightarrow> 'e connect_env_scheme \<Rightarrow> connect_io \<Rightarrow> base_uint \<Rightarrow> CBlockIndex \<Rightarrow> CBlockIndex \<Rightarrow> CBlock \<Rightarrow> CValidationState \<Rightarrow>
     (base_uint \<rightharpoonup> int) \<Rightarrow> 'v CCoinsViewCache \<Rightarrow> 'v connect_result \<Rightarrow> bool" where
  "connects V env io hash pindex p block st rejected c res \<longleftrightarrow>
     ConnectBlock V env io (Some hash) pindex (Some p) False block st rejected c = Some res \<and> cr_ret res \<and>
     env_blockHash env block \<noteq> env_genesisHash env \<and> nHeight pindex = nHeight p + 1 \<and> env_blockHeight env (phashBlock p) = Some (nHeight p) \<and>
     list_all (\<lambda>tx. storable_tx tx (nHeight pindex)) (vtx block) \<and> length hash = 8 \<and> 0 \<le> env_maxMoneyOut env \<and>
     env_maxMoneyOut env < 2 ^ 62 \<and> mode st \<noteq> MODE_ERROR"

definition block_flags :: "CBlockIndex \<Rightarrow> flags" where
  "block_flags pindex = (if uint (nTime pindex) \<ge> 1333238400 then SCRIPT_VERIFY_P2SH else 0) OR SCRIPT_VERIFY_DERSIG"

definition expected_mint :: "CBlock \<Rightarrow> CBlockIndex \<Rightarrow> utxo_set \<Rightarrow> CAmount" where
  "expected_mint block p u =
     (if CBlock_IsProofOfWork block then wrap64 (GetBlockValue (nHeight p) + block_fees (vtx block) (nHeight p + 1) u) else GetBlockValue (nHeight p))"

lemma connects_spec:
  assumes "view_inv ec_valid ec_decompress ldb_get ldb_write c"
    and "connects (tip_view ec_valid ec_decompress ldb_get ldb_write) env io hash pindex p block st rejected c res"
  defines "u \<equiv> view_coins ec_decompress ldb_get c" and "u' \<equiv> view_coins ec_decompress ldb_get (cr_view res)"
  shows "\<exists>uss. block_ok (block_env.truncate env) block True True \<and> spec_connect (vtx block) (nHeight pindex) u = Some (uss, u') \<and>
    view_inv ec_valid ec_decompress ldb_get ldb_write (cr_view res) \<and> hashBlock (cr_view res) = hash \<and>
    cr_undo res = \<lparr>vtxundo = map mk_undo (drop 1 uss)\<rparr> \<and>
    valid_txs env (nHeight pindex \<ge> env_totalBlocksEstimate env) (block_flags pindex) (vtx block) (nHeight pindex) u \<and>
    nMint (cr_pindex res) = wrap64 (minted (vtx block) (nHeight pindex) u) \<and>
    IsBlockValueValid env block (expected_mint block p u) (nMint (cr_pindex res))"
proof -
  have c: "ConnectBlock (cache_view (db_view ec_valid ec_decompress ldb_get ldb_write)) env io (Some hash) pindex (Some p) False block st rejected c =
      Some res" "cr_ret res" "env_blockHash env block \<noteq> env_genesisHash env" "nHeight pindex = nHeight p + 1"
      "env_blockHeight env (phashBlock p) = Some (nHeight p)" "list_all (\<lambda>tx. storable_tx tx (nHeight pindex)) (vtx block)" "length hash = 8"
      "0 \<le> env_maxMoneyOut env" "env_maxMoneyOut env < 2 ^ 62" "mode st \<noteq> MODE_ERROR"
    using assms(2) unfolding connects_def tip_view_def by blast+
  note spec = tip.ConnectBlock_spec [OF assms(1) [unfolded view_inv_def] c(8-10) c(1-7)]
  show ?thesis
    using spec unfolding u_def u'_def view_coins_def view_inv_def block_flags_def expected_mint_def
    by (simp only: c(4)) blast
qed

section \<open>A run\<close>

text \<open>A run: the block of one coinbase transaction is connected at height 6 on an empty database.\<close>

definition parent5 :: CBlockIndex where
  "parent5 = CBlockIndex_SetNull\<lparr>phashBlock := base_uint_u64 8 5, nHeight := 5\<rparr>"

definition entry6 :: CBlockIndex where
  "entry6 = CBlockIndex_SetNull\<lparr>phashBlock := base_uint_u64 8 9, nHeight := 6\<rparr>"

definition sample_cenv :: connect_env where
  "sample_cenv = \<lparr>env_params = CMainParams\<lparr>fSkipProofOfWorkCheck := True\<rparr>, env_maxMoneyOut = MaxMoneyOut, env_adjustedTime = 1000,
     env_time = 1000, env_blockHash = (\<lambda>_. base_uint_u64 8 9), env_swifttxFiltering = False, env_lockedInputs = (\<lambda>_. None),
     env_tip = Some parent5, env_mapBlockIndex = (\<lambda>_. None), env_initialDownload = False, env_payeeValid = (\<lambda>_ _. True),
     env_maturity = 10, env_blockHeight = (\<lambda>_. Some 5), env_verify = (\<lambda>_ _ _. False), env_scriptThreads = True,
     env_totalBlocksEstimate = 0, env_genesisHash = base_uint_zero 8, env_mnSynced = True, env_budgetCycle = 1,
     env_superblocks = False, env_budgetBlock = (\<lambda>_. False)\<rparr>"

definition sample_io :: connect_io where
  "sample_io = \<lparr>io_WriteBlockIndex = True, io_FindUndoPos = Some 0, io_WriteToDisk = True, io_fTxIndex = False, io_WriteTxIndex = True\<rparr>"

definition sample_tip :: "(db_key \<Rightarrow> bytes option) CCoinsViewCache view" where
  "sample_tip = tip_view (\<lambda>k. k = sample_key) (\<lambda>k. Some sample_key) (\<lambda>d. d) map_write"

definition empty_view :: "(db_key \<Rightarrow> bytes option) validation_view" where
  "empty_view = SetBestBlock (base_uint_u64 8 5) (CCoinsViewCache_new (CCoinsViewCache_new (\<lambda>_. None)))"

lemma empty_view_inv:
  "view_inv (\<lambda>k. k = sample_key) (\<lambda>k. Some sample_key) (\<lambda>d. d) map_write empty_view"
  "view_coins (\<lambda>k. Some sample_key) (\<lambda>d. d) empty_view = (\<lambda>_. None)"
proof -
  have "view_inv (\<lambda>k. k = sample_key) (\<lambda>k. Some sample_key) (\<lambda>d. d) map_write (CCoinsViewCache_new (CCoinsViewCache_new (\<lambda>_. None)))"
    unfolding view_inv_def by (intro tip.new_cache_inv(1) coindb.new_cache_inv(1) map_db_inv)
  then show "view_inv (\<lambda>k. k = sample_key) (\<lambda>k. Some sample_key) (\<lambda>d. d) map_write empty_view"
    unfolding view_inv_def empty_view_def by (rule SetBestBlock_inv) simp
  show "view_coins (\<lambda>k. Some sample_key) (\<lambda>d. d) empty_view = (\<lambda>_. None)"
    unfolding view_coins_def empty_view_def SetBestBlock_def cache_utxo_hashBlock
    by (simp add: tip.new_cache_inv(2) coindb.new_cache_inv(2)) (simp add: fun_eq_iff db_utxo_def DB_GetCoins_def)
qed

lemma sample_tx_storable: "storable_tx sample_tx 6"
  by (simp add: storable_tx_def sample_tx_def UpdateHash_def CCoins_of_def FromTx_def ClearUnspendable_def Cleanup_def storable_coins_def trimmed_def
      IsPruned_def CTxOut_new_def CTxOut_IsNull_def storable_def compressible_txout_def IsUnspendable_def CTxOut_null_def)

lemma coinbase_block_connect_ok: "block_ok (block_env.truncate sample_cenv) coinbase_block True True"
  using coinbase_block_ok
  by (simp add: block_ok_def structure_ok_def locks_ok_def payee_ok_def parent_height_def block_env.truncate_def sample_env_def sample_cenv_def
     CheckProofOfWork_def)

lemma sample_connects:
  "\<exists>res. connects sample_tip sample_cenv sample_io (base_uint_u64 8 9) entry6 parent5 coinbase_block CValidationState_new Map.empty empty_view res \<and>
     vtxundo (cr_undo res) = []"
proof -
  let ?cs = "\<lparr>cs_view = empty_view, cs_nFees = 0, cs_nInputs = 0, cs_nSigOps = 0,
    cs_nTxOffset = of_nat (GetSizeOfCompactSize (of_nat (length (vtx coinbase_block)))), cs_vPos = [],
    cs_nValueOut = 0, cs_nValueIn = 0, cs_vtxundo = [], cs_checks = []\<rparr>"
  have vtx: "vtx coinbase_block = [sample_tx]" by (simp add: coinbase_block_def)
  have chk: "CheckBlock (block_env.truncate sample_cenv) coinbase_block True True CValidationState_new Map.empty = (True, CValidationState_new, Map.empty)"
    using CheckBlock_spec [of "block_env.truncate sample_cenv" CValidationState_new coinbase_block True True Map.empty] coinbase_block_connect_ok
    by (simp add: block_env.truncate_def sample_cenv_def MaxMoneyOut_def COIN_def CValidationState_new_def)
  have nz: "base_uint_u64 8 5 \<noteq> base_uint_zero 8"
  proof
    assume "base_uint_u64 8 5 = base_uint_zero 8"
    then have "hd (base_uint_u64 8 5) = hd (base_uint_zero 8)" by simp
    then show False by (simp add: base_uint_u64_def base_uint_zero_def)
  qed
  then have best: "Cache_GetBestBlock sample_tip empty_view = (base_uint_u64 8 5, empty_view)"
    by (simp add: Cache_GetBestBlock_def empty_view_def SetBestBlock_simps)
  have "unat (GetLegacySigOpCount sample_tx) \<le> 60"
  proof -
    have s: "tx_scripts sample_tx = [[1, 2], [0x51]]" by (simp add: tx_scripts_def sample_tx_def UpdateHash_def CTxOut_new_def)
    then have "sum_list (map length (tx_scripts sample_tx)) \<le> MAX_BLOCK_SIZE" by (simp add: MAX_BLOCK_SIZE_def)
    then show ?thesis using legacy_count sigops_bound s by fastforce
  qed
  then have ops: "\<not> GetLegacySigOpCount sample_tx > MAX_BLOCK_SIGOPS"
    by (simp add: word_less_nat_alt MAX_BLOCK_SIGOPS_def unat_div)
  have val: "GetValueOut sample_tx = Inr 50"
    using tx_ok_value [OF sample_tx_ok(1)] by (simp add: MaxMoneyOut_def COIN_def sample_tx_def UpdateHash_def CTxOut_new_def)
  have "spec_update sample_tx 6 (view_coins (\<lambda>k. Some sample_key) (\<lambda>d. d) empty_view) =
      Some ([], (\<lambda>_. None)(tx_hash sample_tx := live (Some (CCoins_of sample_tx 6))))"
    by (simp add: spec_update_def sample_tx_ok empty_view_inv)
  then obtain c' where upd: "UpdateCoins sample_tip sample_tx \<lparr>vprevout = []\<rparr> 6 empty_view = Some (\<lparr>vprevout = []\<rparr>, c')"
    using tip.UpdateCoins_spec [OF empty_view_inv(1) [unfolded view_inv_def] sample_tx_storable, of "\<lparr>vprevout = []\<rparr>"]
    by (auto simp: view_coins_def sample_tip_def tip_view_def)
  have loop: "\<exists>cs. connect_loop sample_tip sample_cenv f fl strict 6 0 [sample_tx] CValidationState_new ?cs = Some (Inr cs) \<and> cs_vtxundo cs = [] \<and>
      cs_checks cs = [] \<and> cs_nValueOut cs = wrap64 50 \<and> cs_nValueIn cs = 0 \<and> cs_nFees cs = 0" for f fl strict
    using ops val upd sample_tx_ok(2) by (simp add: connect_tx_def Let_def)
  let ?strict = "uint (nTime entry6) \<ge> 1333238400"
  obtain cs where cs: "connect_loop sample_tip sample_cenv (nHeight entry6 \<ge> env_totalBlocksEstimate sample_cenv)
      ((if ?strict then SCRIPT_VERIFY_P2SH else 0) OR SCRIPT_VERIFY_DERSIG) ?strict 6 0 [sample_tx] CValidationState_new ?cs = Some (Inr cs)"
      "cs_vtxundo cs = []" "cs_checks cs = []" "cs_nValueOut cs = wrap64 50" "cs_nValueIn cs = 0" "cs_nFees cs = 0"
    using loop by blast
  have w: "wrap64 50 = 50" "wrap64 100000000 = 100000000" by (simp_all add: wrap64_id is_int64_def)
  have pow: "\<not> CBlock_IsProofOfStake coinbase_block" by (simp add: CBlock_IsProofOfStake_def vtx)
  obtain res where fin: "finish_block sample_cenv sample_io (Some (base_uint_u64 8 9)) (Some parent5) False coinbase_block entry6 CValidationState_new Map.empty cs =
      Some res" "cr_ret res" "vtxundo (cr_undo res) = []"
    using cs(2-6) w pow
    by (simp add: finish_block_def sample_io_def parent5_def entry6_def CBlockIndex_SetNull_def Let_def GetBlockValue_def COIN_def
        IsBlockValueValid_def sample_cenv_def write_undo_def IsValid_def RaiseValidity_def BLOCK_VALID_SCRIPTS_def BLOCK_HAVE_UNDO_def
        CBlock_IsProofOfWork_def)
  have fields: "phashBlock parent5 = base_uint_u64 8 5" "env_blockHash sample_cenv coinbase_block = base_uint_u64 8 9" "nHeight entry6 = 6"
      "env_genesisHash sample_cenv = base_uint_zero 8" "nLastPOWBlock (env_params sample_cenv) = 26280000"
    by (simp_all add: parent5_def sample_cenv_def entry6_def CMainParams_def)
  have "ConnectBlock sample_tip sample_cenv sample_io (Some (base_uint_u64 8 9)) entry6 (Some parent5) False coinbase_block CValidationState_new
      Map.empty empty_view = Some res"
    using chk best cs(1) fin(1) pow
    by (simp add: ConnectBlock_def vtx fields sample_best Let_def CBlock_IsProofOfWork_def del: connect_loop.simps)
  then have "connects sample_tip sample_cenv sample_io (base_uint_u64 8 9) entry6 parent5 coinbase_block CValidationState_new Map.empty empty_view res"
    using fin(2) sample_tx_storable sample_best
    by (simp add: connects_def sample_cenv_def entry6_def parent5_def vtx MaxMoneyOut_def COIN_def CValidationState_new_def)
  then show ?thesis using fin(3) by blast
qed

lemma sample_block_minted:
  "spec_connect (vtx coinbase_block) 6 (\<lambda>_. None) = Some ([[]], (\<lambda>_. None)(tx_hash sample_tx := live (Some (CCoins_of sample_tx 6))))"
  "no_overwrite (vtx coinbase_block) 6 (\<lambda>_. None)" "minted (vtx coinbase_block) 6 (\<lambda>_. None) = 50" "block_fees (vtx coinbase_block) 6 (\<lambda>_. None) = 0"
proof -
  have "out_sum sample_tx = 50"
    using tx_ok_value [OF sample_tx_ok(1)]
    by (simp add: out_sum_def MaxMoneyOut_def COIN_def) (simp add: sample_tx_def UpdateHash_def CTxOut_new_def)
  then show "spec_connect (vtx coinbase_block) 6 (\<lambda>_. None) = Some ([[]], (\<lambda>_. None)(tx_hash sample_tx := live (Some (CCoins_of sample_tx 6))))"
    "no_overwrite (vtx coinbase_block) 6 (\<lambda>_. None)" "minted (vtx coinbase_block) 6 (\<lambda>_. None) = 50" "block_fees (vtx coinbase_block) 6 (\<lambda>_. None) = 0"
    by (simp_all add: coinbase_block_def spec_update_def sample_tx_ok in_sum_def tx_fee_def)
qed

section \<open>Properties\<close>

text \<open>C1: connecting a block.  When \<^verbatim>\<open>ConnectBlock\<close> accepts a block on the validation view, the block has passed its own
  checks; every transaction, in its turn, spends outputs that are there, mature and of values in range, pays out at most what it
  spends unless it is a coinbase or coinstake, and, above the last checkpoint, satisfies the script of every output it
  spends, also when the script checks ran on other threads; the view then holds exactly the coins that result from the transactions
  in order, and is at the block; the undo data is that of the transactions; and the amount minted, modulo \<open>2\<^sup>6\<^sup>4\<close>, passed the
  check of the reward.\<close>

theorem ConnectBlock_sound:
  assumes "view_inv ec_valid ec_decompress ldb_get ldb_write c"
    and "connects (tip_view ec_valid ec_decompress ldb_get ldb_write) env io hash pindex p block st rejected c res"
  defines "u \<equiv> view_coins ec_decompress ldb_get c" and "u' \<equiv> view_coins ec_decompress ldb_get (cr_view res)"
  shows "\<exists>uss. block_ok (block_env.truncate env) block True True \<and>
    valid_txs env (nHeight pindex \<ge> env_totalBlocksEstimate env) (block_flags pindex) (vtx block) (nHeight pindex) u \<and>
    spec_connect (vtx block) (nHeight pindex) u = Some (uss, u') \<and> cr_undo res = \<lparr>vtxundo = map mk_undo (drop 1 uss)\<rparr> \<and>
    view_inv ec_valid ec_decompress ldb_get ldb_write (cr_view res) \<and> hashBlock (cr_view res) = hash \<and>
    nMint (cr_pindex res) = wrap64 (minted (vtx block) (nHeight pindex) u) \<and>
    IsBlockValueValid env block (expected_mint block p u) (nMint (cr_pindex res))"
  using connects_spec [OF assms(1,2)] unfolding u_def u'_def by blast

theorem ConnectBlock_sound_witness:
  "\<exists>res uss. connects sample_tip sample_cenv sample_io (base_uint_u64 8 9) entry6 parent5 coinbase_block CValidationState_new Map.empty empty_view res \<and>
     spec_connect (vtx coinbase_block) 6 (\<lambda>_. None) = Some (uss, view_coins (\<lambda>k. Some sample_key) (\<lambda>d. d) (cr_view res))"
proof -
  obtain res where res: "connects sample_tip sample_cenv sample_io (base_uint_u64 8 9) entry6 parent5 coinbase_block CValidationState_new Map.empty empty_view res"
    using sample_connects by blast
  moreover have "nHeight entry6 = 6" by (simp add: entry6_def)
  ultimately show ?thesis
    using ConnectBlock_sound [OF empty_view_inv(1) res [unfolded sample_tip_def]] unfolding empty_view_inv(2) sample_tip_def by auto
qed

text \<open>C2: disconnecting undoes connecting.  After a block above the genesis block is connected on storable coins of blocks above it, without
  replacing a record that has unspent coins and without spending the last output of a coinstake transaction,
  \<^verbatim>\<open>DisconnectBlock\<close> with the undo data succeeds, reports the view clean, and gives back exactly the coins from before, at the parent
  block.  Both exceptions are real: \<^verbatim>\<open>ConnectBlock\<close> refuses a replacement only for a block without a hash, and the undo data does
  not bring back the coinstake mark of a record.\<close>

theorem DisconnectBlock_inverts_ConnectBlock:
  assumes "view_inv ec_valid ec_decompress ldb_get ldb_write c"
    and "connects (tip_view ec_valid ec_decompress ldb_get ldb_write) env io hash pindex p block st rejected c res"
    and "block_set (view_coins ec_decompress ldb_get c)" "no_overwrite (vtx block) (nHeight pindex) (view_coins ec_decompress ldb_get c)"
    and "\<forall>txundo\<in>set (vtxundo (cr_undo res)). \<forall>x\<in>set (vprevout txundo). \<not> undo_fCoinStake x"
    and "0 \<le> nHeight p" "length (phashBlock p) = 8" "hash \<noteq> base_uint_zero 8"
  shows "\<exists>c'. DisconnectBlock (tip_view ec_valid ec_decompress ldb_get ldb_write) hash (nHeight pindex) (phashBlock p) (Some (Some (cr_undo res)))
      False (vtx block) (cr_view res) = Some (True, None, c') \<and> view_inv ec_valid ec_decompress ldb_get ldb_write c' \<and>
    view_coins ec_decompress ldb_get c' = view_coins ec_decompress ldb_get c \<and> hashBlock c' = phashBlock p"
proof -
  let ?u = "view_coins ec_decompress ldb_get c"
  obtain uss where S: "block_ok (block_env.truncate env) block True True"
      "spec_connect (vtx block) (nHeight pindex) ?u = Some (uss, view_coins ec_decompress ldb_get (cr_view res))"
      "view_inv ec_valid ec_decompress ldb_get ldb_write (cr_view res)" "hashBlock (cr_view res) = hash"
      "cr_undo res = \<lparr>vtxundo = map mk_undo (drop 1 uss)\<rparr>"
    using connects_spec [OF assms(1,2)] by blast
  obtain cb txs where vtx: "vtx block = cb # txs" "IsCoinBase cb" "list_all (\<lambda>tx. \<not> IsCoinBase tx) txs"
    using S(1) by (auto simp: block_ok_def structure_ok_def block_layout_def)
  then obtain us uss' where uss: "uss = us # uss'" using S(2) by (auto split: option.splits)
  have no_stake: "\<forall>us\<in>set uss'. \<forall>x\<in>set us. \<not> undo_fCoinStake x" using assms(5) S(5) uss by simp
  have st: "list_all (\<lambda>tx. storable_tx tx (nHeight pindex)) (cb # txs)" "0 < nHeight pindex"
    using assms(2,6) vtx(1) unfolding connects_def by auto
  have best: "cache_best (cache_best (db_best ldb_get)) (cr_view res) = hash" using S(4) assms(8) by (simp add: cache_best_def)
  note D = tip.DisconnectBlock_undoes [OF S(2) [unfolded vtx(1) uss] assms(3) assms(4) [unfolded vtx(1)] st(2,1) no_stake vtx(2,3)
      S(3) [unfolded view_inv_def], of hash "phashBlock p"]
  then show ?thesis
    using best assms(7) S(5) uss vtx(1) unfolding tip_view_def view_inv_def view_coins_def by auto
qed

theorem DisconnectBlock_inverts_ConnectBlock_witness:
  "\<exists>res c'. connects sample_tip sample_cenv sample_io (base_uint_u64 8 9) entry6 parent5 coinbase_block CValidationState_new Map.empty empty_view res \<and>
     DisconnectBlock sample_tip (base_uint_u64 8 9) 6 (base_uint_u64 8 5) (Some (Some (cr_undo res))) False (vtx coinbase_block) (cr_view res) =
       Some (True, None, c') \<and>
     view_coins (\<lambda>k. Some sample_key) (\<lambda>d. d) c' = (\<lambda>_. None)"
proof -
  obtain res where res: "connects sample_tip sample_cenv sample_io (base_uint_u64 8 9) entry6 parent5 coinbase_block CValidationState_new Map.empty empty_view res"
      "vtxundo (cr_undo res) = []"
    using sample_connects by blast
  have f: "nHeight entry6 = 6" "nHeight parent5 = 5" "phashBlock parent5 = base_uint_u64 8 5" by (simp_all add: entry6_def parent5_def)
  show ?thesis
    using DisconnectBlock_inverts_ConnectBlock [OF empty_view_inv(1) res(1) [unfolded sample_tip_def]] res sample_block_minted(2) sample_best
    unfolding empty_view_inv(2) sample_tip_def by (auto simp: f block_set_def)
qed

text \<open>C3: money.  When a block is connected, the total of all unspent coins changes by exactly what its transactions pay out
  less what they spend, less the unspendable outputs, and less the unspent coins whose records the block replaces (none, if it replaces none);
  the amount that the index entry records as minted is that amount modulo \<open>2\<^sup>6\<^sup>4\<close>; and unless the block is exempt, the recorded amount is
  at most the block reward, plus the fees in a proof-of-work block.  Exempt are the blocks that \<^verbatim>\<open>IsBlockValueValid\<close> leaves to the budget: all blocks without
  a tip, the first hundred of each budget cycle while the budget is not synchronised, and budget blocks when superblocks are enabled.\<close>

theorem ConnectBlock_money:
  assumes "view_inv ec_valid ec_decompress ldb_get ldb_write c"
    and "connects (tip_view ec_valid ec_decompress ldb_get ldb_write) env io hash pindex p block st rejected c res"
    and "finite (dom (view_coins ec_decompress ldb_get c))"
  defines "u \<equiv> view_coins ec_decompress ldb_get c" and "u' \<equiv> view_coins ec_decompress ldb_get (cr_view res)"
  shows "finite (dom u') \<and>
    coin_total u' = coin_total u + minted (vtx block) (nHeight pindex) u - sum_list (map burned (vtx block)) - overwritten (vtx block) (nHeight pindex) u \<and>
    (no_overwrite (vtx block) (nHeight pindex) u \<longrightarrow> overwritten (vtx block) (nHeight pindex) u = 0) \<and>
    nMint (cr_pindex res) = wrap64 (minted (vtx block) (nHeight pindex) u) \<and>
    (\<not> value_exempt env block \<longrightarrow> nMint (cr_pindex res) \<le> expected_mint block p u)"
proof -
  obtain uss where S: "block_ok (block_env.truncate env) block True True" "spec_connect (vtx block) (nHeight pindex) u = Some (uss, u')"
      "nMint (cr_pindex res) = wrap64 (minted (vtx block) (nHeight pindex) u)" "IsBlockValueValid env block (expected_mint block p u) (nMint (cr_pindex res))"
    using connects_spec [OF assms(1,2)] unfolding u_def u'_def by blast
  have "list_all (tx_ok (env_maxMoneyOut (block_env.truncate env))) (vtx block)" using S(1) by (simp add: block_ok_def)
  then have "list_all (tx_ok (env_maxMoneyOut env)) (vtx block)" by (simp add: block_env.truncate_def)
  moreover have "env_maxMoneyOut env < 2 ^ 62" using assms(2) unfolding connects_def by blast
  ultimately have "finite (dom u') \<and> coin_total u' =
      coin_total u + minted (vtx block) (nHeight pindex) u - sum_list (map burned (vtx block)) - overwritten (vtx block) (nHeight pindex) u"
    using spec_connect_total [OF S(2)] assms(3) unfolding u_def by blast
  then show ?thesis using S(3,4) overwritten_none IsBlockValueValid_iff by blast
qed

theorem ConnectBlock_money_witness:
  "\<exists>res. connects sample_tip sample_cenv sample_io (base_uint_u64 8 9) entry6 parent5 coinbase_block CValidationState_new Map.empty empty_view res \<and>
     coin_total (view_coins (\<lambda>k. Some sample_key) (\<lambda>d. d) (cr_view res)) + sum_list (map burned (vtx coinbase_block)) = nMint (cr_pindex res)"
proof -
  obtain res where res: "connects sample_tip sample_cenv sample_io (base_uint_u64 8 9) entry6 parent5 coinbase_block CValidationState_new Map.empty empty_view res"
    using sample_connects by blast
  have f: "nHeight entry6 = 6" by (simp add: entry6_def)
  have "is_int64 50" by (simp add: is_int64_def)
  moreover have "coin_total (\<lambda>_. None) = 0" by (simp add: coin_total_def)
  ultimately show ?thesis
    using ConnectBlock_money [OF empty_view_inv(1) res [unfolded sample_tip_def]] res sample_block_minted(2,3)
    unfolding empty_view_inv(2) sample_tip_def by (auto simp: f wrap64_id)
qed

end
