(* ===== verification/Standard.thy ===== *)
theory Standard
  imports Validation Verify
begin

text \<open>
  Standard scripts: \<^verbatim>\<open>src/src/script/standard.h\<close> and \<^verbatim>\<open>src/src/script/standard.cpp\<close>, and the policy of
  \<^verbatim>\<open>src/src/main.cpp\<close> built on them, \<^verbatim>\<open>IsStandardTx\<close> and \<^verbatim>\<open>AreInputsStandard\<close>.  A script is recognised by
  matching its instructions against templates; the reference is a grammar of the recognised scripts.
\<close>

section \<open>The solver\<close>

datatype txnouttype = TX_NONSTANDARD | TX_PUBKEY | TX_PUBKEYHASH | TX_SCRIPTHASH | TX_MULTISIG | TX_NULL_DATA

definition GetTxnOutputType :: "txnouttype \<Rightarrow> string" where
  "GetTxnOutputType t =
     (case t of
        TX_NONSTANDARD \<Rightarrow> ''nonstandard'' | TX_PUBKEY \<Rightarrow> ''pubkey'' | TX_PUBKEYHASH \<Rightarrow> ''pubkeyhash''
      | TX_SCRIPTHASH \<Rightarrow> ''scripthash'' | TX_MULTISIG \<Rightarrow> ''multisig'' | TX_NULL_DATA \<Rightarrow> ''nulldata'')"

text \<open>The templates in the order of their keys.\<close>

definition mTemplates :: "(txnouttype \<times> CScript) list" where
  "mTemplates =
     [(TX_PUBKEY, [OP_PUBKEY, OP_CHECKSIG]),
      (TX_PUBKEYHASH, [OP_DUP, OP_HASH160, OP_PUBKEYHASH, OP_EQUALVERIFY, OP_CHECKSIG]),
      (TX_MULTISIG, [OP_SMALLINTEGER, OP_PUBKEYS, OP_SMALLINTEGER, OP_CHECKMULTISIG])]"

text \<open>The keys of a \<open>OP_PUBKEYS\<close>: the instruction read last, the position after it, and the solutions.  When
  the script ends the loop stops at an invalid instruction.\<close>

function take_keys :: "byte \<Rightarrow> bytes \<Rightarrow> bytes \<Rightarrow> bytes list \<Rightarrow> byte \<times> bytes \<times> bytes \<times> bytes list" where
  "take_keys opcode1 vch1 pc1 sols =
     (if length vch1 \<ge> 33 \<and> length vch1 \<le> 65
      then (case GetOp2 pc1 of (ok, opcode, vch, pc) \<Rightarrow>
              if ok then take_keys opcode vch pc (sols @ [vch1]) else (opcode, vch, pc, sols @ [vch1]))
      else (opcode1, vch1, pc1, sols))"
  by pat_completeness auto
termination
  by (relation "measure (\<lambda>(opcode1, vch1, pc1, sols). length pc1)") (auto dest: GetOp2_progress(3) GetOp2_progress(2) [OF sym] sym)

declare take_keys.simps [simp del]

text \<open>One instruction of the script against one of the template: the solutions, or \<open>None\<close> when they differ.\<close>

definition match_op :: "byte \<Rightarrow> bytes \<Rightarrow> byte \<Rightarrow> bytes \<Rightarrow> bytes list \<Rightarrow> bytes list option" where
  "match_op opcode1 vch1 opcode2 vch2 sols =
     (if opcode2 = OP_PUBKEY then (if length vch1 < 33 \<or> length vch1 > 65 then None else Some (sols @ [vch1]))
      else if opcode2 = OP_PUBKEYHASH then (if length vch1 \<noteq> 20 then None else Some (sols @ [vch1]))
      else if opcode2 = OP_SMALLINTEGER then
        (if opcode1 = OP_0 \<or> (opcode1 \<ge> OP_1 \<and> opcode1 \<le> OP_16)
         then map_option (\<lambda>n. sols @ [[of_int n]]) (DecodeOP_N opcode1) else None)
      else if opcode1 \<noteq> opcode2 \<or> vch1 \<noteq> vch2 then None
      else Some sols)"

text \<open>The comparison with one template: \<open>None\<close> when it does not match.\<close>

lemma GetOp2_ok_shrinks: "GetOp2 pc = (True, opcode, vch, pc') \<Longrightarrow> length pc' < length pc"
  using GetOp2_progress(2,3) by blast

function match_template :: "bytes \<Rightarrow> bytes \<Rightarrow> bytes list \<Rightarrow> bytes list option" where
  "match_template pc1 pc2 sols =
     (if pc1 = [] \<and> pc2 = [] then Some sols
      else case GetOp2 pc1 of (ok1, opcode1, vch1, pc1) \<Rightarrow>
        if \<not> ok1 then None
        else case GetOp2 pc2 of (ok2, opcode2, vch2, pc2) \<Rightarrow>
          if \<not> ok2 then None
          else if opcode2 = OP_PUBKEYS then
            (case take_keys opcode1 vch1 pc1 sols of (opcode1, vch1, pc1, sols) \<Rightarrow>
             case GetOp2 pc2 of (ok3, opcode2, vch2, pc2) \<Rightarrow>
               if \<not> ok3 then None
               else case match_op opcode1 vch1 opcode2 vch2 sols of None \<Rightarrow> None | Some sols \<Rightarrow> match_template pc1 pc2 sols)
          else case match_op opcode1 vch1 opcode2 vch2 sols of None \<Rightarrow> None | Some sols \<Rightarrow> match_template pc1 pc2 sols)"
  by pat_completeness auto
termination
  by (relation "measure (\<lambda>(pc1, pc2, sols). length pc2)") (auto dest!: GetOp2_ok_shrinks [OF sym])

declare match_template.simps [simp del]

text \<open>The templates in turn.  A script that matches the last one but fails its additional checks is refused with its type
  and its solutions.\<close>

fun scan_templates :: "CScript \<Rightarrow> (txnouttype \<times> CScript) list \<Rightarrow> bool \<times> txnouttype \<times> bytes list" where
  "scan_templates script1 [] = (False, TX_NONSTANDARD, [])"
| "scan_templates script1 ((t, script2) # ts) =
     (case match_template script1 script2 [] of
        None \<Rightarrow> scan_templates script1 ts
      | Some sols \<Rightarrow>
          if t = TX_MULTISIG
          then (let m = hd sols ! 0; n = last sols ! 0 in
                (\<not> (m < 1 \<or> n < 1 \<or> m > n \<or> length sols - 2 \<noteq> unat n), t, sols))
          else (True, t, sols))"

definition Solver :: "CScript \<Rightarrow> bool \<times> txnouttype \<times> bytes list" where
  "Solver script =
     (if IsPayToScriptHash script then (True, TX_SCRIPTHASH, [take 20 (drop 2 script)])
      else if length script \<ge> 1 \<and> script ! 0 = OP_RETURN \<and> IsPushOnly_from (drop 1 script) then (True, TX_NULL_DATA, [])
      else scan_templates script mTemplates)"

definition ScriptSigArgsExpected :: "txnouttype \<Rightarrow> bytes list \<Rightarrow> int" where
  "ScriptSigArgsExpected t vSolutions =
     (case t of
        TX_NONSTANDARD \<Rightarrow> - 1
      | TX_NULL_DATA \<Rightarrow> - 1
      | TX_PUBKEY \<Rightarrow> 1
      | TX_PUBKEYHASH \<Rightarrow> 2
      | TX_MULTISIG \<Rightarrow> if length vSolutions < 1 \<or> length (vSolutions ! 0) < 1 then - 1 else uint (vSolutions ! 0 ! 0) + 1
      | TX_SCRIPTHASH \<Rightarrow> 1)"

definition MAX_OP_RETURN_RELAY :: nat where "MAX_OP_RETURN_RELAY = 83"

text \<open>The settings: \<open>-datacarrier\<close> and \<^verbatim>\<open>nMaxDatacarrierBytes\<close>.\<close>

definition IsStandard :: "bool \<Rightarrow> nat \<Rightarrow> CScript \<Rightarrow> bool \<times> txnouttype" where
  "IsStandard datacarrier nMaxDatacarrierBytes script =
     (case Solver script of (ok, whichType, vSolutions) \<Rightarrow>
        if \<not> ok then (False, whichType)
        else if whichType = TX_MULTISIG then
          (let m = hd vSolutions ! 0; n = last vSolutions ! 0 in
           if n < 1 \<or> n > 3 then (False, whichType)
           else if m < 1 \<or> m > n then (False, whichType)
           else (whichType \<noteq> TX_NONSTANDARD, whichType))
        else if whichType = TX_NULL_DATA \<and> (\<not> datacarrier \<or> length script > nMaxDatacarrierBytes) then (False, whichType)
        else (whichType \<noteq> TX_NONSTANDARD, whichType))"

section \<open>Destinations\<close>

datatype CTxDestination = CNoDestination | CKeyID bytes | CScriptID bytes

definition ExtractDestination :: "CScript \<Rightarrow> CTxDestination option" where
  "ExtractDestination script =
     (case Solver script of (ok, whichType, vSolutions) \<Rightarrow>
        if \<not> ok then None
        else if whichType = TX_PUBKEY then
          (let pubKey = CPubKey_of (vSolutions ! 0) in
           if \<not> CPubKey_IsValid pubKey then None else Some (CKeyID (CPubKey_GetID pubKey)))
        else if whichType = TX_PUBKEYHASH then Some (CKeyID (vSolutions ! 0))
        else if whichType = TX_SCRIPTHASH then Some (CScriptID (vSolutions ! 0))
        else None)"

text \<open>The type, the addresses and the number of required signatures; with a failure the caller sees only the type.\<close>

definition ExtractDestinations :: "CScript \<Rightarrow> txnouttype \<times> (CTxDestination list \<times> int) option" where
  "ExtractDestinations script =
     (case Solver script of (ok, typeRet, vSolutions) \<Rightarrow>
        if \<not> ok then (typeRet, None)
        else if typeRet = TX_NULL_DATA then (typeRet, None)
        else if typeRet = TX_MULTISIG then
          (let addressRet = map (CKeyID \<circ> CPubKey_GetID) (filter CPubKey_IsValid (map CPubKey_of (butlast (tl vSolutions)))) in
           if addressRet = [] then (typeRet, None) else (typeRet, Some (addressRet, uint (hd vSolutions ! 0))))
        else (case ExtractDestination script of None \<Rightarrow> (typeRet, None) | Some address \<Rightarrow> (typeRet, Some ([address], 1))))"

definition GetScriptForDestination :: "CTxDestination \<Rightarrow> CScript" where
  "GetScriptForDestination dest =
     (case dest of
        CNoDestination \<Rightarrow> []
      | CKeyID keyID \<Rightarrow> [OP_DUP, OP_HASH160] @ push_vch keyID @ [OP_EQUALVERIFY, OP_CHECKSIG]
      | CScriptID scriptID \<Rightarrow> [OP_HASH160] @ push_vch scriptID @ [OP_EQUAL])"

text \<open>\<open>None\<close> when the assertion on a small number fails.\<close>

definition GetScriptForMultisig :: "int \<Rightarrow> bytes list \<Rightarrow> CScript option" where
  "GetScriptForMultisig nRequired ks =
     (case (EncodeOP_N nRequired, EncodeOP_N (int (length ks))) of
        (Some m, Some n) \<Rightarrow> Some ([m] @ concat (map (push_vch \<circ> CPubKey_Raw) ks) @ [n, OP_CHECKMULTISIG])
      | _ \<Rightarrow> None)"

section \<open>Policy\<close>

definition MAX_STANDARD_TX_SIZE :: nat where "MAX_STANDARD_TX_SIZE = 100000"
definition MAX_P2SH_SIGOPS :: u32 where "MAX_P2SH_SIGOPS = 15"

record policy =
  pol_datacarrier :: bool
  nMaxDatacarrierBytes :: nat
  fIsBareMultisigStd :: bool
  pol_minRelayTxFee :: CAmount

fun standard_ins :: "CTxIn list \<Rightarrow> string + unit" where
  "standard_ins [] = Inr ()"
| "standard_ins (txin # ins) =
     (if length (scriptSig txin) > 1650 then Inl ''scriptsig-size''
      else if \<not> IsPushOnly (scriptSig txin) then Inl ''scriptsig-not-pushonly''
      else standard_ins ins)"

fun standard_outs :: "policy \<Rightarrow> CTxOut list \<Rightarrow> u32 \<Rightarrow> string + u32" where
  "standard_outs pol [] nDataOut = Inr nDataOut"
| "standard_outs pol (txout # outs) nDataOut =
     (case IsStandard (pol_datacarrier pol) (nMaxDatacarrierBytes pol) (scriptPubKey txout) of (ok, whichType) \<Rightarrow>
        if \<not> ok then Inl ''scriptpubkey''
        else if whichType = TX_NULL_DATA then standard_outs pol outs (nDataOut + 1)
        else if whichType = TX_MULTISIG \<and> \<not> fIsBareMultisigStd pol then Inl ''bare-multisig''
        else if IsDust (pol_minRelayTxFee pol) txout then Inl ''dust''
        else standard_outs pol outs nDataOut)"

text \<open>The value on the left is the reason for a refusal.\<close>

definition IsStandardTx :: "policy \<Rightarrow> int \<Rightarrow> int \<Rightarrow> CTransaction \<Rightarrow> string + unit" where
  "IsStandardTx pol chainHeight adjustedTime tx =
     (if tx_nVersion tx > 1 \<or> tx_nVersion tx < 1 then Inl ''version''
      else if \<not> IsFinalTx chainHeight adjustedTime tx (chainHeight + 1) 0 then Inl ''non-final''
      else if GetSerializeSize_CTransaction tx \<ge> MAX_STANDARD_TX_SIZE then Inl ''tx-size''
      else rbind (standard_ins (vin tx)) (\<lambda>_.
           rbind (standard_outs pol (vout tx) 0) (\<lambda>nDataOut.
             if nDataOut > 1 then Inl ''multi-op-return'' else Inr ())))"

text \<open>The checker that accepts no signature.\<close>

definition BaseSignatureChecker :: checker where
  "BaseSignatureChecker = (\<lambda>_ _ _. False)"

text \<open>One input against the output it spends: the answer, or \<open>None\<close> to go on with the next input.\<close>

definition input_standard :: "CScript \<Rightarrow> CScript \<Rightarrow> bool option" where
  "input_standard prevScript sig =
     (case Solver prevScript of (ok, whichType, vSolutions) \<Rightarrow>
        if \<not> ok then Some False
        else let nArgsExpected = ScriptSigArgsExpected whichType vSolutions in
          if nArgsExpected < 0 then Some False
          else case EvalScript 0 BaseSignatureChecker sig [] of
            Inl _ \<Rightarrow> Some False
          | Inr stack \<Rightarrow>
              let go_on = (\<lambda>n. if int (length stack) \<noteq> n then Some False else None) in
              if whichType = TX_SCRIPTHASH then
                (case stack of
                   [] \<Rightarrow> Some False
                 | subscript # _ \<Rightarrow>
                     (case Solver subscript of (ok2, whichType2, vSolutions2) \<Rightarrow>
                        if ok2 then
                          (let tmpExpected = ScriptSigArgsExpected whichType2 vSolutions2 in
                           if tmpExpected < 0 then Some False else go_on (nArgsExpected + tmpExpected))
                        else Some (GetSigOpCount True subscript \<le> MAX_P2SH_SIGOPS)))
              else go_on nArgsExpected)"

fun inputs_standard_loop :: "'v view \<Rightarrow> CTxIn list \<Rightarrow> 'v CCoinsViewCache \<Rightarrow> (bool \<times> 'v CCoinsViewCache) option" where
  "inputs_standard_loop V [] c = Some (True, c)"
| "inputs_standard_loop V (txin # ins) c =
     (case GetOutputFor V txin c of
        None \<Rightarrow> None
      | Some (prev, c') \<Rightarrow>
          (case input_standard (scriptPubKey prev) (scriptSig txin) of
             Some answer \<Rightarrow> Some (answer, c')
           | None \<Rightarrow> inputs_standard_loop V ins c'))"

definition AreInputsStandard :: "'v view \<Rightarrow> CTransaction \<Rightarrow> 'v CCoinsViewCache \<Rightarrow> (bool \<times> 'v CCoinsViewCache) option" where
  "AreInputsStandard V tx c = (if IsCoinBase tx then Some (True, c) else inputs_standard_loop V (vin tx) c)"

section \<open>What the solver recognises\<close>

text \<open>The instructions of a script; \<open>None\<close> when it cannot be read to its end.\<close>

function instructions :: "bytes \<Rightarrow> (byte \<times> bytes) list option" where
  "instructions pc =
     (if pc = [] then Some []
      else case GetOp2 pc of (ok, opcode, vch, pc') \<Rightarrow> if \<not> ok then None else map_option ((#) (opcode, vch)) (instructions pc'))"
  by pat_completeness auto
termination
  by (relation "measure length") (auto dest!: GetOp2_ok_shrinks [OF sym])

declare instructions.simps [simp del]

definition key_sized :: "bytes \<Rightarrow> bool" where
  "key_sized k \<longleftrightarrow> 33 \<le> length k \<and> length k \<le> 65"

definition small_int :: "byte \<Rightarrow> int \<Rightarrow> bool" where
  "small_int opcode n \<longleftrightarrow> DecodeOP_N opcode = Some n"

inductive standard_script :: "txnouttype \<Rightarrow> bytes list \<Rightarrow> CScript \<Rightarrow> bool" where
  script_hash: "length h = 20 \<Longrightarrow> standard_script TX_SCRIPTHASH [h] (OP_HASH160 # 20 # h @ [OP_EQUAL])"
| null_data: "IsPushOnly data \<Longrightarrow> standard_script TX_NULL_DATA [] (OP_RETURN # data)"
| pubkey: "instructions s = Some [(op, k), (OP_CHECKSIG, [])] \<Longrightarrow> key_sized k \<Longrightarrow> standard_script TX_PUBKEY [k] s"
| pubkey_hash: "instructions s = Some [(OP_DUP, []), (OP_HASH160, []), (op, h), (OP_EQUALVERIFY, []), (OP_CHECKSIG, [])] \<Longrightarrow>
    length h = 20 \<Longrightarrow> standard_script TX_PUBKEYHASH [h] s"
| multisig: "instructions s = Some ((opm, []) # keys @ [(opn, []), (OP_CHECKMULTISIG, [])]) \<Longrightarrow> list_all (key_sized \<circ> snd) keys \<Longrightarrow>
    small_int opm m \<Longrightarrow> small_int opn n \<Longrightarrow> 1 \<le> m \<Longrightarrow> m \<le> n \<Longrightarrow> int (length keys) = n \<Longrightarrow>
    standard_script TX_MULTISIG ([of_int m] # map snd keys @ [[of_int n]]) s"

inductive_cases standard_scriptE: "standard_script t sols s"

subsection \<open>Instructions\<close>

lemma instructions_Nil [simp]: "instructions pc = Some [] \<longleftrightarrow> pc = []"
  by (subst instructions.simps) (auto split: prod.splits)

lemma instructions_Cons:
  "instructions pc = Some (x # ops) \<longleftrightarrow> (\<exists>pc'. GetOp2 pc = (True, fst x, snd x, pc') \<and> instructions pc' = Some ops)"
  by (subst instructions.simps) (auto split: prod.splits dest: GetOp2_progress(3))

lemma instructions_step: "GetOp2 pc = (True, op, v, pc') \<Longrightarrow> instructions pc = map_option ((#) (op, v)) (instructions pc')"
  by (subst instructions.simps) (auto dest: GetOp2_progress(3))

lemma GetOp2_fails: "GetOp2 pc = (False, opcode, vch, pc') \<Longrightarrow> opcode = OP_INVALIDOPCODE \<and> vch = []"
  by (auto simp: GetOp2_def split: list.splits if_splits option.splits)

lemma GetOp2_plain: "x > OP_PUSHDATA4 \<Longrightarrow> GetOp2 (x # pc) = (True, x, [], pc)"
  by (simp add: GetOp2_def linorder_not_less [symmetric])

lemma GetOp2_small: "GetOp2 pc = (True, opcode, vch, pc') \<Longrightarrow> DecodeOP_N opcode \<noteq> None \<Longrightarrow> vch = []"
  by (auto simp: GetOp2_def DecodeOP_N_def push_size_def word_le_nat_alt split: list.splits if_splits option.splits)

lemma instructions_data:
  assumes "instructions pc = Some (ops @ (op, v) # rest)" "DecodeOP_N op \<noteq> None"
  shows "v = []"
  using assms
proof (induction ops arbitrary: pc)
  case Nil
  then show ?case by (auto simp: instructions_Cons dest: GetOp2_small)
next
  case (Cons x ops)
  then show ?case by (auto simp: instructions_Cons)
qed

subsection \<open>Templates\<close>

lemma match_template_Nil: "match_template pc [] sols = (if pc = [] then Some sols else None)"
  by (subst match_template.simps) (auto simp: GetOp2_def split: prod.splits)

lemma match_template_Cons:
  assumes "x > OP_PUSHDATA4" "x \<noteq> OP_PUBKEYS"
  shows "match_template pc (x # t) sols = Some r \<longleftrightarrow>
    (\<exists>op v pc' sols'. GetOp2 pc = (True, op, v, pc') \<and> match_op op v x [] sols = Some sols' \<and> match_template pc' t sols' = Some r)"
  by (subst match_template.simps) (use assms in \<open>auto simp: GetOp2_plain split: prod.splits option.splits\<close>)

lemma match_template_keys:
  assumes "x > OP_PUSHDATA4"
  shows "match_template pc (OP_PUBKEYS # x # t) sols = Some r \<longleftrightarrow>
    (\<exists>op v pc' op' v' pc'' sols' sols''. GetOp2 pc = (True, op, v, pc') \<and> take_keys op v pc' sols = (op', v', pc'', sols') \<and>
       match_op op' v' x [] sols' = Some sols'' \<and> match_template pc'' t sols'' = Some r)"
  by (subst match_template.simps) (use assms in \<open>auto simp: GetOp2_plain split: prod.splits option.splits\<close>)

lemma take_keys_sound:
  assumes "take_keys op v pc sols = (op', v', pc', sols')"
  shows "\<exists>keys. sols' = sols @ map snd keys \<and> list_all (key_sized \<circ> snd) keys \<and>
    (op' = OP_INVALIDOPCODE \<or> (\<forall>ops. instructions pc' = Some ops \<longrightarrow>
        (\<exists>rest. instructions pc = Some rest \<and> (op, v) # rest = keys @ (op', v') # ops)))"
  using assms
proof (induction op v pc sols rule: take_keys.induct)
  case (1 op v pc sols)
  show ?case
  proof (cases "key_sized v")
    case False
    with 1(2) have "(op', v', pc', sols') = (op, v, pc, sols)" by (simp add: take_keys.simps [of op v] key_sized_def split: if_splits)
    then show ?thesis by (intro exI [of _ "[]"]) simp
  next
    case True
    obtain ok op1 v1 pc1 where g: "GetOp2 pc = (ok, op1, v1, pc1)" by (cases "GetOp2 pc")
    show ?thesis
    proof (cases ok)
      case False
      with True g 1 have "sols' = sols @ [v]" "op' = OP_INVALIDOPCODE"
        by (auto simp: take_keys.simps [of op v] key_sized_def dest: GetOp2_fails)
      with True show ?thesis by (intro exI [of _ "[(op, v)]"]) simp
    next
      case True': True
      with True g 1(2) have "take_keys op1 v1 pc1 (sols @ [v]) = (op', v', pc', sols')"
        by (simp add: take_keys.simps [of op v] key_sized_def)
      with 1(1) [OF _ g [symmetric] refl refl] True True' obtain keys where
        "sols' = (sols @ [v]) @ map snd keys" "list_all (key_sized \<circ> snd) keys"
        "op' = OP_INVALIDOPCODE \<or> (\<forall>ops. instructions pc' = Some ops \<longrightarrow>
            (\<exists>rest. instructions pc1 = Some rest \<and> (op1, v1) # rest = keys @ (op', v') # ops))"
        unfolding key_sized_def by blast
      moreover have "instructions pc = Some ((op1, v1) # rest)" if "instructions pc1 = Some rest" for rest
        using that True' g by (simp add: instructions_Cons)
      ultimately show ?thesis using True by (intro exI [of _ "(op, v) # keys"]) (force simp: o_def)
    qed
  qed
qed

lemma take_keys_complete:
  assumes "instructions pc = Some rest" "(op, v) # rest = keys @ (op', v') # ops" "list_all (key_sized \<circ> snd) keys" "\<not> key_sized v'"
  shows "\<exists>pc'. take_keys op v pc sols = (op', v', pc', sols @ map snd keys) \<and> instructions pc' = Some ops"
  using assms
proof (induction keys arbitrary: op v pc rest sols)
  case Nil
  then show ?case by (auto simp: take_keys.simps [of op' v'] key_sized_def)
next
  case (Cons k keys)
  then obtain op1 v1 rest1 where r: "rest = (op1, v1) # rest1" by (cases rest) (auto simp: Cons_eq_append_conv)
  with Cons.prems(1) obtain pc1 where "GetOp2 pc = (True, op1, v1, pc1)" "instructions pc1 = Some rest1" by (auto simp: instructions_Cons)
  moreover from this have "\<exists>pc'. take_keys op1 v1 pc1 (sols @ [v]) = (op', v', pc', (sols @ [v]) @ map snd keys) \<and> instructions pc' = Some ops"
    using Cons.prems r by (intro Cons.IH) auto
  ultimately show ?case using Cons.prems by (auto simp: take_keys.simps [of op v] key_sized_def)
qed

lemma match_op_simps:
  "match_op op v OP_PUBKEY w sols = Some r \<longleftrightarrow> key_sized v \<and> r = sols @ [v]"
  "match_op op v OP_PUBKEYHASH w sols = Some r \<longleftrightarrow> length v = 20 \<and> r = sols @ [v]"
  "match_op op v OP_SMALLINTEGER w sols = Some r \<longleftrightarrow> (\<exists>n. small_int op n \<and> r = sols @ [[of_int n]])"
  "x \<notin> {OP_PUBKEY, OP_PUBKEYHASH, OP_SMALLINTEGER} \<Longrightarrow> match_op op v x w sols = Some r \<longleftrightarrow> op = x \<and> v = w \<and> r = sols"
  by (auto simp: match_op_def key_sized_def small_int_def DecodeOP_N_def)

lemma match_pubkey:
  "match_template s [OP_PUBKEY, OP_CHECKSIG] sols = Some r \<longleftrightarrow>
     (\<exists>op k. instructions s = Some [(op, k), (OP_CHECKSIG, [])] \<and> key_sized k \<and> r = sols @ [k])"
  by (auto simp: match_template_Cons match_template_Nil match_op_simps instructions_Cons)

lemma match_pubkeyhash:
  "match_template s [OP_DUP, OP_HASH160, OP_PUBKEYHASH, OP_EQUALVERIFY, OP_CHECKSIG] sols = Some r \<longleftrightarrow>
     (\<exists>op h. instructions s = Some [(OP_DUP, []), (OP_HASH160, []), (op, h), (OP_EQUALVERIFY, []), (OP_CHECKSIG, [])] \<and>
        length h = 20 \<and> r = sols @ [h])"
  by (auto simp: match_template_Cons match_template_Nil match_op_simps instructions_Cons)

lemma match_multisig_tail:
  assumes "GetOp2 pc = (True, op, v, pc')"
  shows "(\<exists>op' v' pc'' sols' n. take_keys op v pc' sols = (op', v', pc'', sols') \<and> small_int op' n \<and>
        instructions pc'' = Some [(OP_CHECKMULTISIG, [])] \<and> r = sols' @ [[of_int n]]) \<longleftrightarrow>
    (\<exists>keys opn n. instructions pc = Some (keys @ [(opn, []), (OP_CHECKMULTISIG, [])]) \<and> list_all (key_sized \<circ> snd) keys \<and>
        small_int opn n \<and> r = sols @ map snd keys @ [[of_int n]])" (is "?L \<longleftrightarrow> ?R")
proof
  assume ?L
  then obtain op' v' pc'' sols' n where *: "take_keys op v pc' sols = (op', v', pc'', sols')" "small_int op' n"
      "instructions pc'' = Some [(OP_CHECKMULTISIG, [])]" "r = sols' @ [[of_int n]]" by blast
  have "op' \<noteq> OP_INVALIDOPCODE" using *(2) by (auto simp: small_int_def DecodeOP_N_def)
  with take_keys_sound [OF *(1)] *(3) obtain keys rest where keys: "sols' = sols @ map snd keys" "list_all (key_sized \<circ> snd) keys"
      "instructions pc' = Some rest" "(op, v) # rest = keys @ [(op', v'), (OP_CHECKMULTISIG, [])]" by blast
  then have i: "instructions pc = Some (keys @ [(op', v'), (OP_CHECKMULTISIG, [])])" using assms by (simp add: instructions_Cons flip: keys(4))
  have "v' = []" using instructions_data [OF i] *(2) by (auto simp: small_int_def)
  with i keys * show ?R by (metis append_assoc)
next
  assume ?R
  then obtain keys opn n where *: "instructions pc = Some (keys @ [(opn, []), (OP_CHECKMULTISIG, [])])" "list_all (key_sized \<circ> snd) keys"
      "small_int opn n" "r = sols @ map snd keys @ [[of_int n]]" by blast
  from *(1) instructions_step [OF assms] obtain rest where "instructions pc' = Some rest" "instructions pc = Some ((op, v) # rest)"
    by auto
  with * take_keys_complete [of pc' rest op v keys opn "[]" "[(OP_CHECKMULTISIG, [])]" sols] show ?L
    by (auto simp: key_sized_def)
qed

lemma match_multisig:
  "match_template s [OP_SMALLINTEGER, OP_PUBKEYS, OP_SMALLINTEGER, OP_CHECKMULTISIG] sols = Some r \<longleftrightarrow>
     (\<exists>opm m keys opn n. instructions s = Some ((opm, []) # keys @ [(opn, []), (OP_CHECKMULTISIG, [])]) \<and>
        list_all (key_sized \<circ> snd) keys \<and> small_int opm m \<and> small_int opn n \<and>
        r = sols @ [of_int m] # map snd keys @ [[of_int n]])" (is "?L \<longleftrightarrow> ?R")
proof
  assume ?L
  then obtain opm v m pc op v' pc' op' v'' pc'' sols' n where
    *: "GetOp2 s = (True, opm, v, pc)" "small_int opm m" "GetOp2 pc = (True, op, v', pc')"
      "take_keys op v' pc' (sols @ [[of_int m]]) = (op', v'', pc'', sols')" "small_int op' n"
      "instructions pc'' = Some [(OP_CHECKMULTISIG, [])]" "r = sols' @ [[of_int n]]"
    by (auto simp: match_template_Cons match_template_keys match_template_Nil match_op_simps instructions_Cons split: if_splits)
  moreover have "v = []" using *(1,2) GetOp2_small by (auto simp: small_int_def)
  ultimately show ?R using match_multisig_tail [OF *(3), of "sols @ [[of_int m]]" r]
    by (fastforce simp: instructions_Cons)
next
  assume ?R
  then obtain opm m keys opn n pc where
    *: "GetOp2 s = (True, opm, [], pc)" "instructions pc = Some (keys @ [(opn, []), (OP_CHECKMULTISIG, [])])"
       "list_all (key_sized \<circ> snd) keys" "small_int opm m" "small_int opn n" "r = sols @ [of_int m] # map snd keys @ [[of_int n]]"
    by (auto simp: instructions_Cons)
  then obtain op v pc' where g: "GetOp2 pc = (True, op, v, pc')" by (cases keys) (auto simp: instructions_Cons)
  then obtain op' v' pc'' sols' n' where "take_keys op v pc' (sols @ [[of_int m]]) = (op', v', pc'', sols')" "small_int op' n'"
      "instructions pc'' = Some [(OP_CHECKMULTISIG, [])]" "r = sols' @ [[of_int n']]"
    using match_multisig_tail [OF g, of "sols @ [[of_int m]]" r] * by auto
  then have "match_template pc'' [OP_CHECKMULTISIG] r = Some r" "match_op op' v' OP_SMALLINTEGER [] sols' = Some r"
    by (auto simp: match_template_Cons match_template_Nil match_op_simps instructions_Cons)
  then have "match_template pc [OP_PUBKEYS, OP_SMALLINTEGER, OP_CHECKMULTISIG] (sols @ [[of_int m]]) = Some r"
    using g \<open>take_keys op v pc' (sols @ [[of_int m]]) = (op', v', pc'', sols')\<close> by (subst match_template_keys) auto
  then show ?L using *(1,4) by (subst match_template_Cons) (auto simp: match_op_simps)
qed

lemma small_int_value: "small_int op n \<Longrightarrow> 0 \<le> n \<and> n \<le> 16 \<and> unat (of_int n :: byte) = nat n"
  by (auto simp: small_int_def DecodeOP_N_def word_le_def unat_eq_nat_uint uint_word_of_int split: if_splits)

lemma IsPayToScriptHash_iff: "IsPayToScriptHash s \<longleftrightarrow> (\<exists>h. length h = 20 \<and> s = OP_HASH160 # 20 # h @ [OP_EQUAL])" (is "?L \<longleftrightarrow> ?R")
proof
  assume ?L
  from IsPayToScriptHash_shape [OF this] obtain h where "length h = 20" "s = OP_HASH160 # push_vch h @ [OP_EQUAL]" by blast
  then show ?R by (intro exI [of _ h]) (simp add: push_vch_def)
qed (auto simp: IsPayToScriptHash_def nth_append)

lemma Solver_multisig:
  assumes "match_template s [OP_SMALLINTEGER, OP_PUBKEYS, OP_SMALLINTEGER, OP_CHECKMULTISIG] [] = Some r"
  shows "scan_templates s [(TX_MULTISIG, [OP_SMALLINTEGER, OP_PUBKEYS, OP_SMALLINTEGER, OP_CHECKMULTISIG])] = (True, t, sols) \<longleftrightarrow>
    t = TX_MULTISIG \<and> sols = r \<and> standard_script TX_MULTISIG r s"
proof -
  obtain opm m keys opn n where *: "instructions s = Some ((opm, []) # keys @ [(opn, []), (OP_CHECKMULTISIG, [])])"
      "list_all (key_sized \<circ> snd) keys" "small_int opm m" "small_int opn n" "r = [of_int m] # map snd keys @ [[of_int n]]"
    using assms by (auto simp: match_multisig)
  note v = small_int_value [OF *(3)] small_int_value [OF *(4)]
  have "(\<not> ((of_int m :: byte) < 1 \<or> (of_int n :: byte) < 1 \<or> (of_int m :: byte) > of_int n \<or> length r - 2 \<noteq> unat (of_int n :: byte))) \<longleftrightarrow>
      1 \<le> m \<and> m \<le> n \<and> int (length keys) = n"
    using v *(5) by (auto simp: word_less_nat_alt)
  moreover have "standard_script TX_MULTISIG r s \<longleftrightarrow> 1 \<le> m \<and> m \<le> n \<and> int (length keys) = n"
  proof
    assume "standard_script TX_MULTISIG r s"
    then show "1 \<le> m \<and> m \<le> n \<and> int (length keys) = n"
    proof cases
      case (multisig opm' keys' opn' m' n')
      then have "opm' = opm" "keys' = keys" "opn' = opn" using *(1) by simp_all
      then have "m' = m" "n' = n" using multisig(4,5) *(3,4) by (simp_all add: small_int_def)
      with multisig(6-8) \<open>keys' = keys\<close> show ?thesis by simp
    qed
  next
    assume "1 \<le> m \<and> m \<le> n \<and> int (length keys) = n"
    then show "standard_script TX_MULTISIG r s" unfolding *(5) by (intro standard_script.multisig [OF *(1-4)]) auto
  qed
  moreover have "scan_templates s [(TX_MULTISIG, [OP_SMALLINTEGER, OP_PUBKEYS, OP_SMALLINTEGER, OP_CHECKMULTISIG])] =
      (\<not> ((of_int m :: byte) < 1 \<or> (of_int n :: byte) < 1 \<or> (of_int m :: byte) > of_int n \<or> length r - 2 \<noteq> unat (of_int n :: byte)),
       TX_MULTISIG, r)"
    using assms *(5) by (simp add: Let_def)
  ultimately show ?thesis by auto
qed

text \<open>A script that starts with an instruction of a template has neither of the two special forms.\<close>

lemma not_special:
  assumes "GetOp2 s = (True, op, v, pc)" "op \<notin> {OP_HASH160, OP_RETURN} \<or> v \<noteq> []"
  shows "\<not> IsPayToScriptHash s" "\<not> (length s \<ge> 1 \<and> s ! 0 = OP_RETURN \<and> IsPushOnly_from (drop 1 s))"
proof -
  show "\<not> IsPayToScriptHash s" using assms by (auto simp: IsPayToScriptHash_iff GetOp2_plain)
  show "\<not> (length s \<ge> 1 \<and> s ! 0 = OP_RETURN \<and> IsPushOnly_from (drop 1 s))" using assms by (cases s) (auto simp: GetOp2_plain)
qed

lemma Solver_templates:
  assumes "instructions s = Some ((op, v) # ops)" "op \<notin> {OP_HASH160, OP_RETURN} \<or> v \<noteq> []"
  shows "Solver s = scan_templates s mTemplates"
proof -
  obtain pc where "GetOp2 s = (True, op, v, pc)" using assms(1) by (auto simp: instructions_Cons)
  then show ?thesis using not_special [OF _ assms(2), of s pc] unfolding Solver_def by (simp only: if_False simp_thms)
qed

lemma Solver_sound: "Solver s = (True, t, sols) \<Longrightarrow> standard_script t sols s"
proof -
  assume solved: "Solver s = (True, t, sols)"
  consider (hash) "IsPayToScriptHash s" | (data) "\<not> IsPayToScriptHash s" "length s \<ge> 1" "s ! 0 = OP_RETURN" "IsPushOnly_from (drop 1 s)"
    | (scan) "scan_templates s mTemplates = (True, t, sols)"
    using solved by (auto simp: Solver_def split: if_splits)
  then show ?thesis
  proof cases
    case hash
    then obtain h where h: "length h = 20" "s = OP_HASH160 # 20 # h @ [OP_EQUAL]" by (auto simp: IsPayToScriptHash_iff)
    then have "t = TX_SCRIPTHASH" "sols = [h]" using hash solved by (simp_all add: Solver_def)
    with h show ?thesis by (auto intro: standard_script.intros)
  next
    case data
    then have "t = TX_NULL_DATA" "sols = []" using solved by (simp_all add: Solver_def)
    moreover have "s = OP_RETURN # drop 1 s" using data by (cases s) auto
    ultimately show ?thesis using data(4) standard_script.null_data [of "drop 1 s"] by (simp add: IsPushOnly_def)
  next
    case scan
    then consider (key) "match_template s [OP_PUBKEY, OP_CHECKSIG] [] = Some sols" "t = TX_PUBKEY"
      | (hash) "match_template s [OP_DUP, OP_HASH160, OP_PUBKEYHASH, OP_EQUALVERIFY, OP_CHECKSIG] [] = Some sols" "t = TX_PUBKEYHASH"
      | (multi) r where "match_template s [OP_SMALLINTEGER, OP_PUBKEYS, OP_SMALLINTEGER, OP_CHECKMULTISIG] [] = Some r"
          "scan_templates s [(TX_MULTISIG, [OP_SMALLINTEGER, OP_PUBKEYS, OP_SMALLINTEGER, OP_CHECKMULTISIG])] = (True, t, sols)"
      by (auto simp: mTemplates_def split: option.splits)
    then show ?thesis
    proof cases
      case key
      then obtain op k where "instructions s = Some [(op, k), (OP_CHECKSIG, [])]" "key_sized k" "sols = [k]" by (auto simp: match_pubkey)
      with key(2) standard_script.pubkey show ?thesis by simp
    next
      case hash
      then obtain op h where "instructions s = Some [(OP_DUP, []), (OP_HASH160, []), (op, h), (OP_EQUALVERIFY, []), (OP_CHECKSIG, [])]"
          "length h = 20" "sols = [h]" by (auto simp: match_pubkeyhash)
      with hash(2) standard_script.pubkey_hash show ?thesis by simp
    next
      case multi
      then show ?thesis using Solver_multisig [OF multi(1), of t sols] by simp
    qed
  qed
qed

lemma Solver_complete:
  assumes "standard_script t sols s"
  shows "Solver s = (True, t, sols)"
  using assms
proof cases
  case (script_hash h)
  then have "IsPayToScriptHash s" by (auto simp: IsPayToScriptHash_iff)
  with script_hash show ?thesis by (simp add: Solver_def)
next
  case (null_data data)
  then have "\<not> IsPayToScriptHash s" by (auto simp: IsPayToScriptHash_iff)
  with null_data show ?thesis by (simp add: Solver_def IsPushOnly_def)
next
  case (pubkey op k)
  then have "k \<noteq> []" by (auto simp: key_sized_def)
  moreover have "match_template s [OP_PUBKEY, OP_CHECKSIG] [] = Some sols" using pubkey by (auto simp: match_pubkey)
  ultimately show ?thesis using pubkey by (subst Solver_templates [of _ op k]) (auto simp: mTemplates_def)
next
  case (pubkey_hash op h)
  then have "match_template s [OP_PUBKEY, OP_CHECKSIG] [] = None"
    by (cases "match_template s [OP_PUBKEY, OP_CHECKSIG] []") (auto simp: match_pubkey)
  moreover have "match_template s [OP_DUP, OP_HASH160, OP_PUBKEYHASH, OP_EQUALVERIFY, OP_CHECKSIG] [] = Some sols"
    using pubkey_hash by (auto simp: match_pubkeyhash)
  ultimately show ?thesis using pubkey_hash by (subst Solver_templates [of _ OP_DUP "[]"]) (auto simp: mTemplates_def)
next
  case (multisig opm keys opn m n)
  have small: "opm \<notin> {OP_HASH160, OP_RETURN, OP_DUP}" using multisig(5) by (auto simp: small_int_def DecodeOP_N_def)
  have "match_template s [OP_PUBKEY, OP_CHECKSIG] [] = None"
    by (cases "match_template s [OP_PUBKEY, OP_CHECKSIG] []") (use multisig in \<open>auto simp: match_pubkey key_sized_def\<close>)
  moreover have "match_template s [OP_DUP, OP_HASH160, OP_PUBKEYHASH, OP_EQUALVERIFY, OP_CHECKSIG] [] = None"
    by (cases "match_template s [OP_DUP, OP_HASH160, OP_PUBKEYHASH, OP_EQUALVERIFY, OP_CHECKSIG] []")
      (use multisig small in \<open>auto simp: match_pubkeyhash\<close>)
  moreover have "match_template s [OP_SMALLINTEGER, OP_PUBKEYS, OP_SMALLINTEGER, OP_CHECKMULTISIG] [] = Some sols"
    using multisig by (auto simp: match_multisig)
  moreover note Solver_multisig [OF this, of t sols]
  ultimately have "scan_templates s mTemplates = (True, t, sols)" using assms multisig(1)
    by (simp add: mTemplates_def)
  then show ?thesis using multisig small by (subst Solver_templates [of _ opm "[]"]) auto
qed

lemma Solver_iff: "Solver s = (True, t, sols) \<longleftrightarrow> standard_script t sols s"
  using Solver_sound Solver_complete by blast

lemma multisig_solutions:
  assumes "standard_script TX_MULTISIG sols s"
  shows "\<exists>m n keys. sols = [of_int m] # keys @ [[of_int n]] \<and> 1 \<le> m \<and> m \<le> n \<and> n \<le> 16 \<and> int (length keys) = n \<and>
    uint (of_int m :: byte) = m \<and> uint (of_int n :: byte) = n"
  using assms
proof cases
  case (multisig opm keys opn m n)
  with small_int_value [of opn n] have "n \<le> 16" by simp
  with multisig show ?thesis
    by (intro exI [of _ m] exI [of _ n] exI [of _ "map snd keys"]) (simp add: uint_word_of_int)
qed

lemma IsStandard_iff:
  "fst (IsStandard datacarrier maxBytes s) \<longleftrightarrow>
     (\<exists>t sols. standard_script t sols s \<and> (t = TX_MULTISIG \<longrightarrow> length sols \<le> 5) \<and>
        (t = TX_NULL_DATA \<longrightarrow> datacarrier \<and> length s \<le> maxBytes))"
proof -
  obtain ok t sols where solved: "Solver s = (ok, t, sols)" by (cases "Solver s")
  show ?thesis
  proof (cases ok)
    case False
    then have "\<not> standard_script t' sols' s" for t' sols' using solved by (simp add: Solver_iff [symmetric])
    with False solved show ?thesis by (simp add: IsStandard_def)
  next
    case True
    then have st: "standard_script t sols s" using solved by (simp add: Solver_iff [symmetric])
    have unique: "standard_script t' sols' s \<longleftrightarrow> t' = t \<and> sols' = sols" for t' sols'
      using solved True by (auto simp: Solver_iff [symmetric])
    have "t \<noteq> TX_NONSTANDARD" using st by cases auto
    then show ?thesis
    proof (cases "t = TX_MULTISIG")
      case multi: True
      obtain m n keys where "sols = [of_int m] # keys @ [[of_int n]]" "1 \<le> m" "m \<le> n" "n \<le> 16" "int (length keys) = n"
          "uint (of_int m :: byte) = m" "uint (of_int n :: byte) = n"
        using multisig_solutions st multi by blast
      then show ?thesis using solved True multi unique by (auto simp: IsStandard_def word_less_def Let_def)
    qed (use solved True unique in \<open>auto simp: IsStandard_def\<close>)
  qed
qed

section \<open>Scripts for destinations\<close>

lemma instructions_push:
  assumes "length b < 2 ^ 32"
  shows "\<exists>op. instructions (push_vch b @ rest) = map_option ((#) (op, b)) (instructions rest)"
proof -
  obtain op where "GetOp2 (push_vch b @ rest) = (True, op, b, rest)" using GetOp2_push [OF assms] by blast
  from instructions_step [OF this] show ?thesis by blast
qed

lemma instructions_plain: "x > OP_PUSHDATA4 \<Longrightarrow> instructions (x # rest) = map_option ((#) (x, [])) (instructions rest)"
  by (rule instructions_step) (rule GetOp2_plain)

lemma instructions_pushes:
  assumes "\<forall>b \<in> set bs. length b < 2 ^ 32" "instructions rest = Some ops"
  shows "\<exists>xs. map snd xs = bs \<and> instructions (concat (map push_vch bs) @ rest) = Some (xs @ ops)"
  using assms
proof (induction bs)
  case (Cons b bs)
  then obtain xs where xs: "map snd xs = bs" "instructions (concat (map push_vch bs) @ rest) = Some (xs @ ops)" by auto
  obtain op where "instructions (push_vch b @ concat (map push_vch bs) @ rest) = Some ((op, b) # xs @ ops)"
    using instructions_push [of b "concat (map push_vch bs) @ rest"] Cons.prems(1) xs(2) by auto
  with xs(1) show ?case by (intro exI [of _ "(op, b) # xs"]) simp
qed simp

lemma EncodeOP_N_instruction:
  assumes "0 \<le> v" "v \<le> 16"
  shows "\<exists>op. EncodeOP_N v = Some op \<and> small_int op v \<and> (\<forall>rest. instructions (op # rest) = map_option ((#) (op, [])) (instructions rest))"
proof -
  define op :: byte where "op = (if v = 0 then OP_0 else of_int (0x51 + v - 1))"
  have byte_value: "uint (of_int w :: byte) = w" if "0 \<le> w" "w < 256" for w
    using that by (simp add: uint_word_of_int)
  have u: "uint op = (if v = 0 then 0 else 80 + v)" using byte_value [of "0x51 + v - 1"] assms by (auto simp: op_def)
  have "EncodeOP_N v = Some op" using assms by (simp add: EncodeOP_N_def op_def)
  moreover have "op = 0 \<longleftrightarrow> v = 0"
  proof
    assume "op = 0"
    with u assms show "v = 0" by (simp split: if_splits)
  qed (simp add: op_def)
  then have "small_int op v" using u assms by (auto simp: small_int_def DecodeOP_N_def word_le_def)
  moreover have "GetOp2 (op # rest) = (True, op, [], rest)" for rest
  proof (cases "v = 0")
    case True
    then show ?thesis by (simp add: op_def GetOp2_def push_size_def)
  next
    case False
    then have "op > OP_PUSHDATA4" using u assms by (simp add: word_less_def)
    then show ?thesis by (rule GetOp2_plain)
  qed
  ultimately show ?thesis using instructions_step by blast
qed

lemma Solver_destination:
  assumes "length h = 20"
  shows "Solver (GetScriptForDestination (CKeyID h)) = (True, TX_PUBKEYHASH, [h])"
    and "Solver (GetScriptForDestination (CScriptID h)) = (True, TX_SCRIPTHASH, [h])"
proof -
  obtain op where "instructions (push_vch h @ [OP_EQUALVERIFY, OP_CHECKSIG]) = Some [(op, h), (OP_EQUALVERIFY, []), (OP_CHECKSIG, [])]"
    using instructions_push [of h "[OP_EQUALVERIFY, OP_CHECKSIG]"] assms by (auto simp: instructions_plain)
  then have "instructions (GetScriptForDestination (CKeyID h)) =
      Some [(OP_DUP, []), (OP_HASH160, []), (op, h), (OP_EQUALVERIFY, []), (OP_CHECKSIG, [])]"
    by (simp add: GetScriptForDestination_def instructions_plain)
  with assms show "Solver (GetScriptForDestination (CKeyID h)) = (True, TX_PUBKEYHASH, [h])"
    by (auto simp: Solver_iff intro: standard_script.pubkey_hash)
  have "GetScriptForDestination (CScriptID h) = OP_HASH160 # 20 # h @ [OP_EQUAL]"
    using assms by (simp add: GetScriptForDestination_def push_vch_def)
  with assms show "Solver (GetScriptForDestination (CScriptID h)) = (True, TX_SCRIPTHASH, [h])"
    by (simp add: Solver_iff standard_script.script_hash)
qed

lemma CPubKey_of_Raw:
  assumes "length k = 65" "CPubKey_IsValid k"
  shows "key_sized (CPubKey_Raw k)" "CPubKey_IsValid (CPubKey_of (CPubKey_Raw k))" "CPubKey_GetID (CPubKey_of (CPubKey_Raw k)) = CPubKey_GetID k"
proof -
  have len: "CPubKey_size k = 33 \<or> CPubKey_size k = 65" using assms(2)
    by (auto simp: CPubKey_IsValid_def CPubKey_size_def GetLen_def split: if_splits)
  then have raw: "length (CPubKey_Raw k) = CPubKey_size k" "CPubKey_Raw k ! 0 = k ! 0" "CPubKey_Raw k \<noteq> []"
    using assms(1) by (auto simp: CPubKey_Raw_def)
  then show "key_sized (CPubKey_Raw k)" using len by (auto simp: key_sized_def)
  have "CPubKey_of (CPubKey_Raw k) = CPubKey_Raw k @ drop (CPubKey_size k) (replicate 65 0)"
    using raw len by (auto simp: CPubKey_of_def CPubKey_Set_def CPubKey_size_def Let_def)
  moreover from this raw have "CPubKey_size (CPubKey_of (CPubKey_Raw k)) = CPubKey_size k"
    by (simp add: CPubKey_size_def nth_append flip: length_greater_0_conv)
  ultimately show "CPubKey_IsValid (CPubKey_of (CPubKey_Raw k))" "CPubKey_GetID (CPubKey_of (CPubKey_Raw k)) = CPubKey_GetID k"
    using len raw by (auto simp: CPubKey_IsValid_def CPubKey_GetID_def CPubKey_Raw_def)
qed

lemma GetScriptForMultisig_standard:
  assumes "1 \<le> m" "m \<le> int (length ks)" "length ks \<le> 16" "list_all (key_sized \<circ> CPubKey_Raw) ks"
  shows "\<exists>s. GetScriptForMultisig m ks = Some s \<and>
    Solver s = (True, TX_MULTISIG, [of_int m] # map CPubKey_Raw ks @ [[of_int (int (length ks))]])"
proof -
  obtain opn where n: "EncodeOP_N (int (length ks)) = Some opn" "small_int opn (int (length ks))"
      "instructions (opn # [OP_CHECKMULTISIG]) = map_option ((#) (opn, [])) (instructions [OP_CHECKMULTISIG])"
    using EncodeOP_N_instruction [of "int (length ks)"] assms(3) by auto
  then have tail: "instructions [opn, OP_CHECKMULTISIG] = Some [(opn, []), (OP_CHECKMULTISIG, [])]" by (simp add: instructions_plain)
  have short: "\<forall>b \<in> set (map CPubKey_Raw ks). length b < 2 ^ 32" using assms(4) by (auto simp: list_all_iff key_sized_def)
  obtain xs where xs: "map snd xs = map CPubKey_Raw ks"
      "instructions (concat (map push_vch (map CPubKey_Raw ks)) @ [opn, OP_CHECKMULTISIG]) = Some (xs @ [(opn, []), (OP_CHECKMULTISIG, [])])"
    using instructions_pushes [OF short tail] by blast
  obtain opm where m: "EncodeOP_N m = Some opm" "small_int opm m"
      "instructions (opm # concat (map push_vch (map CPubKey_Raw ks)) @ [opn, OP_CHECKMULTISIG]) =
         Some ((opm, []) # xs @ [(opn, []), (OP_CHECKMULTISIG, [])])"
    using EncodeOP_N_instruction [of m] assms(1-3) xs(2) by auto
  let ?s = "opm # concat (map push_vch (map CPubKey_Raw ks)) @ [opn, OP_CHECKMULTISIG]"
  have len: "int (length xs) = int (length ks)" using arg_cong [OF xs(1), of length] by simp
  have "list_all key_sized (map snd xs)" using assms(4) by (simp add: xs(1) list_all_iff)
  then have "standard_script TX_MULTISIG ([of_int m] # map snd xs @ [[of_int (int (length ks))]]) ?s"
    using assms(1,2) len m n(2) by (intro standard_script.multisig) (auto simp: list_all_iff)
  moreover have "GetScriptForMultisig m ks = Some ?s" using m(1) n(1) by (simp add: GetScriptForMultisig_def)
  ultimately show ?thesis by (simp add: Solver_iff xs(1))
qed

section \<open>Properties\<close>

text \<open>C19: recognised scripts.  \<^verbatim>\<open>Solver\<close>, which compares a script with templates instruction by instruction, succeeds
  with a type and solutions exactly when the script has a form of the grammar: the hash of a script in its canonical bytes,
  an \<open>OP_RETURN\<close> followed by pushes only, one key and \<open>OP_CHECKSIG\<close>, the five instructions of a payment to a key
  hash, or \<open>m\<close> of \<open>n\<close> keys with \<open>1 \<le> m \<le> n \<le> 16\<close>; keys and hashes may be pushed by any instruction that pushes
  them.  \<^verbatim>\<open>IsStandard\<close> accepts these forms except multisignatures with more than three keys and data that is switched
  off or too long.\<close>

theorem Solver_classifies:
  "(Solver s = (True, t, sols) \<longleftrightarrow> standard_script t sols s) \<and>
   (fst (IsStandard datacarrier maxBytes s) \<longleftrightarrow>
      (\<exists>t sols. standard_script t sols s \<and> (t = TX_MULTISIG \<longrightarrow> length sols \<le> 5) \<and>
        (t = TX_NULL_DATA \<longrightarrow> datacarrier \<and> length s \<le> maxBytes)))"
  using Solver_iff IsStandard_iff by blast

theorem Solver_classifies_witness:
  "standard_script TX_PUBKEYHASH [replicate 20 7] (GetScriptForDestination (CKeyID (replicate 20 7))) \<and>
   fst (IsStandard False 0 (GetScriptForDestination (CKeyID (replicate 20 7))))"
proof -
  have "standard_script TX_PUBKEYHASH [replicate 20 7] (GetScriptForDestination (CKeyID (replicate 20 7)))"
    using Solver_classifies [THEN conjunct1] Solver_destination(1) [of "replicate 20 7"] by (metis length_replicate)
  moreover from this have "fst (IsStandard False 0 (GetScriptForDestination (CKeyID (replicate 20 7))))"
    using Solver_classifies [THEN conjunct2] by blast
  ultimately show ?thesis ..
qed

text \<open>C20: scripts for destinations.  The destination found in the script built for a key hash or a script hash is that
  destination; in the script built for \<open>m\<close> of up to sixteen valid keys the destinations are the hashes of all the keys and
  \<open>m\<close> signatures are required.\<close>

theorem destination_roundtrip:
  assumes "length h = 20" "1 \<le> m" "m \<le> int (length ks)" "length ks \<le> 16" "list_all (\<lambda>k. length k = 65 \<and> CPubKey_IsValid k) ks"
  shows "ExtractDestination (GetScriptForDestination (CKeyID h)) = Some (CKeyID h) \<and>
    ExtractDestination (GetScriptForDestination (CScriptID h)) = Some (CScriptID h) \<and>
    map_option ExtractDestinations (GetScriptForMultisig m ks) = Some (TX_MULTISIG, Some (map (CKeyID \<circ> CPubKey_GetID) ks, m))"
proof -
  have "list_all (key_sized \<circ> CPubKey_Raw) ks" using assms(5) CPubKey_of_Raw(1) by (auto simp: list_all_iff)
  from GetScriptForMultisig_standard [OF assms(2-4) this] obtain s where s: "GetScriptForMultisig m ks = Some s"
    "Solver s = (True, TX_MULTISIG, [of_int m] # map CPubKey_Raw ks @ [[of_int (int (length ks))]])" by blast
  have valid: "filter CPubKey_IsValid (map CPubKey_of (map CPubKey_Raw ks)) = map CPubKey_of (map CPubKey_Raw ks)"
    using assms(5) CPubKey_of_Raw(2) by (intro filter_True) (auto simp: list_all_iff)
  have ids: "map (CKeyID \<circ> CPubKey_GetID) (map CPubKey_of (map CPubKey_Raw ks)) = map (CKeyID \<circ> CPubKey_GetID) ks"
    using assms(5) CPubKey_of_Raw(3) by (auto simp: list_all_iff)
  have "ks \<noteq> []" "uint (of_int m :: byte) = m" using assms(2-4) by (auto simp: uint_word_of_int)
  then have "ExtractDestinations s = (TX_MULTISIG, Some (map (CKeyID \<circ> CPubKey_GetID) ks, m))"
    using s(2) valid ids by (simp add: ExtractDestinations_def Let_def)
  then show ?thesis using Solver_destination [OF assms(1)] s(1) by (simp add: ExtractDestination_def)
qed

theorem destination_roundtrip_witness:
  "ExtractDestination (GetScriptForDestination (CScriptID (replicate 20 7))) = Some (CScriptID (replicate 20 7)) \<and>
   map_option ExtractDestinations (GetScriptForMultisig 1 [replicate 65 2, replicate 65 4]) =
     Some (TX_MULTISIG, Some ([CKeyID (CPubKey_GetID (replicate 65 2)), CKeyID (CPubKey_GetID (replicate 65 4))], 1))"
  using destination_roundtrip [of "replicate 20 7" 1 "[replicate 65 2, replicate 65 4]"]
  by (simp add: CPubKey_IsValid_def CPubKey_size_def GetLen_def)

text \<open>An input that pays with a script outside the standard forms ends the check of the whole transaction: the inputs after
  it are not looked at.\<close>

lemma AreInputsStandard_skips:
  assumes "GetOutputFor V txin c = Some (prev, c')" "IsPayToScriptHash (scriptPubKey prev)"
    and "EvalScript 0 BaseSignatureChecker (scriptSig txin) [] = Inr (redeem # stack)"
    and "\<not> fst (Solver redeem)" "GetSigOpCount True redeem \<le> MAX_P2SH_SIGOPS"
  shows "inputs_standard_loop V (txin # ins) c = Some (True, c')"
  using assms by (cases "Solver redeem") (simp add: input_standard_def Solver_def [of "scriptPubKey prev"] ScriptSigArgsExpected_def)

end
