(* ===== verification/ChainState.thy ===== *)
theory ChainState
  imports BlockConnect
begin

text \<open>
  The chain state of \<^verbatim>\<open>src/src/main.cpp\<close>: the index of blocks, the active chain, the candidates for its tip and the coins at
  the tip, with \<^verbatim>\<open>ConnectTip\<close>, \<^verbatim>\<open>DisconnectTip\<close>, \<^verbatim>\<open>FindMostWorkChain\<close> and \<^verbatim>\<open>ActivateBestChain\<close>.  An assertion that fails, or a
  pointer that is followed and is null, ends the program: the value on the left of a sum, \<open>Assertion_failed\<close>.  A walk over the
  index of blocks (in \<open>SetTip\<close> and \<open>FindFork\<close>) that does not end or leaves the index is \<open>Broken_index\<close>; the other loops
  that do not end are the \<open>None\<close> of an option.  What the node reads from outside, its clock, its files and its configuration, is a record of
  inputs that may be different at every operation; the operations are numbered.  The memory pool, the wallets and the
  peers are told of the changes and are not part of the state, nor are the warnings about forks and the lines of the log
  (those of \<^verbatim>\<open>InvalidChainFound\<close> read the tip, which is missing only while a genesis block is connected).  The lock is released
  between the rounds of \<^verbatim>\<open>ActivateBestChain\<close>; here no other thread uses the state in between.
\<close>

section \<open>State\<close>

datatype crash = Assertion_failed | Broken_index

definition BLOCK_HAVE_DATA :: u32 where "BLOCK_HAVE_DATA = 8"
definition BLOCK_FAILED_VALID :: u32 where "BLOCK_FAILED_VALID = 32"
definition BLOCK_FAILED_CHILD :: u32 where "BLOCK_FAILED_CHILD = 64"

datatype FlushStateMode = FLUSH_STATE_IF_NEEDED | FLUSH_STATE_PERIODIC | FLUSH_STATE_ALWAYS

record 'd chainstate =
  blocks :: block_store
  mapBlockIndex :: "(base_uint \<times> ptr) list"
  chainActive :: CChain
  setBlockIndexCandidates :: "ptr list"
  mapBlocksUnlinked :: "(ptr option \<times> ptr) list"
  pindexBestInvalid :: "ptr option"
  pindexBestHeader :: "ptr option"
  mapRejectedBlocks :: "base_uint \<rightharpoonup> int"
  pcoinsTip :: "'d CCoinsViewCache"
  ticks :: nat

text \<open>What a flush finds: whether the last one is long ago, whether there is disk space, and the message of a failure to write
  the index of blocks.\<close>

record flush_io =
  fl_late :: bool
  fl_diskSpace :: bool
  fl_abort :: "string option"

record 'd world =
  w_view :: "'d view"
  w_env :: "nat \<Rightarrow> connect_env"
  w_io :: "nat \<Rightarrow> connect_io"
  w_ReadBlock :: "nat \<Rightarrow> ptr \<Rightarrow> CBlock option"
  w_ReadUndo :: "nat \<Rightarrow> ptr \<Rightarrow> CBlockUndo option"
  w_flush :: "nat \<Rightarrow> flush_io"
  nCoinCacheSize :: nat

text \<open>The inputs of block validation with what it reads of the chain state.\<close>

definition node_env :: "'d world \<Rightarrow> 'd chainstate \<Rightarrow> connect_env" where
  "node_env w n =
     (w_env w (ticks n))\<lparr>env_tip := Option.bind (Tip (chainActive n)) (blocks n),
       env_mapBlockIndex := (\<lambda>h. Option.bind (map_of (mapBlockIndex n) h) (blocks n)),
       env_blockHeight := (\<lambda>h. map_option nHeight (Option.bind (map_of (mapBlockIndex n) h) (blocks n)))\<rparr>"

section \<open>Candidates\<close>

definition work_less :: "block_store \<Rightarrow> ptr \<Rightarrow> ptr \<Rightarrow> bool" where
  "work_less st pa pb =
     (case (st pa, st pb) of
        (Some a, Some b) \<Rightarrow>
          if CompareTo (nChainWork a) (nChainWork b) > 0 then False
          else if CompareTo (nChainWork a) (nChainWork b) < 0 then True
          else if nSequenceId a < nSequenceId b then False
          else if nSequenceId a > nSequenceId b then True
          else if pa < pb then False
          else if pa > pb then True
          else False
      | _ \<Rightarrow> False)"

text \<open>The candidates are a set ordered by \<open>work_less\<close>; the last one is the best.\<close>

definition best_candidate :: "block_store \<Rightarrow> ptr list \<Rightarrow> ptr option" where
  "best_candidate st ps =
     (case ps of [] \<Rightarrow> None | p # qs \<Rightarrow> Some (fold (\<lambda>q best. if work_less st best q then q else best) qs p))"

definition more_work :: "block_store \<Rightarrow> ptr \<Rightarrow> ptr \<Rightarrow> bool" where
  "more_work st p q =
     (case (st p, st q) of (Some a, Some b) \<Rightarrow> CompareTo (nChainWork a) (nChainWork b) > 0 | _ \<Rightarrow> False)"

definition InvalidChainFound :: "ptr \<Rightarrow> 'd chainstate \<Rightarrow> 'd chainstate" where
  "InvalidChainFound pindexNew n =
     (case pindexBestInvalid n of
        None \<Rightarrow> n\<lparr>pindexBestInvalid := Some pindexNew\<rparr>
      | Some q \<Rightarrow> if more_work (blocks n) pindexNew q then n\<lparr>pindexBestInvalid := Some pindexNew\<rparr> else n)"

definition add_status :: "u32 \<Rightarrow> ptr \<Rightarrow> block_store \<Rightarrow> block_store" where
  "add_status f p st = (case st p of None \<Rightarrow> st | Some b \<Rightarrow> st(p \<mapsto> b\<lparr>nStatus := nStatus b OR f\<rparr>))"

definition InvalidBlockFound :: "ptr \<Rightarrow> CValidationState \<Rightarrow> 'd chainstate \<Rightarrow> 'd chainstate" where
  "InvalidBlockFound pindex st n =
     (if \<not> corruptionPossible st
      then InvalidChainFound pindex
             (n\<lparr>blocks := add_status BLOCK_FAILED_VALID pindex (blocks n),
                setBlockIndexCandidates := removeAll pindex (setBlockIndexCandidates n)\<rparr>)
      else n)"

section \<open>Moving the tip by one block\<close>

type_synonym 'd outcome = "crash + bool \<times> CValidationState \<times> 'd chainstate"

definition FlushStateToDisk :: "'d world \<Rightarrow> FlushStateMode \<Rightarrow> CValidationState \<Rightarrow> 'd chainstate \<Rightarrow> 'd outcome" where
  "FlushStateToDisk w fmode st n =
     (let io = w_flush w (ticks n); n = n\<lparr>ticks := ticks n + 1\<rparr>; large = GetCacheSize (pcoinsTip n) > nCoinCacheSize w in
      if fmode = FLUSH_STATE_ALWAYS \<or> ((fmode = FLUSH_STATE_PERIODIC \<or> fmode = FLUSH_STATE_IF_NEEDED) \<and> large) \<or>
         (fmode = FLUSH_STATE_PERIODIC \<and> fl_late io)
      then
        (if \<not> fl_diskSpace io then Inr (False, snd (Error ''out of disk space'' st), n)
         else case fl_abort io of
           Some msg \<Rightarrow> Inr (False, snd (Error msg st), n)
         | None \<Rightarrow>
             (case Flush (w_view w) (pcoinsTip n) of
                None \<Rightarrow> Inl Assertion_failed
              | Some (ok, c) \<Rightarrow>
                  if \<not> ok then Inr (False, snd (Error ''Failed to write to coin database'' st), n\<lparr>pcoinsTip := c\<rparr>)
                  else Inr (True, st, n\<lparr>pcoinsTip := c\<rparr>)))
      else Inr (True, st, n))"

definition UpdateTip :: "ptr option \<Rightarrow> CValidationState \<Rightarrow> 'd chainstate \<Rightarrow> 'd outcome" where
  "UpdateTip pindexNew st n =
     (case SetTip (blocks n) (chainActive n) pindexNew of
        None \<Rightarrow> Inl Broken_index
      | Some v \<Rightarrow> if Tip v = None then Inl Assertion_failed else Inr (True, st, n\<lparr>chainActive := v\<rparr>))"

text \<open>The common end of both moves: the view is flushed into \<^verbatim>\<open>pcoinsTip\<close>, the state is written if necessary, and the tip is moved.\<close>

definition commit_tip ::
    "'d world \<Rightarrow> FlushStateMode \<Rightarrow> ptr option \<Rightarrow> 'd CCoinsViewCache CCoinsViewCache \<Rightarrow> CValidationState \<Rightarrow> 'd chainstate \<Rightarrow> 'd outcome" where
  "commit_tip w fmode pindexNew c st n =
     (case Flush (cache_view (w_view w)) c of
        None \<Rightarrow> Inl Assertion_failed
      | Some (False, _) \<Rightarrow> Inl Assertion_failed
      | Some (True, c') \<Rightarrow>
          (case FlushStateToDisk w fmode st (n\<lparr>pcoinsTip := base c'\<rparr>) of
             Inl e \<Rightarrow> Inl e
           | Inr (False, st', n') \<Rightarrow> Inr (False, st', n')
           | Inr (True, st', n') \<Rightarrow> UpdateTip pindexNew st' n'))"

text \<open>The undo data of an entry: \<open>None\<close> without a position, \<open>Some None\<close> if it cannot be read.\<close>

definition read_undo :: "'d world \<Rightarrow> nat \<Rightarrow> ptr \<Rightarrow> CBlockIndex \<Rightarrow> CBlockUndo option option" where
  "read_undo w t p e = (if nStatus e AND BLOCK_HAVE_UNDO = 0 \<or> nFile e = - 1 then None else Some (w_ReadUndo w t p))"

definition DisconnectTip :: "'d world \<Rightarrow> CValidationState \<Rightarrow> 'd chainstate \<Rightarrow> 'd outcome" where
  "DisconnectTip w st n =
     (case Tip (chainActive n) of
        None \<Rightarrow> Inl Assertion_failed
      | Some p \<Rightarrow>
          (case blocks n p of
             None \<Rightarrow> Inl Assertion_failed
           | Some e \<Rightarrow>
               let t = ticks n; n = n\<lparr>ticks := t + 1\<rparr>; undo = read_undo w t p e in
               case w_ReadBlock w t p of
                 None \<Rightarrow> Inr (False, snd (Error ''Failed to read block'' st), n)
               | Some block \<Rightarrow>
                   (case Option.bind (pprev e) (blocks n) of
                      None \<Rightarrow>
                        (case Cache_GetBestBlock (cache_view (w_view w)) (CCoinsViewCache_new (pcoinsTip n)) of (h, c) \<Rightarrow>
                           if h \<noteq> phashBlock e \<or> undo \<noteq> None then Inl Assertion_failed else Inr (False, st, n\<lparr>pcoinsTip := base c\<rparr>))
                    | Some prev \<Rightarrow>
                        (case DisconnectBlock (cache_view (w_view w)) (phashBlock e) (nHeight e) (phashBlock prev) undo False (vtx block)
                                (CCoinsViewCache_new (pcoinsTip n)) of
                           None \<Rightarrow> Inl Assertion_failed
                         | Some (False, _, c) \<Rightarrow> Inr (False, st, n\<lparr>pcoinsTip := base c\<rparr>)
                         | Some (True, _, c) \<Rightarrow> commit_tip w FLUSH_STATE_ALWAYS (pprev e) c st n))))"

definition block_file :: "CBlockIndex \<Rightarrow> int" where
  "block_file e = (if nStatus e AND BLOCK_HAVE_DATA \<noteq> 0 then nFile e else - 1)"

definition ConnectTip :: "'d world \<Rightarrow> ptr \<Rightarrow> CBlock option \<Rightarrow> CValidationState \<Rightarrow> 'd chainstate \<Rightarrow> 'd outcome" where
  "ConnectTip w p pblock st n =
     (case blocks n p of
        None \<Rightarrow> Inl Assertion_failed
      | Some e \<Rightarrow>
          if pprev e \<noteq> Tip (chainActive n) then Inl Assertion_failed
          else let t = ticks n; env = node_env w n; prev = Option.bind (pprev e) (blocks n); n = n\<lparr>ticks := t + 1\<rparr> in
            case (case pblock of Some block \<Rightarrow> Some block | None \<Rightarrow> w_ReadBlock w t p) of
              None \<Rightarrow> Inr (False, snd (Error ''Failed to read block'' st), n)
            | Some block \<Rightarrow>
                (case ConnectBlock (cache_view (w_view w)) env (w_io w t) (Some (phashBlock e)) e prev False block st (mapRejectedBlocks n)
                        (CCoinsViewCache_new (pcoinsTip n)) of
                   None \<Rightarrow> Inl Assertion_failed
                 | Some r \<Rightarrow>
                     let n = n\<lparr>blocks := (blocks n)(p \<mapsto> cr_pindex r), mapRejectedBlocks := cr_rejected r\<rparr> in
                     if \<not> cr_ret r then
                       (let n = n\<lparr>pcoinsTip := base (cr_view r)\<rparr> in
                        Inr (False, cr_state r, if State_IsInvalid (cr_state r) then InvalidBlockFound p (cr_state r) n else n))
                     else
                       commit_tip w (case prev of
                                       None \<Rightarrow> FLUSH_STATE_IF_NEEDED
                                     | Some q \<Rightarrow> if block_file (cr_pindex r) \<noteq> block_file q then FLUSH_STATE_ALWAYS else FLUSH_STATE_IF_NEEDED)
                         (Some p) (cr_view r) (cr_state r) n))"

section \<open>The best chain\<close>

text \<open>The walk from a candidate to the active chain: the first entry that failed or whose data is missing, if any.\<close>

definition unusable_entry :: "CBlockIndex \<Rightarrow> bool" where
  "unusable_entry b \<longleftrightarrow> nStatus b AND BLOCK_FAILED_MASK \<noteq> 0 \<or> nStatus b AND BLOCK_HAVE_DATA = 0"

partial_function (option) first_unusable :: "block_store \<Rightarrow> CChain \<Rightarrow> ptr option \<Rightarrow> (crash + ptr option) option" where
  "first_unusable st vChain pindexTest =
     (case pindexTest of
        None \<Rightarrow> Some (Inr None)
      | Some p \<Rightarrow>
          if Contains st vChain p then Some (Inr None)
          else (case st p of
                  None \<Rightarrow> Some (Inl Assertion_failed)
                | Some b \<Rightarrow>
                    if nChainTx b = 0 \<and> nHeight b \<noteq> 0 then Some (Inl Assertion_failed)
                    else if unusable_entry b then Some (Inr (Some p))
                    else first_unusable st vChain (pprev b)))"

text \<open>The entries from a candidate down to the unusable one are taken from the candidates and marked.\<close>

partial_function (option) discard_chain :: "bool \<Rightarrow> ptr \<Rightarrow> ptr option \<Rightarrow> 'd chainstate \<Rightarrow> (crash + 'd chainstate) option" where
  "discard_chain fFailedChain pindexTest pindexFailed n =
     (case pindexFailed of
        None \<Rightarrow> Some (Inl Assertion_failed)
      | Some q \<Rightarrow>
          if q = pindexTest then Some (Inr (n\<lparr>setBlockIndexCandidates := removeAll q (setBlockIndexCandidates n)\<rparr>))
          else (case blocks n q of
                  None \<Rightarrow> Some (Inl Assertion_failed)
                | Some b \<Rightarrow>
                    discard_chain fFailedChain pindexTest (pprev b)
                      ((if fFailedChain then n\<lparr>blocks := add_status BLOCK_FAILED_CHILD q (blocks n)\<rparr>
                        else n\<lparr>mapBlocksUnlinked := mapBlocksUnlinked n @ [(pprev b, q)]\<rparr>)
                       \<lparr>setBlockIndexCandidates := removeAll q (setBlockIndexCandidates n)\<rparr>)))"

partial_function (option) FindMostWorkChain :: "'d chainstate \<Rightarrow> (crash + ptr option \<times> 'd chainstate) option" where
  "FindMostWorkChain n =
     (case best_candidate (blocks n) (setBlockIndexCandidates n) of
        None \<Rightarrow> Some (Inr (None, n))
      | Some pindexNew \<Rightarrow>
          (case first_unusable (blocks n) (chainActive n) (Some pindexNew) of
             None \<Rightarrow> None
           | Some (Inl e) \<Rightarrow> Some (Inl e)
           | Some (Inr None) \<Rightarrow> Some (Inr (Some pindexNew, n))
           | Some (Inr (Some pindexTest)) \<Rightarrow>
               (let fFailedChain = (case blocks n pindexTest of None \<Rightarrow> False | Some b \<Rightarrow> nStatus b AND BLOCK_FAILED_MASK \<noteq> 0) in
                case discard_chain fFailedChain pindexTest (Some pindexNew) (if fFailedChain then InvalidChainFound pindexNew n else n) of
                  None \<Rightarrow> None
                | Some (Inl e) \<Rightarrow> Some (Inl e)
                | Some (Inr n') \<Rightarrow> FindMostWorkChain n')))"

definition PruneBlockIndexCandidates :: "'d chainstate \<Rightarrow> crash + 'd chainstate" where
  "PruneBlockIndexCandidates n =
     (case Tip (chainActive n) of
        None \<Rightarrow> Inl Assertion_failed
      | Some tip \<Rightarrow>
          let left_over = filter (\<lambda>p. \<not> work_less (blocks n) p tip) (setBlockIndexCandidates n) in
          if left_over = [] then Inl Assertion_failed else Inr (n\<lparr>setBlockIndexCandidates := left_over\<rparr>))"

section \<open>Activation\<close>

text \<open>Active blocks that are not in the best chain are disconnected.\<close>

partial_function (option) disconnect_to :: "'d world \<Rightarrow> ptr option \<Rightarrow> CValidationState \<Rightarrow> 'd chainstate \<Rightarrow> 'd outcome option" where
  "disconnect_to w pindexFork st n =
     (if Tip (chainActive n) \<noteq> None \<and> Tip (chainActive n) \<noteq> pindexFork
      then (case DisconnectTip w st n of
              Inl e \<Rightarrow> Some (Inl e)
            | Inr (ok, st', n') \<Rightarrow> if ok then disconnect_to w pindexFork st' n' else Some (Inr (False, st', n')))
      else Some (Inr (True, st, n)))"

text \<open>The entries above a height, from the highest to the lowest.\<close>

partial_function (option) blocks_above :: "block_store \<Rightarrow> int \<Rightarrow> ptr option \<Rightarrow> ptr list \<Rightarrow> ptr list option" where
  "blocks_above st h pindexIter vpindexToConnect =
     (case pindexIter of
        None \<Rightarrow> Some vpindexToConnect
      | Some p \<Rightarrow>
          (case st p of
             None \<Rightarrow> None
           | Some b \<Rightarrow> if nHeight b \<noteq> h then blocks_above st h (pprev b) (vpindexToConnect @ [p]) else Some vpindexToConnect))"

text \<open>A batch of blocks, the lowest first.  The result: whether to go on (\<open>return false\<close> otherwise), \<^verbatim>\<open>fContinue\<close>, and the
  states.\<close>

fun connect_list ::
    "'d world \<Rightarrow> ptr \<Rightarrow> CBlock option \<Rightarrow> ptr option \<Rightarrow> ptr \<Rightarrow> ptr list \<Rightarrow> CValidationState \<Rightarrow> 'd chainstate \<Rightarrow>
     crash + bool \<times> bool \<times> CValidationState \<times> 'd chainstate" where
  "connect_list w pindexMostWork pblock pindexOldTip lowest [] st n = Inr (True, True, st, n)"
| "connect_list w pindexMostWork pblock pindexOldTip lowest (p # ps) st n =
     (case ConnectTip w p (if p = pindexMostWork then pblock else None) st n of
        Inl e \<Rightarrow> Inl e
      | Inr (False, st', n') \<Rightarrow>
          if State_IsInvalid st'
          then Inr (True, False, CValidationState_new, if \<not> corruptionPossible st' then InvalidChainFound lowest n' else n')
          else Inr (False, False, st', n')
      | Inr (True, st', n') \<Rightarrow>
          (case PruneBlockIndexCandidates n' of
             Inl e \<Rightarrow> Inl e
           | Inr n'' \<Rightarrow>
               if (case (pindexOldTip, Tip (chainActive n'')) of (Some old, Some tip) \<Rightarrow> more_work (blocks n'') tip old | _ \<Rightarrow> True)
               then Inr (True, False, st', n'')
               else connect_list w pindexMostWork pblock pindexOldTip lowest ps st' n''))"

text \<open>Batches of 32 blocks, up to the height of the best block.\<close>

function connect_rounds ::
    "'d world \<Rightarrow> ptr \<Rightarrow> int \<Rightarrow> CBlock option \<Rightarrow> ptr option \<Rightarrow> int \<Rightarrow> CValidationState \<Rightarrow> 'd chainstate \<Rightarrow> 'd outcome option" where
  "connect_rounds w pindexMostWork mostHeight pblock pindexOldTip h st n =
     (if h = mostHeight then Some (Inr (True, st, n))
      else let nTargetHeight = min (h + 32) mostHeight in
        case blocks_above (blocks n) h (GetAncestor (blocks n) pindexMostWork nTargetHeight) [] of
          None \<Rightarrow> None
        | Some vpindexToConnect \<Rightarrow>
            (case connect_list w pindexMostWork pblock pindexOldTip (last vpindexToConnect) (rev vpindexToConnect) st n of
               Inl e \<Rightarrow> Some (Inl e)
             | Inr (ok, fContinue, st', n') \<Rightarrow>
                 if ok \<and> fContinue then connect_rounds w pindexMostWork mostHeight pblock pindexOldTip nTargetHeight st' n'
                 else Some (Inr (ok, st', n'))))"
  by pat_completeness auto
termination
  by (relation "measure (\<lambda>(w, p, mostHeight, pb, old, h, st, n). nat (mostHeight - h) + (if mostHeight < h then 1 else 0))")
    auto

declare connect_rounds.simps [simp del]

definition ActivateBestChainStep ::
    "'d world \<Rightarrow> ptr \<Rightarrow> CBlock option \<Rightarrow> CValidationState \<Rightarrow> 'd chainstate \<Rightarrow> 'd outcome option" where
  "ActivateBestChainStep w pindexMostWork pblock st n =
     (case blocks n pindexMostWork of
        None \<Rightarrow> Some (Inl Assertion_failed)
      | Some most \<Rightarrow>
          (case FindFork (blocks n) (chainActive n) pindexMostWork of
             None \<Rightarrow> Some (Inl Broken_index)
           | Some pindexFork \<Rightarrow>
               (case disconnect_to w pindexFork st n of
                  None \<Rightarrow> None
                | Some (Inl e) \<Rightarrow> Some (Inl e)
                | Some (Inr (ok, st', n')) \<Rightarrow>
                    if \<not> ok then Some (Inr (False, st', n'))
                    else connect_rounds w pindexMostWork (nHeight most) pblock (Tip (chainActive n))
                           (case Option.bind pindexFork (blocks n') of None \<Rightarrow> - 1 | Some fork \<Rightarrow> nHeight fork) st' n')))"

text \<open>A block that is already loaded is used if it is the best one.\<close>

definition loaded_block :: "'d world \<Rightarrow> CBlock option \<Rightarrow> ptr \<Rightarrow> 'd chainstate \<Rightarrow> CBlock option" where
  "loaded_block w pblock p n =
     (case (pblock, blocks n p) of
        (Some block, Some b) \<Rightarrow> if env_blockHash (node_env w n) block = phashBlock b then Some block else None
      | _ \<Rightarrow> None)"

partial_function (option) ActivateBestChain ::
    "'d world \<Rightarrow> CBlock option \<Rightarrow> CValidationState \<Rightarrow> 'd chainstate \<Rightarrow> 'd outcome option" where
  "ActivateBestChain w pblock st n =
     (case FindMostWorkChain n of
        None \<Rightarrow> None
      | Some (Inl e) \<Rightarrow> Some (Inl e)
      | Some (Inr (pindexMostWork, n1)) \<Rightarrow>
          if pindexMostWork = None \<or> pindexMostWork = Tip (chainActive n1) then Some (Inr (True, st, n1))
          else (case ActivateBestChainStep w (the pindexMostWork) (loaded_block w pblock (the pindexMostWork) n1) st n1 of
                  None \<Rightarrow> None
                | Some (Inl e) \<Rightarrow> Some (Inl e)
                | Some (Inr (ok, st', n2)) \<Rightarrow>
                    if \<not> ok then Some (Inr (False, st', n2))
                    else if Tip (chainActive n2) = None \<and> \<not> env_initialDownload (node_env w n2) then Some (Inl Assertion_failed)
                    else if pindexMostWork \<noteq> Tip (chainActive n2) then ActivateBestChain w pblock st' n2
                    else Some (FlushStateToDisk w FLUSH_STATE_PERIODIC st' n2)))"

end
