(* ===== verification/Activation.thy ===== *)
theory Activation
  imports ChainState Conservation
begin

text \<open>
  The search for the best chain and its activation: that every walk over a well-formed index ends, which candidate
  \<^verbatim>\<open>FindMostWorkChain\<close> returns and which it drops, and that \<^verbatim>\<open>ActivateBestChain\<close> ends with no candidate better than the tip.
\<close>

section \<open>What the operations leave alone\<close>

text \<open>Validation changes the status of an entry, never its place in the tree or its work.\<close>

definition shape :: "CBlockIndex \<Rightarrow> ptr option \<times> ptr option \<times> int \<times> base_uint \<times> u32 \<times> u32" where
  "shape b = (pprev b, pskip b, nHeight b, nChainWork b, nSequenceId b, nChainTx b)"

definition shapes :: "block_store \<Rightarrow> ptr \<Rightarrow> (ptr option \<times> ptr option \<times> int \<times> base_uint \<times> u32 \<times> u32) option" where
  "shapes st p = map_option shape (st p)"

lemma shapesD:
  assumes "shapes st = shapes st'" and "st p = Some b"
  shows "\<exists>b'. st' p = Some b' \<and> pprev b' = pprev b \<and> pskip b' = pskip b \<and> nHeight b' = nHeight b \<and>
    nChainWork b' = nChainWork b \<and> nSequenceId b' = nSequenceId b \<and> nChainTx b' = nChainTx b"
proof -
  have "map_option shape (st' p) = Some (shape b)"
    using fun_cong [OF assms(1), of p] assms(2) by (simp add: shapes_def)
  then show ?thesis by (auto simp: shape_def)
qed

lemma shapes_None: "shapes st = shapes st' \<Longrightarrow> st p = None \<longleftrightarrow> st' p = None"
  by (drule fun_cong [of _ _ p]) (auto simp: shapes_def)

lemma shapes_cases:
  assumes "shapes st = shapes st'"
  obtains "st p = None" "st' p = None"
  | b b' where "st p = Some b" "st' p = Some b'" "pprev b' = pprev b" "pskip b' = pskip b" "nHeight b' = nHeight b"
      "nChainWork b' = nChainWork b" "nSequenceId b' = nSequenceId b" "nChainTx b' = nChainTx b"
proof (cases "st p")
  case None
  then have "st' p = None" using shapes_None [OF assms, of p] by simp
  with None show ?thesis by (rule that(1))
next
  case (Some b)
  then show ?thesis using shapesD [OF assms Some] that(2) by blast
qed

lemma shapes_update: "st p = Some b \<Longrightarrow> shape b' = shape b \<Longrightarrow> shapes (st(p \<mapsto> b')) = shapes st"
  by (rule ext) (simp add: shapes_def)

lemma shapes_dom: "shapes st = shapes st' \<Longrightarrow> dom st = dom st'"
  by (rule set_eqI) (simp add: domIff shapes_None [of st st'])

lemma nth_prev_shapes: "shapes st = shapes st' \<Longrightarrow> nth_prev st k p = nth_prev st' k p"
proof (induction k arbitrary: p)
  case (Suc k)
  then show ?case by (cases rule: shapes_cases [OF Suc.prems, of p]) (auto split: bind_splits)
qed simp

lemma ancestor_at_shapes:
  assumes "shapes st = shapes st'"
  shows "ancestor_at st p h = ancestor_at st' p h"
  by (cases rule: shapes_cases [OF assms, of p]) (simp_all add: ancestor_at_def nth_prev_shapes [OF assms])

lemma wf_tree_shapes:
  assumes "shapes st = shapes st'" and "wf_tree st"
  shows "wf_tree st'"
  unfolding wf_tree_def
proof (intro allI impI)
  fix p b' assume b': "st' p = Some b'"
  then obtain b where b: "st p = Some b" "pprev b' = pprev b" "nHeight b' = nHeight b"
    by (cases rule: shapes_cases [OF assms(1), of p]) auto
  show "case pprev b' of None \<Rightarrow> nHeight b' = 0
      | Some q \<Rightarrow> 0 < nHeight b' \<and> (\<exists>c. st' q = Some c \<and> nHeight b' = nHeight c + 1)"
  proof (cases "pprev b")
    case None
    then show ?thesis using b wf_treeD(2) [OF assms(2) b(1)] by simp
  next
    case (Some q)
    obtain c where c: "st q = Some c" "nHeight b = nHeight c + 1" using wf_treeD(3) [OF assms(2) b(1) Some] by blast
    then obtain c' where "st' q = Some c'" "nHeight c' = nHeight c"
      using shapesD [OF assms(1) c(1)] by blast
    with c b Some wf_treeD(1) [OF assms(2) c(1)] show ?thesis by simp
  qed
qed

lemma wf_skip_shapes:
  assumes "shapes st = shapes st'" and "wf_skip st"
  shows "wf_skip st'"
  unfolding wf_skip_def
proof (intro allI impI)
  fix p b' assume b': "st' p = Some b'" and prev: "pprev b' \<noteq> None"
  then obtain b where "st p = Some b" "pprev b = pprev b'" "nHeight b = nHeight b'" "pskip b = pskip b'"
    by (cases rule: shapes_cases [OF assms(1), of p]) auto
  then have "pskip b' = ancestor_at st p (GetSkipHeight (nHeight b'))"
    using assms(2) prev unfolding wf_skip_def by metis
  then show "pskip b' = ancestor_at st' p (GetSkipHeight (nHeight b'))" by (simp add: ancestor_at_shapes [OF assms(1)])
qed

lemma is_chain_shapes:
  assumes "shapes st = shapes st'" and "is_chain st v"
  shows "is_chain st' v"
proof -
  have link: "linked_upto st v (length v)" and set: "None \<notin> set v" using assms(2) by (simp_all add: is_chain_def)
  have "\<exists>b. st' p = Some b \<and> nHeight b = int i \<and> (0 < i \<longrightarrow> pprev b = v ! (i - 1))" if i: "i < length v" "v ! i = Some p" for i p
  proof -
    obtain b where b: "st p = Some b" "nHeight b = int i" "0 < i \<longrightarrow> pprev b = v ! (i - 1)"
      using link i unfolding linked_upto_def by blast
    obtain b' where "st' p = Some b'" "pprev b' = pprev b" "nHeight b' = nHeight b" using shapesD [OF assms(1) b(1)] by blast
    with b show ?thesis by simp
  qed
  with set show ?thesis unfolding is_chain_def linked_upto_def by simp
qed

lemma Contains_shapes:
  assumes "shapes st = shapes st'"
  shows "Contains st v p \<longleftrightarrow> Contains st' v p"
  by (cases rule: shapes_cases [OF assms, of p]) (simp_all add: Contains_def)

lemma work_less_shapes:
  assumes "shapes st = shapes st'"
  shows "work_less st p q \<longleftrightarrow> work_less st' p q"
  by (cases rule: shapes_cases [OF assms, of p]; cases rule: shapes_cases [OF assms, of q]) (simp_all add: work_less_def)

lemma more_work_shapes:
  assumes "shapes st = shapes st'"
  shows "more_work st p q \<longleftrightarrow> more_work st' p q"
  by (cases rule: shapes_cases [OF assms, of p]; cases rule: shapes_cases [OF assms, of q]) (simp_all add: more_work_def)

section \<open>The order of the candidates\<close>

text \<open>The work of a block as a number; the words of a stored number have the width of the type.\<close>

definition chain_work :: "block_store \<Rightarrow> ptr \<Rightarrow> nat" where
  "chain_work st p = (case st p of None \<Rightarrow> 0 | Some b \<Rightarrow> uval (nChainWork b))"

definition work_width :: "block_store \<Rightarrow> bool" where
  "work_width st \<longleftrightarrow> (\<forall>p b. st p = Some b \<longrightarrow> length (nChainWork b) = 8)"

lemma work_widthD: "work_width st \<Longrightarrow> st p = Some b \<Longrightarrow> length (nChainWork b) = 8"
  by (simp add: work_width_def)

lemma work_width_shapes:
  assumes "shapes st = shapes st'" and "work_width st"
  shows "work_width st'"
  unfolding work_width_def
proof (intro allI impI)
  fix p b' assume "st' p = Some b'"
  then obtain b where "st p = Some b" "nChainWork b' = nChainWork b"
    by (cases rule: shapes_cases [OF assms(1), of p]) auto
  then show "length (nChainWork b') = 8" using work_widthD [OF assms(2)] by simp
qed

lemma chain_work_shapes: "shapes st = shapes st' \<Longrightarrow> chain_work st p = chain_work st' p"
  by (cases rule: shapes_cases [of st st' p]) (simp_all add: chain_work_def)

lemma more_work_iff:
  assumes "work_width st" and "p \<in> dom st" and "q \<in> dom st"
  shows "more_work st p q \<longleftrightarrow> chain_work st q < chain_work st p"
  using assms by (auto simp: more_work_def chain_work_def CompareTo_iff work_widthD)

lemma work_less_iff:
  assumes "work_width st" and "st p = Some a" and "st q = Some b"
  shows "work_less st p q \<longleftrightarrow> uval (nChainWork a) < uval (nChainWork b) \<or> uval (nChainWork a) = uval (nChainWork b) \<and>
    (unat (nSequenceId b) < unat (nSequenceId a) \<or> unat (nSequenceId a) = unat (nSequenceId b) \<and> q < p)"
proof -
  have len: "length (nChainWork a) = length (nChainWork b)" using work_widthD [OF assms(1)] assms(2,3) by simp
  show ?thesis
    by (auto simp: work_less_def assms(2,3) CompareTo_iff [OF len] word_less_nat_alt)
qed

lemma work_less_work:
  assumes "work_width st" and "p \<in> dom st" and "q \<in> dom st" and "\<not> work_less st p q"
  shows "chain_work st q \<le> chain_work st p"
  using assms by (auto simp: work_less_iff chain_work_def)

lemma work_less_total:
  assumes "work_width st" and "a \<in> dom st" and "b \<in> dom st" and "c \<in> dom st"
    and "\<not> work_less st a b" and "\<not> work_less st b c"
  shows "\<not> work_less st a c"
proof -
  obtain x y z where xyz: "st a = Some x" "st b = Some y" "st c = Some z" using assms(2-4) by auto
  show ?thesis
    using assms(5,6) unfolding work_less_iff [OF assms(1) xyz(1,2)] work_less_iff [OF assms(1) xyz(2,3)]
      work_less_iff [OF assms(1) xyz(1,3)] by linarith
qed

lemma best_candidate_None [simp]: "best_candidate st ps = None \<longleftrightarrow> ps = []"
  by (simp add: best_candidate_def split: list.split)

lemma fold_best:
  assumes "work_width st" and "insert p (set qs) \<subseteq> dom st"
  defines "r \<equiv> fold (\<lambda>q best. if work_less st best q then q else best) qs p"
  shows "r \<in> insert p (set qs) \<and> (\<forall>q \<in> insert p (set qs). \<not> work_less st r q)"
  using assms(2) unfolding r_def
proof (induction qs arbitrary: p)
  case Nil
  then show ?case using assms(1) by (auto simp: work_less_iff)
next
  case (Cons q qs)
  let ?m = "if work_less st p q then q else p"
  have m: "\<not> work_less st ?m p" "\<not> work_less st ?m q"
    using Cons.prems assms(1) by (auto simp: work_less_iff)
  define x where "x = (if work_less st p q then q else p)"
  define r where "r = fold (\<lambda>q best. if work_less st best q then q else best) qs x"
  have "insert x (set qs) \<subseteq> dom st" using Cons.prems by (simp add: x_def)
  note r = Cons.IH [OF this, folded r_def]
  have dom: "r \<in> dom st" "x \<in> dom st" "p \<in> dom st" "q \<in> dom st" using r Cons.prems by (auto simp: x_def)
  have "\<not> work_less st r x" using r by blast
  then have "\<not> work_less st r p" "\<not> work_less st r q"
    using work_less_total [OF assms(1) dom(1,2) dom(3)] work_less_total [OF assms(1) dom(1,2) dom(4)] m [folded x_def] by blast+
  moreover have "r \<in> insert p (set (q # qs))" using r by (auto simp: x_def split: if_splits)
  ultimately show ?case using r by (simp add: r_def x_def)
qed

lemma best_candidate_Some:
  assumes "work_width st" and "set ps \<subseteq> dom st" and "best_candidate st ps = Some p"
  shows "p \<in> set ps" and "\<And>q. q \<in> set ps \<Longrightarrow> \<not> work_less st p q"
proof -
  obtain q qs where ps: "ps = q # qs" using assms(3) by (cases ps) (simp_all add: best_candidate_def)
  show "p \<in> set ps" and "\<And>q. q \<in> set ps \<Longrightarrow> \<not> work_less st p q"
    using fold_best [OF assms(1), of q qs] assms(2,3) by (auto simp: best_candidate_def ps)
qed

section \<open>The state of the node\<close>

text \<open>A candidate has all its transactions and those of its predecessors.\<close>

definition has_txs :: "CBlockIndex \<Rightarrow> bool" where
  "has_txs b \<longleftrightarrow> nChainTx b \<noteq> 0 \<or> nHeight b = 0"

definition index_ok :: "block_store \<Rightarrow> bool" where
  "index_ok st \<longleftrightarrow> wf_tree st \<and> wf_skip st \<and> work_width st \<and> finite (dom st) \<and>
     (\<forall>p b q c. st p = Some b \<longrightarrow> has_txs b \<longrightarrow> pprev b = Some q \<longrightarrow> st q = Some c \<longrightarrow> has_txs c)"

definition chain_ok :: "'d chainstate \<Rightarrow> bool" where
  "chain_ok n \<longleftrightarrow> index_ok (blocks n) \<and> is_chain (blocks n) (chainActive n) \<and>
     (\<forall>p \<in> set (setBlockIndexCandidates n). \<exists>b. blocks n p = Some b \<and> has_txs b)"

lemma index_okD:
  assumes "index_ok st"
  shows "wf_tree st" "wf_skip st" "work_width st" "finite (dom st)"
    "st p = Some b \<Longrightarrow> has_txs b \<Longrightarrow> pprev b = Some q \<Longrightarrow> st q = Some c \<Longrightarrow> has_txs c"
  using assms unfolding index_ok_def by blast+

lemma chain_okD:
  assumes "chain_ok n"
  shows "index_ok (blocks n)" "is_chain (blocks n) (chainActive n)"
    "p \<in> set (setBlockIndexCandidates n) \<Longrightarrow> \<exists>b. blocks n p = Some b \<and> has_txs b"
    "set (setBlockIndexCandidates n) \<subseteq> dom (blocks n)"
  using assms unfolding chain_ok_def by (simp_all add: subset_iff domIff) blast

lemma index_ok_shapes:
  assumes sh: "shapes st = shapes st'" and ok: "index_ok st"
  shows "index_ok st'"
proof -
  have "has_txs c" if *: "st' p = Some b" "has_txs b" "pprev b = Some q" "st' q = Some c" for p b q c
  proof -
    obtain b0 where b0: "st p = Some b0" "has_txs b0" "pprev b0 = Some q"
      using shapesD [OF sh [symmetric] *(1)] *(2,3) by (auto simp: has_txs_def)
    obtain c0 where c0: "st q = Some c0" "has_txs c0 = has_txs c"
      using shapesD [OF sh [symmetric] *(4)] by (auto simp: has_txs_def)
    show ?thesis using index_okD(5) [OF ok b0 c0(1)] c0(2) by simp
  qed
  then show ?thesis
    using wf_tree_shapes [OF sh] wf_skip_shapes [OF sh] work_width_shapes [OF sh] shapes_dom [OF sh] index_okD(1-4) [OF ok]
    unfolding index_ok_def by metis
qed

lemma chain_ok_shapes:
  assumes "chain_ok n" and "shapes (blocks n) = shapes (blocks n')" and "is_chain (blocks n') (chainActive n')"
    and "set (setBlockIndexCandidates n') \<subseteq> set (setBlockIndexCandidates n)"
  shows "chain_ok n'"
proof -
  have "\<exists>b. blocks n' p = Some b \<and> has_txs b" if p: "p \<in> set (setBlockIndexCandidates n')" for p
  proof -
    obtain b where b: "blocks n p = Some b" "has_txs b" using chain_okD(3) [OF assms(1)] p assms(4) by blast
    then show ?thesis using shapesD [OF assms(2) b(1)] by (auto simp: has_txs_def)
  qed
  then show ?thesis using index_ok_shapes [OF assms(2) chain_okD(1) [OF assms(1)]] assms(3) by (simp add: chain_ok_def)
qed

section \<open>Branches that cannot be used\<close>

inductive bad_branch :: "block_store \<Rightarrow> CChain \<Rightarrow> ptr \<Rightarrow> bool" for st v where
  here: "st p = Some b \<Longrightarrow> \<not> Contains st v p \<Longrightarrow> unusable_entry b \<Longrightarrow> bad_branch st v p"
| above: "st p = Some b \<Longrightarrow> pprev b = Some q \<Longrightarrow> bad_branch st v q \<Longrightarrow> bad_branch st v p"

inductive leads :: "block_store \<Rightarrow> ptr \<Rightarrow> ptr \<Rightarrow> bool" for st q where
  refl: "leads st q q"
| step: "st p = Some b \<Longrightarrow> pprev b = Some r \<Longrightarrow> leads st q r \<Longrightarrow> leads st q p"

lemma bad_branch_leads: "leads st q p \<Longrightarrow> bad_branch st v q \<Longrightarrow> bad_branch st v p"
  by (induction rule: leads.induct) (auto intro: bad_branch.above)

lemma Contains_pprev:
  assumes "wf_tree st" and "is_chain st v" and "Contains st v p" and "st p = Some b" and "pprev b = Some q"
  shows "Contains st v q"
proof -
  have h: "0 \<le> nHeight b" "nHeight b < int (length v)" "v ! nat (nHeight b) = Some p"
    using assms(3,4) by (auto simp: Contains_def chain_at_def split: if_splits)
  obtain c where c: "st q = Some c" "nHeight b = nHeight c + 1" using wf_treeD(3) [OF assms(1,4,5)] by blast
  have c0: "0 \<le> nHeight c" using wf_treeD(1) [OF assms(1) c(1)] .
  have "nat (nHeight b) < length v" "0 < nat (nHeight b)" using h c c0 by auto
  then have "pprev b = v ! (nat (nHeight b) - 1)"
    using assms(2,4) h(3) unfolding is_chain_def linked_upto_def by fastforce
  moreover have "nat (nHeight b) - 1 = nat (nHeight c)" using c(2) c0 by simp
  ultimately show ?thesis using assms(5) c c0 h by (simp add: Contains_def chain_at_def)
qed

lemma not_bad_in_chain:
  assumes "wf_tree st" and "is_chain st v"
  shows "bad_branch st v p \<Longrightarrow> \<not> Contains st v p"
  by (induction rule: bad_branch.induct) (use Contains_pprev [OF assms] in blast)+

lemma first_unusable_correct:
  assumes "index_ok st" and "is_chain st v"
  shows "st p = Some b \<Longrightarrow> has_txs b \<Longrightarrow>
    first_unusable st v (Some p) = Some (Inr None) \<and> \<not> bad_branch st v p \<or>
    (\<exists>q c. first_unusable st v (Some p) = Some (Inr (Some q)) \<and> leads st q p \<and> st q = Some c \<and> unusable_entry c \<and> \<not> Contains st v q)"
proof (induction "nat (nHeight b)" arbitrary: p b rule: less_induct)
  case less
  note wf = index_okD(1) [OF assms(1)]
  have tx: "\<not> (nChainTx b = 0 \<and> nHeight b \<noteq> 0)" using less.prems(2) by (auto simp: has_txs_def)
  consider "Contains st v p" | "\<not> Contains st v p" "unusable_entry b" | "\<not> Contains st v p" "\<not> unusable_entry b" by blast
  then show ?case
  proof cases
    case 1
    then show ?thesis
      using not_bad_in_chain [OF wf assms(2), of p] by (subst (1) first_unusable.simps) auto
  next
    case 2
    have "first_unusable st v (Some p) = Some (Inr (Some p))"
      using 2 less.prems tx by (subst first_unusable.simps) simp
    with 2 less.prems leads.refl [of st p] show ?thesis by blast
  next
    case 3
    have step: "first_unusable st v (Some p) = first_unusable st v (pprev b)"
      using 3 less.prems tx by (subst first_unusable.simps) auto
    have only: "bad_branch st v p \<Longrightarrow> \<exists>r. pprev b = Some r \<and> bad_branch st v r"
      using 3 less.prems(1) by (auto elim: bad_branch.cases)
    show ?thesis
    proof (cases "pprev b")
      case None
      then have "first_unusable st v (Some p) = Some (Inr None)" by (simp add: step first_unusable.simps [of st v None])
      with only None show ?thesis by auto
    next
      case (Some r)
      obtain c where c: "st r = Some c" "nHeight b = nHeight c + 1" using wf_treeD(3) [OF wf less.prems(1) Some] by blast
      have lt: "nat (nHeight c) < nat (nHeight b)" using c(2) wf_treeD(1) [OF wf c(1)] by simp
      have IH: "first_unusable st v (Some r) = Some (Inr None) \<and> \<not> bad_branch st v r \<or>
        (\<exists>q c. first_unusable st v (Some r) = Some (Inr (Some q)) \<and> leads st q r \<and> st q = Some c \<and> unusable_entry c \<and> \<not> Contains st v q)"
        using less.hyps [OF lt c(1) index_okD(5) [OF assms(1) less.prems Some c(1)]] .
      show ?thesis
        using IH only leads.step [of st p b r, OF less.prems(1) Some] by (auto simp: step Some)
    qed
  qed
qed

section \<open>Marking\<close>

text \<open>An entry that cannot be used stays so, and the shape of the index is kept.\<close>

definition failed_blocks :: "block_store \<Rightarrow> ptr set" where
  "failed_blocks st = {p. \<exists>b. st p = Some b \<and> nStatus b AND BLOCK_FAILED_MASK \<noteq> 0}"

definition unusable_blocks :: "block_store \<Rightarrow> ptr set" where
  "unusable_blocks st = {p. \<exists>b. st p = Some b \<and> unusable_entry b}"

lemma add_status_simps [simp]:
  "shapes (add_status f p st) = shapes st" "dom (add_status f p st) = dom st"
  by (cases "st p"; simp add: add_status_def shapes_update shape_def; auto)+

lemma status_bits: 
  fixes s :: u32
  shows "(s OR 64) AND 96 \<noteq> 0" "(s OR 32) AND 96 \<noteq> 0" "(s OR 64) AND 8 = s AND 8"  "(s OR 32) AND 8 = s AND 8"
  by (simp_all add: bit.conj_disj_distrib2 or_eq_0_iff)

lemma add_status_blocks:
  assumes "f = BLOCK_FAILED_VALID \<or> f = BLOCK_FAILED_CHILD"
  shows "failed_blocks (add_status f p st) = failed_blocks st \<union> ({p} \<inter> dom st)"
    "unusable_blocks (add_status f p st) = unusable_blocks st \<union> ({p} \<inter> dom st)"
  using assms
  by (auto simp: failed_blocks_def unusable_blocks_def unusable_entry_def add_status_def status_bits BLOCK_HAVE_DATA_def
      BLOCK_FAILED_VALID_def BLOCK_FAILED_CHILD_def split: option.splits if_splits)

text \<open>What every operation of this section keeps.\<close>

definition keeps :: "'d chainstate \<Rightarrow> 'd chainstate \<Rightarrow> bool" where
  "keeps n n' \<longleftrightarrow> shapes (blocks n) = shapes (blocks n') \<and> failed_blocks (blocks n) \<subseteq> failed_blocks (blocks n') \<and>
     set (setBlockIndexCandidates n') \<subseteq> set (setBlockIndexCandidates n)"

lemma keeps_refl [simp]: "keeps n n" by (simp add: keeps_def)

lemma keeps_trans [trans]: "keeps a b \<Longrightarrow> keeps b c \<Longrightarrow> keeps a c" unfolding keeps_def by auto

lemma chain_ok_keeps:
  assumes "chain_ok n" and "keeps n n'" and "chainActive n' = chainActive n \<or> is_chain (blocks n) (chainActive n')"
  shows "chain_ok n'"
proof -
  have sh: "shapes (blocks n) = shapes (blocks n')" using assms(2) by (simp add: keeps_def)
  have "is_chain (blocks n) (chainActive n')" using assms(3) chain_okD(2) [OF assms(1)] by auto
  then show ?thesis using chain_ok_shapes [OF assms(1) sh is_chain_shapes [OF sh]] assms(2) by (simp add: keeps_def)
qed

lemma InvalidChainFound_simps [simp]:
  "blocks (InvalidChainFound p n) = blocks n" "chainActive (InvalidChainFound p n) = chainActive n"
  "setBlockIndexCandidates (InvalidChainFound p n) = setBlockIndexCandidates n"
  by (auto simp: InvalidChainFound_def split: option.splits)

lemma leads_shapes:
  assumes "shapes st = shapes st'"
  shows "leads st q p \<Longrightarrow> leads st' q p"
proof (induction rule: leads.induct)
  case (step p b r)
  obtain b' where "st' p = Some b'" "pprev b' = pprev b" using shapesD [OF assms step.hyps(1)] by blast
  with step show ?case by (auto intro: leads.step)
qed (rule leads.refl)

text \<open>The entries that are dropped lie between the candidate and the unusable entry; only they are marked.\<close>

definition dropped :: "ptr \<Rightarrow> 'd chainstate \<Rightarrow> 'd chainstate \<Rightarrow> bool" where
  "dropped q n n' \<longleftrightarrow> keeps n n' \<and> chainActive n' = chainActive n \<and> unusable_blocks (blocks n) \<subseteq> unusable_blocks (blocks n') \<and>
     (\<forall>x \<in> unusable_blocks (blocks n') - unusable_blocks (blocks n). leads (blocks n) q x) \<and>
     (\<forall>x \<in> set (setBlockIndexCandidates n) - set (setBlockIndexCandidates n'). leads (blocks n) q x)"

lemma dropped_trans:
  assumes "dropped q a b" and "dropped q b c"
  shows "dropped q a c"
proof -
  have "shapes (blocks b) = shapes (blocks a)" using assms(1) by (simp add: dropped_def keeps_def)
  note leads_shapes [OF this]
  then show ?thesis using assms unfolding dropped_def by (auto intro: keeps_trans) blast+
qed

definition drop_entry :: "bool \<Rightarrow> ptr \<Rightarrow> ptr option \<Rightarrow> 'd chainstate \<Rightarrow> 'd chainstate" where
  "drop_entry fFailedChain q prev n =
     (if fFailedChain then n\<lparr>blocks := add_status BLOCK_FAILED_CHILD q (blocks n)\<rparr>
      else n\<lparr>mapBlocksUnlinked := mapBlocksUnlinked n @ [(prev, q)]\<rparr>)
     \<lparr>setBlockIndexCandidates := removeAll q (setBlockIndexCandidates n)\<rparr>"

lemma drop_entry_dropped: "leads (blocks n) q p \<Longrightarrow> dropped q n (drop_entry f p prev n)"
  by (auto simp: dropped_def keeps_def drop_entry_def add_status_blocks)

lemma discard_chain_correct:
  "leads (blocks n) q p \<Longrightarrow>
    \<exists>n'. discard_chain f q (Some p) n = Some (Inr n') \<and> dropped q n n' \<and> p \<notin> set (setBlockIndexCandidates n')"
proof -
  have "\<exists>n'. discard_chain f q (Some p) n = Some (Inr n') \<and> dropped q n n' \<and> p \<notin> set (setBlockIndexCandidates n')"
    if "leads st q p" and "shapes st = shapes (blocks n)" for st :: block_store
    using that
  proof (induction arbitrary: n rule: leads.induct)
    case refl
    have "dropped q n (n\<lparr>setBlockIndexCandidates := removeAll q (setBlockIndexCandidates n)\<rparr>)"
      by (auto simp: dropped_def keeps_def intro: leads.refl)
    then show ?case by (subst discard_chain.simps) simp
  next
    case (step p b r)
    show ?case
    proof (cases "p = q")
      case True
      have "dropped q n (n\<lparr>setBlockIndexCandidates := removeAll q (setBlockIndexCandidates n)\<rparr>)"
        by (auto simp: dropped_def keeps_def intro: leads.refl)
      then show ?thesis using True by (subst discard_chain.simps) simp
    next
      case False
      obtain c where c: "blocks n p = Some c" "pprev c = Some r" using shapesD [OF step.prems step.hyps(1)] step.hyps(2) by auto
      let ?n1 = "drop_entry f p (Some r) n"
      have d: "dropped q n ?n1"
        using leads_shapes [OF step.prems] step.hyps by (intro drop_entry_dropped) (blast intro: leads.step)
      then have "shapes st = shapes (blocks ?n1)" using step.prems by (simp add: dropped_def keeps_def)
      from step.IH [OF this] obtain n' where n': "discard_chain f q (Some r) ?n1 = Some (Inr n')" "dropped q ?n1 n'" by blast
      have "discard_chain f q (Some p) n = discard_chain f q (Some r) ?n1"
        using False c by (subst discard_chain.simps) (simp add: drop_entry_def)
      moreover have "p \<notin> set (setBlockIndexCandidates n')"
        using n'(2) by (auto simp: dropped_def keeps_def drop_entry_def)
      ultimately show ?thesis using n' dropped_trans [OF d n'(2)] by auto
    qed
  qed
  then show "leads (blocks n) q p \<Longrightarrow> ?thesis" by blast
qed

lemma bad_branch_mono:
  assumes "shapes st = shapes st'" and "\<And>p b. st p = Some b \<Longrightarrow> unusable_entry b \<Longrightarrow> \<not> Contains st v p \<Longrightarrow> bad_branch st' v p"
  shows "bad_branch st v p \<Longrightarrow> bad_branch st' v p"
proof (induction rule: bad_branch.induct)
  case (above p b q)
  obtain b' where "st' p = Some b'" "pprev b' = pprev b" using shapesD [OF assms(1) above.hyps(1)] by blast
  with above show ?case by (auto intro: bad_branch.above)
qed (use assms(2) in blast)

lemma dropped_bad_branch:
  assumes d: "dropped q n n'" and q: "bad_branch (blocks n) v q"
  shows "bad_branch (blocks n') v p \<longleftrightarrow> bad_branch (blocks n) v p"
proof
  have sh: "shapes (blocks n) = shapes (blocks n')" using d by (simp add: dropped_def keeps_def)
  show "bad_branch (blocks n') v p" if "bad_branch (blocks n) v p"
  proof (rule bad_branch_mono [OF sh _ that])
    fix x b assume x: "blocks n x = Some b" "unusable_entry b" "\<not> Contains (blocks n) v x"
    then have "x \<in> unusable_blocks (blocks n')" using d by (auto simp: dropped_def unusable_blocks_def)
    with x(3) show "bad_branch (blocks n') v x"
      using Contains_shapes [OF sh, of v x] by (auto simp: unusable_blocks_def intro: bad_branch.here)
  qed
  show "bad_branch (blocks n) v p" if "bad_branch (blocks n') v p"
  proof (rule bad_branch_mono [OF sh [symmetric] _ that])
    fix x b assume x: "blocks n' x = Some b" "unusable_entry b" "\<not> Contains (blocks n') v x"
    show "bad_branch (blocks n) v x"
    proof (cases "x \<in> unusable_blocks (blocks n)")
      case True
      then show ?thesis using x(3) Contains_shapes [OF sh, of v x] by (auto simp: unusable_blocks_def intro: bad_branch.here)
    next
      case False
      then have "leads (blocks n) q x" using x d by (auto simp: dropped_def unusable_blocks_def)
      then show ?thesis using q by (rule bad_branch_leads)
    qed
  qed
qed

definition best_of :: "'d chainstate \<Rightarrow> ptr option \<Rightarrow> bool" where
  "best_of n r \<longleftrightarrow>
     (case r of
        None \<Rightarrow> \<forall>q \<in> set (setBlockIndexCandidates n). bad_branch (blocks n) (chainActive n) q
      | Some p \<Rightarrow> p \<in> set (setBlockIndexCandidates n) \<and> \<not> bad_branch (blocks n) (chainActive n) p \<and>
          (\<forall>q \<in> set (setBlockIndexCandidates n). \<not> bad_branch (blocks n) (chainActive n) q \<longrightarrow> \<not> work_less (blocks n) p q))"

lemma best_of_dropped:
  assumes "dropped q n n'" and "bad_branch (blocks n) (chainActive n) q" and "best_of n' r"
  shows "best_of n r"
proof -
  have sh: "shapes (blocks n) = shapes (blocks n')" and v: "chainActive n' = chainActive n"
    and sub: "set (setBlockIndexCandidates n') \<subseteq> set (setBlockIndexCandidates n)"
    using assms(1) by (simp_all add: dropped_def keeps_def)
  note bad = dropped_bad_branch [OF assms(1,2)]
  have gone: "x \<in> set (setBlockIndexCandidates n')"
    if "x \<in> set (setBlockIndexCandidates n)" "\<not> bad_branch (blocks n) (chainActive n) x" for x
    using that assms(1) bad_branch_leads [OF _ assms(2)] by (auto simp: dropped_def)
  show ?thesis
  proof (cases r)
    case None
    then show ?thesis using assms(3) gone bad v by (auto simp: best_of_def)
  next
    case (Some p)
    then show ?thesis using assms(3) gone sub by (auto simp: best_of_def bad v work_less_shapes [OF sh])
  qed
qed

lemma FindMostWorkChain_spec:
  "chain_ok n \<Longrightarrow> \<exists>r n'. FindMostWorkChain n = Some (Inr (r, n')) \<and> keeps n n' \<and> chain_ok n' \<and>
    chainActive n' = chainActive n \<and> best_of n r \<and>
    (\<forall>q \<in> set (setBlockIndexCandidates n) - set (setBlockIndexCandidates n'). bad_branch (blocks n) (chainActive n) q) \<and>
    (\<forall>q \<in> set (setBlockIndexCandidates n'). case r of None \<Rightarrow> False | Some p \<Rightarrow> \<not> work_less (blocks n') p q) \<and>
    (\<forall>p. r = Some p \<longrightarrow> p \<in> set (setBlockIndexCandidates n') \<and> \<not> bad_branch (blocks n') (chainActive n') p)"
proof (induction "card (set (setBlockIndexCandidates n))" arbitrary: n rule: less_induct)
  case less
  note ok = chain_okD(1,2,4) [OF less.prems] and wf = index_okD(1,3) [OF chain_okD(1) [OF less.prems]]
  show ?case
  proof (cases "best_candidate (blocks n) (setBlockIndexCandidates n)")
    case None
    then have "FindMostWorkChain n = Some (Inr (None, n))" by (subst FindMostWorkChain.simps) (simp only: option.case)
    with None less.prems show ?thesis by (auto simp: best_of_def)
  next
    case (Some p)
    note best = best_candidate_Some [OF wf(2) ok(3) Some]
    obtain b where b: "blocks n p = Some b" "has_txs b" using chain_okD(3) [OF less.prems best(1)] by blast
    consider "first_unusable (blocks n) (chainActive n) (Some p) = Some (Inr None)" "\<not> bad_branch (blocks n) (chainActive n) p"
      | q c where "first_unusable (blocks n) (chainActive n) (Some p) = Some (Inr (Some q))" "leads (blocks n) q p"
          "blocks n q = Some c" "unusable_entry c" "\<not> Contains (blocks n) (chainActive n) q"
      using first_unusable_correct [OF ok(1,2) b] by blast
    then show ?thesis
    proof cases
      case 1
      then have "FindMostWorkChain n = Some (Inr (Some p, n))" by (subst FindMostWorkChain.simps) (simp add: Some)
      with 1 best less.prems show ?thesis by (auto simp: best_of_def)
    next
      case 2
      define f where "f = (nStatus c AND BLOCK_FAILED_MASK \<noteq> 0)"
      define n0 where "n0 = (if f then InvalidChainFound p n else n)"
      have n0 [simp]: "blocks n0 = blocks n" "chainActive n0 = chainActive n"
          "setBlockIndexCandidates n0 = setBlockIndexCandidates n" by (simp_all add: n0_def)
      obtain n1 where n1: "discard_chain f q (Some p) n0 = Some (Inr n1)" "dropped q n0 n1" "p \<notin> set (setBlockIndexCandidates n1)"
        using discard_chain_correct [of n0 q p f] 2(2) by auto
      have d: "dropped q n n1" using n1(2) by (simp add: dropped_def keeps_def)
      then have k: "keeps n n1" "chainActive n1 = chainActive n" by (simp_all add: dropped_def)
      have q: "bad_branch (blocks n) (chainActive n) q" using 2(3-5) by (auto intro: bad_branch.here)
      have step: "FindMostWorkChain n = FindMostWorkChain n1"
        using 2(1,3) n1(1) by (subst FindMostWorkChain.simps) (simp add: Some f_def [symmetric] n0_def [symmetric])
      have ok1: "chain_ok n1"
        using chain_ok_keeps [OF less.prems k(1)] k(2) by simp
      have "set (setBlockIndexCandidates n1) \<subset> set (setBlockIndexCandidates n)"
        using k(1) n1(3) best(1) by (auto simp: keeps_def)
      then have "card (set (setBlockIndexCandidates n1)) < card (set (setBlockIndexCandidates n))"
        by (intro psubset_card_mono) simp_all
      from less.hyps [OF this ok1] obtain r n' where IH: "FindMostWorkChain n1 = Some (Inr (r, n'))" "keeps n1 n'" "chain_ok n'"
          "chainActive n' = chainActive n1" "best_of n1 r"
          "\<forall>q \<in> set (setBlockIndexCandidates n1) - set (setBlockIndexCandidates n'). bad_branch (blocks n1) (chainActive n1) q"
          "\<forall>q \<in> set (setBlockIndexCandidates n'). case r of None \<Rightarrow> False | Some p \<Rightarrow> \<not> work_less (blocks n') p q"
          "\<forall>p. r = Some p \<longrightarrow> p \<in> set (setBlockIndexCandidates n') \<and> \<not> bad_branch (blocks n') (chainActive n') p"
        by blast
      have "bad_branch (blocks n) (chainActive n) x"
        if "x \<in> set (setBlockIndexCandidates n) - set (setBlockIndexCandidates n')" for x
      proof (cases "x \<in> set (setBlockIndexCandidates n1)")
        case True
        then show ?thesis using that IH(6) dropped_bad_branch [OF d q] k(2) by simp
      next
        case False
        then have "leads (blocks n) q x" using that d by (simp add: dropped_def)
        then show ?thesis using q by (rule bad_branch_leads)
      qed
      then show ?thesis
        using IH step k(2) keeps_trans [OF k(1) IH(2)] best_of_dropped [OF d q IH(5)] by (intro exI [of _ r] exI [of _ n']) simp
    qed
  qed
qed

section \<open>Connecting a block\<close>

lemma raise_bits: "((s AND - 8) OR 5) AND 96 = s AND 96" "(s OR 16) AND 96 = s AND 96" for s :: u32
  by (simp_all add: bit.conj_disj_distrib2 and.assoc)

definition same_entry :: "CBlockIndex \<Rightarrow> CBlockIndex \<Rightarrow> bool" where
  "same_entry b b' \<longleftrightarrow> shape b' = shape b \<and> nStatus b' AND BLOCK_FAILED_MASK = nStatus b AND BLOCK_FAILED_MASK"

lemma write_undo_same: "write_undo io pindex st = Some (Inr p) \<Longrightarrow> same_entry pindex p"
  by (auto simp: write_undo_def RaiseValidity_def same_entry_def shape_def raise_bits BLOCK_HAVE_UNDO_def BLOCK_VALID_SCRIPTS_def Let_def
      split: option.splits if_splits sum.splits)

lemma finish_block_same:
  assumes "finish_block env io phash prev fJustCheck block pindex st rejected cs = Some r"
  shows "same_entry pindex (cr_pindex r)"
  using assms
  by (auto simp: finish_block_def Let_def same_entry_def shape_def dest!: write_undo_same split: option.splits if_splits sum.splits)

lemma ConnectBlock_same:
  assumes "ConnectBlock V env io phash pindex prev fJustCheck block st rejected c = Some r"
  shows "same_entry pindex (cr_pindex r)"
  using assms
  by (auto simp: ConnectBlock_def Let_def same_entry_def [of pindex pindex] dest!: finish_block_same split: option.splits if_splits sum.splits prod.splits bool.splits)

text \<open>The failures that the code takes for a damaged copy of the block: its header, its Merkle tree, or the number of its
  signature operations is wrong.  A block that is stored passed these checks before.\<close>

definition intact :: "block_env \<Rightarrow> CBlock \<Rightarrow> bool" where
  "intact env block \<longleftrightarrow>
     (CBlock_IsProofOfWork block \<longrightarrow> CheckProofOfWork (env_params env) (env_blockHash env block) (block_nBits block)) \<and>
     (case BuildMerkleTree (map (Serialize_uint \<circ> tx_hash) (vtx block)) of
        (root, mutated, _) \<Rightarrow> root = Serialize_uint (block_hashMerkleRoot block) \<and> \<not> mutated) \<and>
     legacy_sigops block \<le> MAX_BLOCK_SIGOPS"

lemma DoS_corruption [simp]:
  "corruptionPossible (snd (DoS level ret code reason corr st)) = corr" "DoS level ret code reason corr st = (r, st') \<Longrightarrow> corruptionPossible st' = corr"
  by (auto simp: DoS_def Let_def split: if_splits)

lemma Error_corruption [simp]: "corruptionPossible (snd (Error msg st)) = corruptionPossible st"
  by (simp add: Error_def)

lemma check_outputs_clean: "check_outputs m tx st v outs = Inl r \<Longrightarrow> \<not> corruptionPossible (snd r)"
  by (induction outs arbitrary: v) (auto simp: Let_def split: if_splits)

lemma check_duplicates_clean: "check_duplicates st S ins = Inl r \<Longrightarrow> \<not> corruptionPossible (snd r)"
  by (induction ins arbitrary: S) (auto split: if_splits)

lemma check_prevouts_clean: "\<not> corruptionPossible st \<Longrightarrow> \<not> corruptionPossible (snd (check_prevouts st ins))"
  by (induction ins) auto

lemma CheckTransaction_clean: "\<not> corruptionPossible st \<Longrightarrow> \<not> corruptionPossible (snd (CheckTransaction m tx st))"
  by (auto simp: CheckTransaction_def check_prevouts_clean dest: check_outputs_clean check_duplicates_clean split: sum.split)

lemma check_transactions_clean: "\<not> corruptionPossible st \<Longrightarrow> \<not> corruptionPossible (snd (check_transactions m txs st))"
proof (induction txs arbitrary: st)
  case (Cons tx txs)
  obtain ok st' where *: "CheckTransaction m tx st = (ok, st')" by fastforce
  then have "\<not> corruptionPossible st'" using CheckTransaction_clean [OF Cons.prems, of m tx] by simp
  with Cons.IH [of st'] * show ?case by (cases ok) simp_all
qed simp

lemma check_structure_clean:
  assumes "intact env block" and "\<not> corruptionPossible st"
  shows "check_structure env block fPOW fRoot st = Inl r \<Longrightarrow> \<not> corruptionPossible (snd r)"
    and "check_structure env block fPOW fRoot st = Inr st' \<Longrightarrow> \<not> corruptionPossible st'"
proof -
  obtain root mutated rest where tree: "BuildMerkleTree (map (Serialize_uint \<circ> tx_hash) (vtx block)) = (root, mutated, rest)"
    using prod_cases3 by blast
  have root: "Serialize_uint (block_hashMerkleRoot block) = root" "\<not> mutated" using assms(1) tree by (simp_all add: intact_def)
  have header: "(if CBlock_IsProofOfWork block then CheckBlockHeader env block fPOW st else (True, st)) = (True, st)"
    using assms(1) by (simp add: CheckBlockHeader_def intact_def)
  show "check_structure env block fPOW fRoot st = Inl r \<Longrightarrow> \<not> corruptionPossible (snd r)"
    and "check_structure env block fPOW fRoot st = Inr st' \<Longrightarrow> \<not> corruptionPossible st'"
    unfolding check_structure_def header tree prod.case bool.case Let_def root Invalid_def
    using assms(2) root(2) by (simp_all split: if_split_asm) (auto simp only: snd_conv DoS_corruption)?
qed

lemma CheckBlock_clean:
  assumes "intact env block" and "\<not> corruptionPossible st" and "CheckBlock env block fPOW fRoot st rejected = (ret, st', rejected')"
  shows "\<not> corruptionPossible st'"
proof (cases "check_structure env block fPOW fRoot st")
  case (Inl r)
  then show ?thesis using assms(3) check_structure_clean(1) [OF assms(1,2) Inl] by (auto simp: CheckBlock_def Let_def split: prod.splits)
next
  case (Inr st1)
  note clean = check_structure_clean(2) [OF assms(1,2) Inr]
  show ?thesis
    using assms(1,3) Inr check_transactions_clean [OF clean, of "env_maxMoneyOut env" "vtx block"]
    by (auto simp: CheckBlock_def Let_def intact_def split: prod.splits bool.splits if_splits)
qed

lemma input_values_clean: "input_values V m mat h st ins v c = Some (Inl r, c') \<Longrightarrow> \<not> corruptionPossible (snd r)"
  by (induction ins arbitrary: v c) (auto simp: Let_def Invalid_def split: prod.splits option.splits if_splits)

lemma check_fee_clean: "check_fee m tx st v = Some (Inl r) \<Longrightarrow> \<not> corruptionPossible (snd r)"
  by (auto simp: check_fee_def Let_def split: sum.splits if_splits)

lemma refuse_script_clean: "refuse_script verify flags ck err st = Some r \<Longrightarrow> \<not> corruptionPossible (snd r)"
  by (auto simp: refuse_script_def Let_def Invalid_def split: option.splits sum.splits if_splits)

lemma check_scripts_clean: "check_scripts V verify flags par tx st is cks c = Some (Inl r, c') \<Longrightarrow> \<not> corruptionPossible (snd r)"
  by (induction "is" arbitrary: cks c)
    (auto simp: Let_def dest: refuse_script_clean split: prod.splits option.splits sum.splits if_splits)

lemma CheckInputs_clean:
  assumes "CheckInputs V env tx st fScriptChecks flags par c = Some (ret, st', cks, c')" and "\<not> corruptionPossible st"
  shows "\<not> corruptionPossible st'"
  using assms
  by (auto simp: CheckInputs_def Invalid_def dest!: input_values_clean check_fee_clean check_scripts_clean
      split: prod.splits option.splits sum.splits bool.splits if_splits)

lemma connect_inputs_clean:
  assumes "connect_inputs V env fScriptChecks flags strict tx st cs = Some (Inl (st', c))" and "\<not> corruptionPossible st"
  shows "\<not> corruptionPossible st'"
  using assms
  by (auto simp: connect_inputs_def Let_def dest: CheckInputs_clean
      split: prod.splits option.splits sum.splits bool.splits if_splits)

lemma connect_loop_clean:
  "connect_loop V env fScriptChecks flags strict height i txs st cs = Some (Inl (st', c)) \<Longrightarrow> \<not> corruptionPossible st \<Longrightarrow>
    \<not> corruptionPossible st'"
proof (induction txs arbitrary: i cs)
  case (Cons tx txs)
  have "\<not> corruptionPossible st'" if "connect_tx V env fScriptChecks flags strict height i tx st cs = Some (Inl (st', c))"
    using that Cons.prems(2) by (auto simp: connect_tx_def Let_def dest: connect_inputs_clean split: option.splits sum.splits if_splits)
  with Cons show ?case by (auto split: option.splits sum.splits)
qed simp

lemma finish_block_clean:
  assumes "finish_block env io phash prev fJustCheck block pindex st rejected cs = Some r" and "\<not> corruptionPossible st"
  shows "\<not> corruptionPossible (cr_state r)"
proof -
  have "\<not> corruptionPossible st'" if "write_undo io p st = Some (Inl st')" for p st'
    using that assms(2) by (auto simp: write_undo_def Let_def split: option.splits if_splits sum.splits)
  with assms show ?thesis
    by (auto simp: finish_block_def Let_def split: option.splits if_splits sum.splits)
qed

lemma ConnectBlock_clean:
  assumes "ConnectBlock V env io phash pindex prev fJustCheck block st rejected c = Some r"
    and "intact (block_env.truncate env) block" and "\<not> corruptionPossible st"
  shows "\<not> corruptionPossible (cr_state r)"
  using assms(1)
  by (auto simp: ConnectBlock_def Let_def split: option.splits if_splits sum.splits prod.splits bool.splits
      dest!: CheckBlock_clean [OF assms(2,3)] dest: connect_loop_clean finish_block_clean)

section \<open>Moving the tip\<close>

lemma FlushStateToDisk_Inr:
  assumes "FlushStateToDisk w fmode st n = Inr (ok, st', n')"
  shows "blocks n' = blocks n" "chainActive n' = chainActive n" "setBlockIndexCandidates n' = setBlockIndexCandidates n"
    "corruptionPossible st' = corruptionPossible st" "\<not> ok \<Longrightarrow> \<not> State_IsInvalid st'"
  using assms
  by (auto simp: FlushStateToDisk_def Let_def Error_def State_IsInvalid_def split: if_splits option.splits)

lemma FlushStateToDisk_Inl: "FlushStateToDisk w fmode st n = Inl e \<Longrightarrow> e = Assertion_failed"
  by (auto simp: FlushStateToDisk_def Let_def split: if_splits option.splits)

lemma commit_tip_Inr:
  assumes "commit_tip w fmode p c st n = Inr (ok, st', n')"
  shows "blocks n' = blocks n" "setBlockIndexCandidates n' = setBlockIndexCandidates n"
    "corruptionPossible st' = corruptionPossible st" "\<not> ok \<Longrightarrow> \<not> State_IsInvalid st' \<and> chainActive n' = chainActive n"
    "ok \<Longrightarrow> SetTip (blocks n) (chainActive n) p = Some (chainActive n') \<and> Tip (chainActive n') \<noteq> None"
proof -
  obtain c' where "Flush (cache_view (w_view w)) c = Some (True, c')"
    using assms by (auto simp: commit_tip_def split: option.splits prod.splits bool.splits)
  then obtain ok1 st1 n1 where fl: "FlushStateToDisk w fmode st (n\<lparr>pcoinsTip := base c'\<rparr>) = Inr (ok1, st1, n1)"
      and up: "(if ok1 then UpdateTip p st1 n1 else Inr (False, st1, n1)) = Inr (ok, st', n')"
    using assms by (auto simp: commit_tip_def split: sum.splits prod.splits bool.splits)
  note fl = FlushStateToDisk_Inr [OF fl]
  show "blocks n' = blocks n" "setBlockIndexCandidates n' = setBlockIndexCandidates n"
    "corruptionPossible st' = corruptionPossible st" "\<not> ok \<Longrightarrow> \<not> State_IsInvalid st' \<and> chainActive n' = chainActive n"
    "ok \<Longrightarrow> SetTip (blocks n) (chainActive n) p = Some (chainActive n') \<and> Tip (chainActive n') \<noteq> None"
    using up fl by (auto simp: UpdateTip_def split: if_splits option.splits)
qed

lemma commit_tip_Inl:
  assumes "commit_tip w fmode p c st n = Inl e" and "SetTip (blocks n) (chainActive n) p \<noteq> None"
  shows "e = Assertion_failed"
  using assms
  by (auto simp: commit_tip_def UpdateTip_def FlushStateToDisk_Inr(1,2) dest: FlushStateToDisk_Inl
      split: option.splits prod.splits bool.splits sum.splits if_splits)

lemma chain_tip:
  assumes "chain_ok n" and "Tip (chainActive n) = Some p"
  obtains b where "blocks n p = Some b" "nHeight b = Height (chainActive n)" "chain_at (chainActive n) = ancestor_at (blocks n) p"
proof -
  have "chainActive n \<noteq> []" using assms(2) by (auto simp: Tip_def)
  then show ?thesis
    using that chain_at_tip [OF index_okD(1) [OF chain_okD(1) [OF assms(1)]] chain_okD(2) [OF assms(1)]] assms(2) by auto
qed

lemma SetTip_chain_ok:
  assumes "chain_ok n" and "blocks n p = Some b"
  obtains v where "SetTip (blocks n) (chainActive n) (Some p) = Some v" "is_chain (blocks n) v" "Tip v = Some p" "Height v = nHeight b"
  using SetTip_spec [OF index_okD(1) [OF chain_okD(1) [OF assms(1)]] chain_okD(2) [OF assms(1)] assms(2)] by blast

lemma DisconnectTip_Inr:
  assumes ok: "chain_ok n" and run: "DisconnectTip w st n = Inr (ret, st', n')"
  shows "blocks n' = blocks n" "setBlockIndexCandidates n' = setBlockIndexCandidates n"
    "corruptionPossible st' = corruptionPossible st" "chain_ok n'"
    "ret \<Longrightarrow> Height (chainActive n') < Height (chainActive n)" "ret \<Longrightarrow> Tip (chainActive n') \<noteq> None"
proof -
  obtain p b where p: "Tip (chainActive n) = Some p" "blocks n p = Some b"
    using run by (auto simp: DisconnectTip_def split: option.splits)
  have height: "nHeight b = Height (chainActive n)" using chain_tip [OF ok p(1)] p(2) by (metis option.inject)
  let ?n1 = "n\<lparr>ticks := ticks n + 1\<rparr>"
  consider (fail) "ret = False" "blocks n' = blocks n" "setBlockIndexCandidates n' = setBlockIndexCandidates n" "chainActive n' = chainActive n"
      "corruptionPossible st' = corruptionPossible st"
    | (tip) q b' c where "pprev b = Some q" "blocks n q = Some b'" "commit_tip w FLUSH_STATE_ALWAYS (pprev b) c st ?n1 = Inr (ret, st', n')"
    using run p by (auto simp: DisconnectTip_def Let_def split: option.splits if_splits prod.splits bool.splits bind_splits)
  then have "blocks n' = blocks n \<and> setBlockIndexCandidates n' = setBlockIndexCandidates n \<and>
    corruptionPossible st' = corruptionPossible st \<and> chain_ok n' \<and> (ret \<longrightarrow> Height (chainActive n') < Height (chainActive n)) \<and>
    (ret \<longrightarrow> Tip (chainActive n') \<noteq> None)"
  proof cases
    case fail
    then show ?thesis using chain_ok_keeps [OF ok, of n'] by (simp add: keeps_def)
  next
    case tip
    obtain v where v: "SetTip (blocks n) (chainActive n) (Some q) = Some v" "is_chain (blocks n) v" "Height v = nHeight b'"
      using SetTip_chain_ok [OF ok tip(2)] by metis
    note c = commit_tip_Inr [OF tip(3)]
    have "chainActive n' = chainActive n \<or> ret \<and> chainActive n' = v" using c(4,5) tip(1) v(1) by auto
    moreover have "nHeight b = nHeight b' + 1"
      using wf_treeD(3) [OF index_okD(1) [OF chain_okD(1) [OF ok]] p(2) tip(1)] tip(2) by auto
    ultimately show ?thesis
      using c chain_ok_keeps [OF ok, of n'] v height tip(1) by (auto simp: keeps_def)
  qed
  then show "blocks n' = blocks n" "setBlockIndexCandidates n' = setBlockIndexCandidates n"
    "corruptionPossible st' = corruptionPossible st" "chain_ok n'"
    "ret \<Longrightarrow> Height (chainActive n') < Height (chainActive n)" "ret \<Longrightarrow> Tip (chainActive n') \<noteq> None" by blast+
qed

lemma DisconnectTip_Inl:
  assumes ok: "chain_ok n" and run: "DisconnectTip w st n = Inl e"
  shows "e = Assertion_failed"
proof -
  have "SetTip (blocks n) (chainActive n) q \<noteq> None" if "q = None \<or> (\<exists>b. blocks n (the q) = Some b)" for q
    using that SetTip_chain_ok [OF ok] by (cases q) (force simp: SetTip_def)+
  then have "e' = Assertion_failed" if "commit_tip w FLUSH_STATE_ALWAYS (Some q) c st (n\<lparr>ticks := ticks n + 1\<rparr>) = Inl e'" "blocks n q = Some b" for e' q b c
    using commit_tip_Inl [OF that(1)] that(2) by simp
  then show ?thesis
    using run by (auto simp: DisconnectTip_def Let_def split: option.splits if_splits prod.splits bool.splits bind_splits)
qed

text \<open>The blocks that are read, and the one that may be loaded, are intact.\<close>

definition world_intact :: "'d world \<Rightarrow> CBlock option \<Rightarrow> bool" where
  "world_intact w pblock \<longleftrightarrow>
     (\<forall>t p block. w_ReadBlock w t p = Some block \<longrightarrow> intact (block_env.truncate (w_env w t)) block) \<and>
     (\<forall>t block. pblock = Some block \<longrightarrow> intact (block_env.truncate (w_env w t)) block)"

lemma intact_node_env:
  assumes "world_intact w pblock" and "(case pblock of Some block \<Rightarrow> Some block | None \<Rightarrow> w_ReadBlock w (ticks n) p) = Some block"
  shows "intact (block_env.truncate (node_env w n)) block"
proof -
  have "intact (block_env.truncate (w_env w (ticks n))) block"
    using assms by (auto simp: world_intact_def split: option.splits)
  then show ?thesis by (simp add: intact_def block_env.defs node_env_def)
qed

lemma InvalidBlockFound_simps:
  "\<not> corruptionPossible st \<Longrightarrow> blocks (InvalidBlockFound p st n) = add_status BLOCK_FAILED_VALID p (blocks n)"
  "\<not> corruptionPossible st \<Longrightarrow> setBlockIndexCandidates (InvalidBlockFound p st n) = removeAll p (setBlockIndexCandidates n)"
  "chainActive (InvalidBlockFound p st n) = chainActive n"
  by (simp_all add: InvalidBlockFound_def)

lemma same_entry_store:
  assumes "st p = Some b" and "same_entry b b'"
  shows "shapes (st(p \<mapsto> b')) = shapes st" "failed_blocks (st(p \<mapsto> b')) = failed_blocks st"
  using assms by (auto simp: same_entry_def shapes_update failed_blocks_def)

lemma ConnectTip_Inr:
  assumes ok: "chain_ok n" and w: "world_intact w pblock" and st: "\<not> corruptionPossible st"
    and run: "ConnectTip w p pblock st n = Inr (ret, st', n')"
  shows "keeps n n'" "chain_ok n'" "\<not> corruptionPossible st'" "ret \<Longrightarrow> Tip (chainActive n') = Some p"
    "\<not> ret \<Longrightarrow> State_IsInvalid st' \<Longrightarrow> p \<in> failed_blocks (blocks n')"
proof -
  let ?n0 = "n\<lparr>ticks := ticks n + 1\<rparr>"
  obtain e where e: "blocks n p = Some e" "pprev e = Tip (chainActive n)"
    using run by (auto simp: ConnectTip_def split: option.splits if_splits)
  have "keeps n n' \<and> chain_ok n' \<and> \<not> corruptionPossible st' \<and> (ret \<longrightarrow> Tip (chainActive n') = Some p) \<and>
        (\<not> ret \<longrightarrow> State_IsInvalid st' \<longrightarrow> p \<in> failed_blocks (blocks n'))"
  proof (cases "case pblock of Some block \<Rightarrow> Some block | None \<Rightarrow> w_ReadBlock w (ticks n) p")
    case None
    then have "n' = ?n0" "ret = False" "st' = snd (Error ''Failed to read block'' st)"
      using run e by (auto simp: ConnectTip_def Let_def)
    then show ?thesis
      using st chain_ok_keeps [OF ok, of n'] by (simp add: keeps_def) (simp add: Error_def State_IsInvalid_def)
  next
    case (Some block)
    let ?prev = "Option.bind (pprev e) (blocks n)"
    obtain r where r: "ConnectBlock (cache_view (w_view w)) (node_env w n) (w_io w (ticks n)) (Some (phashBlock e)) e ?prev False block st
        (mapRejectedBlocks n) (CCoinsViewCache_new (pcoinsTip n)) = Some r"
      using run e Some by (auto simp: ConnectTip_def Let_def split: option.splits)
    note clean = ConnectBlock_clean [OF r intact_node_env [OF w Some] st]
    define n1 where "n1 = ?n0\<lparr>blocks := (blocks n)(p \<mapsto> cr_pindex r), mapRejectedBlocks := cr_rejected r\<rparr>"
    note same = same_entry_store [where st = "blocks n", OF e(1) ConnectBlock_same [OF r]]
    have n1: "shapes (blocks n1) = shapes (blocks n)" "failed_blocks (blocks n1) = failed_blocks (blocks n)"
        "setBlockIndexCandidates n1 = setBlockIndexCandidates n" "chainActive n1 = chainActive n"
      using same by (simp_all add: n1_def)
    have k1: "keeps n n1" using n1 by (simp add: keeps_def)
    have ok1: "chain_ok n1" using chain_ok_keeps [OF ok k1] n1(4) by simp
    show ?thesis
    proof (cases "cr_ret r")
      case False
      define n2 where "n2 = n1\<lparr>pcoinsTip := base (cr_view r)\<rparr>"
      have res: "ret = False" "st' = cr_state r" "n' = (if State_IsInvalid st' then InvalidBlockFound p st' n2 else n2)"
        using run e Some r False by (auto simp: ConnectTip_def Let_def n2_def n1_def)
      have k2: "keeps n2 n'" "chainActive n' = chainActive n2"
        using res clean by (auto simp: keeps_def InvalidBlockFound_simps add_status_blocks)
      have "keeps n n2" using k1 by (simp add: n2_def keeps_def)
      then have k: "keeps n n'" using k2(1) by (rule keeps_trans)
      have "blocks n2 p \<noteq> None" by (simp add: n2_def n1_def)
      then have "State_IsInvalid st' \<longrightarrow> p \<in> failed_blocks (blocks n')"
        using res clean by (auto simp: InvalidBlockFound_simps add_status_blocks)
      with k res(1,2) clean chain_ok_keeps [OF ok k] k2(2) n1(4) show ?thesis by (simp add: n2_def)
    next
      case True
      obtain fm where run': "commit_tip w fm (Some p) (cr_view r) (cr_state r) n1 = Inr (ret, st', n')"
        using run e Some r True by (auto simp: ConnectTip_def Let_def n1_def)
      note c = commit_tip_Inr [OF run']
      have "blocks n1 p = Some (cr_pindex r)" by (simp add: n1_def)
      from SetTip_chain_ok [OF ok1 this] obtain v where v: "SetTip (blocks n1) (chainActive n1) (Some p) = Some v" "is_chain (blocks n1) v" "Tip v = Some p"
        by metis
      have k: "keeps n1 n'" using c(1,2) by (simp add: keeps_def)
      show ?thesis
        using keeps_trans [OF k1 k] chain_ok_keeps [OF ok1 k] c(3-5) clean v by auto
    qed
  qed
  then show "keeps n n'" "chain_ok n'" "\<not> corruptionPossible st'" "ret \<Longrightarrow> Tip (chainActive n') = Some p"
    "\<not> ret \<Longrightarrow> State_IsInvalid st' \<Longrightarrow> p \<in> failed_blocks (blocks n')" by blast+
qed

lemma connect_commit_Inl:
  assumes e: "blocks n p = Some b" and r: "ConnectBlock V env io ph b prev False block st rej c = Some r" and ok: "chain_ok n"
    and run: "commit_tip w fm (Some p) c' st1 (n\<lparr>ticks := t, blocks := (blocks n)(p \<mapsto> cr_pindex r), mapRejectedBlocks := rej'\<rparr>) = Inl e'"
  shows "e' = Assertion_failed"
proof -
  let ?n1 = "n\<lparr>ticks := t, blocks := (blocks n)(p \<mapsto> cr_pindex r), mapRejectedBlocks := rej'\<rparr>"
  have "keeps n ?n1" using same_entry_store [where st = "blocks n", OF e ConnectBlock_same [OF r]] by (simp add: keeps_def)
  then have "chain_ok ?n1" using chain_ok_keeps [OF ok, of ?n1] by simp
  from SetTip_chain_ok [OF this, of p "cr_pindex r"] have "SetTip (blocks ?n1) (chainActive ?n1) (Some p) \<noteq> None" by auto
  then show ?thesis using commit_tip_Inl [OF run] by simp
qed

lemma ConnectTip_Inl:
  assumes ok: "chain_ok n" and run: "ConnectTip w p pblock st n = Inl e"
  shows "e = Assertion_failed"
  using run
  by (auto simp: ConnectTip_def Let_def split: option.splits if_splits) (erule (1) connect_commit_Inl [OF _ _ ok], assumption)+

section \<open>A step towards the best chain\<close>

lemma disconnect_to_spec:
  "chain_ok n \<Longrightarrow> \<exists>r. disconnect_to w f st n = Some r \<and>
    (case r of
       Inl e \<Rightarrow> e = Assertion_failed
     | Inr (ret, st', n') \<Rightarrow> blocks n' = blocks n \<and> setBlockIndexCandidates n' = setBlockIndexCandidates n \<and>
         corruptionPossible st' = corruptionPossible st \<and> chain_ok n' \<and>
         (ret \<longrightarrow> (if Tip (chainActive n) = None then n' = n else Tip (chainActive n') = f)))"
proof (induction "length (chainActive n)" arbitrary: n st rule: less_induct)
  case less
  show ?case
  proof (cases "Tip (chainActive n) \<noteq> None \<and> Tip (chainActive n) \<noteq> f")
    case False
    with less.prems show ?thesis by (subst disconnect_to.simps) auto
  next
    case True
    show ?thesis
    proof (cases "DisconnectTip w st n")
      case (Inl e)
      then show ?thesis using True DisconnectTip_Inl [OF less.prems Inl] by (subst disconnect_to.simps) auto
    next
      case (Inr x)
      obtain ret st' n' where x: "x = (ret, st', n')" by (cases x)
      note d = DisconnectTip_Inr [OF less.prems Inr [unfolded x]]
      show ?thesis
      proof (cases ret)
        case False
        then show ?thesis using True Inr x d by (subst disconnect_to.simps) simp
      next
        case ret: True
        have "length (chainActive n') < length (chainActive n)" using d(5) [OF ret] by (simp add: Height_def)
        note IH = less.hyps [OF this d(4), of st']
        have run: "disconnect_to w f st n = disconnect_to w f st' n'"
          using True Inr x ret by (subst disconnect_to.simps) simp
        have cond: "(if Tip (chainActive n') = None then m = n' else P) = P" "(if Tip (chainActive n) = None then m = n else P) = P" for P m
          using True d(6) [OF ret] by auto
        show ?thesis using IH unfolding run d(1-3) cond .
      qed
    qed
  qed
qed

lemma blocks_above_spec:
  assumes "wf_tree st" and "st p = Some b" and "- 1 \<le> h"
  shows "k \<le> nHeight b \<Longrightarrow> h \<le> k \<Longrightarrow> \<exists>xs. blocks_above st h (ancestor_at st p k) acc = Some (acc @ xs) \<and>
    (h < k \<longrightarrow> xs \<noteq> [] \<and> ancestor_at st p k = Some (hd xs)) \<and> (\<forall>x \<in> set xs. \<exists>i > h. ancestor_at st p i = Some x)"
proof (induction "nat (k - h)" arbitrary: k acc)
  case 0
  then have k: "k = h" by simp
  show ?case
  proof (cases "ancestor_at st p h")
    case None
    then show ?thesis using k by (subst blocks_above.simps) simp
  next
    case (Some x)
    obtain c where "st x = Some c" "nHeight c = h" using ancestor_at_SomeD [OF assms(1) Some] by blast
    then show ?thesis using k Some by (subst blocks_above.simps) simp
  qed
next
  case (Suc d)
  have hk: "h < k" using Suc.hyps(2) by simp
  obtain x c where x: "ancestor_at st p k = Some x" "st x = Some c" "nHeight c = k"
    using ancestor_at_exists [OF assms(1,2), of k] hk assms(3) Suc.prems by auto
  have prev: "pprev c = ancestor_at st p (k - 1)" using pprev_ancestor_step [OF assms(1,2) x(1,2)] .
  have "d = nat (k - 1 - h)" "k - 1 \<le> nHeight b" "h \<le> k - 1" using Suc.hyps(2) hk Suc.prems by auto
  from Suc.hyps(1) [OF this, of "acc @ [x]"] obtain xs where
    xs: "blocks_above st h (pprev c) (acc @ [x]) = Some ((acc @ [x]) @ xs)" "\<forall>x \<in> set xs. \<exists>i > h. ancestor_at st p i = Some x"
    by (auto simp: prev)
  have "blocks_above st h (ancestor_at st p k) acc = Some (acc @ x # xs)"
    using x hk xs(1) by (subst blocks_above.simps) simp
  with x(1) xs(2) hk show ?case by (intro exI [of _ "x # xs"]) auto
qed

lemma PruneBlockIndexCandidates_Inr:
  assumes "PruneBlockIndexCandidates n = Inr n'"
  shows "keeps n n'" "chainActive n' = chainActive n" "blocks n' = blocks n"
  using assms by (auto simp: PruneBlockIndexCandidates_def Let_def keeps_def split: option.splits if_splits)

lemma PruneBlockIndexCandidates_Inl: "PruneBlockIndexCandidates n = Inl e \<Longrightarrow> e = Assertion_failed"
  by (auto simp: PruneBlockIndexCandidates_def Let_def split: option.splits if_splits)

text \<open>The tip has more work than the old one.\<close>

definition better_tip :: "ptr option \<Rightarrow> 'd chainstate \<Rightarrow> bool" where
  "better_tip old n \<longleftrightarrow> (\<exists>t. Tip (chainActive n) = Some t \<and> (\<forall>p. old = Some p \<longrightarrow> more_work (blocks n) t p))"

lemma connect_list_spec:
  assumes "world_intact w pblock"
  shows "chain_ok n \<Longrightarrow> \<not> corruptionPossible st \<Longrightarrow>
    (case connect_list w P pblock old lowest ps st n of
       Inl e \<Rightarrow> e = Assertion_failed
     | Inr (ret, fContinue, st', n') \<Rightarrow> keeps n n' \<and> chain_ok n' \<and> \<not> corruptionPossible st' \<and>
         (ret \<longrightarrow> fContinue \<longrightarrow> (if ps = [] then n' = n else Tip (chainActive n') = Some (last ps))) \<and>
         (ret \<longrightarrow> \<not> fContinue \<longrightarrow> (\<exists>x \<in> set ps. x \<in> failed_blocks (blocks n')) \<or> better_tip old n'))"
proof (induction ps arbitrary: st n)
  case Nil
  then show ?case by simp
next
  case (Cons p ps)
  let ?pb = "if p = P then pblock else None"
  have w: "world_intact w ?pb" using assms by (auto simp: world_intact_def)
  show ?case
  proof (cases "ConnectTip w p ?pb st n")
    case (Inl e)
    then show ?thesis using ConnectTip_Inl [OF Cons.prems(1) Inl] by simp
  next
    case (Inr x)
    obtain ret st1 n1 where x: "x = (ret, st1, n1)" by (cases x)
    note c = ConnectTip_Inr [OF Cons.prems(1) w Cons.prems(2) Inr [unfolded x]]
    show ?thesis
    proof (cases ret)
      case False
      have "chain_ok (InvalidChainFound lowest n1)" "keeps n (InvalidChainFound lowest n1)"
        using c(1,2) by (simp_all add: keeps_def chain_ok_def)
      then show ?thesis using Inr x False c(3,5) c by (simp add: CValidationState_new_def)
    next
      case True
      show ?thesis
      proof (cases "PruneBlockIndexCandidates n1")
        case (Inl e)
        then show ?thesis using Inr x True PruneBlockIndexCandidates_Inl [OF Inl] by simp
      next
        case pr: (Inr n2)
        note pr' = PruneBlockIndexCandidates_Inr [OF pr]
        have tip: "Tip (chainActive n2) = Some p" using c(4) [OF True] pr'(2) by simp
        have ok2: "chain_ok n2" using chain_ok_keeps [OF c(2) pr'(1)] pr'(2) by simp
        have k2: "keeps n n2" using keeps_trans [OF c(1) pr'(1)] .
        show ?thesis
        proof (cases "case old of Some q \<Rightarrow> more_work (blocks n2) p q | None \<Rightarrow> True")
          case stop: True
          then have "better_tip old n2" using tip by (auto simp: better_tip_def split: option.splits)
          with stop show ?thesis using Inr x True pr tip ok2 k2 c(3) by (simp split: option.splits)
        next
          case go: False
          have run: "connect_list w P pblock old lowest (p # ps) st n = connect_list w P pblock old lowest ps st1 n2"
            using go Inr x True pr tip by (simp split: option.splits)
          show ?thesis
          proof (cases "connect_list w P pblock old lowest ps st1 n2")
            case (Inl e)
            then show ?thesis using Cons.IH [OF ok2 c(3)] run by simp
          next
            case (Inr y)
            obtain ret' cont st' n' where y: "y = (ret', cont, st', n')" by (cases y)
            have IH: "keeps n2 n'" "chain_ok n'" "\<not> corruptionPossible st'"
                "ret' \<Longrightarrow> cont \<Longrightarrow> (if ps = [] then n' = n2 else Tip (chainActive n') = Some (last ps))"
                "ret' \<Longrightarrow> \<not> cont \<Longrightarrow> (\<exists>x \<in> set ps. x \<in> failed_blocks (blocks n')) \<or> better_tip old n'"
              using Cons.IH [OF ok2 c(3)] Inr y by simp_all
            show ?thesis
              unfolding run Inr y sum.case prod.case using IH keeps_trans [OF k2 IH(1)] tip by (auto split: if_splits)
          qed
        qed
      qed
    qed
  qed
qed

lemma connect_rounds_spec:
  assumes "world_intact w pblock"
  shows "chain_ok n \<Longrightarrow> \<not> corruptionPossible st \<Longrightarrow> blocks n P = Some b \<Longrightarrow> mostHeight = nHeight b \<Longrightarrow> - 1 \<le> h \<Longrightarrow> h \<le> mostHeight \<Longrightarrow>
    (h = mostHeight \<Longrightarrow> Tip (chainActive n) = Some P) \<Longrightarrow>
    \<exists>r. connect_rounds w P mostHeight pblock old h st n = Some r \<and>
      (case r of
         Inl e \<Rightarrow> e = Assertion_failed
       | Inr (ret, st', n') \<Rightarrow> keeps n n' \<and> chain_ok n' \<and> \<not> corruptionPossible st' \<and>
           (ret \<longrightarrow> Tip (chainActive n') = Some P \<or> better_tip old n' \<or>
             (\<exists>i x. h < i \<and> ancestor_at (blocks n) P i = Some x \<and> x \<in> failed_blocks (blocks n'))))"
proof (induction "nat (mostHeight - h)" arbitrary: h st n b rule: less_induct)
  case less
  note ok = less.prems(1) and b = less.prems(3)
  show ?case
  proof (cases "h = mostHeight")
    case True
    then show ?thesis using less.prems by (subst connect_rounds.simps) simp
  next
    case False
    then have lt: "h < mostHeight" using less.prems(6) by simp
    define target where "target = min (h + 32) mostHeight"
    have target: "h < target" "target \<le> nHeight b" "target \<le> mostHeight" using lt less.prems(4) by (auto simp: target_def)
    note wf = index_okD(1,2) [OF chain_okD(1) [OF ok]]
    obtain xs where xs: "blocks_above (blocks n) h (ancestor_at (blocks n) P target) [] = Some xs" "xs \<noteq> []"
        "ancestor_at (blocks n) P target = Some (hd xs)" "\<And>x. x \<in> set xs \<Longrightarrow> \<exists>i > h. ancestor_at (blocks n) P i = Some x"
      using blocks_above_spec [OF wf(1) b less.prems(5), of target "[]"] target by auto
    have last: "last (rev xs) = hd xs" using xs(2) by (simp add: last_rev)
    define R where "R = connect_list w P pblock old (last xs) (rev xs) st n"
    note R = connect_list_spec [OF assms ok less.prems(2), where P = P and old = old and lowest = "last xs" and ps = "rev xs", folded R_def]
    have run: "connect_rounds w P mostHeight pblock old h st n =
      (case R of Inl e \<Rightarrow> Some (Inl e)
       | Inr (ok, fContinue, st', n') \<Rightarrow>
           if ok \<and> fContinue then connect_rounds w P mostHeight pblock old target st' n' else Some (Inr (ok, st', n')))"
      using False xs(1) by (subst connect_rounds.simps)
        (simp add: Let_def target_def [symmetric] GetAncestor_eq_ancestor_at [OF wf] R_def)
    show ?thesis
    proof (cases R)
      case (Inl e)
      then show ?thesis using R by (simp add: run)
    next
      case (Inr y)
      obtain ret cont st' n' where y: "R = Inr (ret, cont, st', n')" using Inr by (cases y) auto
      have c: "keeps n n'" "chain_ok n'" "\<not> corruptionPossible st'"
          "ret \<Longrightarrow> cont \<Longrightarrow> Tip (chainActive n') = Some (hd xs)"
          "ret \<Longrightarrow> \<not> cont \<Longrightarrow> (\<exists>x \<in> set xs. x \<in> failed_blocks (blocks n')) \<or> better_tip old n'"
        using R xs(2) last by (simp_all add: y)
      show ?thesis
      proof (cases "ret \<and> cont")
        case False
        then show ?thesis using c xs(4) by (auto simp: run y)
      next
        case True
        have sh: "shapes (blocks n) = shapes (blocks n')" using c(1) by (simp add: keeps_def)
        obtain b' where b': "blocks n' P = Some b'" "nHeight b' = nHeight b" using shapesD [OF sh b] by blast
        have tip: "Tip (chainActive n') = Some P" if "target = mostHeight"
          using that c(4) True xs(3) ancestor_at_self [of "blocks n" P b] b wf_treeD(1) [OF wf(1) b] less.prems(4) by simp
        have "nat (mostHeight - target) < nat (mostHeight - h)" using target by simp
        from less.hyps [OF this c(2,3) b'(1) _ _ target(3) tip] obtain r where
          r: "connect_rounds w P mostHeight pblock old target st' n' = Some r"
            "case r of
               Inl e \<Rightarrow> e = Assertion_failed
             | Inr (ret, st'', n'') \<Rightarrow> keeps n' n'' \<and> chain_ok n'' \<and> \<not> corruptionPossible st'' \<and>
                 (ret \<longrightarrow> Tip (chainActive n'') = Some P \<or> better_tip old n'' \<or>
                   (\<exists>i x. target < i \<and> ancestor_at (blocks n') P i = Some x \<and> x \<in> failed_blocks (blocks n'')))"
          using less.prems(4,5) b'(2) target by auto
        have "h < i" if "target < i" for i using that target by simp
        then show ?thesis
          using r True keeps_trans [OF c(1)] ancestor_at_shapes [OF sh]
          by (auto simp: run y split: sum.splits prod.splits) blast
      qed
    qed
  qed
qed

lemma nth_prev_leads: "nth_prev st i p = Some x \<Longrightarrow> leads st x p"
proof (induction i arbitrary: p)
  case (Suc i)
  then obtain b q where "st p = Some b" "pprev b = Some q" "nth_prev st i q = Some x" by (auto split: bind_splits)
  with Suc.IH show ?case by (blast intro: leads.step)
qed (simp add: leads.refl)

lemma good_branch_usable:
  assumes "\<not> bad_branch st v p" and "ancestor_at st p i = Some x" and "\<not> Contains st v x"
  shows "x \<notin> failed_blocks st"
proof
  assume "x \<in> failed_blocks st"
  then have "bad_branch st v x" using assms(3) by (auto simp: failed_blocks_def unusable_entry_def intro: bad_branch.here)
  moreover have "leads st x p" using assms(2) nth_prev_leads by (auto simp: ancestor_at_def split: option.splits if_splits)
  ultimately show False using bad_branch_leads assms(1) by blast
qed

text \<open>Above the fork, the branch of the best block is not in the active chain.\<close>

lemma above_fork:
  assumes "wf_tree st" and "last_common (chain_at v) (ancestor_at st p) f"
    and "(case Option.bind f st of None \<Rightarrow> - 1 | Some b \<Rightarrow> nHeight b) < i" and "ancestor_at st p i = Some x"
  shows "\<not> Contains st v x"
proof
  assume "Contains st v x"
  obtain c where c: "st x = Some c" "nHeight c = i" using ancestor_at_SomeD [OF assms(1,4)] by blast
  have at: "chain_at v i = Some x" using \<open>Contains st v x\<close> c by (simp add: Contains_def)
  show False
  proof (cases f)
    case None
    then have "chain_at v i = None \<or> chain_at v i \<noteq> ancestor_at st p i" using assms(2) by (simp add: last_common_def)
    then show ?thesis using assms(4) at by simp
  next
    case (Some q)
    then obtain h where h: "ancestor_at st p h = Some q" "\<forall>k > h. chain_at v k = None \<or> chain_at v k \<noteq> ancestor_at st p k"
      using assms(2) by (auto simp: last_common_def)
    obtain e where "st q = Some e" "nHeight e = h" using ancestor_at_SomeD [OF assms(1) h(1)] by blast
    then have "h < i" using assms(3) Some by simp
    then show ?thesis using h(2) at assms(4) by auto
  qed
qed

lemma ActivateBestChainStep_spec:
  assumes w: "world_intact w pblock" and ok: "chain_ok n" and st: "\<not> corruptionPossible st"
    and P: "blocks n P = Some b" "\<not> bad_branch (blocks n) (chainActive n) P"
  shows "\<exists>r. ActivateBestChainStep w P pblock st n = Some r \<and>
    (case r of
       Inl e \<Rightarrow> e = Assertion_failed
     | Inr (ret, st', n') \<Rightarrow> keeps n n' \<and> chain_ok n' \<and> \<not> corruptionPossible st' \<and>
         (ret \<longrightarrow> Tip (chainActive n') = Some P \<or> better_tip (Tip (chainActive n)) n' \<or>
           failed_blocks (blocks n) \<subset> failed_blocks (blocks n')))"
proof -
  note wf = index_okD(1,2) [OF chain_okD(1) [OF ok]]
  obtain f where f: "FindFork (blocks n) (chainActive n) P = Some f" "last_common (chain_at (chainActive n)) (ancestor_at (blocks n) P) f"
    using fork_points_correct [OF wf P(1) P(1)] by blast
  define h where "h = (case Option.bind f (blocks n) of None \<Rightarrow> - 1 | Some e \<Rightarrow> nHeight e)"
  have new: "x \<notin> failed_blocks (blocks n)" if "h < i" "ancestor_at (blocks n) P i = Some x" for i x
    using good_branch_usable [OF P(2) that(2)] above_fork [OF wf(1) f(2) _ that(2)] that(1) by (simp add: h_def)
  have fork: "f = None \<and> h = - 1 \<or> (\<exists>q. f = Some q \<and> ancestor_at (blocks n) P h = Some q \<and> 0 \<le> h \<and> h \<le> nHeight b \<and> Tip (chainActive n) \<noteq> None)"
  proof (cases f)
    case (Some q)
    then obtain k where k: "chain_at (chainActive n) k = Some q" "ancestor_at (blocks n) P k = Some q"
      using f(2) by (auto simp: last_common_def)
    obtain e where e: "blocks n q = Some e" "nHeight e = k" using ancestor_at_SomeD [OF wf(1) k(2)] by blast
    have "chainActive n \<noteq> []" using k(1) by (auto simp: chain_at_def split: if_splits)
    then have "Tip (chainActive n) \<noteq> None" using chain_at_tip [OF wf(1) chain_okD(2) [OF ok]] by auto
    moreover have "0 \<le> k" "k \<le> nHeight b" using k(2) P(1) by (auto simp: ancestor_at_def split: if_splits)
    moreover have "h = k" using Some e by (simp add: h_def)
    ultimately show ?thesis using k(2) Some by simp
  qed (simp add: h_def)
  have pos: "0 \<le> nHeight b" using wf_treeD(1) [OF wf(1) P(1)] .
  obtain r where r: "disconnect_to w f st n = Some r" "case r of
       Inl e \<Rightarrow> e = Assertion_failed
     | Inr (ret, st', n') \<Rightarrow> blocks n' = blocks n \<and> setBlockIndexCandidates n' = setBlockIndexCandidates n \<and>
         corruptionPossible st' = corruptionPossible st \<and> chain_ok n' \<and>
         (ret \<longrightarrow> (if Tip (chainActive n) = None then n' = n else Tip (chainActive n') = f))"
    using disconnect_to_spec [OF ok] by blast
  show ?thesis
  proof (cases r)
    case (Inl e)
    then show ?thesis using r P(1) f(1) by (simp add: ActivateBestChainStep_def)
  next
    case (Inr x)
    obtain ret st1 n1 where x: "r = Inr (ret, st1, n1)" using Inr by (cases x) auto
    have n1: "blocks n1 = blocks n" "setBlockIndexCandidates n1 = setBlockIndexCandidates n" "\<not> corruptionPossible st1" "chain_ok n1"
        "ret \<Longrightarrow> Tip (chainActive n) \<noteq> None \<Longrightarrow> Tip (chainActive n1) = f"
      using r(2) st by (auto simp: x split: if_splits)
    have k1: "keeps n n1" using n1(1,2) by (simp add: keeps_def)
    show ?thesis
    proof (cases ret)
      case False
      then show ?thesis using r(1) x P(1) f(1) n1 k1 by (simp add: ActivateBestChainStep_def)
    next
      case True
      have run: "ActivateBestChainStep w P pblock st n = connect_rounds w P (nHeight b) pblock (Tip (chainActive n)) h st1 n1"
        using r(1) x True P(1) f(1) n1(1) by (simp add: ActivateBestChainStep_def h_def)
      have "Tip (chainActive n1) = Some P" if "h = nHeight b"
        using fork that pos n1(5) [OF True] ancestor_at_self [of "blocks n" P b] P(1) by auto
      moreover have "- 1 \<le> h" "h \<le> nHeight b" using fork pos by auto
      ultimately obtain R where R: "connect_rounds w P (nHeight b) pblock (Tip (chainActive n)) h st1 n1 = Some R"
          "case R of
             Inl e \<Rightarrow> e = Assertion_failed
           | Inr (ret, st', n') \<Rightarrow> keeps n1 n' \<and> chain_ok n' \<and> \<not> corruptionPossible st' \<and>
               (ret \<longrightarrow> Tip (chainActive n') = Some P \<or> better_tip (Tip (chainActive n)) n' \<or>
                 (\<exists>i x. h < i \<and> ancestor_at (blocks n1) P i = Some x \<and> x \<in> failed_blocks (blocks n')))"
        using connect_rounds_spec [OF w n1(4,3), of P b "nHeight b" h] P(1) n1(1) by auto
      show ?thesis
      proof (cases R)
        case (Inl e)
        then show ?thesis using R run by simp
      next
        case (Inr y)
        obtain ret' st' n' where y: "R = Inr (ret', st', n')" using Inr by (cases y) auto
        have c: "keeps n1 n'" "chain_ok n'" "\<not> corruptionPossible st'"
            "ret' \<Longrightarrow> Tip (chainActive n') = Some P \<or> better_tip (Tip (chainActive n)) n' \<or>
              (\<exists>i x. h < i \<and> ancestor_at (blocks n) P i = Some x \<and> x \<in> failed_blocks (blocks n'))"
          using R(2) n1(1) by (simp_all add: y)
        have k: "keeps n n'" using keeps_trans [OF k1 c(1)] .
        then have "failed_blocks (blocks n) \<subset> failed_blocks (blocks n')"
          if "h < i" "ancestor_at (blocks n) P i = Some x" "x \<in> failed_blocks (blocks n')" for i x
          using that new [OF that(1,2)] unfolding keeps_def by blast
        with c(4) k c(2,3) show ?thesis unfolding run R(1) y by auto
      qed
    qed
  qed
qed

section \<open>Activation\<close>

text \<open>Every round marks a block as failed, or makes the set of the blocks with more work than the tip smaller.\<close>

definition better_blocks :: "'d chainstate \<Rightarrow> ptr set" where
  "better_blocks n = {q \<in> dom (blocks n). \<forall>t. Tip (chainActive n) = Some t \<longrightarrow> chain_work (blocks n) t < chain_work (blocks n) q}"

definition untried :: "'d chainstate \<Rightarrow> nat" where
  "untried n = card (dom (blocks n) - failed_blocks (blocks n))"

lemma untried_less:
  assumes "chain_ok n" and "keeps n n'"
  shows "untried n' \<le> untried n" and "failed_blocks (blocks n) \<subset> failed_blocks (blocks n') \<Longrightarrow> untried n' < untried n"
proof -
  have dom: "dom (blocks n') = dom (blocks n)" "finite (dom (blocks n))"
    using shapes_dom [of "blocks n" "blocks n'"] assms(2) index_okD(4) [OF chain_okD(1) [OF assms(1)]] by (simp_all add: keeps_def)
  have "failed_blocks (blocks n') \<subseteq> dom (blocks n)" using dom(1) by (auto simp: failed_blocks_def)
  then show "failed_blocks (blocks n) \<subset> failed_blocks (blocks n') \<Longrightarrow> untried n' < untried n"
    using dom unfolding untried_def by (intro psubset_card_mono) auto
  show "untried n' \<le> untried n"
    using dom assms(2) unfolding untried_def keeps_def by (intro card_mono) auto
qed

lemma better_blocks_less:
  assumes ok: "chain_ok n" and k: "keeps n n'" "chain_ok n'" and better: "better_tip (Tip (chainActive n)) n'"
  shows "card (better_blocks n') < card (better_blocks n)"
proof -
  have sh: "shapes (blocks n) = shapes (blocks n')" using k(1) by (simp add: keeps_def)
  note dom = shapes_dom [OF sh] and work = chain_work_shapes [OF sh]
  obtain t where t: "Tip (chainActive n') = Some t" "\<And>p. Tip (chainActive n) = Some p \<Longrightarrow> more_work (blocks n') t p"
    using better by (auto simp: better_tip_def)
  have td: "t \<in> dom (blocks n')" using chain_tip [OF k(2) t(1)] by (metis domI)
  have lt: "chain_work (blocks n') p < chain_work (blocks n') t" if p: "Tip (chainActive n) = Some p" for p
  proof -
    have "p \<in> dom (blocks n')" using chain_tip [OF ok p] dom by (metis domI)
    then show ?thesis using more_work_iff [OF index_okD(3) [OF chain_okD(1) [OF k(2)]] td] t(2) [OF p] by simp
  qed
  have "better_blocks n' \<subseteq> better_blocks n" using t(1) lt dom work by (fastforce simp: better_blocks_def)
  moreover have "t \<in> better_blocks n" "t \<notin> better_blocks n'" using t(1) td lt dom work by (auto simp: better_blocks_def)
  moreover have "finite (better_blocks n)" using index_okD(4) [OF chain_okD(1) [OF ok]] by (simp add: better_blocks_def)
  ultimately show ?thesis by (intro psubset_card_mono) auto
qed

definition settled :: "'d chainstate \<Rightarrow> bool" where
  "settled n \<longleftrightarrow> (\<forall>q \<in> set (setBlockIndexCandidates n). \<exists>t. Tip (chainActive n) = Some t \<and> chain_work (blocks n) q \<le> chain_work (blocks n) t)"

lemma settled_by_best:
  assumes "chain_ok n" and "\<forall>q \<in> set (setBlockIndexCandidates n). \<not> work_less (blocks n) p q" and "p \<in> dom (blocks n)"
    and "keeps n n'" and "Tip (chainActive n') = Some p"
  shows "settled n'"
  unfolding settled_def
proof
  have sh: "shapes (blocks n) = shapes (blocks n')" using assms(4) by (simp add: keeps_def)
  fix q assume "q \<in> set (setBlockIndexCandidates n')"
  then have q: "q \<in> set (setBlockIndexCandidates n)" using assms(4) by (auto simp: keeps_def)
  then have "chain_work (blocks n) q \<le> chain_work (blocks n) p"
    using assms(2,3) chain_okD(4) [OF assms(1)] by (intro work_less_work [OF index_okD(3) [OF chain_okD(1) [OF assms(1)]]]) auto
  then show "\<exists>t. Tip (chainActive n') = Some t \<and> chain_work (blocks n') q \<le> chain_work (blocks n') t"
    using assms(5) by (simp add: chain_work_shapes [OF sh])
qed

lemma ActivateBestChain_spec:
  assumes w: "world_intact w pblock"
  shows "chain_ok n \<Longrightarrow> \<not> corruptionPossible st \<Longrightarrow> \<exists>r. ActivateBestChain w pblock st n = Some r \<and>
    (case r of
       Inl e \<Rightarrow> e = Assertion_failed
     | Inr (ret, st', n') \<Rightarrow> keeps n n' \<and> chain_ok n' \<and> (ret \<longrightarrow> settled n'))"
proof (induction n arbitrary: st rule: wf_induct_rule [OF wf_measures [of "[untried, \<lambda>n. card (better_blocks n)]"]])
  case (1 n)
  obtain best n1 where F: "FindMostWorkChain n = Some (Inr (best, n1))" "keeps n n1" "chain_ok n1" "chainActive n1 = chainActive n"
      "\<forall>q \<in> set (setBlockIndexCandidates n1). case best of None \<Rightarrow> False | Some p \<Rightarrow> \<not> work_less (blocks n1) p q"
      "\<And>p. best = Some p \<Longrightarrow> p \<in> set (setBlockIndexCandidates n1) \<and> \<not> bad_branch (blocks n1) (chainActive n1) p"
    using FindMostWorkChain_spec [OF 1(2)] by blast
  show ?case
  proof (cases best)
    case None
    then have "ActivateBestChain w pblock st n = Some (Inr (True, st, n1))"
      using F(1) by (subst ActivateBestChain.simps) simp
    moreover have "settled n1" using F(5) None by (auto simp: settled_def)
    ultimately show ?thesis using F(2,3) by simp
  next
    case (Some P)
    obtain b where b: "blocks n1 P = Some b" using chain_okD(3) [OF F(3)] F(6) [OF Some] by blast
    have best: "\<forall>q \<in> set (setBlockIndexCandidates n1). \<not> work_less (blocks n1) P q" using F(5) Some by simp
    note settled = settled_by_best [OF F(3) best domI [of "blocks n1", OF b]]
    show ?thesis
    proof (cases "Tip (chainActive n1) = Some P")
      case True
      then have "ActivateBestChain w pblock st n = Some (Inr (True, st, n1))"
        using F(1) Some by (subst ActivateBestChain.simps) simp
      then show ?thesis using F(2,3) settled [of n1] True by simp
    next
      case False
      let ?pb = "loaded_block w pblock P n1"
      have w': "world_intact w ?pb"
        using w by (auto simp: world_intact_def loaded_block_def split: option.splits if_splits)
      obtain r where r: "ActivateBestChainStep w P ?pb st n1 = Some r" "case r of
          Inl e \<Rightarrow> e = Assertion_failed
        | Inr (ret, st', n') \<Rightarrow> keeps n1 n' \<and> chain_ok n' \<and> \<not> corruptionPossible st' \<and>
           (ret \<longrightarrow> Tip (chainActive n') = Some P \<or> better_tip (Tip (chainActive n1)) n' \<or>
             failed_blocks (blocks n1) \<subset> failed_blocks (blocks n'))"
        using ActivateBestChainStep_spec [OF w' F(3) 1(3) b] F(6) [OF Some] by blast
      show ?thesis
      proof (cases r)
        case (Inl e)
        then have "ActivateBestChain w pblock st n = Some (Inl e)"
          using F(1) Some False r(1) by (subst ActivateBestChain.simps) simp
        then show ?thesis using r(2) Inl by simp
      next
        case (Inr x)
        obtain ret st2 n2 where x: "r = Inr (ret, st2, n2)" using Inr by (cases x) auto
        have c: "keeps n1 n2" "chain_ok n2" "\<not> corruptionPossible st2"
            "ret \<Longrightarrow> Tip (chainActive n2) = Some P \<or> better_tip (Tip (chainActive n1)) n2 \<or>
              failed_blocks (blocks n1) \<subset> failed_blocks (blocks n2)"
          using r(2) by (simp_all add: x)
        have k: "keeps n n2" using keeps_trans [OF F(2) c(1)] .
        have run: "ActivateBestChain w pblock st n =
          (if \<not> ret then Some (Inr (False, st2, n2))
           else if Tip (chainActive n2) = None \<and> \<not> env_initialDownload (node_env w n2) then Some (Inl Assertion_failed)
           else if Some P \<noteq> Tip (chainActive n2) then ActivateBestChain w pblock st2 n2
           else Some (FlushStateToDisk w FLUSH_STATE_PERIODIC st2 n2))"
          using F(1) Some False r(1) x by (subst ActivateBestChain.simps) simp
        consider "\<not> ret" | "ret" "Tip (chainActive n2) = None \<and> \<not> env_initialDownload (node_env w n2)"
          | "ret" "Tip (chainActive n2) = Some P"
          | "ret" "Tip (chainActive n2) \<noteq> Some P" "\<not> (Tip (chainActive n2) = None \<and> \<not> env_initialDownload (node_env w n2))" by blast
        then show ?thesis
        proof cases
          case 1
          then show ?thesis using run k c by simp
        next
          case 2
          then show ?thesis using run by simp
        next
          case 3
          show ?thesis
          proof (cases "FlushStateToDisk w FLUSH_STATE_PERIODIC st2 n2")
            case (Inl e)
            then show ?thesis using run 3 FlushStateToDisk_Inl [OF Inl] by simp
          next
            case (Inr y)
            obtain ret' st' n' where y: "y = (ret', st', n')" by (cases y)
            note fl = FlushStateToDisk_Inr [OF Inr [unfolded y]]
            have "keeps n2 n'" using fl by (simp add: keeps_def)
            then have "keeps n n'" "keeps n1 n'" "chain_ok n'"
              using keeps_trans [OF k] keeps_trans [OF c(1)] chain_ok_keeps [OF c(2)] fl(2) by auto
            then show ?thesis using run 3 Inr y settled [of n'] fl(2) by simp
          qed
        next
          case 4
          have "untried n1 \<le> untried n" using untried_less(1) [OF 1(2) F(2)] .
          moreover have "untried n2 < untried n1 \<or> untried n2 \<le> untried n1 \<and> card (better_blocks n2) < card (better_blocks n1)"
            using c(4) [OF 4(1)] 4(2) untried_less [OF F(3) c(1)] better_blocks_less [OF F(3) c(1,2)] by blast
          moreover have "better_blocks n1 = better_blocks n"
            using shapes_dom [of "blocks n" "blocks n1"] chain_work_shapes [of "blocks n" "blocks n1"] F(2,4)
            by (auto simp: better_blocks_def keeps_def)
          ultimately have "(n2, n) \<in> measures [untried, \<lambda>n. card (better_blocks n)]" by (auto simp: measures_def)
          from 1(1) [OF this c(2,3)] obtain R where R: "ActivateBestChain w pblock st2 n2 = Some R" "case R of
             Inl e \<Rightarrow> e = Assertion_failed
           | Inr (ret, st', n') \<Rightarrow> keeps n2 n' \<and> chain_ok n' \<and> (ret \<longrightarrow> settled n')" by blast
          then show ?thesis using run 4 keeps_trans [OF k] by (auto split: sum.splits prod.splits)
        qed
      qed
    qed
  qed
qed

section \<open>Properties\<close>

text \<open>A genesis block with three branches: the active block 1, blocks 2 and 3 of which the lower one failed, and block 4.\<close>

definition fork_entry :: "int \<Rightarrow> ptr option \<Rightarrow> u64 \<Rightarrow> u32 \<Rightarrow> CBlockIndex" where
  "fork_entry h prev work status =
     CBlockIndex_SetNull\<lparr>pprev := prev, pskip := (if h = 0 then None else Some 0), nHeight := h, nChainWork := base_uint_u64 8 work,
       nChainTx := 1, nStatus := status\<rparr>"

definition fork_store :: block_store where
  "fork_store = [0 \<mapsto> fork_entry 0 None 1 8, 1 \<mapsto> fork_entry 1 (Some 0) 2 8, 2 \<mapsto> fork_entry 1 (Some 0) 3 40,
     3 \<mapsto> fork_entry 2 (Some 2) 4 8, 4 \<mapsto> fork_entry 1 (Some 0) 3 8]"

definition fork_node :: "(db_key \<Rightarrow> bytes option) chainstate" where
  "fork_node = \<lparr>blocks = fork_store, mapBlockIndex = map (\<lambda>p. (base_uint_u64 8 (of_nat p), p)) [0, 1, 2, 3, 4], chainActive = [Some 0, Some 1],
     setBlockIndexCandidates = [1, 3, 4], mapBlocksUnlinked = [], pindexBestInvalid = None, pindexBestHeader = Some 3, mapRejectedBlocks = Map.empty,
     pcoinsTip = CCoinsViewCache_new (\<lambda>_. None), ticks = 0\<rparr>"

lemma fork_store_cases:
  assumes "fork_store p = Some b"
  obtains "p = 0" "b = fork_entry 0 None 1 8" | "p = 1" "b = fork_entry 1 (Some 0) 2 8" | "p = 2" "b = fork_entry 1 (Some 0) 3 40"
  | "p = 3" "b = fork_entry 2 (Some 2) 4 8" | "p = 4" "b = fork_entry 1 (Some 0) 3 8"
  using assms by (auto simp: fork_store_def split: if_splits)

lemma fork_store_simps [simp]:
  "fork_store 0 = Some (fork_entry 0 None 1 8)" "fork_store 1 = Some (fork_entry 1 (Some 0) 2 8)" "fork_store (Suc 0) = Some (fork_entry 1 (Some 0) 2 8)"
  "fork_store 2 = Some (fork_entry 1 (Some 0) 3 40)" "fork_store 3 = Some (fork_entry 2 (Some 2) 4 8)" "fork_store 4 = Some (fork_entry 1 (Some 0) 3 8)"
  by (simp_all add: fork_store_def)

lemma fork_entry_simps [simp]:
  "pprev (fork_entry h prev work status) = prev" "nHeight (fork_entry h prev work status) = h"
  "nChainWork (fork_entry h prev work status) = base_uint_u64 8 work" "nStatus (fork_entry h prev work status) = status"
  "pskip (fork_entry h prev work status) = (if h = 0 then None else Some 0)" "nChainTx (fork_entry h prev work status) = 1"
  "nSequenceId (fork_entry h prev work status) = 0"
  by (simp_all add: fork_entry_def CBlockIndex_SetNull_def)

lemma nth_prev_2: "nth_prev st 2 p = Option.bind (Option.bind (st p) pprev) (nth_prev st (Suc 0))"
  using nth_prev.simps(2) [of st "Suc 0" p] by (simp only: numeral_2_eq_2)

lemma fork_node_ok: "chain_ok fork_node"
proof -
  have "wf_tree fork_store" unfolding wf_tree_def by (auto elim!: fork_store_cases)
  moreover have "wf_skip fork_store"
    unfolding wf_skip_def by (auto elim!: fork_store_cases simp: ancestor_at_def GetSkipHeight_def InvertLowestOne_def nth_prev_2)
  moreover have "work_width fork_store" unfolding work_width_def by (auto elim!: fork_store_cases)
  moreover have "finite (dom fork_store)" by (simp add: fork_store_def)
  moreover have "has_txs (fork_entry h prev work status)" for h prev work status by (simp add: has_txs_def)
  moreover have "is_chain fork_store [Some 0, Some 1]" by (auto simp: is_chain_def linked_upto_def less_Suc_eq)
  ultimately show ?thesis by (auto simp: chain_ok_def index_ok_def fork_node_def elim!: fork_store_cases)
qed

text \<open>
  C6: the search for the best chain.  In a well-formed state \<^verbatim>\<open>FindMostWorkChain\<close> ends without failing an assertion; it returns the
  best candidate, by work, then by the order of arrival, among those whose branch down to the active chain has no block that
  failed or whose data is missing, and nothing exactly if no candidate is of that kind; it drops only candidates with such a
  block, and it moves neither the active chain nor the shape of the tree.
\<close>

theorem FindMostWorkChain_correct:
  assumes "chain_ok n"
  shows "\<exists>r n'. FindMostWorkChain n = Some (Inr (r, n')) \<and> best_of n r \<and> chain_ok n' \<and> keeps n n' \<and> chainActive n' = chainActive n \<and>
    (\<forall>q \<in> set (setBlockIndexCandidates n) - set (setBlockIndexCandidates n'). bad_branch (blocks n) (chainActive n) q)"
  using FindMostWorkChain_spec [OF assms] by blast

theorem FindMostWorkChain_correct_witness: "\<exists>n'. FindMostWorkChain fork_node = Some (Inr (Some 4, n')) \<and> chain_ok n'"
proof -
  obtain r n' where r: "FindMostWorkChain fork_node = Some (Inr (r, n'))" "best_of fork_node r" "chain_ok n'"
    using FindMostWorkChain_correct [OF fork_node_ok] by blast
  let ?v = "[Some 0, Some 1] :: CChain"
  have in_chain: "Contains fork_store ?v 0" "Contains fork_store ?v 1" "\<not> Contains fork_store ?v 2" by (simp_all add: Contains_def chain_at_def)
  have bad: "bad_branch fork_store ?v 3"
    by (rule bad_branch.above [of _ _ _ 2], simp, simp, rule bad_branch.here) (simp, use in_chain in simp, simp add: unusable_entry_def)
  have good0: "\<not> bad_branch fork_store ?v 0"
  proof
    assume "bad_branch fork_store ?v 0"
    then show False by cases (use in_chain(1) in auto)
  qed
  have good4: "\<not> bad_branch fork_store ?v 4"
  proof
    assume "bad_branch fork_store ?v 4"
    then show False by cases (use good0 in \<open>auto simp: unusable_entry_def BLOCK_HAVE_DATA_def\<close>)
  qed
  have less: "work_less fork_store 1 4" by (simp add: work_less_def CompareTo_iff uval_u64)
  have "r = Some 4"
  proof (cases r)
    case None
    then show ?thesis using r(2) good4 by (simp add: best_of_def fork_node_def)
  next
    case (Some p)
    then have "p \<in> {1, 3, 4}" "\<not> bad_branch fork_store ?v p" "\<not> work_less fork_store p 4"
      using r(2) good4 by (auto simp: best_of_def fork_node_def)
    then show ?thesis using Some bad less by auto
  qed
  with r show ?thesis by blast
qed

text \<open>
  C5: activating the best chain.  If the blocks that are read back from the disk are intact (the header, the Merkle tree and the
  number of signature operations were checked before they were stored), \<^verbatim>\<open>ActivateBestChain\<close> ends, whatever the other results
  of the disk, the clock and the verification of scripts: it fails an assertion of the code or returns, and the walks over the
  index never leave it.  Afterwards the index, the active chain and the candidates are well-formed again; if it returns true,
  there is no candidate with more work than the tip.
\<close>

theorem ActivateBestChain_terminates:
  assumes "chain_ok n" and "world_intact w pblock" and "\<not> corruptionPossible st"
  shows "\<exists>r. ActivateBestChain w pblock st n = Some r \<and>
    (case r of
       Inl e \<Rightarrow> e = Assertion_failed
     | Inr (ret, st', n') \<Rightarrow> keeps n n' \<and> chain_ok n' \<and> (ret \<longrightarrow> settled n'))"
  by (rule ActivateBestChain_spec [OF assms(2,1,3)])

definition sample_world :: "(db_key \<Rightarrow> bytes option) world" where
  "sample_world = \<lparr>w_view = sample_db, w_env = (\<lambda>_. sample_cenv), w_io = (\<lambda>_. sample_io), w_ReadBlock = (\<lambda>_ _. Some coinbase_block),
     w_ReadUndo = (\<lambda>_ _. None), w_flush = (\<lambda>_. \<lparr>fl_late = True, fl_diskSpace = True, fl_abort = None\<rparr>), nCoinCacheSize = 5000\<rparr>"

lemma coinbase_block_intact: "intact (block_env.truncate sample_cenv) coinbase_block"
proof -
  have "BuildMerkleTree [x] = (x, False, [x])" for x by (simp add: BuildMerkleTree_eq merkle_root_def twin_tail_def)
  moreover have "legacy_sigops coinbase_block \<le> MAX_BLOCK_SIGOPS"
    using coinbase_block_ok legacy_sigops_exact [of coinbase_block]
    by (simp add: block_ok_def structure_ok_def MAX_BLOCK_SIGOPS_def word_le_nat_alt)
  ultimately show ?thesis
    by (simp add: intact_def sample_cenv_def block_env.defs CheckProofOfWork_def) (simp add: coinbase_block_def)
qed

theorem ActivateBestChain_terminates_witness:
  "\<exists>r. ActivateBestChain sample_world (Some coinbase_block) CValidationState_new fork_node = Some r \<and> r \<noteq> Inl Broken_index"
proof -
  have "world_intact sample_world (Some coinbase_block)" using coinbase_block_intact by (simp add: world_intact_def sample_world_def)
  from ActivateBestChain_terminates [OF fork_node_ok this, of CValidationState_new] show ?thesis
    by (auto simp: CValidationState_new_def)
qed

end
