(* ===== verification/IndexOps.thy ===== *)
theory IndexOps
  imports Activation Pow
begin

text \<open>
  The operations of \<^verbatim>\<open>src/src/main.cpp\<close> that change the index of blocks: a new entry (\<^verbatim>\<open>AddToBlockIndex\<close>), and the marks an operator
  sets and takes away (\<^verbatim>\<open>InvalidateBlock\<close>, \<^verbatim>\<open>ReconsiderBlock\<close>).  The pointer of a new entry is an argument, as are the answers of the
  proof-of-stake kernel.  A loop over \<^verbatim>\<open>mapBlockIndex\<close> visits the list of its pairs.
\<close>

section \<open>New entries\<close>

definition BLOCK_VALID_TREE :: u32 where "BLOCK_VALID_TREE = 2"
definition BLOCK_VALID_TRANSACTIONS :: u32 where "BLOCK_VALID_TRANSACTIONS = 3"

definition CBlockIndex_of :: "CBlock \<Rightarrow> CBlockIndex" where
  "CBlockIndex_of block =
     (let e = CBlockIndex_SetNull\<lparr>nVersion := block_nVersion block, hashMerkleRoot := block_hashMerkleRoot block, nTime := block_nTime block,
                nBits := block_nBits block, nNonce := block_nNonce block\<rparr> in
      if CBlock_IsProofOfStake block
      then (SetProofOfStake e)\<lparr>prevoutStake := prevout (vin (vtx block ! 1) ! 0), nStakeTime := block_nTime block\<rparr>
      else e\<lparr>prevoutStake := COutPoint_null, nStakeTime := 0\<rparr>)"

text \<open>The answers of the kernel for an entry on top of a block: the modifier and whether it is new, the checksum of the entry, and
  the hash of the proof of stake.\<close>

record stake_info =
  stk_modifier :: u64
  stk_generated :: bool
  stk_checksum :: u32
  stk_proof :: base_uint

text \<open>The part for an entry with a predecessor.\<close>

definition link_entry :: "stake_info \<Rightarrow> block_store \<Rightarrow> ptr \<Rightarrow> CBlockIndex \<Rightarrow> CBlockIndex \<Rightarrow> uint_error + CBlockIndex" where
  "link_entry stake st q prev e =
     (let e = BuildSkip st (e\<lparr>pprev := Some q, nHeight := nHeight prev + 1\<rparr>) in
      rbind (GetBlockTrust e) (\<lambda>trust.
        let e = snd (SetStakeEntropyBit (GetStakeEntropyBit e) (e\<lparr>bnChainTrust := uint_add (bnChainTrust prev) trust\<rparr>));
            e = (if IsProofOfStake e then e\<lparr>hashProofOfStake := stk_proof stake\<rparr> else e);
            e = SetStakeModifier (stk_modifier stake) (stk_generated stake) e
        in Inr (e\<lparr>nStakeModifierChecksum := stk_checksum stake\<rparr>)))"

definition set_pnext :: "ptr \<Rightarrow> ptr option \<Rightarrow> block_store \<Rightarrow> block_store" where
  "set_pnext p prev st =
     (case prev of None \<Rightarrow> st | Some q \<Rightarrow> (case st q of None \<Rightarrow> st | Some b \<Rightarrow> st(q \<mapsto> b\<lparr>pnext := Some p\<rparr>)))"

definition AddToBlockIndex ::
    "base_uint \<Rightarrow> stake_info \<Rightarrow> ptr \<Rightarrow> CBlock \<Rightarrow> 'd chainstate \<Rightarrow> uint_error + ptr \<times> 'd chainstate" where
  "AddToBlockIndex hash stake p block n =
     (case map_of (mapBlockIndex n) hash of
        Some q \<Rightarrow> Inr (q, n)
      | None \<Rightarrow>
          let index = (hash, p) # mapBlockIndex n;
              e = (CBlockIndex_of block)\<lparr>nSequenceId := 0, phashBlock := hash\<rparr>;
              st = (blocks n)(p \<mapsto> e);
              prev = map_of index (block_hashPrevBlock block)
          in rbind (case Option.bind prev st of None \<Rightarrow> Inr e | Some b \<Rightarrow> link_entry stake st (the prev) b e) (\<lambda>e.
             rbind (GetBlockProof e) (\<lambda>proof.
               let work = (case Option.bind (pprev e) st of None \<Rightarrow> base_uint_zero 8 | Some b \<Rightarrow> nChainWork b);
                   e = e\<lparr>nChainWork := uint_add work proof\<rparr>;
                   e = (case RaiseValidity BLOCK_VALID_TREE e of None \<Rightarrow> e | Some (_, e') \<Rightarrow> e');
                   n = n\<lparr>blocks := set_pnext p (pprev e) ((blocks n)(p \<mapsto> e)), mapBlockIndex := index\<rparr>
               in Inr (p, if (case pindexBestHeader n of None \<Rightarrow> True | Some q \<Rightarrow> more_work (blocks n) p q)
                          then n\<lparr>pindexBestHeader := Some p\<rparr> else n))))"

section \<open>Marking a block as invalid\<close>

definition eligible :: "'d chainstate \<Rightarrow> ptr \<Rightarrow> bool" where
  "eligible n q = (case blocks n q of None \<Rightarrow> False | Some b \<Rightarrow> IsValid BLOCK_VALID_TRANSACTIONS b = Some True \<and> nChainTx b \<noteq> 0)"

definition insert_candidate :: "ptr \<Rightarrow> 'd chainstate \<Rightarrow> 'd chainstate" where
  "insert_candidate q n = n\<lparr>setBlockIndexCandidates := List.insert q (setBlockIndexCandidates n)\<rparr>"

partial_function (option) invalidate_loop :: "'d world \<Rightarrow> ptr \<Rightarrow> CValidationState \<Rightarrow> 'd chainstate \<Rightarrow> 'd outcome option" where
  "invalidate_loop w p st n =
     (if Contains (blocks n) (chainActive n) p
      then (case Tip (chainActive n) of
              None \<Rightarrow> Some (Inl Assertion_failed)
            | Some t \<Rightarrow>
                (case DisconnectTip w st (n\<lparr>blocks := add_status BLOCK_FAILED_CHILD t (blocks n),
                                            setBlockIndexCandidates := removeAll t (setBlockIndexCandidates n)\<rparr>) of
                   Inl e \<Rightarrow> Some (Inl e)
                 | Inr (ok, st', n') \<Rightarrow> if ok then invalidate_loop w p st' n' else Some (Inr (False, st', n'))))
      else Some (Inr (True, st, n)))"

definition restore_candidates :: "'d chainstate \<Rightarrow> crash + 'd chainstate" where
  "restore_candidates n =
     (case Tip (chainActive n) of
        None \<Rightarrow> if list_ex (\<lambda>(_, q). eligible n q) (mapBlockIndex n) then Inl Assertion_failed else Inr n
      | Some t \<Rightarrow>
          Inr (fold (\<lambda>(_, q) n. if eligible n q \<and> \<not> work_less (blocks n) q t then insert_candidate q n else n) (mapBlockIndex n) n))"

definition InvalidateBlock :: "'d world \<Rightarrow> ptr \<Rightarrow> CValidationState \<Rightarrow> 'd chainstate \<Rightarrow> 'd outcome option" where
  "InvalidateBlock w p st n =
     (case invalidate_loop w p st (n\<lparr>blocks := add_status BLOCK_FAILED_VALID p (blocks n),
                                      setBlockIndexCandidates := removeAll p (setBlockIndexCandidates n)\<rparr>) of
        None \<Rightarrow> None
      | Some (Inl e) \<Rightarrow> Some (Inl e)
      | Some (Inr (ok, st', n')) \<Rightarrow>
          if \<not> ok then Some (Inr (False, st', n'))
          else (case restore_candidates n' of
                  Inl e \<Rightarrow> Some (Inl e)
                | Inr n'' \<Rightarrow> Some (Inr (True, st', InvalidChainFound p n''))))"

section \<open>Taking the mark away\<close>

definition clear_failed :: "ptr \<Rightarrow> block_store \<Rightarrow> block_store" where
  "clear_failed q st = (case st q of None \<Rightarrow> st | Some b \<Rightarrow> st(q \<mapsto> b\<lparr>nStatus := nStatus b AND NOT BLOCK_FAILED_MASK\<rparr>))"

definition reconsider_entry :: "ptr \<Rightarrow> int \<Rightarrow> ptr \<Rightarrow> 'd chainstate \<Rightarrow> crash + 'd chainstate" where
  "reconsider_entry p h q n =
     (case blocks n q of
        None \<Rightarrow> Inl Assertion_failed
      | Some b \<Rightarrow>
          if IsValid BLOCK_VALID_TRANSACTIONS b \<noteq> Some True \<and> GetAncestor (blocks n) q h = Some p then
            (let n = n\<lparr>blocks := clear_failed q (blocks n)\<rparr>;
                 finish = (\<lambda>n. if pindexBestInvalid n = Some q then n\<lparr>pindexBestInvalid := None\<rparr> else n) in
             if eligible n q then
               (case Tip (chainActive n) of
                  None \<Rightarrow> Inl Assertion_failed
                | Some t \<Rightarrow> Inr (finish (if work_less (blocks n) t q then insert_candidate q n else n)))
             else Inr (finish n))
          else Inr n)"

fun reconsider_all :: "ptr \<Rightarrow> int \<Rightarrow> (base_uint \<times> ptr) list \<Rightarrow> 'd chainstate \<Rightarrow> crash + 'd chainstate" where
  "reconsider_all p h [] n = Inr n"
| "reconsider_all p h ((_, q) # index) n =
     (case reconsider_entry p h q n of Inl e \<Rightarrow> Inl e | Inr n' \<Rightarrow> reconsider_all p h index n')"

partial_function (option) clear_ancestors :: "ptr option \<Rightarrow> block_store \<Rightarrow> block_store option" where
  "clear_ancestors pindex st =
     (case pindex of
        None \<Rightarrow> Some st
      | Some p \<Rightarrow>
          (case st p of
             None \<Rightarrow> None
           | Some b \<Rightarrow>
               clear_ancestors (pprev b) (if nStatus b AND BLOCK_FAILED_MASK \<noteq> 0 then clear_failed p st else st)))"

definition ReconsiderBlock :: "ptr \<Rightarrow> 'd chainstate \<Rightarrow> (crash + 'd chainstate) option" where
  "ReconsiderBlock p n =
     (case blocks n p of
        None \<Rightarrow> Some (Inl Assertion_failed)
      | Some b \<Rightarrow>
          (case reconsider_all p (nHeight b) (mapBlockIndex n) n of
             Inl e \<Rightarrow> Some (Inl e)
           | Inr n' \<Rightarrow>
               (case clear_ancestors (Some p) (blocks n') of
                  None \<Rightarrow> None
                | Some st \<Rightarrow> Some (Inr (n'\<lparr>blocks := st\<rparr>)))))"

section \<open>Adding an entry keeps the index\<close>

text \<open>The index of hashes points to stored entries with these hashes.\<close>

definition index_maps :: "'d chainstate \<Rightarrow> bool" where
  "index_maps n \<longleftrightarrow> (\<forall>(h, q) \<in> set (mapBlockIndex n). \<exists>b. blocks n q = Some b \<and> phashBlock b = h)"

lemma BuildSkip_fields [simp]:
  "nHeight (BuildSkip st e) = nHeight e" "pprev (BuildSkip st e) = pprev e" "nChainTx (BuildSkip st e) = nChainTx e"
  "phashBlock (BuildSkip st e) = phashBlock e" "nStatus (BuildSkip st e) = nStatus e" "nBits (BuildSkip st e) = nBits e"
  by (simp_all add: BuildSkip_def split: option.split)

lemma SetStakeEntropyBit_fields [simp]:
  "pprev (snd (SetStakeEntropyBit k e)) = pprev e" "pskip (snd (SetStakeEntropyBit k e)) = pskip e" "nHeight (snd (SetStakeEntropyBit k e)) = nHeight e"
  "nChainTx (snd (SetStakeEntropyBit k e)) = nChainTx e" "phashBlock (snd (SetStakeEntropyBit k e)) = phashBlock e"
  "nStatus (snd (SetStakeEntropyBit k e)) = nStatus e" "nBits (snd (SetStakeEntropyBit k e)) = nBits e"
  by (simp_all add: SetStakeEntropyBit_def)

lemma SetStakeModifier_fields [simp]:
  "pprev (SetStakeModifier k g e) = pprev e" "pskip (SetStakeModifier k g e) = pskip e" "nHeight (SetStakeModifier k g e) = nHeight e"
  "nChainTx (SetStakeModifier k g e) = nChainTx e" "phashBlock (SetStakeModifier k g e) = phashBlock e"
  "nStatus (SetStakeModifier k g e) = nStatus e" "nBits (SetStakeModifier k g e) = nBits e"
  by (simp_all add: SetStakeModifier_def Let_def)

lemma link_entry_Inr:
  "\<exists>e'. link_entry stake st q prev e = Inr e' \<and> pprev e' = Some q \<and> nHeight e' = nHeight prev + 1 \<and>
     pskip e' = GetAncestor st q (GetSkipHeight (nHeight prev + 1)) \<and> nChainTx e' = nChainTx e \<and> phashBlock e' = phashBlock e \<and>
     nStatus e' = nStatus e \<and> nBits e' = nBits e"
proof -
  obtain t where "GetBlockTrust (BuildSkip st (e\<lparr>pprev := Some q, nHeight := nHeight prev + 1\<rparr>)) = Inr t"
    using GetBlockTrust_value by blast
  then show ?thesis by (simp add: link_entry_def Let_def rbind_def) (simp add: BuildSkip_def)
qed

lemma CBlockIndex_of_fields [simp]:
  "pprev (CBlockIndex_of block) = None" "nHeight (CBlockIndex_of block) = 0" "nChainTx (CBlockIndex_of block) = 0"
  "nStatus (CBlockIndex_of block) = 0" "nBits (CBlockIndex_of block) = block_nBits block"
  by (simp_all add: CBlockIndex_of_def CBlockIndex_SetNull_def SetProofOfStake_def Let_def)

lemma set_pnext_shapes: "shapes (set_pnext p prev st) = shapes st"
  by (auto simp: set_pnext_def shapes_update shape_def split: option.split)

lemma set_pnext_phashBlock: "map_option phashBlock (set_pnext p prev st q) = map_option phashBlock (st q)"
  by (auto simp: set_pnext_def split: option.split)

lemma index_ok_add:
  assumes ok: "index_ok st" and new: "st p = None" and txs: "nChainTx e = 0" and len: "length (nChainWork e) = 8"
    and link: "case pprev e of None \<Rightarrow> nHeight e = 0
      | Some q \<Rightarrow> (\<exists>b. st q = Some b \<and> nHeight e = nHeight b + 1) \<and> pskip e = ancestor_at st q (GetSkipHeight (nHeight e))"
  shows "index_ok (st(p \<mapsto> e))"
proof -
  note wf = index_okD(1,2) [OF ok]
  have tree: "wf_tree (st(p \<mapsto> e))"
    by (rule wf_tree_add_entry [OF wf(1) new]) (use link in \<open>auto split: option.splits\<close>)
  have "wf_skip (st(p \<mapsto> e))"
    by (rule wf_skip_add_entry [OF wf new tree]) (use link in simp)
  moreover have "work_width (st(p \<mapsto> e))" using work_widthD [OF index_okD(3) [OF ok]] len by (simp add: work_width_def)
  moreover have "finite (dom (st(p \<mapsto> e)))" using index_okD(4) [OF ok] by simp
  moreover have "has_txs c" if *: "(st(p \<mapsto> e)) r = Some b" "has_txs b" "pprev b = Some q" "(st(p \<mapsto> e)) q = Some c" for r b q c
  proof (cases "r = p")
    case True
    then have "nHeight b = 0" using * txs by (simp add: has_txs_def)
    then show ?thesis using wf_treeD(2) [OF tree *(1)] *(3) by simp
  next
    case False
    then have b: "st r = Some b" using * by simp
    obtain b' where "st q = Some b'" using wf_treeD(3) [OF wf(1) b *(3)] by blast
    then have "q \<noteq> p" using new by auto
    then show ?thesis using index_okD(5) [OF ok b *(2,3)] *(4) by simp
  qed
  ultimately show ?thesis using tree unfolding index_ok_def by blast
qed

definition block_work :: "u32 \<Rightarrow> nat" where
  "block_work compact =
     (let t = compact_value compact in if bit compact 23 \<or> t = 0 \<or> 2 ^ 256 \<le> t then 0 else 2 ^ 256 div (t + 1))"

lemma chain_ok_add:
  assumes ok: "chain_ok n" and index: "index_ok st" and new: "blocks n p = None"
    and old: "\<And>q b. blocks n q = Some b \<Longrightarrow> \<exists>b'. st q = Some b' \<and> shape b' = shape b"
    and same: "blocks n' = st" "chainActive n' = chainActive n" "setBlockIndexCandidates n' = setBlockIndexCandidates n"
  shows "chain_ok n'"
proof -
  have link: "linked_upto (blocks n) (chainActive n) (length (chainActive n))" and set: "None \<notin> set (chainActive n)"
    using chain_okD(2) [OF ok] by (simp_all add: is_chain_def)
  have "\<exists>b. st q = Some b \<and> nHeight b = int i \<and> (0 < i \<longrightarrow> pprev b = chainActive n ! (i - 1))"
    if i: "i < length (chainActive n)" "chainActive n ! i = Some q" for i q
  proof -
    obtain b where b: "blocks n q = Some b" "nHeight b = int i" "0 < i \<longrightarrow> pprev b = chainActive n ! (i - 1)"
      using link i unfolding linked_upto_def by blast
    obtain b' where "st q = Some b'" "shape b' = shape b" using old [OF b(1)] by blast
    with b show ?thesis by (simp add: shape_def)
  qed
  with set have "is_chain st (chainActive n)" unfolding is_chain_def linked_upto_def by simp
  moreover have "\<exists>b. st q = Some b \<and> has_txs b" if q: "q \<in> set (setBlockIndexCandidates n)" for q
  proof -
    obtain b where b: "blocks n q = Some b" "has_txs b" using chain_okD(3) [OF ok q] by blast
    then show ?thesis using old [OF b(1)] by (auto simp: has_txs_def shape_def)
  qed
  ultimately show ?thesis using index same by (simp add: chain_ok_def)
qed

lemma AddToBlockIndex_new:
  assumes ok: "chain_ok n" and maps: "index_maps n" and new: "blocks n p = None" and fresh: "map_of (mapBlockIndex n) hash = None"
    and prev: "block_hashPrevBlock block \<noteq> hash"
  shows "\<exists>n' e. AddToBlockIndex hash stake p block n = Inr (p, n') \<and> chain_ok n' \<and> index_maps n' \<and>
    mapBlockIndex n' = (hash, p) # mapBlockIndex n \<and> blocks n' p = Some e \<and> phashBlock e = hash \<and> nStatus e = BLOCK_VALID_TREE \<and>
    pprev e = map_of (mapBlockIndex n) (block_hashPrevBlock block) \<and>
    chain_work (blocks n') p =
      ((case pprev e of None \<Rightarrow> 0 | Some q \<Rightarrow> chain_work (blocks n) q) + block_work (block_nBits block)) mod 2 ^ 256"
proof -
  note index = chain_okD(1) [OF ok]
  note wf = index_okD(1,2) [OF index]
  define e0 where "e0 = (CBlockIndex_of block)\<lparr>nSequenceId := 0, phashBlock := hash\<rparr>"
  define st where "st = (blocks n)(p \<mapsto> e0)"
  define pr where "pr = map_of (mapBlockIndex n) (block_hashPrevBlock block)"
  have stored: "\<exists>b. blocks n q = Some b \<and> st q = Some b \<and> q \<noteq> p" if "pr = Some q" for q
  proof -
    have "(block_hashPrevBlock block, q) \<in> set (mapBlockIndex n)" using that by (simp add: pr_def map_of_SomeD)
    then obtain b where "blocks n q = Some b" using maps unfolding index_maps_def by blast
    then show ?thesis using new by (auto simp: st_def)
  qed
  have "\<exists>e1. (case Option.bind pr st of None \<Rightarrow> Inr e0 | Some b \<Rightarrow> link_entry stake st (the pr) b e0) = Inr e1 \<and> pprev e1 = pr \<and>
      nChainTx e1 = 0 \<and> phashBlock e1 = hash \<and> nStatus e1 = 0 \<and> nBits e1 = block_nBits block \<and>
      (case pr of None \<Rightarrow> nHeight e1 = 0
       | Some q \<Rightarrow> (\<exists>b. blocks n q = Some b \<and> nHeight e1 = nHeight b + 1) \<and> pskip e1 = ancestor_at (blocks n) q (GetSkipHeight (nHeight e1)))"
  proof (cases pr)
    case None
    then show ?thesis by (simp add: e0_def)
  next
    case (Some q)
    obtain b where b: "blocks n q = Some b" "st q = Some b" "q \<noteq> p" using stored [OF Some] by blast
    obtain e' where e': "link_entry stake st q b e0 = Inr e'" "pprev e' = Some q" "nHeight e' = nHeight b + 1"
        "pskip e' = GetAncestor st q (GetSkipHeight (nHeight b + 1))" "nChainTx e' = 0" "phashBlock e' = hash" "nStatus e' = 0" "nBits e' = block_nBits block"
      using link_entry_Inr [of stake st q b e0] by (auto simp: e0_def)
    have tree: "wf_tree st" unfolding st_def by (rule wf_tree_add_entry [OF wf(1) new]) (simp add: e0_def)
    have "wf_skip st" unfolding st_def by (rule wf_skip_add_entry [OF wf new tree [unfolded st_def]]) (simp add: e0_def)
    then have "GetAncestor st q h = ancestor_at (blocks n) q h" for h
      using GetAncestor_eq_ancestor_at [OF tree] ancestor_at_add_entry [OF wf(1) new b(3)] by (simp add: st_def)
    then show ?thesis using Some b e' by simp
  qed
  then obtain e1 where e1: "(case Option.bind pr st of None \<Rightarrow> Inr e0 | Some b \<Rightarrow> link_entry stake st (the pr) b e0) = Inr e1" "pprev e1 = pr"
      "nChainTx e1 = 0" "phashBlock e1 = hash" "nStatus e1 = 0" "nBits e1 = block_nBits block"
      "case pr of None \<Rightarrow> nHeight e1 = 0
       | Some q \<Rightarrow> (\<exists>b. blocks n q = Some b \<and> nHeight e1 = nHeight b + 1) \<and> pskip e1 = ancestor_at (blocks n) q (GetSkipHeight (nHeight e1))"
    by blast
  obtain w where w: "GetBlockProof e1 = Inr w" "length w = 8" "uval w = block_work (block_nBits block)"
    using GetBlockProof_value [of e1] e1(6) by (auto simp: block_work_def)
  define work where "work = (case Option.bind pr st of None \<Rightarrow> base_uint_zero 8 | Some b \<Rightarrow> nChainWork b)"
  have zero: "length (base_uint_zero 8) = 8" "uval (base_uint_zero 8) = 0" by (simp_all add: base_uint_zero_def)
  have work: "length work = 8" "uval work = (case pr of None \<Rightarrow> 0 | Some q \<Rightarrow> chain_work (blocks n) q)"
    using stored work_widthD [OF index_okD(3) [OF index]]
    by (cases pr; force simp: work_def chain_work_def zero)+
  define e where "e = e1\<lparr>nChainWork := uint_add work w, nStatus := BLOCK_VALID_TREE\<rparr>"
  define st' where "st' = set_pnext p pr ((blocks n)(p \<mapsto> e))"
  define n1 where "n1 = n\<lparr>blocks := st', mapBlockIndex := (hash, p) # mapBlockIndex n\<rparr>"
  define n' where "n' = (if (case pindexBestHeader n of None \<Rightarrow> True | Some q \<Rightarrow> more_work st' p q) then n1\<lparr>pindexBestHeader := Some p\<rparr> else n1)"
  have fields: "blocks n' = st'" "chainActive n' = chainActive n" "setBlockIndexCandidates n' = setBlockIndexCandidates n"
      "mapBlockIndex n' = (hash, p) # mapBlockIndex n" by (simp_all add: n'_def n1_def)
  have raise: "RaiseValidity BLOCK_VALID_TREE (e1\<lparr>nChainWork := uint_add work w\<rparr>) = Some (True, e)"
    using e1(5) by (simp add: RaiseValidity_def BLOCK_VALID_TREE_def e_def)
  have run: "AddToBlockIndex hash stake p block n = Inr (p, n')"
  proof -
    have prm: "map_of ((hash, p) # mapBlockIndex n) (block_hashPrevBlock block) = pr" using prev by (simp add: pr_def)
    have pv: "pprev e = pr" using e1(2) by (simp add: e_def)
    show ?thesis
      unfolding AddToBlockIndex_def fresh option.case Let_def prm e0_def [symmetric] st_def [symmetric] e1(1) rbind_def sum.case e1(2) w(1)
        work_def [symmetric] raise prod.case pv
      by (cases "pindexBestHeader n") (simp_all add: n'_def n1_def st'_def)
  qed
  have st': "shapes st' = shapes ((blocks n)(p \<mapsto> e))" by (simp add: st'_def set_pnext_shapes)
  have "index_ok ((blocks n)(p \<mapsto> e))"
  proof (rule index_ok_add [OF index new])
    have "pprev e = pr" "nHeight e = nHeight e1" "pskip e = pskip e1" using e1(2) by (simp_all add: e_def)
    then show "case pprev e of None \<Rightarrow> nHeight e = 0
      | Some q \<Rightarrow> (\<exists>b. blocks n q = Some b \<and> nHeight e = nHeight b + 1) \<and> pskip e = ancestor_at (blocks n) q (GetSkipHeight (nHeight e))"
      using e1(7) by (cases pr) simp_all
  qed (use e1(3) work(1) w(2) in \<open>simp_all add: e_def\<close>)
  then have "index_ok st'" by (rule index_ok_shapes [OF st' [symmetric]])
  moreover have "\<exists>b'. st' q = Some b' \<and> shape b' = shape b" if "blocks n q = Some b" for q b
    using fun_cong [OF st', of q] that new by (cases "q = p") (auto simp: shapes_def)
  ultimately have "chain_ok n'" using chain_ok_add [OF ok _ new] fields by blast
  moreover have p: "blocks n' p = Some e"
    using stored by (cases pr) (auto simp: fields st'_def set_pnext_def split: option.split)
  moreover have "index_maps n'"
  proof -
    have "\<exists>b. st' q = Some b \<and> phashBlock b = h" if hq: "(h, q) \<in> set (mapBlockIndex n)" for h q
    proof -
      obtain b where b: "blocks n q = Some b" "phashBlock b = h" using maps hq unfolding index_maps_def by blast
      then have "q \<noteq> p" using new by auto
      then show ?thesis using set_pnext_phashBlock [of p pr "(blocks n)(p \<mapsto> e)" q] b by (simp add: st'_def)
    qed
    with p show ?thesis using e1(4) by (auto simp: index_maps_def fields) (simp add: e_def)
  qed
  moreover have "chain_work (blocks n') p = (uval work + uval w) mod 2 ^ 256"
    using p uval_add [of work w] work(1) w(2) by (simp add: chain_work_def e_def)
  ultimately show ?thesis
    using run fields(4) e1(2,4) work(2) w(3)
    by (intro exI [of _ n'] exI [of _ e]) (simp add: e_def pr_def)
qed

section \<open>Invalidating a block\<close>

lemma invalidate_loop_spec:
  "chain_ok n \<Longrightarrow> \<exists>r. invalidate_loop w p st n = Some r \<and>
    (case r of
       Inl e \<Rightarrow> e = Assertion_failed
     | Inr (ret, st', n') \<Rightarrow> keeps n n' \<and> chain_ok n' \<and> (ret \<longrightarrow> \<not> Contains (blocks n') (chainActive n') p))"
proof (induction "length (chainActive n)" arbitrary: n st rule: less_induct)
  case less
  show ?case
  proof (cases "Contains (blocks n) (chainActive n) p")
    case False
    then show ?thesis using less.prems by (subst invalidate_loop.simps) simp
  next
    case True
    then have "chainActive n \<noteq> []" by (auto simp: Contains_def chain_at_def split: option.splits if_splits)
    then obtain t where t: "Tip (chainActive n) = Some t"
      using chain_at_tip [OF index_okD(1) [OF chain_okD(1) [OF less.prems]] chain_okD(2) [OF less.prems]] by blast
    define n1 where "n1 = n\<lparr>blocks := add_status BLOCK_FAILED_CHILD t (blocks n),
      setBlockIndexCandidates := removeAll t (setBlockIndexCandidates n)\<rparr>"
    have k1: "keeps n n1" by (auto simp: keeps_def n1_def add_status_blocks)
    have act: "chainActive n1 = chainActive n" by (simp add: n1_def)
    have ok1: "chain_ok n1" using chain_ok_keeps [OF less.prems k1] act by simp
    have run: "invalidate_loop w p st n = (case DisconnectTip w st n1 of Inl e \<Rightarrow> Some (Inl e)
        | Inr (ok, st', n') \<Rightarrow> if ok then invalidate_loop w p st' n' else Some (Inr (False, st', n')))"
      using True t by (subst invalidate_loop.simps) (simp add: n1_def)
    show ?thesis
    proof (cases "DisconnectTip w st n1")
      case (Inl e)
      then show ?thesis using run DisconnectTip_Inl [OF ok1 Inl] by simp
    next
      case (Inr x)
      obtain ret st' n' where x: "x = (ret, st', n')" by (cases x)
      note d = DisconnectTip_Inr [OF ok1 Inr [unfolded x]]
      have k: "keeps n n'" using keeps_trans [OF k1, of n'] d(1,2) by (simp add: keeps_def)
      show ?thesis
      proof (cases ret)
        case False
        then show ?thesis using run Inr x d(4) k by simp
      next
        case ret: True
        have "length (chainActive n') < length (chainActive n)" using d(5) [OF ret] act by (simp add: Height_def)
        from less.hyps [OF this d(4), of st'] obtain r where r: "invalidate_loop w p st' n' = Some r" "case r of
            Inl e \<Rightarrow> e = Assertion_failed
          | Inr (ret, st'', n'') \<Rightarrow> keeps n' n'' \<and> chain_ok n'' \<and> (ret \<longrightarrow> \<not> Contains (blocks n'') (chainActive n'') p)" by blast
        have "invalidate_loop w p st n = Some r" using run Inr x ret r(1) by simp
        then show ?thesis using r(2) keeps_trans [OF k] by (auto split: sum.splits)
      qed
    qed
  qed
qed

lemma insert_candidate_simps [simp]:
  "blocks (insert_candidate q n) = blocks n" "chainActive (insert_candidate q n) = chainActive n" "mapBlockIndex (insert_candidate q n) = mapBlockIndex n"
  "set (setBlockIndexCandidates (insert_candidate q n)) = insert q (set (setBlockIndexCandidates n))"
  by (auto simp: insert_candidate_def)

lemma eligible_insert [simp]: "eligible (insert_candidate r n) q = eligible n q" by (simp add: eligible_def)

definition add_back :: "ptr \<Rightarrow> (base_uint \<times> ptr) list \<Rightarrow> 'd chainstate \<Rightarrow> 'd chainstate" where
  "add_back t index n = fold (\<lambda>(_, q) n. if eligible n q \<and> \<not> work_less (blocks n) q t then insert_candidate q n else n) index n"

lemma add_back_simps:
  "blocks (add_back t index n) = blocks n" "chainActive (add_back t index n) = chainActive n" "mapBlockIndex (add_back t index n) = mapBlockIndex n"
  "set (setBlockIndexCandidates (add_back t index n)) =
     set (setBlockIndexCandidates n) \<union> {q \<in> snd ` set index. eligible n q \<and> \<not> work_less (blocks n) q t}"
proof -
  have "blocks (add_back t index n) = blocks n \<and> chainActive (add_back t index n) = chainActive n \<and> mapBlockIndex (add_back t index n) = mapBlockIndex n \<and>
    set (setBlockIndexCandidates (add_back t index n)) =
      set (setBlockIndexCandidates n) \<union> {q \<in> snd ` set index. eligible n q \<and> \<not> work_less (blocks n) q t}"
  proof (induction index arbitrary: n)
    case Nil
    then show ?case by (simp add: add_back_def)
  next
    case (Cons x index)
    obtain h q where x: "x = (h, q)" by (cases x)
    define n1 where "n1 = (if eligible n q \<and> \<not> work_less (blocks n) q t then insert_candidate q n else n)"
    have n1: "blocks n1 = blocks n" "chainActive n1 = chainActive n" "mapBlockIndex n1 = mapBlockIndex n" "eligible n1 = eligible n"
      by (simp_all add: n1_def eligible_def fun_eq_iff)
    have "add_back t (x # index) n = add_back t index n1" by (simp add: add_back_def x n1_def)
    then show ?case using Cons.IH [of n1] n1 by (auto simp: x n1_def)
  qed
  then show "blocks (add_back t index n) = blocks n" "chainActive (add_back t index n) = chainActive n" "mapBlockIndex (add_back t index n) = mapBlockIndex n"
    "set (setBlockIndexCandidates (add_back t index n)) =
     set (setBlockIndexCandidates n) \<union> {q \<in> snd ` set index. eligible n q \<and> \<not> work_less (blocks n) q t}" by simp_all
qed

lemma chain_ok_candidates:
  assumes "chain_ok n" and "blocks n' = blocks n" and "chainActive n' = chainActive n"
    and "set (setBlockIndexCandidates n') \<subseteq> set (setBlockIndexCandidates n) \<union> {q. eligible n q}"
  shows "chain_ok n'"
proof -
  have "\<exists>b. blocks n q = Some b \<and> has_txs b" if "eligible n q" for q
    using that by (auto simp: eligible_def has_txs_def split: option.splits)
  then show ?thesis using assms chain_okD(3) [OF assms(1)] by (auto simp: chain_ok_def)
qed

lemma InvalidateBlock_spec:
  assumes ok: "chain_ok n" and p: "blocks n p = Some b"
  shows "\<exists>r. InvalidateBlock w p st n = Some r \<and>
    (case r of
       Inl e \<Rightarrow> e = Assertion_failed
     | Inr (ret, st', n') \<Rightarrow> chain_ok n' \<and> shapes (blocks n') = shapes (blocks n) \<and> insert p (failed_blocks (blocks n)) \<subseteq> failed_blocks (blocks n') \<and>
         (ret \<longrightarrow> \<not> Contains (blocks n') (chainActive n') p \<and>
           (\<forall>t q. Tip (chainActive n') = Some t \<longrightarrow> q \<in> snd ` set (mapBlockIndex n') \<longrightarrow> eligible n' q \<longrightarrow> \<not> work_less (blocks n') q t \<longrightarrow>
              q \<in> set (setBlockIndexCandidates n'))))"
proof -
  define n0 where "n0 = n\<lparr>blocks := add_status BLOCK_FAILED_VALID p (blocks n), setBlockIndexCandidates := removeAll p (setBlockIndexCandidates n)\<rparr>"
  have k0: "keeps n n0" by (auto simp: keeps_def n0_def add_status_blocks)
  have p0: "p \<in> failed_blocks (blocks n0)" using p by (simp add: n0_def add_status_blocks domIff)
  have ok0: "chain_ok n0" using chain_ok_keeps [OF ok k0] by (simp add: n0_def)
  obtain r where r: "invalidate_loop w p st n0 = Some r" "case r of
       Inl e \<Rightarrow> e = Assertion_failed
     | Inr (ret, st', n') \<Rightarrow> keeps n0 n' \<and> chain_ok n' \<and> (ret \<longrightarrow> \<not> Contains (blocks n') (chainActive n') p)"
    using invalidate_loop_spec [OF ok0] by blast
  have run: "InvalidateBlock w p st n = (case r of Inl e \<Rightarrow> Some (Inl e)
      | Inr (ok, st', n') \<Rightarrow> if \<not> ok then Some (Inr (False, st', n'))
          else (case restore_candidates n' of Inl e \<Rightarrow> Some (Inl e) | Inr n'' \<Rightarrow> Some (Inr (True, st', InvalidChainFound p n''))))"
    using r(1) by (simp add: InvalidateBlock_def n0_def)
  show ?thesis
  proof (cases r)
    case (Inl e)
    then show ?thesis using r(2) run by simp
  next
    case (Inr x)
    obtain ret st1 n1 where x: "r = Inr (ret, st1, n1)" using Inr by (cases x) auto
    have n1: "keeps n0 n1" "chain_ok n1" "ret \<Longrightarrow> \<not> Contains (blocks n1) (chainActive n1) p" using r(2) by (simp_all add: x)
    have k: "shapes (blocks n1) = shapes (blocks n)" "insert p (failed_blocks (blocks n)) \<subseteq> failed_blocks (blocks n1)"
      using k0 n1(1) p0 by (auto simp: keeps_def)
    show ?thesis
    proof (cases ret)
      case False
      then show ?thesis using run x n1 k by simp
    next
      case True
      show ?thesis
      proof (cases "Tip (chainActive n1)")
        case None
        then show ?thesis using run x True n1 k by (auto simp: restore_candidates_def chain_ok_def)
      next
        case (Some t)
        let ?n2 = "InvalidChainFound p (add_back t (mapBlockIndex n1) n1)"
        have "restore_candidates n1 = Inr (add_back t (mapBlockIndex n1) n1)" by (simp add: restore_candidates_def Some add_back_def)
        then have run': "InvalidateBlock w p st n = Some (Inr (True, st1, ?n2))" using run x True by simp
        have "chain_ok ?n2" by (rule chain_ok_candidates [OF n1(2)]) (auto simp: add_back_simps)
        moreover have "mapBlockIndex ?n2 = mapBlockIndex n1"
          by (simp add: InvalidChainFound_def add_back_simps split: option.split)
        ultimately show ?thesis
          using run' k n1(3) [OF True] Some by (simp add: add_back_simps) (auto simp: eligible_def add_back_simps)
      qed
    qed
  qed
qed

section \<open>Reconsidering a block\<close>

lemma clear_failed_simps [simp]: "shapes (clear_failed q st) = shapes st" "failed_blocks (clear_failed q st) = failed_blocks st - {q}"
proof -
  have "(s AND - 97) AND 96 = 0" for s :: u32 by (simp add: and.assoc)
  then show "failed_blocks (clear_failed q st) = failed_blocks st - {q}"
    by (auto simp: failed_blocks_def clear_failed_def split: option.splits if_splits)
  show "shapes (clear_failed q st) = shapes st" by (cases "st q") (simp_all add: clear_failed_def shapes_update shape_def)
qed

lemma leads_ancestor:
  assumes "wf_tree st" and "st p = Some b"
  shows "leads st p q \<longleftrightarrow> ancestor_at st q (nHeight b) = Some p"
proof
  show "ancestor_at st q (nHeight b) = Some p" if "leads st p q"
    using that
  proof (induction rule: leads.induct)
    case refl
    then show ?case using ancestor_at_self assms(2) wf_treeD(1) [OF assms] by blast
  next
    case (step q c r)
    obtain d where d: "st r = Some d" "nHeight c = nHeight d + 1" using wf_treeD(3) [OF assms(1) step.hyps(1,2)] by blast
    have h: "0 \<le> nHeight b" "nHeight b \<le> nHeight d" using step.IH d(1) by (auto simp: ancestor_at_def split: if_splits)
    have pos: "0 < nHeight c" using d h by simp
    have r: "ancestor_at st q (nHeight c - 1) = Some r" using pprev_ancestor_at [OF assms(1) step.hyps(1) pos] step.hyps(2) by simp
    show ?case using ancestor_at_trans [OF assms(1) step.hyps(1) r h(1)] d h step.IH by simp
  qed
  show "leads st p q" if "ancestor_at st q (nHeight b) = Some p"
    using that nth_prev_leads by (auto simp: ancestor_at_def split: option.splits if_splits)
qed

lemma leads_shapes_iff: "shapes st = shapes st' \<Longrightarrow> leads st q p \<longleftrightarrow> leads st' q p"
  using leads_shapes [of st st'] leads_shapes [of st' st] by metis

lemma reconsider_entry_spec:
  assumes ok: "chain_ok n" and p: "blocks n p = Some b" and q: "q \<in> dom (blocks n)" and tip: "Tip (chainActive n) \<noteq> None"
  shows "\<exists>n'. reconsider_entry p (nHeight b) q n = Inr n' \<and> chain_ok n' \<and> shapes (blocks n') = shapes (blocks n) \<and>
    chainActive n' = chainActive n \<and> failed_blocks (blocks n') = failed_blocks (blocks n) - {x. x = q \<and> leads (blocks n) p x}"
proof -
  note wf = index_okD(1,2) [OF chain_okD(1) [OF ok]]
  obtain c t where c: "blocks n q = Some c" and t: "Tip (chainActive n) = Some t" using q tip by auto
  have anc: "GetAncestor (blocks n) q (nHeight b) = Some p \<longleftrightarrow> leads (blocks n) p q"
    using leads_ancestor [OF wf(1) p] GetAncestor_eq_ancestor_at [OF wf] by simp
  define n1 where "n1 = n\<lparr>blocks := clear_failed q (blocks n)\<rparr>"
  have n1: "shapes (blocks n1) = shapes (blocks n)" "chainActive n1 = chainActive n" "setBlockIndexCandidates n1 = setBlockIndexCandidates n"
      "failed_blocks (blocks n1) = failed_blocks (blocks n) - {q}" by (simp_all add: n1_def)
  have "is_chain (blocks n1) (chainActive n1)" using is_chain_shapes [OF n1(1) [symmetric] chain_okD(2) [OF ok]] n1(2) by simp
  then have ok1: "chain_ok n1" using chain_ok_shapes [OF ok n1(1) [symmetric]] n1(3) by simp
  show ?thesis
  proof (cases "IsValid BLOCK_VALID_TRANSACTIONS c \<noteq> Some True \<and> leads (blocks n) p q")
    case True
    define n2 where "n2 = (if eligible n1 q \<and> work_less (blocks n1) t q then insert_candidate q n1 else n1)"
    define n3 where "n3 = (if pindexBestInvalid n2 = Some q then n2\<lparr>pindexBestInvalid := None\<rparr> else n2)"
    have run: "reconsider_entry p (nHeight b) q n = Inr n3"
      using True c t anc by (auto simp: reconsider_entry_def n1_def [symmetric] n1(2) Let_def n2_def n3_def)
    have n3: "blocks n3 = blocks n1" "chainActive n3 = chainActive n1"
        "set (setBlockIndexCandidates n3) \<subseteq> set (setBlockIndexCandidates n1) \<union> {q. eligible n1 q}"
      by (auto simp: n3_def n2_def)
    have "{x. x = q \<and> leads (blocks n) p x} = {q}" using True by auto
    then show ?thesis using run n3 n1 chain_ok_candidates [OF ok1 n3] by simp
  next
    case False
    have "q \<notin> failed_blocks (blocks n) \<or> \<not> leads (blocks n) p q"
      using False c by (auto simp: failed_blocks_def IsValid_def BLOCK_VALID_TRANSACTIONS_def split: if_splits)
    then have "failed_blocks (blocks n) - {x. x = q \<and> leads (blocks n) p x} = failed_blocks (blocks n)" by auto
    then show ?thesis using False c anc ok by (auto simp: reconsider_entry_def)
  qed
qed

lemma reconsider_all_spec:
  "chain_ok n \<Longrightarrow> blocks n p = Some b \<Longrightarrow> snd ` set index \<subseteq> dom (blocks n) \<Longrightarrow> Tip (chainActive n) \<noteq> None \<Longrightarrow>
    \<exists>n'. reconsider_all p (nHeight b) index n = Inr n' \<and> chain_ok n' \<and> shapes (blocks n') = shapes (blocks n) \<and>
      failed_blocks (blocks n') = failed_blocks (blocks n) - {x \<in> snd ` set index. leads (blocks n) p x}"
proof (induction index arbitrary: n b)
  case (Cons x index)
  obtain h q where x: "x = (h, q)" by (cases x)
  have "q \<in> dom (blocks n)" using Cons.prems(3) x by auto
  from reconsider_entry_spec [OF Cons.prems(1,2) this Cons.prems(4)] obtain n1 where
    n1: "reconsider_entry p (nHeight b) q n = Inr n1" "chain_ok n1" "shapes (blocks n1) = shapes (blocks n)" "chainActive n1 = chainActive n"
      "failed_blocks (blocks n1) = failed_blocks (blocks n) - {x. x = q \<and> leads (blocks n) p x}" by blast
  obtain b1 where b1: "blocks n1 p = Some b1" "nHeight b1 = nHeight b" using shapesD [OF n1(3) [symmetric] Cons.prems(2)] by blast
  have "snd ` set index \<subseteq> dom (blocks n1)" using Cons.prems(3) shapes_dom [OF n1(3)] by auto
  from Cons.IH [OF n1(2) b1(1) this] obtain n' where
    n': "reconsider_all p (nHeight b) index n1 = Inr n'" "chain_ok n'" "shapes (blocks n') = shapes (blocks n)"
      "failed_blocks (blocks n') = failed_blocks (blocks n1) - {x \<in> snd ` set index. leads (blocks n1) p x}"
    using n1(3,4) Cons.prems(4) b1(2) by auto
  have "failed_blocks (blocks n') = failed_blocks (blocks n) - {y \<in> snd ` set (x # index). leads (blocks n) p y}"
    unfolding n'(4) n1(5) by (auto simp: x leads_shapes_iff [OF n1(3)])
  then show ?case using n1(1) n'(1-3) x by simp
qed simp

lemma clear_ancestors_spec:
  assumes "wf_tree st" and "st p = Some b"
  shows "\<exists>st'. clear_ancestors (Some p) st = Some st' \<and> shapes st' = shapes st \<and> failed_blocks st' = failed_blocks st - {q. leads st q p}"
  using assms
proof (induction "nat (nHeight b)" arbitrary: p b st rule: less_induct)
  case less
  define st1 where "st1 = (if nStatus b AND BLOCK_FAILED_MASK \<noteq> 0 then clear_failed p st else st)"
  have st1: "shapes st1 = shapes st" "failed_blocks st1 = failed_blocks st - {p}"
  proof -
    have "nStatus b AND BLOCK_FAILED_MASK = 0 \<Longrightarrow> p \<notin> failed_blocks st" using less.prems(2) by (simp add: failed_blocks_def)
    then show "shapes st1 = shapes st" "failed_blocks st1 = failed_blocks st - {p}" by (auto simp: st1_def)
  qed
  have run: "clear_ancestors (Some p) st = clear_ancestors (pprev b) st1"
    using less.prems(2) by (subst clear_ancestors.simps) (simp add: st1_def)
  show ?case
  proof (cases "pprev b")
    case None
    have "leads st q p \<longleftrightarrow> q = p" for q using None less.prems(2) by (auto elim: leads.cases intro: leads.refl)
    then show ?thesis using run None st1 by (simp add: clear_ancestors.simps)
  next
    case (Some r)
    have up: "leads st q p \<longleftrightarrow> q = p \<or> leads st q r" for q
      using Some less.prems(2) by (auto elim: leads.cases intro: leads.refl leads.step)
    obtain c where c: "st r = Some c" "nHeight b = nHeight c + 1" using wf_treeD(3) [OF less.prems Some] by blast
    obtain c1 where c1: "st1 r = Some c1" "nHeight c1 = nHeight c" using shapesD [OF st1(1) [symmetric] c(1)] by blast
    have "nat (nHeight c1) < nat (nHeight b)" using c c1 wf_treeD(1) [OF less.prems(1) c(1)] by simp
    from less.hyps [OF this wf_tree_shapes [OF st1(1) [symmetric] less.prems(1)] c1(1)] obtain st' where
      st': "clear_ancestors (Some r) st1 = Some st'" "shapes st' = shapes st1" "failed_blocks st' = failed_blocks st1 - {q. leads st1 q r}" by blast
    then have "failed_blocks st' = failed_blocks st - {q. leads st q p}" using st1 by (auto simp: up leads_shapes_iff [OF st1(1)])
    then show ?thesis using run Some st' st1(1) by simp
  qed
qed

lemma ReconsiderBlock_spec:
  assumes ok: "chain_ok n" and p: "blocks n p = Some b" and index: "snd ` set (mapBlockIndex n) = dom (blocks n)"
    and tip: "Tip (chainActive n) \<noteq> None"
  shows "\<exists>n'. ReconsiderBlock p n = Some (Inr n') \<and> chain_ok n' \<and> shapes (blocks n') = shapes (blocks n) \<and>
    failed_blocks (blocks n') = failed_blocks (blocks n) - {q. leads (blocks n) p q \<or> leads (blocks n) q p}"
proof -
  obtain n1 where n1: "reconsider_all p (nHeight b) (mapBlockIndex n) n = Inr n1" "chain_ok n1" "shapes (blocks n1) = shapes (blocks n)"
      "failed_blocks (blocks n1) = failed_blocks (blocks n) - {x \<in> dom (blocks n). leads (blocks n) p x}"
    using reconsider_all_spec [OF ok p _ tip, of "mapBlockIndex n"] index by auto
  obtain b1 where b1: "blocks n1 p = Some b1" using shapesD [OF n1(3) [symmetric] p] by blast
  obtain st where st: "clear_ancestors (Some p) (blocks n1) = Some st" "shapes st = shapes (blocks n1)"
      "failed_blocks st = failed_blocks (blocks n1) - {q. leads (blocks n1) q p}"
    using clear_ancestors_spec [OF index_okD(1) [OF chain_okD(1) [OF n1(2)]] b1] by blast
  have "chain_ok (n1\<lparr>blocks := st\<rparr>)"
    using chain_ok_shapes [OF n1(2), of "n1\<lparr>blocks := st\<rparr>"] st(2) is_chain_shapes [OF st(2) [symmetric] chain_okD(2) [OF n1(2)]] by simp
  moreover have "failed_blocks (blocks n) \<subseteq> dom (blocks n)" by (auto simp: failed_blocks_def)
  then have "failed_blocks st = failed_blocks (blocks n) - {q. leads (blocks n) p q \<or> leads (blocks n) q p}"
    unfolding st(3) n1(4) by (auto simp: leads_shapes_iff [OF n1(3)])
  ultimately show ?thesis using p n1(1,3) st by (simp add: ReconsiderBlock_def)
qed

section \<open>Properties\<close>

text \<open>
  C9: new index entries.  For a block that is not yet in the index, \<^verbatim>\<open>AddToBlockIndex\<close> stores an entry with its hash, linked to
  the entry of its predecessor, whose total work is that of the predecessor plus the work of the block (modulo \<open>2 ^ 256\<close>); the
  tree, its skip pointers, the active chain, the candidates and the map from hashes to entries stay well-formed.
\<close>

theorem AddToBlockIndex_keeps_index:
  assumes "chain_ok n" and "index_maps n" and "blocks n p = None" and "map_of (mapBlockIndex n) hash = None"
    and "block_hashPrevBlock block \<noteq> hash"
  shows "\<exists>n' e. AddToBlockIndex hash stake p block n = Inr (p, n') \<and> chain_ok n' \<and> index_maps n' \<and>
    mapBlockIndex n' = (hash, p) # mapBlockIndex n \<and> blocks n' p = Some e \<and> phashBlock e = hash \<and> nStatus e = BLOCK_VALID_TREE \<and>
    pprev e = map_of (mapBlockIndex n) (block_hashPrevBlock block) \<and>
    chain_work (blocks n') p =
      ((case pprev e of None \<Rightarrow> 0 | Some q \<Rightarrow> chain_work (blocks n) q) + block_work (block_nBits block)) mod 2 ^ 256"
  by (rule AddToBlockIndex_new [OF assms])

text \<open>The node of before, with the hashes of its entries.\<close>

definition hashed_store :: block_store where
  "hashed_store p = map_option (\<lambda>b. b\<lparr>phashBlock := base_uint_u64 8 (of_nat p)\<rparr>) (fork_store p)"

definition hashed_node :: "(db_key \<Rightarrow> bytes option) chainstate" where
  "hashed_node = fork_node\<lparr>blocks := hashed_store\<rparr>"

lemma hashed_shapes: "shapes (blocks hashed_node) = shapes (blocks fork_node)"
  by (rule ext) (auto simp: shapes_def hashed_node_def hashed_store_def fork_node_def shape_def map_option_case split: option.split)

lemma hashed_node_ok: "chain_ok hashed_node" "index_maps hashed_node"
proof -
  have "is_chain (blocks hashed_node) (chainActive hashed_node)"
    using is_chain_shapes [OF hashed_shapes [symmetric] chain_okD(2) [OF fork_node_ok]] by (simp add: hashed_node_def)
  then show "chain_ok hashed_node"
    using chain_ok_shapes [OF fork_node_ok hashed_shapes [symmetric]] by (simp add: hashed_node_def)
  show "index_maps hashed_node" by (simp add: index_maps_def hashed_node_def fork_node_def hashed_store_def)
qed

theorem AddToBlockIndex_keeps_index_witness:
  "\<exists>n' e. AddToBlockIndex (base_uint_u64 8 7) \<lparr>stk_modifier = 0, stk_generated = False, stk_checksum = 0, stk_proof = []\<rparr> 7
     (coinbase_block\<lparr>block_hashPrevBlock := base_uint_u64 8 4\<rparr>) hashed_node = Inr (7, n') \<and> chain_ok n' \<and>
     blocks n' 7 = Some e \<and> pprev e = Some 4"
proof -
  have "blocks hashed_node 7 = None" by (simp add: hashed_node_def hashed_store_def fork_store_def)
  moreover have "map_of (mapBlockIndex hashed_node) (base_uint_u64 8 7) = None"
    "map_of (mapBlockIndex hashed_node) (base_uint_u64 8 4) = Some 4" by (simp_all add: hashed_node_def fork_node_def base_uint_u64_def)
  moreover have "base_uint_u64 8 4 \<noteq> base_uint_u64 8 7" by (simp add: base_uint_u64_def)
  ultimately show ?thesis
    using AddToBlockIndex_keeps_index [OF hashed_node_ok, of 7 "base_uint_u64 8 7" "coinbase_block\<lparr>block_hashPrevBlock := base_uint_u64 8 4\<rparr>"]
    by fastforce
qed

text \<open>
  A block that the operator marks as invalid.  \<^verbatim>\<open>InvalidateBlock\<close> ends; the block is then marked as failed, together with all blocks
  that were.  If it returns true, the block is not in the active chain, and every block of the index that is valid, complete and
  not worse than the new tip is a candidate again.
\<close>

theorem InvalidateBlock_leaves_chain:
  assumes "chain_ok n" and "blocks n p = Some b"
  shows "\<exists>r. InvalidateBlock w p st n = Some r \<and>
    (case r of
       Inl e \<Rightarrow> e = Assertion_failed
     | Inr (ret, st', n') \<Rightarrow> chain_ok n' \<and> shapes (blocks n') = shapes (blocks n) \<and> insert p (failed_blocks (blocks n)) \<subseteq> failed_blocks (blocks n') \<and>
         (ret \<longrightarrow> \<not> Contains (blocks n') (chainActive n') p \<and>
           (\<forall>t q. Tip (chainActive n') = Some t \<longrightarrow> q \<in> snd ` set (mapBlockIndex n') \<longrightarrow> eligible n' q \<longrightarrow> \<not> work_less (blocks n') q t \<longrightarrow>
              q \<in> set (setBlockIndexCandidates n'))))"
  by (rule InvalidateBlock_spec [OF assms])

theorem InvalidateBlock_leaves_chain_witness:
  "\<exists>r. InvalidateBlock sample_world 1 CValidationState_new fork_node = Some r \<and> r \<noteq> Inl Broken_index"
  using InvalidateBlock_leaves_chain [OF fork_node_ok, of 1 "fork_entry 1 (Some 0) 2 8" sample_world CValidationState_new]
  by (auto simp: fork_node_def)

text \<open>
  C10: taking the mark away.  \<^verbatim>\<open>ReconsiderBlock\<close> ends, and then the failed blocks are those of before that are neither the block nor an
  ancestor nor a descendant of it; the state stays well-formed.
\<close>

theorem ReconsiderBlock_clears:
  assumes "chain_ok n" and "blocks n p = Some b" and "snd ` set (mapBlockIndex n) = dom (blocks n)" and "Tip (chainActive n) \<noteq> None"
  shows "\<exists>n'. ReconsiderBlock p n = Some (Inr n') \<and> chain_ok n' \<and> shapes (blocks n') = shapes (blocks n) \<and>
    failed_blocks (blocks n') = failed_blocks (blocks n) - {q. leads (blocks n) p q \<or> leads (blocks n) q p}"
  by (rule ReconsiderBlock_spec [OF assms])

theorem ReconsiderBlock_clears_witness: "\<exists>n'. ReconsiderBlock 3 fork_node = Some (Inr n') \<and> failed_blocks (blocks n') = {}"
proof -
  have "snd ` set (mapBlockIndex fork_node) = dom (blocks fork_node)" by (auto simp: fork_node_def fork_store_def)
  moreover have "Tip (chainActive fork_node) \<noteq> None" by (simp add: fork_node_def Tip_def)
  moreover have b: "blocks fork_node 3 = Some (fork_entry 2 (Some 2) 4 8)" by (simp add: fork_node_def)
  ultimately obtain n' where "ReconsiderBlock 3 fork_node = Some (Inr n')"
      "failed_blocks (blocks n') = failed_blocks (blocks fork_node) - {q. leads (blocks fork_node) 3 q \<or> leads (blocks fork_node) q 3}"
    using ReconsiderBlock_clears [OF fork_node_ok] by blast
  moreover have "failed_blocks (blocks fork_node) = {2}"
    by (auto simp: failed_blocks_def fork_node_def elim!: fork_store_cases)
  moreover have "leads (blocks fork_node) 2 3"
    by (rule leads.step [where st = "blocks fork_node" and p = 3 and r = 2, OF b fork_entry_simps(1) leads.refl])
  ultimately show ?thesis by auto
qed

end
