(* ===== verification/Mempool.thy ===== *)
theory Mempool
  imports CoinsView Validation
begin

text \<open>
  The memory pool of \<^verbatim>\<open>src/src/txmempool.h/.cpp\<close>: the transactions that wait for a block, the map from each output they spend to the
  input that spends it, and the operations that add and remove transactions.  A \<open>CInPoint\<close> holds a pointer to the transaction
  inside the first map; here it is the key of that node, and following a pointer to a node that is gone is \<open>None\<close>.  A
  \<^verbatim>\<open>std::map\<close> is an association list, sorted by key where the code iterates over it.  The estimator of fees and the priorities,
  which are floating-point numbers, are left out.
\<close>

section \<open>Data\<close>

record CTxMemPoolEntry =
  mpe_tx :: CTransaction
  mpe_nFee :: CAmount
  mpe_nTxSize :: nat
  mpe_nTime :: int
  mpe_nHeight :: u32

definition CTxMemPoolEntry_new :: "CTransaction \<Rightarrow> CAmount \<Rightarrow> int \<Rightarrow> u32 \<Rightarrow> CTxMemPoolEntry" where
  "CTxMemPoolEntry_new tx fee time height =
     \<lparr>mpe_tx = tx, mpe_nFee = fee, mpe_nTxSize = GetSerializeSize_CTransaction tx, mpe_nTime = time, mpe_nHeight = height\<rparr>"

record CInPoint =
  ptx :: txid
  inp_n :: u32

record CTxMemPool =
  mapTx :: "(txid \<times> CTxMemPoolEntry) list"
  mapNextTx :: "(COutPoint \<times> CInPoint) list"
  mapDeltas :: "txid \<rightharpoonup> CAmount"
  totalTxSize :: u64
  nTransactionsUpdated :: u32

definition CTxMemPool_new :: CTxMemPool where
  "CTxMemPool_new = \<lparr>mapTx = [], mapNextTx = [], mapDeltas = Map.empty, totalTxSize = 0, nTransactionsUpdated = 0\<rparr>"

definition MEMPOOL_HEIGHT :: int where "MEMPOOL_HEIGHT = 0x7FFFFFFF"

section \<open>Operations\<close>

text \<open>The loop over the inputs of a new transaction, from an index on.\<close>

fun record_inputs :: "txid \<Rightarrow> nat \<Rightarrow> CTxIn list \<Rightarrow> (COutPoint \<times> CInPoint) list \<Rightarrow> (COutPoint \<times> CInPoint) list" where
  "record_inputs hash i [] m = m"
| "record_inputs hash i (txin # ins) m = record_inputs hash (i + 1) ins (AList.update (prevout txin) \<lparr>ptx = hash, inp_n = of_nat i\<rparr> m)"

definition addUnchecked :: "txid \<Rightarrow> CTxMemPoolEntry \<Rightarrow> CTxMemPool \<Rightarrow> CTxMemPool" where
  "addUnchecked hash entry pool =
     pool\<lparr>mapTx := AList.update hash entry (mapTx pool),
          mapNextTx := record_inputs hash 0 (vin (mpe_tx entry)) (mapNextTx pool),
          nTransactionsUpdated := nTransactionsUpdated pool + 1,
          totalTxSize := totalTxSize pool + of_nat (mpe_nTxSize entry)\<rparr>"

text \<open>The hash of the transaction that spends an output, if any; the outer \<open>None\<close> is a pointer to a node that is gone.\<close>

definition spender :: "CTxMemPool \<Rightarrow> COutPoint \<Rightarrow> txid option option" where
  "spender pool out =
     (case map_of (mapNextTx pool) out of
        None \<Rightarrow> Some None
      | Some ip \<Rightarrow> map_option (\<lambda>e. Some (tx_hash (mpe_tx e))) (map_of (mapTx pool) (ptx ip)))"

fun push_spenders :: "CTxMemPool \<Rightarrow> txid \<Rightarrow> nat list \<Rightarrow> txid list \<Rightarrow> txid list option" where
  "push_spenders pool hash [] txToRemove = Some txToRemove"
| "push_spenders pool hash (i # is) txToRemove =
     (case spender pool \<lparr>op_hash = hash, op_n = of_nat i\<rparr> of
        None \<Rightarrow> None
      | Some None \<Rightarrow> push_spenders pool hash is txToRemove
      | Some (Some h) \<Rightarrow> push_spenders pool hash is (txToRemove @ [h]))"

definition erase_entry :: "txid \<Rightarrow> CTxMemPoolEntry \<Rightarrow> CTxMemPool \<Rightarrow> CTxMemPool" where
  "erase_entry hash entry pool =
     pool\<lparr>mapNextTx := fold (\<lambda>txin. AList.delete (prevout txin)) (vin (mpe_tx entry)) (mapNextTx pool),
          totalTxSize := totalTxSize pool - of_nat (mpe_nTxSize entry),
          mapTx := AList.delete hash (mapTx pool),
          nTransactionsUpdated := nTransactionsUpdated pool + 1\<rparr>"

lemma erase_entry_length:
  assumes "map_of (mapTx pool) h = Some e"
  shows "length (mapTx (erase_entry h e pool)) < length (mapTx pool)"
proof -
  have "(h, e) \<in> set (mapTx pool)" using assms by (rule map_of_SomeD)
  then have "length (filter (\<lambda>(k, v). h \<noteq> k) (mapTx pool)) < length (mapTx pool)"
    by (intro length_filter_less [of "(h, e)"]) auto
  then show ?thesis by (simp add: erase_entry_def AList.delete_eq)
qed

function remove_loop :: "bool \<Rightarrow> CTransaction list \<Rightarrow> txid list \<Rightarrow> CTxMemPool \<Rightarrow> (CTransaction list \<times> CTxMemPool) option" where
  "remove_loop fRecursive removed [] pool = Some (removed, pool)"
| "remove_loop fRecursive removed (hash # txToRemove) pool =
     (case map_of (mapTx pool) hash of
        None \<Rightarrow> remove_loop fRecursive removed txToRemove pool
      | Some entry \<Rightarrow>
          (case (if fRecursive then push_spenders pool hash [0..<length (vout (mpe_tx entry))] txToRemove else Some txToRemove) of
             None \<Rightarrow> None
           | Some txToRemove' \<Rightarrow> remove_loop fRecursive (removed @ [mpe_tx entry]) txToRemove' (erase_entry hash entry pool)))"
  by pat_completeness auto
termination
  by (relation "measures [\<lambda>(r, removed, q, pool). length (mapTx pool), \<lambda>(r, removed, q, pool). length q]")
    (auto intro: erase_entry_length)

definition remove :: "CTransaction \<Rightarrow> bool \<Rightarrow> CTransaction list \<Rightarrow> CTxMemPool \<Rightarrow> (CTransaction list \<times> CTxMemPool) option" where
  "remove origTx fRecursive removed pool =
     (case (if fRecursive \<and> map_of (mapTx pool) (tx_hash origTx) = None
            then push_spenders pool (tx_hash origTx) [0..<length (vout origTx)] [tx_hash origTx]
            else Some [tx_hash origTx]) of
        None \<Rightarrow> None
      | Some txToRemove \<Rightarrow> remove_loop fRecursive removed txToRemove pool)"

fun conflicts_loop :: "txid \<Rightarrow> CTxIn list \<Rightarrow> CTransaction list \<Rightarrow> CTxMemPool \<Rightarrow> (CTransaction list \<times> CTxMemPool) option" where
  "conflicts_loop hash [] removed pool = Some (removed, pool)"
| "conflicts_loop hash (txin # ins) removed pool =
     (case map_of (mapNextTx pool) (prevout txin) of
        None \<Rightarrow> conflicts_loop hash ins removed pool
      | Some ip \<Rightarrow>
          (case map_of (mapTx pool) (ptx ip) of
             None \<Rightarrow> None
           | Some e \<Rightarrow>
               if tx_hash (mpe_tx e) \<noteq> hash
               then (case remove (mpe_tx e) True removed pool of
                       None \<Rightarrow> None
                     | Some (removed', pool') \<Rightarrow> conflicts_loop hash ins removed' pool')
               else conflicts_loop hash ins removed pool))"

definition removeConflicts :: "CTransaction \<Rightarrow> CTransaction list \<Rightarrow> CTxMemPool \<Rightarrow> (CTransaction list \<times> CTxMemPool) option" where
  "removeConflicts tx removed pool = conflicts_loop (tx_hash tx) (vin tx) removed pool"

definition PrioritiseTransaction :: "txid \<Rightarrow> CAmount \<Rightarrow> CTxMemPool \<Rightarrow> CTxMemPool" where
  "PrioritiseTransaction hash nFeeDelta pool =
     pool\<lparr>mapDeltas := (mapDeltas pool)(hash \<mapsto> wrap64 ((case mapDeltas pool hash of None \<Rightarrow> 0 | Some d \<Rightarrow> d) + nFeeDelta))\<rparr>"

definition ApplyDeltas :: "txid \<Rightarrow> CTxMemPool \<Rightarrow> CAmount \<Rightarrow> CAmount" where
  "ApplyDeltas hash pool nFeeDelta = (case mapDeltas pool hash of None \<Rightarrow> nFeeDelta | Some d \<Rightarrow> wrap64 (nFeeDelta + d))"

definition ClearPrioritisation :: "txid \<Rightarrow> CTxMemPool \<Rightarrow> CTxMemPool" where
  "ClearPrioritisation hash pool = pool\<lparr>mapDeltas := (mapDeltas pool)(hash := None)\<rparr>"

fun removeForBlock :: "CTransaction list \<Rightarrow> CTransaction list \<Rightarrow> CTxMemPool \<Rightarrow> (CTransaction list \<times> CTxMemPool) option" where
  "removeForBlock [] conflicts pool = Some (conflicts, pool)"
| "removeForBlock (tx # txs) conflicts pool =
     (case remove tx False [] pool of
        None \<Rightarrow> None
      | Some (_, pool1) \<Rightarrow>
          (case removeConflicts tx conflicts pool1 of
             None \<Rightarrow> None
           | Some (conflicts', pool2) \<Rightarrow> removeForBlock txs conflicts' (ClearPrioritisation (tx_hash tx) pool2)))"

text \<open>Transactions that spend an immature output; the difference of the heights is an unsigned number.\<close>

fun spends_immature ::
    "'v view \<Rightarrow> bool \<Rightarrow> int \<Rightarrow> u32 \<Rightarrow> CTxMemPool \<Rightarrow> CTxIn list \<Rightarrow> 'v CCoinsViewCache \<Rightarrow> (bool \<times> 'v CCoinsViewCache) option" where
  "spends_immature V fSanityCheck maturity nMemPoolHeight pool [] c = Some (False, c)"
| "spends_immature V fSanityCheck maturity nMemPoolHeight pool (txin # ins) c =
     (if map_of (mapTx pool) (op_hash (prevout txin)) \<noteq> None
      then spends_immature V fSanityCheck maturity nMemPoolHeight pool ins c
      else case AccessCoins V c (op_hash (prevout txin)) of
        (None, c') \<Rightarrow> if fSanityCheck then None else Some (True, c')
      | (Some coins, c') \<Rightarrow>
          if (fCoinBase coins \<or> fCoinStake coins) \<and> nMemPoolHeight - of_int (coins_nHeight coins) < of_int maturity
          then Some (True, c')
          else spends_immature V fSanityCheck maturity nMemPoolHeight pool ins c')"

fun collect_immature ::
    "'v view \<Rightarrow> bool \<Rightarrow> int \<Rightarrow> u32 \<Rightarrow> CTxMemPool \<Rightarrow> (txid \<times> CTxMemPoolEntry) list \<Rightarrow> 'v CCoinsViewCache \<Rightarrow>
     (CTransaction list \<times> 'v CCoinsViewCache) option" where
  "collect_immature V fSanityCheck maturity nMemPoolHeight pool [] c = Some ([], c)"
| "collect_immature V fSanityCheck maturity nMemPoolHeight pool ((_, e) # es) c =
     (case spends_immature V fSanityCheck maturity nMemPoolHeight pool (vin (mpe_tx e)) c of
        None \<Rightarrow> None
      | Some (bad, c') \<Rightarrow>
          map_option (\<lambda>(txs, c''). (if bad then mpe_tx e # txs else txs, c''))
            (collect_immature V fSanityCheck maturity nMemPoolHeight pool es c'))"

fun remove_all :: "CTransaction list \<Rightarrow> CTxMemPool \<Rightarrow> CTxMemPool option" where
  "remove_all [] pool = Some pool"
| "remove_all (tx # txs) pool = (case remove tx True [] pool of None \<Rightarrow> None | Some (_, pool') \<Rightarrow> remove_all txs pool')"

definition removeCoinbaseSpends ::
    "'v view \<Rightarrow> bool \<Rightarrow> int \<Rightarrow> u32 \<Rightarrow> CTxMemPool \<Rightarrow> 'v CCoinsViewCache \<Rightarrow> (CTxMemPool \<times> 'v CCoinsViewCache) option" where
  "removeCoinbaseSpends V fSanityCheck maturity nMemPoolHeight pool c =
     (case collect_immature V fSanityCheck maturity nMemPoolHeight pool (sort_key (uval \<circ> fst) (mapTx pool)) c of
        None \<Rightarrow> None
      | Some (txs, c') \<Rightarrow> map_option (\<lambda>pool'. (pool', c')) (remove_all txs pool))"

definition clear :: "CTxMemPool \<Rightarrow> CTxMemPool" where
  "clear pool = pool\<lparr>mapTx := [], mapNextTx := [], totalTxSize := 0, nTransactionsUpdated := nTransactionsUpdated pool + 1\<rparr>"

definition lookup :: "CTxMemPool \<Rightarrow> txid \<Rightarrow> CTransaction option" where
  "lookup pool hash = map_option mpe_tx (map_of (mapTx pool) hash)"

definition exists_tx :: "CTxMemPool \<Rightarrow> txid \<Rightarrow> bool" where
  "exists_tx pool hash \<longleftrightarrow> map_of (mapTx pool) hash \<noteq> None"

definition queryHashes :: "CTxMemPool \<Rightarrow> txid list" where
  "queryHashes pool = map fst (sort_key (uval \<circ> fst) (mapTx pool))"

definition pruneSpent :: "CTxMemPool \<Rightarrow> txid \<Rightarrow> CCoins \<Rightarrow> CCoins" where
  "pruneSpent pool hashTx coins =
     fold (\<lambda>(out, _) coins. case Spend out coins of None \<Rightarrow> coins | Some (_, coins') \<Rightarrow> coins')
       (sort_key (\<lambda>(out, _). unat (op_n out)) (filter (\<lambda>(out, _). op_hash out = hashTx) (mapNextTx pool))) coins"

text \<open>\<^verbatim>\<open>CCoinsViewMemPool\<close>: the pool in front of a view.\<close>

definition mempool_view :: "CTxMemPool \<Rightarrow> 'v view \<Rightarrow> 'v view" where
  "mempool_view pool V =
     V\<lparr>GetCoins := (\<lambda>b txid. case lookup pool txid of
        Some tx \<Rightarrow> (Some (CCoins_of tx MEMPOOL_HEIGHT), b)
      | None \<Rightarrow> GetCoins V b txid)\<rparr>"

section \<open>The invariant\<close>

text \<open>The map of spent outputs records exactly the inputs of the transactions in the pool, so no two of them spend the same output
  and no pointer in it leads to a node that is gone.\<close>

definition input_of :: "CTxMemPool \<Rightarrow> CInPoint \<Rightarrow> COutPoint \<Rightarrow> bool" where
  "input_of pool ip out \<longleftrightarrow> (\<exists>e. map_of (mapTx pool) (ptx ip) = Some e \<and> unat (inp_n ip) < length (vin (mpe_tx e)) \<and>
     prevout (vin (mpe_tx e) ! unat (inp_n ip)) = out)"

definition pool_size :: "(txid \<times> CTxMemPoolEntry) list \<Rightarrow> u64" where
  "pool_size m = sum_list (map (\<lambda>(_, e). of_nat (mpe_nTxSize e)) m)"

definition pool_ok :: "CTxMemPool \<Rightarrow> bool" where
  "pool_ok pool \<longleftrightarrow> distinct (map fst (mapTx pool)) \<and>
     (\<forall>h e. map_of (mapTx pool) h = Some e \<longrightarrow> tx_hash (mpe_tx e) = h \<and> length (vin (mpe_tx e)) < 2 ^ 32) \<and>
     (\<forall>out ip. map_of (mapNextTx pool) out = Some ip \<longleftrightarrow> input_of pool ip out) \<and>
     totalTxSize pool = pool_size (mapTx pool)"

lemma pool_okD:
  assumes "pool_ok pool"
  shows "distinct (map fst (mapTx pool))" "map_of (mapTx pool) h = Some e \<Longrightarrow> tx_hash (mpe_tx e) = h"
    "map_of (mapTx pool) h = Some e \<Longrightarrow> length (vin (mpe_tx e)) < 2 ^ 32"
    "map_of (mapNextTx pool) out = Some ip \<longleftrightarrow> input_of pool ip out" "totalTxSize pool = pool_size (mapTx pool)"
  using assms unfolding pool_ok_def by blast+

text \<open>The transaction under a key spends an output.\<close>

definition spends_out :: "CTxMemPool \<Rightarrow> txid \<Rightarrow> COutPoint \<Rightarrow> bool" where
  "spends_out pool k out \<longleftrightarrow> (\<exists>e. map_of (mapTx pool) k = Some e \<and> out \<in> prevout ` set (vin (mpe_tx e)))"

lemma spends_out_iff:
  assumes "pool_ok pool"
  shows "spends_out pool k out \<longleftrightarrow> (\<exists>ip. map_of (mapNextTx pool) out = Some ip \<and> ptx ip = k)"
proof
  assume "spends_out pool k out"
  then obtain e i where e: "map_of (mapTx pool) k = Some e" "i < length (vin (mpe_tx e))" "prevout (vin (mpe_tx e) ! i) = out"
    by (auto simp: spends_out_def in_set_conv_nth)
  have "i < 2 ^ 32" using e(2) pool_okD(3) [OF assms e(1)] by simp
  then have "unat (of_nat i :: u32) = i" by (simp add: unat_of_nat take_bit_nat_eq_self)
  then have "input_of pool \<lparr>ptx = k, inp_n = of_nat i\<rparr> out" using e by (simp add: input_of_def)
  then have "map_of (mapNextTx pool) out = Some \<lparr>ptx = k, inp_n = of_nat i\<rparr>" using pool_okD(4) [OF assms] by blast
  then show "\<exists>ip. map_of (mapNextTx pool) out = Some ip \<and> ptx ip = k" by auto
next
  assume "\<exists>ip. map_of (mapNextTx pool) out = Some ip \<and> ptx ip = k"
  then obtain ip where "input_of pool ip out" "ptx ip = k" using pool_okD(4) [OF assms] by blast
  then show "spends_out pool k out" by (auto simp: input_of_def spends_out_def)
qed


lemma spender_ok:
  assumes "pool_ok pool"
  shows "spender pool out = Some (map_option ptx (map_of (mapNextTx pool) out))"
proof (cases "map_of (mapNextTx pool) out")
  case (Some ip)
  then obtain e where "map_of (mapTx pool) (ptx ip) = Some e" using pool_okD(4) [OF assms] by (auto simp: input_of_def)
  then show ?thesis using Some pool_okD(2) [OF assms] by (simp add: spender_def)
qed (simp add: spender_def)

section \<open>Adding and erasing\<close>

lemma record_inputs_lookup:
  "distinct (map prevout ins) \<Longrightarrow> map_of (record_inputs h i ins m) out = Some ip \<longleftrightarrow>
    (\<exists>j < length ins. prevout (ins ! j) = out \<and> ip = \<lparr>ptx = h, inp_n = of_nat (i + j)\<rparr>) \<or>
    out \<notin> prevout ` set ins \<and> map_of m out = Some ip"
proof (induction ins arbitrary: i m)
  case (Cons t ins)
  let ?m = "AList.update (prevout t) \<lparr>ptx = h, inp_n = of_nat i\<rparr> m"
  have upd: "map_of ?m out = (if out = prevout t then Some \<lparr>ptx = h, inp_n = of_nat i\<rparr> else map_of m out)"
    by (simp add: update_conv')
  have IH: "map_of (record_inputs h (i + 1) ins ?m) out = Some ip \<longleftrightarrow>
    (\<exists>j < length ins. prevout (ins ! j) = out \<and> ip = \<lparr>ptx = h, inp_n = of_nat (i + 1 + j)\<rparr>) \<or>
    out \<notin> prevout ` set ins \<and> map_of ?m out = Some ip"
    by (rule Cons.IH) (use Cons.prems in simp)
  have ex: "(\<exists>j < length (t # ins). prevout ((t # ins) ! j) = out \<and> ip = \<lparr>ptx = h, inp_n = of_nat (i + j)\<rparr>) \<longleftrightarrow>
      (prevout t = out \<and> ip = \<lparr>ptx = h, inp_n = of_nat i\<rparr>) \<or>
      (\<exists>j < length ins. prevout (ins ! j) = out \<and> ip = \<lparr>ptx = h, inp_n = of_nat (i + 1 + j)\<rparr>)"
    by (simp add: Ex_less_Suc2 ac_simps)
  have "prevout t \<notin> prevout ` set ins" using Cons.prems by simp
  then show ?case unfolding record_inputs.simps IH ex upd by (auto simp: image_iff)
qed simp

lemma update_fresh: "k \<notin> fst ` set xs \<Longrightarrow> AList.update k v xs = xs @ [(k, v)]"
  by (induction xs) auto

lemma addUnchecked_ok:
  assumes ok: "pool_ok pool" and hash: "tx_hash (mpe_tx e) = h" and len: "length (vin (mpe_tx e)) < 2 ^ 32"
    and fresh: "map_of (mapTx pool) h = None" and dist: "distinct (map prevout (vin (mpe_tx e)))"
    and free: "\<forall>txin \<in> set (vin (mpe_tx e)). map_of (mapNextTx pool) (prevout txin) = None"
  shows "pool_ok (addUnchecked h e pool)"
proof -
  let ?p = "addUnchecked h e pool"
  have app: "mapTx ?p = mapTx pool @ [(h, e)]"
    using fresh by (simp add: addUnchecked_def update_fresh map_of_eq_None_iff)
  have look: "map_of (mapTx ?p) k = (if k = h then Some e else map_of (mapTx pool) k)" for k
    by (simp add: addUnchecked_def update_conv')
  have "map_of (mapNextTx ?p) out = Some ip \<longleftrightarrow> input_of ?p ip out" for out ip
  proof -
    have new: "(\<exists>j < length (vin (mpe_tx e)). prevout (vin (mpe_tx e) ! j) = out \<and> ip = \<lparr>ptx = h, inp_n = of_nat (0 + j)\<rparr>) \<longleftrightarrow>
        ptx ip = h \<and> unat (inp_n ip) < length (vin (mpe_tx e)) \<and> prevout (vin (mpe_tx e) ! unat (inp_n ip)) = out"
    proof
      assume "\<exists>j < length (vin (mpe_tx e)). prevout (vin (mpe_tx e) ! j) = out \<and> ip = \<lparr>ptx = h, inp_n = of_nat (0 + j)\<rparr>"
      then obtain j where j: "j < length (vin (mpe_tx e))" "prevout (vin (mpe_tx e) ! j) = out" "ip = \<lparr>ptx = h, inp_n = of_nat j\<rparr>" by auto
      then have "unat (of_nat j :: u32) = j" using len by (simp add: unat_of_nat take_bit_nat_eq_self)
      with j show "ptx ip = h \<and> unat (inp_n ip) < length (vin (mpe_tx e)) \<and> prevout (vin (mpe_tx e) ! unat (inp_n ip)) = out" by simp
    next
      assume "ptx ip = h \<and> unat (inp_n ip) < length (vin (mpe_tx e)) \<and> prevout (vin (mpe_tx e) ! unat (inp_n ip)) = out"
      then show "\<exists>j < length (vin (mpe_tx e)). prevout (vin (mpe_tx e) ! j) = out \<and> ip = \<lparr>ptx = h, inp_n = of_nat (0 + j)\<rparr>"
        by (intro exI [of _ "unat (inp_n ip)"]) simp
    qed
    have old: "out \<notin> prevout ` set (vin (mpe_tx e)) \<and> map_of (mapNextTx pool) out = Some ip \<longleftrightarrow> input_of pool ip out"
      using free pool_okD(4) [OF ok, of out ip] by force
    have "input_of pool ip out \<Longrightarrow> ptx ip \<noteq> h" using fresh by (auto simp: input_of_def)
    moreover have "map_of (mapNextTx ?p) out = Some ip \<longleftrightarrow>
        (ptx ip = h \<and> unat (inp_n ip) < length (vin (mpe_tx e)) \<and> prevout (vin (mpe_tx e) ! unat (inp_n ip)) = out) \<or> input_of pool ip out"
      using record_inputs_lookup [OF dist, of h 0 "mapNextTx pool" out ip] unfolding new old by (simp add: addUnchecked_def)
    ultimately show ?thesis by (auto simp: input_of_def look)
  qed
  moreover have "distinct (map fst (mapTx ?p))" using pool_okD(1) [OF ok] fresh by (simp add: app map_of_eq_None_iff)
  moreover have "totalTxSize ?p = pool_size (mapTx ?p)" unfolding app using pool_okD(5) [OF ok] by (simp add: addUnchecked_def pool_size_def)
  ultimately show ?thesis using pool_okD(2,3) [OF ok] hash len by (auto simp: pool_ok_def look)
qed

lemma fold_delete_lookup: "map_of (fold (\<lambda>txin. AList.delete (prevout txin)) ins m) out = (if out \<in> prevout ` set ins then None else map_of m out)"
  by (induction ins arbitrary: m) (auto simp: delete_conv')

lemma pool_size_delete:
  "distinct (map fst m) \<Longrightarrow> map_of m h = Some e \<Longrightarrow> pool_size (AList.delete h m) = pool_size m - of_nat (mpe_nTxSize e)"
proof (induction m)
  case (Cons x m)
  obtain k v where x: "x = (k, v)" by (cases x)
  show ?case
  proof (cases "k = h")
    case True
    then have "h \<notin> fst ` set m" using Cons.prems(1) x by simp
    then have "AList.delete h m = m" by (simp add: delete_idem)
    then show ?thesis using True x Cons.prems(2) by (simp add: pool_size_def)
  next
    case False
    then show ?thesis using Cons x by (simp add: pool_size_def)
  qed
qed simp

lemma erase_entry_lookup: "map_of (mapTx (erase_entry h e pool)) k = (if k = h then None else map_of (mapTx pool) k)"
  by (simp add: erase_entry_def delete_conv')

lemma erase_entry_ok:
  assumes ok: "pool_ok pool" and e: "map_of (mapTx pool) h = Some e"
  shows "pool_ok (erase_entry h e pool)"
proof -
  let ?p = "erase_entry h e pool"
  have "map_of (mapNextTx ?p) out = Some ip \<longleftrightarrow> input_of ?p ip out" for out ip
  proof -
    have "spends_out pool h out \<longleftrightarrow> out \<in> prevout ` set (vin (mpe_tx e))" using e by (simp add: spends_out_def)
    then have "map_of (mapNextTx ?p) out = Some ip \<longleftrightarrow> map_of (mapNextTx pool) out = Some ip \<and> ptx ip \<noteq> h"
      using spends_out_iff [OF ok, of h out] by (auto simp: erase_entry_def fold_delete_lookup)
    also have "\<dots> \<longleftrightarrow> input_of ?p ip out" using pool_okD(4) [OF ok] by (auto simp: input_of_def erase_entry_lookup)
    finally show ?thesis .
  qed
  moreover have "distinct (map fst (mapTx ?p))" using pool_okD(1) [OF ok] by (simp add: erase_entry_def distinct_delete)
  moreover have "totalTxSize ?p = pool_size (mapTx ?p)"
    using pool_okD(5) [OF ok] pool_size_delete [OF pool_okD(1) [OF ok] e] by (simp add: erase_entry_def)
  ultimately show ?thesis using pool_okD(2,3) [OF ok] by (auto simp: pool_ok_def erase_entry_lookup)
qed

section \<open>Removing\<close>

text \<open>A transaction of the pool spends an output of another one; the transactions reached from a set by such steps.\<close>

definition child :: "CTxMemPool \<Rightarrow> CTransaction \<Rightarrow> txid \<Rightarrow> bool" where
  "child pool tx k \<longleftrightarrow> (\<exists>i < length (vout tx). spends_out pool k \<lparr>op_hash = tx_hash tx, op_n = of_nat i\<rparr>)"

inductive reach :: "CTxMemPool \<Rightarrow> txid set \<Rightarrow> txid \<Rightarrow> bool" for pool S where
  start: "k \<in> S \<Longrightarrow> reach pool S k"
| step: "reach pool S k \<Longrightarrow> map_of (mapTx pool) k = Some e \<Longrightarrow> child pool (mpe_tx e) k' \<Longrightarrow> reach pool S k'"

lemma push_spenders_ok:
  assumes "pool_ok pool"
  shows "\<exists>xs. push_spenders pool h is q = Some (q @ xs) \<and> set xs = {k. \<exists>i \<in> set is. spends_out pool k \<lparr>op_hash = h, op_n = of_nat i\<rparr>}"
proof (induction "is" arbitrary: q)
  case (Cons i "is")
  let ?out = "\<lparr>op_hash = h, op_n = of_nat i\<rparr>"
  show ?case
  proof (cases "map_of (mapNextTx pool) ?out")
    case None
    then have "\<not> spends_out pool k ?out" for k using spends_out_iff [OF assms] by simp
    then show ?thesis using Cons.IH [of q] None by (auto simp: spender_ok [OF assms])
  next
    case (Some ip)
    then have "spends_out pool k ?out \<longleftrightarrow> k = ptx ip" for k using spends_out_iff [OF assms] by auto
    moreover obtain xs where "push_spenders pool h is (q @ [ptx ip]) = Some ((q @ [ptx ip]) @ xs)"
        "set xs = {k. \<exists>i \<in> set is. spends_out pool k \<lparr>op_hash = h, op_n = of_nat i\<rparr>}" using Cons.IH by blast
    ultimately show ?thesis by (intro exI [of _ "ptx ip # xs"]) (auto simp: spender_ok [OF assms] Some)
  qed
qed simp

lemma push_children:
  assumes "pool_ok pool"
  obtains xs where "push_spenders pool (tx_hash tx) [0..<length (vout tx)] q = Some (q @ xs)" "set xs = {k. child pool tx k}"
proof -
  have "{k. \<exists>i \<in> set [0..<length (vout tx)]. spends_out pool k \<lparr>op_hash = tx_hash tx, op_n = of_nat i\<rparr>} = {k. child pool tx k}"
    by (auto simp: child_def)
  then show ?thesis using push_spenders_ok [OF assms, of "tx_hash tx" "[0..<length (vout tx)]" q] that by force
qed

lemma spends_out_erase: "spends_out (erase_entry h e pool) k out \<longleftrightarrow> k \<noteq> h \<and> spends_out pool k out"
  by (auto simp: spends_out_def erase_entry_lookup)

lemma child_erase: "child (erase_entry h e pool) tx k \<longleftrightarrow> k \<noteq> h \<and> child pool tx k"
  by (auto simp: child_def spends_out_erase)

lemma reach_erase:
  assumes e: "map_of (mapTx pool) h = Some e"
  shows "reach pool (insert h S) k \<longleftrightarrow> k = h \<or> reach (erase_entry h e pool) (S \<union> {k. child pool (mpe_tx e) k}) k"
proof
  show "k = h \<or> reach (erase_entry h e pool) (S \<union> {k. child pool (mpe_tx e) k}) k" if "reach pool (insert h S) k"
    using that
  proof (induction rule: reach.induct)
    case (start k)
    then show ?case by (auto intro: reach.start)
  next
    case (step k f k')
    show ?case
    proof (cases "k = h")
      case True
      then show ?thesis using step.hyps e by (auto intro: reach.start)
    next
      case False
      then have "reach (erase_entry h e pool) (S \<union> {k. child pool (mpe_tx e) k}) k" using step.IH by simp
      moreover have "map_of (mapTx (erase_entry h e pool)) k = Some f" using step.hyps(2) False by (simp add: erase_entry_lookup)
      ultimately show ?thesis using step.hyps(3) reach.step by (cases "k' = h") (auto simp: child_erase)
    qed
  qed
  have "reach pool (insert h S) k" if "reach (erase_entry h e pool) (S \<union> {k. child pool (mpe_tx e) k}) k" for k
    using that
  proof (induction rule: reach.induct)
    case (start k)
    then show ?case using reach.step [of pool "insert h S" h e k] e by (auto intro: reach.start)
  next
    case (step k f k')
    then show ?case using reach.step [of pool "insert h S" k f k'] by (auto simp: erase_entry_lookup child_erase split: if_splits)
  qed
  then show "reach pool (insert h S) k" if "k = h \<or> reach (erase_entry h e pool) (S \<union> {k. child pool (mpe_tx e) k}) k"
    using that by (auto intro: reach.start)
qed

lemma reach_absent:
  assumes "map_of (mapTx pool) h = None"
  shows "reach pool (insert h S) k \<Longrightarrow> k = h \<or> reach pool S k"
  by (induction rule: reach.induct) (use assms in \<open>auto intro: reach.intros\<close>)

lemma reach_mono:
  assumes "S \<subseteq> T"
  shows "reach pool S k \<Longrightarrow> reach pool T k"
  by (induction rule: reach.induct) (use assms in \<open>auto intro: reach.intros\<close>)

definition gone :: "bool \<Rightarrow> CTxMemPool \<Rightarrow> txid set \<Rightarrow> txid \<Rightarrow> bool" where
  "gone fRecursive pool S k \<longleftrightarrow> (if fRecursive then reach pool S k else k \<in> S)"

text \<open>The pool without the transactions of a set of keys.\<close>

definition without :: "CTxMemPool \<Rightarrow> (txid \<Rightarrow> bool) \<Rightarrow> CTxMemPool \<Rightarrow> bool" where
  "without pool P pool' \<longleftrightarrow> pool_ok pool' \<and> (\<forall>k. map_of (mapTx pool') k = (if P k then None else map_of (mapTx pool) k))"

lemma remove_loop_ok:
  "pool_ok pool \<Longrightarrow> \<exists>removed' pool'. remove_loop fRecursive removed q pool = Some (removed', pool') \<and>
     without pool (gone fRecursive pool (set q)) pool'"
proof (induction fRecursive removed q pool rule: remove_loop.induct)
  case (1 fRecursive removed pool)
  have "\<not> reach pool {} k" for k
  proof
    assume "reach pool {} k" then show False by induction auto
  qed
  then show ?case using 1 by (auto simp: without_def gone_def)
next
  case (2 fRecursive removed hash q pool)
  show ?case
  proof (cases "map_of (mapTx pool) hash")
    case None
    have "map_of (mapTx pool) k = None \<or> (gone fRecursive pool (insert hash (set q)) k \<longleftrightarrow> gone fRecursive pool (set q) k)" for k
      using None reach_absent [OF None, of "set q" k] reach_mono [of "set q" "insert hash (set q)" pool k] by (cases "k = hash") (auto simp: gone_def)
    note same = this
    obtain removed' pool' where IH: "remove_loop fRecursive removed q pool = Some (removed', pool')"
        "without pool (gone fRecursive pool (set q)) pool'" using 2(1) [OF None 2(3)] by blast
    have "map_of (mapTx pool') k = (if gone fRecursive pool (set (hash # q)) k then None else map_of (mapTx pool) k)" for k
      using IH(2) same [of k] by (auto simp: without_def)
    then show ?thesis using IH None by (simp add: without_def)
  next
    case (Some e)
    let ?p = "erase_entry hash e pool"
    have ok: "pool_ok ?p" by (rule erase_entry_ok [OF 2(3) Some])
    have h: "tx_hash (mpe_tx e) = hash" using pool_okD(2) [OF 2(3) Some] .
    obtain xs where xs: "push_spenders pool hash [0..<length (vout (mpe_tx e))] q = Some (q @ xs)" "set xs = {k. child pool (mpe_tx e) k}"
      using push_children [OF 2(3), of "mpe_tx e" q] h by auto
    define q' where "q' = q @ (if fRecursive then xs else [])"
    have q': "(if fRecursive then push_spenders pool hash [0..<length (vout (mpe_tx e))] q else Some q) = Some q'"
        "set q' = set q \<union> (if fRecursive then {k. child pool (mpe_tx e) k} else {})"
      using xs by (simp_all add: q'_def)
    obtain removed' pool' where IH: "remove_loop fRecursive (removed @ [mpe_tx e]) q' ?p = Some (removed', pool')"
        "without ?p (gone fRecursive ?p (set q')) pool'" using 2(2) [OF Some q'(1) ok] by blast
    have run: "remove_loop fRecursive removed (hash # q) pool = Some (removed', pool')" using Some q'(1) IH(1) by simp
    have "gone fRecursive pool (set (hash # q)) k \<longleftrightarrow> k = hash \<or> gone fRecursive ?p (set q') k" for k
      using reach_erase [OF Some, of "set q" k] q'(2) by (auto simp: gone_def)
    then show ?thesis using run IH(2) by (auto simp: without_def erase_entry_lookup)
  qed
qed

lemma remove_ok:
  assumes "pool_ok pool"
  shows "\<exists>removed' pool'. remove tx fRecursive removed pool = Some (removed', pool') \<and>
    without pool (gone fRecursive pool (insert (tx_hash tx) (if fRecursive \<and> map_of (mapTx pool) (tx_hash tx) = None then {k. child pool tx k} else {}))) pool'"
proof -
  obtain xs where xs: "push_spenders pool (tx_hash tx) [0..<length (vout tx)] [tx_hash tx] = Some (tx_hash tx # xs)" "set xs = {k. child pool tx k}"
    using push_children [OF assms, of tx "[tx_hash tx]"] by auto
  define q where "q = tx_hash tx # (if fRecursive \<and> map_of (mapTx pool) (tx_hash tx) = None then xs else [])"
  have "(if fRecursive \<and> map_of (mapTx pool) (tx_hash tx) = None
      then push_spenders pool (tx_hash tx) [0..<length (vout tx)] [tx_hash tx] else Some [tx_hash tx]) = Some q"
    "set q = insert (tx_hash tx) (if fRecursive \<and> map_of (mapTx pool) (tx_hash tx) = None then {k. child pool tx k} else {})"
    using xs by (auto simp: q_def)
  then show ?thesis using remove_loop_ok [OF assms, of fRecursive removed q] by (simp add: remove_def)
qed

text \<open>Every removal leaves a part of the pool.\<close>

definition shrinks :: "CTxMemPool \<Rightarrow> CTxMemPool \<Rightarrow> bool" where
  "shrinks pool pool' \<longleftrightarrow> pool_ok pool' \<and> (\<forall>k e. map_of (mapTx pool') k = Some e \<longrightarrow> map_of (mapTx pool) k = Some e)"

lemma shrinks_trans: "shrinks a b \<Longrightarrow> shrinks b c \<Longrightarrow> shrinks a c" by (simp add: shrinks_def)

lemma without_shrinks: "without pool P pool' \<Longrightarrow> shrinks pool pool'" by (auto simp: without_def shrinks_def split: if_splits)

lemma shrinks_spends: "shrinks a b \<Longrightarrow> spends_out b k out \<Longrightarrow> spends_out a k out"
  by (auto simp: shrinks_def spends_out_def)

lemma removed_gone: "without pool (gone r pool S) pool' \<Longrightarrow> k \<in> S \<Longrightarrow> map_of (mapTx pool') k = None"
  by (auto simp: without_def gone_def intro: reach.start)

lemma conflicts_loop_ok:
  "pool_ok pool \<Longrightarrow> \<exists>removed' pool'. conflicts_loop h ins removed pool = Some (removed', pool') \<and> shrinks pool pool' \<and>
    (\<forall>k. \<forall>txin \<in> set ins. spends_out pool' k (prevout txin) \<longrightarrow> k = h)"
proof (induction ins arbitrary: removed pool)
  case Nil
  then show ?case by (simp add: shrinks_def)
next
  case (Cons txin ins)
  have rest: "\<exists>removed' pool'. conflicts_loop h (txin # ins) removed pool = Some (removed', pool') \<and> shrinks pool pool' \<and>
      (\<forall>k. \<forall>txin \<in> set (txin # ins). spends_out pool' k (prevout txin) \<longrightarrow> k = h)"
    if s: "shrinks pool p1" and run: "conflicts_loop h (txin # ins) removed pool = conflicts_loop h ins r1 p1"
      and free: "\<And>k. spends_out p1 k (prevout txin) \<Longrightarrow> k = h" for p1 r1
  proof -
    have "pool_ok p1" using s by (simp add: shrinks_def)
    from Cons.IH [OF this, of r1] obtain removed' pool' where IH: "conflicts_loop h ins r1 p1 = Some (removed', pool')" "shrinks p1 pool'"
        "\<forall>k. \<forall>txin \<in> set ins. spends_out pool' k (prevout txin) \<longrightarrow> k = h" by blast
    show ?thesis using run IH free shrinks_trans [OF s IH(2)] shrinks_spends [OF IH(2)] by auto
  qed
  have self: "shrinks pool pool" using Cons.prems by (simp add: shrinks_def)
  show ?case
  proof (cases "map_of (mapNextTx pool) (prevout txin)")
    case None
    show ?thesis by (rule rest [OF self]) (use None spends_out_iff [OF Cons.prems] in auto)
  next
    case (Some ip)
    obtain e where e: "map_of (mapTx pool) (ptx ip) = Some e" using Some pool_okD(4) [OF Cons.prems] by (auto simp: input_of_def)
    have hash: "tx_hash (mpe_tx e) = ptx ip" using pool_okD(2) [OF Cons.prems e] .
    have only: "spends_out pool k (prevout txin) \<Longrightarrow> k = ptx ip" for k using spends_out_iff [OF Cons.prems] Some by auto
    show ?thesis
    proof (cases "ptx ip = h")
      case True
      show ?thesis by (rule rest [OF self]) (use Some e hash True only in auto)
    next
      case False
      obtain r1 p1 where r: "remove (mpe_tx e) True removed pool = Some (r1, p1)" "without pool (gone True pool {ptx ip}) p1"
        using remove_ok [OF Cons.prems, of "mpe_tx e" True removed] e hash by auto
      show ?thesis
      proof (rule rest [OF without_shrinks [OF r(2)]])
        show "conflicts_loop h (txin # ins) removed pool = conflicts_loop h ins r1 p1" using Some e hash False r(1) by simp
        have "map_of (mapTx p1) (ptx ip) = None" using removed_gone [OF r(2)] by simp
        then show "k = h" if "spends_out p1 k (prevout txin)" for k
          using that only shrinks_spends [OF without_shrinks [OF r(2)] that] by (auto simp: spends_out_def)
      qed
    qed
  qed
qed

lemma ClearPrioritisation_simps [simp]: "mapTx (ClearPrioritisation h pool) = mapTx pool" "mapNextTx (ClearPrioritisation h pool) = mapNextTx pool"
  "pool_ok (ClearPrioritisation h pool) = pool_ok pool" "spends_out (ClearPrioritisation h pool) = spends_out pool"
  by (simp_all add: ClearPrioritisation_def pool_ok_def input_of_def fun_eq_iff spends_out_def)

lemma removeForBlock_ok:
  "pool_ok pool \<Longrightarrow> \<exists>conflicts' pool'. removeForBlock txs conflicts pool = Some (conflicts', pool') \<and> shrinks pool pool' \<and>
    (\<forall>tx \<in> set txs. map_of (mapTx pool') (tx_hash tx) = None \<and> (\<forall>k. \<forall>txin \<in> set (vin tx). \<not> spends_out pool' k (prevout txin)))"
proof (induction txs arbitrary: conflicts pool)
  case Nil
  then show ?case by (simp add: shrinks_def)
next
  case (Cons tx txs)
  obtain r1 p1 where p1: "remove tx False [] pool = Some (r1, p1)" "without pool (gone False pool {tx_hash tx}) p1"
    using remove_ok [OF Cons.prems, of tx False "[]"] by auto
  have ok1: "pool_ok p1" and gone1: "map_of (mapTx p1) (tx_hash tx) = None"
    using p1(2) removed_gone [OF p1(2)] by (auto simp: without_def)
  obtain c2 p2 where p2: "removeConflicts tx conflicts p1 = Some (c2, p2)" "shrinks p1 p2"
      "\<forall>k. \<forall>txin \<in> set (vin tx). spends_out p2 k (prevout txin) \<longrightarrow> k = tx_hash tx"
    using conflicts_loop_ok [OF ok1] unfolding removeConflicts_def by blast
  let ?p3 = "ClearPrioritisation (tx_hash tx) p2"
  have ok3: "pool_ok ?p3" using p2(2) by (simp add: shrinks_def)
  from Cons.IH [OF this, of c2] obtain c' p' where p': "removeForBlock txs c2 ?p3 = Some (c', p')" "shrinks ?p3 p'"
      "\<forall>tx \<in> set txs. map_of (mapTx p') (tx_hash tx) = None \<and> (\<forall>k. \<forall>txin \<in> set (vin tx). \<not> spends_out p' k (prevout txin))" by blast
  have s: "shrinks p2 p'" using p'(2) by (simp add: shrinks_def)
  have s1: "shrinks p1 p'" using shrinks_trans [OF p2(2) s] .
  have gone': "map_of (mapTx p') (tx_hash tx) = None" using s1 gone1 by (cases "map_of (mapTx p') (tx_hash tx)") (auto simp: shrinks_def)
  have "\<not> spends_out p' k (prevout txin)" if "txin \<in> set (vin tx)" for k txin
  proof
    assume sp: "spends_out p' k (prevout txin)"
    then have "k = tx_hash tx" using p2(3) that shrinks_spends [OF s] by blast
    then show False using sp gone' by (simp add: spends_out_def)
  qed
  then show ?case
    using p1(1) p2(1) p'(1,3) gone' shrinks_trans [OF without_shrinks [OF p1(2)] s1] by auto
qed

lemma remove_all_ok: "pool_ok pool \<Longrightarrow> \<exists>pool'. remove_all txs pool = Some pool' \<and> shrinks pool pool'"
proof (induction txs arbitrary: pool)
  case (Cons tx txs)
  obtain r1 p1 where p1: "remove tx True [] pool = Some (r1, p1)" "shrinks pool p1"
    using remove_ok [OF Cons.prems, of tx True "[]"] without_shrinks by blast
  then have "pool_ok p1" by (simp add: shrinks_def)
  from Cons.IH [OF this] obtain p' where "remove_all txs p1 = Some p'" "shrinks p1 p'" by blast
  then show ?case using p1 shrinks_trans by auto
qed (simp add: shrinks_def)

lemma clear_ok: "pool_ok (clear pool)"
  by (simp add: pool_ok_def clear_def input_of_def pool_size_def)

section \<open>Properties\<close>

text \<open>The operations of the node on its pool.  \<^verbatim>\<open>AcceptToMemoryPool\<close> adds a transaction that passed \<^verbatim>\<open>CheckTransaction\<close> (so its inputs are
  distinct), that is not in the pool, and none of whose inputs is spent in the pool.\<close>

inductive pool_step :: "CTxMemPool \<Rightarrow> CTxMemPool \<Rightarrow> bool" where
  add: "CheckTransaction maxMoneyOut (mpe_tx e) st = (True, st) \<Longrightarrow> \<not> exists_tx pool (tx_hash (mpe_tx e)) \<Longrightarrow>
    list_all (\<lambda>txin. map_of (mapNextTx pool) (prevout txin) = None) (vin (mpe_tx e)) \<Longrightarrow>
    pool_step pool (addUnchecked (tx_hash (mpe_tx e)) e pool)"
| remove: "remove tx fRecursive removed pool = Some (removed', pool') \<Longrightarrow> pool_step pool pool'"
| conflicts: "removeConflicts tx removed pool = Some (removed', pool') \<Longrightarrow> pool_step pool pool'"
| block: "removeForBlock txs conflicts pool = Some (conflicts', pool') \<Longrightarrow> pool_step pool pool'"
| immature: "removeCoinbaseSpends (V :: (db_key \<Rightarrow> bytes option) view) fSanityCheck maturity height pool c = Some (pool', c') \<Longrightarrow> pool_step pool pool'"
| clear: "pool_step pool (clear pool)"
| prioritise: "pool_step pool (PrioritiseTransaction h delta pool)"
| unprioritise: "pool_step pool (ClearPrioritisation h pool)"

inductive pool_reachable :: "CTxMemPool \<Rightarrow> bool" where
  init: "pool_reachable CTxMemPool_new"
| step: "pool_reachable pool \<Longrightarrow> pool_step pool pool' \<Longrightarrow> pool_reachable pool'"

lemma CTxMemPool_new_ok: "pool_ok CTxMemPool_new"
  by (simp add: pool_ok_def CTxMemPool_new_def input_of_def pool_size_def)

lemma check_outputs_refuses: "check_outputs m tx st v outs = Inl r \<Longrightarrow> \<not> fst r"
  by (induction outs arbitrary: v) (auto simp: Let_def DoS_def split: if_splits)

lemma accepted_inputs:
  assumes "CheckTransaction maxMoneyOut tx st = (True, st)"
  shows "distinct (map prevout (vin tx))" "length (vin tx) < 2 ^ 32"
proof -
  have size: "GetSerializeSize_CTransaction tx \<le> MAX_BLOCK_SIZE"
    using assms by (auto simp: CheckTransaction_def DoS_def Let_def split: if_splits)
  have "check_duplicates st {} (vin tx) = Inr ()"
  proof (cases "check_duplicates st {} (vin tx)")
    case (Inl r)
    then have "fst r = False" using check_duplicates_iff [of st "{}" "vin tx"] by (simp add: refused_def)
    then show ?thesis using assms Inl
      by (auto simp: CheckTransaction_def DoS_def Let_def dest: check_outputs_refuses split: if_splits sum.splits)
  qed simp
  then show "distinct (map prevout (vin tx))" using check_duplicates_iff [of st "{}" "vin tx"] by simp
  have "sum_list (map (\<lambda>_. 1) (vin tx)) \<le> sum_list (map (\<lambda>txin. 36 + GetSerializeSize_blob (scriptSig txin) + 4) (vin tx))"
    by (rule sum_list_mono) simp
  then have "length (vin tx) \<le> GetSerializeSize_CTransaction tx"
    by (simp add: GetSerializeSize_CTransaction_def GetSerializeSize_vector_sum sum_list_triv)
  then show "length (vin tx) < 2 ^ 32" using size by (simp add: MAX_BLOCK_SIZE_def)
qed

lemma pool_step_ok: "pool_step pool pool' \<Longrightarrow> pool_ok pool \<Longrightarrow> pool_ok pool'"
proof (induction rule: pool_step.induct)
  case (add m e st pool)
  show ?case
    by (rule addUnchecked_ok [OF add.prems refl]) (use accepted_inputs [OF add.hyps(1)] add.hyps(2,3) in \<open>auto simp: exists_tx_def list_all_iff\<close>)
next
  case (remove tx r removed pool removed' pool')
  then show ?case using remove_ok [OF remove.prems, of tx r removed] by (auto simp: without_def)
next
  case (conflicts tx removed pool removed' pool')
  then show ?case using conflicts_loop_ok [OF conflicts.prems, of "tx_hash tx" "vin tx" removed] by (auto simp: removeConflicts_def shrinks_def)
next
  case (block txs cs pool cs' pool')
  then show ?case using removeForBlock_ok [OF block.prems, of txs cs] by (auto simp: shrinks_def)
next
  case (immature V sanity maturity height pool c pool' c')
  then obtain txs where "remove_all txs pool = Some pool'" by (auto simp: removeCoinbaseSpends_def split: option.splits)
  then show ?case using remove_all_ok [OF immature.prems, of txs] by (auto simp: shrinks_def)
next
  case (prioritise pool h delta)
  then show ?case by (simp add: PrioritiseTransaction_def pool_ok_def input_of_def)
next
  case (unprioritise pool h)
  then show ?case by (simp add: ClearPrioritisation_def pool_ok_def input_of_def)
qed (rule clear_ok)

lemma pool_reachable_pool_ok: "pool_reachable pool \<Longrightarrow> pool_ok pool"
  by (induction rule: pool_reachable.induct) (auto intro: CTxMemPool_new_ok pool_step_ok)


definition sample_pool :: CTxMemPool where
  "sample_pool = addUnchecked (tx_hash sample_tx) (CTxMemPoolEntry_new sample_tx 10 1000 5) CTxMemPool_new"

lemma sample_pool_reachable: "pool_reachable sample_pool"
proof -
  have "CheckTransaction MaxMoneyOut sample_tx CValidationState_new = (True, CValidationState_new)"
    using CheckTransaction_spec [of MaxMoneyOut sample_tx CValidationState_new] sample_tx_ok(1) by (simp add: MaxMoneyOut_def COIN_def)
  then have "pool_step CTxMemPool_new sample_pool"
    using pool_step.add [of MaxMoneyOut "CTxMemPoolEntry_new sample_tx 10 1000 5" CValidationState_new CTxMemPool_new]
    by (simp add: sample_pool_def CTxMemPoolEntry_new_def exists_tx_def CTxMemPool_new_def list_all_iff)
  with pool_reachable.init show ?thesis by (rule pool_reachable.step)
qed


text \<open>
  C8: recursive removal.  \<^verbatim>\<open>remove\<close> with \<^verbatim>\<open>fRecursive\<close> takes from the pool exactly the transaction and those that spend its outputs,
  directly or through other transactions of the pool, also when the transaction itself is not in the pool; all other
  transactions stay, and the map of spent outputs and the total size are again those of the transactions in the pool.
\<close>

theorem remove_recursive_exact:
  assumes "pool_ok pool"
  shows "\<exists>removed' pool'. remove tx True removed pool = Some (removed', pool') \<and> pool_ok pool' \<and>
    (\<forall>k. map_of (mapTx pool') k =
       (if reach pool ({tx_hash tx} \<union> (if map_of (mapTx pool) (tx_hash tx) = None then {k. child pool tx k} else {})) k
        then None else map_of (mapTx pool) k))"
  using remove_ok [OF assms, of tx True removed] by (auto simp: without_def gone_def)

theorem remove_recursive_exact_witness:
  "\<exists>removed' pool'. remove sample_tx True [] sample_pool = Some (removed', pool') \<and> map_of (mapTx pool') (tx_hash sample_tx) = None"
  using remove_recursive_exact [OF pool_reachable_pool_ok [OF sample_pool_reachable], of sample_tx "[]"]
  by (auto intro: reach.start)

text \<open>
  Blocks.  After \<^verbatim>\<open>removeForBlock\<close> the pool has none of the transactions of the block and no transaction that spends an output they
  spend; the transactions that are left are unchanged.
\<close>

theorem removeForBlock_clears_conflicts:
  assumes "pool_ok pool"
  shows "\<exists>conflicts' pool'. removeForBlock txs conflicts pool = Some (conflicts', pool') \<and> pool_ok pool' \<and>
    (\<forall>k e. map_of (mapTx pool') k = Some e \<longrightarrow> map_of (mapTx pool) k = Some e) \<and>
    (\<forall>tx \<in> set txs. map_of (mapTx pool') (tx_hash tx) = None \<and> (\<forall>k. \<forall>txin \<in> set (vin tx). \<not> spends_out pool' k (prevout txin)))"
  using removeForBlock_ok [OF assms, of txs conflicts] by (auto simp: shrinks_def)

theorem removeForBlock_clears_conflicts_witness:
  "\<exists>conflicts' pool'. removeForBlock [sample_tx] [] sample_pool = Some (conflicts', pool') \<and> map_of (mapTx pool') (tx_hash sample_tx) = None"
  using removeForBlock_clears_conflicts [OF pool_reachable_pool_ok [OF sample_pool_reachable], of "[sample_tx]" "[]"] by auto

end
