(* ===== verification/Base58.thy ===== *)
theory Base58
  imports Hash Standard
begin

text \<open>
  The text encoding of \<^verbatim>\<open>src/src/base58.h/.cpp\<close>: numbers in base 58, the checksum, addresses and secret keys.  The vectors in which
  the code converts from one base to the other are lists of digits with the last one first, the order in which its loops
  visit them.
\<close>

section \<open>Base 58\<close>

datatype base58_error = Base58_assert | Base58_invalid

definition pszBase58 :: string where
  "pszBase58 = ''123456789ABCDEFGHJKLMNPQRSTUVWXYZabcdefghijkmnopqrstuvwxyz''"

definition isspace :: "char \<Rightarrow> bool" where
  "isspace c \<longleftrightarrow> (let n = of_char c :: nat in n = 32 \<or> 9 \<le> n \<and> n \<le> 13)"

fun strchr_index :: "string \<Rightarrow> char \<Rightarrow> nat option" where
  "strchr_index [] c = None"
| "strchr_index (x # xs) c = (if x = c then Some 0 else map_option Suc (strchr_index xs c))"

text \<open>A vector in base \<open>b\<close> is multiplied by \<open>m\<close>, and \<open>carry\<close> is added; what is left over is the first result.\<close>

fun mul_add :: "nat \<Rightarrow> nat \<Rightarrow> nat \<Rightarrow> nat list \<Rightarrow> nat \<times> nat list" where
  "mul_add b m carry [] = (carry, [])"
| "mul_add b m carry (x # xs) =
     (let c = carry + m * x; (carry', xs') = mul_add b m (c div b) xs in (carry', c mod b # xs'))"

fun decode_chars :: "string \<Rightarrow> nat list \<Rightarrow> base58_error + string \<times> nat list" where
  "decode_chars [] b256 = Inr ([], b256)"
| "decode_chars (c # psz) b256 =
     (if isspace c then Inr (c # psz, b256)
      else case strchr_index pszBase58 c of
        None \<Rightarrow> Inl Base58_invalid
      | Some ch \<Rightarrow>
          (case mul_add 256 58 ch b256 of (carry, b256') \<Rightarrow>
             if carry \<noteq> 0 then Inl Base58_assert else decode_chars psz b256'))"

definition DecodeBase58 :: "string \<Rightarrow> base58_error + bytes" where
  "DecodeBase58 str =
     (let psz = dropWhile isspace (takeWhile (\<lambda>c. c \<noteq> CHR 0x00) str);
          zeroes = length (takeWhile (\<lambda>c. c = CHR ''1'') psz);
          psz = dropWhile (\<lambda>c. c = CHR ''1'') psz in
      case decode_chars psz (replicate (length psz * 733 div 1000 + 1) 0) of
        Inl e \<Rightarrow> Inl e
      | Inr (rest, b256) \<Rightarrow>
          if dropWhile isspace rest \<noteq> [] then Inl Base58_invalid
          else Inr (replicate zeroes 0 @ map of_nat (dropWhile (\<lambda>d. d = 0) (rev b256))))"

fun encode_bytes :: "bytes \<Rightarrow> nat list \<Rightarrow> base58_error + nat list" where
  "encode_bytes [] b58 = Inr b58"
| "encode_bytes (x # xs) b58 =
     (case mul_add 58 256 (unat x) b58 of (carry, b58') \<Rightarrow> if carry \<noteq> 0 then Inl Base58_assert else encode_bytes xs b58')"

definition EncodeBase58 :: "bytes \<Rightarrow> base58_error + string" where
  "EncodeBase58 vch =
     (let zeroes = length (takeWhile (\<lambda>x. x = 0) vch);
          p = dropWhile (\<lambda>x. x = 0) vch in
      case encode_bytes p (replicate (length p * 138 div 100 + 1) 0) of
        Inl e \<Rightarrow> Inl e
      | Inr b58 \<Rightarrow> Inr (replicate zeroes (CHR ''1'') @ map (\<lambda>d. pszBase58 ! d) (dropWhile (\<lambda>d. d = 0) (rev b58))))"

section \<open>Checksums\<close>

definition EncodeBase58Check :: "bytes \<Rightarrow> base58_error + string" where
  "EncodeBase58Check vchIn = EncodeBase58 (vchIn @ take 4 (Hash_ranges [vchIn]))"

text \<open>\<open>Base58_invalid\<close> stands for \<open>return false\<close>, \<open>Base58_assert\<close> for a failed assertion.\<close>

definition DecodeBase58Check :: "string \<Rightarrow> base58_error + bytes" where
  "DecodeBase58Check psz =
     (case DecodeBase58 psz of
        Inl e \<Rightarrow> Inl e
      | Inr vchRet \<Rightarrow>
          if length vchRet < 4 then Inl Base58_invalid
          else let body = take (length vchRet - 4) vchRet in
            if take 4 (Hash_ranges [body]) \<noteq> drop (length vchRet - 4) vchRet then Inl Base58_invalid else Inr body)"

section \<open>Addresses and secret keys\<close>

record CBase58Data =
  vchVersion :: bytes
  vchData :: bytes

definition CBase58Data_new :: CBase58Data where "CBase58Data_new = \<lparr>vchVersion = [], vchData = []\<rparr>"

definition SetData :: "bytes \<Rightarrow> bytes \<Rightarrow> CBase58Data" where
  "SetData vchVersionIn pdata = \<lparr>vchVersion = vchVersionIn, vchData = pdata\<rparr>"

text \<open>The first result is the return value; a failed assertion is on the left.\<close>

definition SetString :: "string \<Rightarrow> nat \<Rightarrow> base58_error + bool \<times> CBase58Data" where
  "SetString psz nVersionBytes =
     (case DecodeBase58Check psz of
        Inl Base58_assert \<Rightarrow> Inl Base58_assert
      | Inl Base58_invalid \<Rightarrow> Inr (False, CBase58Data_new)
      | Inr vchTemp \<Rightarrow>
          if length vchTemp < nVersionBytes then Inr (False, CBase58Data_new)
          else Inr (True, \<lparr>vchVersion = take nVersionBytes vchTemp, vchData = drop nVersionBytes vchTemp\<rparr>))"

definition ToString :: "CBase58Data \<Rightarrow> base58_error + string" where
  "ToString d = EncodeBase58Check (vchVersion d @ vchData d)"

record base58_prefixes =
  PUBKEY_ADDRESS :: bytes
  SCRIPT_ADDRESS :: bytes
  SECRET_KEY :: bytes

definition main_prefixes :: base58_prefixes where
  "main_prefixes = \<lparr>PUBKEY_ADDRESS = [40], SCRIPT_ADDRESS = [41], SECRET_KEY = [126]\<rparr>"

definition test_prefixes :: base58_prefixes where
  "test_prefixes = \<lparr>PUBKEY_ADDRESS = [65], SCRIPT_ADDRESS = [12], SECRET_KEY = [239]\<rparr>"

definition Address_Set :: "base58_prefixes \<Rightarrow> CTxDestination \<Rightarrow> CBase58Data \<Rightarrow> bool \<times> CBase58Data" where
  "Address_Set par dest addr =
     (case dest of
        CKeyID i \<Rightarrow> (True, SetData (PUBKEY_ADDRESS par) i)
      | CScriptID i \<Rightarrow> (True, SetData (SCRIPT_ADDRESS par) i)
      | CNoDestination \<Rightarrow> (False, addr))"

definition Address_IsValid :: "base58_prefixes \<Rightarrow> CBase58Data \<Rightarrow> bool" where
  "Address_IsValid par addr \<longleftrightarrow>
     length (vchData addr) = 20 \<and> (vchVersion addr = PUBKEY_ADDRESS par \<or> vchVersion addr = SCRIPT_ADDRESS par)"

definition Address_Get :: "base58_prefixes \<Rightarrow> CBase58Data \<Rightarrow> CTxDestination" where
  "Address_Get par addr =
     (if \<not> Address_IsValid par addr then CNoDestination
      else if vchVersion addr = PUBKEY_ADDRESS par then CKeyID (vchData addr)
      else if vchVersion addr = SCRIPT_ADDRESS par then CScriptID (vchData addr)
      else CNoDestination)"

definition GetKeyID :: "base58_prefixes \<Rightarrow> CBase58Data \<Rightarrow> bytes option" where
  "GetKeyID par addr =
     (if \<not> Address_IsValid par addr \<or> vchVersion addr \<noteq> PUBKEY_ADDRESS par then None else Some (vchData addr))"

definition IsScript :: "base58_prefixes \<Rightarrow> CBase58Data \<Rightarrow> bool" where
  "IsScript par addr \<longleftrightarrow> Address_IsValid par addr \<and> vchVersion addr = SCRIPT_ADDRESS par"

text \<open>A secret key: its 32 bytes and whether its public key is compressed.  \<^verbatim>\<open>GetKey\<close> fails its assertion on less data.\<close>

definition Secret_SetKey :: "base58_prefixes \<Rightarrow> bytes \<Rightarrow> bool \<Rightarrow> CBase58Data" where
  "Secret_SetKey par vchSecret fCompressed = SetData (SECRET_KEY par) (if fCompressed then vchSecret @ [1] else vchSecret)"

definition Secret_GetKey :: "CBase58Data \<Rightarrow> (bytes \<times> bool) option" where
  "Secret_GetKey d =
     (if length (vchData d) < 32 then None else Some (take 32 (vchData d), length (vchData d) > 32 \<and> vchData d ! 32 = 1))"

definition Secret_IsValid :: "base58_prefixes \<Rightarrow> CBase58Data \<Rightarrow> bool" where
  "Secret_IsValid par d \<longleftrightarrow>
     (length (vchData d) = 32 \<or> length (vchData d) = 33 \<and> vchData d ! 32 = 1) \<and> vchVersion d = SECRET_KEY par"

definition Secret_SetString :: "base58_prefixes \<Rightarrow> string \<Rightarrow> base58_error + bool \<times> CBase58Data" where
  "Secret_SetString par pszSecret =
     (case SetString pszSecret 1 of Inl e \<Rightarrow> Inl e | Inr (ret, d) \<Rightarrow> Inr (ret \<and> Secret_IsValid par d, d))"

section \<open>Numbers in a base\<close>

text \<open>The value of a list of digits, the last digit of the number first.\<close>

fun num :: "nat \<Rightarrow> nat list \<Rightarrow> nat" where
  "num b [] = 0"
| "num b (x # xs) = x + b * num b xs"

lemma mul_add_value:
  assumes "0 < b"
  shows "mul_add b m c xs = (c', ys) \<Longrightarrow> length ys = length xs \<and> (\<forall>y \<in> set ys. y < b) \<and> num b ys + b ^ length xs * c' = c + m * num b xs"
proof (induction xs arbitrary: c c' ys)
  case (Cons x xs)
  obtain c1 ys1 where rec: "mul_add b m ((c + m * x) div b) xs = (c1, ys1)" by fastforce
  have ys: "c' = c1" "ys = (c + m * x) mod b # ys1" using Cons.prems rec by (simp_all add: Let_def)
  have IH: "length ys1 = length xs" "\<forall>y \<in> set ys1. y < b" "num b ys1 + b ^ length xs * c1 = (c + m * x) div b + m * num b xs"
    using Cons.IH [OF rec] by blast+
  have "num b ys + b ^ length (x # xs) * c' = (c + m * x) mod b + b * (num b ys1 + b ^ length xs * c1)"
    by (simp add: ys distrib_left mult.assoc)
  also have "\<dots> = (c + m * x) mod b + b * ((c + m * x) div b) + m * (b * num b xs)" 
    by (simp add: IH(3) distrib_left mult.left_commute)
  also have "\<dots> = c + m * x + m * (b * num b xs)" by simp
  also have "\<dots> = c + m * num b (x # xs)" by (simp add: distrib_left)
  finally show ?case using IH ys assms by simp
qed simp

lemma num_less: "\<forall>x \<in> set xs. x < b \<Longrightarrow> num b xs < b ^ length xs"
proof (induction xs)
  case (Cons x xs)
  then have "x + b * num b xs < b * Suc (num b xs)" by simp
  also have "\<dots> \<le> b * b ^ length xs" using Cons by (intro mult_le_mono2) (simp add: Suc_le_eq)
  finally show ?case by simp
qed simp

lemma mul_add_fits:
  assumes "0 < b" and "c + m * num b xs < b ^ length xs"
  obtains ys where "mul_add b m c xs = (0, ys)" "length ys = length xs" "\<forall>y \<in> set ys. y < b" "num b ys = c + m * num b xs"
proof -
  obtain c' ys where run: "mul_add b m c xs = (c', ys)" by fastforce
  note v = mul_add_value [OF assms(1) run]
  have "c' = 0"
  proof (rule ccontr)
    assume "c' \<noteq> 0"
    then have "b ^ length xs \<le> b ^ length xs * c'" by simp
    then show False using v assms(2) by linarith
  qed
  then show ?thesis using that run v by simp
qed

lemma num_append: "num b (xs @ ys) = num b xs + b ^ length xs * num b ys"
  by (induction xs) (simp_all add: distrib_left mult.assoc)

lemma num_zero: "num b xs = 0 \<longleftrightarrow> b = 0 \<and> (xs = [] \<or> hd xs = 0) \<or> (\<forall>x \<in> set xs. x = 0)"
  by (induction xs) auto

lemma num_replicate_zero [simp]: "num b (replicate n 0) = 0"
  by (induction n) simp_all

lemma num_strip: "num b (rev (dropWhile (\<lambda>d. d = 0) (rev xs))) = num b xs"
proof -
  have "takeWhile (\<lambda>d. d = 0) (rev xs) = replicate (length (takeWhile (\<lambda>d. d = 0) (rev xs))) 0"
    by (rule replicate_eqI) (auto dest: set_takeWhileD)
  then have "xs = rev (dropWhile (\<lambda>d. d = 0) (rev xs)) @ replicate (length (takeWhile (\<lambda>d. d = 0) (rev xs))) 0"
    by (metis rev_append rev_replicate rev_rev_ident takeWhile_dropWhile_id)
  then show ?thesis by (metis add.right_neutral mult_0_right num_append num_replicate_zero)
qed

text \<open>Without leading zeroes a number has one representation.\<close>

lemma num_inj:
  assumes "1 < b"
  shows "num b xs = num b ys \<Longrightarrow> \<forall>x \<in> set xs. x < b \<Longrightarrow> \<forall>y \<in> set ys. y < b \<Longrightarrow> xs = [] \<or> last xs \<noteq> 0
    \<Longrightarrow> ys = [] \<or> last ys \<noteq> 0 \<Longrightarrow> xs = ys"
proof (induction xs arbitrary: ys)
  case Nil
  then have "\<forall>y \<in> set ys. y = 0" using assms by (metis num.simps(1) num_zero not_one_less_zero)
  then show ?case using Nil.prems by (metis last_in_set)
next
  case (Cons x xs)
  show ?case
  proof (cases ys)
    case Nil
    then have "\<forall>y \<in> set (x # xs). y = 0" using assms Cons.prems by (metis num.simps(1) num_zero not_one_less_zero)
    then have "last (x # xs) = 0" using last_in_set [of "x # xs"] by blast
    then show ?thesis using Cons.prems by blast
  next
    case (Cons y zs)
    have eq: "x + b * num b xs = y + b * num b zs" using Cons.prems Cons by simp
    have "x < b" "y < b" using Cons.prems Cons by auto
    then have "x = y" using arg_cong [OF eq, of "\<lambda>n. n mod b"] by simp
    then have "num b xs = num b zs" using eq assms by simp
    then have "xs = zs" using Cons.prems Cons by (intro Cons.IH) (auto split: if_splits)
    then show ?thesis using Cons \<open>x = y\<close> by simp
  qed
qed

text \<open>The sizes that the code reserves are large enough for every input.\<close>

lemma power_le_by_ratio:
  fixes a b p q k n :: nat
  assumes "a ^ q \<le> b ^ p" and "p * k \<le> q * n" and "0 < q" and "0 < b"
  shows "a ^ k \<le> b ^ n"
proof -
  have "(a ^ k) ^ q = (a ^ q) ^ k" by (simp add: mult.commute flip: power_mult)
  also have "\<dots> \<le> (b ^ p) ^ k" using assms(1) by (rule power_mono) simp
  also have "\<dots> = b ^ (p * k)" by (simp add: power_mult)
  also have "\<dots> \<le> b ^ (q * n)" using assms by (intro power_increasing) simp_all
  also have "\<dots> = (b ^ n) ^ q" by (simp add: mult.commute flip: power_mult)
  finally show ?thesis using assms(3) by simp
qed

lemma decode_size: "58 ^ k \<le> (256 :: nat) ^ (k * 733 div 1000 + 1)"
  by (rule power_le_by_ratio [where q = 71 and p = 52]) simp_all

lemma encode_size: "256 ^ k \<le> (58 :: nat) ^ (k * 138 div 100 + 1)"
  by (rule power_le_by_ratio [where q = 8 and p = 11]) simp_all

section \<open>What the two loops compute\<close>

lemma strchr_index_Some: "strchr_index xs c = Some i \<Longrightarrow> i < length xs \<and> xs ! i = c"
  by (induction xs arbitrary: i) (auto split: if_splits)

lemma strchr_index_None: "strchr_index xs c = None \<longleftrightarrow> c \<notin> set xs"
  by (induction xs) auto

lemma strchr_index_nth: "distinct xs \<Longrightarrow> i < length xs \<Longrightarrow> strchr_index xs (xs ! i) = Some i"
  by (metis nth_eq_iff_index_eq nth_mem not_None_eq strchr_index_None strchr_index_Some)

lemma pszBase58_facts: "length pszBase58 = 58" "distinct pszBase58" "pszBase58 ! 0 = CHR ''1''"
  "\<forall>c \<in> set pszBase58. \<not> isspace c \<and> c \<noteq> CHR 0x00"
  by (simp_all add: pszBase58_def isspace_def)

definition digit58 :: "char \<Rightarrow> nat" where "digit58 c = the (strchr_index pszBase58 c)"

lemma digit58_less: "c \<in> set pszBase58 \<Longrightarrow> digit58 c < 58"
  unfolding digit58_def by (metis option.collapse pszBase58_facts(1) strchr_index_None strchr_index_Some)

lemma nth_digit58: "c \<in> set pszBase58 \<Longrightarrow> pszBase58 ! digit58 c = c"
  unfolding digit58_def by (metis option.collapse strchr_index_None strchr_index_Some)

lemma digit58_nth: "d < 58 \<Longrightarrow> digit58 (pszBase58 ! d) = d"
  by (simp add: digit58_def strchr_index_nth pszBase58_facts)

lemma digit58_zero: "c \<in> set pszBase58 \<Longrightarrow> digit58 c = 0 \<longleftrightarrow> c = CHR ''1''"
  by (metis digit58_nth nth_digit58 pszBase58_facts(3) zero_less_numeral)

lemma room_step:
  fixes x m n k B :: nat
  assumes "x < m" and "(n + 1) * m ^ Suc k \<le> B"
  shows "(x + m * n + 1) * m ^ k \<le> B" and "x + m * n < B"
proof -
  have "x + m * n + 1 \<le> (n + 1) * m" using assms(1) by simp
  from mult_le_mono1 [OF this, of "m ^ k"] show *: "(x + m * n + 1) * m ^ k \<le> B" 
    using assms(2) by (simp only: power_Suc mult.assoc)
  have "1 \<le> m ^ k" using assms(1) by simp
  from mult_le_mono2 [OF this, of "x + m * n + 1"] show "x + m * n < B" using * by simp
qed

lemma encode_bytes_value:
  assumes "(num 58 b58 + 1) * 256 ^ length v \<le> 58 ^ length b58" and "\<forall>d \<in> set b58. d < 58"
  shows "\<exists>ds. encode_bytes v b58 = Inr ds \<and> (\<forall>d \<in> set ds. d < 58)
    \<and> num 58 ds = num 58 b58 * 256 ^ length v + num 256 (rev (map unat v))"
  using assms
proof (induction v arbitrary: b58)
  case (Cons x v)
  have x: "unat x < 256" using unsigned_less [of x] by simp
  note room = room_step [OF x Cons.prems(1) [unfolded list.size(4) add_Suc_right add_0_right]]
  obtain ys where ys: "mul_add 58 256 (unat x) b58 = (0, ys)" "length ys = length b58" "\<forall>y \<in> set ys. y < 58"
      "num 58 ys = unat x + 256 * num 58 b58"
    using mul_add_fits [of 58 "unat x" 256 b58] room by auto
  obtain ds where "encode_bytes v ys = Inr ds" "\<forall>d \<in> set ds. d < 58"
      "num 58 ds = num 58 ys * 256 ^ length v + num 256 (rev (map unat v))"
    using Cons.IH [of ys] room ys by auto
  then show ?case using ys by (simp add: num_append algebra_simps)
qed simp

lemma decode_chars_value:
  assumes "(num 256 b256 + 1) * 58 ^ length psz \<le> 256 ^ length b256" and "\<forall>d \<in> set b256. d < 256"
  shows "case decode_chars psz b256 of
      Inl e \<Rightarrow> e = Base58_invalid \<and> \<not> set (takeWhile (\<lambda>c. \<not> isspace c) psz) \<subseteq> set pszBase58
    | Inr (rest, ds) \<Rightarrow> set (takeWhile (\<lambda>c. \<not> isspace c) psz) \<subseteq> set pszBase58 \<and> rest = dropWhile (\<lambda>c. \<not> isspace c) psz
        \<and> (\<forall>d \<in> set ds. d < 256)
        \<and> num 256 ds = num 256 b256 * 58 ^ length (takeWhile (\<lambda>c. \<not> isspace c) psz)
            + num 58 (rev (map digit58 (takeWhile (\<lambda>c. \<not> isspace c) psz)))"
  using assms
proof (induction psz arbitrary: b256)
  case (Cons c psz)
  show ?case
  proof (cases "isspace c \<or> c \<notin> set pszBase58")
    case True
    then show ?thesis using Cons.prems by (auto simp: strchr_index_None [symmetric])
  next
    case False
    then have idx: "strchr_index pszBase58 c = Some (digit58 c)"
      unfolding digit58_def using strchr_index_None by fastforce
    have less: "digit58 c < 58" using False by (simp add: digit58_less)
    note room = room_step [OF less Cons.prems(1) [unfolded list.size(4) add_Suc_right add_0_right]]
    obtain ys where ys: "mul_add 256 58 (digit58 c) b256 = (0, ys)" "length ys = length b256" "\<forall>y \<in> set ys. y < 256"
        "num 256 ys = digit58 c + 58 * num 256 b256"
      using mul_add_fits [of 256 "digit58 c" 58 b256] room by auto
    have "decode_chars (c # psz) b256 = decode_chars psz ys" using False ys by (simp add: idx)
    moreover have "(num 256 ys + 1) * 58 ^ length psz \<le> 256 ^ length ys" using room ys by simp
    note Cons.IH [OF this ys(3)]
    moreover have "num 256 b256 * 58 ^ Suc k + (v + 58 ^ k * digit58 c) = num 256 ys * 58 ^ k + v" for k v
      by (simp add: ys algebra_simps)
    ultimately show ?thesis using False
      by (cases "decode_chars psz ys") (auto simp: num_append)
  qed
qed simp

section \<open>Bytes and text as the same number\<close>

text \<open>
  The text and the bytes have the same number of leading zeroes, and the rest of them is one number without leading zeroes,
  written in base 58 and in base 256.
\<close>

definition same_number :: "bytes \<Rightarrow> string \<Rightarrow> bool" where
  "same_number v u \<longleftrightarrow>
     length (takeWhile (\<lambda>x. x = 0) v) = length (takeWhile (\<lambda>c. c = CHR ''1'') u)
     \<and> set (dropWhile (\<lambda>c. c = CHR ''1'') u) \<subseteq> set pszBase58
     \<and> num 256 (rev (map unat (dropWhile (\<lambda>x. x = 0) v))) = num 58 (rev (map digit58 (dropWhile (\<lambda>c. c = CHR ''1'') u)))"

lemma split_leading: "xs = replicate (length (takeWhile (\<lambda>x. x = a) xs)) a @ dropWhile (\<lambda>x. x = a) xs"
proof -
  have "takeWhile (\<lambda>x. x = a) xs = replicate (length (takeWhile (\<lambda>x. x = a) xs)) a"
    by (rule replicate_eqI) (auto dest: set_takeWhileD)
  then show ?thesis by (metis takeWhile_dropWhile_id)
qed

lemma leading_replicate:
  assumes "ys = [] \<or> hd ys \<noteq> a"
  shows "takeWhile (\<lambda>x. x = a) (replicate n a @ ys) = replicate n a" "dropWhile (\<lambda>x. x = a) (replicate n a @ ys) = ys"
  using assms by (cases ys; simp add: takeWhile_append dropWhile_append)+

lemma no_leading: "dropWhile (\<lambda>x. x = a) xs = [] \<or> hd (dropWhile (\<lambda>x. x = a) xs) \<noteq> a"
  using hd_dropWhile [of "\<lambda>x. x = a" xs] dropWhile_eq_Nil_conv [of "\<lambda>x. x = a" xs] by fastforce

lemma unat_digits: "\<forall>d \<in> set (rev (map unat (p :: bytes))). d < 256"
  using unsigned_less [where 'b = 8] by fastforce

lemma last_rev_map:
  assumes "xs = [] \<or> hd xs \<noteq> a" and "\<And>x. x \<in> set xs \<Longrightarrow> f x = (0 :: nat) \<longleftrightarrow> x = a"
  shows "rev (map f xs) = [] \<or> last (rev (map f xs)) \<noteq> 0"
  using assms by (cases xs) auto

lemma bytes_digits_inj:
  assumes "num 256 (rev (map unat p)) = num 256 (rev (map unat q))"
    and "p = [] \<or> hd p \<noteq> 0" and "q = [] \<or> hd q \<noteq> (0 :: 8 word)"
  shows "p = q"
proof -
  have "rev (map unat p) = rev (map unat q)"
    using assms by (intro num_inj [of 256] unat_digits last_rev_map [where a = 0]) (simp_all add: unsigned_eq_0_iff)
  then show ?thesis by (metis inj_map_eq_map injI rev_is_rev_conv unsigned_word_eqI)
qed

lemma text_digits_inj:
  assumes "num 58 (rev (map digit58 w)) = num 58 (rev (map digit58 u))"
    and "w = [] \<or> hd w \<noteq> CHR ''1''" and "u = [] \<or> hd u \<noteq> CHR ''1''"
    and set: "set w \<subseteq> set pszBase58" "set u \<subseteq> set pszBase58"
  shows "w = u"
proof -
  have "rev (map digit58 w) = rev (map digit58 u)"
    using assms by (intro num_inj [of 58] last_rev_map [where a = "CHR ''1''"]) (auto simp: digit58_zero digit58_less)
  then have "map (\<lambda>d. pszBase58 ! d) (map digit58 w) = map (\<lambda>d. pszBase58 ! d) (map digit58 u)" by simp
  moreover have "map (\<lambda>d. pszBase58 ! d) (map digit58 x) = x" if "set x \<subseteq> set pszBase58" for x
    using that by (induction x) (simp_all add: nth_digit58)
  ultimately show ?thesis using set by metis
qed

lemma same_number_alphabet:
  assumes "same_number v u"
  shows "set u \<subseteq> set pszBase58"
proof
  fix c assume "c \<in> set u"
  then have "c = CHR ''1'' \<or> c \<in> set (dropWhile (\<lambda>c. c = CHR ''1'') u)"
    using split_leading [of u "CHR ''1''"] by (metis UnE in_set_replicate set_append)
  moreover have "CHR ''1'' \<in> set pszBase58" by (simp add: pszBase58_def)
  ultimately show "c \<in> set pszBase58" using assms unfolding same_number_def by blast
qed

lemma same_number_text_unique:
  assumes "same_number v u" and "same_number v u'"
  shows "u = u'"
proof -
  note * = assms [unfolded same_number_def]
  have "dropWhile (\<lambda>c. c = CHR ''1'') u = dropWhile (\<lambda>c. c = CHR ''1'') u'"
    using * by (intro text_digits_inj no_leading) simp_all
  then show ?thesis using * split_leading [of u "CHR ''1''"] split_leading [of u' "CHR ''1''"] by simp
qed

lemma same_number_bytes_unique:
  assumes "same_number v u" and "same_number v' u"
  shows "v = v'"
proof -
  note * = assms [unfolded same_number_def]
  have "dropWhile (\<lambda>x. x = 0) v = dropWhile (\<lambda>x. x = 0) v'"
    using * by (intro bytes_digits_inj no_leading) simp_all
  then show ?thesis using * split_leading [of v 0] split_leading [of v' 0] by simp
qed

lemma EncodeBase58_same_number: "\<exists>u. EncodeBase58 v = Inr u \<and> same_number v u"
proof -
  let ?z = "length (takeWhile (\<lambda>x. x = 0) v)" and ?p = "dropWhile (\<lambda>x. x = 0) v"
  obtain ds where ds: "encode_bytes ?p (replicate (length ?p * 138 div 100 + 1) 0) = Inr ds" "\<forall>d \<in> set ds. d < 58"
      "num 58 ds = num 256 (rev (map unat ?p))"
    using encode_bytes_value [of "replicate (length ?p * 138 div 100 + 1) 0" ?p] encode_size [of "length ?p"] by auto
  let ?D = "dropWhile (\<lambda>d. d = 0) (rev ds)"
  have less: "\<forall>d \<in> set ?D. d < 58" using ds(2) by (auto dest: set_dropWhileD)
  let ?w = "map (\<lambda>d. pszBase58 ! d) ?D"
  have enc: "EncodeBase58 v = Inr (replicate ?z (CHR ''1'') @ ?w)" by (simp only: EncodeBase58_def Let_def ds(1) sum.case)
  have w: "set ?w \<subseteq> set pszBase58" using less pszBase58_facts(1) by auto
  have D: "map digit58 ?w = ?D" using less by (simp add: digit58_nth map_idI)
  have hd: "?w = [] \<or> hd ?w \<noteq> CHR ''1''"
  proof (cases ?D)
    case (Cons d E)
    then have "d \<noteq> 0" using no_leading [of 0 "rev ds"] by simp
    moreover have "d < 58" using less Cons by simp
    ultimately show ?thesis using Cons digit58_nth digit58_zero pszBase58_facts(1) by (metis list.sel(1) list.simps(9) nth_mem)
  qed simp
  have "same_number v (replicate ?z (CHR ''1'') @ ?w)"
    using w D ds(3) num_strip [of 58 ds] by (simp add: same_number_def leading_replicate [OF hd] del: map_map)
  with enc show ?thesis by blast
qed

text \<open>The part of a C string that the decoder reads: white space at both ends does not count.\<close>

definition trim_text :: "string \<Rightarrow> string" where
  "trim_text s = rev (dropWhile isspace (rev (dropWhile isspace (takeWhile (\<lambda>c. c \<noteq> CHR 0x00) s))))"

lemma text_parts:
  assumes "\<forall>c \<in> set u. \<not> isspace c" and "\<forall>c \<in> set sp. isspace c"
  shows "takeWhile (\<lambda>c. c = CHR ''1'') (u @ sp) = takeWhile (\<lambda>c. c = CHR ''1'') u"
    and "dropWhile (\<lambda>c. c = CHR ''1'') (u @ sp) = dropWhile (\<lambda>c. c = CHR ''1'') u @ sp"
    and "takeWhile (\<lambda>c. \<not> isspace c) (dropWhile (\<lambda>c. c = CHR ''1'') u @ sp) = dropWhile (\<lambda>c. c = CHR ''1'') u"
    and "dropWhile (\<lambda>c. \<not> isspace c) (dropWhile (\<lambda>c. c = CHR ''1'') u @ sp) = sp"
    and "rev (dropWhile isspace (rev (u @ sp))) = u"
proof -
  have sp1: "takeWhile (\<lambda>c. c = CHR ''1'') sp = []" "dropWhile (\<lambda>c. c = CHR ''1'') sp = sp"
    "takeWhile (\<lambda>c. \<not> isspace c) sp = []" "dropWhile (\<lambda>c. \<not> isspace c) sp = sp"
    using assms(2) by (cases sp; auto simp: isspace_def)+
  show "takeWhile (\<lambda>c. c = CHR ''1'') (u @ sp) = takeWhile (\<lambda>c. c = CHR ''1'') u"
    using sp1 by (induction u) simp_all
  show "dropWhile (\<lambda>c. c = CHR ''1'') (u @ sp) = dropWhile (\<lambda>c. c = CHR ''1'') u @ sp"
    using sp1 by (induction u) simp_all
  have "\<forall>c \<in> set (dropWhile (\<lambda>c. c = CHR ''1'') u). \<not> isspace c" using assms(1) by (auto dest: set_dropWhileD)
  then show "takeWhile (\<lambda>c. \<not> isspace c) (dropWhile (\<lambda>c. c = CHR ''1'') u @ sp) = dropWhile (\<lambda>c. c = CHR ''1'') u"
    and "dropWhile (\<lambda>c. \<not> isspace c) (dropWhile (\<lambda>c. c = CHR ''1'') u @ sp) = sp"
    using sp1 by simp_all
  have "dropWhile isspace (rev u) = rev u" using assms(1) by (cases u rule: rev_cases) simp_all
  then show "rev (dropWhile isspace (rev (u @ sp))) = u" using assms(2) by (simp add: dropWhile_append)
qed

lemma map_of_nat_bytes:
  assumes "\<forall>d \<in> set E. d < 256"
  shows "map unat (map (of_nat :: nat \<Rightarrow> 8 word) E) = E"
    and "E = [] \<or> hd E \<noteq> 0 \<Longrightarrow> map (of_nat :: nat \<Rightarrow> 8 word) E = [] \<or> hd (map (of_nat :: nat \<Rightarrow> 8 word) E) \<noteq> 0"
proof -
  have u: "unat (of_nat d :: 8 word) = d" if "d < 256" for d using that by (simp add: unat_of_nat take_bit_nat_eq_self)
  then show "map unat (map (of_nat :: nat \<Rightarrow> 8 word) E) = E" using assms by (simp add: map_idI)
  assume "E = [] \<or> hd E \<noteq> 0"
  then show "map (of_nat :: nat \<Rightarrow> 8 word) E = [] \<or> hd (map (of_nat :: nat \<Rightarrow> 8 word) E) \<noteq> 0"
    using assms u by (cases E) (simp, metis hd_map list.discI list.set_intros(1) list.sel(1) unsigned_0)
qed

lemma DecodeBase58_reads:
  assumes "dropWhile isspace (takeWhile (\<lambda>c. c \<noteq> CHR 0x00) s) = u @ sp"
    and "\<forall>c \<in> set u. \<not> isspace c" and "\<forall>c \<in> set sp. isspace c" and "set (dropWhile (\<lambda>c. c = CHR ''1'') u) \<subseteq> set pszBase58"
  shows "\<exists>v. DecodeBase58 s = Inr v \<and> same_number v u"
proof -
  note parts = text_parts [OF assms(2,3)]
  let ?w = "dropWhile (\<lambda>c. c = CHR ''1'') u" and ?z = "length (takeWhile (\<lambda>c. c = CHR ''1'') u)"
  let ?b = "replicate (length (?w @ sp) * 733 div 1000 + 1) 0 :: nat list"
  have "(num 256 ?b + 1) * 58 ^ length (?w @ sp) \<le> 256 ^ length ?b" "\<forall>d \<in> set ?b. d < 256"
    using decode_size [of "length (?w @ sp)"] by simp_all
  note run = decode_chars_value [OF this, unfolded parts]
  obtain ds where ds: "decode_chars (?w @ sp) ?b = Inr (sp, ds)" "\<forall>d \<in> set ds. d < 256"
      "num 256 ds = num 58 (rev (map digit58 ?w))"
    using run assms(4) by (cases "decode_chars (?w @ sp) ?b") auto
  let ?E = "dropWhile (\<lambda>d. d = 0) (rev ds)"
  have E: "\<forall>d \<in> set ?E. d < 256" using ds(2) by (auto dest: set_dropWhileD)
  note bytes = map_of_nat_bytes(1) [OF E] leading_replicate [OF map_of_nat_bytes(2) [OF E no_leading]]
  have "dropWhile isspace sp = []" using assms(3) by simp
  then have "DecodeBase58 s = Inr (replicate ?z 0 @ map of_nat ?E)"
    by (simp only: DecodeBase58_def Let_def assms(1) parts ds(1) sum.case prod.case if_False not_True_eq_False simp_thms)
  moreover have "same_number (replicate ?z 0 @ map of_nat ?E) u"
    unfolding same_number_def bytes using assms(4) ds(3) num_strip [of 256 ds] by simp
  ultimately show ?thesis by blast
qed

lemma DecodeBase58_cases:
  assumes "DecodeBase58 s \<noteq> Inl Base58_invalid"
  shows "\<exists>u sp. dropWhile isspace (takeWhile (\<lambda>c. c \<noteq> CHR 0x00) s) = u @ sp \<and> (\<forall>c \<in> set u. \<not> isspace c)
    \<and> (\<forall>c \<in> set sp. isspace c) \<and> set (dropWhile (\<lambda>c. c = CHR ''1'') u) \<subseteq> set pszBase58"
proof -
  define t where "t = dropWhile isspace (takeWhile (\<lambda>c. c \<noteq> CHR 0x00) s)"
  define t' where "t' = dropWhile (\<lambda>c. c = CHR ''1'') t"
  define b where "b = (replicate (length t' * 733 div 1000 + 1) 0 :: nat list)"
  let ?o = "takeWhile (\<lambda>c. c = CHR ''1'') t" and ?w = "takeWhile (\<lambda>c. \<not> isspace c) t'" and ?sp = "dropWhile (\<lambda>c. \<not> isspace c) t'"
  have "(num 256 b + 1) * 58 ^ length t' \<le> 256 ^ length b" "\<forall>d \<in> set b. d < 256"
    using decode_size [of "length t'"] by (simp_all add: b_def)
  note run = decode_chars_value [OF this]
  have eq: "DecodeBase58 s = (case decode_chars t' b of Inl e \<Rightarrow> Inl e | Inr (rest, b256) \<Rightarrow>
      if dropWhile isspace rest \<noteq> [] then Inl Base58_invalid
      else Inr (replicate (length ?o) 0 @ map of_nat (dropWhile (\<lambda>d. d = 0) (rev b256))))"
    by (simp only: DecodeBase58_def Let_def t_def t'_def b_def)
  obtain ds where ds: "decode_chars t' b = Inr (?sp, ds)" "set ?w \<subseteq> set pszBase58"
    using run assms eq by (cases "decode_chars t' b") auto
  have "dropWhile isspace ?sp = []"
  proof (rule ccontr)
    assume "dropWhile isspace ?sp \<noteq> []"
    then have "DecodeBase58 s = Inl Base58_invalid" unfolding eq ds(1) sum.case prod.case by (rule if_P)
    then show False using assms by blast
  qed
  then have "\<forall>c \<in> set ?sp. isspace c" by (simp only: dropWhile_eq_Nil_conv)
  moreover have "t = (?o @ ?w) @ ?sp" by (simp add: t'_def)
  moreover have "\<forall>c \<in> set (?o @ ?w). \<not> isspace c" by (auto dest!: set_takeWhileD simp: isspace_def)
  moreover have "set (dropWhile (\<lambda>c. c = CHR ''1'') (?o @ ?w)) \<subseteq> set pszBase58"
  proof -
    have "dropWhile (\<lambda>c. c = CHR ''1'') (?o @ ?w) = dropWhile (\<lambda>c. c = CHR ''1'') ?w"
      by (rule dropWhile_append2) (blast dest: set_takeWhileD)
    moreover have "set (dropWhile (\<lambda>c. c = CHR ''1'') ?w) \<subseteq> set ?w" by (blast dest: set_dropWhileD)
    ultimately show ?thesis using ds(2) by (metis order_trans)
  qed
  ultimately show ?thesis unfolding t_def by blast
qed

lemma DecodeBase58_iff: "DecodeBase58 s = Inr v \<longleftrightarrow> same_number v (trim_text s)"
proof
  assume dec: "DecodeBase58 s = Inr v"
  then obtain u sp where u: "dropWhile isspace (takeWhile (\<lambda>c. c \<noteq> CHR 0x00) s) = u @ sp" "\<forall>c \<in> set u. \<not> isspace c"
      "\<forall>c \<in> set sp. isspace c" "set (dropWhile (\<lambda>c. c = CHR ''1'') u) \<subseteq> set pszBase58"
    using DecodeBase58_cases [of s] by auto
  have "same_number v u" using DecodeBase58_reads [OF u] dec by auto
  then show "same_number v (trim_text s)" unfolding trim_text_def u(1) text_parts(5) [OF u(2,3)] .
next
  assume same: "same_number v (trim_text s)"
  define t where "t = dropWhile isspace (takeWhile (\<lambda>c. c \<noteq> CHR 0x00) s)"
  have parts: "t = trim_text s @ rev (takeWhile isspace (rev t))"
    unfolding trim_text_def t_def [symmetric] by (metis rev_append rev_rev_ident takeWhile_dropWhile_id)
  have al: "set (dropWhile (\<lambda>c. c = CHR ''1'') (trim_text s)) \<subseteq> set pszBase58" using same by (simp add: same_number_def)
  have ns: "\<forall>c \<in> set (trim_text s). \<not> isspace c"
    using same_number_alphabet [OF same] pszBase58_facts(4) by blast
  have "\<forall>c \<in> set (rev (takeWhile isspace (rev t))). isspace c" by (auto dest: set_takeWhileD)
  from DecodeBase58_reads [OF parts [unfolded t_def] ns this [unfolded t_def] al] obtain v' where
    "DecodeBase58 s = Inr v'" "same_number v' (trim_text s)" by blast
  then show "DecodeBase58 s = Inr v" using same_number_bytes_unique [OF same] by simp
qed

lemma EncodeBase58_iff: "EncodeBase58 v = Inr u \<longleftrightarrow> same_number v u"
  using EncodeBase58_same_number [of v] same_number_text_unique [of v] by auto

lemma trim_encoded:
  assumes "EncodeBase58 v = Inr u"
  shows "trim_text u = u"
proof -
  have same: "same_number v u" using assms by (simp add: EncodeBase58_iff)
  have "\<forall>c \<in> set u. \<not> isspace c \<and> c \<noteq> CHR 0x00"
    using same_number_alphabet [OF same] pszBase58_facts(4) by blast
  then have "takeWhile (\<lambda>c. c \<noteq> CHR 0x00) u = u" "dropWhile isspace u = u" "\<forall>c \<in> set u. \<not> isspace c"
    by (auto simp: takeWhile_eq_all_conv dropWhile_eq_self_iff)
  note u = this
  show ?thesis unfolding trim_text_def u(1,2) using text_parts(5) [of u "[]"] u(3) by simp
qed

section \<open>Checksums, addresses and secret keys\<close>

lemma length_Hash_ranges: "length (Hash_ranges ranges) = 32"
  unfolding Hash_ranges_def CHash256_digest_of by (rule length_fips_sha256)

lemma DecodeBase58Check_iff: "DecodeBase58Check s = Inr body \<longleftrightarrow> EncodeBase58Check body = Inr (trim_text s)"
proof -
  have "DecodeBase58Check s = Inr body \<longleftrightarrow> DecodeBase58 s = Inr (body @ take 4 (Hash_ranges [body]))"
  proof
    assume "DecodeBase58Check s = Inr body"
    then obtain v where v: "DecodeBase58 s = Inr v" "body = take (length v - 4) v" "take 4 (Hash_ranges [body]) = drop (length v - 4) v"
      by (auto simp: DecodeBase58Check_def Let_def split: sum.splits if_splits)
    then have "v = body @ take 4 (Hash_ranges [body])" by (metis append_take_drop_id)
    then show "DecodeBase58 s = Inr (body @ take 4 (Hash_ranges [body]))" using v(1) by simp
  next
    assume "DecodeBase58 s = Inr (body @ take 4 (Hash_ranges [body]))"
    then show "DecodeBase58Check s = Inr body" by (simp add: DecodeBase58Check_def Let_def length_Hash_ranges)
  qed
  then show ?thesis by (simp add: DecodeBase58_iff EncodeBase58_iff EncodeBase58Check_def)
qed

lemma SetString_iff: "SetString s n = Inr (True, d) \<longleftrightarrow> ToString d = Inr (trim_text s) \<and> length (vchVersion d) = n"
proof
  assume "SetString s n = Inr (True, d)"
  then obtain b where "DecodeBase58Check s = Inr b" "\<not> length b < n" "d = \<lparr>vchVersion = take n b, vchData = drop n b\<rparr>"
    by (auto simp: SetString_def split: sum.splits base58_error.splits if_splits)
  then show "ToString d = Inr (trim_text s) \<and> length (vchVersion d) = n" by (simp add: ToString_def DecodeBase58Check_iff)
next
  assume "ToString d = Inr (trim_text s) \<and> length (vchVersion d) = n"
  then have "DecodeBase58Check s = Inr (vchVersion d @ vchData d)" "length (vchVersion d) = n"
    by (simp_all add: ToString_def DecodeBase58Check_iff)
  then show "SetString s n = Inr (True, d)" by (auto simp: SetString_def)
qed

lemma ToString_defined: "\<exists>str. ToString d = Inr str \<and> trim_text str = str"
  unfolding ToString_def EncodeBase58Check_def using EncodeBase58_same_number trim_encoded by blast

text \<open>The texts from which a secret key is read are the printed key and this text between white space.\<close>

lemma secret_text:
  assumes "length (SECRET_KEY par) = 1" and "length k = 32"
  shows "(\<exists>d. Secret_SetString par s = Inr (True, d) \<and> Secret_GetKey d = Some (k, c))
    \<longleftrightarrow> ToString (Secret_SetKey par k c) = Inr (trim_text s)"
proof -
  have *: "Secret_SetString par s = Inr (True, d) \<longleftrightarrow> SetString s 1 = Inr (True, d) \<and> Secret_IsValid par d" for d
    by (auto simp: Secret_SetString_def split: sum.splits)
  have **: "Secret_IsValid par d \<and> Secret_GetKey d = Some (k, c) \<longleftrightarrow> d = Secret_SetKey par k c" for d
  proof
    assume d: "Secret_IsValid par d \<and> Secret_GetKey d = Some (k, c)"
    show "d = Secret_SetKey par k c"
    proof (cases "length (vchData d) = 32")
      case True
      then show ?thesis using d by (cases d) (auto simp: Secret_IsValid_def Secret_GetKey_def Secret_SetKey_def SetData_def)
    next
      case False
      then have len: "length (vchData d) = Suc 32" "vchData d ! 32 = 1" using d by (auto simp: Secret_IsValid_def)
      have "vchData d = take 32 (vchData d) @ [vchData d ! 32]"
        using take_Suc_conv_app_nth [of 32 "vchData d"] len by simp
      then show ?thesis using d len by (cases d) (auto simp: Secret_IsValid_def Secret_GetKey_def Secret_SetKey_def SetData_def)
    qed
  qed (use assms(2) in \<open>auto simp: Secret_IsValid_def Secret_GetKey_def Secret_SetKey_def SetData_def nth_append\<close>)
  have "(\<exists>d. Secret_SetString par s = Inr (True, d) \<and> Secret_GetKey d = Some (k, c))
      \<longleftrightarrow> SetString s 1 = Inr (True, Secret_SetKey par k c)"
    unfolding * conj_assoc ** by simp
  then show ?thesis using assms(1) by (simp add: SetString_iff) (simp add: Secret_SetKey_def SetData_def)
qed

section \<open>Properties\<close>

text \<open>
  C21: Base 58 is total, faithful and canonical.  The encoder reserves enough room for every input, so that its assertion never
  fails, and neither does the decoder's on any text.  A text decodes to some bytes exactly when, white space at both ends apart,
  it is the encoding of these bytes; in particular the decoder inverts the encoder, and no two texts without white space
  decode to the same bytes.
\<close>

theorem Base58_roundtrip:
  "(\<exists>u. EncodeBase58 v = Inr u \<and> DecodeBase58 u = Inr v) \<and> DecodeBase58 s \<noteq> Inl Base58_assert
   \<and> (DecodeBase58 s = Inr v \<longleftrightarrow> EncodeBase58 v = Inr (trim_text s))"
proof (intro conjI)
  obtain u where u: "EncodeBase58 v = Inr u" "same_number v u" using EncodeBase58_same_number by blast
  then show "\<exists>u. EncodeBase58 v = Inr u \<and> DecodeBase58 u = Inr v" using trim_encoded [OF u(1)] by (simp add: DecodeBase58_iff)
  show "DecodeBase58 s = Inr v \<longleftrightarrow> EncodeBase58 v = Inr (trim_text s)" by (simp add: DecodeBase58_iff EncodeBase58_iff)
  show "DecodeBase58 s \<noteq> Inl Base58_assert"
  proof
    assume failed: "DecodeBase58 s = Inl Base58_assert"
    then obtain u sp where "dropWhile isspace (takeWhile (\<lambda>c. c \<noteq> CHR 0x00) s) = u @ sp" "\<forall>c \<in> set u. \<not> isspace c"
        "\<forall>c \<in> set sp. isspace c" "set (dropWhile (\<lambda>c. c = CHR ''1'') u) \<subseteq> set pszBase58"
      using DecodeBase58_cases [of s] by auto
    from DecodeBase58_reads [OF this] failed show False by auto
  qed
qed

text \<open>
  C22: Addresses.  For prefixes of one byte that differ, every destination with a hash of twenty bytes has one address, and the
  texts from which the destination is read are exactly this address and the address between white space: what is printed
  is read back as the same destination, and no text with another version, another length or a wrong checksum gives it.
\<close>

theorem address_text:
  assumes "length (PUBKEY_ADDRESS par) = 1" and "length (SCRIPT_ADDRESS par) = 1" and "PUBKEY_ADDRESS par \<noteq> SCRIPT_ADDRESS par"
    and "dest = CKeyID i \<or> dest = CScriptID i" and "length i = 20"
  shows "(\<exists>str. ToString (snd (Address_Set par dest addr)) = Inr str \<and> trim_text str = str)
    \<and> (\<forall>s. (\<exists>d. SetString s 1 = Inr (True, d) \<and> Address_Get par d = dest)
          \<longleftrightarrow> ToString (snd (Address_Set par dest addr)) = Inr (trim_text s))"
proof (intro conjI allI)
  show "\<exists>str. ToString (snd (Address_Set par dest addr)) = Inr str \<and> trim_text str = str" by (rule ToString_defined)
  fix s
  have "Address_Get par d = dest \<longleftrightarrow> d = snd (Address_Set par dest addr)" for d
    using assms by (cases d) (auto simp: Address_Get_def Address_IsValid_def Address_Set_def SetData_def)
  moreover have "length (vchVersion (snd (Address_Set par dest addr))) = 1"
    using assms by (auto simp: Address_Set_def SetData_def)
  ultimately show "(\<exists>d. SetString s 1 = Inr (True, d) \<and> Address_Get par d = dest)
      \<longleftrightarrow> ToString (snd (Address_Set par dest addr)) = Inr (trim_text s)"
    by (simp add: SetString_iff)
qed

theorem address_text_witness:
  "(\<exists>str d. ToString (snd (Address_Set main_prefixes (CKeyID (replicate 20 7)) CBase58Data_new)) = Inr str
     \<and> SetString str 1 = Inr (True, d) \<and> Address_Get main_prefixes d = CKeyID (replicate 20 7))"
proof -
  have "length (PUBKEY_ADDRESS main_prefixes) = 1" "length (SCRIPT_ADDRESS main_prefixes) = 1"
    "PUBKEY_ADDRESS main_prefixes \<noteq> SCRIPT_ADDRESS main_prefixes" "length (replicate 20 (7 :: 8 word)) = 20"
    by (simp_all add: main_prefixes_def)
  from address_text [OF this(1-3) disjI1 [OF refl] this(4), of CBase58Data_new]
  show ?thesis by metis
qed

end
