(* ===== verification/Spec2Isabelle.thy ===== *)
theory Spec2Isabelle
  imports Pow Verify PartialMerkle Conservation Standard IndexOps Mempool Base58
begin

text \<open>
  A verification development for the consensus core of the hbcur node (\<^verbatim>\<open>src/src\<close>, a descendant of
  Bitcoin, Dash and PIVX).  Paths below are relative to \<^verbatim>\<open>src/src\<close>.

  \<^bold>\<open>The program.\<close>  A node keeps a tree of block headers and one active chain of it, and with the
  chain the set of unspent coins.  A block is checked on its own, its proof of work against a target computed from
  its predecessors, its transactions against the coins, and each spent coin by running a script that checks
  signatures; then the coins are updated in a stack of caches over a database, with undo data to take the block back.

  \<^bold>\<open>Theories and sources.\<close>
  \<^item> \<open>Prelude\<close>: shared lemmas on lists, words and byte sequences, and the collections of simplification rules.
  \<^item> \<open>Uint256\<close>: \<^verbatim>\<open>uint256.h/.cpp\<close>.  Numbers as little-endian lists of 32-bit limbs; the carry loops,
    shifts, long division and the compact format.
  \<^item> \<open>Serialize\<close>: \<^verbatim>\<open>serialize.h\<close>.  Writers return bytes, readers return an error or a value and the rest
    of the input.  The locales \<open>codec\<close> and \<open>canonical_codec\<close> state what a pair of them promises and are
    interpreted on every format.
  \<^item> \<open>Transaction\<close>: \<^verbatim>\<open>primitives/transaction.h/.cpp\<close>, \<^verbatim>\<open>amount.h/.cpp\<close>.
  \<^item> \<open>Chain\<close>: \<^verbatim>\<open>chain.h/.cpp\<close>.  Index entries live in an explicit store; pointers are keys of it.
  \<^item> \<open>Pow\<close>: \<^verbatim>\<open>pow.cpp\<close>.
  \<^item> \<open>Script\<close>: \<^verbatim>\<open>script/script.h/.cpp\<close>.  \<open>Signature\<close>: \<^verbatim>\<open>eccryptoverify.cpp\<close>, \<^verbatim>\<open>pubkey.h\<close>
    and the encodings of \<^verbatim>\<open>script/interpreter.cpp\<close>.  \<open>Interpreter\<close> and \<open>Verify\<close>: \<^verbatim>\<open>EvalScript\<close>,
    \<^verbatim>\<open>VerifyScript\<close>, \<^verbatim>\<open>SignatureHash\<close> and the signature checker.
  \<^item> \<open>Hashing\<close>, \<open>Sha1\<close>, \<open>Sha2\<close>, \<open>Ripemd160\<close>, \<open>Hash\<close>: \<^verbatim>\<open>crypto/\<close> and \<^verbatim>\<open>hash.h/.cpp\<close>.  The buffering of
    the hash classes is a locale, interpreted on the four classes.  The digests of the standards are defined beside the code they are
    compared with and use none of its functions and constants.
  \<^item> \<open>Merkle\<close>: the tree and branches of \<^verbatim>\<open>primitives/block.cpp\<close>.  \<open>PartialMerkle\<close>: \<^verbatim>\<open>merkleblock.h/.cpp\<close>.
  \<^item> \<open>Compressor\<close>: \<^verbatim>\<open>compressor.h/.cpp\<close>.  \<open>Coins\<close>: \<^verbatim>\<open>CCoins\<close> and \<^verbatim>\<open>CTxInUndo\<close> of \<^verbatim>\<open>coins.h/.cpp\<close> and
    \<^verbatim>\<open>undo.h\<close>.
  \<^item> \<open>CoinsView\<close>: the caches of \<^verbatim>\<open>coins.h/.cpp\<close> and the database of \<^verbatim>\<open>txdb.cpp\<close>.  The virtual class
    \<^verbatim>\<open>CCoinsView\<close> is a record of methods; the locale \<open>coins_store\<close> says what it promises to a cache above it.
    The database is one interpretation, a cache over the database another.
  \<^item> \<open>Validation\<close>: \<^verbatim>\<open>CValidationState\<close>, \<^verbatim>\<open>CheckTransaction\<close>, \<^verbatim>\<open>CheckBlock\<close> of \<^verbatim>\<open>main.h/.cpp\<close>.
  \<^item> \<open>Connect\<close>: \<^verbatim>\<open>UpdateCoins\<close> and \<^verbatim>\<open>DisconnectBlock\<close>; \<open>BlockConnect\<close>: \<^verbatim>\<open>CheckInputs\<close>, \<^verbatim>\<open>ConnectBlock\<close> and
    \<^verbatim>\<open>IsBlockValueValid\<close> of \<^verbatim>\<open>masternode-payments.cpp\<close>.  Their lemmas are proved in the locale
    \<open>coin_client\<close>, an extension of \<open>coins_store\<close>, for every view below the cache they work on.
  \<^item> \<open>Conservation\<close>: the properties of connecting and disconnecting blocks over the whole stack.
  \<^item> \<open>Standard\<close>: \<^verbatim>\<open>script/standard.h/.cpp\<close> and the policy of \<^verbatim>\<open>main.cpp\<close> for transactions and their inputs.
  \<^item> \<open>ChainState\<close>: the state of \<^verbatim>\<open>main.cpp\<close> (index, active chain, candidates, coins at the tip) and the operations that
    move the tip, up to \<^verbatim>\<open>ActivateBestChain\<close>; \<open>Activation\<close>: their invariants and properties; \<open>IndexOps\<close>: \<^verbatim>\<open>AddToBlockIndex\<close>,
    \<^verbatim>\<open>InvalidateBlock\<close> and \<^verbatim>\<open>ReconsiderBlock\<close>.
  \<^item> \<open>Mempool\<close>: the maps of \<^verbatim>\<open>txmempool.h/.cpp\<close> and the operations on them; a pointer into the pool is the key of its node.
  \<^item> \<open>Base58\<close>: \<^verbatim>\<open>base58.h/.cpp\<close> and the prefixes of \<^verbatim>\<open>chainparams.cpp\<close>.

  \<^bold>\<open>Conventions.\<close>  An assertion of the code is an error value, \<open>None\<close> where nothing else can go wrong; an early return
  is a value on the left of a sum.  Amounts (\<^verbatim>\<open>int64_t\<close>) are integers, wrapped by \<open>wrap64\<close> where the code
  adds them without a check; unsigned counters that can wrap are words.  Most loops are total by structural recursion on
  the list they walk, or by a measure (a row of a Merkle tree, the exponent of an amount, the chunks of a vector).  The
  loops that follow pointers in the block tree may not end on a malformed tree; they are partial functions into
  \<open>option\<close>, and the properties show that they return on well-formed trees.  No fuel is used.

  \<^bold>\<open>Parameters.\<close>  What the repository gets from libraries or I/O is an argument: the verification of an ECDSA signature,
  validity and decompression of a public key (with the hypothesis \<open>ec_recovers\<close> that decompressing undoes the
  compression of a valid key), the hash of a block header, reading and batch writing of LevelDB (hypothesis
  \<open>leveldb_ok\<close>: a batch is applied as a whole or not at all), the results of disk writes, the clock, the sporks and
  locks, the verdict on the payee of a block, the answers of the proof-of-stake kernel for a new index entry and the address of
  that entry.  The hash of a transaction is a field of the transaction, as in the code.  Serialized sizes are natural numbers;
  they differ from the 32-bit results of \<^verbatim>\<open>GetSerializeSize\<close> above 4 GiB only.

  \<^bold>\<open>What is shown.\<close>
  \<^item> Blocks: a block that \<^verbatim>\<open>ConnectBlock\<close> accepts satisfies the rules written over the set of coins, and the
    view then holds the coins with the block applied; disconnecting it restores them, if it has replaced no unspent record and
    spent no last output of a coinstake record; the value of all coins grows by what the block mints, less what it burns and
    replaces.  The checks of blocks and transactions accept exactly what the written rules describe.
  \<^item> Coins: the stack of caches and the database refine one map; records survive their compact formats.
  \<^item> Merkle trees: root, branches and partial trees of a known height determine transactions up to a collision of the hash.
  \<^item> Scripts: what successful evaluation implies, the limits it keeps, the outcome for the standard forms of
    payment, matching of multiple signatures, what a signature commits to, and which scripts are recognised as standard.
  \<^item> Chain and work: the skip list, moving the tip, locators, the next target and the proof-of-work check; which
    candidate is the best, and that activating it ends with no better candidate left; new entries keep the index well-formed,
    and reconsidering a block clears the marks of its branch.
  \<^item> Memory pool: no two transactions spend the same output, whatever the order of operations, and a recursive removal takes
    exactly the descendants.
  \<^item> Formats and numbers: canonical encodings, exact arithmetic of limbs, the digests of the hash classes, base 58 and addresses.
  \<^item> Two theorems show where the code departs from its intent: the size of a coins record, and the coinstake mark lost on
    disconnection.

  \<^bold>\<open>Not modelled.\<close>  User interface, RPC, wallet, networking, masternodes, mixing and locks, start-up and files;
  floating-point priorities; the third-party hash functions of the block header; the signature cache, which is taken to be
  transparent, and the script threads, whose checks are run in order.

  \<^bold>\<open>What is left.\<close>  Acceptance of blocks and headers (it reads and writes files and calls the proof-of-stake kernel, which
  walks the chain with its own hashes), admission to the memory pool and its fee estimates (floating-point numbers),
  bloom filters and the other text encodings.  The components above do not depend on them.
\<close>

end
